(* ===== verification/Prelude.thy ===== *)
theory Prelude
  imports Main "HOL-Library.Word" "HOL-Library.AList" "HOL-Library.Char_ord"
    "HOL-Library.List_Lexorder"
begin

text \<open>
  Vocabulary shared by every component of the development.

  \<^item> \<open>failure\<close> and \<open>res\<close>: what a Go call gives back. \<open>Inl (Error e)\<close> is a returned
    \<open>error\<close>, \<open>Inl Panic\<close> a run-time panic (index out of range, failed type assertion, nil
    dereference, division by zero), \<open>Inl OutOfFuel\<close> a loop that used up the fuel it was given (the
    properties that run a loop say how much is enough), and \<open>Inr x\<close> a normal result.
  \<^item> \<open>go\<close>: a stateful call, \<open>'s \<Rightarrow> 'a res \<times> 's\<close>, with \<open>ret\<close>, \<open>bnd\<close> (the
    \<open>if err != nil { return err }\<close> sequencing), \<open>with_defer\<close> (\<open>defer\<close>) and friends.
  \<^item> \<open>bslice\<close> and \<open>bsplice\<close>: reading and overwriting a byte range, with the algebra the page
    layer, the log and the record layout share.
  \<^item> Go strings are byte sequences: Isabelle's \<open>string\<close> (8-bit characters).
\<close>

section \<open>Errors and results\<close>

text \<open>One constructor for each place the code creates an error; wrapping (\<open>fmt.Errorf\<close> with
  \<open>%v\<close> or \<open>%w\<close>) keeps the wrapped error.\<close>

datatype error =
    ESeek | EPartialRead
  | EInvalidUTF8 | EStringInvalidUTF8
  | ENoMoreLogRecords
  | EBufferAbort
  | ESLockAbort | EXLockAbort
  | EBufferNotFound
  | EUnknownLogRecordCode
  | ESlotTooLarge | ENoSlotFound
  | ETypeMismatch | EUnsupportedFieldType
  | EInvalidOperator
  | ESyntax
  | EFieldNotFound | EUpdateNotSupported | EInsertNotSupported | EDeleteNotSupported
  | EMoveNotSupported
  | EViewNotFound
  | EHashUnsupported | EUnknownKeyType

datatype failure = Error error | Panic | OutOfFuel

type_synonym 'a res = "failure + 'a"

abbreviation Err :: "error \<Rightarrow> 'a res" where
  "Err e \<equiv> Inl (Error e)"

text \<open>Sequencing of pure fallible calls.\<close>

definition rbind :: "'a res \<Rightarrow> ('a \<Rightarrow> 'b res) \<Rightarrow> 'b res" where
  "rbind m f = (case m of Inl e \<Rightarrow> Inl e | Inr x \<Rightarrow> f x)"

lemma rbind_simps [simp]:
  "rbind (Inl e) f = Inl e"
  "rbind (Inr x) f = f x"
  by (simp_all add: rbind_def)

lemma rbind_eq_Inr: "rbind m f = Inr y \<longleftrightarrow> (\<exists>x. m = Inr x \<and> f x = Inr y)"
  by (cases m) simp_all

section \<open>Stateful calls\<close>

type_synonym ('s, 'a) go = "'s \<Rightarrow> 'a res \<times> 's"

definition ret :: "'a \<Rightarrow> ('s, 'a) go" where
  "ret x s = (Inr x, s)"

definition fail :: "error \<Rightarrow> ('s, 'a) go" where
  "fail e s = (Err e, s)"

definition panic :: "('s, 'a) go" where
  "panic s = (Inl Panic, s)"

definition bnd :: "('s, 'a) go \<Rightarrow> ('a \<Rightarrow> ('s, 'b) go) \<Rightarrow> ('s, 'b) go" where
  "bnd m f s = (case m s of (Inl e, s') \<Rightarrow> (Inl e, s') | (Inr x, s') \<Rightarrow> f x s')"

definition gets :: "('s \<Rightarrow> 'a) \<Rightarrow> ('s, 'a) go" where
  "gets f s = (Inr (f s), s)"

definition modify :: "('s \<Rightarrow> 's) \<Rightarrow> ('s, unit) go" where
  "modify f s = (Inr (), f s)"

definition lift_res :: "'a res \<Rightarrow> ('s, 'a) go" where
  "lift_res r s = (r, s)"

text \<open>\<open>defer\<close>: the deferred call runs whatever the body returned, and the body's result is kept.\<close>

definition with_defer :: "('s, 'a) go \<Rightarrow> ('s, unit) go \<Rightarrow> ('s, 'a) go" where
  "with_defer m d s = (case m s of (r, s') \<Rightarrow>
     (case d s' of (Inl Panic, s'') \<Rightarrow> (Inl Panic, s'') | (_, s'') \<Rightarrow> (r, s'')))"

text \<open>A call whose returned error is handled on the spot; panics go through.\<close>

definition handle :: "('s, 'a) go \<Rightarrow> ('a \<Rightarrow> ('s, 'b) go) \<Rightarrow> (error \<Rightarrow> ('s, 'b) go) \<Rightarrow> ('s, 'b) go" where
  "handle m f h s = (case m s of (Inr x, s') \<Rightarrow> f x s' | (Inl (Error e), s') \<Rightarrow> h e s'
     | (Inl Panic, s') \<Rightarrow> (Inl Panic, s') | (Inl OutOfFuel, s') \<Rightarrow> (Inl OutOfFuel, s'))"

lemma handle_Inr: "m s = (Inr x, s') \<Longrightarrow> handle m f h s = f x s'"
  and handle_Err: "m s = (Err e, s') \<Longrightarrow> handle m f h s = h e s'"
  by (simp_all add: handle_def)

text \<open>A close that follows a call on every path but a panic, and one that follows its error only.\<close>

definition closing :: "('s, 'a) go \<Rightarrow> ('s, unit) go \<Rightarrow> ('s, 'a) go" where
  "closing m d = handle m (\<lambda>x. bnd d (\<lambda>_. ret x)) (\<lambda>e. bnd d (\<lambda>_. fail e))"

definition close_on_error :: "('s, 'a) go \<Rightarrow> ('s, unit) go \<Rightarrow> ('s, 'a) go" where
  "close_on_error m d = handle m ret (\<lambda>e. bnd d (\<lambda>_. fail e))"

text \<open>A method of an object that is held beside the state: access to the object and to the state,
  and a call of such a method on an object that is dropped afterwards.\<close>

definition obj_gets :: "('o \<Rightarrow> 'a) \<Rightarrow> ('o \<times> 's, 'a) go" where
  "obj_gets f = gets (\<lambda>(x, s). f x)"

definition obj_upd :: "('o \<Rightarrow> 'o) \<Rightarrow> ('o \<times> 's, unit) go" where
  "obj_upd f = modify (\<lambda>(x, s). (f x, s))"

definition on_state :: "('s, 'a) go \<Rightarrow> ('o \<times> 's, 'a) go" where
  "on_state m = (\<lambda>(x, s). case m s of (r, s') \<Rightarrow> (r, (x, s')))"

definition run_local :: "'o \<Rightarrow> ('o \<times> 's, 'a) go \<Rightarrow> ('s, 'a) go" where
  "run_local x m s = (case m (x, s) of (r, (x', s')) \<Rightarrow> (r, s'))"

text \<open>A loop over a list whose body may fail.\<close>

fun for_each :: "'b list \<Rightarrow> ('b \<Rightarrow> ('s, unit) go) \<Rightarrow> ('s, unit) go" where
  "for_each [] f = ret ()"
| "for_each (x # xs) f = bnd (f x) (\<lambda>_. for_each xs f)"

named_theorems go_simps \<open>unfolding rules of the stateful-call vocabulary\<close>

lemma go_unfold [go_simps]:
  "ret x s = (Inr x, s)"
  "fail e s = (Err e, s)"
  "panic s = (Inl Panic, s)"
  "gets f s = (Inr (f s), s)"
  "modify g s = (Inr (), g s)"
  "lift_res r s = (r, s)"
  by (simp_all add: ret_def fail_def panic_def gets_def modify_def lift_res_def)

lemma bnd_Inl: "m s = (Inl e, s') \<Longrightarrow> bnd m f s = (Inl e, s')"
  and bnd_Inr: "m s = (Inr x, s') \<Longrightarrow> bnd m f s = f x s'"
  by (simp_all add: bnd_def)

lemma bnd_simps [go_simps]:
  "bnd (ret x) f s = f x s"
  "bnd (fail e) f s = (Err e, s)"
  "bnd panic f s = (Inl Panic, s)"
  "bnd (gets g) f s = f (g s) s"
  "bnd (modify h) k s = k () (h s)"
  "bnd (lift_res (Inr x)) f s = f x s"
  "bnd (lift_res (Inl b)) f s = (Inl b, s)"
  by (simp_all add: bnd_def go_unfold)

lemma bnd_eq_Inr:
  "bnd m f s = (Inr y, s'') \<longleftrightarrow> (\<exists>x s'. m s = (Inr x, s') \<and> f x s' = (Inr y, s''))"
  by (auto simp: bnd_def split: prod.splits sum.splits)

lemma bnd_cases:
  assumes "bnd m f s = (r, s'')"
  obtains (fail) e where "m s = (Inl e, s'')" and "r = Inl e"
  | (ok) x s' where "m s = (Inr x, s')" and "f x s' = (r, s'')"
  using assms by (auto simp: bnd_def split: prod.splits sum.splits)

lemma bnd_assoc: "bnd (bnd m f) g = bnd m (\<lambda>x. bnd (f x) g)"
  by (rule ext) (simp add: bnd_def split: prod.splits sum.splits)

text \<open>\<open>keeps I m\<close>: the call \<open>m\<close> leaves \<open>I\<close> true, whatever it returns. The rules of
  \<open>keeps_intro\<close> reduce a composed call to its parts.\<close>

definition keeps :: "('s \<Rightarrow> bool) \<Rightarrow> ('s, 'a) go \<Rightarrow> bool" where
  "keeps I m \<longleftrightarrow> (\<forall>s. I s \<longrightarrow> I (snd (m s)))"

named_theorems keeps_intro \<open>rules that build invariant preservation along a call's structure\<close>

lemma keepsI: "(\<And>s r s'. I s \<Longrightarrow> m s = (r, s') \<Longrightarrow> I s') \<Longrightarrow> keeps I m"
  unfolding keeps_def by (metis prod.collapse)

lemma keepsD: "keeps I m \<Longrightarrow> I s \<Longrightarrow> m s = (r, s') \<Longrightarrow> I s'"
  unfolding keeps_def by (metis snd_conv)

lemma keeps_basic [keeps_intro]:
  "keeps I (ret x)" "keeps I (fail e)" "keeps I panic" "keeps I (gets f)" "keeps I (lift_res r)"
  by (simp_all add: keeps_def go_unfold)

lemma keeps_modify [keeps_intro]: "(\<And>s. I s \<Longrightarrow> I (f s)) \<Longrightarrow> keeps I (modify f)"
  by (simp add: keeps_def go_unfold)

lemma keeps_bnd [keeps_intro]:
  assumes "keeps I m" and "\<And>x. keeps I (f x)"
  shows "keeps I (bnd m f)"
proof (rule keepsI)
  fix s r s'
  assume "I s" and "bnd m f s = (r, s')"
  then show "I s'"
    by (elim bnd_cases) (auto dest: keepsD [OF assms(1)] keepsD [OF assms(2)])
qed

lemma keeps_with_defer [keeps_intro]:
  assumes "keeps I m" and "keeps I d"
  shows "keeps I (with_defer m d)"
proof (rule keepsI)
  fix s r s'
  assume s: "I s" and f: "with_defer m d s = (r, s')"
  obtain a t where m: "m s = (a, t)" by force
  obtain b u where d: "d t = (b, u)" by force
  have "I t" using assms(1) s m by (rule keepsD)
  with assms(2) have "I u" using d by (rule keepsD)
  then show "I s'" using f m d by (auto simp: with_defer_def split: sum.splits failure.splits)
qed

lemma keeps_if [keeps_intro]:
  "(b \<Longrightarrow> keeps I m) \<Longrightarrow> (\<not> b \<Longrightarrow> keeps I n) \<Longrightarrow> keeps I (if b then m else n)"
  by simp

lemma keeps_option [keeps_intro]:
  "keeps I n \<Longrightarrow> (\<And>x. keeps I (f x)) \<Longrightarrow> keeps I (case opt of None \<Rightarrow> n | Some x \<Rightarrow> f x)"
  by (cases opt) simp_all

lemma keeps_for_each [keeps_intro]: "(\<And>x. keeps I (f x)) \<Longrightarrow> keeps I (for_each xs f)"
  by (induction xs) (simp_all add: keeps_basic keeps_bnd)

section \<open>Byte ranges\<close>

type_synonym byte = "8 word"

definition bslice :: "nat \<Rightarrow> nat \<Rightarrow> 'a list \<Rightarrow> 'a list" where
  "bslice off n bs = take n (drop off bs)"

definition bsplice :: "nat \<Rightarrow> 'a list \<Rightarrow> 'a list \<Rightarrow> 'a list" where
  "bsplice off new bs = take off bs @ new @ drop (off + length new) bs"

lemma length_bslice: "off + n \<le> length bs \<Longrightarrow> length (bslice off n bs) = n"
  by (simp add: bslice_def)

lemma length_bsplice [simp]:
  "off + length new \<le> length bs \<Longrightarrow> length (bsplice off new bs) = length bs"
  by (simp add: bsplice_def)

lemma bsplice_Nil [simp]: "bsplice off [] bs = bs"
  by (simp add: bsplice_def)

lemma nth_bsplice:
  assumes "off + length new \<le> length bs" and "i < length bs"
  shows "bsplice off new bs ! i =
    (if off \<le> i \<and> i < off + length new then new ! (i - off) else bs ! i)"
  using assms by (auto simp: bsplice_def nth_append min_def)

lemma nth_bslice: "i < n \<Longrightarrow> off + n \<le> length bs \<Longrightarrow> bslice off n bs ! i = bs ! (off + i)"
  by (simp add: bslice_def)

text \<open>Reading back what was written, and reading elsewhere.\<close>

lemma bslice_bsplice_same:
  assumes "off + length new \<le> length bs" and "n = length new"
  shows "bslice off n (bsplice off new bs) = new"
  using assms by (simp add: bslice_def bsplice_def)

lemma bslice_bsplice_inside:
  assumes "off + length new \<le> length bs" and "off \<le> a" and "a + n \<le> off + length new"
  shows "bslice a n (bsplice off new bs) = bslice (a - off) n new"
proof (rule nth_equalityI)
  show "length (bslice a n (bsplice off new bs)) = length (bslice (a - off) n new)"
    using assms by (simp add: bslice_def)
next
  fix i
  assume "i < length (bslice a n (bsplice off new bs))"
  then have i: "i < n" by (simp add: bslice_def)
  have "bslice a n (bsplice off new bs) ! i = bsplice off new bs ! (a + i)"
    using assms i by (intro nth_bslice) simp_all
  also have "\<dots> = new ! (a + i - off)"
    using assms i by (subst nth_bsplice) auto
  also have "\<dots> = bslice (a - off) n new ! i"
    using assms i by (subst nth_bslice) (auto intro: arg_cong [where f = "\<lambda>k. new ! k"])
  finally show "bslice a n (bsplice off new bs) ! i = bslice (a - off) n new ! i" .
qed

lemma bslice_bsplice_other:
  assumes "off + length new \<le> length bs" and "a + n \<le> off \<or> off + length new \<le> a"
  shows "bslice a n (bsplice off new bs) = bslice a n bs"
proof (cases "a + n \<le> length bs")
  case True
  show ?thesis
  proof (rule nth_equalityI)
    show "length (bslice a n (bsplice off new bs)) = length (bslice a n bs)"
      using assms True by (simp add: bslice_def)
  next
    fix i
    assume "i < length (bslice a n (bsplice off new bs))"
    then have i: "i < n" by (simp add: bslice_def)
    then show "bslice a n (bsplice off new bs) ! i = bslice a n bs ! i"
      using assms True by (auto simp: nth_bslice nth_bsplice)
  qed
next
  case False
  with assms have "off + length new \<le> a" by simp
  then have "drop a (bsplice off new bs) = drop a bs"
    using assms(1) by (simp add: bsplice_def)
  then show ?thesis by (simp add: bslice_def)
qed

lemma bsplice_again:
  assumes "off + length new \<le> length bs" and "length old = length new"
  shows "bsplice off new (bsplice off old bs) = bsplice off new bs"
  using assms by (cases new; cases old) (auto simp: bsplice_def min_def)

lemma bsplice_adjacent:
  assumes "length a = n" and "off + n + length b \<le> length bs"
  shows "bsplice (off + n) b (bsplice off a bs) = bsplice off (a @ b) bs"
proof -
  have "take (off + n) (bsplice off a bs) = take off bs @ a"
    using assms by (simp add: bsplice_def)
  moreover have "drop (off + n + length b) (bsplice off a bs) = drop (off + n + length b) bs"
    using assms by (simp add: bsplice_def ac_simps)
  ultimately show ?thesis
    using assms by (simp add: bsplice_def [of "off + n"]) (simp add: bsplice_def ac_simps)
qed

lemma bslice_full: "length bs = n \<Longrightarrow> bslice 0 n bs = bs"
  by (simp add: bslice_def)

lemma bsplice_full: "length new = length bs \<Longrightarrow> bsplice 0 new bs = new"
  by (simp add: bsplice_def)

lemma bslice_bslice: "a + n \<le> m \<Longrightarrow> bslice a n (bslice off m bs) = bslice (off + a) n bs"
  by (simp add: bslice_def drop_take add.commute min_def)

text \<open>\<open>map_of\<close> after the association-list updates the model's Go maps use.\<close>

lemma map_of_update [simp]: "map_of (AList.update k v al) = (map_of al)(k \<mapsto> v)"
  by (rule update_conv')

lemma map_of_delete [simp]: "map_of (AList.delete k al) = (map_of al)(k := None)"
  by (rule delete_conv')

section \<open>Go integer division\<close>

text \<open>Go's \<open>/\<close> truncates towards zero and \<open>%\<close> takes the sign of the dividend; division by zero
  panics, which callers check first.\<close>

definition go_div :: "int \<Rightarrow> int \<Rightarrow> int" where
  "go_div a b = sgn a * sgn b * (\<bar>a\<bar> div \<bar>b\<bar>)"

lemma go_div_nonneg [simp]: "0 \<le> a \<Longrightarrow> 0 < b \<Longrightarrow> go_div a b = a div b"
  by (cases "a = 0") (simp_all add: go_div_def)

definition go_mod :: "int \<Rightarrow> int \<Rightarrow> int" where
  "go_mod a b = sgn a * (\<bar>a\<bar> mod \<bar>b\<bar>)"

lemma go_mod_nonneg [simp]: "0 \<le> a \<Longrightarrow> 0 < b \<Longrightarrow> go_mod a b = a mod b"
  by (cases "a = 0") (simp_all add: go_mod_def)

lemma int_le_div_iff:
  assumes "0 < (z :: int)"
  shows "k \<le> b div z \<longleftrightarrow> k * z \<le> b"
proof
  assume "k \<le> b div z"
  then have "k * z \<le> b div z * z" using assms by (intro mult_right_mono) simp_all
  also have "\<dots> \<le> b" using assms by (metis div_mult_mod_eq le_add_same_cancel1 pos_mod_sign)
  finally show "k * z \<le> b" .
next
  assume "k * z \<le> b"
  then have "k * z div z \<le> b div z" using assms by (rule zdiv_mono1)
  then show "k \<le> b div z" using assms by simp
qed

text \<open>A 64-bit \<open>int\<close> after an operation that may have overflowed.\<close>

definition wrap64 :: "int \<Rightarrow> int" where
  "wrap64 x = (x + 2 ^ 63) mod 2 ^ 64 - 2 ^ 63"

lemma wrap64_id: "- (2 ^ 63) \<le> x \<Longrightarrow> x < 2 ^ 63 \<Longrightarrow> wrap64 x = x"
  by (simp add: wrap64_def)

definition maxInt :: int where
  "maxInt = 2 ^ 63 - 1"

section \<open>Go strings\<close>

text \<open>A Go string is a sequence of bytes; Isabelle's \<open>char\<close> is a byte.\<close>

definition bytes_of :: "string \<Rightarrow> byte list" where
  "bytes_of s = map (\<lambda>c. word_of_nat (of_char c)) s"

definition string_of :: "byte list \<Rightarrow> string" where
  "string_of bs = map (\<lambda>b. char_of (unat b)) bs"

lemma length_bytes_of [simp]: "length (bytes_of s) = length s"
  by (simp add: bytes_of_def)

lemma length_string_of [simp]: "length (string_of s) = length s"
  by (simp add: string_of_def)

lemma of_char_bound: "of_char c < (256 :: nat)"
  by (cases c) (simp add: of_bool_def)

lemma char_byte_char [simp]: "char_of (unat (word_of_nat (of_char c) :: byte)) = c"
  using of_char_bound [of c] by (simp add: unat_of_nat)

lemma unat_byte_bound: "unat (b :: byte) < 256"
  by (rule order_less_le_trans [OF unsigned_less]) simp

lemma byte_char_byte [simp]: "word_of_nat (unat (b :: byte) mod 256) = b"
  using unat_byte_bound [of b] by simp

lemma string_of_bytes_of [simp]: "string_of (bytes_of s) = s"
  by (simp add: string_of_def bytes_of_def o_def)

lemma bytes_of_string_of [simp]: "bytes_of (string_of bs) = bs"
  by (simp add: string_of_def bytes_of_def o_def)

text \<open>Decimal notation, as \<open>%d\<close> and \<open>%v\<close> print integers.\<close>

definition digit_char :: "nat \<Rightarrow> char" where
  "digit_char d = char_of (48 + d)"

fun show_nat :: "nat \<Rightarrow> string" where
  "show_nat n = (if n < 10 then [digit_char n] else show_nat (n div 10) @ [digit_char (n mod 10)])"

declare show_nat.simps [simp del]

definition show_int :: "int \<Rightarrow> string" where
  "show_int n = (if n < 0 then CHR ''-'' # show_nat (nat (- n)) else show_nat (nat n))"

end
