(* ===== verification/Page.thy ===== *)
theory Page
  imports Prelude
begin

text \<open>
  \<^verbatim>\<open>file/page.go\<close>: the fixed-size byte page and its typed accessors.

  A \<open>Page\<close> is a struct with one field, the byte bslice \<open>buffer\<close>; here it is the byte list
  itself. Slicing \<open>p.buffer[offset:]\<close> or indexing out of range panics, so every accessor returns a
  \<open>res\<close>. \<open>encoding/binary\<close>'s big-endian reads and writes are \<open>be_read\<close> and \<open>be_write\<close>;
  \<open>utf8.Valid\<close> is \<open>utf8_valid\<close>; \<open>time.Time\<close> is its Unix second and its location pointer
  (\<open>==\<close> on \<open>time.Time\<close> compares both; no value the program builds has a sub-second part).

  The locale \<open>page_codec\<close> states what a typed accessor pair promises: a fixed encoding, \<open>set\<close>
  overwrites exactly the bytes of the encoding, \<open>get\<close> decodes it. It is interpreted on the six
  pairs of accessors, and the read-after-write laws follow once for all of them.
\<close>

type_synonym page = "byte list"

definition IntSize :: int where
  "IntSize = 4"

section \<open>Big-endian integers\<close>

text \<open>The \<open>n\<close> low-order bytes of an integer, most significant first, and their value.\<close>

fun be_bytes :: "nat \<Rightarrow> int \<Rightarrow> byte list" where
  "be_bytes 0 x = []"
| "be_bytes (Suc n) x = be_bytes n (x div 256) @ [word_of_int x]"

definition be_val :: "byte list \<Rightarrow> int" where
  "be_val bs = foldl (\<lambda>a b. a * 256 + uint b) 0 bs"

lemma length_be_bytes [simp]: "length (be_bytes n x) = n"
  by (induction n arbitrary: x) simp_all

lemma be_val_snoc [simp]: "be_val (bs @ [b]) = be_val bs * 256 + uint b"
  by (simp add: be_val_def)

lemma be_val_Nil [simp]: "be_val [] = 0"
  by (simp add: be_val_def)

lemma be_val_be_bytes: "be_val (be_bytes n x) = x mod 256 ^ n"
proof (induction n arbitrary: x)
  case 0
  then show ?case by simp
next
  case (Suc n)
  have "be_val (be_bytes (Suc n) x) = (x div 256 mod 256 ^ n) * 256 + x mod 256"
    by (simp add: Suc.IH take_bit_eq_mod unsigned_of_int)
  also have "\<dots> = x mod (256 * 256 ^ n)"
    by (subst zmod_zmult2_eq) simp_all
  finally show ?case by simp
qed

definition be_read :: "nat \<Rightarrow> page \<Rightarrow> int \<Rightarrow> int res" where
  "be_read n p off =
     (if 0 \<le> off \<and> off + int n \<le> int (length p) then Inr (be_val (bslice (nat off) n p))
      else Inl Panic)"

definition be_write :: "nat \<Rightarrow> page \<Rightarrow> int \<Rightarrow> int \<Rightarrow> page res" where
  "be_write n p off x =
     (if 0 \<le> off \<and> off + int n \<le> int (length p) then Inr (bsplice (nat off) (be_bytes n x) p)
      else Inl Panic)"

section \<open>UTF-8\<close>

definition utf8_cont :: "byte \<Rightarrow> bool" where
  "utf8_cont b \<longleftrightarrow> 0x80 \<le> b \<and> b \<le> 0xBF"

fun utf8_valid :: "byte list \<Rightarrow> bool" where
  "utf8_valid [] \<longleftrightarrow> True"
| "utf8_valid (b0 # rest) \<longleftrightarrow>
     (if b0 < 0x80 then utf8_valid rest
      else if 0xC2 \<le> b0 \<and> b0 \<le> 0xDF then
        (case rest of b1 # r \<Rightarrow> utf8_cont b1 \<and> utf8_valid r | _ \<Rightarrow> False)
      else if 0xE0 \<le> b0 \<and> b0 \<le> 0xEF then
        (case rest of b1 # b2 # r \<Rightarrow>
           (if b0 = 0xE0 then 0xA0 else 0x80) \<le> b1 \<and> b1 \<le> (if b0 = 0xED then 0x9F else 0xBF) \<and>
           utf8_cont b2 \<and> utf8_valid r | _ \<Rightarrow> False)
      else if 0xF0 \<le> b0 \<and> b0 \<le> 0xF4 then
        (case rest of b1 # b2 # b3 # r \<Rightarrow>
           (if b0 = 0xF0 then 0x90 else 0x80) \<le> b1 \<and> b1 \<le> (if b0 = 0xF4 then 0x8F else 0xBF) \<and>
           utf8_cont b2 \<and> utf8_cont b3 \<and> utf8_valid r | _ \<Rightarrow> False)
      else False)"

definition utf8_string :: "string \<Rightarrow> bool" where
  "utf8_string s = utf8_valid (bytes_of s)"

definition ascii :: "string \<Rightarrow> bool" where
  "ascii s \<longleftrightarrow> (\<forall>c \<in> set s. of_char c < (128 :: nat))"

lemma utf8_valid_ascii: "ascii s \<Longrightarrow> utf8_string s"
proof (induction s)
  case Nil
  then show ?case by (simp add: utf8_string_def bytes_of_def)
next
  case (Cons c s)
  then have "(word_of_nat (of_char c) :: byte) < 0x80"
    by (simp add: ascii_def word_less_nat_alt unat_of_nat)
  with Cons show ?case by (simp add: utf8_string_def bytes_of_def ascii_def)
qed

section \<open>Times\<close>

datatype location = UTC | Local

datatype gotime = Time (unix: int) (loc: location)

text \<open>\<open>time.Unix(sec, 0)\<close> carries the local location; \<open>time.Time{}\<close> is January 1, year 1, UTC.\<close>

definition time_Unix :: "int \<Rightarrow> gotime" where
  "time_Unix sec = Time sec Local"

definition time_zero :: gotime where
  "time_zero = Time (-62135596800) UTC"

section \<open>The accessors\<close>

definition NewPageOfSize :: "int \<Rightarrow> page res" where
  "NewPageOfSize blockSize = (if blockSize < 0 then Inl Panic else Inr (replicate (nat blockSize) 0))"

definition page_GetInt :: "page \<Rightarrow> int \<Rightarrow> int res" where
  "page_GetInt p off = rbind (be_read 4 p off) (\<lambda>x. Inr (sint (word_of_int x :: 32 word)))"

definition page_SetInt :: "page \<Rightarrow> int \<Rightarrow> int \<Rightarrow> page res" where
  "page_SetInt p off n = be_write 4 p off (uint (word_of_int n :: 32 word))"

definition page_GetLong :: "page \<Rightarrow> int \<Rightarrow> 64 word res" where
  "page_GetLong p off = rbind (be_read 8 p off) (\<lambda>x. Inr (word_of_int x))"

definition page_SetLong :: "page \<Rightarrow> int \<Rightarrow> 64 word \<Rightarrow> page res" where
  "page_SetLong p off n = be_write 8 p off (uint n)"

definition page_GetBytes :: "page \<Rightarrow> int \<Rightarrow> byte list res" where
  "page_GetBytes p off =
     rbind (page_GetInt p off) (\<lambda>length'.
       (let start = off + IntSize; end' = start + length' in
        if length' < 0 \<or> end' > int (length p) then Inl Panic
        else Inr (bslice (nat start) (nat length') p)))"

text \<open>\<open>copy\<close> writes as many bytes as fit: no check that the value does.\<close>

definition page_SetBytes :: "page \<Rightarrow> int \<Rightarrow> byte list \<Rightarrow> page res" where
  "page_SetBytes p off b =
     rbind (page_SetInt p off (int (length b))) (\<lambda>p'.
       (let start = nat (off + IntSize) in
        Inr (bsplice start (take (length p' - start) b) p')))"

definition page_GetString :: "page \<Rightarrow> int \<Rightarrow> string res" where
  "page_GetString p off =
     rbind (page_GetBytes p off) (\<lambda>b.
       if \<not> utf8_valid b then Err EInvalidUTF8 else Inr (string_of b))"

definition page_SetString :: "page \<Rightarrow> int \<Rightarrow> string \<Rightarrow> page res" where
  "page_SetString p off s =
     (if \<not> utf8_string s then Err EStringInvalidUTF8 else page_SetBytes p off (bytes_of s))"

definition page_GetShort :: "page \<Rightarrow> int \<Rightarrow> 16 word res" where
  "page_GetShort p off = rbind (be_read 2 p off) (\<lambda>x. Inr (word_of_int x))"

definition page_SetShort :: "page \<Rightarrow> int \<Rightarrow> 16 word \<Rightarrow> page res" where
  "page_SetShort p off n = be_write 2 p off (uint n)"

definition page_GetBool :: "page \<Rightarrow> int \<Rightarrow> bool res" where
  "page_GetBool p off =
     (if 0 \<le> off \<and> off < int (length p) then Inr (p ! nat off \<noteq> 0) else Inl Panic)"

definition page_SetBool :: "page \<Rightarrow> int \<Rightarrow> bool \<Rightarrow> page res" where
  "page_SetBool p off b =
     (if 0 \<le> off \<and> off < int (length p) then Inr (p[nat off := (if b then 1 else 0)])
      else Inl Panic)"

definition page_GetDate :: "page \<Rightarrow> int \<Rightarrow> gotime res" where
  "page_GetDate p off =
     rbind (be_read 8 p off) (\<lambda>x. Inr (time_Unix (sint (word_of_int x :: 64 word))))"

definition page_SetDate :: "page \<Rightarrow> int \<Rightarrow> gotime \<Rightarrow> page res" where
  "page_SetDate p off date = be_write 8 p off (uint (word_of_int (unix date) :: 64 word))"

definition MaxLength :: "int \<Rightarrow> int" where
  "MaxLength strlen = IntSize + strlen * 4"

section \<open>What a typed accessor pair promises\<close>

locale page_codec =
  fixes get :: "page \<Rightarrow> int \<Rightarrow> 'v res"
    and set :: "page \<Rightarrow> int \<Rightarrow> 'v \<Rightarrow> page res"
    and enc :: "'v \<Rightarrow> byte list"
    and ok :: "'v \<Rightarrow> bool"
  assumes set_enc: "ok v \<Longrightarrow> 0 \<le> off \<Longrightarrow> nat off + length (enc v) \<le> length p \<Longrightarrow>
      set p off v = Inr (bsplice (nat off) (enc v) p)"
    and get_enc: "ok v \<Longrightarrow> 0 \<le> off \<Longrightarrow> nat off + length (enc v) \<le> length p \<Longrightarrow>
      bslice (nat off) (length (enc v)) p = enc v \<Longrightarrow> get p off = Inr v"
begin

definition fits :: "page \<Rightarrow> int \<Rightarrow> 'v \<Rightarrow> bool" where
  "fits p off v \<longleftrightarrow> ok v \<and> 0 \<le> off \<and> nat off + length (enc v) \<le> length p"

lemma get_after_set:
  assumes "fits p off v"
  obtains p' where "set p off v = Inr p'" and "length p' = length p" and "get p' off = Inr v"
proof
  show "set p off v = Inr (bsplice (nat off) (enc v) p)"
    using assms by (simp add: fits_def set_enc)
  show "length (bsplice (nat off) (enc v) p) = length p"
    using assms by (simp add: fits_def)
  show "get (bsplice (nat off) (enc v) p) off = Inr v"
    using assms by (intro get_enc) (simp_all add: fits_def bslice_bsplice_same)
qed

lemma set_frame:
  assumes "fits p off v" and "set p off v = Inr p'"
    and "a + n \<le> nat off \<or> nat off + length (enc v) \<le> a"
  shows "bslice a n p' = bslice a n p"
  using assms by (auto simp: fits_def set_enc bslice_bsplice_other)

lemma set_set:
  assumes "fits p off v" and "fits p off w" and "length (enc v) = length (enc w)"
    and "set p off v = Inr p'"
  shows "set p' off w = set p off w"
  using assms by (auto simp: fits_def set_enc bsplice_again)

end

definition enc_int :: "int \<Rightarrow> byte list" where
  "enc_int n = be_bytes 4 (uint (word_of_int n :: 32 word))"

definition int32_range :: "int \<Rightarrow> bool" where
  "int32_range n \<longleftrightarrow> - (2 ^ 31) \<le> n \<and> n < 2 ^ 31"

definition enc_long :: "64 word \<Rightarrow> byte list" where
  "enc_long n = be_bytes 8 (uint n)"

definition enc_short :: "16 word \<Rightarrow> byte list" where
  "enc_short n = be_bytes 2 (uint n)"

definition enc_bool :: "bool \<Rightarrow> byte list" where
  "enc_bool b = [if b then 1 else 0]"

definition enc_date :: "gotime \<Rightarrow> byte list" where
  "enc_date d = be_bytes 8 (uint (word_of_int (unix d) :: 64 word))"

definition local_time :: "gotime \<Rightarrow> bool" where
  "local_time d \<longleftrightarrow> loc d = Local \<and> - (2 ^ 63) \<le> unix d \<and> unix d < 2 ^ 63"

definition enc_string :: "string \<Rightarrow> byte list" where
  "enc_string s = enc_int (int (length s)) @ bytes_of s"

definition storable_string :: "string \<Rightarrow> bool" where
  "storable_string s \<longleftrightarrow> utf8_string s \<and> length s < 2 ^ 31"

lemmas enc_defs = enc_int_def enc_long_def enc_short_def enc_bool_def enc_date_def enc_string_def

lemma length_enc [simp]:
  "length (enc_int n) = 4" "length (enc_long l) = 8" "length (enc_short h) = 2"
  "length (enc_bool b) = 1" "length (enc_date d) = 8" "length (enc_string s) = 4 + length s"
  by (simp_all add: enc_defs)

lemma be_val_word [simp]:
  "word_of_int (be_val (be_bytes 4 (uint (w :: 32 word)))) = w"
  "word_of_int (be_val (be_bytes 8 (uint (v :: 64 word)))) = v"
  "word_of_int (be_val (be_bytes 2 (uint (u :: 16 word)))) = u"
proof -
  have "uint w < 2 ^ 32" and "uint v < 2 ^ 64" and "uint u < 2 ^ 16"
    by (rule order_less_le_trans [OF unsigned_less], simp)+
  then show "word_of_int (be_val (be_bytes 4 (uint w))) = w"
    "word_of_int (be_val (be_bytes 8 (uint v))) = v"
    "word_of_int (be_val (be_bytes 2 (uint u))) = u"
    by (simp_all add: be_val_be_bytes)
qed

lemma sint_int32: "int32_range n \<Longrightarrow> sint (word_of_int n :: 32 word) = n"
  by (simp add: int32_range_def signed_of_int signed_take_bit_int_eq_self)

lemma sint_int64: "- (2 ^ 63) \<le> n \<Longrightarrow> n < 2 ^ 63 \<Longrightarrow> sint (word_of_int n :: 64 word) = n"
  by (simp add: signed_of_int signed_take_bit_int_eq_self)

interpretation int_codec: page_codec page_GetInt page_SetInt enc_int int32_range
  by unfold_locales
    (auto simp: page_SetInt_def page_GetInt_def be_write_def be_read_def enc_int_def sint_int32)

interpretation long_codec: page_codec page_GetLong page_SetLong enc_long "\<lambda>_. True"
  by unfold_locales
    (auto simp: page_SetLong_def page_GetLong_def be_write_def be_read_def enc_long_def)

interpretation short_codec: page_codec page_GetShort page_SetShort enc_short "\<lambda>_. True"
  by unfold_locales
    (auto simp: page_SetShort_def page_GetShort_def be_write_def be_read_def enc_short_def)

interpretation date_codec: page_codec page_GetDate page_SetDate enc_date local_time
  by unfold_locales
    (auto simp: page_SetDate_def page_GetDate_def be_write_def be_read_def enc_date_def
      local_time_def time_Unix_def sint_int64 gotime.expand)

lemma bslice_1: "i < length p \<Longrightarrow> bslice i 1 p = [p ! i]"
  by (simp add: bslice_def take_Suc_conv_app_nth [of 0, simplified] hd_drop_conv_nth take_Suc)

lemma list_update_bsplice: "i < length p \<Longrightarrow> p[i := x] = bsplice i [x] p"
  by (simp add: bsplice_def upd_conv_take_nth_drop)

interpretation bool_codec: page_codec page_GetBool page_SetBool enc_bool "\<lambda>_. True"
proof (unfold_locales, goal_cases)
  case (1 v off p)
  then show ?case by (auto simp: page_SetBool_def enc_bool_def list_update_bsplice)
next
  case (2 v off p)
  then have "bslice (nat off) 1 p = [p ! nat off]"
    by (intro bslice_1) (simp add: enc_bool_def)
  with 2 have "p ! nat off = (if v then 1 else 0)" by (simp add: enc_bool_def)
  with 2 show ?case by (simp add: page_GetBool_def)
qed

lemma bslice_append_split:
  assumes "bslice off (n + m) p = a @ b" and "length a = n" and "off + n + m \<le> length p"
  shows "bslice off n p = a" and "bslice (off + n) m p = b"
proof -
  have "bslice off n p = take n (bslice off (n + m) p)"
    by (simp add: bslice_def)
  then show "bslice off n p = a" using assms by simp
  have "bslice (off + n) m p = drop n (bslice off (n + m) p)"
    by (simp add: bslice_def drop_take add.commute)
  then show "bslice (off + n) m p = b" using assms by simp
qed

lemma int32_length: "n < 2 ^ 31 \<Longrightarrow> int32_range (int n)"
  by (simp add: int32_range_def)

interpretation string_codec: page_codec page_GetString page_SetString enc_string storable_string
proof (unfold_locales, goal_cases)
  case (1 v off p)
  then have "page_SetInt p off (int (length v)) = Inr (bsplice (nat off) (enc_int (int (length v))) p)"
    by (intro int_codec.set_enc) (auto simp: storable_string_def int32_length)
  moreover have "nat (off + 4) = nat off + length (enc_int (int (length v)))"
    using 1 by simp
  ultimately show ?case
    using 1 by (simp add: page_SetString_def page_SetBytes_def storable_string_def IntSize_def
        enc_string_def bsplice_adjacent Let_def)
next
  case (2 v off p)
  then have fit: "nat off + 4 + length v \<le> length p" by simp
  from 2 have sl: "bslice (nat off) 4 p = enc_int (int (length v))"
    "bslice (nat off + 4) (length v) p = bytes_of v"
    by (auto intro!: bslice_append_split [of "nat off" 4 "length v"] simp: enc_string_def)
  then have "page_GetInt p off = Inr (int (length v))"
    using 2 by (intro int_codec.get_enc) (auto simp: storable_string_def int32_length)
  moreover have "nat (off + 4) = nat off + 4" using 2 by simp
  ultimately show ?case
    using 2 sl by (simp add: page_GetString_def page_GetBytes_def IntSize_def Let_def
        storable_string_def utf8_string_def)
qed

section \<open>Properties of the page\<close>



text \<open>\<open>SetInt\<close> keeps only the low 32 bits of a Go \<open>int\<close>: what \<open>GetInt\<close> reads back is the
  value wrapped into the signed 32-bit range, for every value, without an error.\<close>

theorem page_int_wraps:
  assumes "0 \<le> off" and "nat off + 4 \<le> length p"
  shows "rbind (page_SetInt p off n) (\<lambda>q. page_GetInt q off) =
    Inr ((n + 2 ^ 31) mod 2 ^ 32 - 2 ^ 31)"
proof -
  have "signed_take_bit 31 n = (n + 2 ^ 31) mod 2 ^ 32 - 2 ^ 31"
    using signed_take_bit_eq_take_bit_shift [of 31 n] by (simp add: take_bit_eq_mod)
  then have "sint (word_of_int n :: 32 word) = (n + 2 ^ 31) mod 2 ^ 32 - 2 ^ 31"
    by (simp add: signed_of_int)
  then show ?thesis
    using assms by (auto simp: page_SetInt_def page_GetInt_def be_write_def be_read_def
        bslice_bsplice_same)
qed

lemma page_int_wraps_witness:
  "rbind (page_SetInt (replicate 8 0) 0 3000000000) (\<lambda>q. page_GetInt q 0) = Inr (- 1294967296)"
  using page_int_wraps [of 0 "replicate 8 0" 3000000000] by simp

text \<open>\<open>SetBytes\<close> never checks that the value fits: near the end of the page it stores the
  full length but only the bytes that fit, returns normally, and a later \<open>GetBytes\<close> at the same
  offset panics.\<close>

theorem page_SetBytes_overflow:
  assumes "0 \<le> off" and "nat off + 4 \<le> length p"
    and "length p < nat off + 4 + length b" and "length b < 2 ^ 31"
  shows "\<exists>q. page_SetBytes p off b = Inr q \<and> length q = length p \<and> page_GetBytes q off = Inl Panic"
proof -
  let ?q = "bsplice (nat off) (enc_int (int (length b))) p"
  let ?r = "bsplice (nat (off + 4)) (take (length p - nat (off + 4)) b) ?q"
  have set: "page_SetBytes p off b = Inr ?r"
    using assms by (simp add: page_SetBytes_def int_codec.set_enc int32_length IntSize_def Let_def)
  have "bslice (nat off) 4 ?r = enc_int (int (length b))"
    using assms by (simp add: bslice_bsplice_other bslice_bsplice_same)
  then have "page_GetInt ?r off = Inr (int (length b))"
    using assms by (intro int_codec.get_enc) (simp_all add: int32_length)
  then have "page_GetBytes ?r off = Inl Panic"
    using assms by (simp add: page_GetBytes_def IntSize_def Let_def)
  with set show ?thesis using assms by (intro exI [of _ ?r]) simp
qed

lemma page_SetBytes_overflow_witness:
  "\<exists>q. page_SetBytes (replicate 8 0) 2 [1, 2, 3] = Inr q \<and> length q = length (replicate 8 (0::byte)) \<and>
     page_GetBytes q 2 = Inl Panic"
  using page_SetBytes_overflow [of 2 "replicate 8 0" "[1, 2, 3]"] by simp

end
