(* ===== verification/FileMgr.thy ===== *)
theory FileMgr
  imports Page
begin

text \<open>
  \<^verbatim>\<open>file/blockid.go\<close> and \<^verbatim>\<open>file/manager.go\<close>: block identifiers and the file manager.

  The state is the \<open>Manager\<close> struct plus the directory it manages: \<open>disk\<close> gives each existing
  file's bytes. Higher components extend this record with their own fields, so every operation here
  is typed on \<open>'z fm_state_scheme\<close>. The operating system is taken to do what was asked: opening
  (with \<open>O_CREATE\<close>), reading, writing and syncing do not fail. What the code itself can run into
  stays: a seek to a negative offset, a partial block at the end of a file, a read past the end of
  the file (which leaves the page as it was and reports success), a zero block size.
  The mutex makes each operation one step; the model runs each as one.
\<close>

record block_id =
  File :: string
  BlockNumber :: int

definition NewBlockId :: "string \<Rightarrow> int \<Rightarrow> block_id" where
  "NewBlockId filename blockNumber = \<lparr>File = filename, BlockNumber = blockNumber\<rparr>"

definition block_Equals :: "block_id \<Rightarrow> block_id \<Rightarrow> bool" where
  "block_Equals b other \<longleftrightarrow> File b = File other \<and> BlockNumber b = BlockNumber other"

lemma block_Equals_eq [simp]: "block_Equals b other \<longleftrightarrow> b = other"
  by (auto simp: block_Equals_def)

record fm_state =
  blockSize :: int
  isNew :: bool
  disk :: "string \<rightharpoonup> byte list"
  openFiles :: "string list"
  blocksRead :: int
  blocksWritten :: int

section \<open>Operations\<close>

text \<open>\<open>NewManager\<close>: \<open>dir\<close> is the directory before the call, \<open>None\<close> when it does not exist.
  Left-over files whose name starts with \<open>temp\<close> are removed.\<close>

definition fm_NewManager :: "(string \<rightharpoonup> byte list) option \<Rightarrow> int \<Rightarrow> fm_state" where
  "fm_NewManager dir bs =
     \<lparr>blockSize = bs, isNew = (dir = None),
      disk = (case dir of None \<Rightarrow> Map.empty
              | Some d \<Rightarrow> (\<lambda>name. if 4 \<le> length name \<and> take 4 name = ''temp'' then None else d name)),
      openFiles = [], blocksRead = 0, blocksWritten = 0\<rparr>"

definition fileBytes :: "'z fm_state_scheme \<Rightarrow> string \<Rightarrow> byte list" where
  "fileBytes s name = (case disk s name of None \<Rightarrow> [] | Some d \<Rightarrow> d)"

definition fm_getFile :: "string \<Rightarrow> ('z fm_state_scheme, unit) go" where
  "fm_getFile name s =
     (if name \<in> set (openFiles s) then (Inr (), s)
      else (Inr (), s\<lparr>disk := (disk s)(name \<mapsto> fileBytes s name),
                      openFiles := name # openFiles s\<rparr>))"

text \<open>\<open>Seek\<close> then \<open>Write\<close> at an offset; a gap after the old end reads as zeros.\<close>

definition write_at :: "nat \<Rightarrow> byte list \<Rightarrow> byte list \<Rightarrow> byte list" where
  "write_at off buf data =
     (if buf = [] then data
      else take off data @ replicate (off - length data) 0 @ buf @ drop (off + length buf) data)"

text \<open>\<open>Read\<close> returns the page's new contents beside the error: on a partial read the bytes that
  were read are already in the page.\<close>

definition fm_Read ::
  "block_id \<Rightarrow> page \<Rightarrow> 'z fm_state_scheme \<Rightarrow> (unit res \<times> page) \<times> 'z fm_state_scheme" where
  "fm_Read blk p s =
     (let s1 = snd (fm_getFile (File blk) s);
          data = fileBytes s1 (File blk);
          off = BlockNumber blk * blockSize s1;
          avail = length data - nat off in
      if off < 0 then ((Err ESeek, p), s1)
      else if length p \<le> avail then
        ((Inr (), bslice (nat off) (length p) data), s1\<lparr>blocksRead := blocksRead s1 + 1\<rparr>)
      else if avail = 0 then ((Inr (), p), s1\<lparr>blocksRead := blocksRead s1 + 1\<rparr>)
      else ((Err EPartialRead, drop (nat off) data @ drop avail p), s1))"

definition fm_writeFile :: "string \<Rightarrow> int \<Rightarrow> byte list \<Rightarrow> ('z fm_state_scheme, unit) go" where
  "fm_writeFile name off buf s =
     (if off < 0 then (Err ESeek, s)
      else (Inr (), s\<lparr>disk := (disk s)(name \<mapsto> write_at (nat off) buf (fileBytes s name)),
                      blocksWritten := blocksWritten s + 1\<rparr>))"

definition fm_Write :: "block_id \<Rightarrow> page \<Rightarrow> ('z fm_state_scheme, unit) go" where
  "fm_Write blk p =
     bnd (fm_getFile (File blk)) (\<lambda>_.
     bnd (gets blockSize) (\<lambda>bs.
     fm_writeFile (File blk) (BlockNumber blk * bs) p))"

definition fm_Length :: "string \<Rightarrow> ('z fm_state_scheme, int) go" where
  "fm_Length name =
     bnd (fm_getFile name) (\<lambda>_.
     bnd (gets blockSize) (\<lambda>bs.
     if bs = 0 then panic
     else gets (\<lambda>s. go_div (int (length (fileBytes s name))) bs)))"

definition fm_Append :: "string \<Rightarrow> ('z fm_state_scheme, block_id) go" where
  "fm_Append name =
     bnd (fm_Length name) (\<lambda>newBlockNumber.
     bnd (gets blockSize) (\<lambda>bs.
     bnd (lift_res (NewPageOfSize bs)) (\<lambda>b.
     bnd (fm_writeFile name (newBlockNumber * bs) b) (\<lambda>_.
     ret (NewBlockId name newBlockNumber)))))"

section \<open>Well-formed storage and its blocks\<close>

definition fm_wf :: "'z fm_state_scheme \<Rightarrow> bool" where
  "fm_wf s \<longleftrightarrow> 0 < blockSize s \<and> (\<forall>name. blockSize s dvd int (length (fileBytes s name)))"

definition nblocks :: "'z fm_state_scheme \<Rightarrow> string \<Rightarrow> int" where
  "nblocks s name = int (length (fileBytes s name)) div blockSize s"

definition in_file :: "'z fm_state_scheme \<Rightarrow> block_id \<Rightarrow> bool" where
  "in_file s blk \<longleftrightarrow> 0 \<le> BlockNumber blk \<and> BlockNumber blk < nblocks s (File blk)"

definition disk_block :: "'z fm_state_scheme \<Rightarrow> block_id \<Rightarrow> byte list" where
  "disk_block s blk =
     bslice (nat (BlockNumber blk * blockSize s)) (nat (blockSize s)) (fileBytes s (File blk))"

lemma fileBytes_upd [simp]:
  "fileBytes (s\<lparr>openFiles := o'\<rparr>) n = fileBytes s n"
  "fileBytes (s\<lparr>blocksRead := r\<rparr>) n = fileBytes s n"
  "fileBytes (s\<lparr>blocksWritten := w\<rparr>) n = fileBytes s n"
  "fileBytes (s\<lparr>disk := (disk s)(m \<mapsto> d)\<rparr>) n = (if n = m then d else fileBytes s n)"
  by (simp_all add: fileBytes_def)

text \<open>Every operation touches only the file manager's own fields, whatever extends them.\<close>

definition fm_frame :: "'z fm_state_scheme \<Rightarrow> 'z fm_state_scheme \<Rightarrow> bool" where
  "fm_frame s s' \<longleftrightarrow> (\<exists>d o' r w. s' = s\<lparr>disk := d, openFiles := o', blocksRead := r, blocksWritten := w\<rparr>)"

lemma fm_frameI:
  "s' = s\<lparr>disk := d, openFiles := o', blocksRead := r, blocksWritten := w\<rparr> \<Longrightarrow> fm_frame s s'"
  by (auto simp: fm_frame_def)

lemma fm_frame_blockSize [simp]: "fm_frame s s' \<Longrightarrow> blockSize s' = blockSize s"
  by (auto simp: fm_frame_def)

lemma fm_frame_refl: "fm_frame s s"
  by (rule fm_frameI [where d = "disk s" and o' = "openFiles s" and r = "blocksRead s" and
        w = "blocksWritten s"]) simp

lemma fm_frame_trans:
  assumes "fm_frame s t" and "fm_frame t u"
  shows "fm_frame s u"
proof -
  obtain d1 o1 r1 w1 d2 o2 r2 w2
    where t: "t = s\<lparr>disk := d1, openFiles := o1, blocksRead := r1, blocksWritten := w1\<rparr>"
      and u: "u = t\<lparr>disk := d2, openFiles := o2, blocksRead := r2, blocksWritten := w2\<rparr>"
    using assms unfolding fm_frame_def by blast
  show ?thesis
    by (rule fm_frameI [where d = d2 and o' = o2 and r = r2 and w = w2]) (simp add: t u)
qed

lemma fm_getFile_spec:
  obtains s' where "fm_getFile n s = (Inr (), s')" and "fm_frame s s'"
    and "\<And>m. fileBytes s' m = fileBytes s m"
proof
  let ?s' = "snd (fm_getFile n s)"
  show "fm_getFile n s = (Inr (), ?s')" by (simp add: fm_getFile_def)
  show "fm_frame s ?s'"
    by (rule fm_frameI [where d = "disk ?s'" and o' = "openFiles ?s'" and r = "blocksRead s" and
          w = "blocksWritten s"]) (simp add: fm_getFile_def)
  show "fileBytes ?s' m = fileBytes s m" for m
    by (simp add: fm_getFile_def)
qed

lemma block_mono: "0 \<le> a \<Longrightarrow> a < (b :: int) \<Longrightarrow> 0 < bs \<Longrightarrow> a * bs + bs \<le> b * bs"
  using mult_right_mono [of "a + 1" b bs] by (simp add: algebra_simps)

lemma in_file_bytes:
  assumes "fm_wf s"
  shows "in_file s b \<longleftrightarrow> 0 \<le> BlockNumber b \<and>
    BlockNumber b * blockSize s + blockSize s \<le> int (length (fileBytes s (File b)))"
proof -
  let ?bs = "blockSize s" and ?n = "nblocks s (File b)"
  have bs: "0 < ?bs" and len: "int (length (fileBytes s (File b))) = ?n * ?bs"
    using assms by (simp_all add: fm_wf_def nblocks_def)
  have "BlockNumber b < ?n \<longleftrightarrow> BlockNumber b * ?bs + ?bs \<le> ?n * ?bs"
    using mult_le_cancel_right_pos [OF bs, of "BlockNumber b + 1" ?n]
    by (simp add: distrib_right add1_zle_eq)
  then show ?thesis by (simp add: in_file_def len)
qed

lemma nat_block_offset:
  assumes "0 \<le> n" and "0 < (bs :: int)"
  shows "nat (n * bs) + nat bs = nat (n * bs + bs)"
  using assms by (simp add: nat_add_distrib)

lemma length_disk_block:
  assumes "fm_wf s" and "in_file s b"
  shows "length (disk_block s b) = nat (blockSize s)"
  using assms in_file_bytes [of s b] nat_block_offset [of "BlockNumber b" "blockSize s"]
  by (auto simp: disk_block_def fm_wf_def intro!: length_bslice)

lemma nat_block_mono:
  assumes "0 \<le> a" and "a < b" and "0 < (bs :: int)"
  shows "nat (a * bs) + nat bs \<le> nat (b * bs)"
  unfolding nat_block_offset [OF assms(1,3)] by (rule nat_mono [OF block_mono [OF assms]])

lemma disk_block_other:
  fixes b c :: block_id
  assumes bs: "0 < bs" and b: "0 \<le> BlockNumber b" and c: "0 \<le> BlockNumber c"
    and ne: "b \<noteq> c" and f: "File b = File c"
  shows "nat (BlockNumber c * bs) + nat bs \<le> nat (BlockNumber b * bs) \<or>
    nat (BlockNumber b * bs) + nat bs \<le> nat (BlockNumber c * bs)"
proof -
  have "BlockNumber b \<noteq> BlockNumber c"
    using ne f block_Equals_eq [of b c] by (auto simp: block_Equals_def simp del: block_Equals_eq)
  then consider "BlockNumber b < BlockNumber c" | "BlockNumber c < BlockNumber b" by linarith
  then show ?thesis
  proof cases
    case 1
    show ?thesis by (rule disjI2) (rule nat_block_mono [OF b 1 bs])
  next
    case 2
    show ?thesis by (rule disjI1) (rule nat_block_mono [OF c 2 bs])
  qed
qed

section \<open>What the operations do to the blocks\<close>

lemma write_at_inside: "off + length buf \<le> length data \<Longrightarrow> write_at off buf data = bsplice off buf data"
  by (auto simp: write_at_def bsplice_def)

lemma write_at_end: "write_at (length data) buf data = data @ buf"
  by (simp add: write_at_def)

lemma fm_Write_run:
  obtains s1 where "fm_Write b p s =
      fm_writeFile (File b) (BlockNumber b * blockSize s) p s1"
    and "fm_frame s s1" and "\<And>m. fileBytes s1 m = fileBytes s m"
proof -
  obtain s1 where "fm_getFile (File b) s = (Inr (), s1)" and "fm_frame s s1"
    and "\<And>m. fileBytes s1 m = fileBytes s m"
    by (rule fm_getFile_spec [of "File b" s]) blast
  then show thesis
    by (intro that [of s1]) (simp_all add: fm_Write_def bnd_def gets_def)
qed

lemma fm_writeFile_frame: "fm_frame s (snd (fm_writeFile n off buf s))"
proof (cases "off < 0")
  case True
  then show ?thesis by (simp add: fm_writeFile_def fm_frame_refl)
next
  case False
  then show ?thesis
    by (intro fm_frameI [where d = "(disk s)(n \<mapsto> write_at (nat off) buf (fileBytes s n))" and
          o' = "openFiles s" and r = "blocksRead s" and w = "blocksWritten s + 1"])
      (simp add: fm_writeFile_def)
qed

lemma disk_block_eqI:
  "blockSize s' = blockSize s \<Longrightarrow> fileBytes s' (File b) = fileBytes s (File b) \<Longrightarrow>
   disk_block s' b = disk_block s b"
  by (simp add: disk_block_def)

lemma fm_Write_spec:
  assumes wf: "fm_wf s" and b: "in_file s b" and p: "int (length p) = blockSize s"
  obtains s' where "fm_Write b p s = (Inr (), s')" and "fm_frame s s'" and "fm_wf s'"
    and "\<And>n. nblocks s' n = nblocks s n" and "disk_block s' b = p"
    and "\<And>c. in_file s c \<Longrightarrow> c \<noteq> b \<Longrightarrow> disk_block s' c = disk_block s c"
proof -
  obtain s1 where run: "fm_Write b p s = fm_writeFile (File b) (BlockNumber b * blockSize s) p s1"
    and fr1: "fm_frame s s1" and fb1: "\<And>m. fileBytes s1 m = fileBytes s m"
    by (rule fm_Write_run [of b p s]) blast
  let ?off = "nat (BlockNumber b * blockSize s)" and ?data = "fileBytes s (File b)"
  define s' where "s' = snd (fm_writeFile (File b) (BlockNumber b * blockSize s) p s1)"
  have bs: "0 < blockSize s" and b0: "0 \<le> BlockNumber b"
    using wf b by (simp_all add: fm_wf_def in_file_def)
  then have off: "0 \<le> BlockNumber b * blockSize s" by simp
  have plen: "length p = nat (blockSize s)" using p by linarith
  have fit: "?off + length p \<le> length ?data"
    using b in_file_bytes [OF wf, of b] off bs nat_block_offset [OF b0 bs] plen by linarith
  have wr: "fm_Write b p s = (Inr (), s')"
    using run off by (simp add: s'_def fm_writeFile_def)
  have fb: "fileBytes s' n = (if n = File b then bsplice ?off p ?data else fileBytes s n)" for n
    using off fit by (simp add: s'_def fm_writeFile_def fb1 write_at_inside)
  have fr: "fm_frame s s'"
    unfolding s'_def by (rule fm_frame_trans [OF fr1 fm_writeFile_frame])
  show thesis
  proof (rule that [OF wr fr])
    show "fm_wf s'" using wf fr fit by (simp add: fm_wf_def fb)
    show "nblocks s' n = nblocks s n" for n using fr fit by (simp add: nblocks_def fb)
    show "disk_block s' b = p"
      using fr fit plen by (simp add: disk_block_def fb bslice_bsplice_same)
  next
    fix c
    assume c: "in_file s c" and ne: "c \<noteq> b"
    show "disk_block s' c = disk_block s c"
    proof (cases "File c = File b")
      case True
      with c ne b0 bs have "nat (BlockNumber c * blockSize s) + nat (blockSize s) \<le> ?off \<or>
          ?off + nat (blockSize s) \<le> nat (BlockNumber c * blockSize s)"
        by (intro disk_block_other) (auto simp: in_file_def)
      then show ?thesis
        using True fr fit plen by (simp add: disk_block_def fb bslice_bsplice_other)
    next
      case False
      then show ?thesis using fr by (intro disk_block_eqI) (simp_all add: fb)
    qed
  qed
qed

lemma fm_Length_spec:
  assumes "fm_wf s"
  obtains s' where "fm_Length n s = (Inr (nblocks s n), s')" and "fm_frame s s'"
    and "\<And>m. fileBytes s' m = fileBytes s m"
proof -
  obtain s1 where g: "fm_getFile n s = (Inr (), s1)" and fr: "fm_frame s s1"
    and fb: "\<And>m. fileBytes s1 m = fileBytes s m"
    by (rule fm_getFile_spec [of n s]) blast
  have "fm_Length n s = (Inr (nblocks s n), s1)"
    using g fr fb assms by (auto simp: fm_Length_def bnd_def gets_def fm_wf_def nblocks_def)
  with fr fb show thesis using that by blast
qed

lemma bslice_append_left: "off + n \<le> length xs \<Longrightarrow> bslice off n (xs @ ys) = bslice off n xs"
  by (simp add: bslice_def)

lemma bslice_append_right: "off = length xs \<Longrightarrow> n = length ys \<Longrightarrow> bslice off n (xs @ ys) = ys"
  by (simp add: bslice_def)

lemma fm_Append_spec:
  assumes wf: "fm_wf s"
  obtains s' where "fm_Append n s = (Inr (NewBlockId n (nblocks s n)), s')" and "fm_frame s s'"
    and "fm_wf s'" and "\<And>m. nblocks s' m = (if m = n then nblocks s n + 1 else nblocks s m)"
    and "disk_block s' (NewBlockId n (nblocks s n)) = replicate (nat (blockSize s)) 0"
    and "\<And>c. in_file s c \<Longrightarrow> disk_block s' c = disk_block s c"
proof -
  let ?bs = "blockSize s" and ?k = "nblocks s n" and ?data = "fileBytes s n"
  let ?z = "replicate (nat ?bs) (0 :: byte)"
  obtain s1 where len: "fm_Length n s = (Inr ?k, s1)" and fr1: "fm_frame s s1"
    and fb1: "\<And>m. fileBytes s1 m = fileBytes s m"
    by (rule fm_Length_spec [OF wf, of n]) blast
  have bs: "0 < ?bs" and k: "?k * ?bs = int (length ?data)" and k0: "0 \<le> ?k"
    using wf by (simp_all add: fm_wf_def nblocks_def pos_imp_zdiv_nonneg_iff)
  define s' where "s' = snd (fm_writeFile n (?k * ?bs) ?z s1)"
  have ap: "fm_Append n s = (Inr (NewBlockId n ?k), s')"
    using len fr1 bs k by (auto simp: fm_Append_def bnd_def go_simps NewPageOfSize_def s'_def
        fm_writeFile_def)
  have fb: "fileBytes s' m = (if m = n then ?data @ ?z else fileBytes s m)" for m
    using k write_at_end [of ?data ?z] by (simp add: s'_def fm_writeFile_def fb1)
  have fr: "fm_frame s s'"
    unfolding s'_def by (rule fm_frame_trans [OF fr1 fm_writeFile_frame])
  show thesis
  proof (rule that [OF ap fr])
    show wf': "fm_wf s'" using wf fr bs by (simp add: fm_wf_def fb)
    show "nblocks s' m = (if m = n then ?k + 1 else nblocks s m)" for m
      using fr bs by (simp add: nblocks_def fb div_add_self2)
    show "disk_block s' (NewBlockId n ?k) = ?z"
      using fr k by (simp add: disk_block_def NewBlockId_def fb bslice_append_right)
  next
    fix c
    assume c: "in_file s c"
    then have "nat (BlockNumber c * ?bs) + nat ?bs \<le> length (fileBytes s (File c))"
      using in_file_bytes [OF wf, of c] nat_block_offset [of "BlockNumber c" ?bs] bs by auto
    then show "disk_block s' c = disk_block s c"
      using fr by (auto simp: disk_block_def fb bslice_append_left)
  qed
qed

lemma fm_Read_spec:
  assumes wf: "fm_wf s" and b: "in_file s b" and p: "int (length p) = blockSize s"
  obtains s' where "fm_Read b p s = ((Inr (), disk_block s b), s')" and "fm_frame s s'"
    and "\<And>m. fileBytes s' m = fileBytes s m"
proof -
  obtain s1 where g: "fm_getFile (File b) s = (Inr (), s1)" and fr: "fm_frame s s1"
    and fb: "\<And>m. fileBytes s1 m = fileBytes s m"
    by (rule fm_getFile_spec [of "File b" s]) blast
  let ?off = "BlockNumber b * blockSize s"
  have bs: "0 < blockSize s" and off: "0 \<le> ?off"
    using wf b by (simp_all add: fm_wf_def in_file_def)
  have fit: "length p \<le> length (fileBytes s (File b)) - nat ?off"
    using b in_file_bytes [OF wf, of b] p off by linarith
  have len: "length p = nat (blockSize s)" using p by linarith
  let ?s' = "s1\<lparr>blocksRead := blocksRead s1 + 1\<rparr>"
  have "fm_frame s1 ?s'"
    by (rule fm_frameI [where d = "disk s1" and o' = "openFiles s1" and r = "blocksRead s1 + 1"
          and w = "blocksWritten s1"]) simp
  with fr have "fm_frame s ?s'" by (rule fm_frame_trans)
  moreover have "fm_Read b p s = ((Inr (), disk_block s b), ?s')"
    using g fr off fit len by (simp add: fm_Read_def Let_def fb disk_block_def)
  ultimately show thesis using that [of ?s'] fb by simp
qed

text \<open>Past the end of the file: success, and the page keeps what it held.\<close>

lemma fm_Read_past_end:
  assumes wf: "fm_wf s" and b: "nblocks s (File b) \<le> BlockNumber b" and p: "p \<noteq> []"
  shows "fst (fm_Read b p s) = (Inr (), p)"
proof -
  obtain s1 where g: "fm_getFile (File b) s = (Inr (), s1)" and fr: "fm_frame s s1"
    and fb: "\<And>m. fileBytes s1 m = fileBytes s m"
    by (rule fm_getFile_spec [of "File b" s]) blast
  let ?k = "nblocks s (File b)"
  have bs: "0 < blockSize s" and len: "?k * blockSize s = int (length (fileBytes s (File b)))"
    using wf by (simp_all add: fm_wf_def nblocks_def)
  have "?k * blockSize s \<le> BlockNumber b * blockSize s"
    using b bs by (intro mult_right_mono) simp_all
  then have "0 \<le> BlockNumber b * blockSize s"
    and "length (fileBytes s (File b)) - nat (BlockNumber b * blockSize s) = 0"
    using len by linarith+
  then show ?thesis using g fr p by (simp add: fm_Read_def Let_def fb)
qed

section \<open>Properties of the file manager\<close>

text \<open>C28. Writing a block of a well-formed file and reading any block of any file back returns
  what was written to that block and leaves every other block as it was; the file keeps its
  length and stays a whole number of blocks.\<close>

theorem fm_write_then_read:
  assumes "fm_wf s" and "in_file s b" and "in_file s c"
    and "int (length p) = blockSize s" and "int (length q) = blockSize s"
  shows "\<exists>s' s''. fm_Write b p s = (Inr (), s') \<and> fm_wf s' \<and> nblocks s' (File c) = nblocks s (File c) \<and>
    fm_Read c q s' = ((Inr (), if c = b then p else disk_block s c), s'')"
proof -
  obtain s' where w: "fm_Write b p s = (Inr (), s')" and fr: "fm_frame s s'" and wf: "fm_wf s'"
    and nb: "\<And>n. nblocks s' n = nblocks s n" and same: "disk_block s' b = p"
    and other: "\<And>c. in_file s c \<Longrightarrow> c \<noteq> b \<Longrightarrow> disk_block s' c = disk_block s c"
    by (rule fm_Write_spec [OF assms(1,2,4)]) blast
  have "in_file s' c" and "int (length q) = blockSize s'"
    using assms(3,5) nb fr by (simp_all add: in_file_def)
  then obtain s'' where r: "fm_Read c q s' = ((Inr (), disk_block s' c), s'')"
    using wf by (elim fm_Read_spec [of s' c q, rotated]) simp_all
  moreover have "disk_block s' c = (if c = b then p else disk_block s c)"
    using same other assms(3) by simp
  ultimately show ?thesis using w wf nb by auto
qed

definition demo_fm :: fm_state where
  "demo_fm = fm_NewManager (Some [''t.tbl'' \<mapsto> [1, 2, 3, 4, 5, 6, 7, 8]]) 4"

lemma demo_fm_wf: "fm_wf demo_fm" "nblocks demo_fm ''t.tbl'' = 2" "blockSize demo_fm = 4"
  by (simp_all add: fm_wf_def demo_fm_def fm_NewManager_def fileBytes_def nblocks_def)

lemma fm_write_then_read_witness:
  "\<exists>s' s''. fm_Write (NewBlockId ''t.tbl'' 1) [9, 9, 9, 9] demo_fm = (Inr (), s') \<and> fm_wf s' \<and>
     nblocks s' (File (NewBlockId ''t.tbl'' 0)) = nblocks demo_fm (File (NewBlockId ''t.tbl'' 0)) \<and>
     fm_Read (NewBlockId ''t.tbl'' 0) [0, 0, 0, 0] s' =
       ((Inr (), if NewBlockId ''t.tbl'' 0 = NewBlockId ''t.tbl'' 1 then [9, 9, 9, 9]
                 else disk_block demo_fm (NewBlockId ''t.tbl'' 0)), s'')"
  by (rule fm_write_then_read)
    (simp_all add: demo_fm_wf in_file_def NewBlockId_def)

text \<open>\<open>Append\<close> returns the next block number, makes the file exactly one zero-filled block
  longer, and changes no existing block of any file.\<close>

theorem fm_append_adds_zero_block:
  assumes "fm_wf s"
  shows "\<exists>s'. fm_Append n s = (Inr (NewBlockId n (nblocks s n)), s') \<and> fm_wf s' \<and>
    nblocks s' n = nblocks s n + 1 \<and> (\<forall>m. m \<noteq> n \<longrightarrow> nblocks s' m = nblocks s m) \<and>
    disk_block s' (NewBlockId n (nblocks s n)) = replicate (nat (blockSize s)) 0 \<and>
    (\<forall>c. in_file s c \<longrightarrow> disk_block s' c = disk_block s c)"
  by (rule fm_Append_spec [OF assms, of n]) auto

lemma fm_append_adds_zero_block_witness:
  "\<exists>s'. fm_Append ''u.tbl'' demo_fm = (Inr (NewBlockId ''u.tbl'' (nblocks demo_fm ''u.tbl'')), s') \<and>
    fm_wf s' \<and> nblocks s' ''u.tbl'' = nblocks demo_fm ''u.tbl'' + 1 \<and>
    (\<forall>m. m \<noteq> ''u.tbl'' \<longrightarrow> nblocks s' m = nblocks demo_fm m) \<and>
    disk_block s' (NewBlockId ''u.tbl'' (nblocks demo_fm ''u.tbl'')) =
      replicate (nat (blockSize demo_fm)) 0 \<and>
    (\<forall>c. in_file demo_fm c \<longrightarrow> disk_block s' c = disk_block demo_fm c)"
  by (rule fm_append_adds_zero_block) (rule demo_fm_wf)

end
