(* ===== verification/LogMgr.thy ===== *)
theory LogMgr
  imports FileMgr
begin

text \<open>
  \<^verbatim>\<open>log/manager.go\<close> and \<^verbatim>\<open>log/iterator.go\<close>: the write-ahead log.

  A log block holds its \<open>boundary\<close> in the first four bytes and its records from the boundary up
  to the block's end, newest first, each as a length and its bytes. The log state extends the file
  manager's. \<open>log_chain\<close> and \<open>log_page\<close> say what a block holds; \<open>lm_inv s recss\<close> says that the log
  file and the page in memory hold the record lists \<open>recss\<close>, one per block, oldest block first. The
  lemmas show that \<open>Append\<close> adds one record in front of the log, that \<open>Flush\<close> makes the log
  durable, and that the iterator returns exactly the log, newest record first.
\<close>

record log_state = fm_state +
  logFile :: string
  logPage :: page
  currentBlock :: block_id
  latestLSN :: int
  lastSavedLSN :: int

section \<open>Operations\<close>

text \<open>A read whose page is only used when it succeeds.\<close>

definition fm_ReadPage :: "block_id \<Rightarrow> page \<Rightarrow> ('z fm_state_scheme, page) go" where
  "fm_ReadPage b p s =
     (case fm_Read b p s of
        ((Inl e, _), s') \<Rightarrow> (Inl e, s')
      | ((Inr _, p'), s') \<Rightarrow> (Inr p', s'))"

definition lm_appendNewBlock ::
  "string \<Rightarrow> page \<Rightarrow> ('z fm_state_scheme, block_id \<times> page) go" where
  "lm_appendNewBlock lf page =
     bnd (fm_Append lf) (\<lambda>block.
     bnd (gets blockSize) (\<lambda>bs.
     bnd (lift_res (page_SetInt page 0 bs)) (\<lambda>page'.
     bnd (fm_Write block page') (\<lambda>_.
     ret (block, page')))))"

definition lm_open :: "string \<Rightarrow> ('z fm_state_scheme, block_id \<times> page) go" where
  "lm_open lf =
     bnd (gets blockSize) (\<lambda>bs.
     bnd (lift_res (NewPageOfSize bs)) (\<lambda>page.
     bnd (fm_Length lf) (\<lambda>logSize.
     if logSize = 0 then lm_appendNewBlock lf page
     else bnd (fm_ReadPage (NewBlockId lf (logSize - 1)) page) (\<lambda>page'.
          ret (NewBlockId lf (logSize - 1), page')))))"

definition lm_NewLogManager :: "string \<Rightarrow> fm_state \<Rightarrow> log_state res" where
  "lm_NewLogManager lf s =
     (case lm_open lf s of
        (Inl e, _) \<Rightarrow> Inl e
      | (Inr (blk, page), s') \<Rightarrow> Inr (fm_state.extend s' (log_state.fields lf page blk 0 0)))"

definition lm_flush :: "('z log_state_scheme, unit) go" where
  "lm_flush =
     bnd (gets currentBlock) (\<lambda>blk.
     bnd (gets logPage) (\<lambda>page.
     bnd (fm_Write blk page) (\<lambda>_.
     modify (\<lambda>s. s\<lparr>lastSavedLSN := latestLSN s\<rparr>))))"

definition lm_Flush :: "int \<Rightarrow> ('z log_state_scheme, unit) go" where
  "lm_Flush lsn =
     bnd (gets lastSavedLSN) (\<lambda>saved. if lsn \<ge> saved then lm_flush else ret ())"

text \<open>The part of \<open>Append\<close> that makes room: the current block is flushed and a new one started.\<close>

definition lm_newBlock :: "('z log_state_scheme, int) go" where
  "lm_newBlock =
     bnd lm_flush (\<lambda>_.
     bnd (gets logFile) (\<lambda>lf.
     bnd (gets logPage) (\<lambda>page.
     bnd (lm_appendNewBlock lf page) (\<lambda>(blk, page').
     bnd (modify (\<lambda>s. s\<lparr>currentBlock := blk, logPage := page'\<rparr>)) (\<lambda>_.
     lift_res (page_GetInt page' 0))))))"

definition lm_Append :: "byte list \<Rightarrow> ('z log_state_scheme, int) go" where
  "lm_Append logRecord =
     bnd (gets logPage) (\<lambda>page.
     bnd (lift_res (page_GetInt page 0)) (\<lambda>boundary.
     let bytesNeeded = int (length logRecord) + 4 in
     bnd (if boundary - bytesNeeded < 4 then lm_newBlock else ret boundary) (\<lambda>boundary.
     let recordPosition = boundary - bytesNeeded in
     bnd (gets logPage) (\<lambda>page.
     bnd (lift_res (page_SetBytes page recordPosition logRecord)) (\<lambda>page1.
     bnd (lift_res (page_SetInt page1 0 recordPosition)) (\<lambda>page2.
     bnd (modify (\<lambda>s. s\<lparr>logPage := page2, latestLSN := latestLSN s + 1\<rparr>)) (\<lambda>_.
     gets latestLSN)))))))"

record log_iter =
  it_block :: block_id
  it_page :: page
  it_pos :: int
  it_boundary :: int

definition it_moveToBlock :: "block_id \<Rightarrow> log_iter \<Rightarrow> ('z fm_state_scheme, log_iter) go" where
  "it_moveToBlock block it =
     bnd (fm_ReadPage block (it_page it)) (\<lambda>page.
     bnd (lift_res (page_GetInt page 0)) (\<lambda>boundary.
     ret (it\<lparr>it_page := page, it_boundary := boundary, it_pos := boundary\<rparr>)))"

definition NewIterator :: "block_id \<Rightarrow> ('z fm_state_scheme, log_iter) go" where
  "NewIterator block =
     bnd (gets blockSize) (\<lambda>bs.
     bnd (lift_res (NewPageOfSize bs)) (\<lambda>page.
     it_moveToBlock block \<lparr>it_block = block, it_page = page, it_pos = 0, it_boundary = 0\<rparr>))"

definition lm_Iterator :: "('z log_state_scheme, log_iter) go" where
  "lm_Iterator = bnd lm_flush (\<lambda>_. bnd (gets currentBlock) NewIterator)"

definition it_HasNext :: "int \<Rightarrow> log_iter \<Rightarrow> bool" where
  "it_HasNext bs it \<longleftrightarrow> it_pos it < bs \<or> BlockNumber (it_block it) > 0"

definition it_Next :: "log_iter \<Rightarrow> ('z fm_state_scheme, byte list \<times> log_iter) go" where
  "it_Next it =
     bnd (gets blockSize) (\<lambda>bs.
     bnd (if it_pos it = bs then
            if BlockNumber (it_block it) = 0 then fail ENoMoreLogRecords
            else let blk = NewBlockId (File (it_block it)) (BlockNumber (it_block it) - 1) in
                 it_moveToBlock blk (it\<lparr>it_block := blk\<rparr>)
          else ret it) (\<lambda>it.
     bnd (lift_res (page_GetBytes (it_page it) (it_pos it))) (\<lambda>rec.
     ret (rec, it\<lparr>it_pos := it_pos it + (4 + int (length rec))\<rparr>))))"

text \<open>Reading the whole log, as the loops over \<open>HasNext\<close> and \<open>Next\<close> do.\<close>

fun it_collect :: "nat \<Rightarrow> log_iter \<Rightarrow> ('z fm_state_scheme, byte list list) go" where
  "it_collect 0 it s = (Inl OutOfFuel, s)"
| "it_collect (Suc n) it s =
     (if it_HasNext (blockSize s) it then
        bnd (it_Next it) (\<lambda>(rec, it'). bnd (it_collect n it') (\<lambda>recs. ret (rec # recs))) s
      else (Inr [], s))"

section \<open>What a log block holds\<close>

fun log_chain :: "page \<Rightarrow> nat \<Rightarrow> byte list list \<Rightarrow> bool" where
  "log_chain p pos [] \<longleftrightarrow> pos = length p"
| "log_chain p pos (r # rs) \<longleftrightarrow>
     pos + 4 + length r \<le> length p \<and> bslice pos 4 p = enc_int (int (length r)) \<and>
     bslice (pos + 4) (length r) p = r \<and> log_chain p (pos + 4 + length r) rs"

definition log_page :: "int \<Rightarrow> page \<Rightarrow> byte list list \<Rightarrow> bool" where
  "log_page bs p recs \<longleftrightarrow> int (length p) = bs \<and>
     (\<exists>b. 4 \<le> b \<and> b \<le> length p \<and> bslice 0 4 p = enc_int (int b) \<and> log_chain p b recs)"

lemma log_chain_le: "log_chain p pos recs \<Longrightarrow> pos \<le> length p"
  by (cases recs) auto

lemma bslice_drop_eq: "drop a p = drop a q \<Longrightarrow> a \<le> off \<Longrightarrow> bslice off n p = bslice off n q"
  by (metis bslice_def drop_drop le_add_diff_inverse2)

lemma log_chain_cong:
  "drop a p = drop a q \<Longrightarrow> length p = length q \<Longrightarrow> a \<le> pos \<Longrightarrow> log_chain p pos recs = log_chain q pos recs"
proof (induction recs arbitrary: pos)
  case Nil
  then show ?case by simp
next
  case (Cons r rs)
  have "log_chain p (pos + 4 + length r) rs = log_chain q (pos + 4 + length r) rs"
    using Cons.prems by (intro Cons.IH) simp_all
  moreover have "bslice pos 4 p = bslice pos 4 q"
    "bslice (pos + 4) (length r) p = bslice (pos + 4) (length r) q"
    using Cons.prems by (auto intro: bslice_drop_eq)
  ultimately show ?case using Cons.prems by simp
qed

lemma page_SetBytes_fits:
  assumes "0 \<le> off" and "nat off + 4 + length b \<le> length p" and "length b < 2 ^ 31"
  shows "page_SetBytes p off b = Inr (bsplice (nat off) (enc_int (int (length b)) @ b) p)"
proof -
  have "nat (off + 4) = nat off + 4" using assms(1) by simp
  then show ?thesis
    using assms by (simp add: page_SetBytes_def int_codec.set_enc int32_length IntSize_def Let_def
        bsplice_adjacent)
qed

lemma page_GetBytes_fits:
  assumes "bslice pos 4 p = enc_int (int (length b))" and "bslice (pos + 4) (length b) p = b"
    and "pos + 4 + length b \<le> length p" and "length b < 2 ^ 31"
  shows "page_GetBytes p (int pos) = Inr b"
proof -
  have "page_GetInt p (int pos) = Inr (int (length b))"
    using assms by (intro int_codec.get_enc) (simp_all add: int32_length)
  moreover have "nat (int pos + 4) = pos + 4" by simp
  ultimately show ?thesis
    using assms by (simp add: page_GetBytes_def IntSize_def Let_def)
qed

lemma log_page_boundary:
  assumes "log_page bs p recs" and "bs < 2 ^ 31"
  obtains b where "page_GetInt p 0 = Inr (int b)" and "4 \<le> b" and "b \<le> length p"
    and "log_chain p b recs" and "int (length p) = bs"
proof -
  from assms(1) obtain b where b: "4 \<le> b" "b \<le> length p" "bslice 0 4 p = enc_int (int b)"
    "log_chain p b recs" "int (length p) = bs"
    by (auto simp: log_page_def)
  then have "page_GetInt p 0 = Inr (int b)"
    using assms(2) by (intro int_codec.get_enc) (simp_all add: int32_range_def)
  with b that show thesis by blast
qed

lemma drop_bsplice_after:
  "off + length new \<le> a \<Longrightarrow> off + length new \<le> length p \<Longrightarrow> drop a (bsplice off new p) = drop a p"
  by (simp add: bsplice_def)

text \<open>Putting one record in front of the records of a block.\<close>

lemma log_page_push:
  assumes pg: "log_page bs p recs" and bs: "bs < 2 ^ 31" and b: "page_GetInt p 0 = Inr b"
    and room: "4 \<le> b - (int (length r) + 4)"
  obtains p1 p2 where "page_SetBytes p (b - (int (length r) + 4)) r = Inr p1"
    and "page_SetInt p1 0 (b - (int (length r) + 4)) = Inr p2" and "log_page bs p2 (r # recs)"
proof -
  obtain c where c: "page_GetInt p 0 = Inr (int c)" "4 \<le> c" "c \<le> length p" "log_chain p c recs"
    and len: "int (length p) = bs"
    using pg bs by (rule log_page_boundary)
  define pos where "pos = c - (length r + 4)"
  have bc: "b = int c" using b c by simp
  have pos: "b - (int (length r) + 4) = int pos" "4 \<le> pos" "pos + 4 + length r = c"
    using room by (auto simp: pos_def bc)
  let ?e = "enc_int (int (length r)) @ r"
  let ?p1 = "bsplice pos ?e p"
  let ?p2 = "bsplice 0 (enc_int (int pos)) ?p1"
  have fit: "pos + length ?e \<le> length p" using pos c(3) by simp
  have set1: "page_SetBytes p (int pos) r = Inr ?p1"
    using fit len bs by (simp add: page_SetBytes_fits)
  have set2: "page_SetInt ?p1 0 (int pos) = Inr ?p2"
    using fit len bs pos by (subst int_codec.set_enc) (auto simp: int32_range_def)
  have len2: "length ?p2 = length p" using fit pos by simp
  have in2: "bslice a n ?p2 = bslice (a - pos) n ?e" if "pos \<le> a" "a + n \<le> c" for a n
    using that fit pos by (simp add: bslice_bsplice_other bslice_bsplice_inside)
  have "drop c ?p2 = drop c p"
    using fit pos by (simp add: drop_bsplice_after)
  then have "log_chain ?p2 c recs"
    using c(4) len2 log_chain_cong [of c ?p2 p c recs] by simp
  moreover have "bslice pos 4 ?p2 = enc_int (int (length r))"
    using pos by (simp add: in2) (simp add: bslice_def)
  moreover have "bslice (pos + 4) (length r) ?p2 = r"
    using pos by (simp add: in2) (simp add: bslice_def)
  ultimately have "log_chain ?p2 pos (r # recs)"
    using pos c(3) len2 by simp
  moreover have "bslice 0 4 ?p2 = enc_int (int pos)"
    using fit pos by (intro bslice_bsplice_same) simp_all
  ultimately have "log_page bs ?p2 (r # recs)"
    using pos fit len len2 by (auto simp: log_page_def intro!: exI [of _ pos])
  then show thesis using that set1 set2 pos(1) by simp
qed

lemma log_page_empty:
  assumes "int (length p) = bs" and "4 \<le> bs" and "bs < 2 ^ 31"
  obtains p' where "page_SetInt p 0 bs = Inr p'" and "log_page bs p' []"
    and "page_GetInt p' 0 = Inr bs"
proof -
  have fits: "int_codec.fits p 0 bs"
    using assms by (simp add: int_codec.fits_def int32_range_def)
  let ?p' = "bsplice 0 (enc_int bs) p"
  have set: "page_SetInt p 0 bs = Inr ?p'"
    using assms by (subst int_codec.set_enc) (auto simp: int32_range_def)
  moreover have "page_GetInt ?p' 0 = Inr bs"
    using int_codec.get_after_set [OF fits] set by auto
  moreover have "log_page bs ?p' []"
    using assms by (auto simp: log_page_def bslice_bsplice_same intro!: exI [of _ "length p"])
  ultimately show thesis using that by blast
qed

section \<open>The log as a whole\<close>

text \<open>\<open>older s lf recss\<close>: the blocks before block \<open>length recss\<close> of the log file hold \<open>recss\<close>,
  and none of them is empty.\<close>

definition older :: "'z fm_state_scheme \<Rightarrow> string \<Rightarrow> byte list list list \<Rightarrow> bool" where
  "older s lf recss \<longleftrightarrow> (\<forall>i < length recss. recss ! i \<noteq> [] \<and>
     log_page (blockSize s) (disk_block s (NewBlockId lf (int i))) (recss ! i))"

text \<open>The disk lags behind the page in memory by the records that are not saved yet.\<close>

definition log_saved :: "'z log_state_scheme \<Rightarrow> byte list list \<Rightarrow> bool" where
  "log_saved s cur \<longleftrightarrow> lastSavedLSN s \<le> latestLSN s \<and>
     nat (latestLSN s - lastSavedLSN s) \<le> length cur \<and>
     log_page (blockSize s) (disk_block s (currentBlock s))
       (drop (nat (latestLSN s - lastSavedLSN s)) cur)"

definition lm_inv :: "'z log_state_scheme \<Rightarrow> byte list list list \<Rightarrow> byte list list \<Rightarrow> bool" where
  "lm_inv s recss cur \<longleftrightarrow> fm_wf s \<and> 4 \<le> blockSize s \<and> blockSize s < 2 ^ 31 \<and>
     nblocks s (logFile s) = int (length recss) + 1 \<and>
     currentBlock s = NewBlockId (logFile s) (int (length recss)) \<and>
     log_page (blockSize s) (logPage s) cur \<and> older s (logFile s) recss \<and> log_saved s cur"

text \<open>The log's records, newest first.\<close>

definition log_of :: "byte list list list \<Rightarrow> byte list list \<Rightarrow> byte list list" where
  "log_of recss cur = cur @ concat (rev recss)"

lemma fm_frame_log [simp]:
  assumes "fm_frame s s'"
  shows "logFile s' = logFile s" and "logPage s' = logPage s" and "currentBlock s' = currentBlock s"
    and "latestLSN s' = latestLSN s" and "lastSavedLSN s' = lastSavedLSN s"
proof -
  obtain d o' r w
    where "s' = s\<lparr>disk := d, openFiles := o', blocksRead := r, blocksWritten := w\<rparr>"
    using assms unfolding fm_frame_def by blast
  then show "logFile s' = logFile s" and "logPage s' = logPage s" and "currentBlock s' = currentBlock s"
    and "latestLSN s' = latestLSN s" and "lastSavedLSN s' = lastSavedLSN s"
    by simp_all
qed

lemma older_cong:
  assumes "older s lf recss" and "blockSize s' = blockSize s"
    and "\<And>i. i < length recss \<Longrightarrow>
      disk_block s' (NewBlockId lf (int i)) = disk_block s (NewBlockId lf (int i))"
  shows "older s' lf recss"
  using assms by (simp add: older_def)

lemma lm_inv_current: "lm_inv s recss cur \<Longrightarrow> in_file s (currentBlock s)"
  by (simp add: lm_inv_def in_file_def NewBlockId_def)

lemma lm_inv_not_current: "lm_inv s recss cur \<Longrightarrow> File c \<noteq> logFile s \<Longrightarrow> c \<noteq> currentBlock s"
  by (auto simp: lm_inv_def NewBlockId_def)

lemma lm_inv_older_block:
  "lm_inv s recss cur \<Longrightarrow> i < length recss \<Longrightarrow> in_file s (NewBlockId (logFile s) (int i))"
  by (simp add: lm_inv_def in_file_def NewBlockId_def)

text \<open>What the log manager promises the components above it about the rest of the disk.\<close>

definition data_frame :: "'z log_state_scheme \<Rightarrow> 'z log_state_scheme \<Rightarrow> bool" where
  "data_frame s s' \<longleftrightarrow> blockSize s' = blockSize s \<and> logFile s' = logFile s \<and>
     (\<forall>n. n \<noteq> logFile s \<longrightarrow> nblocks s' n = nblocks s n) \<and>
     (\<forall>c. in_file s c \<longrightarrow> File c \<noteq> logFile s \<longrightarrow> disk_block s' c = disk_block s c)"

lemma data_frame_refl [simp]: "data_frame s s"
  by (simp add: data_frame_def)

lemma data_frame_trans: "data_frame s t \<Longrightarrow> data_frame t u \<Longrightarrow> data_frame s u"
  by (auto simp: data_frame_def in_file_def)

text \<open>Log operations leave every field that a further extension adds alone.\<close>

definition lm_frame :: "'z log_state_scheme \<Rightarrow> 'z log_state_scheme \<Rightarrow> bool" where
  "lm_frame s s' \<longleftrightarrow> (\<exists>t pg blk l1 l2. fm_frame s t \<and>
     s' = t\<lparr>logPage := pg, currentBlock := blk, latestLSN := l1, lastSavedLSN := l2\<rparr>)"

lemma lm_frameI:
  "fm_frame s t \<Longrightarrow> s' = t\<lparr>logPage := pg, currentBlock := blk, latestLSN := l1, lastSavedLSN := l2\<rparr> \<Longrightarrow>
   lm_frame s s'"
  unfolding lm_frame_def by blast

lemma lm_frame_fm: "fm_frame s s' \<Longrightarrow> lm_frame s s'"
  by (rule lm_frameI [where t = s' and pg = "logPage s'" and blk = "currentBlock s'" and
        ?l1.0 = "latestLSN s'" and ?l2.0 = "lastSavedLSN s'"]) simp_all

lemma lm_frame_refl [simp]: "lm_frame s s"
  by (simp add: lm_frame_fm fm_frame_refl)

lemma fm_frame_upd:
  assumes "fm_frame t u"
    and t: "t = s\<lparr>logPage := pg', currentBlock := blk', latestLSN := l1', lastSavedLSN := l2'\<rparr>"
  obtains v where "fm_frame s v"
    and "u\<lparr>logPage := pg, currentBlock := blk, latestLSN := l1, lastSavedLSN := l2\<rparr> =
      v\<lparr>logPage := pg, currentBlock := blk, latestLSN := l1, lastSavedLSN := l2\<rparr>"
proof -
  obtain d o' r w
    where u: "u = t\<lparr>disk := d, openFiles := o', blocksRead := r, blocksWritten := w\<rparr>"
    using assms(1) unfolding fm_frame_def by blast
  let ?v = "s\<lparr>disk := d, openFiles := o', blocksRead := r, blocksWritten := w\<rparr>"
  have "fm_frame s ?v" by (rule fm_frameI) (rule refl)
  then show thesis by (rule that) (simp add: u t)
qed

lemma lm_frame_trans:
  assumes "lm_frame s t" and "lm_frame t u"
  shows "lm_frame s u"
proof -
  obtain t1 p1 b1 k1 m1 where t1: "fm_frame s t1"
    "t = t1\<lparr>logPage := p1, currentBlock := b1, latestLSN := k1, lastSavedLSN := m1\<rparr>"
    using assms(1) unfolding lm_frame_def by blast
  obtain u1 p2 b2 k2 m2 where u1: "fm_frame t u1"
    "u = u1\<lparr>logPage := p2, currentBlock := b2, latestLSN := k2, lastSavedLSN := m2\<rparr>"
    using assms(2) unfolding lm_frame_def by blast
  obtain v where v: "fm_frame t1 v"
    "u1\<lparr>logPage := p2, currentBlock := b2, latestLSN := k2, lastSavedLSN := m2\<rparr> =
     v\<lparr>logPage := p2, currentBlock := b2, latestLSN := k2, lastSavedLSN := m2\<rparr>"
    by (rule fm_frame_upd [OF u1(1) t1(2)]) blast
  show ?thesis
    by (rule lm_frameI [OF fm_frame_trans [OF t1(1) v(1)]]) (simp add: u1(2) v(2))
qed

lemma lm_upd_storage [simp]:
  "fileBytes (s\<lparr>logPage := pg\<rparr>) n = fileBytes s n"
  "fileBytes (s\<lparr>currentBlock := blk\<rparr>) n = fileBytes s n"
  "fileBytes (s\<lparr>latestLSN := l\<rparr>) n = fileBytes s n"
  "fileBytes (s\<lparr>lastSavedLSN := l\<rparr>) n = fileBytes s n"
  by (simp_all add: fileBytes_def)

lemma lm_upd_blocks [simp]:
  "fm_wf (s\<lparr>logPage := pg\<rparr>) = fm_wf s" "nblocks (s\<lparr>logPage := pg\<rparr>) n = nblocks s n"
  "disk_block (s\<lparr>logPage := pg\<rparr>) c = disk_block s c"
  "fm_wf (s\<lparr>currentBlock := blk\<rparr>) = fm_wf s" "nblocks (s\<lparr>currentBlock := blk\<rparr>) n = nblocks s n"
  "disk_block (s\<lparr>currentBlock := blk\<rparr>) c = disk_block s c"
  "fm_wf (s\<lparr>latestLSN := l\<rparr>) = fm_wf s" "nblocks (s\<lparr>latestLSN := l\<rparr>) n = nblocks s n"
  "disk_block (s\<lparr>latestLSN := l\<rparr>) c = disk_block s c"
  "fm_wf (s\<lparr>lastSavedLSN := l\<rparr>) = fm_wf s" "nblocks (s\<lparr>lastSavedLSN := l\<rparr>) n = nblocks s n"
  "disk_block (s\<lparr>lastSavedLSN := l\<rparr>) c = disk_block s c"
  by (simp_all add: fm_wf_def nblocks_def disk_block_def)

lemma lm_flush_spec:
  assumes inv: "lm_inv s recss cur"
  obtains s' where "lm_flush s = (Inr (), s')" and "lm_inv s' recss cur" and "lm_frame s s'"
    and "data_frame s s'" and "lastSavedLSN s' = latestLSN s" and "latestLSN s' = latestLSN s"
    and "logPage s' = logPage s" and "currentBlock s' = currentBlock s"
    and "disk_block s' (currentBlock s) = logPage s" and "\<And>n. nblocks s' n = nblocks s n"
    and "\<And>c. in_file s c \<Longrightarrow> c \<noteq> currentBlock s \<Longrightarrow> disk_block s' c = disk_block s c"
proof -
  have wf: "fm_wf s" and len: "int (length (logPage s)) = blockSize s"
    using inv by (auto simp: lm_inv_def log_page_def)
  obtain t where w: "fm_Write (currentBlock s) (logPage s) s = (Inr (), t)" and fr: "fm_frame s t"
    and wft: "fm_wf t" and nb: "\<And>n. nblocks t n = nblocks s n"
    and same: "disk_block t (currentBlock s) = logPage s"
    and other: "\<And>c. in_file s c \<Longrightarrow> c \<noteq> currentBlock s \<Longrightarrow> disk_block t c = disk_block s c"
    by (rule fm_Write_spec [OF wf lm_inv_current [OF inv] len]) blast
  let ?s' = "t\<lparr>lastSavedLSN := latestLSN s\<rparr>"
  have run: "lm_flush s = (Inr (), ?s')"
    using w fr by (simp add: lm_flush_def bnd_def go_simps)
  have old: "older ?s' (logFile s) recss"
  proof (rule older_cong [of s])
    fix i
    assume i: "i < length recss"
    then have "in_file s (NewBlockId (logFile s) (int i))"
      using inv by (intro lm_inv_older_block)
    moreover have "NewBlockId (logFile s) (int i) \<noteq> currentBlock s"
      using inv i by (simp add: lm_inv_def NewBlockId_def)
    ultimately show "disk_block ?s' (NewBlockId (logFile s) (int i)) =
        disk_block s (NewBlockId (logFile s) (int i))"
      by (simp add: other)
  qed (use inv fr in \<open>simp_all add: lm_inv_def\<close>)
  have "lm_frame s ?s'"
    by (rule lm_frameI [OF fr, where pg = "logPage t" and blk = "currentBlock t" and
          ?l1.0 = "latestLSN t" and ?l2.0 = "latestLSN s"]) simp
  moreover have "data_frame s ?s'"
    using fr nb other lm_inv_not_current [OF inv] by (simp add: data_frame_def)
  moreover have "lm_inv ?s' recss cur"
    using inv fr wft nb old same by (simp add: lm_inv_def log_saved_def)
  ultimately show thesis using run same fr nb other that [of ?s'] by simp
qed

lemma lm_appendNewBlock_spec:
  assumes wf: "fm_wf s" and bs: "4 \<le> blockSize s" "blockSize s < 2 ^ 31"
    and len: "int (length pg) = blockSize s"
  obtains s' pg' where "lm_appendNewBlock lf pg s = (Inr (NewBlockId lf (nblocks s lf), pg'), s')"
    and "fm_frame s s'" and "fm_wf s'" and "page_GetInt pg' 0 = Inr (blockSize s)"
    and "log_page (blockSize s) pg' []" and "nblocks s' lf = nblocks s lf + 1"
    and "\<And>n. n \<noteq> lf \<Longrightarrow> nblocks s' n = nblocks s n"
    and "\<And>c. in_file s c \<Longrightarrow> disk_block s' c = disk_block s c"
    and "disk_block s' (NewBlockId lf (nblocks s lf)) = pg'"
proof -
  let ?b = "NewBlockId lf (nblocks s lf)"
  obtain t where ap: "fm_Append lf s = (Inr ?b, t)" and fr: "fm_frame s t" and wft: "fm_wf t"
    and nb: "\<And>m. nblocks t m = (if m = lf then nblocks s lf + 1 else nblocks s m)"
    and keep: "\<And>c. in_file s c \<Longrightarrow> disk_block t c = disk_block s c"
    by (rule fm_Append_spec [OF wf, of lf]) blast
  obtain pg' where set: "page_SetInt pg 0 (blockSize s) = Inr pg'"
    and empty: "log_page (blockSize s) pg' []" and get: "page_GetInt pg' 0 = Inr (blockSize s)"
    by (rule log_page_empty [OF len bs]) blast
  have len': "int (length pg') = blockSize t" using empty fr by (simp add: log_page_def)
  have "0 \<le> nblocks s lf"
    using wf by (simp add: nblocks_def fm_wf_def pos_imp_zdiv_nonneg_iff)
  then have b: "in_file t ?b" using nb by (simp add: in_file_def NewBlockId_def)
  obtain u where w: "fm_Write ?b pg' t = (Inr (), u)" and fru: "fm_frame t u" and wfu: "fm_wf u"
    and nbu: "\<And>n. nblocks u n = nblocks t n" and sameu: "disk_block u ?b = pg'"
    and other: "\<And>c. in_file t c \<Longrightarrow> c \<noteq> ?b \<Longrightarrow> disk_block u c = disk_block t c"
    by (rule fm_Write_spec [OF wft b len']) blast
  have "lm_appendNewBlock lf pg s = (Inr (?b, pg'), u)"
    using ap fr set w by (simp add: lm_appendNewBlock_def bnd_def go_simps)
  moreover have "disk_block u c = disk_block s c" if c: "in_file s c" for c
  proof -
    have "c \<noteq> ?b" and "in_file t c"
      using c nb by (auto simp: in_file_def NewBlockId_def)
    then show ?thesis using other keep c by simp
  qed
  ultimately show thesis
    using fm_frame_trans [OF fr fru] wfu get empty nb nbu sameu that [of pg' u] by simp
qed

text \<open>A full block is flushed and a new, empty one becomes the current block.\<close>

lemma lm_newBlock_spec:
  assumes inv: "lm_inv s recss cur" and cur: "cur \<noteq> []"
  obtains s' where "lm_newBlock s = (Inr (blockSize s), s')" and "lm_inv s' (recss @ [cur]) []"
    and "lm_frame s s'" and "data_frame s s'" and "latestLSN s' = latestLSN s"
    and "lastSavedLSN s' = latestLSN s"
proof -
  obtain t where fl: "lm_flush s = (Inr (), t)" and invt: "lm_inv t recss cur"
    and frt: "lm_frame s t" and dft: "data_frame s t" and lsn: "lastSavedLSN t = latestLSN s"
    "latestLSN t = latestLSN s" and pg: "logPage t = logPage s"
    and cb: "currentBlock t = currentBlock s" and durable: "disk_block t (currentBlock s) = logPage s"
    by (rule lm_flush_spec [OF inv]) blast
  have bs: "fm_wf t" "4 \<le> blockSize t" "blockSize t < 2 ^ 31" "int (length (logPage t)) = blockSize t"
    using invt by (auto simp: lm_inv_def log_page_def)
  obtain u pg' where ap: "lm_appendNewBlock (logFile t) (logPage t) t =
      (Inr (NewBlockId (logFile t) (nblocks t (logFile t)), pg'), u)"
    and fru: "fm_frame t u" and wfu: "fm_wf u" and get: "page_GetInt pg' 0 = Inr (blockSize t)"
    and empty: "log_page (blockSize t) pg' []"
    and nbu: "nblocks u (logFile t) = nblocks t (logFile t) + 1"
    and nbo: "\<And>n. n \<noteq> logFile t \<Longrightarrow> nblocks u n = nblocks t n"
    and keep: "\<And>c. in_file t c \<Longrightarrow> disk_block u c = disk_block t c"
    and newb: "disk_block u (NewBlockId (logFile t) (nblocks t (logFile t))) = pg'"
    by (rule lm_appendNewBlock_spec [OF bs, of "logFile t"]) blast
  let ?blk = "NewBlockId (logFile t) (nblocks t (logFile t))"
  let ?s' = "u\<lparr>currentBlock := ?blk, logPage := pg'\<rparr>"
  have bse: "blockSize t = blockSize s" and lfe: "logFile t = logFile s"
    using dft by (simp_all add: data_frame_def)
  have run: "lm_newBlock s = (Inr (blockSize s), ?s')"
    using fl ap get bse by (simp add: lm_newBlock_def bnd_def go_simps)
  have old: "older ?s' (logFile t) (recss @ [cur])"
    unfolding older_def
  proof (intro allI impI)
    fix i
    assume i: "i < length (recss @ [cur])"
    show "(recss @ [cur]) ! i \<noteq> [] \<and>
      log_page (blockSize ?s') (disk_block ?s' (NewBlockId (logFile t) (int i))) ((recss @ [cur]) ! i)"
    proof (cases "i < length recss")
      case True
      then have "in_file t (NewBlockId (logFile t) (int i))"
        using invt by (intro lm_inv_older_block)
      then show ?thesis
        using True invt fru keep by (simp add: nth_append lm_inv_def older_def)
    next
      case False
      then have "i = length recss" using i by simp
      moreover have "NewBlockId (logFile t) (int (length recss)) = currentBlock t"
        using invt by (simp add: lm_inv_def)
      ultimately show ?thesis
        using invt fru cur durable keep [OF lm_inv_current [OF invt]] pg cb
        by (simp add: lm_inv_def)
    qed
  qed
  have "lm_frame t ?s'"
    by (rule lm_frameI [OF fru, where pg = pg' and blk = ?blk and ?l1.0 = "latestLSN u" and
          ?l2.0 = "lastSavedLSN u"]) simp
  with frt have fr: "lm_frame s ?s'" by (rule lm_frame_trans)
  have df: "data_frame s ?s'"
    using dft fru nbo keep by (intro data_frame_trans [OF dft]) (simp add: data_frame_def)
  have "lm_inv ?s' (recss @ [cur]) []"
    using invt fru wfu nbu empty old lsn newb by (simp add: lm_inv_def log_saved_def add.commute)
  then show thesis using run fr df fru lsn that [of ?s'] by simp
qed

lemma lm_Append_spec:
  assumes inv: "lm_inv s recss cur" and r: "int (length r) + 8 \<le> blockSize s"
  obtains s' recss' cur' where "lm_Append r s = (Inr (latestLSN s + 1), s')"
    and "lm_inv s' recss' cur'" and "log_of recss' cur' = r # log_of recss cur"
    and "lm_frame s s'" and "data_frame s s'" and "latestLSN s' = latestLSN s + 1"
    and "cur' \<noteq> []"
proof -
  let ?need = "int (length r) + 4"
  have bs: "blockSize s < 2 ^ 31" and pg: "log_page (blockSize s) (logPage s) cur"
    using inv by (simp_all add: lm_inv_def)
  obtain b where b: "page_GetInt (logPage s) 0 = Inr (int b)" "log_chain (logPage s) b cur"
    and blen: "int (length (logPage s)) = blockSize s"
    using pg bs by (rule log_page_boundary)
  text \<open>the state in which the record is written: the same, or with a new block\<close>
  obtain t recss1 cur1 bd where
    room: "(if int b - ?need < 4 then lm_newBlock else ret (int b)) s = (Inr bd, t)"
    and invt: "lm_inv t recss1 cur1" and log: "log_of recss1 cur1 = log_of recss cur"
    and frt: "lm_frame s t" and dft: "data_frame s t" and lsn: "latestLSN t = latestLSN s"
    and bd: "page_GetInt (logPage t) 0 = Inr bd" "4 \<le> bd - ?need"
  proof (cases "int b - ?need < 4")
    case False
    then show thesis using that [of "int b" s recss cur] inv b by (simp add: go_simps)
  next
    case True
    have "cur \<noteq> []"
      using True r b(2) blen by auto
    then obtain t where t: "lm_newBlock s = (Inr (blockSize s), t)" "lm_inv t (recss @ [cur]) []"
      "lm_frame s t" "data_frame s t" "latestLSN t = latestLSN s"
      by (rule lm_newBlock_spec [OF inv])
    have "page_GetInt (logPage t) 0 = Inr (blockSize s)"
    proof -
      have "log_page (blockSize s) (logPage t) []" "blockSize t = blockSize s"
        using t by (auto simp: lm_inv_def data_frame_def)
      then show ?thesis using bs by (elim log_page_boundary) (auto simp: lm_inv_def)
    qed
    then show thesis
      using t True r that [of "blockSize s" t "recss @ [cur]" "[]"] by (simp add: log_of_def)
  qed
  have bst: "blockSize t = blockSize s" using dft by (simp add: data_frame_def)
  have pgt: "log_page (blockSize t) (logPage t) cur1" using invt by (simp add: lm_inv_def)
  obtain p1 p2 where p: "page_SetBytes (logPage t) (bd - ?need) r = Inr p1"
    "page_SetInt p1 0 (bd - ?need) = Inr p2" "log_page (blockSize t) p2 (r # cur1)"
    by (rule log_page_push [OF pgt _ bd]) (use bs bst in auto)
  let ?s' = "t\<lparr>logPage := p2, latestLSN := latestLSN t + 1\<rparr>"
  have run: "lm_Append r s = (Inr (latestLSN s + 1), ?s')"
    using b(1) p lsn room
    by (cases "int b - ?need < 4") (simp_all add: lm_Append_def go_simps Let_def bnd_Inr)
  have "older ?s' (logFile t) recss1"
    by (rule older_cong [of t]) (use invt in \<open>simp_all add: lm_inv_def\<close>)
  moreover have "log_saved ?s' (r # cur1)"
  proof -
    have sv: "log_saved t cur1" using invt by (simp add: lm_inv_def)
    then have "lastSavedLSN t \<le> latestLSN t" by (simp add: log_saved_def)
    then have "nat (latestLSN t + 1 - lastSavedLSN t) = Suc (nat (latestLSN t - lastSavedLSN t))"
      by arith
    then show ?thesis using sv by (simp add: log_saved_def)
  qed
  ultimately have "lm_inv ?s' recss1 (r # cur1)"
    using invt p(3) by (simp add: lm_inv_def)
  moreover have "lm_frame t ?s'"
    by (rule lm_frameI [OF fm_frame_refl, where pg = p2 and blk = "currentBlock t" and
          ?l1.0 = "latestLSN t + 1" and ?l2.0 = "lastSavedLSN t"]) simp
  moreover have "data_frame t ?s'" by (simp add: data_frame_def)
  ultimately show thesis
    using run log lsn lm_frame_trans [OF frt] data_frame_trans [OF dft]
      that [of ?s' recss1 "r # cur1"] by (simp add: log_of_def)
qed

section \<open>Reading the log\<close>

text \<open>\<open>it_at s lf it recs\<close>: the records the iterator still has to return are \<open>recs\<close>.\<close>

definition it_at :: "'z fm_state_scheme \<Rightarrow> string \<Rightarrow> log_iter \<Rightarrow> byte list list \<Rightarrow> bool" where
  "it_at s lf it recs \<longleftrightarrow> fm_wf s \<and> blockSize s < 2 ^ 31 \<and>
     (\<exists>recss cur pos. it_block it = NewBlockId lf (int (length recss)) \<and> it_pos it = int pos \<and>
        int (length (it_page it)) = blockSize s \<and> log_chain (it_page it) pos cur \<and>
        older s lf recss \<and> int (length recss) < nblocks s lf \<and> recs = log_of recss cur)"

lemma it_atE:
  assumes "it_at s lf it recs"
  obtains recss cur pos where "it_block it = NewBlockId lf (int (length recss))"
    and "it_pos it = int pos" and "int (length (it_page it)) = blockSize s"
    and "log_chain (it_page it) pos cur" and "older s lf recss"
    and "int (length recss) < nblocks s lf" and "recs = log_of recss cur"
    and "fm_wf s" and "blockSize s < 2 ^ 31"
  using assms by (auto simp: it_at_def)

lemma older_last:
  assumes "older s lf recss" and "recss \<noteq> []"
  shows "last recss \<noteq> []" and "older s lf (butlast recss)"
    and "log_page (blockSize s) (disk_block s (NewBlockId lf (int (length recss) - 1))) (last recss)"
proof -
  have n: "length recss - 1 < length recss" and "last recss = recss ! (length recss - 1)"
    using assms(2) by (simp_all add: last_conv_nth)
  moreover have "int (length recss - 1) = int (length recss) - 1"
    using assms(2) by (cases recss) simp_all
  ultimately show "last recss \<noteq> []"
    and "log_page (blockSize s) (disk_block s (NewBlockId lf (int (length recss) - 1))) (last recss)"
    using assms(1) [unfolded older_def, rule_format, OF n] by auto
  show "older s lf (butlast recss)"
    using assms(1) by (auto simp: older_def nth_butlast)
qed

lemma it_HasNext_iff:
  assumes "it_at s lf it recs"
  shows "it_HasNext (blockSize s) it \<longleftrightarrow> recs \<noteq> []"
proof -
  obtain recss cur pos where it: "it_block it = NewBlockId lf (int (length recss))"
    "it_pos it = int pos" "int (length (it_page it)) = blockSize s"
    "log_chain (it_page it) pos cur" "older s lf recss" "recs = log_of recss cur"
    using assms by (rule it_atE)
  have pos: "pos < length (it_page it) \<longleftrightarrow> cur \<noteq> []"
    using it(4) by (cases cur) auto
  have "recss \<noteq> [] \<longleftrightarrow> concat (rev recss) \<noteq> []"
    using older_last(1) [OF it(5)] by (cases recss rule: rev_cases) auto
  then show ?thesis
    using it pos by (auto simp: it_HasNext_def NewBlockId_def log_of_def)
qed

lemma it_moveToBlock_spec:
  assumes wf: "fm_wf s" and bs: "blockSize s < 2 ^ 31" and b: "in_file s blk"
    and pg: "log_page (blockSize s) (disk_block s blk) recs"
    and len: "int (length (it_page it)) = blockSize s"
  obtains s' it' pos where "it_moveToBlock blk it s = (Inr it', s')" and "fm_frame s s'"
    and "\<And>n. fileBytes s' n = fileBytes s n" and "it_block it' = it_block it"
    and "it_page it' = disk_block s blk" and "it_pos it' = int pos"
    and "log_chain (disk_block s blk) pos recs"
proof -
  obtain s' where rd: "fm_Read blk (it_page it) s = ((Inr (), disk_block s blk), s')"
    and fr: "fm_frame s s'" and fb: "\<And>n. fileBytes s' n = fileBytes s n"
    by (rule fm_Read_spec [OF wf b len]) blast
  obtain b where "page_GetInt (disk_block s blk) 0 = Inr (int b)" "log_chain (disk_block s blk) b recs"
    using pg bs by (rule log_page_boundary)
  then show thesis
    using rd fr fb
      that [of "it\<lparr>it_page := disk_block s blk, it_boundary := int b, it_pos := int b\<rparr>" s' b]
    by (simp add: it_moveToBlock_def fm_ReadPage_def bnd_def go_simps)
qed

lemma fm_frame_same_blocks:
  assumes "fm_frame s s'" and "\<And>n. fileBytes s' n = fileBytes s n"
  shows "fm_wf s' = fm_wf s" and "nblocks s' n = nblocks s n" and "disk_block s' c = disk_block s c"
    and "older s' lf recss = older s lf recss"
proof -
  have bs: "blockSize s' = blockSize s" using assms(1) by (rule fm_frame_blockSize)
  show wf: "fm_wf s' = fm_wf s" and nb: "nblocks s' n = nblocks s n"
    by (simp_all add: fm_wf_def nblocks_def bs assms(2))
  have db: "disk_block s' c = disk_block s c" for c
    by (simp add: disk_block_def bs assms(2))
  then show "disk_block s' c = disk_block s c" .
  show "older s' lf recss = older s lf recss"
    by (simp add: older_def bs db)
qed

lemma it_Next_spec:
  assumes at: "it_at s lf it (r # recs)"
  obtains s' it' where "it_Next it s = (Inr (r, it'), s')" and "it_at s' lf it' recs"
    and "fm_frame s s'" and "\<And>n. fileBytes s' n = fileBytes s n"
proof -
  obtain recss cur pos where it: "it_block it = NewBlockId lf (int (length recss))"
    "it_pos it = int pos" "int (length (it_page it)) = blockSize s"
    "log_chain (it_page it) pos cur" "older s lf recss" "int (length recss) < nblocks s lf"
    "r # recs = log_of recss cur" "fm_wf s" "blockSize s < 2 ^ 31"
    using at by (rule it_atE)
  text \<open>after the possible move to the previous block\<close>
  obtain t it1 recss1 cur1 pos1 where
    move: "(if it_pos it = blockSize s then
            if BlockNumber (it_block it) = 0 then fail ENoMoreLogRecords
            else let blk = NewBlockId (File (it_block it)) (BlockNumber (it_block it) - 1) in
                 it_moveToBlock blk (it\<lparr>it_block := blk\<rparr>)
          else ret it) s = (Inr it1, t)"
    and t: "fm_frame s t" "\<And>n. fileBytes t n = fileBytes s n"
    and it1: "it_block it1 = NewBlockId lf (int (length recss1))" "it_pos it1 = int pos1"
      "int (length (it_page it1)) = blockSize s" "log_chain (it_page it1) pos1 cur1"
      "older s lf recss1" "int (length recss1) < nblocks s lf" "r # recs = log_of recss1 cur1"
      "cur1 \<noteq> []"
  proof (cases "cur = []")
    case False
    then have "it_pos it \<noteq> blockSize s"
      using it(2-4) by (cases cur) auto
    then show thesis
      using it False
      by (intro that [of it s recss pos cur]) (simp_all add: go_simps fm_frame_refl)
  next
    case True
    then have eob: "it_pos it = blockSize s" and ne: "recss \<noteq> []"
      using it by (auto simp: log_of_def)
    let ?blk = "NewBlockId lf (int (length recss) - 1)"
    note last = older_last [OF it(5) ne]
    have inb: "in_file s ?blk"
      using it(6) ne by (cases recss) (simp_all add: in_file_def NewBlockId_def)
    have len: "int (length (it_page (it\<lparr>it_block := ?blk\<rparr>))) = blockSize s"
      using it(3) by simp
    obtain t it1 pos1 where mv: "it_moveToBlock ?blk (it\<lparr>it_block := ?blk\<rparr>) s = (Inr it1, t)"
      "fm_frame s t" "\<And>n. fileBytes t n = fileBytes s n" "it_block it1 = ?blk"
      "it_page it1 = disk_block s ?blk" "it_pos it1 = int pos1"
      "log_chain (disk_block s ?blk) pos1 (last recss)"
      by (rule it_moveToBlock_spec [OF it(8,9) inb last(3) len]) simp
    have len1: "int (length recss) - 1 = int (length (butlast recss))"
      using ne by (cases recss) simp_all
    have lo: "r # recs = log_of (butlast recss) (last recss)"
      using ne it(7) True by (cases recss rule: rev_cases) (simp_all add: log_of_def)
    have pgl: "int (length (disk_block s ?blk)) = blockSize s"
      using length_disk_block [OF it(8) inb] it(8) by (simp add: fm_wf_def)
    have lt: "int (length recss) - 1 < nblocks s lf"
      using it(6) by simp
    have nz: "BlockNumber (it_block it) \<noteq> 0"
      using it(1) ne by (simp add: NewBlockId_def)
    have blk: "NewBlockId (File (it_block it)) (BlockNumber (it_block it) - 1) = ?blk"
      using it(1) by (simp add: NewBlockId_def)
    show thesis
      by (rule that [of it1 t "butlast recss" pos1 "last recss"])
        (use mv(4,6,7) in \<open>simp_all add: eob nz blk Let_def mv(1,2,3,5) pgl lt lo
            len1 [symmetric] last del: length_butlast\<close>)
  qed
  obtain cs where cs: "cur1 = r # cs" "recs = log_of recss1 cs"
    using it1(7,8) by (cases cur1) (simp_all add: log_of_def)
  have "length r < 2 ^ 31"
    using it1(3,4) it(9) cs by simp
  then have get: "page_GetBytes (it_page it1) (it_pos it1) = Inr r"
    using it1(2,4) cs by (simp add: page_GetBytes_fits)
  let ?it' = "it1\<lparr>it_pos := it_pos it1 + (4 + int (length r))\<rparr>"
  have run: "it_Next it s = (Inr (r, ?it'), t)"
    using move get by (simp add: it_Next_def go_simps bnd_def)
  have "it_at t lf ?it' recs"
    unfolding it_at_def fm_frame_same_blocks [OF t]
    using it(8,9) it1 cs t(1)
    by (auto intro!: exI [of _ recss1] exI [of _ cs] exI [of _ "pos1 + 4 + length r"])
  then show thesis using run t that by blast
qed

text \<open>What the disk alone holds, with no log manager open on it.\<close>

definition log_on_disk ::
  "'z fm_state_scheme \<Rightarrow> string \<Rightarrow> byte list list list \<Rightarrow> byte list list \<Rightarrow> bool" where
  "log_on_disk s lf recss cur \<longleftrightarrow> fm_wf s \<and> 4 \<le> blockSize s \<and> blockSize s < 2 ^ 31 \<and>
     nblocks s lf = int (length recss) + 1 \<and>
     log_page (blockSize s) (disk_block s (NewBlockId lf (int (length recss)))) cur \<and>
     older s lf recss"

lemma log_on_disk_flushed:
  assumes "lm_inv s recss cur" and "disk_block s (currentBlock s) = logPage s"
  shows "log_on_disk s (logFile s) recss cur"
  using assms by (simp add: lm_inv_def log_on_disk_def)

lemma NewIterator_spec:
  assumes d: "log_on_disk s lf recss cur"
  obtains s' it where "NewIterator (NewBlockId lf (int (length recss))) s = (Inr it, s')"
    and "it_at s' lf it (log_of recss cur)" and "fm_frame s s'"
    and "\<And>n. fileBytes s' n = fileBytes s n"
proof -
  let ?b = "NewBlockId lf (int (length recss))"
  let ?it = "\<lparr>it_block = ?b, it_page = replicate (nat (blockSize s)) 0, it_pos = 0, it_boundary = 0\<rparr>"
  have wf: "fm_wf s" and bs: "blockSize s < 2 ^ 31" "0 < blockSize s"
    and pg: "log_page (blockSize s) (disk_block s ?b) cur" and old: "older s lf recss"
    and nb: "nblocks s lf = int (length recss) + 1"
    using d by (simp_all add: log_on_disk_def)
  have b: "in_file s ?b" using nb by (simp add: in_file_def NewBlockId_def)
  have len: "int (length (it_page ?it)) = blockSize s" using bs by simp
  obtain s' it pos where mv: "it_moveToBlock ?b ?it s = (Inr it, s')" and fr: "fm_frame s s'"
    and fb: "\<And>n. fileBytes s' n = fileBytes s n" and it: "it_block it = it_block ?it"
    "it_page it = disk_block s ?b" "it_pos it = int pos" "log_chain (disk_block s ?b) pos cur"
    by (rule it_moveToBlock_spec [OF wf bs(1) b pg len]) simp
  have run: "NewIterator ?b s = (Inr it, s')"
    using mv bs by (simp add: NewIterator_def NewPageOfSize_def go_simps)
  have lenp: "int (length (disk_block s ?b)) = blockSize s" using pg by (simp add: log_page_def)
  have "it_at s' lf it (log_of recss cur)"
    unfolding it_at_def fm_frame_same_blocks [OF fr fb]
    using wf bs fr it lenp old nb by (auto intro!: exI [of _ recss] exI [of _ cur] exI [of _ pos])
  then show thesis using run fr fb by (intro that)
qed

lemma it_collect_spec:
  assumes "it_at s lf it recs" and "length recs < n"
  shows "\<exists>s'. it_collect n it s = (Inr recs, s') \<and> fm_frame s s' \<and>
    (\<forall>m. fileBytes s' m = fileBytes s m)"
  using assms
proof (induction n arbitrary: s it recs)
  case 0
  then show ?case by simp
next
  case (Suc n)
  show ?case
  proof (cases recs)
    case Nil
    then show ?thesis using it_HasNext_iff [OF Suc.prems(1)] by (simp add: fm_frame_refl)
  next
    case (Cons r rs)
    obtain t it' where nx: "it_Next it s = (Inr (r, it'), t)" and at: "it_at t lf it' rs"
      and fr: "fm_frame s t" and fb: "\<And>m. fileBytes t m = fileBytes s m"
      by (rule it_Next_spec [OF Suc.prems(1) [unfolded Cons]]) simp
    have "length rs < n" using Suc.prems(2) Cons by simp
    then obtain u where "it_collect n it' t = (Inr rs, u)" "fm_frame t u"
      "\<forall>m. fileBytes u m = fileBytes t m"
      using Suc.IH [OF at] by blast
    then show ?thesis
      using nx fb it_HasNext_iff [OF Suc.prems(1)] Cons fm_frame_trans [OF fr]
      by (simp add: bnd_def go_simps)
  qed
qed

lemma lm_Iterator_spec:
  assumes inv: "lm_inv s recss cur"
  obtains s' it where "lm_Iterator s = (Inr it, s')" and "lm_inv s' recss cur"
    and "it_at s' (logFile s) it (log_of recss cur)" and "lm_frame s s'" and "data_frame s s'"
    and "latestLSN s' = latestLSN s"
proof -
  obtain t where fl: "lm_flush s = (Inr (), t)" and invt: "lm_inv t recss cur"
    and frt: "lm_frame s t" and dft: "data_frame s t" and lsn: "latestLSN t = latestLSN s"
    and pg: "logPage t = logPage s" and cb: "currentBlock t = currentBlock s"
    and durable: "disk_block t (currentBlock s) = logPage s"
    by (rule lm_flush_spec [OF inv]) blast
  have lf: "logFile t = logFile s" using dft by (simp add: data_frame_def)
  have d: "log_on_disk t (logFile s) recss cur"
    using log_on_disk_flushed [OF invt] durable pg cb lf by simp
  obtain u it where ni: "NewIterator (NewBlockId (logFile s) (int (length recss))) t = (Inr it, u)"
    and at: "it_at u (logFile s) it (log_of recss cur)" and fru: "fm_frame t u"
    and fb: "\<And>n. fileBytes u n = fileBytes t n"
    by (rule NewIterator_spec [OF d]) blast
  note same = fm_frame_same_blocks [OF fru fb]
  have "lm_Iterator s = (Inr it, u)"
    using fl ni invt lf by (simp add: lm_Iterator_def bnd_def go_simps lm_inv_def)
  moreover have "log_saved u cur = log_saved t cur"
    using fru by (simp add: log_saved_def same)
  then have "lm_inv u recss cur"
    using invt fru by (simp add: lm_inv_def same)
  moreover have "data_frame t u"
    using fru by (simp add: data_frame_def same)
  ultimately show thesis
    using at lm_frame_trans [OF frt lm_frame_fm [OF fru]] data_frame_trans [OF dft] fru lsn
    by (intro that [of it u]) simp_all
qed

text \<open>Opening a log manager: on a new file the log is empty, on an old one it is what the disk holds.\<close>

lemma lm_NewLogManager_old:
  assumes d: "log_on_disk s lf recss cur"
  obtains t where "lm_NewLogManager lf s = Inr t" and "lm_inv t recss cur" and "logFile t = lf"
    and "disk_block t (currentBlock t) = logPage t"
proof -
  let ?b = "NewBlockId lf (int (length recss))"
  have wf: "fm_wf s" and bs: "0 < blockSize s" and pg: "log_page (blockSize s) (disk_block s ?b) cur"
    and old: "older s lf recss" and nb: "nblocks s lf = int (length recss) + 1"
    using d by (simp_all add: log_on_disk_def)
  obtain s1 where len: "fm_Length lf s = (Inr (nblocks s lf), s1)" and fr1: "fm_frame s s1"
    and fb1: "\<And>m. fileBytes s1 m = fileBytes s m"
    by (rule fm_Length_spec [OF wf]) blast
  note same1 = fm_frame_same_blocks [OF fr1 fb1]
  have b: "in_file s1 ?b" using nb by (simp add: in_file_def NewBlockId_def same1)
  have wf1: "fm_wf s1" using wf same1 by simp
  have pl: "int (length (replicate (nat (blockSize s)) (0 :: byte))) = blockSize s1"
    using bs fr1 by simp
  obtain s2 where rd: "fm_Read ?b (replicate (nat (blockSize s)) 0) s1 = ((Inr (), disk_block s1 ?b), s2)"
    and fr2: "fm_frame s1 s2" and fb2: "\<And>m. fileBytes s2 m = fileBytes s1 m"
    by (rule fm_Read_spec [OF wf1 b pl]) blast
  note same2 = fm_frame_same_blocks [OF fr2 fb2]
  have op: "lm_open lf s = (Inr (?b, disk_block s ?b), s2)"
    using len rd nb bs by (simp add: lm_open_def bnd_def go_simps NewPageOfSize_def fm_ReadPage_def same1)
  define t where "t = fm_state.extend s2 (log_state.fields lf (disk_block s ?b) ?b 0 0)"
  have t: "logFile t = lf" "logPage t = disk_block s ?b" "currentBlock t = ?b"
    "blockSize t = blockSize s2" "\<And>n. fileBytes t n = fileBytes s2 n" "lastSavedLSN t = 0"
    "latestLSN t = 0"
    by (simp_all add: t_def fm_state.defs log_state.defs fileBytes_def)
  have blocks: "fm_wf t = fm_wf s2" "\<And>n. nblocks t n = nblocks s2 n"
    "\<And>c. disk_block t c = disk_block s2 c" "\<And>l. older t lf l = older s2 lf l"
    by (simp_all add: fm_wf_def nblocks_def disk_block_def older_def t)
  have "lm_inv t recss cur"
    using d fr1 fr2 by (simp add: lm_inv_def log_on_disk_def log_saved_def t blocks same1 same2)
  then show thesis
    using op by (intro that [of t]) (simp_all add: lm_NewLogManager_def t_def [symmetric] t blocks same1 same2)
qed

section \<open>The log as its clients see it\<close>

text \<open>The interface: a sequence of records that only grows at the front.\<close>

locale append_log =
  fixes holds :: "'s \<Rightarrow> byte list list \<Rightarrow> bool"
    and fits :: "'s \<Rightarrow> byte list \<Rightarrow> bool"
    and append :: "byte list \<Rightarrow> ('s, int) go"
  assumes append_law: "holds s l \<Longrightarrow> fits s r \<Longrightarrow>
      \<exists>n s'. append r s = (Inr n, s') \<and> holds s' (r # l) \<and> (\<forall>q. fits s' q = fits s q)"
begin

lemma append_all:
  assumes "holds s l" and "\<forall>r \<in> set rs. fits s r"
  shows "\<exists>s'. for_each rs (\<lambda>r. bnd (append r) (\<lambda>_. ret ())) s = (Inr (), s') \<and>
    holds s' (rev rs @ l)"
  using assms
proof (induction rs arbitrary: s l)
  case Nil
  then show ?case by (simp add: go_simps)
next
  case (Cons r rs)
  obtain n t where a: "append r s = (Inr n, t)" "holds t (r # l)" "\<forall>q. fits t q = fits s q"
    using append_law [of s l r] Cons.prems by auto
  have "\<exists>s'. for_each rs (\<lambda>r. bnd (append r) (\<lambda>_. ret ())) t = (Inr (), s') \<and>
      holds s' (rev rs @ r # l)"
    using Cons.prems(2) a(3) by (intro Cons.IH [OF a(2)]) simp
  then show ?case by (simp add: bnd_assoc bnd_simps bnd_Inr [where m = "append r", OF a(1)])
qed

end

definition log_holds :: "'z log_state_scheme \<Rightarrow> byte list list \<Rightarrow> bool" where
  "log_holds s l \<longleftrightarrow> (\<exists>recss cur. lm_inv s recss cur \<and> l = log_of recss cur)"

definition log_fits :: "'z log_state_scheme \<Rightarrow> byte list \<Rightarrow> bool" where
  "log_fits s r \<longleftrightarrow> int (length r) + 8 \<le> blockSize s"

lemma lm_Append_holds:
  assumes "log_holds s l" and "log_fits s r"
  obtains s' where "lm_Append r s = (Inr (latestLSN s + 1), s')" and "log_holds s' (r # l)"
    and "lm_frame s s'" and "data_frame s s'" and "latestLSN s' = latestLSN s + 1"
proof -
  obtain recss cur where inv: "lm_inv s recss cur" and l: "l = log_of recss cur"
    using assms(1) by (auto simp: log_holds_def)
  have fit: "int (length r) + 8 \<le> blockSize s" using assms(2) by (simp add: log_fits_def)
  obtain s' recss' cur' where "lm_Append r s = (Inr (latestLSN s + 1), s')" "lm_inv s' recss' cur'"
    "log_of recss' cur' = r # log_of recss cur" "lm_frame s s'" "data_frame s s'"
    "latestLSN s' = latestLSN s + 1"
    by (rule lm_Append_spec [OF inv fit]) blast
  then show thesis using l by (intro that [of s']) (simp_all add: log_holds_def, metis)
qed

interpretation wal: append_log log_holds log_fits lm_Append
proof
  fix s :: "'z log_state_scheme" and l r
  assume h: "log_holds s l" and f: "log_fits s r"
  obtain s' where "lm_Append r s = (Inr (latestLSN s + 1), s')" "log_holds s' (r # l)"
    "data_frame s s'"
    by (rule lm_Append_holds [OF h f]) blast
  then show "\<exists>n s'. lm_Append r s = (Inr n, s') \<and> log_holds s' (r # l) \<and>
      (\<forall>q. log_fits s' q = log_fits s q)"
    by (auto simp: log_fits_def data_frame_def)
qed

text \<open>C13. Whatever records are appended, in whatever number of blocks, iterating the log returns
  every one of them, newest first, followed by what the log held before.\<close>

theorem log_append_then_iterate:
  assumes "log_holds s l" and "\<forall>r \<in> set rs. log_fits s r" and "length l + length rs < n"
  shows "\<exists>s1 it s2 s3. for_each rs (\<lambda>r. bnd (lm_Append r) (\<lambda>_. ret ())) s = (Inr (), s1) \<and>
    lm_Iterator s1 = (Inr it, s2) \<and> it_collect n it s2 = (Inr (rev rs @ l), s3)"
proof -
  obtain s' where ap: "for_each rs (\<lambda>r. bnd (lm_Append r) (\<lambda>_. ret ())) s = (Inr (), s')"
    and h: "log_holds s' (rev rs @ l)"
    using wal.append_all [OF assms(1,2)] by blast
  obtain recss cur where inv: "lm_inv s' recss cur" and l: "rev rs @ l = log_of recss cur"
    using h by (auto simp: log_holds_def)
  obtain s'' it where it: "lm_Iterator s' = (Inr it, s'')"
    and at: "it_at s'' (logFile s') it (log_of recss cur)"
    by (rule lm_Iterator_spec [OF inv]) blast
  have "length (log_of recss cur) < n" using assms(3) l [symmetric] by simp
  from it_collect_spec [OF at this] show ?thesis using ap it l by auto
qed

text \<open>A record that does not fit a block behind its length and the boundary is not refused: the
  current block is flushed, a fresh block is added to the file, and then the write runs off the
  page (a panic that leaves the added block behind).\<close>

theorem log_append_oversize_panics:
  assumes "lm_inv s recss cur" and "cur \<noteq> []" and "blockSize s < int (length r) + 4"
    and "length r < 2 ^ 31"
  shows "\<exists>s'. lm_Append r s = (Inl Panic, s') \<and> lm_inv s' (recss @ [cur]) []"
proof -
  obtain b where b: "page_GetInt (logPage s) 0 = Inr (int b)" "b \<le> length (logPage s)"
    "int (length (logPage s)) = blockSize s"
    using assms(1) by (auto simp: lm_inv_def elim: log_page_boundary)
  obtain s' where nb: "lm_newBlock s = (Inr (blockSize s), s')" "lm_inv s' (recss @ [cur]) []"
    by (rule lm_newBlock_spec [OF assms(1,2)]) blast
  have "page_SetBytes (logPage s') (blockSize s - (int (length r) + 4)) r = Inl Panic"
    using assms(3) by (simp add: page_SetBytes_def Let_def page_SetInt_def be_write_def)
  then have "lm_Append r s = (Inl Panic, s')"
    using b nb assms(3) by (simp add: lm_Append_def go_simps Let_def bnd_Inr)
  then show ?thesis using nb by blast
qed

section \<open>A concrete log\<close>

lemma lm_NewLogManager_new:
  assumes wf: "fm_wf s" and nb: "nblocks s lf = 0" and bs: "4 \<le> blockSize s" "blockSize s < 2 ^ 31"
  obtains t where "lm_NewLogManager lf s = Inr t" and "lm_inv t [] []" and "logFile t = lf"
    and "blockSize t = blockSize s" and "latestLSN t = 0"
    and "\<And>n. n \<noteq> lf \<Longrightarrow> nblocks t n = nblocks s n"
    and "\<And>c. in_file s c \<Longrightarrow> disk_block t c = disk_block s c"
proof -
  obtain s1 where len: "fm_Length lf s = (Inr 0, s1)" and fr1: "fm_frame s s1"
    and fb1: "\<And>m. fileBytes s1 m = fileBytes s m"
    using fm_Length_spec [OF wf, of lf] nb by metis
  note same1 = fm_frame_same_blocks [OF fr1 fb1]
  have h: "fm_wf s1" "4 \<le> blockSize s1" "blockSize s1 < 2 ^ 31"
    "int (length (replicate (nat (blockSize s)) (0 :: byte))) = blockSize s1"
    using wf bs fr1 by (simp_all add: same1)
  obtain s2 pg where ap: "lm_appendNewBlock lf (replicate (nat (blockSize s)) 0) s1 =
      (Inr (NewBlockId lf (nblocks s1 lf), pg), s2)"
    and fr2: "fm_frame s1 s2" and wf2: "fm_wf s2" and pg: "log_page (blockSize s1) pg []"
    and nb2: "nblocks s2 lf = nblocks s1 lf + 1"
    and nbo: "\<And>n. n \<noteq> lf \<Longrightarrow> nblocks s2 n = nblocks s1 n"
    and newb: "disk_block s2 (NewBlockId lf (nblocks s1 lf)) = pg"
    and keep: "\<And>c. in_file s1 c \<Longrightarrow> disk_block s2 c = disk_block s1 c"
    by (rule lm_appendNewBlock_spec [OF h, of lf]) blast
  have op: "lm_open lf s = (Inr (NewBlockId lf 0, pg), s2)"
    using len ap nb bs by (simp add: lm_open_def bnd_def go_simps NewPageOfSize_def same1)
  define t where "t = fm_state.extend s2 (log_state.fields lf pg (NewBlockId lf 0) 0 0)"
  have t: "logFile t = lf" "logPage t = pg" "currentBlock t = NewBlockId lf 0"
    "blockSize t = blockSize s2" "latestLSN t = 0" "\<And>n. fileBytes t n = fileBytes s2 n"
    "lastSavedLSN t = 0"
    by (simp_all add: t_def fm_state.defs log_state.defs fileBytes_def)
  have blocks: "fm_wf t = fm_wf s2" "\<And>n. nblocks t n = nblocks s2 n"
    "\<And>c. disk_block t c = disk_block s2 c"
    by (simp_all add: fm_wf_def nblocks_def disk_block_def t)
  have "lm_inv t [] []"
    using wf2 h fr2 pg nb nb2 newb by (simp add: lm_inv_def log_saved_def older_def t blocks same1)
  moreover have "disk_block t c = disk_block s c" if "in_file s c" for c
    using that keep [of c] by (simp add: blocks same1 in_file_def)
  ultimately show thesis
    using op fr1 fr2 nbo
    by (intro that [of t]) (simp_all add: lm_NewLogManager_def t_def [symmetric] t blocks same1)
qed

definition demo_log :: log_state where
  "demo_log = (case lm_NewLogManager ''log''
     (fm_NewManager (Some [''t.tbl'' \<mapsto> replicate 128 0]) 64) of Inr s \<Rightarrow> s)"

lemma demo_log_inv:
  "lm_inv demo_log [] []" "blockSize demo_log = 64" "logFile demo_log = ''log''"
  "nblocks demo_log ''t.tbl'' = 2" "latestLSN demo_log = 0"
  "disk_block demo_log (NewBlockId ''t.tbl'' 1) = replicate 64 0"
proof -
  let ?s = "fm_NewManager (Some [''t.tbl'' \<mapsto> replicate 128 0]) 64"
  have s: "fm_wf ?s" "nblocks ?s ''log'' = 0" "4 \<le> blockSize ?s" "blockSize ?s < 2 ^ 31"
    and bs: "blockSize ?s = 64" and nb: "nblocks ?s ''t.tbl'' = 2"
    by (simp_all add: fm_wf_def nblocks_def fm_NewManager_def fileBytes_def)
  obtain t where t: "lm_NewLogManager ''log'' ?s = Inr t" "lm_inv t [] []" "logFile t = ''log''"
    "blockSize t = blockSize ?s" "latestLSN t = 0" "\<And>n. n \<noteq> ''log'' \<Longrightarrow> nblocks t n = nblocks ?s n"
    "\<And>c. in_file ?s c \<Longrightarrow> disk_block t c = disk_block ?s c"
    by (rule lm_NewLogManager_new [OF s]) blast
  have "in_file ?s (NewBlockId ''t.tbl'' 1)" using nb by (simp add: in_file_def NewBlockId_def)
  moreover have "disk_block ?s (NewBlockId ''t.tbl'' 1) = replicate 64 0"
    by (simp add: disk_block_def NewBlockId_def bs) (simp add: fm_NewManager_def fileBytes_def bslice_def)
  ultimately have db: "disk_block t (NewBlockId ''t.tbl'' 1) = replicate 64 0" using t(7) by simp
  have "demo_log = t" by (simp add: demo_log_def t(1))
  with t(2-6) db bs nb show "lm_inv demo_log [] []" "blockSize demo_log = 64" "logFile demo_log = ''log''"
    "nblocks demo_log ''t.tbl'' = 2" "latestLSN demo_log = 0"
    "disk_block demo_log (NewBlockId ''t.tbl'' 1) = replicate 64 0"
    by simp_all
qed

lemma demo_log_holds: "log_holds demo_log []"
  using demo_log_inv(1) by (auto simp: log_holds_def log_of_def)

lemma demo_log_one:
  obtains s :: log_state where "lm_inv s [] [[1, 2, 3]]" and "blockSize s = 64"
proof -
  have f: "int (length [1 :: byte, 2, 3]) + 8 \<le> blockSize demo_log" by (simp add: demo_log_inv)
  obtain s recss cur where s: "lm_inv s recss cur" "log_of recss cur = [1, 2, 3] # log_of [] []"
    "data_frame demo_log s" "cur \<noteq> []"
    by (rule lm_Append_spec [OF demo_log_inv(1) f]) blast
  have old: "older s (logFile s) recss" using s(1) by (simp add: lm_inv_def)
  obtain c cs where cur: "cur = c # cs" using s(4) by (cases cur) simp_all
  have all: "cs @ concat (rev recss) = []" "c = [1, 2, 3]"
    using s(2) by (simp_all add: log_of_def cur)
  have "recss = []"
  proof (rule ccontr)
    assume "recss \<noteq> []"
    then have "last recss \<noteq> []" and "last recss \<in> set recss" using older_last(1) [OF old] by simp_all
    then show False using all(1) by simp
  qed
  moreover have "blockSize s = 64" using s(3) by (simp add: data_frame_def demo_log_inv)
  ultimately show thesis using that [of s] s(1) all cur by simp
qed

lemma log_append_then_iterate_witness:
  "\<exists>s1 it s2 s3. for_each [[1, 2, 3], [4]] (\<lambda>r. bnd (lm_Append r) (\<lambda>_. ret ())) demo_log = (Inr (), s1) \<and>
    lm_Iterator s1 = (Inr it, s2) \<and> it_collect 3 it s2 = (Inr [[4], [1, 2, 3]], s3)"
  using log_append_then_iterate [OF demo_log_holds, of "[[1, 2, 3], [4]]" 3]
  by (simp add: log_fits_def demo_log_inv)

lemma log_append_oversize_panics_witness:
  "\<exists>s s'. blockSize s = 64 \<and> lm_Append (replicate 61 7) (s :: log_state) = (Inl Panic, s') \<and>
     lm_inv s' [[[1, 2, 3]]] []"
proof -
  obtain s :: log_state where s: "lm_inv s [] [[1, 2, 3]]" "blockSize s = 64" by (rule demo_log_one)
  then have "\<exists>s'. lm_Append (replicate 61 7) s = (Inl Panic, s') \<and> lm_inv s' ([] @ [[[1, 2, 3]]]) []"
    by (intro log_append_oversize_panics) simp_all
  then show ?thesis using s(2) by auto
qed

section \<open>Durability\<close>

text \<open>Removing the left-over temporary files, as opening the directory does, keeps every other file.\<close>

definition is_temp :: "string \<Rightarrow> bool" where
  "is_temp name \<longleftrightarrow> 4 \<le> length name \<and> take 4 name = ''temp''"

lemma fileBytes_reopened:
  "fileBytes (fm_NewManager (Some d) bs) n = (if is_temp n then [] else case d n of None \<Rightarrow> [] | Some b \<Rightarrow> b)"
  by (simp add: fileBytes_def fm_NewManager_def is_temp_def)

lemma reopened_blocks:
  assumes "fm_wf s"
  defines "s0 \<equiv> fm_NewManager (Some (disk s)) (blockSize s)"
  shows "fm_wf s0" and "blockSize s0 = blockSize s"
    and "\<not> is_temp n \<Longrightarrow> nblocks s0 n = nblocks s n"
    and "\<not> is_temp (File c) \<Longrightarrow> disk_block s0 c = disk_block s c"
proof -
  show bs: "blockSize s0 = blockSize s" by (simp add: s0_def fm_NewManager_def)
  have fb: "fileBytes s0 m = (if is_temp m then [] else fileBytes s m)" for m
    by (simp add: s0_def fileBytes_reopened) (simp add: fileBytes_def)
  show "fm_wf s0" using assms(1) by (simp add: fm_wf_def fb bs)
  show "\<not> is_temp n \<Longrightarrow> nblocks s0 n = nblocks s n" by (simp add: nblocks_def fb bs)
  show "\<not> is_temp (File c) \<Longrightarrow> disk_block s0 c = disk_block s c" by (simp add: disk_block_def fb bs)
qed

lemma log_on_disk_reopened:
  assumes "lm_inv s recss cur" and "\<not> is_temp (logFile s)"
  shows "log_on_disk (fm_NewManager (Some (disk s)) (blockSize s)) (logFile s) recss
    (drop (nat (latestLSN s - lastSavedLSN s)) cur)"
proof -
  have wf: "fm_wf s" using assms(1) by (simp add: lm_inv_def)
  note re = reopened_blocks [OF wf]
  have db: "disk_block (fm_NewManager (Some (disk s)) (blockSize s)) (NewBlockId (logFile s) k) =
      disk_block s (NewBlockId (logFile s) k)" for k
    by (rule re(4)) (simp add: NewBlockId_def assms(2))
  have "older (fm_NewManager (Some (disk s)) (blockSize s)) (logFile s) recss"
    using assms(1) by (simp add: lm_inv_def older_def re(2) db)
  moreover have cb: "currentBlock s = NewBlockId (logFile s) (int (length recss))"
    and sv: "log_saved s cur"
    using assms(1) by (simp_all add: lm_inv_def)
  have "log_page (blockSize s) (disk_block s (NewBlockId (logFile s) (int (length recss))))
      (drop (nat (latestLSN s - lastSavedLSN s)) cur)"
    using sv by (simp add: log_saved_def cb)
  ultimately show ?thesis
    using assms(1) re(1-3) assms(2) by (simp add: log_on_disk_def lm_inv_def db)
qed

text \<open>An iterator stays valid while the blocks before the current one stay as they are.\<close>

lemma it_at_kept:
  assumes at: "it_at s lf it recs" and wf: "fm_wf s'" and bs: "blockSize s' = blockSize s"
    and nb: "nblocks s' lf = nblocks s lf"
    and db: "\<And>i. 0 \<le> i \<Longrightarrow> i + 1 < nblocks s lf \<Longrightarrow>
      disk_block s' (NewBlockId lf i) = disk_block s (NewBlockId lf i)"
  shows "it_at s' lf it recs"
proof -
  obtain recss cur pos where it: "it_block it = NewBlockId lf (int (length recss))"
    "it_pos it = int pos" "int (length (it_page it)) = blockSize s"
    "log_chain (it_page it) pos cur" "older s lf recss" "int (length recss) < nblocks s lf"
    "recs = log_of recss cur" "fm_wf s" "blockSize s < 2 ^ 31"
    using at by (rule it_atE)
  have "older s' lf recss"
    by (rule older_cong [OF it(5) bs]) (use it(6) in \<open>auto intro!: db\<close>)
  then show ?thesis
    using it wf bs nb unfolding it_at_def by (intro conjI exI [of _ recss] exI [of _ cur] exI [of _ pos]) simp_all
qed

lemma lm_Flush_holds:
  assumes "log_holds s l"
  obtains s' where "lm_Flush n s = (Inr (), s')" and "log_holds s' l" and "lm_frame s s'"
    and "data_frame s s'" and "latestLSN s' = latestLSN s"
    and "n \<le> latestLSN s \<Longrightarrow> n \<le> lastSavedLSN s'"
    and "\<And>it recs. it_at s (logFile s) it recs \<Longrightarrow> it_at s' (logFile s) it recs"
proof (cases "lastSavedLSN s \<le> n")
  case True
  obtain recss cur where inv: "lm_inv s recss cur" and l: "l = log_of recss cur"
    using assms by (auto simp: log_holds_def)
  obtain s' where s': "lm_flush s = (Inr (), s')" "lm_inv s' recss cur" "lm_frame s s'"
    "data_frame s s'" "lastSavedLSN s' = latestLSN s" "latestLSN s' = latestLSN s"
    and nb: "\<And>n. nblocks s' n = nblocks s n"
    and db: "\<And>c. in_file s c \<Longrightarrow> c \<noteq> currentBlock s \<Longrightarrow> disk_block s' c = disk_block s c"
    by (rule lm_flush_spec [OF inv]) blast
  have "it_at s' (logFile s) it recs" if "it_at s (logFile s) it recs" for it recs
    by (rule it_at_kept [OF that])
      (use s'(2,4) nb inv in \<open>auto simp: lm_inv_def data_frame_def in_file_def NewBlockId_def intro!: db\<close>)
  then show thesis
    using True l s' by (intro that [of s']) (auto simp: lm_Flush_def bnd_simps log_holds_def)
next
  case False
  then show thesis
    using assms by (intro that [of s]) (simp_all add: lm_Flush_def bnd_simps go_unfold)
qed

text \<open>C14. Crash safety of the log: at any time, opening a new log manager on what is on the disk at
  that moment finds exactly the records whose LSN is at most \<open>lastSavedLSN\<close>; those the last flush
  has not covered, the newest, are lost and nothing else is.\<close>

theorem log_survives_restart:
  assumes "log_holds s l" and "\<not> is_temp (logFile s)"
  shows "\<exists>t. lm_NewLogManager (logFile s) (fm_NewManager (Some (disk s)) (blockSize s)) = Inr t \<and>
    log_holds t (drop (nat (latestLSN s - lastSavedLSN s)) l)"
proof -
  obtain recss cur where inv: "lm_inv s recss cur" and l: "l = log_of recss cur"
    using assms by (auto simp: log_holds_def)
  let ?k = "nat (latestLSN s - lastSavedLSN s)"
  have "?k \<le> length cur" using inv by (simp add: lm_inv_def log_saved_def)
  then have "log_of recss (drop ?k cur) = drop ?k l" by (simp add: log_of_def l)
  moreover obtain t where
    "lm_NewLogManager (logFile s) (fm_NewManager (Some (disk s)) (blockSize s)) = Inr t"
    "lm_inv t recss (drop ?k cur)"
    by (rule lm_NewLogManager_old [OF log_on_disk_reopened [OF inv assms(2)]]) blast
  ultimately show ?thesis unfolding log_holds_def by metis
qed

lemma log_survives_restart_witness:
  "\<exists>t. lm_NewLogManager (logFile demo_log) (fm_NewManager (Some (disk demo_log)) (blockSize demo_log)) =
      Inr t \<and> log_holds t (drop (nat (latestLSN demo_log - lastSavedLSN demo_log)) [])"
  by (rule log_survives_restart [OF demo_log_holds]) (simp add: demo_log_inv is_temp_def)

text \<open>C27. \<open>Flush(lsn)\<close> makes every record up to \<open>lsn\<close> durable, keeps the log's contents and
  changes no block of another file.\<close>

theorem log_flush_durable:
  assumes "log_holds s l" and "n \<le> latestLSN s"
  shows "\<exists>s'. lm_Flush n s = (Inr (), s') \<and> log_holds s' l \<and> n \<le> lastSavedLSN s' \<and>
    latestLSN s' = latestLSN s \<and>
    (\<forall>c. in_file s c \<longrightarrow> File c \<noteq> logFile s \<longrightarrow> disk_block s' c = disk_block s c)"
proof -
  obtain s' where "lm_Flush n s = (Inr (), s')" "log_holds s' l" "data_frame s s'"
    "latestLSN s' = latestLSN s" "n \<le> latestLSN s \<Longrightarrow> n \<le> lastSavedLSN s'"
    by (rule lm_Flush_holds [OF assms(1), of n]) blast
  then show ?thesis using assms(2) by (auto simp: data_frame_def)
qed

lemma log_flush_durable_witness:
  "\<exists>s'. lm_Flush (latestLSN demo_log) demo_log = (Inr (), s') \<and> log_holds s' [] \<and>
    latestLSN demo_log \<le> lastSavedLSN s' \<and> latestLSN s' = latestLSN demo_log \<and>
    (\<forall>c. in_file demo_log c \<longrightarrow> File c \<noteq> logFile demo_log \<longrightarrow> disk_block s' c = disk_block demo_log c)"
  by (rule log_flush_durable [OF demo_log_holds]) simp

end
