(* ===== verification/BufferMgr.thy ===== *)
theory BufferMgr
  imports LogMgr
begin

text \<open>
  \<^verbatim>\<open>buffer/buffer.go\<close>, \<^verbatim>\<open>buffer/manager.go\<close> and \<^verbatim>\<open>buffer/naive_replacement_strategy.go\<close>: the
  buffer pool.

  The pool state extends the log's with the list of buffers and the count of available ones; a
  \<open>*Buffer\<close> is its index in the pool. A replacement strategy is a function of the pool
  (\<open>chooseUnpinnedBuffer\<close>), given by the locale \<open>replacement_strategy\<close> and interpreted with the
  naive one. The condition-variable wait of \<open>Pin\<close> is a list of wake-ups: each changes the state as
  the goroutines that ran meanwhile did, and when the list ends the ten-second context has expired.

  \<open>pool_inv\<close> is the pool's invariant, \<open>blk_view s b\<close> the contents of a block as its readers see
  them (the buffer when there is one, the disk otherwise). Pinning, unpinning and flushing never
  change a view; flushing a transaction makes its views durable, after the log.
\<close>

section \<open>State\<close>

record buffer =
  contents :: page
  buf_block :: "block_id option"
  pins :: int
  txnNum :: int
  lsn :: int

record pool_state = log_state +
  bufferPool :: "buffer list"
  numAvailable :: int

section \<open>Operations\<close>

definition NewBuffer :: "int \<Rightarrow> buffer res" where
  "NewBuffer bs = rbind (NewPageOfSize bs) (\<lambda>p.
     Inr \<lparr>contents = p, buf_block = None, pins = 0, txnNum = - 1, lsn = - 1\<rparr>)"

definition bm_NewManager :: "log_state \<Rightarrow> nat \<Rightarrow> pool_state res" where
  "bm_NewManager s numBuffers = rbind (NewBuffer (blockSize s)) (\<lambda>b.
     Inr (log_state.extend s (pool_state.fields (replicate numBuffers b) (int numBuffers))))"

definition buf_SetModified :: "int \<Rightarrow> int \<Rightarrow> buffer \<Rightarrow> buffer" where
  "buf_SetModified tx l b =
     (let b = b\<lparr>txnNum := tx\<rparr> in if 0 \<le> l then b\<lparr>lsn := l\<rparr> else b)"

definition isPinned :: "buffer \<Rightarrow> bool" where
  "isPinned b \<longleftrightarrow> 0 < pins b"

definition buf_upd :: "nat \<Rightarrow> (buffer \<Rightarrow> buffer) \<Rightarrow> 'z pool_state_scheme \<Rightarrow> 'z pool_state_scheme" where
  "buf_upd i f s = s\<lparr>bufferPool := (bufferPool s)[i := f (bufferPool s ! i)]\<rparr>"

definition buf_flush :: "nat \<Rightarrow> ('z pool_state_scheme, unit) go" where
  "buf_flush i =
     bnd (gets (\<lambda>s. bufferPool s ! i)) (\<lambda>b.
     if 0 \<le> txnNum b then
       bnd (lm_Flush (lsn b)) (\<lambda>_.
       bnd (case buf_block b of None \<Rightarrow> panic | Some blk \<Rightarrow> fm_Write blk (contents b)) (\<lambda>_.
       modify (buf_upd i (\<lambda>b. b\<lparr>txnNum := - 1\<rparr>))))
     else ret ())"

text \<open>\<open>Read\<close> fills the buffer's own page, also when it fails half-way.\<close>

definition buf_read :: "nat \<Rightarrow> block_id \<Rightarrow> ('z pool_state_scheme, unit) go" where
  "buf_read i blk s =
     (case fm_Read blk (contents (bufferPool s ! i)) s of
        ((r, p), s') \<Rightarrow> (r, buf_upd i (\<lambda>b. b\<lparr>contents := p\<rparr>) s'))"

definition buf_assignToBlock :: "nat \<Rightarrow> block_id \<Rightarrow> ('z pool_state_scheme, unit) go" where
  "buf_assignToBlock i blk =
     bnd (buf_flush i) (\<lambda>_.
     bnd (modify (buf_upd i (\<lambda>b. b\<lparr>buf_block := Some blk\<rparr>))) (\<lambda>_.
     bnd (buf_read i blk) (\<lambda>_.
     modify (buf_upd i (\<lambda>b. b\<lparr>pins := 0\<rparr>)))))"

definition findExistingBuffer :: "buffer list \<Rightarrow> block_id \<Rightarrow> nat option" where
  "findExistingBuffer pool blk =
     List.find (\<lambda>i. case buf_block (pool ! i) of None \<Rightarrow> False | Some b \<Rightarrow> block_Equals b blk)
       [0 ..< length pool]"

definition naive_choose :: "buffer list \<Rightarrow> nat option" where
  "naive_choose pool = List.find (\<lambda>i. \<not> isPinned (pool ! i)) [0 ..< length pool]"

definition bm_pin :: "nat \<Rightarrow> ('z pool_state_scheme, nat option) go" where
  "bm_pin i =
     bnd (modify (\<lambda>s. if isPinned (bufferPool s ! i) then s
                      else s\<lparr>numAvailable := numAvailable s - 1\<rparr>)) (\<lambda>_.
     bnd (modify (buf_upd i (\<lambda>b. b\<lparr>pins := pins b + 1\<rparr>))) (\<lambda>_.
     ret (Some i)))"

definition bm_tryToPin ::
  "(buffer list \<Rightarrow> nat option) \<Rightarrow> block_id \<Rightarrow> ('z pool_state_scheme, nat option) go" where
  "bm_tryToPin strat blk =
     bnd (gets bufferPool) (\<lambda>pool.
     case findExistingBuffer pool blk of
       Some i \<Rightarrow> bm_pin i
     | None \<Rightarrow>
         (case strat pool of
            None \<Rightarrow> ret None
          | Some i \<Rightarrow> bnd (buf_assignToBlock i blk) (\<lambda>_. bm_pin i)))"

fun bm_PinWith :: "(buffer list \<Rightarrow> nat option) \<Rightarrow>
  ('z pool_state_scheme \<Rightarrow> 'z pool_state_scheme) list \<Rightarrow> block_id \<Rightarrow> ('z pool_state_scheme, nat) go"
where
  "bm_PinWith strat [] blk =
     bnd (bm_tryToPin strat blk) (\<lambda>r. case r of Some i \<Rightarrow> ret i | None \<Rightarrow> fail EBufferAbort)"
| "bm_PinWith strat (w # ws) blk =
     bnd (bm_tryToPin strat blk) (\<lambda>r. case r of Some i \<Rightarrow> ret i
       | None \<Rightarrow> bnd (modify w) (\<lambda>_. bm_PinWith strat ws blk))"

definition bm_Pin :: "block_id \<Rightarrow> ('z pool_state_scheme, nat) go" where
  "bm_Pin = bm_PinWith naive_choose []"

definition bm_Unpin :: "nat \<Rightarrow> ('z pool_state_scheme, unit) go" where
  "bm_Unpin i =
     bnd (modify (buf_upd i (\<lambda>b. b\<lparr>pins := pins b - 1\<rparr>))) (\<lambda>_.
     modify (\<lambda>s. if isPinned (bufferPool s ! i) then s
                 else s\<lparr>numAvailable := numAvailable s + 1\<rparr>))"

definition bm_FlushAll :: "int \<Rightarrow> ('z pool_state_scheme, unit) go" where
  "bm_FlushAll tx =
     bnd (gets (\<lambda>s. length (bufferPool s))) (\<lambda>n.
     for_each [0 ..< n] (\<lambda>i.
       bnd (gets (\<lambda>s. bufferPool s ! i)) (\<lambda>b. if txnNum b = tx then buf_flush i else ret ())))"

text \<open>A client's change of a pinned buffer's page, with the \<open>SetModified\<close> that follows it.\<close>

definition buf_write :: "nat \<Rightarrow> page \<Rightarrow> int \<Rightarrow> int \<Rightarrow> ('z pool_state_scheme, unit) go" where
  "buf_write i p tx l = modify (buf_upd i (\<lambda>b. buf_SetModified tx l (b\<lparr>contents := p\<rparr>)))"

section \<open>The pool's invariant and the view of a block\<close>

definition unpinned :: "buffer list \<Rightarrow> nat" where
  "unpinned pool = length (filter (\<lambda>b. \<not> isPinned b) pool)"

definition buf_ok :: "'z log_state_scheme \<Rightarrow> buffer \<Rightarrow> bool" where
  "buf_ok s b \<longleftrightarrow> 0 \<le> pins b \<and> int (length (contents b)) = blockSize s \<and>
     (case buf_block b of
        None \<Rightarrow> pins b = 0 \<and> txnNum b < 0
      | Some blk \<Rightarrow> in_file s blk \<and> File blk \<noteq> logFile s \<and>
          (txnNum b < 0 \<longrightarrow> contents b = disk_block s blk))"

definition pool_inv :: "'z pool_state_scheme \<Rightarrow> bool" where
  "pool_inv s \<longleftrightarrow> (\<exists>l. log_holds s l) \<and> numAvailable s = int (unpinned (bufferPool s)) \<and>
     (\<forall>b \<in> set (bufferPool s). buf_ok s b) \<and>
     (\<forall>i < length (bufferPool s). \<forall>j < length (bufferPool s). \<forall>blk.
        buf_block (bufferPool s ! i) = Some blk \<longrightarrow> buf_block (bufferPool s ! j) = Some blk \<longrightarrow> i = j)"

definition blk_view :: "'z pool_state_scheme \<Rightarrow> block_id \<Rightarrow> byte list" where
  "blk_view s blk =
     (case findExistingBuffer (bufferPool s) blk of
        Some i \<Rightarrow> contents (bufferPool s ! i)
      | None \<Rightarrow> disk_block s blk)"

lemma findExistingBuffer_Some:
  assumes "findExistingBuffer pool blk = Some i"
  shows "i < length pool" and "buf_block (pool ! i) = Some blk"
  using assms by (auto simp: findExistingBuffer_def find_Some_iff split: option.splits)

lemma findExistingBuffer_None:
  "findExistingBuffer pool blk = None \<longleftrightarrow> (\<forall>i < length pool. buf_block (pool ! i) \<noteq> Some blk)"
  by (auto simp: findExistingBuffer_def find_None_iff split: option.splits)

lemma naive_choose_Some:
  assumes "naive_choose pool = Some i"
  shows "i < length pool" and "\<not> isPinned (pool ! i)"
  using assms by (auto simp: naive_choose_def find_Some_iff)

lemma naive_choose_None: "naive_choose pool = None \<longleftrightarrow> (\<forall>b \<in> set pool. isPinned b)"
  by (auto simp: naive_choose_def find_None_iff all_set_conv_all_nth)

section \<open>Frames\<close>

lemma buf_upd_simps [simp]:
  "bufferPool (buf_upd i f s) = (bufferPool s)[i := f (bufferPool s ! i)]"
  "numAvailable (buf_upd i f s) = numAvailable s" "blockSize (buf_upd i f s) = blockSize s"
  "logFile (buf_upd i f s) = logFile s" "latestLSN (buf_upd i f s) = latestLSN s"
  "lastSavedLSN (buf_upd i f s) = lastSavedLSN s" "logPage (buf_upd i f s) = logPage s"
  "currentBlock (buf_upd i f s) = currentBlock s" "disk (buf_upd i f s) = disk s"
  "pool_state.more (buf_upd i f s) = pool_state.more s"
  by (simp_all add: buf_upd_def)

lemma fileBytes_pool [simp]:
  "fileBytes (buf_upd i f s) n = fileBytes s n"
  "fileBytes (s\<lparr>numAvailable := k\<rparr>) n = fileBytes s n"
  by (simp_all add: fileBytes_def)

lemma storage_pool [simp]:
  "fm_wf (buf_upd i f s) = fm_wf s" "fm_wf (s\<lparr>numAvailable := k\<rparr>) = fm_wf s"
  "nblocks (buf_upd i f s) n = nblocks s n" "nblocks (s\<lparr>numAvailable := k\<rparr>) n = nblocks s n"
  "disk_block (buf_upd i f s) c = disk_block s c" "disk_block (s\<lparr>numAvailable := k\<rparr>) c = disk_block s c"
  "in_file (buf_upd i f s) c = in_file s c" "in_file (s\<lparr>numAvailable := k\<rparr>) c = in_file s c"
  by (simp_all add: fm_wf_def nblocks_def disk_block_def in_file_def)

lemma log_holds_pool [simp]:
  "log_holds (buf_upd i f s) l = log_holds s l" "log_holds (s\<lparr>numAvailable := k\<rparr>) l = log_holds s l"
  by (simp_all add: log_holds_def lm_inv_def log_saved_def older_def)

lemma it_at_pool [simp]:
  "it_at (buf_upd i f s) lf it recs = it_at s lf it recs"
  "it_at (s\<lparr>numAvailable := k\<rparr>) lf it recs = it_at s lf it recs"
  by (simp_all add: it_at_def older_def)

lemma buf_ok_pool [simp]:
  "buf_ok (buf_upd i f s) b = buf_ok s b" "buf_ok (s\<lparr>numAvailable := k\<rparr>) b = buf_ok s b"
  by (simp_all add: buf_ok_def split: option.splits)

lemma lm_frame_pool:
  assumes "lm_frame s s'"
  shows "bufferPool s' = bufferPool s" and "numAvailable s' = numAvailable s"
    and "pool_state.more s' = pool_state.more s"
proof -
  obtain t pg blk l1 l2 where "fm_frame s t" "s' = t\<lparr>logPage := pg, currentBlock := blk,
      latestLSN := l1, lastSavedLSN := l2\<rparr>"
    using assms unfolding lm_frame_def by blast
  moreover obtain d o' r w
    where "t = s\<lparr>disk := d, openFiles := o', blocksRead := r, blocksWritten := w\<rparr>"
    using \<open>fm_frame s t\<close> unfolding fm_frame_def by blast
  ultimately show "bufferPool s' = bufferPool s" and "numAvailable s' = numAvailable s"
    and "pool_state.more s' = pool_state.more s"
    by simp_all
qed

text \<open>What every operation of the pool promises its clients.\<close>

definition pool_frame :: "'z pool_state_scheme \<Rightarrow> 'z pool_state_scheme \<Rightarrow> bool" where
  "pool_frame s s' \<longleftrightarrow> blockSize s' = blockSize s \<and> logFile s' = logFile s \<and>
     latestLSN s' = latestLSN s \<and> pool_state.more s' = pool_state.more s \<and>
     length (bufferPool s') = length (bufferPool s) \<and>
     (\<forall>l. log_holds s l \<longrightarrow> log_holds s' l) \<and>
     (\<forall>n. n \<noteq> logFile s \<longrightarrow> nblocks s' n = nblocks s n) \<and>
     (\<forall>c. in_file s c \<longrightarrow> File c \<noteq> logFile s \<longrightarrow> blk_view s' c = blk_view s c) \<and>
     (\<forall>it recs. it_at s (logFile s) it recs \<longrightarrow> it_at s' (logFile s) it recs)"

lemma pool_frame_refl [simp]: "pool_frame s s"
  by (simp add: pool_frame_def)

lemma pool_frame_trans: "pool_frame s t \<Longrightarrow> pool_frame t u \<Longrightarrow> pool_frame s u"
  by (auto simp: pool_frame_def in_file_def)

lemma pool_frame_in_file: "pool_frame s s' \<Longrightarrow> File c \<noteq> logFile s \<Longrightarrow> in_file s' c = in_file s c"
  by (simp add: pool_frame_def in_file_def)

lemma blk_view_cong:
  assumes "\<And>i. i < length (bufferPool s) \<Longrightarrow>
      buf_block (bufferPool s' ! i) = buf_block (bufferPool s ! i) \<and>
      contents (bufferPool s' ! i) = contents (bufferPool s ! i)"
    and "length (bufferPool s') = length (bufferPool s)"
    and "\<forall>i < length (bufferPool s). buf_block (bufferPool s ! i) \<noteq> Some c \<Longrightarrow>
      disk_block s' c = disk_block s c"
  shows "blk_view s' c = blk_view s c"
proof -
  have "findExistingBuffer (bufferPool s') c = findExistingBuffer (bufferPool s) c"
    unfolding findExistingBuffer_def assms(2)
    by (rule find_cong) (simp_all add: assms(1))
  then show ?thesis
    using assms findExistingBuffer_Some(1) [of "bufferPool s" c] findExistingBuffer_None [of "bufferPool s" c]
    by (auto simp: blk_view_def split: option.splits)
qed

lemma blk_view_buffer:
  assumes "pool_inv s" and "i < length (bufferPool s)" and "buf_block (bufferPool s ! i) = Some blk"
  shows "blk_view s blk = contents (bufferPool s ! i)"
proof -
  obtain j where j: "findExistingBuffer (bufferPool s) blk = Some j"
    using assms(2,3) findExistingBuffer_None [of "bufferPool s" blk]
    by (cases "findExistingBuffer (bufferPool s) blk") auto
  then have "j = i"
    using assms findExistingBuffer_Some [OF j] unfolding pool_inv_def by blast
  then show ?thesis using j by (simp add: blk_view_def)
qed

lemma blk_view_not_pooled:
  "\<forall>i < length (bufferPool s). buf_block (bufferPool s ! i) \<noteq> Some blk \<Longrightarrow>
   blk_view s blk = disk_block s blk"
  using findExistingBuffer_None [of "bufferPool s" blk] by (simp add: blk_view_def)

lemma pool_inv_buf_ok: "pool_inv s \<Longrightarrow> i < length (bufferPool s) \<Longrightarrow> buf_ok s (bufferPool s ! i)"
  by (simp add: pool_inv_def)

section \<open>Specifications of the operations\<close>

lemma data_frame_same:
  assumes "data_frame s s'"
  shows "blockSize s' = blockSize s" and "logFile s' = logFile s"
    and "n \<noteq> logFile s \<Longrightarrow> nblocks s' n = nblocks s n"
    and "in_file s c \<Longrightarrow> File c \<noteq> logFile s \<Longrightarrow> disk_block s' c = disk_block s c"
    and "File c \<noteq> logFile s \<Longrightarrow> in_file s' c = in_file s c"
  using assms by (simp_all add: data_frame_def in_file_def)

lemma lm_inv_fm:
  assumes inv: "lm_inv s recss cur" and fr: "fm_frame s s'" and wf: "fm_wf s'"
    and nb: "nblocks s' (logFile s) = nblocks s (logFile s)"
    and other: "\<And>c. in_file s c \<Longrightarrow> File c = logFile s \<Longrightarrow> disk_block s' c = disk_block s c"
  shows "lm_inv s' recss cur"
proof -
  have "older s' (logFile s) recss"
    by (rule older_cong [of s])
      (use inv fr lm_inv_older_block [OF inv] in
        \<open>auto simp: lm_inv_def NewBlockId_def intro!: other\<close>)
  moreover have "disk_block s' (currentBlock s) = disk_block s (currentBlock s)"
    using inv by (intro other lm_inv_current [OF inv]) (simp add: lm_inv_def NewBlockId_def)
  then have "log_saved s' cur = log_saved s cur" using fr by (simp add: log_saved_def)
  ultimately show ?thesis using inv fr wf nb by (simp add: lm_inv_def)
qed

lemma fm_Write_data_spec:
  assumes h: "log_holds s l" and b: "in_file s blk" "File blk \<noteq> logFile s"
    and p: "int (length p) = blockSize s"
  obtains s' where "fm_Write blk p s = (Inr (), s')" and "\<And>l. log_holds s l \<Longrightarrow> log_holds s' l"
    and "fm_frame s s'"
    and "\<And>n. nblocks s' n = nblocks s n" and "disk_block s' blk = p"
    and "\<And>c. in_file s c \<Longrightarrow> c \<noteq> blk \<Longrightarrow> disk_block s' c = disk_block s c"
    and "\<And>it recs. it_at s (logFile s) it recs \<Longrightarrow> it_at s' (logFile s) it recs"
proof -
  have wf: "fm_wf s" using h by (auto simp: log_holds_def lm_inv_def)
  obtain s' where s': "fm_Write blk p s = (Inr (), s')" "fm_frame s s'" "fm_wf s'"
    "\<And>n. nblocks s' n = nblocks s n" "disk_block s' blk = p"
    "\<And>c. in_file s c \<Longrightarrow> c \<noteq> blk \<Longrightarrow> disk_block s' c = disk_block s c"
    by (rule fm_Write_spec [OF wf b(1) p]) blast
  have "log_holds s' l" if hl: "log_holds s l" for l
  proof -
    obtain recss cur where inv: "lm_inv s recss cur" and l: "l = log_of recss cur"
      using hl by (auto simp: log_holds_def)
    have "lm_inv s' recss cur"
      by (rule lm_inv_fm [OF inv s'(2-4)]) (use b(2) in \<open>auto intro!: s'(6)\<close>)
    then show ?thesis using l by (auto simp: log_holds_def)
  qed
  moreover have "it_at s' (logFile s) it recs" if "it_at s (logFile s) it recs" for it recs
    by (rule it_at_kept [OF that s'(3)])
      (use s'(2,4) b(2) in \<open>auto simp: in_file_def NewBlockId_def intro!: s'(6)\<close>)
  ultimately show thesis using s' by (intro that [of s'])
qed

lemma lm_Flush_all:
  assumes "log_holds s l"
  obtains s' where "lm_Flush n s = (Inr (), s')" and "\<And>l. log_holds s l \<Longrightarrow> log_holds s' l"
    and "lm_frame s s'" and "data_frame s s'" and "latestLSN s' = latestLSN s"
    and "n \<le> latestLSN s \<Longrightarrow> n \<le> lastSavedLSN s'"
    and "\<And>it recs. it_at s (logFile s) it recs \<Longrightarrow> it_at s' (logFile s) it recs"
proof -
  obtain s' where s': "lm_Flush n s = (Inr (), s')" "lm_frame s s'" "data_frame s s'"
    "latestLSN s' = latestLSN s" "n \<le> latestLSN s \<Longrightarrow> n \<le> lastSavedLSN s'"
    "\<And>it recs. it_at s (logFile s) it recs \<Longrightarrow> it_at s' (logFile s) it recs"
    by (rule lm_Flush_holds [OF assms, of n]) blast
  have "log_holds s' l'" if l': "log_holds s l'" for l'
    by (rule lm_Flush_holds [OF l', of n]) (use s'(1) in simp)
  then show thesis using s' by (intro that [of s'])
qed

lemma unpinned_update:
  "i < length pool \<Longrightarrow> int (unpinned (pool[i := b])) =
     int (unpinned pool) - of_bool (\<not> isPinned (pool ! i)) + of_bool (\<not> isPinned b)"
proof (induction pool arbitrary: i)
  case Nil
  then show ?case by simp
next
  case (Cons c pool)
  then show ?case by (cases i) (auto simp: unpinned_def)
qed

text \<open>Replacing one buffer keeps the invariant when the new buffer is all right, its block is in no
  other buffer, and the disk changed at most under the old buffer.\<close>

lemma pool_inv_update:
  assumes inv: "pool_inv s" and i: "i < length (bufferPool s)"
    and pool: "bufferPool s' = (bufferPool s)[i := b']" and h: "log_holds s' l"
    and av: "numAvailable s' =
      numAvailable s - of_bool (\<not> isPinned (bufferPool s ! i)) + of_bool (\<not> isPinned b')"
    and ok: "buf_ok s' b'" and bs: "blockSize s' = blockSize s" and lf: "logFile s' = logFile s"
    and nb: "\<And>n. n \<noteq> logFile s \<Longrightarrow> nblocks s' n = nblocks s n"
    and db: "\<And>c. in_file s c \<Longrightarrow> File c \<noteq> logFile s \<Longrightarrow> buf_block (bufferPool s ! i) \<noteq> Some c \<Longrightarrow>
      disk_block s' c = disk_block s c"
    and uniq: "\<And>c j. buf_block b' = Some c \<Longrightarrow> j < length (bufferPool s) \<Longrightarrow> j \<noteq> i \<Longrightarrow>
      buf_block (bufferPool s ! j) \<noteq> Some c"
  shows "pool_inv s'"
  unfolding pool_inv_def
proof (intro conjI)
  show "\<exists>l. log_holds s' l" using h by blast
  show "numAvailable s' = int (unpinned (bufferPool s'))"
    using inv i by (simp add: pool unpinned_update av pool_inv_def)
  have old: "buf_ok s' (bufferPool s ! j)" if j: "j < length (bufferPool s)" "j \<noteq> i" for j
  proof (cases "buf_block (bufferPool s ! j)")
    case None
    then show ?thesis using pool_inv_buf_ok [OF inv j(1)] by (simp add: buf_ok_def bs)
  next
    case (Some c)
    then have "buf_block (bufferPool s ! i) \<noteq> Some c"
      using inv i j unfolding pool_inv_def by blast
    then show ?thesis
      using Some pool_inv_buf_ok [OF inv j(1)] db [of c] nb [of "File c"]
      by (simp add: buf_ok_def bs lf in_file_def)
  qed
  show "\<forall>b \<in> set (bufferPool s'). buf_ok s' b"
    unfolding all_set_conv_all_nth using old ok i by (auto simp: pool nth_list_update)
  show "\<forall>i < length (bufferPool s'). \<forall>j < length (bufferPool s'). \<forall>blk.
      buf_block (bufferPool s' ! i) = Some blk \<longrightarrow> buf_block (bufferPool s' ! j) = Some blk \<longrightarrow> i = j"
    using inv i uniq unfolding pool_inv_def pool by (auto simp: nth_list_update)
qed

text \<open>Writing a dirty buffer back: the log first, then the block.\<close>

lemma buf_flush_spec:
  assumes inv: "pool_inv s" and i: "i < length (bufferPool s)"
  obtains s' k where "buf_flush i s = (Inr (), s')" and "pool_inv s'" and "pool_frame s s'"
    and "bufferPool s' = (bufferPool s)[i := (bufferPool s ! i)\<lparr>txnNum := k\<rparr>]"
    and "k < 0" and "numAvailable s' = numAvailable s"
    and "0 \<le> txnNum (bufferPool s ! i) \<Longrightarrow> lsn (bufferPool s ! i) \<le> latestLSN s \<Longrightarrow>
      lsn (bufferPool s ! i) \<le> lastSavedLSN s'"
    and "\<And>c. in_file s c \<Longrightarrow> File c \<noteq> logFile s \<Longrightarrow> buf_block (bufferPool s ! i) \<noteq> Some c \<Longrightarrow>
      disk_block s' c = disk_block s c"
proof (cases "0 \<le> txnNum (bufferPool s ! i)")
  case False
  then show thesis
    using inv i by (intro that [of s "txnNum (bufferPool s ! i)"])
      (simp_all add: buf_flush_def bnd_simps go_unfold)
next
  case True
  let ?b = "bufferPool s ! i"
  obtain l where h: "log_holds s l" using inv by (auto simp: pool_inv_def)
  have ok: "buf_ok s ?b" using inv i by (rule pool_inv_buf_ok)
  then obtain blk where blk: "buf_block ?b = Some blk" "in_file s blk" "File blk \<noteq> logFile s"
    and len: "int (length (contents ?b)) = blockSize s"
    using True by (auto simp: buf_ok_def split: option.splits)
  obtain t where fl: "lm_Flush (lsn ?b) s = (Inr (), t)" and ht: "\<And>l. log_holds s l \<Longrightarrow> log_holds t l"
    and frt: "lm_frame s t" and dft: "data_frame s t" and lsnt: "latestLSN t = latestLSN s"
    and saved: "lsn ?b \<le> latestLSN s \<Longrightarrow> lsn ?b \<le> lastSavedLSN t"
    and itt: "\<And>it recs. it_at s (logFile s) it recs \<Longrightarrow> it_at t (logFile s) it recs"
    by (rule lm_Flush_all [OF h, of "lsn ?b"]) blast
  note st = data_frame_same [OF dft] and pt = lm_frame_pool [OF frt]
  have bt: "in_file t blk" "File blk \<noteq> logFile t" "int (length (contents ?b)) = blockSize t"
    using blk len by (simp_all add: st)
  obtain u where w: "fm_Write blk (contents ?b) t = (Inr (), u)"
    and hu: "\<And>l. log_holds t l \<Longrightarrow> log_holds u l"
    and fru: "fm_frame t u" and nbu: "\<And>n. nblocks u n = nblocks t n"
    and same: "disk_block u blk = contents ?b"
    and other: "\<And>c. in_file t c \<Longrightarrow> c \<noteq> blk \<Longrightarrow> disk_block u c = disk_block t c"
    and itu: "\<And>it recs. it_at t (logFile t) it recs \<Longrightarrow> it_at u (logFile t) it recs"
    by (rule fm_Write_data_spec [OF ht [OF h] bt]) blast
  note pu = lm_frame_pool [OF lm_frame_fm [OF fru]]
  let ?s' = "buf_upd i (\<lambda>b. b\<lparr>txnNum := - 1\<rparr>) u"
  have pool: "bufferPool ?s' = (bufferPool s)[i := ?b\<lparr>txnNum := - 1\<rparr>]"
    using pu(1) pt(1) by simp
  have run: "buf_flush i s = (Inr (), ?s')"
    using True fl w blk(1) by (simp add: buf_flush_def bnd_simps bnd_Inr go_unfold)
  have sizes: "blockSize ?s' = blockSize s" "logFile ?s' = logFile s" "latestLSN ?s' = latestLSN s"
    "numAvailable ?s' = numAvailable s" "lastSavedLSN ?s' = lastSavedLSN t"
    using fru st(1,2) pt(2) pu(2) lsnt by simp_all
  have nb: "nblocks ?s' n = nblocks s n" if "n \<noteq> logFile s" for n
    using that by (simp add: nbu st(3))
  have db: "disk_block ?s' c = disk_block s c"
    if "in_file s c" "File c \<noteq> logFile s" "buf_block ?b \<noteq> Some c" for c
    using that blk(1) other [of c] st(4,5) [of c] by simp
  have ok': "buf_ok ?s' (?b\<lparr>txnNum := - 1\<rparr>)"
    using ok blk same nb [OF blk(3)] sizes by (simp add: buf_ok_def in_file_def)
  have inv': "pool_inv ?s'"
    by (rule pool_inv_update [OF inv i pool _ _ ok' sizes(1,2) nb db, of l])
      (use hu [OF ht [OF h]] sizes inv i in \<open>auto simp: isPinned_def pool_inv_def\<close>)
  have view: "blk_view ?s' c = blk_view s c" if "in_file s c" "File c \<noteq> logFile s" for c
    by (rule blk_view_cong) (use that db i pu(1) pt(1) in \<open>auto simp: nth_list_update\<close>)
  have logs: "log_holds ?s' l'" if "log_holds s l'" for l'
    using that ht hu by simp
  have "pool_frame s ?s'"
    using sizes nb view logs pt(3) pu(3) pt(1) pu(1) itt itu st(2) by (simp add: pool_frame_def)
  then show thesis
    using run inv' pool sizes saved db i by (intro that [of ?s' "- 1"]) simp_all
qed

lemma log_holds_same:
  assumes "fm_frame s t" and "\<And>n. fileBytes t n = fileBytes s n"
  shows "log_holds t l = log_holds s l"
proof -
  note same = fm_frame_same_blocks [OF assms]
  have "log_saved t cur = log_saved s cur" for cur
    using assms(1) by (simp add: log_saved_def same)
  then show ?thesis using assms(1) by (simp add: log_holds_def lm_inv_def same)
qed

lemma buf_upd_buf_upd: "i < length (bufferPool s) \<Longrightarrow> buf_upd i f (buf_upd i g s) = buf_upd i (f \<circ> g) s"
  by (simp add: buf_upd_def)

text \<open>Giving an unpinned buffer to a block that no buffer holds.\<close>

lemma buf_assignToBlock_spec:
  assumes inv: "pool_inv s" and i: "i < length (bufferPool s)"
    and free: "\<not> isPinned (bufferPool s ! i)" and blk: "in_file s blk" "File blk \<noteq> logFile s"
    and new: "\<forall>j < length (bufferPool s). buf_block (bufferPool s ! j) \<noteq> Some blk"
  obtains s' b' where "buf_assignToBlock i blk s = (Inr (), s')" and "pool_inv s'"
    and "pool_frame s s'" and "bufferPool s' = (bufferPool s)[i := b']" and "buf_block b' = Some blk"
    and "pins b' = 0" and "contents b' = disk_block s blk" and "txnNum b' < 0"
    and "numAvailable s' = numAvailable s"
proof -
  obtain s1 k where fl: "buf_flush i s = (Inr (), s1)" and inv1: "pool_inv s1" and fr1: "pool_frame s s1"
    and pool1: "bufferPool s1 = (bufferPool s)[i := (bufferPool s ! i)\<lparr>txnNum := k\<rparr>]"
    and k: "k < 0" and av1: "numAvailable s1 = numAvailable s"
    and db1: "\<And>c. in_file s c \<Longrightarrow> File c \<noteq> logFile s \<Longrightarrow> buf_block (bufferPool s ! i) \<noteq> Some c \<Longrightarrow>
      disk_block s1 c = disk_block s c"
    by (rule buf_flush_spec [OF inv i]) blast
  let ?s2 = "buf_upd i (\<lambda>b. b\<lparr>buf_block := Some blk\<rparr>) s1"
  let ?c = "contents (bufferPool s1 ! i)"
  have i1: "i < length (bufferPool s1)" using i by (simp add: pool1)
  have old: "buf_block (bufferPool s1 ! i) = buf_block (bufferPool s ! i)"
    "pins (bufferPool s1 ! i) = pins (bufferPool s ! i)" and clean: "txnNum (bufferPool s1 ! i) < 0"
    using i k by (simp_all add: pool1)
  have ok1: "buf_ok s1 (bufferPool s1 ! i)" using inv1 i1 by (rule pool_inv_buf_ok)
  have bs1: "blockSize s1 = blockSize s" "logFile s1 = logFile s" using fr1 by (simp_all add: pool_frame_def)
  have b1: "in_file ?s2 blk" using pool_frame_in_file [OF fr1 blk(2)] blk(1) by simp
  obtain l where h1: "log_holds s1 l" using inv1 by (auto simp: pool_inv_def)
  have wf: "fm_wf ?s2" using h1 by (auto simp: log_holds_def lm_inv_def)
  have len: "int (length ?c) = blockSize ?s2" using ok1 by (simp add: buf_ok_def)
  obtain t where rd: "fm_Read blk ?c ?s2 = ((Inr (), disk_block ?s2 blk), t)" and frt: "fm_frame ?s2 t"
    and fbt: "\<And>m. fileBytes t m = fileBytes ?s2 m"
    by (rule fm_Read_spec [OF wf b1 len]) blast
  note same = fm_frame_same_blocks [OF frt fbt] and pt = lm_frame_pool [OF lm_frame_fm [OF frt]]
  have ht: "log_holds t l' = log_holds s1 l'" for l'
    using log_holds_same [OF frt fbt] by simp
  let ?s' = "buf_upd i (\<lambda>b. b\<lparr>pins := 0\<rparr>) (buf_upd i (\<lambda>b. b\<lparr>contents := disk_block s1 blk\<rparr>) t)"
  let ?b' = "(bufferPool s1 ! i)\<lparr>buf_block := Some blk, contents := disk_block s1 blk, pins := 0\<rparr>"
  have pool': "bufferPool ?s' = (bufferPool s1)[i := ?b']"
    using i1 pt(1) by simp
  have dblk: "disk_block s1 blk = disk_block s blk" using blk new i by (intro db1) auto
  have run: "buf_assignToBlock i blk s = (Inr (), ?s')"
    using fl rd i1 by (simp add: buf_assignToBlock_def bnd_simps bnd_Inr go_unfold buf_read_def bnd_def)
  have nb: "nblocks ?s' n = nblocks s1 n" and db: "disk_block ?s' c = disk_block s1 c" for n c
    using same by simp_all
  have p0: "\<not> isPinned (bufferPool s1 ! i)" using free old by (simp add: isPinned_def)
  have bs: "blockSize ?s' = blockSize s1" "logFile ?s' = logFile s1" "latestLSN ?s' = latestLSN s1"
    "numAvailable ?s' = numAvailable s1" "pool_state.more ?s' = pool_state.more s1"
    using frt pt by simp_all
  have blen: "int (length (disk_block s1 blk)) = blockSize s1"
    using length_disk_block [of ?s2 blk] wf b1 by (simp add: fm_wf_def)
  have ok': "buf_ok ?s' ?b'"
    using clean b1 blk(2) bs1 bs blen nb db by (simp add: buf_ok_def in_file_def)
  have new1: "\<forall>j < length (bufferPool s1). j \<noteq> i \<longrightarrow> buf_block (bufferPool s1 ! j) \<noteq> Some blk"
    using new i by (simp add: pool1)
  have inv': "pool_inv ?s'"
    by (rule pool_inv_update [OF inv1 i1 pool' _ _ ok' bs(1,2) nb db, of l])
      (use h1 ht p0 bs new1 in \<open>auto simp: isPinned_def\<close>)
  have view: "blk_view ?s' c = blk_view s1 c" if c: "in_file s1 c" "File c \<noteq> logFile s1" for c
  proof (cases "c = blk")
    case True
    have "blk_view s1 c = disk_block s1 c"
    proof (rule blk_view_not_pooled)
      show "\<forall>j < length (bufferPool s1). buf_block (bufferPool s1 ! j) \<noteq> Some c"
        using new i True by (auto simp: pool1 nth_list_update)
    qed
    moreover have "blk_view ?s' c = contents (bufferPool ?s' ! i)"
      by (rule blk_view_buffer [OF inv']) (use i1 True pool' in simp_all)
    ultimately show ?thesis using True pool' i1 by simp
  next
    case False
    show ?thesis
    proof (cases "\<exists>j < length (bufferPool s1). j \<noteq> i \<and> buf_block (bufferPool s1 ! j) = Some c")
      case True
      then obtain j where j: "j < length (bufferPool s1)" "j \<noteq> i" "buf_block (bufferPool s1 ! j) = Some c"
        by blast
      have "blk_view ?s' c = contents (bufferPool ?s' ! j)"
        by (rule blk_view_buffer [OF inv']) (use j pool' in simp_all)
      then show ?thesis using blk_view_buffer [OF inv1 j(1,3)] j(2) pt(1) by simp
    next
      case no: False
      have "blk_view ?s' c = disk_block ?s' c"
        by (rule blk_view_not_pooled) (use no False pool' i1 in \<open>auto simp: nth_list_update\<close>)
      moreover have "blk_view s1 c = disk_block s1 c"
      proof (cases "buf_block (bufferPool s1 ! i) = Some c")
        case True
        then show ?thesis
          using blk_view_buffer [OF inv1 i1 True] ok1 clean by (simp add: buf_ok_def)
      next
        case False
        with no show ?thesis by (intro blk_view_not_pooled) blast
      qed
      ultimately show ?thesis using same(3) [of c] by simp
    qed
  qed
  have "it_at ?s' (logFile s1) it recs = it_at s1 (logFile s1) it recs" for it recs
    using frt same by (simp add: it_at_def) (simp add: older_def)
  then have "pool_frame s1 ?s'"
    using bs nb view ht pool' by (simp add: pool_frame_def)
  then show thesis
    using run inv' pool' dblk clean bs av1 pool_frame_trans [OF fr1] i
    by (intro that [of ?s' ?b']) (simp_all add: pool1)
qed

lemma bm_pin_spec:
  assumes inv: "pool_inv s" and i: "i < length (bufferPool s)"
    and blk: "buf_block (bufferPool s ! i) = Some blk"
  obtains s' where "bm_pin i s = (Inr (Some i), s')" and "pool_inv s'" and "pool_frame s s'"
    and "bufferPool s' = (bufferPool s)[i := (bufferPool s ! i)\<lparr>pins := pins (bufferPool s ! i) + 1\<rparr>]"
proof -
  let ?b = "bufferPool s ! i"
  let ?b' = "?b\<lparr>pins := pins ?b + 1\<rparr>"
  define t where "t = (if isPinned ?b then s else s\<lparr>numAvailable := numAvailable s - 1\<rparr>)"
  let ?s' = "buf_upd i (\<lambda>b. b\<lparr>pins := pins b + 1\<rparr>) t"
  have t: "bufferPool t = bufferPool s" "\<And>l. log_holds t l = log_holds s l" "blockSize t = blockSize s"
    "logFile t = logFile s" "\<And>n. nblocks t n = nblocks s n" "\<And>c. disk_block t c = disk_block s c"
    "\<And>b. buf_ok t b = buf_ok s b" "latestLSN t = latestLSN s" "pool_state.more t = pool_state.more s"
    "numAvailable t = numAvailable s - of_bool (\<not> isPinned ?b)"
    "\<And>lf it recs. it_at t lf it recs = it_at s lf it recs"
    by (simp_all add: t_def)
  have run: "bm_pin i s = (Inr (Some i), ?s')"
    by (simp add: bm_pin_def bnd_simps go_unfold t_def)
  have ok: "buf_ok s ?b" using inv i by (rule pool_inv_buf_ok)
  obtain l where h: "log_holds s l" using inv by (auto simp: pool_inv_def)
  have pool: "bufferPool ?s' = (bufferPool s)[i := ?b']" by (simp add: t)
  have ok': "buf_ok ?s' ?b'" using ok blk by (simp add: t) (simp add: buf_ok_def)
  have "pool_inv ?s'"
    by (rule pool_inv_update [OF inv i pool _ _ ok', of l])
      (use ok h inv i blk in \<open>auto simp: t isPinned_def buf_ok_def pool_inv_def\<close>)
  moreover have "blk_view ?s' c = blk_view s c" for c
    by (rule blk_view_cong) (use i in \<open>auto simp: t nth_list_update\<close>)
  then have "pool_frame s ?s'" by (simp add: pool_frame_def t)
  ultimately show thesis using run pool by (intro that [of ?s'])
qed

lemma bm_Unpin_spec:
  assumes inv: "pool_inv s" and i: "i < length (bufferPool s)" and p: "0 < pins (bufferPool s ! i)"
  obtains s' where "bm_Unpin i s = (Inr (), s')" and "pool_inv s'" and "pool_frame s s'"
    and "bufferPool s' = (bufferPool s)[i := (bufferPool s ! i)\<lparr>pins := pins (bufferPool s ! i) - 1\<rparr>]"
proof -
  let ?b = "bufferPool s ! i"
  let ?b' = "?b\<lparr>pins := pins ?b - 1\<rparr>"
  define u where "u = buf_upd i (\<lambda>b. b\<lparr>pins := pins b - 1\<rparr>) s"
  define s' where "s' = (if isPinned ?b' then u else u\<lparr>numAvailable := numAvailable u + 1\<rparr>)"
  have run: "bm_Unpin i s = (Inr (), s')"
    using i by (simp add: bm_Unpin_def bnd_simps go_unfold s'_def u_def)
  have t: "bufferPool s' = (bufferPool s)[i := ?b']" "\<And>l. log_holds s' l = log_holds s l"
    "blockSize s' = blockSize s" "logFile s' = logFile s" "\<And>n. nblocks s' n = nblocks s n"
    "\<And>c. disk_block s' c = disk_block s c" "\<And>b. buf_ok s' b = buf_ok s b"
    "latestLSN s' = latestLSN s" "pool_state.more s' = pool_state.more s"
    "numAvailable s' = numAvailable s + of_bool (\<not> isPinned ?b')"
    "\<And>lf it recs. it_at s' lf it recs = it_at s lf it recs"
    by (simp_all add: s'_def u_def)
  have ok: "buf_ok s ?b" using inv i by (rule pool_inv_buf_ok)
  obtain l where h: "log_holds s l" using inv by (auto simp: pool_inv_def)
  have ok': "buf_ok s' ?b'" using ok p by (simp add: t) (auto simp: buf_ok_def split: option.splits)
  have "pool_inv s'"
    by (rule pool_inv_update [OF inv i t(1) _ _ ok', of l])
      (use ok h inv i p in \<open>auto simp: t isPinned_def pool_inv_def\<close>)
  moreover have "blk_view s' c = blk_view s c" for c
    by (rule blk_view_cong) (use i in \<open>auto simp: t nth_list_update\<close>)
  then have "pool_frame s s'" by (simp add: pool_frame_def t)
  ultimately show thesis using run t(1) by (intro that [of s'])
qed

text \<open>A client's write changes the view of its own block and of no other.\<close>

lemma buf_write_spec:
  assumes inv: "pool_inv s" and i: "i < length (bufferPool s)"
    and blk: "buf_block (bufferPool s ! i) = Some blk" and tx: "0 \<le> tx"
    and p: "int (length p) = blockSize s"
  obtains s' where "buf_write i p tx l s = (Inr (), s')" and "pool_inv s'"
    and "bufferPool s' = (bufferPool s)[i := buf_SetModified tx l ((bufferPool s ! i)\<lparr>contents := p\<rparr>)]"
    and "\<And>c. blk_view s' c = (if c = blk then p else blk_view s c)"
    and "\<And>k. log_holds s' k = log_holds s k" and "\<And>n. nblocks s' n = nblocks s n"
    and "blockSize s' = blockSize s" and "logFile s' = logFile s" and "latestLSN s' = latestLSN s"
    and "pool_state.more s' = pool_state.more s"
    and "\<And>lf it recs. it_at s' lf it recs = it_at s lf it recs"
proof -
  let ?b = "bufferPool s ! i"
  let ?b' = "buf_SetModified tx l (?b\<lparr>contents := p\<rparr>)"
  let ?s' = "buf_upd i (\<lambda>b. buf_SetModified tx l (b\<lparr>contents := p\<rparr>)) s"
  have run: "buf_write i p tx l s = (Inr (), ?s')" by (simp add: buf_write_def go_unfold)
  have b': "buf_block ?b' = Some blk" "pins ?b' = pins ?b" "contents ?b' = p" "txnNum ?b' = tx"
    using blk by (simp_all add: buf_SetModified_def Let_def)
  have ok: "buf_ok s ?b" using inv i by (rule pool_inv_buf_ok)
  have pool: "bufferPool ?s' = (bufferPool s)[i := ?b']" by simp
  obtain k where h: "log_holds s k" using inv by (auto simp: pool_inv_def)
  have ok': "buf_ok ?s' ?b'" using ok blk tx p by (simp add: buf_ok_def b')
  have inv': "pool_inv ?s'"
    by (rule pool_inv_update [OF inv i pool _ _ ok', of k])
      (use h inv i blk b' in \<open>auto simp: isPinned_def pool_inv_def\<close>)
  have view: "blk_view ?s' c = (if c = blk then p else blk_view s c)" for c
  proof (cases "c = blk")
    case True
    have "blk_view ?s' blk = contents (bufferPool ?s' ! i)"
      by (rule blk_view_buffer [OF inv']) (use i b' in simp_all)
    then show ?thesis using True i b' by simp
  next
    case False
    have f: "findExistingBuffer (bufferPool ?s') c = findExistingBuffer (bufferPool s) c"
      unfolding findExistingBuffer_def
      by (rule find_cong) (use i blk b' in \<open>auto simp: nth_list_update\<close>)
    have "j \<noteq> i" if "findExistingBuffer (bufferPool s) c = Some j" for j
      using findExistingBuffer_Some(2) [OF that] blk False by auto
    then show ?thesis using False f by (auto simp: blk_view_def split: option.splits)
  qed
  show thesis
    by (rule that [OF run inv' pool view]) simp_all
qed

section \<open>Pinning with any replacement strategy\<close>

locale replacement_strategy =
  fixes strat :: "buffer list \<Rightarrow> nat option"
  assumes strat_Some: "strat pool = Some i \<Longrightarrow> i < length pool \<and> \<not> isPinned (pool ! i)"
    and strat_None: "strat pool = None \<Longrightarrow> \<forall>b \<in> set pool. isPinned b"
begin

lemma tryToPin_spec:
  assumes inv: "pool_inv s" and blk: "in_file s blk" "File blk \<noteq> logFile s"
  obtains (pinned) s' i where "bm_tryToPin strat blk s = (Inr (Some i), s')" and "pool_inv s'"
      and "pool_frame s s'" and "i < length (bufferPool s')"
      and "buf_block (bufferPool s' ! i) = Some blk" and "0 < pins (bufferPool s' ! i)"
      and "\<And>j. j < length (bufferPool s) \<Longrightarrow> j \<noteq> i \<Longrightarrow> bufferPool s' ! j = bufferPool s ! j"
      and "pins (bufferPool s' ! i) = pins (bufferPool s ! i) + 1"
      and "buf_block (bufferPool s ! i) = Some blk \<or> pins (bufferPool s ! i) = 0"
  | (full) "bm_tryToPin strat blk s = (Inr None, s)" and "\<forall>b \<in> set (bufferPool s). isPinned b"
      and "\<forall>b \<in> set (bufferPool s). buf_block b \<noteq> Some blk"
proof (cases "findExistingBuffer (bufferPool s) blk")
  case (Some i)
  note f = findExistingBuffer_Some [OF Some]
  have p0: "0 \<le> pins (bufferPool s ! i)" using pool_inv_buf_ok [OF inv f(1)] by (simp add: buf_ok_def)
  obtain s' where "bm_pin i s = (Inr (Some i), s')" "pool_inv s'" "pool_frame s s'"
    "bufferPool s' = (bufferPool s)[i := (bufferPool s ! i)\<lparr>pins := pins (bufferPool s ! i) + 1\<rparr>]"
    by (rule bm_pin_spec [OF inv f]) blast
  then show thesis
    using Some f p0 by (intro pinned [of i s']) (simp_all add: bm_tryToPin_def bnd_simps)
next
  case None
  note new = None [unfolded findExistingBuffer_None]
  show thesis
  proof (cases "strat (bufferPool s)")
    case None: None
    show thesis
      using \<open>findExistingBuffer _ _ = None\<close> None strat_None [OF None] new
      by (intro full) (auto simp: bm_tryToPin_def bnd_simps go_unfold in_set_conv_nth)
  next
    case (Some i)
    have i: "i < length (bufferPool s)" "\<not> isPinned (bufferPool s ! i)"
      using strat_Some [OF Some] by auto
    obtain t b' where as: "buf_assignToBlock i blk s = (Inr (), t)" "pool_inv t" "pool_frame s t"
      "bufferPool t = (bufferPool s)[i := b']" "buf_block b' = Some blk" "pins b' = 0"
      by (rule buf_assignToBlock_spec [OF inv i blk new]) blast
    have it: "i < length (bufferPool t)" "buf_block (bufferPool t ! i) = Some blk"
      using i as by simp_all
    obtain s' where s': "bm_pin i t = (Inr (Some i), s')" "pool_inv s'" "pool_frame t s'"
      "bufferPool s' = (bufferPool t)[i := (bufferPool t ! i)\<lparr>pins := pins (bufferPool t ! i) + 1\<rparr>]"
      by (rule bm_pin_spec [OF as(2) it]) blast
    have "pins (bufferPool s ! i) = 0"
      using pool_inv_buf_ok [OF inv i(1)] i(2) by (simp add: buf_ok_def isPinned_def)
    then show thesis
      using None Some as s' i pool_frame_trans [OF as(3) s'(3)]
      by (intro pinned [of i s']) (simp_all add: bm_tryToPin_def bnd_simps bnd_Inr)
  qed
qed

text \<open>Whatever the goroutines that run during the waits do, as long as they keep the pool's
  invariant and do not truncate files.\<close>

lemma PinWith_spec:
  assumes "pool_inv s" and "in_file s blk" and "File blk \<noteq> logFile s"
    and "\<And>w u. w \<in> set ws \<Longrightarrow> pool_inv u \<Longrightarrow> pool_inv (w u) \<and> logFile (w u) = logFile u \<and>
      (\<forall>n. n \<noteq> logFile u \<longrightarrow> nblocks u n \<le> nblocks (w u) n)"
  shows "\<exists>r s'. bm_PinWith strat ws blk s = (r, s') \<and> pool_inv s' \<and>
    (r = Err EBufferAbort \<or> (\<exists>i. r = Inr i \<and> i < length (bufferPool s') \<and>
       buf_block (bufferPool s' ! i) = Some blk \<and> 0 < pins (bufferPool s' ! i)))"
  using assms
proof (induction ws arbitrary: s)
  case Nil
  then show ?case
    by (cases rule: tryToPin_spec [OF Nil.prems(1-3)]) (auto simp: bnd_simps bnd_Inr go_unfold)
next
  case (Cons w ws)
  show ?case
  proof (cases rule: tryToPin_spec [OF Cons.prems(1-3)])
    case (1 s' i)
    then show ?thesis by (auto simp: bnd_simps bnd_Inr go_unfold)
  next
    case 2
    have w: "pool_inv (w s)" "logFile (w s) = logFile s"
      "\<forall>n. n \<noteq> logFile s \<longrightarrow> nblocks s n \<le> nblocks (w s) n"
      using Cons.prems(4) [of w s] Cons.prems(1) by simp_all
    have "in_file (w s) blk" using w(3) Cons.prems(2,3) by (auto simp: in_file_def)
    moreover have "File blk \<noteq> logFile (w s)" using w(2) Cons.prems(3) by simp
    ultimately have "\<exists>r s'. bm_PinWith strat ws blk (w s) = (r, s') \<and> pool_inv s' \<and>
      (r = Err EBufferAbort \<or> (\<exists>i. r = Inr i \<and> i < length (bufferPool s') \<and>
         buf_block (bufferPool s' ! i) = Some blk \<and> 0 < pins (bufferPool s' ! i)))"
      using Cons.prems(4) by (intro Cons.IH [OF w(1)]) simp_all
    then show ?thesis using 2(1) by (simp add: bnd_simps bnd_Inr)
  qed
qed

end

interpretation naive: replacement_strategy naive_choose
proof
  show "naive_choose pool = Some i \<Longrightarrow> i < length pool \<and> \<not> isPinned (pool ! i)" for pool i
    using naive_choose_Some by blast
  show "naive_choose pool = None \<Longrightarrow> \<forall>b \<in> set pool. isPinned b" for pool
    using naive_choose_None by blast
qed

section \<open>Flushing a transaction\<close>

lemma flush_loop_spec:
  assumes "pool_inv s" and "\<forall>i \<in> set is. i < length (bufferPool s)"
  shows "\<exists>s'. for_each is (\<lambda>i. bnd (gets (\<lambda>s. bufferPool s ! i))
      (\<lambda>b. if txnNum b = tx then buf_flush i else ret ())) s = (Inr (), s') \<and>
    pool_inv s' \<and> pool_frame s s' \<and>
    (\<forall>j < length (bufferPool s). \<exists>k. bufferPool s' ! j = (bufferPool s ! j)\<lparr>txnNum := k\<rparr> \<and>
       (k = txnNum (bufferPool s ! j) \<or> k < 0) \<and>
       (j \<in> set is \<longrightarrow> txnNum (bufferPool s ! j) = tx \<longrightarrow> k < 0 \<or> tx < 0))"
  using assms
proof (induction "is" arbitrary: s)
  case Nil
  have "\<exists>k. b = b\<lparr>txnNum := k\<rparr> \<and> (k = txnNum b \<or> k < 0)" for b :: buffer
    by (rule exI [of _ "txnNum b"]) simp
  with Nil show ?case by (auto simp: go_unfold)
next
  case (Cons i "is")
  let ?body = "\<lambda>i. bnd (gets (\<lambda>s. bufferPool s ! i)) (\<lambda>b. if txnNum b = tx then buf_flush i else ret ())"
  have i: "i < length (bufferPool s)" using Cons.prems(2) by simp
  obtain t k where t: "?body i s = (Inr (), t)" "pool_inv t" "pool_frame s t"
    "bufferPool t = (bufferPool s)[i := (bufferPool s ! i)\<lparr>txnNum := k\<rparr>]"
    "k = txnNum (bufferPool s ! i) \<or> k < 0" "txnNum (bufferPool s ! i) = tx \<longrightarrow> k < 0"
  proof (cases "txnNum (bufferPool s ! i) = tx")
    case True
    obtain t k where "buf_flush i s = (Inr (), t)" "pool_inv t" "pool_frame s t"
      "bufferPool t = (bufferPool s)[i := (bufferPool s ! i)\<lparr>txnNum := k\<rparr>]" "k < 0"
      by (rule buf_flush_spec [OF Cons.prems(1) i]) blast
    then show thesis using True that [of t k] by (simp add: bnd_simps)
  next
    case False
    then show thesis
      using that [of s "txnNum (bufferPool s ! i)"] Cons.prems(1) by (simp add: bnd_simps go_unfold)
  qed
  have len: "length (bufferPool t) = length (bufferPool s)" using t(4) by simp
  then have "\<forall>i \<in> set is. i < length (bufferPool t)" using Cons.prems(2) by simp
  from Cons.IH [OF t(2) this] obtain s' where s': "for_each is ?body t = (Inr (), s')" "pool_inv s'"
    "pool_frame t s'" and all: "\<forall>j < length (bufferPool t). \<exists>k.
       bufferPool s' ! j = (bufferPool t ! j)\<lparr>txnNum := k\<rparr> \<and> (k = txnNum (bufferPool t ! j) \<or> k < 0) \<and>
       (j \<in> set is \<longrightarrow> txnNum (bufferPool t ! j) = tx \<longrightarrow> k < 0 \<or> tx < 0)"
    by blast
  have "\<exists>k. bufferPool s' ! j = (bufferPool s ! j)\<lparr>txnNum := k\<rparr> \<and>
       (k = txnNum (bufferPool s ! j) \<or> k < 0) \<and>
       (j \<in> set (i # is) \<longrightarrow> txnNum (bufferPool s ! j) = tx \<longrightarrow> k < 0 \<or> tx < 0)"
    if j: "j < length (bufferPool s)" for j
  proof -
    obtain k' where k': "bufferPool s' ! j = (bufferPool t ! j)\<lparr>txnNum := k'\<rparr>"
      "k' = txnNum (bufferPool t ! j) \<or> k' < 0"
      "j \<in> set is \<longrightarrow> txnNum (bufferPool t ! j) = tx \<longrightarrow> k' < 0 \<or> tx < 0"
      using all j len by auto
    then show ?thesis
      using t(4-6) j i by (cases "j = i") auto
  qed
  then show ?case using t(1) s' pool_frame_trans [OF t(3) s'(3)] by (simp add: bnd_Inr)
qed

lemma bm_FlushAll_spec:
  assumes inv: "pool_inv s" and tx: "0 \<le> tx"
  obtains s' where "bm_FlushAll tx s = (Inr (), s')" and "pool_inv s'" and "pool_frame s s'"
    and "\<And>j. j < length (bufferPool s) \<Longrightarrow> \<exists>k. bufferPool s' ! j = (bufferPool s ! j)\<lparr>txnNum := k\<rparr> \<and>
       (k = txnNum (bufferPool s ! j) \<or> k < 0) \<and> (txnNum (bufferPool s ! j) = tx \<longrightarrow> k < 0)"
proof -
  have "\<forall>i \<in> set [0 ..< length (bufferPool s)]. i < length (bufferPool s)" by simp
  from flush_loop_spec [OF inv this, of tx] show thesis
    using that tx by (auto simp: bm_FlushAll_def bnd_simps)
qed

lemma pool_view_after:
  assumes "pool_frame s s'" and "in_file s c" and "File c \<noteq> logFile s"
  shows "blk_view s' c = blk_view s c"
  using assms by (simp add: pool_frame_def)

section \<open>Properties of the buffer pool\<close>


text \<open>C26. \<open>Pin\<close> under concurrency: whatever other goroutines do to the state during the waits
  (as long as each keeps the pool's invariant and removes no block), \<open>Pin\<close> returns either an
  abort or a buffer that at that moment holds the block and is pinned, and the invariant holds.\<close>

theorem bm_Pin_with_waits:
  assumes "pool_inv s" and "in_file s blk" and "File blk \<noteq> logFile s"
    and "\<And>w u. w \<in> set ws \<Longrightarrow> pool_inv u \<Longrightarrow> pool_inv (w u) \<and> logFile (w u) = logFile u \<and>
      (\<forall>n. n \<noteq> logFile u \<longrightarrow> nblocks u n \<le> nblocks (w u) n)"
  shows "\<exists>r s'. bm_PinWith naive_choose ws blk s = (r, s') \<and> pool_inv s' \<and>
    (r = Err EBufferAbort \<or> (\<exists>i. r = Inr i \<and> i < length (bufferPool s') \<and>
       buf_block (bufferPool s' ! i) = Some blk \<and> 0 < pins (bufferPool s' ! i)))"
  using assms by (rule naive.PinWith_spec)

text \<open>\<open>FlushAll\<close> makes a transaction durable: afterwards the disk holds the current contents of
  every block whose buffer the transaction had modified, no buffer is marked with its number any
  more, and no reader sees a change.\<close>

theorem bm_FlushAll_durable:
  assumes "pool_inv s" and "0 \<le> tx"
  shows "\<exists>s'. bm_FlushAll tx s = (Inr (), s') \<and> pool_inv s' \<and>
    (\<forall>b \<in> set (bufferPool s'). txnNum b \<noteq> tx) \<and>
    (\<forall>b \<in> set (bufferPool s). \<forall>blk. txnNum b = tx \<longrightarrow> buf_block b = Some blk \<longrightarrow>
       disk_block s' blk = blk_view s blk) \<and>
    (\<forall>c. in_file s c \<and> File c \<noteq> logFile s \<longrightarrow> blk_view s' c = blk_view s c)"
proof -
  obtain s' where s': "bm_FlushAll tx s = (Inr (), s')" "pool_inv s'" and fr: "pool_frame s s'"
    and each: "\<And>j. j < length (bufferPool s) \<Longrightarrow> \<exists>k. bufferPool s' ! j = (bufferPool s ! j)\<lparr>txnNum := k\<rparr> \<and>
       (k = txnNum (bufferPool s ! j) \<or> k < 0) \<and> (txnNum (bufferPool s ! j) = tx \<longrightarrow> k < 0)"
    by (rule bm_FlushAll_spec [OF assms]) blast
  have len: "length (bufferPool s') = length (bufferPool s)" using fr by (simp add: pool_frame_def)
  have gone: "\<forall>b \<in> set (bufferPool s'). txnNum b \<noteq> tx"
    unfolding all_set_conv_all_nth
  proof (intro allI impI)
    fix j
    assume "j < length (bufferPool s')"
    then show "txnNum (bufferPool s' ! j) \<noteq> tx" using each [of j] assms(2) len by fastforce
  qed
  have dur: "disk_block s' blk = blk_view s blk"
    if j: "j < length (bufferPool s)" "txnNum (bufferPool s ! j) = tx"
      "buf_block (bufferPool s ! j) = Some blk" for j blk
  proof -
    obtain k where k: "bufferPool s' ! j = (bufferPool s ! j)\<lparr>txnNum := k\<rparr>" "k < 0"
      using each [OF j(1)] j(2) by blast
    have "buf_ok s' (bufferPool s' ! j)" using s'(2) j(1) len by (intro pool_inv_buf_ok) simp_all
    then have "disk_block s' blk = contents (bufferPool s ! j)" using k j(3) by (simp add: buf_ok_def)
    then show ?thesis using blk_view_buffer [OF assms(1) j(1,3)] by simp
  qed
  show ?thesis
    using s' gone dur pool_view_after [OF fr]
    by (intro exI [of _ s']) (auto simp: in_set_conv_nth)
qed


section \<open>A concrete pool\<close>

lemma bm_NewManager_spec:
  assumes h: "log_holds s l"
  obtains p where "bm_NewManager s n = Inr p" and "pool_inv p" and "blockSize p = blockSize s"
    and "logFile p = logFile s" and "\<And>m. nblocks p m = nblocks s m" and "log_holds p l"
    and "\<And>c. disk_block p c = disk_block s c"
    and "latestLSN p = latestLSN s"
    and "bufferPool p = replicate n \<lparr>contents = replicate (nat (blockSize s)) 0, buf_block = None,
      pins = 0, txnNum = - 1, lsn = - 1\<rparr>"
proof -
  let ?b = "\<lparr>contents = replicate (nat (blockSize s)) 0, buf_block = None, pins = 0, txnNum = - 1, lsn = - 1\<rparr>"
  let ?p = "log_state.extend s (pool_state.fields (replicate n ?b) (int n))"
  have bs: "4 \<le> blockSize s" using h by (auto simp: log_holds_def lm_inv_def)
  have f: "blockSize ?p = blockSize s" "logFile ?p = logFile s" "logPage ?p = logPage s"
    "currentBlock ?p = currentBlock s" "latestLSN ?p = latestLSN s" "lastSavedLSN ?p = lastSavedLSN s"
    "bufferPool ?p = replicate n ?b" "numAvailable ?p = int n" "\<And>m. fileBytes ?p m = fileBytes s m"
    by (simp_all add: log_state.defs pool_state.defs fileBytes_def)
  have g: "fm_wf ?p = fm_wf s" "\<And>m. nblocks ?p m = nblocks s m" "\<And>c. disk_block ?p c = disk_block s c"
    by (simp_all add: fm_wf_def nblocks_def disk_block_def f)
  have h': "log_holds ?p l" using h by (simp add: log_holds_def lm_inv_def log_saved_def older_def f g)
  have "pool_inv ?p"
    unfolding pool_inv_def using h' bs
    by (auto simp: f unpinned_def isPinned_def buf_ok_def)
  moreover have "bm_NewManager s n = Inr ?p"
    using bs by (simp add: bm_NewManager_def NewBuffer_def NewPageOfSize_def)
  ultimately show thesis using f g h' by (intro that [of ?p])
qed

definition demo_pool :: pool_state where
  "demo_pool = (case bm_NewManager demo_log 2 of Inr s \<Rightarrow> s)"

abbreviation demo_blk :: block_id where
  "demo_blk \<equiv> NewBlockId ''t.tbl'' 1"

lemma demo_pool_inv: "pool_inv demo_pool" "blockSize demo_pool = 64" "logFile demo_pool = ''log''"
  "in_file demo_pool demo_blk" "File demo_blk \<noteq> logFile demo_pool" "log_holds demo_pool []"
  "length (bufferPool demo_pool) = 2" "\<forall>b \<in> set (bufferPool demo_pool). \<not> isPinned b \<and> buf_block b = None"
  "latestLSN demo_pool = 0" "disk_block demo_pool demo_blk = replicate 64 0"
proof -
  obtain p where p: "bm_NewManager demo_log 2 = Inr p" "pool_inv p" "blockSize p = blockSize demo_log"
    "logFile p = logFile demo_log" "\<And>m. nblocks p m = nblocks demo_log m" "log_holds p []"
    "\<And>c. disk_block p c = disk_block demo_log c"
    "latestLSN p = latestLSN demo_log" "bufferPool p = replicate 2 \<lparr>contents = replicate (nat (blockSize demo_log)) 0, buf_block = None,
      pins = 0, txnNum = - 1, lsn = - 1\<rparr>"
    by (rule bm_NewManager_spec [OF demo_log_holds]) blast
  have "demo_pool = p" by (simp add: demo_pool_def p(1))
  then show "pool_inv demo_pool" "blockSize demo_pool = 64" "logFile demo_pool = ''log''"
    "in_file demo_pool demo_blk" "File demo_blk \<noteq> logFile demo_pool" "log_holds demo_pool []"
    "length (bufferPool demo_pool) = 2"
    "\<forall>b \<in> set (bufferPool demo_pool). \<not> isPinned b \<and> buf_block b = None"
    "latestLSN demo_pool = 0" "disk_block demo_pool demo_blk = replicate 64 0"
    using p(2-9) by (simp_all add: demo_log_inv demo_log_inv [unfolded NewBlockId_def] in_file_def NewBlockId_def isPinned_def)
qed

text \<open>The same pool after one block was pinned in the first buffer and overwritten.\<close>

lemma demo_dirty:
  obtains s :: pool_state where "pool_inv s" and "length (bufferPool s) = 2"
    and "txnNum (bufferPool s ! 0) = 1" and "lsn (bufferPool s ! 0) \<le> latestLSN s"
    and "buf_block (bufferPool s ! 0) = Some demo_blk"
proof -
  have i: "0 < length (bufferPool demo_pool)" "\<not> isPinned (bufferPool demo_pool ! 0)"
    and new: "\<forall>j < length (bufferPool demo_pool). buf_block (bufferPool demo_pool ! j) \<noteq> Some demo_blk"
    using demo_pool_inv(7,8) by (simp_all add: all_set_conv_all_nth)
  obtain t b' where t: "buf_assignToBlock 0 demo_blk demo_pool = (Inr (), t)" "pool_inv t"
    "bufferPool t = (bufferPool demo_pool)[0 := b']" "buf_block b' = Some demo_blk"
    "pool_frame demo_pool t"
    by (rule buf_assignToBlock_spec [OF demo_pool_inv(1) i demo_pool_inv(4,5) new]) blast
  have it: "0 < length (bufferPool t)" "buf_block (bufferPool t ! 0) = Some demo_blk"
    "int (length (replicate 64 (7 :: byte))) = blockSize t"
    using t i demo_pool_inv(2) by (simp_all add: pool_frame_def)
  have lsnt: "latestLSN t = 0" using t(5) demo_pool_inv(9) by (simp add: pool_frame_def)
  have tx: "0 \<le> (1 :: int)" by simp
  obtain s :: pool_state where s: "pool_inv s" "bufferPool s = (bufferPool t)[0 :=
      buf_SetModified 1 0 ((bufferPool t ! 0)\<lparr>contents := replicate 64 7\<rparr>)]"
    "latestLSN s = latestLSN t"
    by (rule buf_write_spec [OF t(2) it(1,2) tx it(3), of 0]) blast
  show thesis
    by (rule that [OF s(1)]) (use it t(3) i lsnt demo_pool_inv(7) in
        \<open>simp_all add: s buf_SetModified_def Let_def\<close>)
qed


lemma bm_Pin_with_waits_witness:
  "\<exists>r s'. bm_PinWith naive_choose [id, id] demo_blk demo_pool = (r, s') \<and> pool_inv s' \<and>
    (r = Err EBufferAbort \<or> (\<exists>i. r = Inr i \<and> i < length (bufferPool s') \<and>
       buf_block (bufferPool s' ! i) = Some demo_blk \<and> 0 < pins (bufferPool s' ! i)))"
  by (rule bm_Pin_with_waits [OF demo_pool_inv(1,4,5)]) simp

lemma bm_FlushAll_durable_witness:
  "\<exists>s s' :: pool_state. txnNum (bufferPool s ! 0) = 1 \<and> bm_FlushAll 1 s = (Inr (), s') \<and>
    disk_block s' demo_blk = blk_view s demo_blk"
proof -
  obtain s :: pool_state where s: "pool_inv s" "length (bufferPool s) = 2"
    "txnNum (bufferPool s ! 0) = 1" "buf_block (bufferPool s ! 0) = Some demo_blk"
    by (rule demo_dirty) blast
  have "bufferPool s ! 0 \<in> set (bufferPool s)" using s(2) by simp
  then show ?thesis using bm_FlushAll_durable [OF s(1), of 1] s(3,4) by auto
qed


end
