(* ===== verification/LogRecord.thy ===== *)
theory LogRecord
  imports LogMgr
begin

text \<open>
  \<^verbatim>\<open>tx/log_record.go\<close>, \<^verbatim>\<open>tx/checkpoint.go\<close>, \<^verbatim>\<open>tx/start.go\<close>, \<^verbatim>\<open>tx/commit.go\<close>, \<^verbatim>\<open>tx/rollback.go\<close>
  and \<^verbatim>\<open>tx/set_*.go\<close>: the ten kinds of log record and their byte layout.

  The six update records share their header (operation, transaction, file name, block, offset); the
  file name takes \<open>MaxLength\<close> bytes, four for its length and four for each of its bytes. The lemmas
  show that reading a record's bytes gives the record back. The one exception is the rollback
  record, whose transaction number is read from the position of the operation code.
  \<open>Undo\<close>, which needs a transaction, is in the theory of transactions.
\<close>

section \<open>Record kinds\<close>

datatype LogRecordType =
  Checkpoint | Start | Commit | Rollback | SetInt | SetString | SetBool | SetLong | SetShort | SetDate

fun type_code :: "LogRecordType \<Rightarrow> int" where
  "type_code Checkpoint = 0" | "type_code Start = 1" | "type_code Commit = 2"
| "type_code Rollback = 3" | "type_code SetInt = 4" | "type_code SetString = 5"
| "type_code SetBool = 6" | "type_code SetLong = 7" | "type_code SetShort = 8"
| "type_code SetDate = 9"

definition FromCode :: "int \<Rightarrow> LogRecordType res" where
  "FromCode code =
     (if code = 0 then Inr Checkpoint else if code = 1 then Inr Start
      else if code = 2 then Inr Commit else if code = 3 then Inr Rollback
      else if code = 4 then Inr SetInt else if code = 5 then Inr SetString
      else if code = 6 then Inr SetBool else if code = 7 then Inr SetLong
      else if code = 8 then Inr SetShort else if code = 9 then Inr SetDate
      else Err EUnknownLogRecordCode)"

lemma FromCode_code [simp]: "FromCode (type_code t) = Inr t"
  by (cases t) (simp_all add: FromCode_def)

datatype log_record =
    CheckpointRecord
  | StartRecord int
  | CommitRecord int
  | RollbackRecord int
  | SetIntRecord int block_id int int
  | SetStringRecord int block_id int string
  | SetBoolRecord int block_id int bool
  | SetLongRecord int block_id int "64 word"
  | SetShortRecord int block_id int "16 word"
  | SetDateRecord int block_id int gotime

fun record_Op :: "log_record \<Rightarrow> LogRecordType" where
  "record_Op CheckpointRecord = Checkpoint"
| "record_Op (StartRecord _) = Start"
| "record_Op (CommitRecord _) = Commit"
| "record_Op (RollbackRecord _) = Rollback"
| "record_Op (SetIntRecord _ _ _ _) = SetInt"
| "record_Op (SetStringRecord _ _ _ _) = SetString"
| "record_Op (SetBoolRecord _ _ _ _) = SetBool"
| "record_Op (SetLongRecord _ _ _ _) = SetLong"
| "record_Op (SetShortRecord _ _ _ _) = SetShort"
| "record_Op (SetDateRecord _ _ _ _) = SetDate"

fun record_TxNumber :: "log_record \<Rightarrow> int" where
  "record_TxNumber CheckpointRecord = - 1"
| "record_TxNumber (StartRecord n) = n"
| "record_TxNumber (CommitRecord n) = n"
| "record_TxNumber (RollbackRecord n) = n"
| "record_TxNumber (SetIntRecord n _ _ _) = n"
| "record_TxNumber (SetStringRecord n _ _ _) = n"
| "record_TxNumber (SetBoolRecord n _ _ _) = n"
| "record_TxNumber (SetLongRecord n _ _ _) = n"
| "record_TxNumber (SetShortRecord n _ _ _) = n"
| "record_TxNumber (SetDateRecord n _ _ _) = n"

section \<open>Writing records\<close>

definition Checkpoint_bytes :: "byte list res" where
  "Checkpoint_bytes = rbind (NewPageOfSize 4) (\<lambda>p. page_SetInt p 0 (type_code Checkpoint))"

definition tx_bytes :: "LogRecordType \<Rightarrow> int \<Rightarrow> byte list res" where
  "tx_bytes t tx =
     rbind (NewPageOfSize (2 * IntSize)) (\<lambda>p.
     rbind (page_SetInt p 0 (type_code t)) (\<lambda>p.
     page_SetInt p IntSize tx))"

text \<open>The header of an update record in a page of \<open>recordLen\<close> bytes.\<close>

definition write_header :: "LogRecordType \<Rightarrow> int \<Rightarrow> block_id \<Rightarrow> int \<Rightarrow> int \<Rightarrow> page res" where
  "write_header t tx block off recordLen =
     (let txNumPos = IntSize; fileNamePos = txNumPos + IntSize;
          blockNumPos = fileNamePos + MaxLength (int (length (File block)));
          offsetPos = blockNumPos + IntSize in
      rbind (NewPageOfSize recordLen) (\<lambda>p.
      rbind (page_SetInt p 0 (type_code t)) (\<lambda>p.
      rbind (page_SetInt p txNumPos tx) (\<lambda>p.
      rbind (page_SetString p fileNamePos (File block)) (\<lambda>p.
      rbind (page_SetInt p blockNumPos (BlockNumber block)) (\<lambda>p.
      page_SetInt p offsetPos off))))))"

definition value_pos :: "string \<Rightarrow> int" where
  "value_pos fileName = IntSize + IntSize + MaxLength (int (length fileName)) + IntSize + IntSize"

definition SetInt_bytes :: "int \<Rightarrow> block_id \<Rightarrow> int \<Rightarrow> int \<Rightarrow> byte list res" where
  "SetInt_bytes tx block off val =
     (let valuePos = value_pos (File block) in
      rbind (write_header SetInt tx block off (valuePos + IntSize)) (\<lambda>p. page_SetInt p valuePos val))"

definition SetString_bytes :: "int \<Rightarrow> block_id \<Rightarrow> int \<Rightarrow> string \<Rightarrow> byte list res" where
  "SetString_bytes tx block off val =
     (let valuePos = value_pos (File block) in
      rbind (write_header SetString tx block off (valuePos + MaxLength (int (length val))))
        (\<lambda>p. page_SetString p valuePos val))"

definition SetBool_bytes :: "int \<Rightarrow> block_id \<Rightarrow> int \<Rightarrow> bool \<Rightarrow> byte list res" where
  "SetBool_bytes tx block off val =
     (let valuePos = value_pos (File block) in
      rbind (write_header SetBool tx block off (valuePos + 1)) (\<lambda>p. page_SetBool p valuePos val))"

definition SetLong_bytes :: "int \<Rightarrow> block_id \<Rightarrow> int \<Rightarrow> 64 word \<Rightarrow> byte list res" where
  "SetLong_bytes tx block off val =
     (let valuePos = value_pos (File block) in
      rbind (write_header SetLong tx block off (valuePos + 8)) (\<lambda>p. page_SetLong p valuePos val))"

definition SetShort_bytes :: "int \<Rightarrow> block_id \<Rightarrow> int \<Rightarrow> 16 word \<Rightarrow> byte list res" where
  "SetShort_bytes tx block off val =
     (let valuePos = value_pos (File block) in
      rbind (write_header SetShort tx block off (valuePos + 2)) (\<lambda>p. page_SetShort p valuePos val))"

definition SetDate_bytes :: "int \<Rightarrow> block_id \<Rightarrow> int \<Rightarrow> gotime \<Rightarrow> byte list res" where
  "SetDate_bytes tx block off val =
     (let valuePos = value_pos (File block) in
      rbind (write_header SetDate tx block off (valuePos + 8)) (\<lambda>p. page_SetDate p valuePos val))"

text \<open>The bytes a record is written as.\<close>

fun record_bytes :: "log_record \<Rightarrow> byte list res" where
  "record_bytes CheckpointRecord = Checkpoint_bytes"
| "record_bytes (StartRecord tx) = tx_bytes Start tx"
| "record_bytes (CommitRecord tx) = tx_bytes Commit tx"
| "record_bytes (RollbackRecord tx) = tx_bytes Rollback tx"
| "record_bytes (SetIntRecord tx b off v) = SetInt_bytes tx b off v"
| "record_bytes (SetStringRecord tx b off v) = SetString_bytes tx b off v"
| "record_bytes (SetBoolRecord tx b off v) = SetBool_bytes tx b off v"
| "record_bytes (SetLongRecord tx b off v) = SetLong_bytes tx b off v"
| "record_bytes (SetShortRecord tx b off v) = SetShort_bytes tx b off v"
| "record_bytes (SetDateRecord tx b off v) = SetDate_bytes tx b off v"

definition write_record :: "log_record \<Rightarrow> ('z log_state_scheme, int) go" where
  "write_record r = bnd (lift_res (record_bytes r)) lm_Append"

definition WriteCheckpointToLog :: "('z log_state_scheme, int) go" where
  "WriteCheckpointToLog = write_record CheckpointRecord"

definition WriteStartToLog :: "int \<Rightarrow> ('z log_state_scheme, int) go" where
  "WriteStartToLog tx = write_record (StartRecord tx)"

definition WriteCommitToLog :: "int \<Rightarrow> ('z log_state_scheme, int) go" where
  "WriteCommitToLog tx = write_record (CommitRecord tx)"

definition WriteRollbackToLog :: "int \<Rightarrow> ('z log_state_scheme, int) go" where
  "WriteRollbackToLog tx = write_record (RollbackRecord tx)"

definition WriteSetIntToLog :: "int \<Rightarrow> block_id \<Rightarrow> int \<Rightarrow> int \<Rightarrow> ('z log_state_scheme, int) go" where
  "WriteSetIntToLog tx b off v = write_record (SetIntRecord tx b off v)"

definition WriteSetStringToLog ::
  "int \<Rightarrow> block_id \<Rightarrow> int \<Rightarrow> string \<Rightarrow> ('z log_state_scheme, int) go" where
  "WriteSetStringToLog tx b off v = write_record (SetStringRecord tx b off v)"

definition WriteSetBoolToLog :: "int \<Rightarrow> block_id \<Rightarrow> int \<Rightarrow> bool \<Rightarrow> ('z log_state_scheme, int) go" where
  "WriteSetBoolToLog tx b off v = write_record (SetBoolRecord tx b off v)"

definition WriteSetLongToLog ::
  "int \<Rightarrow> block_id \<Rightarrow> int \<Rightarrow> 64 word \<Rightarrow> ('z log_state_scheme, int) go" where
  "WriteSetLongToLog tx b off v = write_record (SetLongRecord tx b off v)"

definition WriteSetShortToLog ::
  "int \<Rightarrow> block_id \<Rightarrow> int \<Rightarrow> 16 word \<Rightarrow> ('z log_state_scheme, int) go" where
  "WriteSetShortToLog tx b off v = write_record (SetShortRecord tx b off v)"

definition WriteSetDateToLog ::
  "int \<Rightarrow> block_id \<Rightarrow> int \<Rightarrow> gotime \<Rightarrow> ('z log_state_scheme, int) go" where
  "WriteSetDateToLog tx b off v = write_record (SetDateRecord tx b off v)"

lemmas Write_defs = WriteCheckpointToLog_def WriteStartToLog_def WriteCommitToLog_def
  WriteRollbackToLog_def WriteSetIntToLog_def WriteSetStringToLog_def WriteSetBoolToLog_def
  WriteSetLongToLog_def WriteSetShortToLog_def WriteSetDateToLog_def

section \<open>Reading records\<close>

definition NewStartRecord :: "page \<Rightarrow> log_record res" where
  "NewStartRecord p = rbind (page_GetInt p (0 + IntSize)) (\<lambda>tx. Inr (StartRecord tx))"

definition NewCommitRecord :: "page \<Rightarrow> log_record res" where
  "NewCommitRecord p = rbind (page_GetInt p (0 + IntSize)) (\<lambda>tx. Inr (CommitRecord tx))"

definition NewRollbackRecord :: "page \<Rightarrow> log_record res" where
  "NewRollbackRecord p = rbind (page_GetInt p (0 * IntSize)) (\<lambda>tx. Inr (RollbackRecord tx))"

text \<open>Transaction, block, offset and the position of the value.\<close>

definition read_header :: "page \<Rightarrow> (int \<times> block_id \<times> int \<times> int) res" where
  "read_header p =
     (let txNumPos = 0 + IntSize; fileNamePos = txNumPos + IntSize in
      rbind (page_GetInt p txNumPos) (\<lambda>tx.
      rbind (page_GetString p fileNamePos) (\<lambda>fileName.
      let blockNumPos = fileNamePos + MaxLength (int (length fileName));
          offsetPos = blockNumPos + IntSize in
      rbind (page_GetInt p blockNumPos) (\<lambda>blockNum.
      rbind (page_GetInt p offsetPos) (\<lambda>off.
      Inr (tx, \<lparr>File = fileName, BlockNumber = blockNum\<rparr>, off, offsetPos + IntSize))))))"

definition NewSetIntRecord :: "page \<Rightarrow> log_record res" where
  "NewSetIntRecord p = rbind (read_header p) (\<lambda>(tx, b, off, vp).
     rbind (page_GetInt p vp) (\<lambda>v. Inr (SetIntRecord tx b off v)))"

definition NewSetStringRecord :: "page \<Rightarrow> log_record res" where
  "NewSetStringRecord p = rbind (read_header p) (\<lambda>(tx, b, off, vp).
     rbind (page_GetString p vp) (\<lambda>v. Inr (SetStringRecord tx b off v)))"

definition NewSetBoolRecord :: "page \<Rightarrow> log_record res" where
  "NewSetBoolRecord p = rbind (read_header p) (\<lambda>(tx, b, off, vp).
     rbind (page_GetBool p vp) (\<lambda>v. Inr (SetBoolRecord tx b off v)))"

definition NewSetLongRecord :: "page \<Rightarrow> log_record res" where
  "NewSetLongRecord p = rbind (read_header p) (\<lambda>(tx, b, off, vp).
     rbind (page_GetLong p vp) (\<lambda>v. Inr (SetLongRecord tx b off v)))"

definition NewSetShortRecord :: "page \<Rightarrow> log_record res" where
  "NewSetShortRecord p = rbind (read_header p) (\<lambda>(tx, b, off, vp).
     rbind (page_GetShort p vp) (\<lambda>v. Inr (SetShortRecord tx b off v)))"

definition NewSetDateRecord :: "page \<Rightarrow> log_record res" where
  "NewSetDateRecord p = rbind (read_header p) (\<lambda>(tx, b, off, vp).
     rbind (page_GetDate p vp) (\<lambda>v. Inr (SetDateRecord tx b off v)))"

definition CreateLogRecord :: "byte list \<Rightarrow> log_record res" where
  "CreateLogRecord p =
     rbind (page_GetInt p 0) (\<lambda>code.
     rbind (FromCode code) (\<lambda>t. case t of
         Checkpoint \<Rightarrow> Inr CheckpointRecord
       | Start \<Rightarrow> NewStartRecord p
       | Commit \<Rightarrow> NewCommitRecord p
       | Rollback \<Rightarrow> NewRollbackRecord p
       | SetInt \<Rightarrow> NewSetIntRecord p
       | SetString \<Rightarrow> NewSetStringRecord p
       | SetBool \<Rightarrow> NewSetBoolRecord p
       | SetLong \<Rightarrow> NewSetLongRecord p
       | SetShort \<Rightarrow> NewSetShortRecord p
       | SetDate \<Rightarrow> NewSetDateRecord p))"

section \<open>Fields of a page\<close>

definition has :: "page \<Rightarrow> int \<Rightarrow> byte list \<Rightarrow> bool" where
  "has p off e \<longleftrightarrow> 0 \<le> off \<and> nat off + length e \<le> length p \<and> bslice (nat off) (length e) p = e"

lemma has_new:
  "0 \<le> off \<Longrightarrow> nat off + length e \<le> length p \<Longrightarrow> has (bsplice (nat off) e p) off e"
  by (simp add: has_def bslice_bsplice_same)

lemma has_kept:
  assumes "has p a f" and "0 \<le> off" and "nat off + length e \<le> length p"
    and "a + int (length f) \<le> off \<or> off + int (length e) \<le> a"
  shows "has (bsplice (nat off) e p) a f"
proof -
  have "nat a + length f \<le> nat off \<or> nat off + length e \<le> nat a"
    using assms(1,2,4) by (auto simp: has_def)
  then show ?thesis using assms(1,3) by (simp add: has_def bslice_bsplice_other)
qed

lemmas has_get = int_codec.get_enc string_codec.get_enc bool_codec.get_enc long_codec.get_enc
  short_codec.get_enc date_codec.get_enc

lemma has_read:
  "has p off (enc_int n) \<Longrightarrow> int32_range n \<Longrightarrow> page_GetInt p off = Inr n"
  "has p off (enc_string s) \<Longrightarrow> storable_string s \<Longrightarrow> page_GetString p off = Inr s"
  "has p off (enc_bool b) \<Longrightarrow> page_GetBool p off = Inr b"
  "has p off (enc_long l) \<Longrightarrow> page_GetLong p off = Inr l"
  "has p off (enc_short h) \<Longrightarrow> page_GetShort p off = Inr h"
  "has p off (enc_date d) \<Longrightarrow> local_time d \<Longrightarrow> page_GetDate p off = Inr d"
  by (auto simp: has_def intro!: has_get)

lemma page_SetInt_enc:
  "0 \<le> off \<Longrightarrow> nat off + 4 \<le> length p \<Longrightarrow> page_SetInt p off n = Inr (bsplice (nat off) (enc_int n) p)"
  by (auto simp: page_SetInt_def be_write_def enc_int_def)

section \<open>Reading back what was written\<close>

lemma write_header_spec:
  assumes f: "storable_string (File b)" and len: "value_pos (File b) \<le> len"
  obtains p where "write_header t tx b off len = Inr p" and "length p = nat len"
    and "has p 0 (enc_int (type_code t))" and "has p 4 (enc_int tx)" and "has p 8 (enc_string (File b))"
    and "has p (value_pos (File b) - 8) (enc_int (BlockNumber b))"
    and "has p (value_pos (File b) - 4) (enc_int off)"
proof -
  define n where "n = int (length (File b))"
  have vp: "value_pos (File b) = 20 + n * 4" and n: "0 \<le> n" and ln: "length (File b) = nat n"
    by (simp_all add: value_pos_def MaxLength_def IntSize_def n_def)
  have l0: "20 + n * 4 \<le> len" using len vp by simp
  then have nl: "20 + nat n * 4 \<le> nat len" and np: "nat (12 + n * 4) = 12 + nat n * 4"
    "nat (16 + n * 4) = 16 + nat n * 4"
    using n by linarith+
  let ?p0 = "replicate (nat len) (0 :: byte)"
  let ?p1 = "bsplice 0 (enc_int (type_code t)) ?p0"
  let ?p2 = "bsplice (nat 4) (enc_int tx) ?p1"
  let ?p3 = "bsplice (nat 8) (enc_string (File b)) ?p2"
  let ?p4 = "bsplice (nat (12 + n * 4)) (enc_int (BlockNumber b)) ?p3"
  let ?p5 = "bsplice (nat (16 + n * 4)) (enc_int off) ?p4"
  have L: "length ?p1 = nat len" "length ?p2 = nat len" "length ?p3 = nat len" "length ?p4 = nat len"
    "length ?p5 = nat len"
    using l0 nl np n by (simp_all add: ln)
  have e1: "page_SetInt ?p0 0 (type_code t) = Inr ?p1"
    using l0 nl np n by (subst page_SetInt_enc) simp_all
  have e2: "page_SetInt ?p1 4 tx = Inr ?p2"
    using l0 nl np n L by (subst page_SetInt_enc) simp_all
  have e3: "page_SetString ?p2 8 (File b) = Inr ?p3"
    using l0 nl np n L f by (subst string_codec.set_enc) (simp_all add: ln)
  have e4: "page_SetInt ?p3 (12 + n * 4) (BlockNumber b) = Inr ?p4"
    using l0 nl np n L by (subst page_SetInt_enc) (simp_all)
  have e5: "page_SetInt ?p4 (16 + n * 4) off = Inr ?p5"
    using l0 nl np n L by (subst page_SetInt_enc) (simp_all)
  have run: "write_header t tx b off len = Inr ?p5"
    using l0 nl np n e1 e2 e3 e4 e5
    by (simp add: write_header_def Let_def NewPageOfSize_def MaxLength_def IntSize_def add.commute
        n_def [symmetric])
  have a1: "has ?p1 0 (enc_int (type_code t))"
    using has_new [of 0 "enc_int (type_code t)" ?p0] l0 nl np n by simp
  have a2: "has ?p2 0 (enc_int (type_code t))" "has ?p2 4 (enc_int tx)"
    using has_kept [OF a1, of 4 "enc_int tx"] has_new [of 4 "enc_int tx" ?p1] L l0 nl np n by auto
  have b3: "nat 8 + length (enc_string (File b)) \<le> length ?p2" using L l0 nl np n by (simp add: ln)
  have a3: "has ?p3 0 (enc_int (type_code t))" "has ?p3 4 (enc_int tx)" "has ?p3 8 (enc_string (File b))"
    using has_kept [OF a2(1) _ b3] has_kept [OF a2(2) _ b3] has_new [OF _ b3] by auto
  have b4: "nat (12 + n * 4) + length (enc_int (BlockNumber b)) \<le> length ?p3" "0 \<le> 12 + n * 4"
    using L l0 nl np n by simp_all
  have a4: "has ?p4 0 (enc_int (type_code t))" "has ?p4 4 (enc_int tx)" "has ?p4 8 (enc_string (File b))"
    "has ?p4 (12 + n * 4) (enc_int (BlockNumber b))"
    using has_kept [OF a3(1) b4(2,1)] has_kept [OF a3(2) b4(2,1)] has_kept [OF a3(3) b4(2,1)]
      has_new [OF b4(2,1)] n by (simp_all add: ln)
  have b5: "nat (16 + n * 4) + length (enc_int off) \<le> length ?p4" "0 \<le> 16 + n * 4"
    using L l0 nl np n by simp_all
  have a5: "has ?p5 0 (enc_int (type_code t))" "has ?p5 4 (enc_int tx)" "has ?p5 8 (enc_string (File b))"
    "has ?p5 (12 + n * 4) (enc_int (BlockNumber b))" "has ?p5 (16 + n * 4) (enc_int off)"
    using has_kept [OF a4(1) b5(2,1)] has_kept [OF a4(2) b5(2,1)] has_kept [OF a4(3) b5(2,1)]
      has_kept [OF a4(4) b5(2,1)] has_new [OF b5(2,1)] n by (simp_all add: ln)
  show thesis
    using a5 L(5) run by (intro that [of ?p5]) (simp_all add: vp add.commute)
qed

definition storable_header :: "int \<Rightarrow> block_id \<Rightarrow> int \<Rightarrow> bool" where
  "storable_header tx b off \<longleftrightarrow> int32_range tx \<and> storable_string (File b) \<and>
     int32_range (BlockNumber b) \<and> int32_range off"

lemma read_header_spec:
  assumes "storable_header tx b off" and "has p 4 (enc_int tx)" and "has p 8 (enc_string (File b))"
    and "has p (value_pos (File b) - 8) (enc_int (BlockNumber b))"
    and "has p (value_pos (File b) - 4) (enc_int off)"
  shows "read_header p = Inr (tx, b, off, value_pos (File b))"
proof -
  define n where "n = int (length (File b))"
  have vp: "value_pos (File b) = 20 + n * 4"
    by (simp add: value_pos_def MaxLength_def IntSize_def n_def)
  have "page_GetInt p 4 = Inr tx" "page_GetString p 8 = Inr (File b)"
    "page_GetInt p (12 + n * 4) = Inr (BlockNumber b)" "page_GetInt p (16 + n * 4) = Inr off"
    using assms has_read(1)[of p] has_read(2)[of p]
    by (simp_all add: storable_header_def vp add.commute)
  then show ?thesis
    by (simp add: read_header_def Let_def IntSize_def MaxLength_def n_def [symmetric] vp add.commute)
qed

context page_codec
begin

text \<open>A header followed by one value of any type.\<close>

lemma update_record:
  assumes h: "storable_header tx b off" and ok: "ok v"
    and len: "value_pos (File b) + int (length (enc v)) \<le> len"
  obtains p where "rbind (write_header t tx b off len) (\<lambda>p. set p (value_pos (File b)) v) = Inr p"
    and "length p = nat len" and "page_GetInt p 0 = Inr (type_code t)"
    and "read_header p = Inr (tx, b, off, value_pos (File b))"
    and "get p (value_pos (File b)) = Inr v"
proof -
  let ?vp = "value_pos (File b)"
  have f: "storable_string (File b)" using h by (simp add: storable_header_def)
  have le: "?vp \<le> len" using len by simp
  obtain q where q: "write_header t tx b off len = Inr q" "length q = nat len"
    "has q 0 (enc_int (type_code t))" "has q 4 (enc_int tx)" "has q 8 (enc_string (File b))"
    "has q (?vp - 8) (enc_int (BlockNumber b))" "has q (?vp - 4) (enc_int off)"
    by (rule write_header_spec [OF f le])
  have vp: "20 \<le> ?vp" "12 + int (length (File b)) \<le> ?vp"
    by (simp_all add: value_pos_def MaxLength_def IntSize_def)
  have fit: "0 \<le> ?vp" "nat ?vp + length (enc v) \<le> length q" using vp len q(2) by simp_all
  let ?p = "bsplice (nat ?vp) (enc v) q"
  have k: "has ?p a e" if "has q a e" "a + int (length e) \<le> ?vp" for a e
    using has_kept [OF that(1) fit] that(2) by simp
  have "has ?p 0 (enc_int (type_code t))" "has ?p 4 (enc_int tx)" "has ?p 8 (enc_string (File b))"
    "has ?p (?vp - 8) (enc_int (BlockNumber b))" "has ?p (?vp - 4) (enc_int off)"
    using q vp by (simp_all add: k)
  moreover have "int32_range (type_code t)" by (cases t) (simp_all add: int32_range_def)
  ultimately have "page_GetInt ?p 0 = Inr (type_code t)" "read_header ?p = Inr (tx, b, off, ?vp)"
    using has_read(1) read_header_spec [OF h] by simp_all
  moreover have "set q ?vp v = Inr ?p" using ok fit by (rule set_enc)
  moreover have "get ?p ?vp = Inr v"
    using ok fit by (intro get_enc) (simp_all add: bslice_bsplice_same)
  ultimately show thesis
    using q(1,2) fit by (intro that [of ?p]) simp_all
qed

end

fun storable_record :: "log_record \<Rightarrow> bool" where
  "storable_record CheckpointRecord \<longleftrightarrow> True"
| "storable_record (StartRecord tx) \<longleftrightarrow> int32_range tx"
| "storable_record (CommitRecord tx) \<longleftrightarrow> int32_range tx"
| "storable_record (RollbackRecord tx) \<longleftrightarrow> int32_range tx"
| "storable_record (SetIntRecord tx b off v) \<longleftrightarrow> storable_header tx b off \<and> int32_range v"
| "storable_record (SetStringRecord tx b off v) \<longleftrightarrow> storable_header tx b off \<and> storable_string v"
| "storable_record (SetBoolRecord tx b off v) \<longleftrightarrow> storable_header tx b off"
| "storable_record (SetLongRecord tx b off v) \<longleftrightarrow> storable_header tx b off"
| "storable_record (SetShortRecord tx b off v) \<longleftrightarrow> storable_header tx b off"
| "storable_record (SetDateRecord tx b off v) \<longleftrightarrow> storable_header tx b off \<and> local_time v"

text \<open>What a written record is read as.\<close>

fun read_as :: "log_record \<Rightarrow> log_record" where
  "read_as (RollbackRecord tx) = RollbackRecord (type_code Rollback)"
| "read_as r = r"

text \<open>The number of bytes of a record.\<close>

fun record_size :: "log_record \<Rightarrow> int" where
  "record_size CheckpointRecord = 4"
| "record_size (StartRecord _) = 8"
| "record_size (CommitRecord _) = 8"
| "record_size (RollbackRecord _) = 8"
| "record_size (SetIntRecord _ b _ _) = value_pos (File b) + 4"
| "record_size (SetStringRecord _ b _ v) = value_pos (File b) + MaxLength (int (length v))"
| "record_size (SetBoolRecord _ b _ _) = value_pos (File b) + 1"
| "record_size (SetLongRecord _ b _ _) = value_pos (File b) + 8"
| "record_size (SetShortRecord _ b _ _) = value_pos (File b) + 2"
| "record_size (SetDateRecord _ b _ _) = value_pos (File b) + 8"

lemma value_pos_nonneg [simp]: "0 \<le> value_pos f" "0 \<le> MaxLength (int n)"
  by (simp_all add: value_pos_def MaxLength_def IntSize_def)

lemma record_size_nonneg [simp]: "0 \<le> record_size r"
  by (cases r) (simp_all add: add_nonneg_nonneg)

lemma tx_bytes_spec:
  obtains p where "tx_bytes t tx = Inr p" and "length p = 8" and "has p 0 (enc_int (type_code t))"
    and "has p 4 (enc_int tx)"
proof -
  let ?p1 = "bsplice 0 (enc_int (type_code t)) (replicate 8 (0 :: byte))"
  let ?p2 = "bsplice 4 (enc_int tx) ?p1"
  have "tx_bytes t tx = Inr ?p2"
    by (simp add: tx_bytes_def NewPageOfSize_def IntSize_def page_SetInt_enc)
  moreover have "has ?p1 0 (enc_int (type_code t))"
    using has_new [of 0 "enc_int (type_code t)" "replicate 8 0"] by simp
  then have "has ?p2 0 (enc_int (type_code t))" and "has ?p2 4 (enc_int tx)"
    using has_kept [of ?p1 0 _ 4 "enc_int tx"] has_new [of 4 "enc_int tx" ?p1] by simp_all
  ultimately show thesis using that [of ?p2] by simp
qed

lemma type_code_int32 [simp]: "int32_range (type_code t)"
  by (cases t) (simp_all add: int32_range_def)

lemma tx_record_spec:
  obtains p where "tx_bytes t tx = Inr p" and "length p = 8" and "page_GetInt p 0 = Inr (type_code t)"
    and "int32_range tx \<Longrightarrow> page_GetInt p 4 = Inr tx"
proof -
  obtain p where p: "tx_bytes t tx = Inr p" "length p = 8" "has p 0 (enc_int (type_code t))"
    "has p 4 (enc_int tx)"
    by (rule tx_bytes_spec)
  have "page_GetInt p 0 = Inr (type_code t)" using p(3) by (rule has_read(1)) simp
  moreover have "page_GetInt p 4 = Inr tx" if "int32_range tx" using p(4) that by (rule has_read(1))
  ultimately show thesis using p that by blast
qed

lemma record_bytes_spec:
  assumes "storable_record r"
  obtains bs where "record_bytes r = Inr bs" and "int (length bs) = record_size r"
    and "CreateLogRecord bs = Inr (read_as r)"
proof (cases r)
  case CheckpointRecord
  let ?p = "bsplice 0 (enc_int 0) (replicate 4 (0 :: byte))"
  have "page_GetInt ?p 0 = Inr (type_code Checkpoint)"
    using has_new [of 0 "enc_int 0" "replicate 4 0"] has_read(1) [of ?p 0 0]
    by (simp add: int32_range_def)
  then have "CreateLogRecord ?p = Inr CheckpointRecord"
    by (simp add: CreateLogRecord_def FromCode_def)
  then show thesis
    using CheckpointRecord that [of ?p]
    by (simp add: Checkpoint_bytes_def NewPageOfSize_def page_SetInt_enc)
next
  case (StartRecord tx)
  obtain p where "tx_bytes Start tx = Inr p" "length p = 8" "page_GetInt p 0 = Inr (type_code Start)"
    "int32_range tx \<Longrightarrow> page_GetInt p 4 = Inr tx"
    by (rule tx_record_spec [of Start tx]) blast
  then show thesis using StartRecord assms that [of p]
    by (simp add: CreateLogRecord_def FromCode_def NewStartRecord_def IntSize_def)
next
  case (CommitRecord tx)
  obtain p where "tx_bytes Commit tx = Inr p" "length p = 8" "page_GetInt p 0 = Inr (type_code Commit)"
    "int32_range tx \<Longrightarrow> page_GetInt p 4 = Inr tx"
    by (rule tx_record_spec [of Commit tx]) blast
  then show thesis using CommitRecord assms that [of p]
    by (simp add: CreateLogRecord_def FromCode_def NewCommitRecord_def IntSize_def)
next
  case (RollbackRecord tx)
  obtain p where "tx_bytes Rollback tx = Inr p" "length p = 8"
    "page_GetInt p 0 = Inr (type_code Rollback)"
    by (rule tx_record_spec [of Rollback tx]) blast
  then show thesis using RollbackRecord that [of p]
    by (simp add: CreateLogRecord_def FromCode_def NewRollbackRecord_def)
next
  case (SetIntRecord tx b off v)
  obtain p where "SetInt_bytes tx b off v = Inr p" "length p = nat (record_size r)"
    "page_GetInt p 0 = Inr (type_code SetInt)"
    "read_header p = Inr (tx, b, off, value_pos (File b))" "page_GetInt p (value_pos (File b)) = Inr v"
    by (rule int_codec.update_record [of tx b off v "record_size r" SetInt])
      (use assms SetIntRecord in \<open>auto simp: SetInt_bytes_def Let_def IntSize_def\<close>)
  then show thesis using SetIntRecord that [of p] record_size_nonneg [of r]
    by (simp add: CreateLogRecord_def FromCode_def NewSetIntRecord_def)
next
  case (SetStringRecord tx b off v)
  obtain p where "SetString_bytes tx b off v = Inr p" "length p = nat (record_size r)"
    "page_GetInt p 0 = Inr (type_code SetString)"
    "read_header p = Inr (tx, b, off, value_pos (File b))" "page_GetString p (value_pos (File b)) = Inr v"
    by (rule string_codec.update_record [of tx b off v "record_size r" SetString])
      (use assms SetStringRecord in \<open>auto simp: SetString_bytes_def Let_def IntSize_def MaxLength_def\<close>)
  then show thesis using SetStringRecord that [of p] record_size_nonneg [of r]
    by (simp add: CreateLogRecord_def FromCode_def NewSetStringRecord_def)
next
  case (SetBoolRecord tx b off v)
  obtain p where "SetBool_bytes tx b off v = Inr p" "length p = nat (record_size r)"
    "page_GetInt p 0 = Inr (type_code SetBool)"
    "read_header p = Inr (tx, b, off, value_pos (File b))" "page_GetBool p (value_pos (File b)) = Inr v"
    by (rule bool_codec.update_record [of tx b off v "record_size r" SetBool])
      (use assms SetBoolRecord in \<open>auto simp: SetBool_bytes_def Let_def\<close>)
  then show thesis using SetBoolRecord that [of p] record_size_nonneg [of r]
    by (simp add: CreateLogRecord_def FromCode_def NewSetBoolRecord_def)
next
  case (SetLongRecord tx b off v)
  obtain p where "SetLong_bytes tx b off v = Inr p" "length p = nat (record_size r)"
    "page_GetInt p 0 = Inr (type_code SetLong)"
    "read_header p = Inr (tx, b, off, value_pos (File b))" "page_GetLong p (value_pos (File b)) = Inr v"
    by (rule long_codec.update_record [of tx b off v "record_size r" SetLong])
      (use assms SetLongRecord in \<open>auto simp: SetLong_bytes_def Let_def\<close>)
  then show thesis using SetLongRecord that [of p] record_size_nonneg [of r]
    by (simp add: CreateLogRecord_def FromCode_def NewSetLongRecord_def)
next
  case (SetShortRecord tx b off v)
  obtain p where "SetShort_bytes tx b off v = Inr p" "length p = nat (record_size r)"
    "page_GetInt p 0 = Inr (type_code SetShort)"
    "read_header p = Inr (tx, b, off, value_pos (File b))" "page_GetShort p (value_pos (File b)) = Inr v"
    by (rule short_codec.update_record [of tx b off v "record_size r" SetShort])
      (use assms SetShortRecord in \<open>auto simp: SetShort_bytes_def Let_def\<close>)
  then show thesis using SetShortRecord that [of p] record_size_nonneg [of r]
    by (simp add: CreateLogRecord_def FromCode_def NewSetShortRecord_def)
next
  case (SetDateRecord tx b off v)
  obtain p where "SetDate_bytes tx b off v = Inr p" "length p = nat (record_size r)"
    "page_GetInt p 0 = Inr (type_code SetDate)"
    "read_header p = Inr (tx, b, off, value_pos (File b))" "page_GetDate p (value_pos (File b)) = Inr v"
    by (rule date_codec.update_record [of tx b off v "record_size r" SetDate])
      (use assms SetDateRecord in \<open>auto simp: SetDate_bytes_def Let_def\<close>)
  then show thesis using SetDateRecord that [of p] record_size_nonneg [of r]
    by (simp add: CreateLogRecord_def FromCode_def NewSetDateRecord_def)
qed

text \<open>Logging a record that fits a log block.\<close>

lemma write_record_spec:
  assumes h: "log_holds s l" and r: "storable_record r" and fit: "record_size r + 8 \<le> blockSize s"
  obtains s' bs where "write_record r s = (Inr (latestLSN s + 1), s')" and "log_holds s' (bs # l)"
    and "CreateLogRecord bs = Inr (read_as r)" and "lm_frame s s'" and "data_frame s s'"
    and "latestLSN s' = latestLSN s + 1"
proof -
  obtain bs where bs: "record_bytes r = Inr bs" "int (length bs) = record_size r"
    "CreateLogRecord bs = Inr (read_as r)"
    using r by (rule record_bytes_spec)
  have f: "log_fits s bs" using bs(2) fit by (simp add: log_fits_def)
  obtain s' where "lm_Append bs s = (Inr (latestLSN s + 1), s')" "log_holds s' (bs # l)"
    "lm_frame s s'" "data_frame s s'" "latestLSN s' = latestLSN s + 1"
    by (rule lm_Append_holds [OF h f]) blast
  then show thesis using bs by (intro that [of s' bs]) (simp_all add: write_record_def bnd_simps)
qed

section \<open>Properties of log records\<close>

text \<open>C22. Every storable record other than a rollback record is read back from its bytes exactly as
  it was written: kind, transaction, block, offset and old value.\<close>

theorem log_record_roundtrip:
  assumes "storable_record r" and "record_Op r \<noteq> Rollback"
  shows "\<exists>bs. record_bytes r = Inr bs \<and> CreateLogRecord bs = Inr r"
proof -
  have "read_as r = r" using assms(2) by (cases r) simp_all
  then show ?thesis using record_bytes_spec [OF assms(1)] by metis
qed

lemma log_record_roundtrip_witness:
  "\<exists>bs. record_bytes (SetStringRecord 7 (NewBlockId ''t.tbl'' 3) 40 ''old'') = Inr bs \<and>
    CreateLogRecord bs = Inr (SetStringRecord 7 (NewBlockId ''t.tbl'' 3) 40 ''old'')"
proof (rule log_record_roundtrip)
  have "storable_string ''t.tbl''" "storable_string ''old''"
    by (simp_all add: storable_string_def utf8_valid_ascii ascii_def)
  then show "storable_record (SetStringRecord 7 (NewBlockId ''t.tbl'' 3) 40 ''old'')"
    by (simp add: storable_header_def NewBlockId_def int32_range_def)
qed simp

text \<open>C36. A rollback record does not keep its transaction number: whatever transaction is rolled
  back, reading the record gives transaction 3, the operation code, because the number is read from
  offset \<open>operationPos * IntSize\<close> (zero).\<close>

theorem rollback_record_loses_tx:
  "\<exists>bs. record_bytes (RollbackRecord tx) = Inr bs \<and> CreateLogRecord bs = Inr (RollbackRecord 3)"
proof -
  obtain p where "tx_bytes Rollback tx = Inr p" "page_GetInt p 0 = Inr (type_code Rollback)"
    by (rule tx_record_spec [of Rollback tx]) blast
  then show ?thesis by (simp add: CreateLogRecord_def FromCode_def NewRollbackRecord_def)
qed

end
