(* ===== verification/LockTable.thy ===== *)
theory LockTable
  imports FileMgr
begin

text \<open>
  \<^verbatim>\<open>tx/concurrency/lock_table.go\<close> and \<^verbatim>\<open>tx/concurrency/manager.go\<close>: two-phase block locks.

  The lock table maps a block to the number of shared locks on it, or to -1 when it is locked
  exclusively; each transaction's manager records the kind of lock it holds on each block. A
  blocking call takes the list of state changes that the wake-ups of its condition variable bring,
  and times out when the list is used up. \<open>lock_step\<close> is the interleaving of the calls' atomic
  sections by any number of transactions, and \<open>lock_inv\<close> its invariant.
\<close>

section \<open>The lock table\<close>

type_synonym lock_table = "block_id \<rightharpoonup> int"

definition getLockVal :: "lock_table \<Rightarrow> block_id \<Rightarrow> int" where
  "getLockVal lt b = (case lt b of None \<Rightarrow> 0 | Some v \<Rightarrow> v)"

definition hasXLock :: "lock_table \<Rightarrow> block_id \<Rightarrow> bool" where
  "hasXLock lt b \<longleftrightarrow> getLockVal lt b < 0"

definition hasOtherSLocks :: "lock_table \<Rightarrow> block_id \<Rightarrow> bool" where
  "hasOtherSLocks lt b \<longleftrightarrow> getLockVal lt b > 1"

definition NewLockTable :: lock_table where
  "NewLockTable = Map.empty"

fun lt_SLock :: "(lock_table \<Rightarrow> lock_table) list \<Rightarrow> block_id \<Rightarrow> (lock_table, unit) go" where
  "lt_SLock [] b lt =
     (if \<not> hasXLock lt b then (Inr (), lt(b \<mapsto> getLockVal lt b + 1)) else (Err ESLockAbort, lt))"
| "lt_SLock (w # ws) b lt =
     (if \<not> hasXLock lt b then (Inr (), lt(b \<mapsto> getLockVal lt b + 1)) else lt_SLock ws b (w lt))"

fun lt_XLock :: "(lock_table \<Rightarrow> lock_table) list \<Rightarrow> block_id \<Rightarrow> (lock_table, unit) go" where
  "lt_XLock [] b lt =
     (if \<not> hasOtherSLocks lt b then (Inr (), lt(b \<mapsto> - 1)) else (Err EXLockAbort, lt))"
| "lt_XLock (w # ws) b lt =
     (if \<not> hasOtherSLocks lt b then (Inr (), lt(b \<mapsto> - 1)) else lt_XLock ws b (w lt))"

text \<open>The result tells whether the waiting transactions are notified.\<close>

definition lt_Unlock :: "block_id \<Rightarrow> (lock_table, bool) go" where
  "lt_Unlock b lt =
     (let val = getLockVal lt b in
      if val > 1 then (Inr False, lt(b \<mapsto> val - 1)) else (Inr True, lt(b := None)))"

section \<open>A transaction's lock manager\<close>

type_synonym own_locks = "(block_id \<times> string) list"

definition cm_hasXLock :: "own_locks \<Rightarrow> block_id \<Rightarrow> bool" where
  "cm_hasXLock own b \<longleftrightarrow> map_of own b = Some ''x''"

definition cm_SLock ::
  "(lock_table \<Rightarrow> lock_table) list \<Rightarrow> block_id \<Rightarrow> (lock_table \<times> own_locks, unit) go" where
  "cm_SLock ws b = (\<lambda>(lt, own).
     if map_of own b = None then
       (case lt_SLock ws b lt of
          (Inl e, lt') \<Rightarrow> (Inl e, (lt', own))
        | (Inr _, lt') \<Rightarrow> (Inr (), (lt', AList.update b ''s'' own)))
     else (Inr (), (lt, own)))"

definition cm_upgrade ::
  "(lock_table \<Rightarrow> lock_table) list \<Rightarrow> block_id \<Rightarrow> (lock_table \<times> own_locks, unit) go" where
  "cm_upgrade ws b = (\<lambda>(lt, own).
     case lt_XLock ws b lt of
       (Inl e, lt') \<Rightarrow> (Inl e, (lt', own))
     | (Inr _, lt') \<Rightarrow> (Inr (), (lt', AList.update b ''x'' own)))"

definition cm_XLock :: "(lock_table \<Rightarrow> lock_table) list \<Rightarrow> (lock_table \<Rightarrow> lock_table) list \<Rightarrow>
  block_id \<Rightarrow> (lock_table \<times> own_locks, unit) go" where
  "cm_XLock ws ws' b = (\<lambda>(lt, own).
     if \<not> cm_hasXLock own b then bnd (cm_SLock ws b) (\<lambda>_. cm_upgrade ws' b) (lt, own)
     else (Inr (), (lt, own)))"

definition cm_Release :: "(lock_table \<times> own_locks, unit) go" where
  "cm_Release = (\<lambda>(lt, own).
     (Inr (), (foldl (\<lambda>lt b. snd (lt_Unlock b lt)) lt (map fst own), [])))"

section \<open>Interleaved transactions\<close>

text \<open>The system: the table, and each transaction's own locks. Each step is one atomic section of
  the lock table's mutex with the bookkeeping that follows it.\<close>

type_synonym lock_system = "lock_table \<times> (int \<Rightarrow> own_locks)"

inductive lock_step :: "lock_system \<Rightarrow> lock_system \<Rightarrow> bool" where
  s_grant: "map_of (own t) b = None \<Longrightarrow> lt_SLock [] b lt = (Inr (), lt') \<Longrightarrow>
    lock_step (lt, own) (lt', own(t := AList.update b ''s'' (own t)))"
| x_grant: "map_of (own t) b = Some ''s'' \<Longrightarrow> lt_XLock [] b lt = (Inr (), lt') \<Longrightarrow>
    lock_step (lt, own) (lt', own(t := AList.update b ''x'' (own t)))"
| unlock: "map_of (own t) b \<noteq> None \<Longrightarrow> lt_Unlock b lt = (r, lt') \<Longrightarrow>
    lock_step (lt, own) (lt', own(t := AList.delete b (own t)))"

inductive_cases lock_stepE: "lock_step s s'"

definition holders :: "(int \<Rightarrow> own_locks) \<Rightarrow> block_id \<Rightarrow> int set" where
  "holders own b = {t. map_of (own t) b \<noteq> None}"

definition block_lock_ok :: "lock_table \<Rightarrow> (int \<Rightarrow> own_locks) \<Rightarrow> block_id \<Rightarrow> bool" where
  "block_lock_ok lt own b \<longleftrightarrow> finite (holders own b) \<and>
     (\<forall>t \<in> holders own b. map_of (own t) b \<in> {Some ''s'', Some ''x''}) \<and>
     (if \<exists>t. map_of (own t) b = Some ''x''
      then lt b = Some (- 1) \<and> card (holders own b) = 1
      else lt b = (if holders own b = {} then None else Some (int (card (holders own b)))))"

definition lock_inv :: "lock_system \<Rightarrow> bool" where
  "lock_inv s \<longleftrightarrow> (\<forall>b. block_lock_ok (fst s) (snd s) b)"

definition no_locks :: lock_system where
  "no_locks = (NewLockTable, \<lambda>_. [])"

lemma lock_inv_init: "lock_inv no_locks"
  by (simp add: lock_inv_def no_locks_def block_lock_ok_def holders_def NewLockTable_def)

text \<open>Only the block of the step changes.\<close>

lemma block_lock_ok_other:
  assumes "\<And>t. map_of (own' t) b = map_of (own t) b" and "lt' b = lt b"
  shows "block_lock_ok lt' own' b = block_lock_ok lt own b"
  using assms by (simp add: block_lock_ok_def holders_def)

lemma holders_add: "holders (own(t := AList.update b v (own t))) b = insert t (holders own b)"
  by (auto simp: holders_def)

lemma holders_del: "holders (own(t := AList.delete b (own t))) b = holders own b - {t}"
  by (auto simp: holders_def)

lemma block_lock_val:
  assumes "block_lock_ok lt own b"
  shows "getLockVal lt b =
    (if \<exists>t. map_of (own t) b = Some ''x'' then - 1 else int (card (holders own b)))"
  using assms by (auto simp: block_lock_ok_def getLockVal_def)

lemma exclusive_alone:
  assumes "block_lock_ok lt own b" and "map_of (own t) b = Some ''x''"
  shows "holders own b = {t}"
proof -
  have "card (holders own b) = 1" using assms by (auto simp: block_lock_ok_def split: if_splits)
  moreover have "t \<in> holders own b" using assms(2) by (simp add: holders_def)
  ultimately show ?thesis by (auto simp: card_1_singleton_iff)
qed

lemma lock_step_inv:
  assumes "lock_step s s'" and "lock_inv s"
  shows "lock_inv s'"
  using assms
proof (cases rule: lock_step.cases)
  case (s_grant own t b lt lt')
  have ok: "block_lock_ok lt own b" using assms(2) s_grant by (simp add: lock_inv_def)
  have nx: "\<not> (\<exists>t. map_of (own t) b = Some ''x'')" and lt': "lt' = lt(b \<mapsto> getLockVal lt b + 1)"
    using s_grant(4) block_lock_val [OF ok] by (auto simp: hasXLock_def split: if_splits)
  have t: "t \<notin> holders own b" using s_grant(3) by (simp add: holders_def)
  have "block_lock_ok lt' (own(t := AList.update b ''s'' (own t))) b"
    using ok nx t block_lock_val [OF ok]
    by (auto simp: block_lock_ok_def holders_add lt')
  moreover have "block_lock_ok lt' (own(t := AList.update b ''s'' (own t))) c" if "c \<noteq> b" for c
    using assms(2) s_grant that block_lock_ok_other [of "own(t := AList.update b ''s'' (own t))" c own lt' lt]
    by (simp add: lock_inv_def lt')
  ultimately have "block_lock_ok lt' (own(t := AList.update b ''s'' (own t))) c" for c
    by (cases "c = b") simp_all
  then show ?thesis using s_grant(2) by (simp add: lock_inv_def)
next
  case (x_grant own t b lt lt')
  have ok: "block_lock_ok lt own b" using assms(2) x_grant by (simp add: lock_inv_def)
  have t: "t \<in> holders own b" using x_grant(3) by (simp add: holders_def)
  have nx: "map_of (own t') b \<noteq> Some ''x''" for t'
    using exclusive_alone [OF ok, of t'] t x_grant(3) by auto
  have "getLockVal lt b \<le> 1" and lt': "lt' = lt(b \<mapsto> - 1)"
    using x_grant(4) by (auto simp: hasOtherSLocks_def split: if_splits)
  then have "card (holders own b) \<le> 1" using block_lock_val [OF ok] nx by simp
  moreover have "finite (holders own b)" using ok by (simp add: block_lock_ok_def)
  ultimately have "holders own b = {t}" using t by (auto simp: card_le_Suc0_iff_eq)
  then have "block_lock_ok lt' (own(t := AList.update b ''x'' (own t))) b"
    by (auto simp: block_lock_ok_def holders_add lt')
  moreover have "block_lock_ok lt' (own(t := AList.update b ''x'' (own t))) c" if "c \<noteq> b" for c
    using assms(2) x_grant that block_lock_ok_other [of "own(t := AList.update b ''x'' (own t))" c own lt' lt]
    by (simp add: lock_inv_def lt')
  ultimately have "block_lock_ok lt' (own(t := AList.update b ''x'' (own t))) c" for c
    by (cases "c = b") simp_all
  then show ?thesis using x_grant(2) by (simp add: lock_inv_def)
next
  case (unlock own t b lt r lt')
  have ok: "block_lock_ok lt own b" using assms(2) unlock by (simp add: lock_inv_def)
  have t: "t \<in> holders own b" using unlock(3) by (simp add: holders_def)
  have fin: "finite (holders own b)" using ok by (simp add: block_lock_ok_def)
  have lt': "lt' = (if getLockVal lt b > 1 then lt(b \<mapsto> getLockVal lt b - 1) else lt(b := None))"
    using unlock(4) by (auto simp: lt_Unlock_def Let_def split: if_splits)
  have "block_lock_ok lt' (own(t := AList.delete b (own t))) b"
  proof (cases "\<exists>t. map_of (own t) b = Some ''x''")
    case True
    then have "holders own b = {t}" using exclusive_alone [OF ok] t by auto
    moreover from this have "map_of (own t') b = None" if "t' \<noteq> t" for t'
      using that by (auto simp: holders_def)
    moreover have "getLockVal lt b = - 1" using True block_lock_val [OF ok] by simp
    ultimately show ?thesis by (auto simp: block_lock_ok_def holders_del lt')
  next
    case False
    have val: "getLockVal lt b = int (card (holders own b))" using False block_lock_val [OF ok] by simp
    have c: "card (holders own b - {t}) = card (holders own b) - 1" using t fin by simp
    have pos: "0 < card (holders own b)" using t fin by (auto simp: card_gt_0_iff)
    show ?thesis
    proof (cases "card (holders own b) = 1")
      case True
      then have "holders own b - {t} = {}" using c fin by simp
      then show ?thesis using False val True fin by (auto simp: block_lock_ok_def holders_del lt')
    next
      case False': False
      then have "card (holders own b - {t}) \<noteq> 0" using c pos by linarith
      then have "holders own b - {t} \<noteq> {}" by (metis card.empty)
      moreover have "\<not> (\<exists>t'. map_of ((own(t := AList.delete b (own t))) t') b = Some ''x'')"
        using False by auto
      moreover have "lt' b = Some (int (card (holders own b - {t})))"
        using val c pos False' by (simp add: lt' of_nat_diff)
      moreover have "\<forall>t' \<in> holders own b - {t}.
          map_of ((own(t := AList.delete b (own t))) t') b \<in> {Some ''s'', Some ''x''}"
        using ok by (simp add: block_lock_ok_def)
      ultimately show ?thesis
        using fin unfolding block_lock_ok_def holders_del by simp
    qed
  qed
  moreover have "block_lock_ok lt' (own(t := AList.delete b (own t))) c" if "c \<noteq> b" for c
    using assms(2) unlock that block_lock_ok_other [of "own(t := AList.delete b (own t))" c own lt' lt]
    by (simp add: lock_inv_def lt')
  ultimately have "block_lock_ok lt' (own(t := AList.delete b (own t))) c" for c
    by (cases "c = b") simp_all
  then show ?thesis using unlock(2) by (simp add: lock_inv_def)
qed

lemma lock_steps_inv: "lock_step\<^sup>*\<^sup>* s s' \<Longrightarrow> lock_inv s \<Longrightarrow> lock_inv s'"
  by (induction rule: rtranclp_induct) (auto intro: lock_step_inv)

section \<open>The managers' calls are sequences of steps\<close>

lemma cm_SLock_cases:
  obtains (held) "map_of own b \<noteq> None" and "cm_SLock [] b (lt, own) = (Inr (), (lt, own))"
  | (granted) lt' where "map_of own b = None" and "lt_SLock [] b lt = (Inr (), lt')"
      and "cm_SLock [] b (lt, own) = (Inr (), (lt', AList.update b ''s'' own))"
  | (refused) "map_of own b = None" and "hasXLock lt b"
      and "cm_SLock [] b (lt, own) = (Err ESLockAbort, (lt, own))"
  by (cases "map_of own b = None"; cases "hasXLock lt b") (simp_all add: cm_SLock_def)

lemma cm_SLock_steps:
  assumes "cm_SLock [] b (lt, own t) = (r, (lt', own'))"
  shows "lock_step\<^sup>*\<^sup>* (lt, own) (lt', own(t := own'))"
proof (cases rule: cm_SLock_cases [of "own t" b lt])
  case held
  then show ?thesis using assms by simp
next
  case (granted lt1)
  then show ?thesis using assms by (auto intro!: r_into_rtranclp lock_step.s_grant)
next
  case refused
  then show ?thesis using assms by simp
qed

lemma cm_upgrade_steps:
  assumes "cm_upgrade [] b (lt, own t) = (r, (lt', own'))" and "map_of (own t) b = Some ''s''"
  shows "lock_step\<^sup>*\<^sup>* (lt, own) (lt', own(t := own'))"
proof (cases "hasOtherSLocks lt b")
  case True
  then show ?thesis using assms(1) by (auto simp: cm_upgrade_def)
next
  case False
  then have "lt_XLock [] b lt = (Inr (), lt')" "own' = AList.update b ''x'' (own t)"
    using assms(1) by (auto simp: cm_upgrade_def)
  then show ?thesis using lock_step.x_grant [of own t b lt lt'] assms(2) by auto
qed

text \<open>Where a transaction's lock on a block is \<open>''s''\<close> or \<open>''x''\<close>, as the invariant says.\<close>

lemma lock_inv_kind:
  "lock_inv (lt, own) \<Longrightarrow> map_of (own t) b \<noteq> None \<Longrightarrow> map_of (own t) b \<in> {Some ''s'', Some ''x''}"
  by (simp add: lock_inv_def block_lock_ok_def holders_def)

lemma cm_XLock_steps:
  assumes "cm_XLock [] [] b (lt, own t) = (r, (lt', own'))" and "lock_inv (lt, own)"
  shows "lock_step\<^sup>*\<^sup>* (lt, own) (lt', own(t := own'))"
    and "r = Inr () \<Longrightarrow> map_of own' b = Some ''x''"
proof -
  have "lock_step\<^sup>*\<^sup>* (lt, own) (lt', own(t := own')) \<and> (r = Inr () \<longrightarrow> map_of own' b = Some ''x'')"
  proof (cases "cm_hasXLock (own t) b")
    case True
    then show ?thesis using assms(1) by (auto simp: cm_XLock_def cm_hasXLock_def)
  next
    case False
    obtain r1 lt1 own1 where s: "cm_SLock [] b (lt, own t) = (r1, (lt1, own1))" by (metis surj_pair)
    have st: "lock_step\<^sup>*\<^sup>* (lt, own) (lt1, own(t := own1))"
      using cm_SLock_steps [of b lt own t r1 lt1 own1] s by simp
    show ?thesis
    proof (cases r1)
      case (Inl e)
      then show ?thesis using assms(1) False s st by (auto simp: cm_XLock_def bnd_def)
    next
      case (Inr x)
      then have up: "cm_upgrade [] b (lt1, own1) = (r, (lt', own'))"
        using assms(1) False s by (simp add: cm_XLock_def bnd_def)
      have "map_of own1 b \<noteq> None"
        using s Inr by (cases rule: cm_SLock_cases [of "own t" b lt]) auto
      moreover have "map_of own1 b \<noteq> Some ''x''"
        using s False by (cases rule: cm_SLock_cases [of "own t" b lt]) (auto simp: cm_hasXLock_def)
      ultimately have "map_of ((own(t := own1)) t) b = Some ''s''"
        using lock_inv_kind [OF lock_steps_inv [OF st assms(2)], of t b] by auto
      then have "lock_step\<^sup>*\<^sup>* (lt1, own(t := own1)) (lt', own(t := own'))"
        using cm_upgrade_steps [of b lt1 "own(t := own1)" t r lt' own'] up by simp
      moreover have "r = Inr () \<longrightarrow> map_of own' b = Some ''x''"
        using up by (auto simp: cm_upgrade_def split: sum.splits prod.splits)
      ultimately show ?thesis using st by auto
    qed
  qed
  then show "lock_step\<^sup>*\<^sup>* (lt, own) (lt', own(t := own'))"
    and "r = Inr () \<Longrightarrow> map_of own' b = Some ''x''" by simp_all
qed

lemma delete_not_key: "k \<notin> fst ` set al \<Longrightarrow> AList.delete k al = al"
  by (induction al) (auto simp: AList.delete_eq)

lemma cm_Release_steps:
  assumes "distinct (map fst (own t))"
  shows "lock_step\<^sup>*\<^sup>* (lt, own)
    (foldl (\<lambda>lt b. snd (lt_Unlock b lt)) lt (map fst (own t)), own(t := []))"
  using assms
proof (induction "own t" arbitrary: lt own)
  case Nil
  then have "own(t := []) = own" by auto
  then show ?case using Nil by (simp add: Nil(1) [symmetric])
next
  case (Cons kv al)
  obtain b v where kv: "kv = (b, v)" by (cases kv)
  obtain r lt1 where u: "lt_Unlock b lt = (r, lt1)" by force
  let ?own1 = "own(t := AList.delete b (own t))"
  have del: "AList.delete b (own t) = al"
    using Cons(2,3) kv delete_not_key [of b al] by (simp add: AList.delete_eq Cons(2) [symmetric])
  have "map_of (own t) b \<noteq> None" by (simp add: Cons(2) [symmetric] kv)
  then have "lock_step (lt, own) (lt1, ?own1)" using u by (rule lock_step.unlock)
  moreover have "lock_step\<^sup>*\<^sup>* (lt1, ?own1)
      (foldl (\<lambda>lt b. snd (lt_Unlock b lt)) lt1 (map fst (?own1 t)), ?own1(t := []))"
    using Cons(2,3) del by (intro Cons(1)) (simp_all add: Cons(2) [symmetric])
  ultimately show ?case
    using u del kv by (simp add: Cons(2) [symmetric] converse_rtranclp_into_rtranclp)
qed

lemma cm_keys_distinct:
  assumes "distinct (map fst own)"
  shows "distinct (map fst (snd (snd (cm_SLock ws b (lt, own)))))"
    and "distinct (map fst (snd (snd (cm_upgrade ws b (lt, own)))))"
  using assms
  by (auto simp: cm_SLock_def cm_upgrade_def distinct_update split: prod.splits sum.splits)

section \<open>Properties of the locks\<close>

abbreviation demo_b :: block_id where
  "demo_b \<equiv> NewBlockId ''t.tbl'' 0"

text \<open>C3. Mutual exclusion: in every state the interleaved transactions can reach, a transaction
  that holds an exclusive lock on a block is the only one that holds any lock on it.\<close>

theorem lock_mutual_exclusion:
  assumes "lock_step\<^sup>*\<^sup>* no_locks (lt, own)" and "map_of (own t) b = Some ''x''"
    and "map_of (own u) b \<noteq> None"
  shows "u = t"
proof -
  have "block_lock_ok lt own b"
    using lock_steps_inv [OF assms(1) lock_inv_init] by (simp add: lock_inv_def)
  then have "holders own b = {t}" using assms(2) by (rule exclusive_alone)
  then show ?thesis using assms(3) by (auto simp: holders_def)
qed

lemma lock_mutual_exclusion_witness:
  "\<exists>lt own. lock_step\<^sup>*\<^sup>* no_locks (lt, own) \<and> map_of (own 1) demo_b = Some ''x'' \<and>
     (map_of (own 2) demo_b \<noteq> None \<longrightarrow> (2 :: int) = 1)"
proof -
  let ?own = "(\<lambda>_. [])(1 := [(demo_b, ''s'')])" and ?lt = "[demo_b \<mapsto> 1]"
  have "lock_step no_locks (?lt, ?own)"
    using lock_step.s_grant [of "\<lambda>_. []" 1 demo_b NewLockTable ?lt]
    by (simp add: no_locks_def hasXLock_def getLockVal_def NewLockTable_def)
  moreover have "lock_step (?lt, ?own) (?lt(demo_b \<mapsto> - 1), ?own(1 := [(demo_b, ''x'')]))"
    using lock_step.x_grant [of ?own 1 demo_b ?lt "?lt(demo_b \<mapsto> - 1)"]
    by (simp add: hasOtherSLocks_def getLockVal_def)
  ultimately have r: "lock_step\<^sup>*\<^sup>* no_locks (?lt(demo_b \<mapsto> - 1), ?own(1 := [(demo_b, ''x'')]))"
    by (blast intro: converse_rtranclp_into_rtranclp)
  show ?thesis
    using r lock_mutual_exclusion [OF r, of 1 demo_b 2]
    by (intro exI [of _ "?lt(demo_b \<mapsto> - 1)"] exI [of _ "?own(1 := [(demo_b, ''x'')])"] conjI r) simp_all
qed

text \<open>C18. The lock table's number is exact: in every reachable state a block's entry is -1 when some
  transaction holds it exclusively, missing when nobody holds it, and the number of holders
  otherwise.\<close>

theorem lock_table_counts:
  assumes "lock_step\<^sup>*\<^sup>* no_locks (lt, own)"
  shows "lt b = (if \<exists>t. map_of (own t) b = Some ''x'' then Some (- 1)
    else if holders own b = {} then None else Some (int (card (holders own b)))) \<and>
    finite (holders own b)"
proof -
  have "block_lock_ok lt own b"
    using lock_steps_inv [OF assms lock_inv_init] by (simp add: lock_inv_def)
  then show ?thesis by (auto simp: block_lock_ok_def split: if_splits)
qed

lemma lock_table_counts_witness:
  "snd (fst no_locks, \<lambda>_ :: int. []) = snd no_locks \<and> fst no_locks demo_b = None \<and>
    finite (holders (snd no_locks) demo_b)"
proof -
  have "lock_step\<^sup>*\<^sup>* no_locks (fst no_locks, snd no_locks)" by simp
  from lock_table_counts [OF this, of demo_b] show ?thesis
    by (simp add: no_locks_def holders_def)
qed

text \<open>C24. The managers implement the interleaving: a call of \<open>XLock\<close> that returns without waiting
  is a sequence of atomic steps that leaves the caller with an exclusive lock when it succeeds, and
  \<open>Release\<close> is one that leaves the caller with no lock and every table entry exact.\<close>

theorem cm_calls_are_steps:
  assumes "lock_inv (lt, own)" and "distinct (map fst (own t))"
    and "cm_XLock [] [] b (lt, own t) = (r, (lt1, own1))"
    and "cm_Release (lt, own t) = (r', (lt2, own2))"
  shows "lock_step\<^sup>*\<^sup>* (lt, own) (lt1, own(t := own1)) \<and> lock_inv (lt1, own(t := own1)) \<and>
    (r = Inr () \<longrightarrow> map_of own1 b = Some ''x'') \<and>
    lock_step\<^sup>*\<^sup>* (lt, own) (lt2, own(t := own2)) \<and> lock_inv (lt2, own(t := own2)) \<and> own2 = []"
proof -
  note x = cm_XLock_steps [OF assms(3,1)]
  have rel: "lt2 = foldl (\<lambda>lt b. snd (lt_Unlock b lt)) lt (map fst (own t))" "own2 = []"
    using assms(4) by (auto simp: cm_Release_def)
  have "lock_step\<^sup>*\<^sup>* (lt, own) (lt2, own(t := own2))"
    unfolding rel by (rule cm_Release_steps) (rule assms(2))
  then show ?thesis
    using x rel(2) lock_steps_inv [OF x(1) assms(1)] lock_steps_inv [OF _ assms(1)] by blast
qed

lemma cm_calls_are_steps_witness:
  "lock_step\<^sup>*\<^sup>* no_locks ([demo_b \<mapsto> - 1], (\<lambda>_. [])(5 := [(demo_b, ''x'')]))"
proof -
  have x: "cm_XLock [] [] demo_b (NewLockTable, (\<lambda>_. []) (5 :: int)) =
      (Inr (), ([demo_b \<mapsto> - 1], [(demo_b, ''x'')]))"
    by (simp add: cm_XLock_def cm_hasXLock_def cm_SLock_def cm_upgrade_def bnd_def NewLockTable_def
        hasXLock_def hasOtherSLocks_def getLockVal_def)
  have i: "lock_inv (NewLockTable, \<lambda>_. [])" using lock_inv_init by (simp add: no_locks_def)
  have r: "cm_Release (NewLockTable, (\<lambda>_. []) (5 :: int)) = (Inr (), (NewLockTable, []))"
    by (simp add: cm_Release_def)
  show ?thesis
    using cm_calls_are_steps [OF i _ x r] by (simp add: no_locks_def)
qed

text \<open>C37. A lost wake-up: when two transactions share a block and one of them waits for the
  exclusive lock, the other's \<open>Unlock\<close> makes the upgrade possible but notifies nobody, because only
  the release of the last lock broadcasts. The waiter sleeps until its timeout.\<close>

theorem unlock_misses_upgrader:
  assumes "getLockVal lt b = 2"
  shows "fst (lt_XLock [] b lt) = Err EXLockAbort \<and>
    (\<exists>lt'. lt_Unlock b lt = (Inr False, lt') \<and> fst (lt_XLock [] b lt') = Inr ())"
  using assms by (simp add: hasOtherSLocks_def lt_Unlock_def Let_def) (simp add: getLockVal_def)

lemma unlock_misses_upgrader_witness:
  "fst (lt_XLock [] demo_b [demo_b \<mapsto> 2]) = Err EXLockAbort \<and>
    (\<exists>lt'. lt_Unlock demo_b [demo_b \<mapsto> 2] = (Inr False, lt') \<and> fst (lt_XLock [] demo_b lt') = Inr ())"
  by (rule unlock_misses_upgrader) (simp add: getLockVal_def)

text \<open>The state after the first \<open>k\<close> wake-ups.\<close>

definition woken :: "nat \<Rightarrow> (lock_table \<Rightarrow> lock_table) list \<Rightarrow> lock_table \<Rightarrow> lock_table" where
  "woken k ws lt = foldl (\<lambda>u w. w u) lt (take k ws)"

lemma woken_simps [simp]: "woken 0 ws lt = lt" "woken (Suc k) (w # ws) lt = woken k ws (w lt)"
  by (simp_all add: woken_def)

lemma lt_SLock_waits:
  "lt_SLock ws b lt = (Inr (), lt') \<Longrightarrow> \<exists>k \<le> length ws. \<not> hasXLock (woken k ws lt) b \<and>
     lt' = (woken k ws lt)(b \<mapsto> getLockVal (woken k ws lt) b + 1)"
proof (induction ws arbitrary: lt)
  case Nil
  then show ?case by (auto split: if_splits)
next
  case (Cons w ws)
  show ?case
  proof (cases "hasXLock lt b")
    case True
    then obtain k where "k \<le> length ws" "\<not> hasXLock (woken k ws (w lt)) b"
      "lt' = (woken k ws (w lt))(b \<mapsto> getLockVal (woken k ws (w lt)) b + 1)"
      using Cons.IH [of "w lt"] Cons.prems by (simp del: fun_upd_apply) blast
    then show ?thesis by (intro exI [of _ "Suc k"]) simp
  next
    case False
    then show ?thesis using Cons.prems by (intro exI [of _ 0]) simp
  qed
qed

lemma lt_XLock_waits:
  "lt_XLock ws b lt = (Inr (), lt') \<Longrightarrow> \<exists>k \<le> length ws. \<not> hasOtherSLocks (woken k ws lt) b \<and>
     lt' = (woken k ws lt)(b \<mapsto> - 1)"
proof (induction ws arbitrary: lt)
  case Nil
  then show ?case by (auto split: if_splits)
next
  case (Cons w ws)
  show ?case
  proof (cases "hasOtherSLocks lt b")
    case True
    then obtain k where "k \<le> length ws" "\<not> hasOtherSLocks (woken k ws (w lt)) b"
      "lt' = (woken k ws (w lt))(b \<mapsto> - 1)"
      using Cons.IH [of "w lt"] Cons.prems by (simp del: fun_upd_apply) blast
    then show ?thesis by (intro exI [of _ "Suc k"]) simp
  next
    case False
    then show ?thesis using Cons.prems by (intro exI [of _ 0]) simp
  qed
qed

lemma lt_SLock_aborts:
  "lt_SLock ws b lt = (Inl e, lt') \<Longrightarrow> e = Error ESLockAbort \<and> lt' = woken (length ws) ws lt \<and>
     hasXLock lt' b"
proof (induction ws arbitrary: lt)
  case Nil
  then show ?case by (auto simp: woken_def split: if_splits)
next
  case (Cons w ws)
  then show ?case by (auto split: if_splits)
qed



end
