(* ===== verification/Tx.thy ===== *)
theory Tx
  imports BufferMgr LogRecord LockTable
begin

text \<open>
  \<^verbatim>\<open>tx/transaction.go\<close>, \<^verbatim>\<open>tx/buffer_list.go\<close> and \<^verbatim>\<open>tx/recovery_manager.go\<close>, and the \<open>Undo\<close> methods
  of \<^verbatim>\<open>tx/set_*.go\<close>: transactions.

  The world extends the buffer pool with the lock table, the transaction counter and what each
  transaction owns: its locks, and its pinned buffers with their reference counts. Every operation
  takes the number of its transaction. A call that would wait (for a lock or a buffer) finds no
  other goroutine running and times out; interleavings of whole operations are sequences of calls
  by different transactions, and the waits themselves are in the theories of locks and buffers.

  The lemmas describe an update as a change of one block's view plus one record in front of the
  log, and an \<open>Undo\<close> as the inverse change; rolling back then restores every view.
\<close>

section \<open>State\<close>

record txn =
  tx_own :: own_locks
  tx_bufs :: "(block_id \<times> nat \<times> int) list"

record world = pool_state +
  locks :: lock_table
  txns :: "int \<Rightarrow> txn"
  nextTxNum :: int

definition txn_upd :: "int \<Rightarrow> (txn \<Rightarrow> txn) \<Rightarrow> 'z world_scheme \<Rightarrow> 'z world_scheme" where
  "txn_upd t f s = s\<lparr>txns := (txns s)(t := f (txns s t))\<rparr>"

section \<open>Locks\<close>

text \<open>A call of the transaction's lock manager.\<close>

definition with_locks :: "int \<Rightarrow> (lock_table \<times> own_locks, 'a) go \<Rightarrow> ('z world_scheme, 'a) go" where
  "with_locks t m s =
     (case m (locks s, tx_own (txns s t)) of (r, (lt, own)) \<Rightarrow>
        (r, txn_upd t (\<lambda>x. x\<lparr>tx_own := own\<rparr>) (s\<lparr>locks := lt\<rparr>)))"

definition tx_SLock :: "int \<Rightarrow> block_id \<Rightarrow> ('z world_scheme, unit) go" where
  "tx_SLock t b = with_locks t (cm_SLock [] b)"

definition tx_XLock :: "int \<Rightarrow> block_id \<Rightarrow> ('z world_scheme, unit) go" where
  "tx_XLock t b = with_locks t (cm_XLock [] [] b)"

section \<open>The buffer list\<close>

definition bl_GetBuffer :: "int \<Rightarrow> block_id \<Rightarrow> 'z world_scheme \<Rightarrow> nat option" where
  "bl_GetBuffer t b s = map_option fst (map_of (tx_bufs (txns s t)) b)"

definition bl_set :: "int \<Rightarrow> block_id \<Rightarrow> nat \<Rightarrow> int \<Rightarrow> ('z world_scheme, unit) go" where
  "bl_set t b i c = modify (txn_upd t (\<lambda>x. x\<lparr>tx_bufs := AList.update b (i, c) (tx_bufs x)\<rparr>))"

definition bl_Pin :: "int \<Rightarrow> block_id \<Rightarrow> ('z world_scheme, unit) go" where
  "bl_Pin t b =
     bnd (gets (\<lambda>s. map_of (tx_bufs (txns s t)) b)) (\<lambda>e. case e of
         Some (i, c) \<Rightarrow> bl_set t b i (c + 1)
       | None \<Rightarrow> bnd (bm_Pin b) (\<lambda>i. bl_set t b i 1))"

definition bl_Unpin :: "int \<Rightarrow> block_id \<Rightarrow> ('z world_scheme, unit) go" where
  "bl_Unpin t b =
     bnd (gets (\<lambda>s. map_of (tx_bufs (txns s t)) b)) (\<lambda>e. case e of
         None \<Rightarrow> ret ()
       | Some (i, c) \<Rightarrow>
           if c - 1 \<le> 0 then
             bnd (bm_Unpin i) (\<lambda>_.
             modify (txn_upd t (\<lambda>x. x\<lparr>tx_bufs := AList.delete b (tx_bufs x)\<rparr>)))
           else bl_set t b i (c - 1))"

definition bl_UnpinAll :: "int \<Rightarrow> ('z world_scheme, unit) go" where
  "bl_UnpinAll t =
     bnd (gets (\<lambda>s. tx_bufs (txns s t))) (\<lambda>bs.
     bnd (for_each bs (\<lambda>e. bm_Unpin (fst (snd e)))) (\<lambda>_.
     modify (txn_upd t (\<lambda>x. x\<lparr>tx_bufs := []\<rparr>))))"

section \<open>Reading and writing values\<close>

definition tx_buffer :: "int \<Rightarrow> block_id \<Rightarrow> ('z world_scheme, nat) go" where
  "tx_buffer t b = bnd (gets (bl_GetBuffer t b)) (\<lambda>o'. case o' of
       None \<Rightarrow> fail EBufferNotFound | Some i \<Rightarrow> ret i)"

definition tx_Get ::
  "(page \<Rightarrow> int \<Rightarrow> 'v res) \<Rightarrow> int \<Rightarrow> block_id \<Rightarrow> int \<Rightarrow> ('z world_scheme, 'v) go" where
  "tx_Get get t b off =
     bnd (tx_SLock t b) (\<lambda>_.
     bnd (tx_buffer t b) (\<lambda>i.
     bnd (gets (\<lambda>s. contents (bufferPool s ! i))) (\<lambda>p.
     lift_res (get p off))))"

definition tx_GetInt :: "int \<Rightarrow> block_id \<Rightarrow> int \<Rightarrow> ('z world_scheme, int) go" where
  "tx_GetInt = tx_Get page_GetInt"

definition tx_GetString :: "int \<Rightarrow> block_id \<Rightarrow> int \<Rightarrow> ('z world_scheme, string) go" where
  "tx_GetString = tx_Get page_GetString"

definition tx_GetBool :: "int \<Rightarrow> block_id \<Rightarrow> int \<Rightarrow> ('z world_scheme, bool) go" where
  "tx_GetBool = tx_Get page_GetBool"

definition tx_GetLong :: "int \<Rightarrow> block_id \<Rightarrow> int \<Rightarrow> ('z world_scheme, 64 word) go" where
  "tx_GetLong = tx_Get page_GetLong"

definition tx_GetShort :: "int \<Rightarrow> block_id \<Rightarrow> int \<Rightarrow> ('z world_scheme, 16 word) go" where
  "tx_GetShort = tx_Get page_GetShort"

definition tx_GetDate :: "int \<Rightarrow> block_id \<Rightarrow> int \<Rightarrow> ('z world_scheme, gotime) go" where
  "tx_GetDate = tx_Get page_GetDate"

text \<open>The recovery manager's \<open>Set*\<close>: it logs the value that is about to be overwritten.\<close>

definition rm_Set :: "(page \<Rightarrow> int \<Rightarrow> 'v res) \<Rightarrow> (int \<Rightarrow> block_id \<Rightarrow> int \<Rightarrow> 'v \<Rightarrow> log_record) \<Rightarrow>
  int \<Rightarrow> nat \<Rightarrow> int \<Rightarrow> ('z world_scheme, int) go" where
  "rm_Set get mk t i off =
     bnd (gets (\<lambda>s. bufferPool s ! i)) (\<lambda>b.
     bnd (lift_res (get (contents b) off)) (\<lambda>oldVal.
     case buf_block b of None \<Rightarrow> panic | Some blk \<Rightarrow> write_record (mk t blk off oldVal)))"

definition rm_SetInt :: "int \<Rightarrow> nat \<Rightarrow> int \<Rightarrow> ('z world_scheme, int) go" where
  "rm_SetInt = rm_Set page_GetInt SetIntRecord"

definition rm_SetString :: "int \<Rightarrow> nat \<Rightarrow> int \<Rightarrow> ('z world_scheme, int) go" where
  "rm_SetString = rm_Set page_GetString SetStringRecord"

definition rm_SetBool :: "int \<Rightarrow> nat \<Rightarrow> int \<Rightarrow> ('z world_scheme, int) go" where
  "rm_SetBool = rm_Set page_GetBool SetBoolRecord"

definition rm_SetLong :: "int \<Rightarrow> nat \<Rightarrow> int \<Rightarrow> ('z world_scheme, int) go" where
  "rm_SetLong = rm_Set page_GetLong SetLongRecord"

definition rm_SetShort :: "int \<Rightarrow> nat \<Rightarrow> int \<Rightarrow> ('z world_scheme, int) go" where
  "rm_SetShort = rm_Set page_GetShort SetShortRecord"

definition rm_SetDate :: "int \<Rightarrow> nat \<Rightarrow> int \<Rightarrow> ('z world_scheme, int) go" where
  "rm_SetDate = rm_Set page_GetDate SetDateRecord"

text \<open>The common shape of the transaction's setters: lock, find the buffer, log, write.\<close>

definition tx_Set :: "(int \<Rightarrow> nat \<Rightarrow> int \<Rightarrow> ('z world_scheme, int) go) \<Rightarrow>
  (page \<Rightarrow> int \<Rightarrow> 'v \<Rightarrow> page res) \<Rightarrow> int \<Rightarrow> block_id \<Rightarrow> int \<Rightarrow> 'v \<Rightarrow> bool \<Rightarrow> ('z world_scheme, unit) go"
where
  "tx_Set rm put t b off val logIt =
     bnd (tx_XLock t b) (\<lambda>_.
     bnd (tx_buffer t b) (\<lambda>i.
     bnd (if logIt then rm t i off else ret (- 1)) (\<lambda>l.
     bnd (gets (\<lambda>s. contents (bufferPool s ! i))) (\<lambda>p.
     bnd (lift_res (put p off val)) (\<lambda>p'.
     buf_write i p' t l)))))"

definition tx_SetInt :: "int \<Rightarrow> block_id \<Rightarrow> int \<Rightarrow> int \<Rightarrow> bool \<Rightarrow> ('z world_scheme, unit) go" where
  "tx_SetInt = tx_Set rm_SetInt page_SetInt"

definition tx_SetString :: "int \<Rightarrow> block_id \<Rightarrow> int \<Rightarrow> string \<Rightarrow> bool \<Rightarrow> ('z world_scheme, unit) go" where
  "tx_SetString = tx_Set rm_SetString page_SetString"

definition tx_SetBool :: "int \<Rightarrow> block_id \<Rightarrow> int \<Rightarrow> bool \<Rightarrow> bool \<Rightarrow> ('z world_scheme, unit) go" where
  "tx_SetBool = tx_Set rm_SetBool page_SetBool"

definition tx_SetLong :: "int \<Rightarrow> block_id \<Rightarrow> int \<Rightarrow> 64 word \<Rightarrow> bool \<Rightarrow> ('z world_scheme, unit) go" where
  "tx_SetLong = tx_Set rm_SetLong page_SetLong"

definition tx_SetShort :: "int \<Rightarrow> block_id \<Rightarrow> int \<Rightarrow> 16 word \<Rightarrow> bool \<Rightarrow> ('z world_scheme, unit) go" where
  "tx_SetShort = tx_Set rm_SetShort page_SetShort"

definition tx_SetDate :: "int \<Rightarrow> block_id \<Rightarrow> int \<Rightarrow> gotime \<Rightarrow> bool \<Rightarrow> ('z world_scheme, unit) go" where
  "tx_SetDate = tx_Set rm_SetDate page_SetDate"

definition EndOfFile :: int where
  "EndOfFile = - 1"

definition tx_Size :: "int \<Rightarrow> string \<Rightarrow> ('z world_scheme, int) go" where
  "tx_Size t filename = bnd (tx_SLock t (NewBlockId filename EndOfFile)) (\<lambda>_. fm_Length filename)"

definition tx_Append :: "int \<Rightarrow> string \<Rightarrow> ('z world_scheme, block_id) go" where
  "tx_Append t filename = bnd (tx_XLock t (NewBlockId filename EndOfFile)) (\<lambda>_. fm_Append filename)"

text \<open>What the client of a transaction calls for its buffers.\<close>

definition tx_Pin :: "int \<Rightarrow> block_id \<Rightarrow> ('z world_scheme, unit) go" where
  "tx_Pin t b = bl_Pin t b"

definition tx_Unpin :: "int \<Rightarrow> block_id \<Rightarrow> ('z world_scheme, unit) go" where
  "tx_Unpin t b = bl_Unpin t b"

definition tx_BlockSize :: "'z world_scheme \<Rightarrow> int" where
  "tx_BlockSize s = blockSize s"

definition tx_AvailableBuffers :: "'z world_scheme \<Rightarrow> int" where
  "tx_AvailableBuffers s = numAvailable s"

section \<open>Undoing, committing, rolling back and recovering\<close>

definition undo_with :: "int \<Rightarrow> block_id \<Rightarrow> ('z world_scheme, unit) go \<Rightarrow> ('z world_scheme, unit) go" where
  "undo_with t b m = bnd (bl_Pin t b) (\<lambda>_. with_defer m (bl_Unpin t b))"

fun Undo :: "log_record \<Rightarrow> int \<Rightarrow> ('z world_scheme, unit) go" where
  "Undo (SetIntRecord _ b off v) t = undo_with t b (tx_SetInt t b off v False)"
| "Undo (SetStringRecord _ b off v) t = undo_with t b (tx_SetString t b off v False)"
| "Undo (SetBoolRecord _ b off v) t = undo_with t b (tx_SetBool t b off v False)"
| "Undo (SetLongRecord _ b off v) t = undo_with t b (tx_SetLong t b off v False)"
| "Undo (SetShortRecord _ b off v) t = undo_with t b (tx_SetShort t b off v False)"
| "Undo (SetDateRecord _ b off v) t = undo_with t b (tx_SetDate t b off v False)"
| "Undo _ t = ret ()"

text \<open>The loop of \<open>doRollback\<close>, with fuel for its iterations.\<close>

fun rollback_loop :: "nat \<Rightarrow> int \<Rightarrow> log_iter \<Rightarrow> ('z world_scheme, unit) go" where
  "rollback_loop 0 t it s = (Inl OutOfFuel, s)"
| "rollback_loop (Suc n) t it s =
     (if it_HasNext (blockSize s) it then
        bnd (it_Next it) (\<lambda>(bytes, it').
        bnd (lift_res (CreateLogRecord bytes)) (\<lambda>logRecord.
        if record_TxNumber logRecord = t then
          if record_Op logRecord = Start then ret ()
          else bnd (Undo logRecord t) (\<lambda>_. rollback_loop n t it')
        else rollback_loop n t it')) s
      else (Inr (), s))"

definition rm_doRollback :: "nat \<Rightarrow> int \<Rightarrow> ('z world_scheme, unit) go" where
  "rm_doRollback n t = bnd lm_Iterator (\<lambda>it. rollback_loop n t it)"

text \<open>The loop of \<open>doRecover\<close>. An iterator error ends it as if recovery were complete.\<close>

fun recover_loop :: "nat \<Rightarrow> int \<Rightarrow> int list \<Rightarrow> log_iter \<Rightarrow> ('z world_scheme, unit) go" where
  "recover_loop 0 t finished it s = (Inl OutOfFuel, s)"
| "recover_loop (Suc n) t finished it s =
     (if it_HasNext (blockSize s) it then
        (case it_Next it s of
           (Inl (Error _), s') \<Rightarrow> (Inr (), s')
         | (Inl f, s') \<Rightarrow> (Inl f, s')
         | (Inr (bytes, it'), s') \<Rightarrow>
             bnd (lift_res (CreateLogRecord bytes)) (\<lambda>logRecord.
             if record_Op logRecord = Checkpoint then ret ()
             else if record_Op logRecord = Commit \<or> record_Op logRecord = Rollback then
               recover_loop n t (finished @ [record_TxNumber logRecord]) it'
             else if \<not> List.member finished (record_TxNumber logRecord) then
               bnd (Undo logRecord t) (\<lambda>_. recover_loop n t finished it')
             else recover_loop n t finished it') s')
      else (Inr (), s))"

definition rm_doRecover :: "nat \<Rightarrow> int \<Rightarrow> ('z world_scheme, unit) go" where
  "rm_doRecover n t = bnd lm_Iterator (\<lambda>it. recover_loop n t [] it)"

definition rm_Commit :: "int \<Rightarrow> ('z world_scheme, unit) go" where
  "rm_Commit t = bnd (bm_FlushAll t) (\<lambda>_. bnd (WriteCommitToLog t) (\<lambda>l. lm_Flush l))"

definition rm_Rollback :: "nat \<Rightarrow> int \<Rightarrow> ('z world_scheme, unit) go" where
  "rm_Rollback n t =
     bnd (rm_doRollback n t) (\<lambda>_.
     bnd (bm_FlushAll t) (\<lambda>_.
     bnd (WriteRollbackToLog t) (\<lambda>l. lm_Flush l)))"

definition rm_Recover :: "nat \<Rightarrow> int \<Rightarrow> ('z world_scheme, unit) go" where
  "rm_Recover n t =
     bnd (rm_doRecover n t) (\<lambda>_.
     bnd (bm_FlushAll t) (\<lambda>_.
     bnd WriteCheckpointToLog (\<lambda>l. lm_Flush l)))"

text \<open>\<open>nextTxNumber\<close> counts up and returns the new value; a transaction starts with nothing.\<close>

definition tx_NewTransaction :: "('z world_scheme, int) go" where
  "tx_NewTransaction =
     bnd (modify (\<lambda>s. s\<lparr>nextTxNum := nextTxNum s + 1\<rparr>)) (\<lambda>_.
     bnd (gets nextTxNum) (\<lambda>t.
     bnd (modify (txn_upd t (\<lambda>_. \<lparr>tx_own = [], tx_bufs = []\<rparr>))) (\<lambda>_. ret t)))"

definition tx_finish :: "int \<Rightarrow> ('z world_scheme, unit) go" where
  "tx_finish t = bnd (with_locks t cm_Release) (\<lambda>_. bl_UnpinAll t)"

definition tx_Commit :: "int \<Rightarrow> ('z world_scheme, unit) go" where
  "tx_Commit t = bnd (rm_Commit t) (\<lambda>_. tx_finish t)"

definition tx_Rollback :: "nat \<Rightarrow> int \<Rightarrow> ('z world_scheme, unit) go" where
  "tx_Rollback n t = bnd (rm_Rollback n t) (\<lambda>_. tx_finish t)"

definition tx_Recover :: "nat \<Rightarrow> int \<Rightarrow> ('z world_scheme, unit) go" where
  "tx_Recover n t = bnd (bm_FlushAll t) (\<lambda>_. rm_Recover n t)"

section \<open>Parts of the world that do not touch each other\<close>

lemma txn_upd_simps [simp]:
  "bufferPool (txn_upd t f s) = bufferPool s" "numAvailable (txn_upd t f s) = numAvailable s"
  "blockSize (txn_upd t f s) = blockSize s" "logFile (txn_upd t f s) = logFile s"
  "latestLSN (txn_upd t f s) = latestLSN s" "lastSavedLSN (txn_upd t f s) = lastSavedLSN s"
  "logPage (txn_upd t f s) = logPage s" "currentBlock (txn_upd t f s) = currentBlock s"
  "disk (txn_upd t f s) = disk s" "locks (txn_upd t f s) = locks s"
  "nextTxNum (txn_upd t f s) = nextTxNum s" "txns (txn_upd t f s) = (txns s)(t := f (txns s t))"
  by (simp_all add: txn_upd_def)

lemma world_storage [simp]:
  "fileBytes (txn_upd t f s) n = fileBytes s n" "fileBytes (s\<lparr>locks := lt\<rparr>) n = fileBytes s n"
  "fileBytes (s\<lparr>nextTxNum := k\<rparr>) n = fileBytes s n"
  by (simp_all add: fileBytes_def)

lemma world_blocks [simp]:
  "fm_wf (txn_upd t f s) = fm_wf s" "fm_wf (s\<lparr>locks := lt\<rparr>) = fm_wf s"
  "nblocks (txn_upd t f s) n = nblocks s n" "nblocks (s\<lparr>locks := lt\<rparr>) n = nblocks s n"
  "disk_block (txn_upd t f s) c = disk_block s c" "disk_block (s\<lparr>locks := lt\<rparr>) c = disk_block s c"
  "in_file (txn_upd t f s) c = in_file s c" "in_file (s\<lparr>locks := lt\<rparr>) c = in_file s c"
  by (simp_all add: fm_wf_def nblocks_def disk_block_def in_file_def)

lemma world_log [simp]:
  "log_holds (txn_upd t f s) l = log_holds s l" "log_holds (s\<lparr>locks := lt\<rparr>) l = log_holds s l"
  "it_at (txn_upd t f s) lf it recs = it_at s lf it recs"
  "it_at (s\<lparr>locks := lt\<rparr>) lf it recs = it_at s lf it recs"
  by (simp_all add: log_holds_def lm_inv_def log_saved_def older_def it_at_def)

lemma world_buf_ok [simp]:
  "buf_ok (txn_upd t f s) b = buf_ok s b" "buf_ok (s\<lparr>locks := lt\<rparr>) b = buf_ok s b"
  by (simp_all add: buf_ok_def split: option.splits)

lemma world_pool [simp]:
  "pool_inv (txn_upd t f s) = pool_inv s" "pool_inv (s\<lparr>locks := lt\<rparr>) = pool_inv s"
  "blk_view (txn_upd t f s) c = blk_view s c" "blk_view (s\<lparr>locks := lt\<rparr>) c = blk_view s c"
  by (simp_all add: pool_inv_def blk_view_def split: option.splits)

lemma more_world:
  assumes "pool_state.more s' = pool_state.more s"
  shows "locks s' = locks s" and "txns s' = txns s" and "nextTxNum s' = nextTxNum s"
  using assms by (cases s; cases s'; simp)+

lemma txn_upd_same [simp]: "txn_upd t (\<lambda>x. x\<lparr>tx_own := tx_own (txns s t)\<rparr>) s = s"
  by (simp add: txn_upd_def)

text \<open>Appending to the log changes no buffer and no data block.\<close>

lemma pool_inv_log:
  assumes inv: "pool_inv s" and fr: "lm_frame s s'" and df: "data_frame s s'" and h: "log_holds s' l"
  shows "pool_inv s'" and "in_file s c \<Longrightarrow> File c \<noteq> logFile s \<Longrightarrow> blk_view s' c = blk_view s c"
proof -
  note p = lm_frame_pool [OF fr] and d = data_frame_same [OF df]
  have "buf_ok s' b" if b: "b \<in> set (bufferPool s)" for b
  proof -
    have "buf_ok s b" using inv b by (simp add: pool_inv_def)
    then show ?thesis by (auto simp: buf_ok_def d split: option.splits)
  qed
  then show "pool_inv s'" using inv h p by (auto simp: pool_inv_def)
  show "blk_view s' c = blk_view s c" if "in_file s c" "File c \<noteq> logFile s"
    by (rule blk_view_cong) (use that p d in simp_all)
qed

section \<open>Locks of one transaction\<close>

definition x_locked :: "'z world_scheme \<Rightarrow> int \<Rightarrow> block_id \<Rightarrow> bool" where
  "x_locked s t b \<longleftrightarrow> map_of (tx_own (txns s t)) b = Some ''x''"

definition can_xlock :: "'z world_scheme \<Rightarrow> int \<Rightarrow> block_id \<Rightarrow> bool" where
  "can_xlock s t b \<longleftrightarrow> x_locked s t b \<or>
     (map_of (tx_own (txns s t)) b = None \<and> getLockVal (locks s) b = 0) \<or>
     (map_of (tx_own (txns s t)) b = Some ''s'' \<and> getLockVal (locks s) b \<le> 1)"

lemma tx_XLock_held: "x_locked s t b \<Longrightarrow> tx_XLock t b s = (Inr (), s)"
  by (simp add: tx_XLock_def with_locks_def cm_XLock_def cm_hasXLock_def x_locked_def)

lemma tx_XLock_spec:
  assumes "can_xlock s t b"
  obtains lt own where
    "tx_XLock t b s = (Inr (), txn_upd t (\<lambda>x. x\<lparr>tx_own := own\<rparr>) (s\<lparr>locks := lt\<rparr>))"
    and "map_of own b = Some ''x''"
    and "\<And>c. c \<noteq> b \<Longrightarrow> map_of own c = map_of (tx_own (txns s t)) c \<and> lt c = locks s c"
proof (cases "x_locked s t b")
  case True
  then show thesis
    using tx_XLock_held [OF True] that [of "tx_own (txns s t)" "locks s"] by (simp add: x_locked_def)
next
  case False
  define lt1 where "lt1 = (if map_of (tx_own (txns s t)) b = None
      then (locks s)(b \<mapsto> 1) else locks s)"
  define own1 where "own1 = (if map_of (tx_own (txns s t)) b = None
      then AList.update b ''s'' (tx_own (txns s t)) else tx_own (txns s t))"
  have s: "cm_SLock [] b (locks s, tx_own (txns s t)) = (Inr (), (lt1, own1))"
    using assms False by (auto simp: can_xlock_def cm_SLock_def lt1_def own1_def hasXLock_def)
  have "getLockVal lt1 b \<le> 1"
    using assms False by (auto simp: can_xlock_def lt1_def getLockVal_def)
  then have u: "cm_upgrade [] b (lt1, own1) = (Inr (), (lt1(b \<mapsto> - 1), AList.update b ''x'' own1))"
    by (simp add: cm_upgrade_def hasOtherSLocks_def)
  show thesis
    by (rule that [of "AList.update b ''x'' own1" "lt1(b \<mapsto> - 1)"])
      (use False s u in \<open>simp_all add: tx_XLock_def with_locks_def cm_XLock_def cm_hasXLock_def
        x_locked_def bnd_def\<close>, simp_all add: own1_def lt1_def)
qed

text \<open>The transaction has block \<open>b\<close> pinned, in buffer \<open>i\<close>.\<close>

definition tx_holds :: "'z world_scheme \<Rightarrow> int \<Rightarrow> block_id \<Rightarrow> nat \<Rightarrow> bool" where
  "tx_holds s t b i \<longleftrightarrow> (\<exists>c \<ge> 1. map_of (tx_bufs (txns s t)) b = Some (i, c)) \<and>
     i < length (bufferPool s) \<and> buf_block (bufferPool s ! i) = Some b"

lemma tx_holds_GetBuffer: "tx_holds s t b i \<Longrightarrow> bl_GetBuffer t b s = Some i"
  by (auto simp: tx_holds_def bl_GetBuffer_def)

lemma tx_holds_view: "pool_inv s \<Longrightarrow> tx_holds s t b i \<Longrightarrow> contents (bufferPool s ! i) = blk_view s b"
  using blk_view_buffer [of s i b] by (simp add: tx_holds_def)

section \<open>Updates\<close>

definition same_pins :: "'z world_scheme \<Rightarrow> 'z world_scheme \<Rightarrow> bool" where
  "same_pins s s' \<longleftrightarrow> length (bufferPool s') = length (bufferPool s) \<and>
     (\<forall>j < length (bufferPool s). pins (bufferPool s' ! j) = pins (bufferPool s ! j))"

text \<open>What an update by transaction \<open>t\<close> of block \<open>b\<close> to page \<open>p\<close> leaves alone.\<close>

definition updates :: "int \<Rightarrow> block_id \<Rightarrow> page \<Rightarrow> 'z world_scheme \<Rightarrow> 'z world_scheme \<Rightarrow> bool" where
  "updates t b p s s' \<longleftrightarrow> pool_inv s' \<and> blockSize s' = blockSize s \<and> logFile s' = logFile s \<and>
     (\<forall>n. n \<noteq> logFile s \<longrightarrow> nblocks s' n = nblocks s n) \<and>
     (\<forall>c. in_file s c \<longrightarrow> File c \<noteq> logFile s \<longrightarrow>
        blk_view s' c = (if c = b then p else blk_view s c)) \<and>
     (\<forall>u. map_of (tx_bufs (txns s' u)) = map_of (tx_bufs (txns s u))) \<and>
     (\<forall>u c i. tx_holds s u c i \<longrightarrow> tx_holds s' u c i) \<and> x_locked s' t b \<and>
     (\<forall>c. can_xlock s t c \<longrightarrow> can_xlock s' t c) \<and> (\<forall>c. x_locked s t c \<longrightarrow> x_locked s' t c) \<and>
     same_pins s s'"

lemma tx_XLock_frame:
  assumes inv: "pool_inv s" and can: "can_xlock s t b"
  obtains s' where "tx_XLock t b s = (Inr (), s')" and "pool_inv s'" and "x_locked s' t b"
    and "bufferPool s' = bufferPool s" and "blockSize s' = blockSize s" and "logFile s' = logFile s"
    and "latestLSN s' = latestLSN s" and "\<And>n. nblocks s' n = nblocks s n"
    and "\<And>c. in_file s' c = in_file s c" and "\<And>c. blk_view s' c = blk_view s c"
    and "\<And>l. log_holds s' l = log_holds s l"
    and "\<And>lf it recs. it_at s' lf it recs = it_at s lf it recs"
    and "\<And>u. tx_bufs (txns s' u) = tx_bufs (txns s u)"
    and "\<And>c. can_xlock s t c \<Longrightarrow> can_xlock s' t c" and "\<And>c. x_locked s t c \<Longrightarrow> x_locked s' t c"
proof -
  obtain lt own where x: "tx_XLock t b s = (Inr (), txn_upd t (\<lambda>x. x\<lparr>tx_own := own\<rparr>) (s\<lparr>locks := lt\<rparr>))"
    "map_of own b = Some ''x''"
    and o': "\<And>c. c \<noteq> b \<Longrightarrow> map_of own c = map_of (tx_own (txns s t)) c \<and> lt c = locks s c"
    using can by (rule tx_XLock_spec) blast
  let ?s' = "txn_upd t (\<lambda>x. x\<lparr>tx_own := own\<rparr>) (s\<lparr>locks := lt\<rparr>)"
  have keep: "(can_xlock s t c \<longrightarrow> can_xlock ?s' t c) \<and> (x_locked s t c \<longrightarrow> x_locked ?s' t c)" for c
    using x(2) o' [of c]
    by (cases "c = b") (auto simp: can_xlock_def x_locked_def getLockVal_def)
  then show thesis
    using inv x by (intro that [of ?s']) (auto simp: x_locked_def)
qed

lemma tx_buffer_held: "bl_GetBuffer t b s = Some i \<Longrightarrow> tx_buffer t b s = (Inr i, s)"
  by (simp add: tx_buffer_def bnd_simps go_unfold)

context page_codec
begin

lemma tx_Set_unlogged:
  assumes inv: "pool_inv s" and hold: "tx_holds s t b i" and can: "can_xlock s t b" and t: "0 \<le> t"
    and fit: "fits (blk_view s b) off v"
  obtains s' where "tx_Set rm set t b off v False s = (Inr (), s')"
    and "updates t b (bsplice (nat off) (enc v) (blk_view s b)) s s'"
    and "\<And>l. log_holds s' l = log_holds s l"
    and "\<And>lf it recs. it_at s' lf it recs = it_at s lf it recs"
proof -
  let ?p = "bsplice (nat off) (enc v) (blk_view s b)"
  obtain x where x: "tx_XLock t b s = (Inr (), x)" "pool_inv x" "x_locked x t b"
    "bufferPool x = bufferPool s" "blockSize x = blockSize s" "logFile x = logFile s"
    "latestLSN x = latestLSN s" "\<And>n. nblocks x n = nblocks s n"
    "\<And>c. in_file x c = in_file s c" "\<And>c. blk_view x c = blk_view s c"
    "\<And>l. log_holds x l = log_holds s l"
    "\<And>lf it recs. it_at x lf it recs = it_at s lf it recs"
    "\<And>u. tx_bufs (txns x u) = tx_bufs (txns s u)"
    "\<And>c. can_xlock s t c \<Longrightarrow> can_xlock x t c" "\<And>c. x_locked s t c \<Longrightarrow> x_locked x t c"
    by (rule tx_XLock_frame [OF inv can]) blast
  have i: "i < length (bufferPool x)" "buf_block (bufferPool x ! i) = Some b"
    and gb: "bl_GetBuffer t b x = Some i"
    using hold tx_holds_GetBuffer [OF hold] by (simp_all add: x tx_holds_def bl_GetBuffer_def)
  have cont: "contents (bufferPool x ! i) = blk_view s b"
    using tx_holds_view [OF inv hold] by (simp add: x)
  have set: "set (blk_view s b) off v = Inr ?p" using fit by (simp add: fits_def set_enc)
  have len: "int (length ?p) = blockSize x"
    using pool_inv_buf_ok [OF x(2) i(1)] fit by (simp add: buf_ok_def cont fits_def)
  obtain s' where s': "buf_write i ?p t (- 1) x = (Inr (), s')" "pool_inv s'"
    "bufferPool s' = (bufferPool x)[i := buf_SetModified t (- 1) ((bufferPool x ! i)\<lparr>contents := ?p\<rparr>)]"
    "\<And>c. blk_view s' c = (if c = b then ?p else blk_view x c)"
    "\<And>k. log_holds s' k = log_holds x k" "\<And>n. nblocks s' n = nblocks x n"
    "blockSize s' = blockSize x" "logFile s' = logFile x" "pool_state.more s' = pool_state.more x"
    "\<And>lf it recs. it_at s' lf it recs = it_at x lf it recs"
    by (rule buf_write_spec [OF x(2) i t len, of "- 1"]) blast
  note more = more_world [OF s'(9)]
  have run: "tx_Set rm set t b off v False s = (Inr (), s')"
    using x(1) tx_buffer_held [OF gb] cont set s'(1)
    by (simp add: tx_Set_def bnd_Inr bnd_simps)
  have blocks: "buf_block (bufferPool s' ! j) = buf_block (bufferPool s ! j)" if "j < length (bufferPool s)" for j
    using that i(1) by (cases "j = i") (simp_all add: s'(3) x(4) buf_SetModified_def Let_def)
  have pn: "same_pins s s'"
    unfolding same_pins_def using i(1) by (auto simp: s'(3) x(4) nth_list_update buf_SetModified_def Let_def)
  have gbs: "tx_bufs (txns s' u) = tx_bufs (txns s u)" for u
    using more(2) x(13) by simp
  have held: "tx_holds s' u c j" if "tx_holds s u c j" for u c j
    using that blocks [of j] by (simp add: tx_holds_def gbs s'(3) x(4))
  have lk: "x_locked s' u c = x_locked x u c" "can_xlock s' u c = can_xlock x u c" for u c
    by (simp_all add: x_locked_def can_xlock_def more)
  have "updates t b ?p s s'"
    unfolding updates_def using s'(2,4,6-8) x(3,5,6,8,10,14,15) held pn by (simp add: lk gbs)
  then show thesis using run s'(5,10) x(11,12) by (intro that [of s']) simp_all
qed

end

lemma lm_frame_world:
  assumes "lm_frame s s'"
  shows "locks s' = locks s" and "txns s' = txns s"
  using more_world [OF lm_frame_pool(3) [OF assms]] by simp_all

context page_codec
begin

lemma tx_Set_logged:
  assumes inv: "pool_inv s" and hold: "tx_holds s t b i" and can: "can_xlock s t b" and t: "0 \<le> t"
    and fit: "fits (blk_view s b) off v" and old: "ok old" "has (blk_view s b) off (enc old)"
    and mk: "storable_record (mk t b off old)" "read_as (mk t b off old) = mk t b off old"
      "record_size (mk t b off old) + 8 \<le> blockSize s"
    and h: "log_holds s l"
  obtains s' bs where "tx_Set (rm_Set get mk) set t b off v True s = (Inr (), s')"
    and "updates t b (bsplice (nat off) (enc v) (blk_view s b)) s s'"
    and "log_holds s' (bs # l)" and "CreateLogRecord bs = Inr (mk t b off old)"
proof -
  let ?p = "bsplice (nat off) (enc v) (blk_view s b)"
  obtain x where x: "tx_XLock t b s = (Inr (), x)" "pool_inv x" "x_locked x t b"
    "bufferPool x = bufferPool s" "blockSize x = blockSize s" "logFile x = logFile s"
    "\<And>n. nblocks x n = nblocks s n" "\<And>c. in_file x c = in_file s c"
    "\<And>c. blk_view x c = blk_view s c" "\<And>l. log_holds x l = log_holds s l"
    "\<And>u. tx_bufs (txns x u) = tx_bufs (txns s u)"
    "\<And>c. can_xlock s t c \<Longrightarrow> can_xlock x t c" "\<And>c. x_locked s t c \<Longrightarrow> x_locked x t c"
    by (rule tx_XLock_frame [OF inv can]) blast
  have i: "i < length (bufferPool x)" "buf_block (bufferPool x ! i) = Some b"
    and gb: "bl_GetBuffer t b x = Some i"
    using hold tx_holds_GetBuffer [OF hold] by (simp_all add: x tx_holds_def bl_GetBuffer_def)
  have cont: "contents (bufferPool x ! i) = blk_view s b"
    using tx_holds_view [OF inv hold] by (simp add: x)
  have get: "get (blk_view s b) off = Inr old" using old by (auto simp: has_def intro!: get_enc)
  have hx: "log_holds x l" using h x(10) by simp
  have fx: "record_size (mk t b off old) + 8 \<le> blockSize x" using mk(3) x(5) by simp
  obtain y bs where y: "write_record (mk t b off old) x = (Inr (latestLSN x + 1), y)"
    "log_holds y (bs # l)" "CreateLogRecord bs = Inr (read_as (mk t b off old))"
    and fr: "lm_frame x y" and df: "data_frame x y" and lsn: "latestLSN y = latestLSN x + 1"
    by (rule write_record_spec [OF hx mk(1) fx]) blast
  note py = lm_frame_pool [OF fr] and dy = data_frame_same [OF df] and wy = lm_frame_world [OF fr]
  note iy = pool_inv_log [OF x(2) fr df y(2)]
  have iy': "i < length (bufferPool y)" "buf_block (bufferPool y ! i) = Some b"
    using i py(1) by simp_all
  have set: "set (blk_view s b) off v = Inr ?p" using fit by (simp add: fits_def set_enc)
  have len: "int (length ?p) = blockSize y"
    using pool_inv_buf_ok [OF x(2) i(1)] fit by (simp add: buf_ok_def cont fits_def dy)
  obtain s' where s': "buf_write i ?p t (latestLSN x + 1) y = (Inr (), s')" "pool_inv s'"
    "bufferPool s' = (bufferPool y)[i :=
       buf_SetModified t (latestLSN x + 1) ((bufferPool y ! i)\<lparr>contents := ?p\<rparr>)]"
    "\<And>c. blk_view s' c = (if c = b then ?p else blk_view y c)"
    "\<And>k. log_holds s' k = log_holds y k" "\<And>n. nblocks s' n = nblocks y n"
    "blockSize s' = blockSize y" "logFile s' = logFile y" "pool_state.more s' = pool_state.more y"
    by (rule buf_write_spec [OF iy(1) iy' t len, of "latestLSN x + 1"]) blast
  note more = more_world [OF s'(9)]
  have rm: "rm_Set get mk t i off x = (Inr (latestLSN x + 1), y)"
    using get y(1) i(2) by (simp add: rm_Set_def bnd_simps cont)
  have run: "tx_Set (rm_Set get mk) set t b off v True s = (Inr (), s')"
    using x(1) tx_buffer_held [OF gb] rm cont set s'(1) py(1)
    by (simp add: tx_Set_def bnd_Inr bnd_simps)
  have blocks: "buf_block (bufferPool s' ! j) = buf_block (bufferPool s ! j)" if "j < length (bufferPool s)" for j
    using that iy'(1) by (cases "j = i") (simp_all add: s'(3) x(4) py(1) buf_SetModified_def Let_def)
  have pn: "same_pins s s'"
    unfolding same_pins_def using iy'(1) by (auto simp: s'(3) x(4) py(1) nth_list_update buf_SetModified_def Let_def)
  have gbs: "tx_bufs (txns s' u) = tx_bufs (txns s u)" for u
    using more(2) wy(2) x(11) by simp
  have held: "tx_holds s' u c j" if "tx_holds s u c j" for u c j
    using that blocks [of j] by (simp add: tx_holds_def gbs s'(3) x(4) py(1))
  have lk: "x_locked s' u c = x_locked x u c" "can_xlock s' u c = can_xlock x u c" for u c
    by (simp_all add: x_locked_def can_xlock_def more wy)
  have "updates t b ?p s s'"
    unfolding updates_def using s'(2,4,6-8) x(3,5,6,7,8,9,12,13) held iy(2) dy(1-3) pn by (simp add: lk gbs)
  then show thesis using run y(2,3) s'(5) mk(2) by (intro that [of s' bs]) simp_all
qed

end

section \<open>Updates of any type\<close>

datatype val = VInt int | VString string | VBool bool | VLong "64 word" | VShort "16 word" | VDate gotime

fun val_enc :: "val \<Rightarrow> byte list" where
  "val_enc (VInt n) = enc_int n" | "val_enc (VString x) = enc_string x"
| "val_enc (VBool b) = enc_bool b" | "val_enc (VLong l) = enc_long l"
| "val_enc (VShort h) = enc_short h" | "val_enc (VDate d) = enc_date d"

fun val_ok :: "val \<Rightarrow> bool" where
  "val_ok (VInt n) \<longleftrightarrow> int32_range n" | "val_ok (VString x) \<longleftrightarrow> storable_string x"
| "val_ok (VDate d) \<longleftrightarrow> local_time d" | "val_ok _ \<longleftrightarrow> True"

fun same_kind :: "val \<Rightarrow> val \<Rightarrow> bool" where
  "same_kind (VInt _) (VInt _) \<longleftrightarrow> True" | "same_kind (VString _) (VString _) \<longleftrightarrow> True"
| "same_kind (VBool _) (VBool _) \<longleftrightarrow> True" | "same_kind (VLong _) (VLong _) \<longleftrightarrow> True"
| "same_kind (VShort _) (VShort _) \<longleftrightarrow> True" | "same_kind (VDate _) (VDate _) \<longleftrightarrow> True"
| "same_kind _ _ \<longleftrightarrow> False"

fun val_rec :: "int \<Rightarrow> block_id \<Rightarrow> int \<Rightarrow> val \<Rightarrow> log_record" where
  "val_rec t b off (VInt n) = SetIntRecord t b off n"
| "val_rec t b off (VString x) = SetStringRecord t b off x"
| "val_rec t b off (VBool x) = SetBoolRecord t b off x"
| "val_rec t b off (VLong x) = SetLongRecord t b off x"
| "val_rec t b off (VShort x) = SetShortRecord t b off x"
| "val_rec t b off (VDate x) = SetDateRecord t b off x"

fun tx_SetVal :: "int \<Rightarrow> block_id \<Rightarrow> int \<Rightarrow> val \<Rightarrow> bool \<Rightarrow> ('z world_scheme, unit) go" where
  "tx_SetVal t b off (VInt n) logIt = tx_SetInt t b off n logIt"
| "tx_SetVal t b off (VString x) logIt = tx_SetString t b off x logIt"
| "tx_SetVal t b off (VBool x) logIt = tx_SetBool t b off x logIt"
| "tx_SetVal t b off (VLong x) logIt = tx_SetLong t b off x logIt"
| "tx_SetVal t b off (VShort x) logIt = tx_SetShort t b off x logIt"
| "tx_SetVal t b off (VDate x) logIt = tx_SetDate t b off x logIt"

definition val_fits :: "page \<Rightarrow> int \<Rightarrow> val \<Rightarrow> bool" where
  "val_fits p off v \<longleftrightarrow> val_ok v \<and> 0 \<le> off \<and> nat off + length (val_enc v) \<le> length p"

lemmas codec_fits = int_codec.fits_def string_codec.fits_def bool_codec.fits_def
  long_codec.fits_def short_codec.fits_def date_codec.fits_def

lemmas tx_Set_defs = tx_SetInt_def tx_SetString_def tx_SetBool_def tx_SetLong_def tx_SetShort_def
  tx_SetDate_def rm_SetInt_def rm_SetString_def rm_SetBool_def rm_SetLong_def rm_SetShort_def
  rm_SetDate_def

lemma Undo_val_rec: "Undo (val_rec u b off v) t = undo_with t b (tx_SetVal t b off v False)"
  by (cases v) simp_all

lemma val_rec_simps [simp]:
  "record_TxNumber (val_rec t b off v) = t" "record_Op (val_rec t b off v) \<noteq> Start"
  "read_as (val_rec t b off v) = val_rec t b off v"
  "storable_record (val_rec t b off v) \<longleftrightarrow> storable_header t b off \<and> val_ok v"
  by (cases v; simp)+

lemma tx_SetVal_unlogged:
  assumes inv: "pool_inv s" and hold: "tx_holds s t b i" and can: "can_xlock s t b" and t: "0 \<le> t"
    and fit: "val_fits (blk_view s b) off v"
  obtains s' where "tx_SetVal t b off v False s = (Inr (), s')"
    and "updates t b (bsplice (nat off) (val_enc v) (blk_view s b)) s s'"
    and "\<And>l. log_holds s' l = log_holds s l"
    and "\<And>lf it recs. it_at s' lf it recs = it_at s lf it recs"
proof (cases v)
  case (VInt n)
  show thesis
    by (rule int_codec.tx_Set_unlogged [OF inv hold can t, of off n rm_SetInt])
      (use fit VInt that in \<open>auto simp: val_fits_def codec_fits tx_SetInt_def\<close>)
next
  case (VString n)
  show thesis
    by (rule string_codec.tx_Set_unlogged [OF inv hold can t, of off n rm_SetString])
      (use fit VString that in \<open>auto simp: val_fits_def codec_fits tx_SetString_def\<close>)
next
  case (VBool n)
  show thesis
    by (rule bool_codec.tx_Set_unlogged [OF inv hold can t, of off n rm_SetBool])
      (use fit VBool that in \<open>auto simp: val_fits_def codec_fits tx_SetBool_def\<close>)
next
  case (VLong n)
  show thesis
    by (rule long_codec.tx_Set_unlogged [OF inv hold can t, of off n rm_SetLong])
      (use fit VLong that in \<open>auto simp: val_fits_def codec_fits tx_SetLong_def\<close>)
next
  case (VShort n)
  show thesis
    by (rule short_codec.tx_Set_unlogged [OF inv hold can t, of off n rm_SetShort])
      (use fit VShort that in \<open>auto simp: val_fits_def codec_fits tx_SetShort_def\<close>)
next
  case (VDate n)
  show thesis
    by (rule date_codec.tx_Set_unlogged [OF inv hold can t, of off n rm_SetDate])
      (use fit VDate that in \<open>auto simp: val_fits_def codec_fits tx_SetDate_def\<close>)
qed

lemma tx_SetVal_logged:
  assumes inv: "pool_inv s" and hold: "tx_holds s t b i" and can: "can_xlock s t b" and t: "0 \<le> t"
    and fit: "val_fits (blk_view s b) off v" and kind: "same_kind old v"
    and old: "val_ok old" "has (blk_view s b) off (val_enc old)" and hd: "storable_header t b off"
    and sz: "record_size (val_rec t b off old) + 8 \<le> blockSize s" and h: "log_holds s l"
  obtains s' bs where "tx_SetVal t b off v True s = (Inr (), s')"
    and "updates t b (bsplice (nat off) (val_enc v) (blk_view s b)) s s'"
    and "log_holds s' (bs # l)" and "CreateLogRecord bs = Inr (val_rec t b off old)"
proof (cases v)
  case (VInt n)
  then obtain m where m: "old = VInt m" using kind by (cases old) auto
  show thesis
    by (rule int_codec.tx_Set_logged [OF inv hold can t, of off n m SetIntRecord l])
      (use fit VInt m old hd sz h that in \<open>auto simp: val_fits_def codec_fits tx_Set_defs\<close>)
next
  case (VString n)
  then obtain m where m: "old = VString m" using kind by (cases old) auto
  show thesis
    by (rule string_codec.tx_Set_logged [OF inv hold can t, of off n m SetStringRecord l])
      (use fit VString m old hd sz h that in \<open>auto simp: val_fits_def codec_fits tx_Set_defs\<close>)
next
  case (VBool n)
  then obtain m where m: "old = VBool m" using kind by (cases old) auto
  show thesis
    by (rule bool_codec.tx_Set_logged [OF inv hold can t, of off n m SetBoolRecord l])
      (use fit VBool m old hd sz h that in \<open>auto simp: val_fits_def codec_fits tx_Set_defs\<close>)
next
  case (VLong n)
  then obtain m where m: "old = VLong m" using kind by (cases old) auto
  show thesis
    by (rule long_codec.tx_Set_logged [OF inv hold can t, of off n m SetLongRecord l])
      (use fit VLong m old hd sz h that in \<open>auto simp: val_fits_def codec_fits tx_Set_defs\<close>)
next
  case (VShort n)
  then obtain m where m: "old = VShort m" using kind by (cases old) auto
  show thesis
    by (rule short_codec.tx_Set_logged [OF inv hold can t, of off n m SetShortRecord l])
      (use fit VShort m old hd sz h that in \<open>auto simp: val_fits_def codec_fits tx_Set_defs\<close>)
next
  case (VDate n)
  then obtain m where m: "old = VDate m" using kind by (cases old) auto
  show thesis
    by (rule date_codec.tx_Set_logged [OF inv hold can t, of off n m SetDateRecord l])
      (use fit VDate m old hd sz h that in \<open>auto simp: val_fits_def codec_fits tx_Set_defs\<close>)
qed

section \<open>Undo\<close>

lemma bufs_upd_locks [simp]:
  "x_locked (txn_upd t (\<lambda>x. x\<lparr>tx_bufs := f x\<rparr>) s) u c = x_locked s u c"
  "can_xlock (txn_upd t (\<lambda>x. x\<lparr>tx_bufs := f x\<rparr>) s) u c = can_xlock s u c"
  by (simp_all add: x_locked_def can_xlock_def)

lemma updates_trans:
  assumes "updates t b p s s'" and "updates t b q s' s''"
  shows "updates t b q s s''"
  using assms unfolding updates_def in_file_def same_pins_def by auto

lemma undo_val_spec:
  assumes inv: "pool_inv s" and hold: "tx_holds s t b i" and can: "can_xlock s t b" and t: "0 \<le> t"
    and fit: "val_fits (blk_view s b) off v"
  obtains s' where "Undo (val_rec u b off v) t s = (Inr (), s')"
    and "updates t b (bsplice (nat off) (val_enc v) (blk_view s b)) s s'"
    and "\<And>l. log_holds s' l = log_holds s l"
    and "\<And>lf it recs. it_at s' lf it recs = it_at s lf it recs"
proof -
  let ?p = "bsplice (nat off) (val_enc v) (blk_view s b)"
  obtain c where c: "1 \<le> c" "map_of (tx_bufs (txns s t)) b = Some (i, c)"
    using hold by (auto simp: tx_holds_def)
  let ?s1 = "txn_upd t (\<lambda>x. x\<lparr>tx_bufs := AList.update b (i, c + 1) (tx_bufs x)\<rparr>) s"
  have pin: "bl_Pin t b s = (Inr (), ?s1)"
    using c by (simp add: bl_Pin_def bnd_simps bl_set_def go_unfold)
  have h1: "tx_holds ?s1 t b i" "can_xlock ?s1 t b" "val_fits (blk_view ?s1 b) off v"
    using hold c can fit by (auto simp: tx_holds_def)
  have inv1: "pool_inv ?s1" using inv by simp
  obtain s2 where set: "tx_SetVal t b off v False ?s1 = (Inr (), s2)"
    and up: "updates t b (bsplice (nat off) (val_enc v) (blk_view ?s1 b)) ?s1 s2"
    and l: "\<And>l. log_holds s2 l = log_holds ?s1 l"
    and it: "\<And>lf it recs. it_at s2 lf it recs = it_at ?s1 lf it recs"
    by (rule tx_SetVal_unlogged [OF inv1 h1(1,2) t h1(3)]) blast
  have "map_of (tx_bufs (txns s2 t)) = map_of (tx_bufs (txns ?s1 t))"
    using up by (simp add: updates_def)
  then have e2: "map_of (tx_bufs (txns s2 t)) b = Some (i, c + 1)" by simp
  let ?s' = "txn_upd t (\<lambda>x. x\<lparr>tx_bufs := AList.update b (i, c) (tx_bufs x)\<rparr>) s2"
  have unpin: "bl_Unpin t b s2 = (Inr (), ?s')"
    using c e2 by (simp add: bl_Unpin_def bnd_simps bl_set_def go_unfold)
  have run: "Undo (val_rec u b off v) t s = (Inr (), ?s')"
    using pin set unpin by (simp add: Undo_val_rec undo_with_def bnd_Inr with_defer_def)
  have bufs: "map_of (tx_bufs (txns ?s' w)) = map_of (tx_bufs (txns s w))" for w
    using up c by (auto simp: updates_def fun_upd_idem)
  have held: "tx_holds ?s' w d j" if wd: "tx_holds s w d j" for w d j
  proof -
    have "tx_holds ?s1 w d j" using wd c by (auto simp: tx_holds_def)
    then have "tx_holds s2 w d j" using up by (simp add: updates_def)
    then show ?thesis using wd bufs by (simp add: tx_holds_def)
  qed
  have "updates t b ?p s ?s'"
    using up bufs held unfolding updates_def by (simp add: in_file_def same_pins_def)
  then show thesis using run l it by (intro that [of ?s']) simp_all
qed

section \<open>Rolling back\<close>

text \<open>A client's updates: block, offset and new value.\<close>

type_synonym update = "block_id \<times> int \<times> val"

definition run_updates :: "int \<Rightarrow> update list \<Rightarrow> ('z world_scheme, unit) go" where
  "run_updates t us = for_each us (\<lambda>(b, off, v). tx_SetVal t b off v True)"

text \<open>An update that \<open>Undo\<close> can invert: the bytes it overwrites are the encoding of a value of the
  same kind and size. For every type but strings that is any cell (a boolean's byte must be 0 or 1).\<close>

definition invertible :: "page \<Rightarrow> int \<Rightarrow> val \<Rightarrow> val \<Rightarrow> bool" where
  "invertible p off v old \<longleftrightarrow> same_kind old v \<and> val_ok old \<and> has p off (val_enc old) \<and>
     length (val_enc v) = length (val_enc old)"

definition update_view :: "update \<Rightarrow> (block_id \<Rightarrow> page) \<Rightarrow> block_id \<Rightarrow> page" where
  "update_view u V = (case u of (b, off, v) \<Rightarrow> V(b := bsplice (nat off) (val_enc v) (V b)))"

text \<open>The updates of a list are possible one after the other.\<close>

fun updates_ok :: "int \<Rightarrow> int \<Rightarrow> (block_id \<Rightarrow> page) \<Rightarrow> update list \<Rightarrow> bool" where
  "updates_ok t bs V [] \<longleftrightarrow> True"
| "updates_ok t bs V ((b, off, v) # us) \<longleftrightarrow>
     val_fits (V b) off v \<and> storable_header t b off \<and>
     (\<exists>old. invertible (V b) off v old \<and> record_size (val_rec t b off old) + 8 \<le> bs) \<and>
     updates_ok t bs (update_view (b, off, v) V) us"

lemma invertible_restores:
  assumes "invertible p off v old" and "val_fits p off v"
  shows "bsplice (nat off) (val_enc old) (bsplice (nat off) (val_enc v) p) = p"
    and "val_fits (bsplice (nat off) (val_enc v) p) off old"
proof -
  have l: "nat off + length (val_enc v) \<le> length p" "0 \<le> off" "length (val_enc old) = length (val_enc v)"
    using assms by (auto simp: invertible_def val_fits_def)
  have "bsplice (nat off) (val_enc old) p = p"
  proof (rule nth_equalityI)
    show "length (bsplice (nat off) (val_enc old) p) = length p" using l by simp
    fix i
    assume "i < length (bsplice (nat off) (val_enc old) p)"
    then have i: "i < length p" using l by simp
    have "bslice (nat off) (length (val_enc old)) p = val_enc old"
      using assms(1) by (simp add: invertible_def has_def)
    then have "val_enc old ! (i - nat off) = p ! i"
      if "nat off \<le> i" "i < nat off + length (val_enc old)"
      using that l i nth_bslice [of "i - nat off" "length (val_enc old)" "nat off" p] by simp
    then show "bsplice (nat off) (val_enc old) p ! i = p ! i"
      using i l by (simp add: nth_bsplice)
  qed
  then show "bsplice (nat off) (val_enc old) (bsplice (nat off) (val_enc v) p) = p"
    using l by (simp add: bsplice_again)
  show "val_fits (bsplice (nat off) (val_enc v) p) off old"
    using assms l by (simp add: val_fits_def invertible_def)
qed

text \<open>A step that only opens files or counts reads.\<close>

definition quiet :: "'z world_scheme \<Rightarrow> 'z world_scheme \<Rightarrow> bool" where
  "quiet s s' \<longleftrightarrow> fm_frame s s' \<and> (\<forall>n. fileBytes s' n = fileBytes s n)"

lemma quiet_same:
  assumes "quiet s s'"
  shows "pool_inv s' = pool_inv s" and "blk_view s' c = blk_view s c"
    and "log_holds s' l = log_holds s l" and "it_at s' lf it recs = it_at s lf it recs"
    and "nblocks s' n = nblocks s n" and "in_file s' c = in_file s c"
    and "blockSize s' = blockSize s" and "logFile s' = logFile s" and "latestLSN s' = latestLSN s"
    and "tx_holds s' t b i = tx_holds s t b i" and "can_xlock s' t b = can_xlock s t b"
    and "bufferPool s' = bufferPool s" and "pool_state.more s' = pool_state.more s"
proof -
  have fr: "fm_frame s s'" and fb: "\<And>n. fileBytes s' n = fileBytes s n"
    using assms by (simp_all add: quiet_def)
  note same = fm_frame_same_blocks [OF fr fb] and p = lm_frame_pool [OF lm_frame_fm [OF fr]]
  note m = more_world [OF p(3)]
  show bs: "blockSize s' = blockSize s" "logFile s' = logFile s" "latestLSN s' = latestLSN s"
    using fr by simp_all
  show "bufferPool s' = bufferPool s" "pool_state.more s' = pool_state.more s" using p by simp_all
  show h: "log_holds s' l = log_holds s l" for l by (rule log_holds_same [OF fr fb])
  show nb: "nblocks s' n = nblocks s n" for n by (rule same)
  show inf: "in_file s' c = in_file s c" for c by (simp add: in_file_def nb)
  have "buf_ok s' b = buf_ok s b" for b
    by (simp add: buf_ok_def bs inf same split: option.splits)
  then show "pool_inv s' = pool_inv s" by (simp add: pool_inv_def p h)
  show "blk_view s' c = blk_view s c" by (simp add: blk_view_def p same split: option.splits)
  show "it_at s' lf it recs = it_at s lf it recs" by (simp add: it_at_def bs same)
  show "tx_holds s' t b i = tx_holds s t b i" by (simp add: tx_holds_def m p)
  show "can_xlock s' t b = can_xlock s t b" by (simp add: can_xlock_def x_locked_def m)
qed

lemma it_Next_quiet:
  assumes "it_at s lf it (r # recs)"
  obtains s' it' where "it_Next it s = (Inr (r, it'), s')" and "it_at s' lf it' recs" and "quiet s s'"
  using assms by (rule it_Next_spec) (auto simp: quiet_def)

text \<open>Records of other transactions are skipped.\<close>

lemma rollback_skip:
  assumes "it_at s lf it l" and "length l < n"
    and "\<forall>bs \<in> set l. \<exists>r. CreateLogRecord bs = Inr r \<and> record_TxNumber r \<noteq> t"
  shows "\<exists>s'. rollback_loop n t it s = (Inr (), s') \<and> quiet s s'"
  using assms
proof (induction n arbitrary: s it l)
  case 0
  then show ?case by simp
next
  case (Suc n)
  show ?case
  proof (cases l)
    case Nil
    then show ?thesis
      using it_HasNext_iff [OF Suc.prems(1)] by (simp add: quiet_def fm_frame_refl)
  next
    case (Cons b l')
    obtain s1 it' where nx: "it_Next it s = (Inr (b, it'), s1)" "it_at s1 lf it' l'" "quiet s s1"
      by (rule it_Next_quiet [OF Suc.prems(1) [unfolded Cons]])
    obtain r where r: "CreateLogRecord b = Inr r" "record_TxNumber r \<noteq> t"
      using Suc.prems(3) Cons by auto
    obtain s' where s': "rollback_loop n t it' s1 = (Inr (), s')" "quiet s1 s'"
      using Suc.IH [OF nx(2)] Suc.prems(2,3) Cons by auto
    have "quiet s s'"
      using nx(3) s'(2) by (auto simp: quiet_def intro: fm_frame_trans)
    then show ?thesis
      using it_HasNext_iff [OF Suc.prems(1)] Cons nx(1) r s'(1) by (simp add: bnd_Inr bnd_simps)
  qed
qed

lemma foldl_update_view:
  "V c = W c \<Longrightarrow> foldl (\<lambda>V u. update_view u V) V us c = foldl (\<lambda>V u. update_view u V) W us c"
proof (induction us arbitrary: V W)
  case Nil
  then show ?case by simp
next
  case (Cons u us)
  have "update_view u V c = update_view u W c"
    using Cons.prems by (cases u) (auto simp: update_view_def)
  then show ?case using Cons.IH [of "update_view u V" "update_view u W"] by simp
qed

text \<open>What undoing or redoing the update \<open>(b, off, v)\<close> needs.\<close>

definition can_update :: "'z world_scheme \<Rightarrow> int \<Rightarrow> update \<Rightarrow> bool" where
  "can_update s t u = (case u of (b, off, v) \<Rightarrow> (\<exists>i. tx_holds s t b i) \<and> can_xlock s t b \<and>
     val_ok v \<and> 0 \<le> off \<and> nat off + length (val_enc v) \<le> nat (blockSize s))"

lemma tx_holds_data:
  assumes "pool_inv s" and "tx_holds s t b i"
  shows "in_file s b" and "File b \<noteq> logFile s" and "length (blk_view s b) = nat (blockSize s)"
    and "0 \<le> blockSize s"
proof -
  have "buf_ok s (bufferPool s ! i)" using assms by (intro pool_inv_buf_ok) (simp_all add: tx_holds_def)
  moreover have "contents (bufferPool s ! i) = blk_view s b" using assms by (rule tx_holds_view)
  ultimately show "in_file s b" and "File b \<noteq> logFile s"
    and "length (blk_view s b) = nat (blockSize s)" and "0 \<le> blockSize s"
    using assms(2) by (auto simp: buf_ok_def tx_holds_def)
qed

text \<open>Undoing a run of update records of the transaction, newest first.\<close>

lemma rollback_undoes:
  assumes "pool_inv s" and "0 \<le> t" and "\<forall>u \<in> set us. can_update s t u"
    and "list_all2 (\<lambda>bs (b, off, v). CreateLogRecord bs = Inr (val_rec t b off v)) bl us"
    and "it_at s (logFile s) it (bl @ rest)"
  shows "\<exists>s' it'. rollback_loop (length us + n) t it s = rollback_loop n t it' s' \<and> pool_inv s' \<and>
    it_at s' (logFile s) it' rest \<and> blockSize s' = blockSize s \<and> logFile s' = logFile s \<and>
    (\<forall>n. n \<noteq> logFile s \<longrightarrow> nblocks s' n = nblocks s n) \<and> (\<forall>l. log_holds s' l = log_holds s l) \<and>
    (\<forall>c. in_file s c \<longrightarrow> File c \<noteq> logFile s \<longrightarrow>
       blk_view s' c = foldl (\<lambda>V u. update_view u V) (blk_view s) us c)"
  using assms
proof (induction us arbitrary: s it bl)
  case Nil
  then show ?case by (intro exI [of _ s] exI [of _ it]) simp
next
  case (Cons u us)
  obtain b off v where u: "u = (b, off, v)" by (cases u)
  obtain bs bl' where bl: "bl = bs # bl'" "CreateLogRecord bs = Inr (val_rec t b off v)"
    "list_all2 (\<lambda>bs (b, off, v). CreateLogRecord bs = Inr (val_rec t b off v)) bl' us"
    using Cons.prems(4) by (auto simp: list_all2_Cons2 u)
  obtain s1 it' where nx: "it_Next it s = (Inr (bs, it'), s1)"
    "it_at s1 (logFile s) it' (bl' @ rest)" "quiet s s1"
    by (rule it_Next_quiet [of s "logFile s" it bs "bl' @ rest"]) (use Cons.prems(5) bl in auto)
  note q = quiet_same [OF nx(3)]
  obtain i where c: "tx_holds s t b i" "can_xlock s t b" "val_ok v" "0 \<le> off"
    "nat off + length (val_enc v) \<le> nat (blockSize s)"
    using Cons.prems(3) by (auto simp: u can_update_def)
  note data = tx_holds_data [OF Cons.prems(1) c(1)]
  have c1: "pool_inv s1" "tx_holds s1 t b i" "can_xlock s1 t b" "val_fits (blk_view s1 b) off v"
    using Cons.prems(1) c data by (simp_all add: q val_fits_def)
  obtain s2 where un: "Undo (val_rec t b off v) t s1 = (Inr (), s2)"
    and up: "updates t b (bsplice (nat off) (val_enc v) (blk_view s1 b)) s1 s2"
    and l2: "\<And>l. log_holds s2 l = log_holds s1 l"
    and it2: "\<And>lf it recs. it_at s2 lf it recs = it_at s1 lf it recs"
    by (rule undo_val_spec [OF c1(1-3) Cons.prems(2) c1(4), of t]) blast
  have up': "pool_inv s2" "blockSize s2 = blockSize s" "logFile s2 = logFile s"
    "\<And>n. n \<noteq> logFile s \<Longrightarrow> nblocks s2 n = nblocks s n"
    using up by (simp_all add: updates_def q)
  have can2: "\<forall>u \<in> set us. can_update s2 t u"
    using Cons.prems(3) up by (fastforce simp: can_update_def updates_def q)
  have at2: "it_at s2 (logFile s2) it' (bl' @ rest)" using nx(2) it2 up'(3) by simp
  obtain s' it'' where s': "rollback_loop (length us + n) t it' s2 = rollback_loop n t it'' s'"
    "pool_inv s'" "it_at s' (logFile s2) it'' rest" "blockSize s' = blockSize s2"
    "logFile s' = logFile s2" "\<forall>n. n \<noteq> logFile s2 \<longrightarrow> nblocks s' n = nblocks s2 n"
    "\<forall>l. log_holds s' l = log_holds s2 l"
    "\<forall>c. in_file s2 c \<longrightarrow> File c \<noteq> logFile s2 \<longrightarrow>
       blk_view s' c = foldl (\<lambda>V u. update_view u V) (blk_view s2) us c"
    using Cons.IH [OF up'(1) Cons.prems(2) can2 bl(3) at2] by blast
  have view: "blk_view s' d = foldl (\<lambda>V u. update_view u V) (blk_view s) (u # us) d"
    if d: "in_file s d" "File d \<noteq> logFile s" for d
  proof -
    have "in_file s2 d" using d up'(4) by (simp add: in_file_def)
    then have "blk_view s' d = foldl (\<lambda>V u. update_view u V) (blk_view s2) us d"
      using s'(8) d(2) up'(3) by simp
    also have "blk_view s2 d = update_view u (blk_view s) d"
      using up d by (simp add: updates_def update_view_def u q)
    then have "foldl (\<lambda>V u. update_view u V) (blk_view s2) us d =
        foldl (\<lambda>V u. update_view u V) (update_view u (blk_view s)) us d"
      by (rule foldl_update_view)
    finally show ?thesis by simp
  qed
  have "rollback_loop (length (u # us) + n) t it s = rollback_loop n t it'' s'"
    using it_HasNext_iff [OF Cons.prems(5)] bl nx(1) un s'(1) by (simp add: bnd_Inr bnd_simps)
  then show ?case
    using s' up' view l2 q by (intro exI [of _ s'] exI [of _ it'']) simp
qed

lemma updates_ok_cong:
  "\<forall>u \<in> set us. V (fst u) = W (fst u) \<Longrightarrow> updates_ok t k V us = updates_ok t k W us"
proof (induction us arbitrary: V W)
  case Nil
  then show ?case by simp
next
  case (Cons u us)
  obtain b off v where u: "u = (b, off, v)" by (cases u)
  have "updates_ok t k (update_view u V) us = updates_ok t k (update_view u W) us"
    using Cons.prems by (intro Cons.IH) (auto simp: update_view_def u)
  then show ?case using Cons.prems by (simp add: u)
qed

text \<open>A transaction's logged updates: the views they make, the records they log, and that undoing
  those records gives the old views back.\<close>

lemma run_updates_spec:
  assumes "pool_inv s" and "0 \<le> t"
    and "\<forall>u \<in> set us. (\<exists>i. tx_holds s t (fst u) i) \<and> can_xlock s t (fst u)"
    and "updates_ok t (blockSize s) (blk_view s) us" and "log_holds s l"
  shows "\<exists>s' bl undos. run_updates t us s = (Inr (), s') \<and> pool_inv s' \<and>
    blockSize s' = blockSize s \<and> logFile s' = logFile s \<and>
    (\<forall>n. n \<noteq> logFile s \<longrightarrow> nblocks s' n = nblocks s n) \<and> log_holds s' (bl @ l) \<and>
    list_all2 (\<lambda>bs (b, off, v). CreateLogRecord bs = Inr (val_rec t b off v)) bl undos \<and>
    length bl = length us \<and> (\<forall>u \<in> set undos. can_update s' t u) \<and>
    (\<forall>c i. tx_holds s t c i \<longrightarrow> tx_holds s' t c i) \<and> (\<forall>c. can_xlock s t c \<longrightarrow> can_xlock s' t c) \<and>
    (\<forall>c. in_file s c \<longrightarrow> File c \<noteq> logFile s \<longrightarrow>
       blk_view s' c = foldl (\<lambda>V u. update_view u V) (blk_view s) us c \<and>
       foldl (\<lambda>V u. update_view u V) (blk_view s') undos c = blk_view s c)"
  using assms
proof (induction us arbitrary: s l)
  case Nil
  then show ?case by (intro exI [of _ s] exI [of _ "[]"]) (simp add: run_updates_def go_unfold)
next
  case (Cons u us)
  obtain b off v where u: "u = (b, off, v)" by (cases u)
  obtain i where hold: "tx_holds s t b i" and can: "can_xlock s t b"
    using Cons.prems(3) by (auto simp: u)
  obtain old where ok: "val_fits (blk_view s b) off v" "storable_header t b off"
    "invertible (blk_view s b) off v old" "record_size (val_rec t b off old) + 8 \<le> blockSize s"
    "updates_ok t (blockSize s) (update_view u (blk_view s)) us"
    using Cons.prems(4) by (auto simp: u)
  have old: "same_kind old v" "val_ok old" "has (blk_view s b) off (val_enc old)"
    "length (val_enc v) = length (val_enc old)"
    using ok(3) by (simp_all add: invertible_def)
  note res = invertible_restores [OF ok(3,1)] and data = tx_holds_data [OF Cons.prems(1) hold]
  obtain s1 bs where set: "tx_SetVal t b off v True s = (Inr (), s1)"
    and up: "updates t b (bsplice (nat off) (val_enc v) (blk_view s b)) s s1"
    and h1: "log_holds s1 (bs # l)" and bs: "CreateLogRecord bs = Inr (val_rec t b off old)"
    by (rule tx_SetVal_logged [OF Cons.prems(1) hold can Cons.prems(2) ok(1) old(1-3) ok(2,4) Cons.prems(5)])
      blast
  have up': "pool_inv s1" "blockSize s1 = blockSize s" "logFile s1 = logFile s"
    "\<And>n. n \<noteq> logFile s \<Longrightarrow> nblocks s1 n = nblocks s n"
    "\<And>c. in_file s c \<Longrightarrow> File c \<noteq> logFile s \<Longrightarrow> blk_view s1 c = update_view u (blk_view s) c"
    "\<And>c i. tx_holds s t c i \<Longrightarrow> tx_holds s1 t c i" "\<And>c. can_xlock s t c \<Longrightarrow> can_xlock s1 t c"
    using up by (simp_all add: updates_def update_view_def u)
  have can1: "\<forall>u \<in> set us. (\<exists>i. tx_holds s1 t (fst u) i) \<and> can_xlock s1 t (fst u)"
    using Cons.prems(3) up'(6,7) by fastforce
  have "blk_view s1 (fst w) = update_view u (blk_view s) (fst w)" if w: "w \<in> set us" for w
  proof -
    obtain j where "tx_holds s t (fst w) j" using Cons.prems(3) w by auto
    then show ?thesis using tx_holds_data(1,2) [OF Cons.prems(1)] by (intro up'(5))
  qed
  then have ok1: "updates_ok t (blockSize s1) (blk_view s1) us"
    using ok(5) up'(2) updates_ok_cong [of us "blk_view s1" "update_view u (blk_view s)"] by simp
  obtain s' bl undos where s': "run_updates t us s1 = (Inr (), s')" "pool_inv s'"
    "blockSize s' = blockSize s1" "logFile s' = logFile s1"
    "\<forall>n. n \<noteq> logFile s1 \<longrightarrow> nblocks s' n = nblocks s1 n" "log_holds s' (bl @ bs # l)"
    "list_all2 (\<lambda>bs (b, off, v). CreateLogRecord bs = Inr (val_rec t b off v)) bl undos"
    "length bl = length us" "\<forall>u \<in> set undos. can_update s' t u"
    "\<forall>c i. tx_holds s1 t c i \<longrightarrow> tx_holds s' t c i" "\<forall>c. can_xlock s1 t c \<longrightarrow> can_xlock s' t c"
    and views: "\<forall>c. in_file s1 c \<longrightarrow> File c \<noteq> logFile s1 \<longrightarrow>
       blk_view s' c = foldl (\<lambda>V u. update_view u V) (blk_view s1) us c \<and>
       foldl (\<lambda>V u. update_view u V) (blk_view s') undos c = blk_view s1 c"
    using Cons.IH [OF up'(1) Cons.prems(2) can1 ok1 h1] by blast
  let ?undos = "undos @ [(b, off, old)]"
  have run: "run_updates t (u # us) s = (Inr (), s')"
    using set s'(1) by (simp add: run_updates_def u bnd_Inr)
  have "tx_holds s' t b i" "can_xlock s' t b"
    using hold can up'(6,7) s'(10,11) by blast+
  then have "can_update s' t (b, off, old)"
    using up'(2) s'(3) old(2) res(2) data(3) ok(1) old(4)
    by (auto simp: can_update_def val_fits_def)
  then have cans: "\<forall>u \<in> set ?undos. can_update s' t u" using s'(9) by auto
  have view: "blk_view s' c = foldl (\<lambda>V u. update_view u V) (blk_view s) (u # us) c \<and>
      foldl (\<lambda>V u. update_view u V) (blk_view s') ?undos c = blk_view s c"
    if c: "in_file s c" "File c \<noteq> logFile s" for c
  proof -
    have "in_file s1 c" using c up'(4) by (simp add: in_file_def)
    then have v: "blk_view s' c = foldl (\<lambda>V u. update_view u V) (blk_view s1) us c"
      "foldl (\<lambda>V u. update_view u V) (blk_view s') undos c = blk_view s1 c"
      using views c(2) up'(3) by simp_all
    have "foldl (\<lambda>V u. update_view u V) (blk_view s1) us c =
        foldl (\<lambda>V u. update_view u V) (update_view u (blk_view s)) us c"
      by (rule foldl_update_view) (rule up'(5) [OF c])
    moreover have "update_view (b, off, old) (foldl (\<lambda>V u. update_view u V) (blk_view s') undos) c =
        blk_view s c"
      using v(2) up'(5) [OF c] res(1) by (auto simp: update_view_def u)
    ultimately show ?thesis using v(1) by simp
  qed
  have all2: "list_all2 (\<lambda>bs (b, off, v). CreateLogRecord bs = Inr (val_rec t b off v)) (bl @ [bs]) ?undos"
    using s'(7) bs by (intro list_all2_appendI) simp_all
  have sizes: "blockSize s' = blockSize s" "logFile s' = logFile s"
    "\<forall>n. n \<noteq> logFile s \<longrightarrow> nblocks s' n = nblocks s n" "length (bl @ [bs]) = length (u # us)"
    "log_holds s' ((bl @ [bs]) @ l)"
    using s'(3-6,8) up'(2-4) by simp_all
  have locks: "\<forall>c i. tx_holds s t c i \<longrightarrow> tx_holds s' t c i" "\<forall>c. can_xlock s t c \<longrightarrow> can_xlock s' t c"
    using s'(10,11) up'(6,7) by blast+
  from run s'(2) sizes all2 cans locks view show ?case by blast
qed

lemma rm_doRollback_spec:
  assumes inv: "pool_inv s" and t: "0 \<le> t" and can: "\<forall>u \<in> set us. can_update s t u"
    and bl: "list_all2 (\<lambda>bs (b, off, v). CreateLogRecord bs = Inr (val_rec t b off v)) bl us"
    and h: "log_holds s (bl @ rest)" and n: "length bl + length rest < n"
    and other: "\<forall>bs \<in> set rest. \<exists>r. CreateLogRecord bs = Inr r \<and> record_TxNumber r \<noteq> t"
  shows "\<exists>s'. rm_doRollback n t s = (Inr (), s') \<and> pool_inv s' \<and> blockSize s' = blockSize s \<and>
    log_holds s' (bl @ rest) \<and> logFile s' = logFile s \<and>
    (\<forall>n. n \<noteq> logFile s \<longrightarrow> nblocks s' n = nblocks s n) \<and>
    (\<forall>c. in_file s c \<longrightarrow> File c \<noteq> logFile s \<longrightarrow>
       blk_view s' c = foldl (\<lambda>V u. update_view u V) (blk_view s) us c)"
proof -
  obtain recss cur where lm: "lm_inv s recss cur" and l: "bl @ rest = log_of recss cur"
    using h by (auto simp: log_holds_def)
  obtain s1 it where it: "lm_Iterator s = (Inr it, s1)" "lm_inv s1 recss cur"
    "it_at s1 (logFile s) it (bl @ rest)" and fr: "lm_frame s s1" and df: "data_frame s s1"
    by (rule lm_Iterator_spec [OF lm]) (simp add: l)
  have h1: "log_holds s1 (bl @ rest)" using it(2) l by (auto simp: log_holds_def)
  note p = lm_frame_pool [OF fr] and d = data_frame_same [OF df] and w = lm_frame_world [OF fr]
  note p1 = pool_inv_log [OF inv fr df h1]
  have can1: "\<forall>u \<in> set us. can_update s1 t u"
    using can by (simp add: can_update_def tx_holds_def can_xlock_def x_locked_def p w d)
  have len: "length bl = length us" using bl by (rule list_all2_lengthD)
  have at1: "it_at s1 (logFile s1) it (bl @ rest)" using it(3) d(2) by simp
  obtain s2 it' where s2: "rollback_loop (length us + (n - length us)) t it s1 =
      rollback_loop (n - length us) t it' s2" "pool_inv s2" "it_at s2 (logFile s1) it' rest"
    "blockSize s2 = blockSize s1" "logFile s2 = logFile s1"
    "\<forall>n. n \<noteq> logFile s1 \<longrightarrow> nblocks s2 n = nblocks s1 n" "\<forall>l. log_holds s2 l = log_holds s1 l"
    and v2: "\<forall>c. in_file s1 c \<longrightarrow> File c \<noteq> logFile s1 \<longrightarrow>
       blk_view s2 c = foldl (\<lambda>V u. update_view u V) (blk_view s1) us c"
    using rollback_undoes [OF p1(1) t can1 bl at1, of "n - length us"] by blast
  have "length rest < n - length us" using n len by simp
  then obtain s3 where s3: "rollback_loop (n - length us) t it' s2 = (Inr (), s3)" "quiet s2 s3"
    using rollback_skip [OF s2(3) _ other] by blast
  note q = quiet_same [OF s3(2)]
  have "blk_view s3 c = foldl (\<lambda>V u. update_view u V) (blk_view s) us c"
    if c: "in_file s c" "File c \<noteq> logFile s" for c
  proof -
    have "blk_view s2 c = foldl (\<lambda>V u. update_view u V) (blk_view s1) us c"
      using v2 c d(2) d(5) [OF c(2)] by simp
    also have "\<dots> = foldl (\<lambda>V u. update_view u V) (blk_view s) us c"
      by (rule foldl_update_view) (rule p1(2) [OF c])
    finally show ?thesis by (simp add: q)
  qed
  moreover have "rm_doRollback n t s = (Inr (), s3)"
    using it(1) s2(1) s3(1) n len by (simp add: rm_doRollback_def bnd_Inr)
  ultimately show ?thesis
    using s2 h1 d by (intro exI [of _ s3]) (simp add: q)
qed

section \<open>Properties of transactions\<close>



text \<open>C6. Commit is durable: when \<open>Commit\<close> of the recovery manager returns, the disk holds the
  contents of every block whose buffer the transaction had modified, the newest record of the log is
  its commit record, and everything in the log is on the disk.\<close>

theorem commit_durable:
  assumes "pool_inv s" and "0 \<le> t" and "int32_range t" and "log_holds s l" and "16 \<le> blockSize s"
  shows "\<exists>s' bs. rm_Commit t s = (Inr (), s') \<and> pool_inv s' \<and> log_holds s' (bs # l) \<and>
    CreateLogRecord bs = Inr (CommitRecord t) \<and> lastSavedLSN s' \<ge> latestLSN s' \<and>
    (\<forall>b \<in> set (bufferPool s). \<forall>blk. txnNum b = t \<longrightarrow> buf_block b = Some blk \<longrightarrow>
       disk_block s' blk = blk_view s blk)"
proof -
  obtain s1 where s1: "bm_FlushAll t s = (Inr (), s1)" "pool_inv s1" and fr: "pool_frame s s1"
    and each: "\<And>j. j < length (bufferPool s) \<Longrightarrow> \<exists>k. bufferPool s1 ! j = (bufferPool s ! j)\<lparr>txnNum := k\<rparr> \<and>
       (k = txnNum (bufferPool s ! j) \<or> k < 0) \<and> (txnNum (bufferPool s ! j) = t \<longrightarrow> k < 0)"
    by (rule bm_FlushAll_spec [OF assms(1,2)]) blast
  have h1: "log_holds s1 l" and bs1: "blockSize s1 = blockSize s" and lf: "logFile s1 = logFile s"
    and len: "length (bufferPool s1) = length (bufferPool s)"
    using fr assms(4) by (simp_all add: pool_frame_def)
  have fit: "storable_record (CommitRecord t)" "record_size (CommitRecord t) + 8 \<le> blockSize s1"
    using assms(3,5) bs1 by simp_all
  obtain s2 bs where s2: "write_record (CommitRecord t) s1 = (Inr (latestLSN s1 + 1), s2)"
    "log_holds s2 (bs # l)" "CreateLogRecord bs = Inr (read_as (CommitRecord t))"
    and fr2: "lm_frame s1 s2" and df2: "data_frame s1 s2" and l2: "latestLSN s2 = latestLSN s1 + 1"
    by (rule write_record_spec [OF h1 fit]) blast
  obtain s3 where s3: "lm_Flush (latestLSN s1 + 1) s2 = (Inr (), s3)"
    "\<And>l. log_holds s2 l \<Longrightarrow> log_holds s3 l" and fr3: "lm_frame s2 s3" and df3: "data_frame s2 s3"
    and l3: "latestLSN s3 = latestLSN s2"
    and sv: "latestLSN s1 + 1 \<le> latestLSN s2 \<Longrightarrow> latestLSN s1 + 1 \<le> lastSavedLSN s3"
    by (rule lm_Flush_all [OF s2(2), of "latestLSN s1 + 1"]) blast
  note i2 = pool_inv_log [OF s1(2) fr2 df2 s2(2)]
  note i3 = pool_inv_log [OF i2(1) fr3 df3 s3(2) [OF s2(2)]]
  have run: "rm_Commit t s = (Inr (), s3)"
    using s1(1) s2(1) s3(1) by (simp add: rm_Commit_def WriteCommitToLog_def bnd_Inr)
  have dur: "disk_block s3 blk = blk_view s blk"
    if j: "j < length (bufferPool s)" "txnNum (bufferPool s ! j) = t"
      "buf_block (bufferPool s ! j) = Some blk" for j blk
  proof -
    obtain k where k: "bufferPool s1 ! j = (bufferPool s ! j)\<lparr>txnNum := k\<rparr>" "k < 0"
      using each [OF j(1)] j(2) by blast
    have "buf_ok s1 (bufferPool s1 ! j)" using s1(2) j(1) len by (intro pool_inv_buf_ok) simp_all
    then have b: "disk_block s1 blk = contents (bufferPool s ! j)" "in_file s1 blk" "File blk \<noteq> logFile s1"
      using k j(3) by (simp_all add: buf_ok_def)
    then have "disk_block s3 blk = disk_block s1 blk"
      using data_frame_same [OF df2] data_frame_same [OF df3] by simp
    then show ?thesis using b(1) blk_view_buffer [OF assms(1) j(1,3)] by simp
  qed
  show ?thesis
    using run i3(1) s3(2) [OF s2(2)] s2(3) l2 l3 sv dur
    by (intro exI [of _ s3] exI [of _ bs]) (auto simp: in_set_conv_nth)
qed

section \<open>A concrete world\<close>

text \<open>Transaction 1 has pinned block 1 of \<open>t.tbl\<close>, 64 zero bytes; nobody holds a lock.\<close>

lemma demo_world_pool:
  obtains s :: world where "pool_inv s" and "log_holds s []" and "blockSize s = 64"
    and "logFile s = ''log''" and "tx_holds s 1 demo_blk 0" and "can_xlock s 1 demo_blk"
    and "blk_view s demo_blk = replicate 64 0"
    and "length (bufferPool s) = 2" and "\<not> isPinned (bufferPool s ! 1)"
proof -
  have i: "0 < length (bufferPool demo_pool)" "\<not> isPinned (bufferPool demo_pool ! 0)"
    and new: "\<forall>j < length (bufferPool demo_pool). buf_block (bufferPool demo_pool ! j) \<noteq> Some demo_blk"
    using demo_pool_inv(7,8) by (simp_all add: all_set_conv_all_nth)
  obtain p b' where p: "pool_inv p" "bufferPool p = (bufferPool demo_pool)[0 := b']"
    "buf_block b' = Some demo_blk" "contents b' = disk_block demo_pool demo_blk" "pool_frame demo_pool p"
    by (rule buf_assignToBlock_spec [OF demo_pool_inv(1) i demo_pool_inv(4,5) new]) blast
  define s :: world where "s = pool_state.extend p (world.fields Map.empty
    (\<lambda>_. \<lparr>tx_own = [], tx_bufs = [(demo_blk, 0, 1)]\<rparr>) 1)"
  have f: "blockSize s = blockSize p" "logFile s = logFile p" "logPage s = logPage p"
    "currentBlock s = currentBlock p" "latestLSN s = latestLSN p" "lastSavedLSN s = lastSavedLSN p"
    "bufferPool s = bufferPool p" "numAvailable s = numAvailable p" "\<And>m. fileBytes s m = fileBytes p m"
    "locks s = Map.empty" "txns s = (\<lambda>_. \<lparr>tx_own = [], tx_bufs = [(demo_blk, 0, 1)]\<rparr>)"
    by (simp_all add: s_def pool_state.defs world.defs fileBytes_def)
  have g: "fm_wf s = fm_wf p" "\<And>m. nblocks s m = nblocks p m" "\<And>c. disk_block s c = disk_block p c"
    "\<And>c. in_file s c = in_file p c"
    by (simp_all add: fm_wf_def nblocks_def disk_block_def in_file_def f)
  have h: "log_holds s l = log_holds p l" for l
    by (simp add: log_holds_def lm_inv_def log_saved_def older_def f g)
  have inv: "pool_inv s = pool_inv p"
    by (simp add: pool_inv_def h f buf_ok_def g split: option.splits cong: option.case_cong)
  have p0: "0 < length (bufferPool p)" "buf_block (bufferPool p ! 0) = Some demo_blk"
    "contents (bufferPool p ! 0) = replicate 64 0"
    using p i demo_pool_inv(10) by simp_all
  have "blk_view s demo_blk = blk_view p demo_blk"
    by (simp add: blk_view_def f g split: option.splits)
  also have "\<dots> = replicate 64 0" using blk_view_buffer [OF p(1) p0(1,2)] p0(3) by simp
  finally have v: "blk_view s demo_blk = replicate 64 0" .
  have "bufferPool demo_pool ! 1 \<in> set (bufferPool demo_pool)" using demo_pool_inv(7) by (intro nth_mem) simp
  then have "\<not> isPinned (bufferPool demo_pool ! 1)" using demo_pool_inv(8) by blast
  then have free: "\<not> isPinned (bufferPool p ! 1)" using p(2) by simp
  show thesis
    by (rule that [of s])
      (use p p0 v free in \<open>simp_all add: inv h f demo_pool_inv pool_frame_def tx_holds_def can_xlock_def
        x_locked_def getLockVal_def\<close>)
qed

lemma demo_world:
  obtains s :: world where "pool_inv s" and "log_holds s []" and "blockSize s = 64"
    and "logFile s = ''log''" and "tx_holds s 1 demo_blk 0" and "can_xlock s 1 demo_blk"
    and "blk_view s demo_blk = replicate 64 0"
  by (rule demo_world_pool) blast

lemma demo_header: "storable_header 1 demo_blk 8" "value_pos (File demo_blk) = 40"
proof -
  have "storable_string ''t.tbl''"
    by (simp add: storable_string_def utf8_valid_ascii ascii_def)
  then show "storable_header 1 demo_blk 8"
    by (simp add: storable_header_def NewBlockId_def int32_range_def)
  show "value_pos (File demo_blk) = 40"
    by (simp add: value_pos_def MaxLength_def IntSize_def NewBlockId_def)
qed

lemma enc_zero: "enc_int 0 = replicate 4 0"
  by (simp add: enc_int_def numeral_eq_Suc)

lemma has_zero: "has (replicate 64 0) 8 (enc_int 0)"
  by (simp add: has_def enc_zero bslice_def)



lemma commit_durable_witness:
  "\<exists>s s' :: world. \<exists>bs. rm_Commit 1 s = (Inr (), s') \<and> log_holds s' [bs] \<and>
    CreateLogRecord bs = Inr (CommitRecord 1)"
proof -
  obtain s :: world where s: "pool_inv s" "log_holds s []" "blockSize s = 64"
    by (rule demo_world) blast
  then show ?thesis using commit_durable [OF s(1) _ _ s(2), of 1] by (auto simp: int32_range_def)
qed

end
