(* ===== verification/Lexer.thy ===== *)
theory Lexer
  imports Tx
begin

text \<open>
  \<^verbatim>\<open>parse/lexer.go\<close>: the tokens of an SQL statement.

  The lexer's state is the input from its position on and the current token. Runes are decoded
  from UTF-8 as \<open>utf8.DecodeRuneInString\<close> does; the classes and lower case of runes from 128 on
  come from the Unicode tables of the standard library, a parameter (\<open>unicode\<close>) that is never
  consulted for ASCII. \<open>strconv.Atoi\<close> and \<open>time.Parse\<close> are modelled for the layouts the code uses.
\<close>

section \<open>Runes\<close>

record unicode =
  uc_letter :: "nat \<Rightarrow> bool"
  uc_digit :: "nat \<Rightarrow> bool"
  uc_space :: "nat \<Rightarrow> bool"
  uc_lower :: "nat \<Rightarrow> nat"

text \<open>Tables that know no rune beyond ASCII.\<close>

definition ascii_tables :: unicode where
  "ascii_tables = \<lparr>uc_letter = (\<lambda>_. False), uc_digit = (\<lambda>_. False), uc_space = (\<lambda>_. False), uc_lower = id\<rparr>"

definition in_range :: "nat \<Rightarrow> nat \<Rightarrow> nat \<Rightarrow> bool" where
  "in_range a b n \<longleftrightarrow> a \<le> n \<and> n \<le> b"

text \<open>The first rune and its width; an invalid sequence is U+FFFD of width one.\<close>

definition decode_rune :: "string \<Rightarrow> nat \<times> nat" where
  "decode_rune s = (let b = map (of_char :: char \<Rightarrow> nat) (take 4 s); c = in_range 128 191 in
     case b of
       [] \<Rightarrow> (65533, 0)
     | b0 # bs \<Rightarrow>
         if b0 < 128 then (b0, 1)
         else if in_range 194 223 b0 \<and> bs \<noteq> [] \<and> c (bs ! 0) then ((b0 - 192) * 64 + (bs ! 0 - 128), 2)
         else if in_range 224 239 b0 \<and> 2 \<le> length bs \<and> c (bs ! 0) \<and> c (bs ! 1) \<and>
           (b0 = 224 \<longrightarrow> 160 \<le> bs ! 0) \<and> (b0 = 237 \<longrightarrow> bs ! 0 \<le> 159) then
           ((b0 - 224) * 4096 + (bs ! 0 - 128) * 64 + (bs ! 1 - 128), 3)
         else if in_range 240 244 b0 \<and> length bs = 3 \<and> c (bs ! 0) \<and> c (bs ! 1) \<and> c (bs ! 2) \<and>
           (b0 = 240 \<longrightarrow> 144 \<le> bs ! 0) \<and> (b0 = 244 \<longrightarrow> bs ! 0 \<le> 143) then
           ((b0 - 240) * 262144 + (bs ! 0 - 128) * 4096 + (bs ! 1 - 128) * 64 + (bs ! 2 - 128), 4)
         else (65533, 1))"

definition encode_rune :: "nat \<Rightarrow> string" where
  "encode_rune r = map char_of
     (if r < 128 then [r]
      else if r < 2048 then [192 + r div 64, 128 + r mod 64]
      else if r < 65536 then [224 + r div 4096, 128 + r div 64 mod 64, 128 + r mod 64]
      else [240 + r div 262144, 128 + r div 4096 mod 64, 128 + r div 64 mod 64, 128 + r mod 64])"

definition is_letter :: "unicode \<Rightarrow> nat \<Rightarrow> bool" where
  "is_letter U r \<longleftrightarrow> (if r < 128 then in_range 65 90 r \<or> in_range 97 122 r else uc_letter U r)"

definition is_digit :: "unicode \<Rightarrow> nat \<Rightarrow> bool" where
  "is_digit U r \<longleftrightarrow> (if r < 128 then in_range 48 57 r else uc_digit U r)"

definition is_space :: "unicode \<Rightarrow> nat \<Rightarrow> bool" where
  "is_space U r \<longleftrightarrow> (if r < 128 then in_range 9 13 r \<or> r = 32 else uc_space U r)"

definition rune_lower :: "unicode \<Rightarrow> nat \<Rightarrow> nat" where
  "rune_lower U r = (if r < 128 then (if in_range 65 90 r then r + 32 else r) else uc_lower U r)"

lemma decode_rune_width: "s \<noteq> [] \<Longrightarrow> 1 \<le> snd (decode_rune s)"
  by (cases s) (simp_all add: decode_rune_def Let_def)

lemma decode_rune_shorter: "(r, w) = decode_rune s \<Longrightarrow> s \<noteq> [] \<Longrightarrow> 0 < w"
  using decode_rune_width [of s] by (metis One_nat_def Suc_le_eq snd_conv)

text \<open>The longest prefix of runes in a class, and the rest.\<close>

function scan_while :: "(nat \<Rightarrow> bool) \<Rightarrow> string \<Rightarrow> string \<times> string" where
  "scan_while P s =
     (if s = [] then ([], [])
      else case decode_rune s of (r, w) \<Rightarrow>
        if P r then (case scan_while P (drop w s) of (a, b) \<Rightarrow> (take w s @ a, b)) else ([], s))"
  by auto

termination
  by (relation "measure (\<lambda>(P, s). length s)") (auto dest: decode_rune_shorter)

declare scan_while.simps [simp del]

function to_lower :: "unicode \<Rightarrow> string \<Rightarrow> string" where
  "to_lower U s =
     (if s = [] then []
      else case decode_rune s of (r, w) \<Rightarrow> encode_rune (rune_lower U r) @ to_lower U (drop w s))"
  by auto

termination
  by (relation "measure (\<lambda>(U, s). length s)") (auto dest: decode_rune_shorter)

declare to_lower.simps [simp del]

section \<open>Numbers and dates\<close>

abbreviation ascii_digit :: "char \<Rightarrow> bool" where
  "ascii_digit c \<equiv> in_range 48 57 (of_char c)"

definition digit_val :: "char \<Rightarrow> int" where
  "digit_val c = of_char c - 48"

text \<open>The value of a string of ASCII digits.\<close>

definition digits_val :: "string \<Rightarrow> int" where
  "digits_val s = foldl (\<lambda>a c. a * 10 + digit_val c) 0 s"

text \<open>\<open>strconv.Atoi\<close>: an optional sign, at least one digit, and the value in the range of \<open>int\<close>.\<close>

definition go_Atoi :: "string \<Rightarrow> int option" where
  "go_Atoi s =
     (let neg = (s \<noteq> [] \<and> hd s = CHR ''-'');
          ds = (if s \<noteq> [] \<and> (hd s = CHR ''-'' \<or> hd s = CHR ''+'') then tl s else s);
          n = (if neg then - digits_val ds else digits_val ds)
      in if ds \<noteq> [] \<and> list_all ascii_digit ds \<and> - (2 ^ 63) \<le> n \<and> n < 2 ^ 63 then Some n else None)"

text \<open>The pieces of \<open>time.Parse\<close>: a fixed number of digits, a number of one or two digits, a literal
  separator, and a separator of spaces.\<close>

definition tp_digits :: "nat \<Rightarrow> string \<Rightarrow> (int \<times> string) option" where
  "tp_digits n s = (if n \<le> length s \<and> list_all ascii_digit (take n s)
     then Some (digits_val (take n s), drop n s) else None)"

definition tp_num :: "string \<Rightarrow> (int \<times> string) option" where
  "tp_num s = (case tp_digits 2 s of Some x \<Rightarrow> Some x | None \<Rightarrow> tp_digits 1 s)"

definition tp_lit :: "char \<Rightarrow> string \<Rightarrow> string option" where
  "tp_lit c s = (case s of [] \<Rightarrow> None | d # ds \<Rightarrow> if d = c then Some ds else None)"

definition tp_spaces :: "string \<Rightarrow> string option" where
  "tp_spaces s = (if s \<noteq> [] \<and> hd s \<noteq> CHR '' '' then None else Some (dropWhile (\<lambda>c. c = CHR '' '') s))"

definition is_leap :: "int \<Rightarrow> bool" where
  "is_leap y \<longleftrightarrow> y mod 4 = 0 \<and> (y mod 100 \<noteq> 0 \<or> y mod 400 = 0)"

definition daysIn :: "int \<Rightarrow> int \<Rightarrow> int" where
  "daysIn m y = (if m = 2 then (if is_leap y then 29 else 28) else if m \<in> {4, 6, 9, 11} then 30 else 31)"

text \<open>Days from 1970-01-01 to a date of the Gregorian calendar.\<close>

definition days_before_month :: "int \<Rightarrow> int \<Rightarrow> int" where
  "days_before_month m y = sum_list (map (\<lambda>k. daysIn k y) [1..m - 1])"

definition civil_days :: "int \<Rightarrow> int \<Rightarrow> int \<Rightarrow> int" where
  "civil_days y m d =
     365 * (y - 1) + (y - 1) div 4 - (y - 1) div 100 + (y - 1) div 400 + days_before_month m y + d - 1 - 719162"

definition parse_ymd :: "string \<Rightarrow> (int \<times> int \<times> int \<times> string) option" where
  "parse_ymd s =
     Option.bind (tp_digits 4 s) (\<lambda>(y, s1). Option.bind (tp_lit CHR ''-'' s1) (\<lambda>s2.
     Option.bind (tp_digits 2 s2) (\<lambda>(m, s3). Option.bind (tp_lit CHR ''-'' s3) (\<lambda>s4.
     Option.bind (tp_digits 2 s4) (\<lambda>(d, s5). if 1 \<le> m \<and> m \<le> 12 then Some (y, m, d, s5) else None)))))"

definition day_ok :: "int \<Rightarrow> int \<Rightarrow> int \<Rightarrow> bool" where
  "day_ok y m d \<longleftrightarrow> 1 \<le> d \<and> d \<le> daysIn m y"

definition parse_date_only :: "string \<Rightarrow> gotime option" where
  "parse_date_only s = Option.bind (parse_ymd s) (\<lambda>(y, m, d, s5).
     if s5 = [] \<and> day_ok y m d then Some (Time (civil_days y m d * 86400) UTC) else None)"

definition parse_date_time :: "string \<Rightarrow> gotime option" where
  "parse_date_time s = Option.bind (parse_ymd s) (\<lambda>(y, m, d, s5).
     Option.bind (tp_spaces s5) (\<lambda>s6. Option.bind (tp_num s6) (\<lambda>(hh, s7).
     Option.bind (tp_lit CHR '':'' s7) (\<lambda>s8. Option.bind (tp_digits 2 s8) (\<lambda>(mm, s9).
     Option.bind (tp_lit CHR '':'' s9) (\<lambda>s10. Option.bind (tp_digits 2 s10) (\<lambda>(ss, s11).
     if s11 = [] \<and> hh < 24 \<and> mm < 60 \<and> ss < 60 \<and> day_ok y m d then
       Some (Time (civil_days y m d * 86400 + hh * 3600 + mm * 60 + ss) UTC) else None)))))))"

definition parseDate :: "string \<Rightarrow> gotime option" where
  "parseDate s = (case parse_date_only s of Some t \<Rightarrow> Some t | None \<Rightarrow> parse_date_time s)"

section \<open>Tokens\<close>

datatype token = TDelim nat | TNumber int | TString string | TWord string | TBool bool | TDate gotime
  | TOp string | TEOF

record lexer =
  lx_uni :: unicode
  lx_rest :: string
  lx_tok :: token

definition sql_keywords :: "string list" where
  "sql_keywords = [''select'', ''from'', ''where'', ''and'', ''insert'', ''into'', ''values'', ''delete'',
     ''update'', ''set'', ''create'', ''table'', ''int'', ''varchar'', ''view'', ''as'', ''index'', ''on'']"

definition isOperatorStart :: "nat \<Rightarrow> bool" where
  "isOperatorStart r \<longleftrightarrow> r \<in> {60, 62, 61, 33}"

definition isDelimiter :: "nat \<Rightarrow> bool" where
  "isDelimiter r \<longleftrightarrow> r \<in> {44, 40, 41, 46, 59, 43, 45, 42}"

definition skipWhitespace :: "lexer \<Rightarrow> lexer" where
  "skipWhitespace l = l\<lparr>lx_rest := snd (scan_while (is_space (lx_uni l)) (lx_rest l))\<rparr>"

text \<open>The operator at the front of the input, and the input behind it.\<close>

definition scanOperator :: "string \<Rightarrow> string \<times> string" where
  "scanOperator s = (case decode_rune s of (r, w) \<Rightarrow>
     let s' = drop w s in
     if s' \<noteq> [] then
       (case decode_rune s' of (r2, w2) \<Rightarrow>
          if (r = 62 \<and> r2 = 61) \<or> (r = 60 \<and> r2 = 61) \<or> (r = 33 \<and> r2 = 61) \<or> (r = 60 \<and> r2 = 62) then
            (encode_rune r @ encode_rune r2, drop w2 s')
          else (encode_rune r, s'))
     else (encode_rune r, s'))"

text \<open>The runes up to the closing quote; \<open>None\<close> when there is none (the input is then used up).\<close>

function scanString :: "string \<Rightarrow> (string \<times> string) option" where
  "scanString s =
     (if s = [] then None
      else case decode_rune s of (r, w) \<Rightarrow>
        if r = 39 then Some ([], drop w s)
        else map_option (\<lambda>(a, b). (encode_rune r @ a, b)) (scanString (drop w s)))"
  by auto

termination
  by (relation "measure length") (auto dest: decode_rune_shorter)

declare scanString.simps [simp del]

definition scanWord :: "unicode \<Rightarrow> string \<Rightarrow> string \<times> string" where
  "scanWord U = scan_while (\<lambda>r. is_letter U r \<or> is_digit U r \<or> r = 95)"

text \<open>The token that starts with a digit takes digits, dashes, colons and spaces.\<close>

definition scanDigits :: "unicode \<Rightarrow> string \<Rightarrow> string \<times> string" where
  "scanDigits U = scan_while (\<lambda>r. is_digit U r \<or> r = 45 \<or> r = 32 \<or> r = 58)"

definition nextToken :: "(lexer, unit) go" where
  "nextToken l0 = (let l = skipWhitespace l0; s = lx_rest l; U = lx_uni l in
     if s = [] then (Inr (), l\<lparr>lx_tok := TEOF\<rparr>)
     else case decode_rune s of (r, w) \<Rightarrow>
       if isOperatorStart r then
         (case scanOperator s of (op, s') \<Rightarrow> (Inr (), l\<lparr>lx_rest := s', lx_tok := TOp op\<rparr>))
       else if r = 39 then
         (case scanString (drop 1 s) of
            None \<Rightarrow> (Err ESyntax, l\<lparr>lx_rest := []\<rparr>)
          | Some (v, s') \<Rightarrow> (Inr (), l\<lparr>lx_rest := s', lx_tok := TString v\<rparr>))
       else if isDelimiter r then (Inr (), l\<lparr>lx_rest := drop w s, lx_tok := TDelim r\<rparr>)
       else if is_digit U r then
         (case scanDigits U s of (tokenStr, s') \<Rightarrow>
            (case parseDate tokenStr of
               Some t \<Rightarrow> (Inr (), l\<lparr>lx_rest := s', lx_tok := TDate t\<rparr>)
             | None \<Rightarrow> (case go_Atoi (filter (\<lambda>c. c \<noteq> CHR '' '') tokenStr) of
                 Some n \<Rightarrow> (Inr (), l\<lparr>lx_rest := s', lx_tok := TNumber n\<rparr>)
               | None \<Rightarrow> (Err ESyntax, l\<lparr>lx_rest := s'\<rparr>))))
       else if is_letter U r \<or> r = 95 then
         (case scanWord U s of (wordVal, s') \<Rightarrow>
            (let v = to_lower U wordVal in
             if v = ''true'' \<or> v = ''false'' then (Inr (), l\<lparr>lx_rest := s', lx_tok := TBool (v = ''true'')\<rparr>)
             else (Inr (), l\<lparr>lx_rest := s', lx_tok := TWord v\<rparr>)))
       else (Err ESyntax, l))"

text \<open>An error on the first token is ignored; the current token is then the zero \<open>Token\<close>.\<close>

definition NewLexer :: "unicode \<Rightarrow> string \<Rightarrow> lexer" where
  "NewLexer U s = snd (nextToken \<lparr>lx_uni = U, lx_rest = s, lx_tok = TDelim 0\<rparr>)"

section \<open>Matching and eating\<close>

definition MatchDelim :: "nat \<Rightarrow> lexer \<Rightarrow> bool" where
  "MatchDelim d l \<longleftrightarrow> lx_tok l = TDelim d"

definition MatchIntConstant :: "lexer \<Rightarrow> bool" where
  "MatchIntConstant l \<longleftrightarrow> (case lx_tok l of TNumber _ \<Rightarrow> True | _ \<Rightarrow> False)"

definition MatchStringConstant :: "lexer \<Rightarrow> bool" where
  "MatchStringConstant l \<longleftrightarrow> (case lx_tok l of TString _ \<Rightarrow> True | _ \<Rightarrow> False)"

definition MatchKeyword :: "string \<Rightarrow> lexer \<Rightarrow> bool" where
  "MatchKeyword w l \<longleftrightarrow> lx_tok l = TWord (to_lower (lx_uni l) w)"

definition MatchId :: "lexer \<Rightarrow> bool" where
  "MatchId l \<longleftrightarrow> (case lx_tok l of TWord w \<Rightarrow> \<not> List.member sql_keywords w | _ \<Rightarrow> False)"

definition MatchBooleanConstant :: "lexer \<Rightarrow> bool" where
  "MatchBooleanConstant l \<longleftrightarrow> (case lx_tok l of TBool _ \<Rightarrow> True | _ \<Rightarrow> False)"

definition MatchDateConstant :: "lexer \<Rightarrow> bool" where
  "MatchDateConstant l \<longleftrightarrow> (case lx_tok l of TDate _ \<Rightarrow> True | _ \<Rightarrow> False)"

definition MatchOperator :: "string \<Rightarrow> lexer \<Rightarrow> bool" where
  "MatchOperator p l \<longleftrightarrow> lx_tok l = TOp p"

definition EatDelim :: "nat \<Rightarrow> (lexer, unit) go" where
  "EatDelim d l = (if \<not> MatchDelim d l then (Err ESyntax, l) else nextToken l)"

definition EatIntConstant :: "(lexer, int) go" where
  "EatIntConstant l = (case lx_tok l of TNumber n \<Rightarrow> bnd nextToken (\<lambda>_. ret n) l | _ \<Rightarrow> (Err ESyntax, l))"

definition EatStringConstant :: "(lexer, string) go" where
  "EatStringConstant l = (case lx_tok l of TString v \<Rightarrow> bnd nextToken (\<lambda>_. ret v) l | _ \<Rightarrow> (Err ESyntax, l))"

definition EatKeyword :: "string \<Rightarrow> (lexer, unit) go" where
  "EatKeyword w l = (if \<not> MatchKeyword w l then (Err ESyntax, l) else nextToken l)"

definition EatId :: "(lexer, string) go" where
  "EatId l = (case lx_tok l of
     TWord v \<Rightarrow> if MatchId l then bnd nextToken (\<lambda>_. ret v) l else (Err ESyntax, l)
   | _ \<Rightarrow> (Err ESyntax, l))"

definition EatBooleanConstant :: "(lexer, bool) go" where
  "EatBooleanConstant l = (case lx_tok l of TBool v \<Rightarrow> bnd nextToken (\<lambda>_. ret v) l | _ \<Rightarrow> (Err ESyntax, l))"

definition EatDateConstant :: "(lexer, gotime) go" where
  "EatDateConstant l = (case lx_tok l of TDate v \<Rightarrow> bnd nextToken (\<lambda>_. ret v) l | _ \<Rightarrow> (Err ESyntax, l))"

definition EatOperator :: "string \<Rightarrow> (lexer, unit) go" where
  "EatOperator p l = (if \<not> MatchOperator p l then (Err ESyntax, l) else nextToken l)"

section \<open>Scanning\<close>

lemma scan_while_Nil [simp]: "scan_while P [] = ([], [])"
  by (simp add: scan_while.simps)

lemma scan_while_step:
  assumes "s \<noteq> []" and "decode_rune s = (r, w)"
  shows "scan_while P s = (if P r then (take w s @ fst (scan_while P (drop w s)), snd (scan_while P (drop w s)))
    else ([], s))"
  using assms by (subst scan_while.simps) (simp split: prod.splits)

lemma scan_while_append: "fst (scan_while P s) @ snd (scan_while P s) = s"
proof (induction P s rule: scan_while.induct)
  case (1 P s)
  obtain r w where rw: "decode_rune s = (r, w)" by force
  show ?case
  proof (cases "s \<noteq> [] \<and> P r")
    case True
    then have "fst (scan_while P (drop w s)) @ snd (scan_while P (drop w s)) = drop w s"
      using 1 [OF _ rw [symmetric]] by blast
    then show ?thesis using True rw by (simp add: scan_while_step)
  next
    case False
    then show ?thesis using rw by (cases "s = []") (simp_all add: scan_while_step)
  qed
qed

lemma scan_while_length: "length (snd (scan_while P s)) \<le> length s"
  by (metis scan_while_append length_append le_add2)

lemma scan_while_shorter:
  assumes "decode_rune s = (r, w)" and "P r" and "s \<noteq> []"
  shows "length (snd (scan_while P s)) < length s"
proof -
  have "length (drop w s) < length s" using decode_rune_shorter [of r w s] assms by (cases s) simp_all
  with scan_while_length [of P "drop w s"] have "length (snd (scan_while P (drop w s))) < length s"
    by (rule le_less_trans)
  then show ?thesis using assms by (simp add: scan_while_step)
qed

lemma scanString_Nil [simp]: "scanString [] = None"
  by (simp add: scanString.simps)

lemma scanString_step:
  assumes "s \<noteq> []" and "decode_rune s = (r, w)"
  shows "scanString s = (if r = 39 then Some ([], drop w s)
    else map_option (\<lambda>(a, b). (encode_rune r @ a, b)) (scanString (drop w s)))"
  using assms by (subst scanString.simps) (simp split: prod.splits)

lemma scanString_length: "scanString s = Some (a, b) \<Longrightarrow> length b \<le> length s"
proof (induction s arbitrary: a b rule: scanString.induct)
  case (1 s)
  obtain r w where rw: "decode_rune s = (r, w)" by force
  have ne: "s \<noteq> []" using 1(2) by auto
  show ?case
  proof (cases "r = 39")
    case True
    then have "b = drop w s" using 1(2) ne rw by (simp add: scanString_step)
    then show ?thesis by simp
  next
    case False
    then obtain a' where "scanString (drop w s) = Some (a', b)"
      using 1(2) ne rw by (auto simp: scanString_step)
    then have "length b \<le> length (drop w s)" using 1(1) [OF ne rw [symmetric] False] by blast
    then show ?thesis by simp
  qed
qed

lemma scanOperator_shorter:
  assumes "s \<noteq> []"
  shows "length (snd (scanOperator s)) < length s"
proof -
  obtain r w where rw: "decode_rune s = (r, w)" by force
  obtain r2 w2 where rw2: "decode_rune (drop w s) = (r2, w2)" by force
  have "length (drop w s) < length s"
    using decode_rune_shorter [of r w s] rw assms by (cases s) auto
  then show ?thesis using rw rw2 by (auto simp: scanOperator_def Let_def)
qed

end
