(* ===== verification/Layout.thy ===== *)
theory Layout
  imports Page "HOL-Library.Multiset"
begin

text \<open>
  \<^verbatim>\<open>record/schema.go\<close>, \<^verbatim>\<open>record/field_info.go\<close>, \<^verbatim>\<open>record/alignment.go\<close> and
  \<^verbatim>\<open>record/layout.go\<close>: the fields of a table and where they lie in a slot.

  A schema is the list of its field names and the map from names to type and length. \<open>NewLayout\<close>
  sorts the fields by descending alignment (in place: the schema the layout keeps has the sorted
  list), places them one after the other with padding, and rounds the slot size up. The lemmas
  about placing hold for any order of the fields; \<open>sort.Slice\<close> is modelled by the stable sort,
  which is what it does for at most twelve fields.
\<close>

section \<open>Types, fields, schemas\<close>

type_synonym SchemaType = int

definition Integer :: SchemaType where "Integer = 4"
definition Varchar :: SchemaType where "Varchar = 12"
definition Boolean :: SchemaType where "Boolean = 16"
definition Long :: SchemaType where "Long = - 5"
definition Short :: SchemaType where "Short = 5"
definition Date :: SchemaType where "Date = 91"

lemmas type_codes = Integer_def Varchar_def Boolean_def Long_def Short_def Date_def

record field_info =
  fieldType :: SchemaType
  fieldLength :: int

record schema =
  sch_fields :: "string list"
  sch_info :: "string \<rightharpoonup> field_info"

definition NewSchema :: schema where
  "NewSchema = \<lparr>sch_fields = [], sch_info = Map.empty\<rparr>"

text \<open>A map lookup of a missing name gives the zero \<open>FieldInfo\<close>.\<close>

definition sch_lookup :: "schema \<Rightarrow> string \<Rightarrow> field_info" where
  "sch_lookup s f = (case sch_info s f of Some i \<Rightarrow> i | None \<Rightarrow> \<lparr>fieldType = 0, fieldLength = 0\<rparr>)"

definition AddField :: "string \<Rightarrow> SchemaType \<Rightarrow> int \<Rightarrow> schema \<Rightarrow> schema" where
  "AddField f ty n s = s\<lparr>sch_fields := sch_fields s @ [f],
     sch_info := (sch_info s)(f \<mapsto> \<lparr>fieldType = ty, fieldLength = n\<rparr>)\<rparr>"

definition AddIntField :: "string \<Rightarrow> schema \<Rightarrow> schema" where
  "AddIntField f = AddField f Integer 0"

definition AddStringField :: "string \<Rightarrow> int \<Rightarrow> schema \<Rightarrow> schema" where
  "AddStringField f n = AddField f Varchar n"

definition AddBoolField :: "string \<Rightarrow> schema \<Rightarrow> schema" where
  "AddBoolField f = AddField f Boolean 0"

definition AddLongField :: "string \<Rightarrow> schema \<Rightarrow> schema" where
  "AddLongField f = AddField f Long 0"

definition AddShortField :: "string \<Rightarrow> schema \<Rightarrow> schema" where
  "AddShortField f = AddField f Short 0"

definition AddDateField :: "string \<Rightarrow> schema \<Rightarrow> schema" where
  "AddDateField f = AddField f Date 0"

definition Add :: "string \<Rightarrow> schema \<Rightarrow> schema \<Rightarrow> schema" where
  "Add f other s = AddField f (fieldType (sch_lookup other f)) (fieldLength (sch_lookup other f)) s"

definition AddAll :: "schema \<Rightarrow> schema \<Rightarrow> schema" where
  "AddAll other s = fold (\<lambda>f. Add f other) (sch_fields other) s"

definition HasField :: "schema \<Rightarrow> string \<Rightarrow> bool" where
  "HasField s f \<longleftrightarrow> sch_info s f \<noteq> None"

definition schema_Type :: "schema \<Rightarrow> string \<Rightarrow> SchemaType" where
  "schema_Type s f = fieldType (sch_lookup s f)"

definition schema_Length :: "schema \<Rightarrow> string \<Rightarrow> int" where
  "schema_Length s f = fieldLength (sch_lookup s f)"

section \<open>Layouts\<close>

definition alignmentRequirement :: "SchemaType \<Rightarrow> int" where
  "alignmentRequirement ty =
     (if ty = Integer then IntSize else if ty = Long then 8 else if ty = Short then 2
      else if ty = Boolean then 1 else if ty = Date then 8 else if ty = Varchar then 1 else 1)"

text \<open>The largest of the alignments; the code ranges over a map, in any order.\<close>

definition maxAlignment :: "int list \<Rightarrow> int" where
  "maxAlignment as = fold (\<lambda>a m. if a > m then a else m) as 1"

definition lengthInBytes :: "schema \<Rightarrow> string \<Rightarrow> int res" where
  "lengthInBytes s f = (let ty = schema_Type s f in
     if ty = Integer then Inr IntSize else if ty = Long then Inr 8
     else if ty = Short then Inr 2 else if ty = Boolean then Inr 1 else if ty = Date then Inr 8
     else if ty = Varchar then Inr (MaxLength (schema_Length s f)) else Inl Panic)"

record layout =
  lay_schema :: schema
  lay_offsets :: "string \<rightharpoonup> int"
  slotSize :: int

definition align_up :: "int \<Rightarrow> int \<Rightarrow> int" where
  "align_up pos a = (if go_mod pos a \<noteq> 0 then pos + (a - go_mod pos a) else pos)"

text \<open>The loop that assigns offsets, from position \<open>pos\<close> on.\<close>

fun place_fields :: "schema \<Rightarrow> string list \<Rightarrow> int \<Rightarrow> (string \<rightharpoonup> int) \<Rightarrow> (int \<times> (string \<rightharpoonup> int)) res" where
  "place_fields s [] pos offs = Inr (pos, offs)"
| "place_fields s (f # fs) pos offs =
     (let p = align_up pos (alignmentRequirement (schema_Type s f))
      in rbind (lengthInBytes s f) (\<lambda>n. place_fields s fs (p + n) (offs(f \<mapsto> p))))"

text \<open>The layout of the fields in the order of the schema's list.\<close>

definition layout_in_order :: "schema \<Rightarrow> layout res" where
  "layout_in_order s = rbind (place_fields s (sch_fields s) IntSize Map.empty) (\<lambda>(pos, offs).
     Inr \<lparr>lay_schema = s, lay_offsets = offs, slotSize = align_up pos
       (maxAlignment (map (\<lambda>f. alignmentRequirement (schema_Type s f)) (sch_fields s)))\<rparr>)"

definition sort_fields :: "schema \<Rightarrow> schema" where
  "sort_fields s = s\<lparr>sch_fields :=
     sort_key (\<lambda>f. - alignmentRequirement (schema_Type s f)) (sch_fields s)\<rparr>"

definition NewLayout :: "schema \<Rightarrow> layout res" where
  "NewLayout s = layout_in_order (sort_fields s)"

definition NewLayoutFromMetadata :: "schema \<Rightarrow> (string \<rightharpoonup> int) \<Rightarrow> int \<Rightarrow> layout" where
  "NewLayoutFromMetadata s offs n = \<lparr>lay_schema = s, lay_offsets = offs, slotSize = n\<rparr>"

definition lay_Offset :: "layout \<Rightarrow> string \<Rightarrow> int" where
  "lay_Offset l f = (case lay_offsets l f of Some n \<Rightarrow> n | None \<Rightarrow> 0)"

section \<open>Schemas\<close>

text \<open>Every name listed has its type and length, and only those.\<close>

definition schema_wf :: "schema \<Rightarrow> bool" where
  "schema_wf s \<longleftrightarrow> dom (sch_info s) = set (sch_fields s)"

lemma AddField_simps [simp]:
  "sch_fields (AddField f ty n s) = sch_fields s @ [f]"
  "schema_Type (AddField f ty n s) g = (if g = f then ty else schema_Type s g)"
  "schema_Length (AddField f ty n s) g = (if g = f then n else schema_Length s g)"
  "HasField (AddField f ty n s) g \<longleftrightarrow> g = f \<or> HasField s g"
  by (simp_all add: AddField_def schema_Type_def schema_Length_def sch_lookup_def HasField_def)

lemma schema_wf_AddField [simp]: "schema_wf s \<Longrightarrow> schema_wf (AddField f ty n s)"
  by (auto simp: schema_wf_def AddField_def)

lemma schema_wf_New [simp]: "schema_wf NewSchema"
  by (simp add: schema_wf_def NewSchema_def)

lemma HasField_wf: "schema_wf s \<Longrightarrow> HasField s f \<longleftrightarrow> f \<in> set (sch_fields s)"
  by (auto simp: schema_wf_def HasField_def)

lemma fold_Add:
  "sch_fields (fold (\<lambda>f. Add f other) fs s) = sch_fields s @ fs \<and>
   (schema_wf s \<longrightarrow> schema_wf (fold (\<lambda>f. Add f other) fs s)) \<and>
   schema_Type (fold (\<lambda>f. Add f other) fs s) g =
     (if g \<in> set fs then schema_Type other g else schema_Type s g) \<and>
   schema_Length (fold (\<lambda>f. Add f other) fs s) g =
     (if g \<in> set fs then schema_Length other g else schema_Length s g)"
proof (induction fs arbitrary: s)
  case (Cons f fs)
  then show ?case by (auto simp: Add_def schema_Type_def [symmetric] schema_Length_def [symmetric])
qed simp

lemma AddAll_simps [simp]:
  "sch_fields (AddAll other s) = sch_fields s @ sch_fields other"
  "schema_wf s \<Longrightarrow> schema_wf (AddAll other s)"
  "schema_Type (AddAll other s) g =
     (if g \<in> set (sch_fields other) then schema_Type other g else schema_Type s g)"
  "schema_Length (AddAll other s) g =
     (if g \<in> set (sch_fields other) then schema_Length other g else schema_Length s g)"
  using fold_Add [of other "sch_fields other" s g] by (simp_all add: AddAll_def)

section \<open>Placing the fields\<close>

text \<open>The schemas \<open>NewLayout\<close> can lay out: known types, no negative lengths.\<close>

definition field_ok :: "schema \<Rightarrow> string \<Rightarrow> bool" where
  "field_ok s f \<longleftrightarrow> schema_Type s f \<in> {Integer, Varchar, Boolean, Long, Short, Date} \<and>
     (schema_Type s f = Varchar \<longrightarrow> 0 \<le> schema_Length s f)"

abbreviation align_of :: "schema \<Rightarrow> string \<Rightarrow> int" where
  "align_of s f \<equiv> alignmentRequirement (schema_Type s f)"

definition size_of :: "schema \<Rightarrow> string \<Rightarrow> int" where
  "size_of s f = (case lengthInBytes s f of Inr n \<Rightarrow> n | Inl _ \<Rightarrow> 0)"

lemma align_cases: "alignmentRequirement ty \<in> {1, 2, 4, 8}"
  by (simp add: alignmentRequirement_def IntSize_def)

lemma align_pos [simp]: "0 < alignmentRequirement ty"
  using align_cases [of ty] by auto

lemma field_size:
  assumes "field_ok s f"
  shows "lengthInBytes s f = Inr (size_of s f)" and "0 < size_of s f"
    and "size_of s f mod align_of s f = 0"
  using assms
  by (auto simp: field_ok_def size_of_def lengthInBytes_def alignmentRequirement_def type_codes
      IntSize_def MaxLength_def Let_def)

lemma align_up_eq:
  assumes "0 \<le> pos" and "0 < a"
  shows "align_up pos a = (if pos mod a = 0 then pos else pos + (a - pos mod a))"
  using assms by (simp add: align_up_def)

lemma align_up_bounds:
  assumes "0 \<le> pos" and "0 < a"
  shows "pos \<le> align_up pos a" and "align_up pos a < pos + a" and "align_up pos a mod a = 0"
proof -
  have m: "0 \<le> pos mod a" "pos mod a < a" using assms(2) by simp_all
  then have "pos mod a \<noteq> 0 \<longrightarrow> 0 < pos mod a" "pos mod a \<le> a" by linarith+
  then show "pos \<le> align_up pos a" "align_up pos a < pos + a"
    using assms by (auto simp: align_up_eq)
  have "(pos + (a - pos mod a)) mod a = (pos - pos mod a) mod a"
    by (metis add_diff_eq diff_add_eq mod_add_self2)
  then show "align_up pos a mod a = 0" using assms by (simp add: align_up_eq minus_mod_eq_mult_div)
qed

text \<open>What \<open>place_fields\<close> promises: old entries of names not listed stay, each listed field has an
  aligned offset from \<open>pos\<close> on, fields end before the final position, and two fields are apart.\<close>

lemma place_fields_spec:
  assumes "\<forall>f \<in> set fs. field_ok s f" and "0 \<le> pos"
  obtains pos' offs' where "place_fields s fs pos offs = Inr (pos', offs')" and "pos \<le> pos'"
    and "\<And>g. g \<notin> set fs \<Longrightarrow> offs' g = offs g"
    and "\<And>g. g \<in> set fs \<Longrightarrow> \<exists>o'. offs' g = Some o' \<and> pos \<le> o' \<and> o' mod align_of s g = 0 \<and>
           o' + size_of s g \<le> pos'"
    and "\<And>g h a b. g \<in> set fs \<Longrightarrow> h \<in> set fs \<Longrightarrow> g \<noteq> h \<Longrightarrow> offs' g = Some a \<Longrightarrow> offs' h = Some b \<Longrightarrow>
           a + size_of s g \<le> b \<or> b + size_of s h \<le> a"
  using assms
proof (induction fs arbitrary: pos offs thesis)
  case Nil
  then show ?case by simp
next
  case (Cons f fs)
  let ?p = "align_up pos (align_of s f)"
  have f: "field_ok s f" and fs: "\<forall>f \<in> set fs. field_ok s f" using Cons.prems(2) by simp_all
  note sz = field_size [OF f]
  note al = align_up_bounds [OF Cons.prems(3) align_pos [of "schema_Type s f"]]
  have p0: "0 \<le> ?p + size_of s f" using al(1) sz(2) Cons.prems(3) by linarith
  show ?case
  proof (rule Cons.IH [OF _ fs p0, of "offs(f \<mapsto> ?p)"])
    fix pos' offs'
    assume run: "place_fields s fs (?p + size_of s f) (offs(f \<mapsto> ?p)) = Inr (pos', offs')"
      and le: "?p + size_of s f \<le> pos'"
      and other: "\<And>g. g \<notin> set fs \<Longrightarrow> offs' g = (offs(f \<mapsto> ?p)) g"
      and placed: "\<And>g. g \<in> set fs \<Longrightarrow> \<exists>o'. offs' g = Some o' \<and> ?p + size_of s f \<le> o' \<and>
         o' mod align_of s g = 0 \<and> o' + size_of s g \<le> pos'"
      and apart: "\<And>g h a b. g \<in> set fs \<Longrightarrow> h \<in> set fs \<Longrightarrow> g \<noteq> h \<Longrightarrow> offs' g = Some a \<Longrightarrow> offs' h = Some b \<Longrightarrow>
         a + size_of s g \<le> b \<or> b + size_of s h \<le> a"
    have hd: "offs' f = Some ?p" if "f \<notin> set fs" using other [OF that] by simp
    show ?case
    proof (rule Cons.prems(1))
      show "place_fields s (f # fs) pos offs = Inr (pos', offs')" using run sz(1) by (simp add: Let_def)
      show "pos \<le> pos'" using le al(1) sz(2) by linarith
      show "offs' g = offs g" if "g \<notin> set (f # fs)" for g using other [of g] that by simp
      show "\<exists>o'. offs' g = Some o' \<and> pos \<le> o' \<and> o' mod align_of s g = 0 \<and> o' + size_of s g \<le> pos'"
        if g: "g \<in> set (f # fs)" for g
      proof (cases "g \<in> set fs")
        case True
        then show ?thesis using placed [OF True] al(1) sz(2) by fastforce
      next
        case False
        then show ?thesis using g hd le al by auto
      qed
      show "a + size_of s g \<le> b \<or> b + size_of s h \<le> a"
        if gh: "g \<in> set (f # fs)" "h \<in> set (f # fs)" "g \<noteq> h" "offs' g = Some a" "offs' h = Some b" for g h a b
      proof -
        consider (both) "g \<in> set fs" "h \<in> set fs" | (first) "g \<notin> set fs" "g = f" "h \<in> set fs"
          | (second) "h \<notin> set fs" "h = f" "g \<in> set fs" using gh by auto
        then show ?thesis
        proof cases
          case both
          then show ?thesis using apart gh by blast
        next
          case first
          then show ?thesis using placed [of h] hd gh by auto
        next
          case second
          then show ?thesis using placed [of g] hd gh by auto
        qed
      qed
    qed
  qed
qed

section \<open>Well-formed layouts\<close>

definition layout_wf :: "layout \<Rightarrow> bool" where
  "layout_wf l \<longleftrightarrow> (let s = lay_schema l in
     IntSize \<le> slotSize l \<and>
     (\<forall>f \<in> set (sch_fields s). \<exists>a. lay_offsets l f = Some a \<and> IntSize \<le> a \<and>
        a mod align_of s f = 0 \<and> slotSize l mod align_of s f = 0 \<and> a + size_of s f \<le> slotSize l) \<and>
     (\<forall>f \<in> set (sch_fields s). \<forall>g \<in> set (sch_fields s). f \<noteq> g \<longrightarrow>
        lay_Offset l f + size_of s f \<le> lay_Offset l g \<or> lay_Offset l g + size_of s g \<le> lay_Offset l f))"

lemma mod_0_trans: "c mod b = 0 \<Longrightarrow> b mod a = 0 \<Longrightarrow> c mod a = (0 :: int)"
  by (metis dvd_eq_mod_eq_0 dvd_trans)

lemma maxAlignment_spec:
  assumes "set as \<subseteq> {1, 2, 4, 8}"
  shows "maxAlignment as \<in> {1, 2, 4, 8}" and "a \<in> set as \<Longrightarrow> maxAlignment as mod a = 0"
proof -
  have "fold (\<lambda>a m. if a > m then a else m) as k \<in> {1, 2, 4, 8 :: int} \<and>
      fold (\<lambda>a m. if a > m then a else m) as k mod k = 0 \<and>
      (\<forall>a \<in> set as. fold (\<lambda>a m. if a > m then a else m) as k mod a = 0)"
    if "k \<in> {1, 2, 4, 8}" for k
    using assms that
  proof (induction as arbitrary: k)
    case (Cons a as)
    let ?k = "if a > k then a else k"
    have k: "?k \<in> {1, 2, 4, 8}" and as: "set as \<subseteq> {1, 2, 4, 8}" using Cons.prems by auto
    have d: "?k mod a = 0" "?k mod k = 0" using Cons.prems by auto
    have i: "fold (\<lambda>a m. if a > m then a else m) as ?k \<in> {1, 2, 4, 8}"
      "fold (\<lambda>a m. if a > m then a else m) as ?k mod ?k = 0"
      "\<forall>a \<in> set as. fold (\<lambda>a m. if a > m then a else m) as ?k mod a = 0"
      using Cons.IH [OF as k] by blast+
    have e: "fold (\<lambda>a m. if a > m then a else m) (a # as) k = fold (\<lambda>a m. if a > m then a else m) as ?k"
      by simp
    show ?case
      unfolding e using i mod_0_trans [OF i(2) d(1)] mod_0_trans [OF i(2) d(2)]
      by (simp only: list.set ball_simps simp_thms)
  qed simp
  from this [of 1] show "maxAlignment as \<in> {1, 2, 4, 8}" "a \<in> set as \<Longrightarrow> maxAlignment as mod a = 0"
    by (simp_all add: maxAlignment_def)
qed

lemma layout_in_order_wf:
  assumes "\<forall>f \<in> set (sch_fields s). field_ok s f"
  obtains l where "layout_in_order s = Inr l" and "lay_schema l = s" and "layout_wf l"
proof -
  let ?M = "maxAlignment (map (align_of s) (sch_fields s))"
  have as: "set (map (align_of s) (sch_fields s)) \<subseteq> {1, 2, 4, 8}" using align_cases by auto
  have z: "0 \<le> IntSize" by (simp add: IntSize_def)
  obtain pos offs where run: "place_fields s (sch_fields s) IntSize Map.empty = Inr (pos, offs)"
    and le: "IntSize \<le> pos"
    and placed: "\<And>g. g \<in> set (sch_fields s) \<Longrightarrow> \<exists>o'. offs g = Some o' \<and> IntSize \<le> o' \<and>
       o' mod align_of s g = 0 \<and> o' + size_of s g \<le> pos"
    and apart: "\<And>g h a b. g \<in> set (sch_fields s) \<Longrightarrow> h \<in> set (sch_fields s) \<Longrightarrow> g \<noteq> h \<Longrightarrow>
       offs g = Some a \<Longrightarrow> offs h = Some b \<Longrightarrow> a + size_of s g \<le> b \<or> b + size_of s h \<le> a"
    by (rule place_fields_spec [OF assms z, of Map.empty]) blast
  let ?l = "\<lparr>lay_schema = s, lay_offsets = offs, slotSize = align_up pos ?M\<rparr>"
  have M: "0 < ?M" using maxAlignment_spec(1) [OF as] by auto
  have pos: "0 \<le> pos" using le z by linarith
  note up = align_up_bounds [OF pos M]
  have dvd: "align_up pos ?M mod align_of s f = 0" if "f \<in> set (sch_fields s)" for f
  proof -
    have "?M mod align_of s f = 0" using maxAlignment_spec(2) [OF as] that by simp
    then show ?thesis using mod_0_trans [OF up(3)] by simp
  qed
  have "\<exists>a. offs f = Some a \<and> IntSize \<le> a \<and> a mod align_of s f = 0 \<and>
      align_up pos ?M mod align_of s f = 0 \<and> a + size_of s f \<le> align_up pos ?M"
    if "f \<in> set (sch_fields s)" for f
    using placed [OF that] dvd [OF that] up(1) by fastforce
  moreover have "lay_Offset ?l f + size_of s f \<le> lay_Offset ?l g \<or> lay_Offset ?l g + size_of s g \<le> lay_Offset ?l f"
    if fg: "f \<in> set (sch_fields s)" "g \<in> set (sch_fields s)" "f \<noteq> g" for f g
    using placed [OF fg(1)] placed [OF fg(2)] apart [OF fg] by (auto simp: lay_Offset_def)
  moreover have "IntSize \<le> align_up pos ?M" using le up(1) by linarith
  ultimately have "layout_wf ?l" unfolding layout_wf_def Let_def by auto
  then show thesis using run by (intro that [of ?l]) (simp_all add: layout_in_order_def)
qed

lemma sort_fields_simps [simp]:
  "schema_Type (sort_fields s) f = schema_Type s f"
  "schema_Length (sort_fields s) f = schema_Length s f"
  "set (sch_fields (sort_fields s)) = set (sch_fields s)"
  "mset (sch_fields (sort_fields s)) = mset (sch_fields s)"
  "sch_info (sort_fields s) = sch_info s"
  by (simp_all add: sort_fields_def schema_Type_def schema_Length_def sch_lookup_def)

lemma size_sort_fields [simp]: "size_of (sort_fields s) f = size_of s f"
  by (simp add: size_of_def lengthInBytes_def Let_def)

lemma field_ok_sort [simp]: "field_ok (sort_fields s) f = field_ok s f"
  by (simp add: field_ok_def)


definition demo_schema :: schema where
  "demo_schema = AddLongField ''n'' (AddStringField ''name'' 10 (AddIntField ''id'' NewSchema))"


section \<open>Padding\<close>

text \<open>In descending order of alignment nothing is padded once the first field is in place.\<close>

lemma align_dvd: "align_of s g \<le> align_of s f \<Longrightarrow> align_of s f mod align_of s g = 0"
  using align_cases [of "schema_Type s f"] align_cases [of "schema_Type s g"] by auto

lemma place_descending:
  assumes "\<forall>f \<in> set fs. field_ok s f" and "sorted (map (\<lambda>f. - align_of s f) fs)" and "0 \<le> pos"
    and "\<forall>f \<in> set fs. pos mod align_of s f = 0"
  shows "\<exists>offs'. place_fields s fs pos offs = Inr (pos + sum_list (map (size_of s) fs), offs')"
  using assms
proof (induction fs arbitrary: pos offs)
  case (Cons f fs)
  have f: "field_ok s f" using Cons.prems(1) by simp
  note sz = field_size [OF f]
  have "(pos + size_of s f) mod align_of s g = 0" if "g \<in> set fs" for g
  proof -
    have "align_of s g \<le> align_of s f" using Cons.prems(2) that by auto
    then have "size_of s f mod align_of s g = 0" "pos mod align_of s g = 0"
      using mod_0_trans [OF sz(3)] align_dvd Cons.prems(4) that by auto
    then show ?thesis by (metis add_0 mod_add_eq mod_0)
  qed
  moreover have "0 \<le> pos + size_of s f" using sz(2) Cons.prems(3) by linarith
  ultimately have "\<exists>offs'. place_fields s fs (pos + size_of s f) (offs(f \<mapsto> pos)) =
      Inr (pos + size_of s f + sum_list (map (size_of s) fs), offs')"
    using Cons.prems by (intro Cons.IH) simp_all
  moreover have "align_up pos (align_of s f) = pos"
    using Cons.prems(3,4) by (simp add: align_up_eq)
  ultimately show ?case using sz(1) by (auto simp: Let_def add.assoc)
qed simp

lemma align_up_4: "align_up 4 8 = 8" "a \<in> {1, 2, 4} \<Longrightarrow> align_up 4 a = 4"
  by (auto simp: align_up_eq)

lemma place_descending_first:
  assumes ok: "\<forall>f \<in> set fs. field_ok s f" and srt: "sorted (map (\<lambda>f. - align_of s f) fs)"
  shows "\<exists>offs'. place_fields s fs IntSize offs =
    Inr (IntSize + (if \<exists>f \<in> set fs. align_of s f = 8 then 4 else 0) + sum_list (map (size_of s) fs), offs')"
proof (cases fs)
  case (Cons f gs)
  let ?p = "IntSize + (if \<exists>f \<in> set fs. align_of s f = 8 then 4 else 0)"
  have below: "align_of s g \<le> align_of s f" if "g \<in> set fs" for g
    using srt Cons that by auto
  have cases: "align_of s g \<in> {1, 2, 4, 8}" for g by (rule align_cases)
  have start: "align_up IntSize (align_of s f) = ?p"
  proof (cases "align_of s f = 8")
    case True
    then show ?thesis using Cons align_up_4 by (simp add: IntSize_def)
  next
    case False
    then have f4: "align_of s f \<in> {1, 2, 4}" using cases [of f] by auto
    have "align_of s g \<noteq> 8" if "g \<in> set fs" for g using below [OF that] f4 by auto
    then show ?thesis using align_up_4(2) [OF f4] by (simp add: IntSize_def)
  qed
  have "?p mod align_of s g = 0" if "g \<in> set fs" for g
  proof (cases "\<exists>f \<in> set fs. align_of s f = 8")
    case True
    then show ?thesis using cases [of g] by (auto simp: IntSize_def)
  next
    case False
    then show ?thesis using cases [of g] that by (auto simp: IntSize_def)
  qed
  then have "\<exists>offs'. place_fields s fs ?p offs = Inr (?p + sum_list (map (size_of s) fs), offs')"
    using place_descending [OF ok srt, of ?p offs] by (auto simp: IntSize_def)
  moreover have "place_fields s fs IntSize offs = place_fields s fs ?p offs"
  proof -
    have "align_up ?p (align_of s f) = ?p"
      using \<open>\<And>g. g \<in> set fs \<Longrightarrow> ?p mod align_of s g = 0\<close> [of f] Cons
      by (simp add: align_up_eq IntSize_def)
    then show ?thesis using Cons start by (simp add: Let_def)
  qed
  ultimately show ?thesis by simp
qed simp



text \<open>The comment of \<open>NewLayout\<close> says that the order minimises padding. It does not: with one integer
  and one long, placing the integer first would give a slot of 16 bytes instead of 24.\<close>

lemma descending_order_not_minimal:
  "\<exists>l m. NewLayout (AddLongField ''b'' (AddIntField ''a'' NewSchema)) = Inr l \<and> slotSize l = 24 \<and>
     layout_in_order (AddLongField ''b'' (AddIntField ''a'' NewSchema)) = Inr m \<and> slotSize m = 16"
proof -
  let ?s = "AddLongField ''b'' (AddIntField ''a'' NewSchema)"
  have "map_sum (\<lambda>_. ()) slotSize (NewLayout ?s) = Inr 24" by code_simp
  moreover have "map_sum (\<lambda>_. ()) slotSize (layout_in_order ?s) = Inr 16" by code_simp
  ultimately show ?thesis by (cases "NewLayout ?s"; cases "layout_in_order ?s") simp_all
qed

end
