(* ===== verification/QueryPred.thy ===== *)
theory QueryPred
  imports Tx Layout
begin

text \<open>
  \<^verbatim>\<open>query/operators.go\<close>, \<^verbatim>\<open>query/expression.go\<close>, \<^verbatim>\<open>query/term.go\<close> and
  \<^verbatim>\<open>query/predicate.go\<close>: expressions, comparisons and conjunctions of them.

  A value of the interface type \<open>any\<close> is a \<open>val option\<close>, with \<open>None\<close> for \<open>nil\<close>; Go's \<open>==\<close> on such
  values compares type and value, which is equality of \<open>val option\<close> (a \<open>time.Time\<close> compares its
  location too). The scan an expression is evaluated on is its \<open>GetVal\<close> method, a stateful call;
  a plan is its \<open>DistinctValues\<close> method.
\<close>

section \<open>Operators\<close>

text \<open>\<open>Operator\<close> is an integer in the code; \<open>BadOp\<close> is any value outside the six constants.\<close>

datatype operator = EQ | NE | LT | LE | GT | GE | BadOp

definition op_String :: "operator \<Rightarrow> string" where
  "op_String p = (case p of EQ \<Rightarrow> ''='' | NE \<Rightarrow> ''<>'' | LT \<Rightarrow> ''<'' | LE \<Rightarrow> ''<='' | GT \<Rightarrow> ''>'' | GE \<Rightarrow> ''>=''
     | BadOp \<Rightarrow> [])"

definition OperatorFromString :: "string \<Rightarrow> operator res" where
  "OperatorFromString s =
     (if s = ''='' then Inr EQ else if s = ''<>'' \<or> s = ''!='' then Inr NE
      else if s = ''<'' then Inr LT else if s = ''<='' then Inr LE
      else if s = ''>'' then Inr GT else if s = ''>='' then Inr GE else Err EInvalidOperator)"

section \<open>Expressions\<close>

record expression =
  ex_value :: "val option"
  ex_field :: string

definition NewFieldExpression :: "string \<Rightarrow> expression" where
  "NewFieldExpression f = \<lparr>ex_value = None, ex_field = f\<rparr>"

definition NewConstantExpression :: "val option \<Rightarrow> expression" where
  "NewConstantExpression v = \<lparr>ex_value = v, ex_field = []\<rparr>"

definition expr_Evaluate :: "(string \<Rightarrow> ('s, val option) go) \<Rightarrow> expression \<Rightarrow> ('s, val option) go" where
  "expr_Evaluate getVal e = (if ex_value e \<noteq> None then ret (ex_value e) else getVal (ex_field e))"

definition IsFieldName :: "expression \<Rightarrow> bool" where
  "IsFieldName e \<longleftrightarrow> ex_field e \<noteq> []"

definition expr_AppliesTo :: "schema \<Rightarrow> expression \<Rightarrow> bool" where
  "expr_AppliesTo s e \<longleftrightarrow> ex_value e \<noteq> None \<or> HasField s (ex_field e)"

text \<open>\<open>%v\<close> of a value. How a \<open>time.Time\<close> prints depends on the time zone database: a parameter.\<close>

fun show_val :: "(gotime \<Rightarrow> string) \<Rightarrow> val \<Rightarrow> string" where
  "show_val st (VInt n) = show_int n"
| "show_val st (VString s) = s"
| "show_val st (VBool b) = (if b then ''true'' else ''false'')"
| "show_val st (VLong l) = show_int (sint l)"
| "show_val st (VShort h) = show_int (sint h)"
| "show_val st (VDate d) = st d"

definition expr_String :: "(gotime \<Rightarrow> string) \<Rightarrow> expression \<Rightarrow> string" where
  "expr_String st e = (case ex_value e of Some v \<Rightarrow> show_val st v | None \<Rightarrow> ex_field e)"

section \<open>Terms\<close>

record qterm =
  t_lhs :: expression
  t_rhs :: expression
  t_op :: operator

definition NewTerm :: "expression \<Rightarrow> expression \<Rightarrow> operator \<Rightarrow> qterm" where
  "NewTerm l r p = \<lparr>t_lhs = l, t_rhs = r, t_op = p\<rparr>"

definition compareInts :: "int \<Rightarrow> int \<Rightarrow> operator \<Rightarrow> bool" where
  "compareInts l r p = (case p of LT \<Rightarrow> l < r | LE \<Rightarrow> l \<le> r | GT \<Rightarrow> l > r | GE \<Rightarrow> l \<ge> r | _ \<Rightarrow> False)"

definition compareInt64s :: "64 word \<Rightarrow> 64 word \<Rightarrow> operator \<Rightarrow> bool" where
  "compareInt64s l r p = (case p of LT \<Rightarrow> sint l < sint r | LE \<Rightarrow> sint l \<le> sint r
     | GT \<Rightarrow> sint l > sint r | GE \<Rightarrow> sint l \<ge> sint r | _ \<Rightarrow> False)"

definition compareInt16s :: "16 word \<Rightarrow> 16 word \<Rightarrow> operator \<Rightarrow> bool" where
  "compareInt16s l r p = (case p of LT \<Rightarrow> sint l < sint r | LE \<Rightarrow> sint l \<le> sint r
     | GT \<Rightarrow> sint l > sint r | GE \<Rightarrow> sint l \<ge> sint r | _ \<Rightarrow> False)"

text \<open>Go compares strings bytewise, in lexicographic order.\<close>

definition compareStrings :: "string \<Rightarrow> string \<Rightarrow> operator \<Rightarrow> bool" where
  "compareStrings l r p = (case p of LT \<Rightarrow> l < r | LE \<Rightarrow> l \<le> r | GT \<Rightarrow> l > r | GE \<Rightarrow> l \<ge> r | _ \<Rightarrow> False)"

definition compareBools :: "bool \<Rightarrow> bool \<Rightarrow> operator \<Rightarrow> bool" where
  "compareBools l r p = (case p of EQ \<Rightarrow> l = r | NE \<Rightarrow> l \<noteq> r | _ \<Rightarrow> False)"

definition compareTimes :: "gotime \<Rightarrow> gotime \<Rightarrow> operator \<Rightarrow> bool" where
  "compareTimes l r p = (case p of LT \<Rightarrow> unix l < unix r | LE \<Rightarrow> unix l < unix r \<or> unix l = unix r
     | GT \<Rightarrow> unix l > unix r | GE \<Rightarrow> unix l > unix r \<or> unix l = unix r | _ \<Rightarrow> False)"

fun compareSupportedTypes :: "val option \<Rightarrow> val option \<Rightarrow> operator \<Rightarrow> bool" where
  "compareSupportedTypes (Some (VInt l)) (Some (VInt r)) p = compareInts l r p"
| "compareSupportedTypes (Some (VLong l)) (Some (VLong r)) p = compareInt64s l r p"
| "compareSupportedTypes (Some (VShort l)) (Some (VShort r)) p = compareInt16s l r p"
| "compareSupportedTypes (Some (VString l)) (Some (VString r)) p = compareStrings l r p"
| "compareSupportedTypes (Some (VBool l)) (Some (VBool r)) p = compareBools l r p"
| "compareSupportedTypes (Some (VDate l)) (Some (VDate r)) p = compareTimes l r p"
| "compareSupportedTypes _ _ p = False"

text \<open>The switch of \<open>IsSatisfied\<close> on evaluated sides.\<close>

definition compare_vals :: "operator \<Rightarrow> val option \<Rightarrow> val option \<Rightarrow> bool" where
  "compare_vals p l r = (case p of EQ \<Rightarrow> l = r | NE \<Rightarrow> l \<noteq> r | BadOp \<Rightarrow> False
     | _ \<Rightarrow> compareSupportedTypes l r p)"

definition term_IsSatisfied :: "(string \<Rightarrow> ('s, val option) go) \<Rightarrow> qterm \<Rightarrow> ('s, bool) go" where
  "term_IsSatisfied getVal t =
     handle (expr_Evaluate getVal (t_lhs t)) (\<lambda>l.
       handle (expr_Evaluate getVal (t_rhs t)) (\<lambda>r. ret (compare_vals (t_op t) l r))
         (\<lambda>_. ret False)) (\<lambda>_. ret False)"

definition reductionForConstantComparison :: "int \<Rightarrow> operator \<Rightarrow> int" where
  "reductionForConstantComparison d p = (case p of EQ \<Rightarrow> max 1 d | NE \<Rightarrow> d | BadOp \<Rightarrow> d
     | _ \<Rightarrow> max 1 (go_div d 2))"

definition term_ReductionFactor :: "(string \<Rightarrow> int res) \<Rightarrow> qterm \<Rightarrow> int res" where
  "term_ReductionFactor dv t =
     (if IsFieldName (t_lhs t) \<and> IsFieldName (t_rhs t) then
        rbind (dv (ex_field (t_lhs t))) (\<lambda>a. rbind (dv (ex_field (t_rhs t))) (\<lambda>b. Inr (max a b)))
      else if IsFieldName (t_lhs t) then
        rbind (dv (ex_field (t_lhs t))) (\<lambda>a. Inr (reductionForConstantComparison a (t_op t)))
      else if IsFieldName (t_rhs t) then
        rbind (dv (ex_field (t_rhs t))) (\<lambda>b. Inr (reductionForConstantComparison b (t_op t)))
      else if ex_value (t_lhs t) = ex_value (t_rhs t) \<and> t_op t = EQ then Inr 1
      else if ex_value (t_lhs t) \<noteq> ex_value (t_rhs t) \<and> t_op t = NE then Inr 1
      else Inr maxInt)"

definition term_EquatesWithConstant :: "string \<Rightarrow> qterm \<Rightarrow> val option" where
  "term_EquatesWithConstant f t =
     (if t_op t \<noteq> EQ then None
      else if IsFieldName (t_lhs t) \<and> ex_field (t_lhs t) = f \<and> \<not> IsFieldName (t_rhs t) then ex_value (t_rhs t)
      else if IsFieldName (t_rhs t) \<and> ex_field (t_rhs t) = f \<and> \<not> IsFieldName (t_lhs t) then ex_value (t_lhs t)
      else None)"

definition term_EquatesWithField :: "string \<Rightarrow> qterm \<Rightarrow> string" where
  "term_EquatesWithField f t =
     (if t_op t \<noteq> EQ then []
      else if IsFieldName (t_lhs t) \<and> ex_field (t_lhs t) = f \<and> IsFieldName (t_rhs t) then ex_field (t_rhs t)
      else if IsFieldName (t_rhs t) \<and> ex_field (t_rhs t) = f \<and> IsFieldName (t_lhs t) then ex_field (t_lhs t)
      else [])"

definition term_AppliesTo :: "schema \<Rightarrow> qterm \<Rightarrow> bool" where
  "term_AppliesTo s t \<longleftrightarrow> expr_AppliesTo s (t_lhs t) \<and> expr_AppliesTo s (t_rhs t)"

definition term_String :: "(gotime \<Rightarrow> string) \<Rightarrow> qterm \<Rightarrow> string" where
  "term_String st t = expr_String st (t_lhs t) @ '' '' @ op_String (t_op t) @ '' '' @ expr_String st (t_rhs t)"

section \<open>Predicates\<close>

type_synonym predicate = "qterm list"

definition NewPredicate :: predicate where
  "NewPredicate = []"

definition NewPredicateFromTerm :: "qterm \<Rightarrow> predicate" where
  "NewPredicateFromTerm t = [t]"

definition ConjoinWith :: "predicate \<Rightarrow> predicate \<Rightarrow> predicate" where
  "ConjoinWith other p = p @ other"

fun pred_IsSatisfied :: "(string \<Rightarrow> ('s, val option) go) \<Rightarrow> predicate \<Rightarrow> ('s, bool) go" where
  "pred_IsSatisfied getVal [] = ret True"
| "pred_IsSatisfied getVal (t # ts) =
     bnd (term_IsSatisfied getVal t) (\<lambda>b. if \<not> b then ret False else pred_IsSatisfied getVal ts)"

text \<open>The product is a 64-bit \<open>int\<close> and may wrap.\<close>

fun reduction_loop :: "(string \<Rightarrow> int res) \<Rightarrow> predicate \<Rightarrow> int \<Rightarrow> int res" where
  "reduction_loop dv [] factor = Inr factor"
| "reduction_loop dv (t # ts) factor =
     rbind (term_ReductionFactor dv t) (\<lambda>r. reduction_loop dv ts (wrap64 (factor * r)))"

definition pred_ReductionFactor :: "(string \<Rightarrow> int res) \<Rightarrow> predicate \<Rightarrow> int res" where
  "pred_ReductionFactor dv p = reduction_loop dv p 1"

text \<open>\<open>None\<close> is the \<open>nil\<close> predicate.\<close>

definition SelectSubPredicate :: "schema \<Rightarrow> predicate \<Rightarrow> predicate option" where
  "SelectSubPredicate s p = (let r = [t \<leftarrow> p. term_AppliesTo s t] in if r = [] then None else Some r)"

definition JoinSubPredicate :: "schema \<Rightarrow> schema \<Rightarrow> predicate \<Rightarrow> predicate option" where
  "JoinSubPredicate s1 s2 p =
     (let u = AddAll s2 (AddAll s1 NewSchema);
          r = [t \<leftarrow> p. \<not> term_AppliesTo s1 t \<and> \<not> term_AppliesTo s2 t \<and> term_AppliesTo u t]
      in if r = [] then None else Some r)"

fun pred_EquatesWithConstant :: "string \<Rightarrow> predicate \<Rightarrow> val option" where
  "pred_EquatesWithConstant f [] = None"
| "pred_EquatesWithConstant f (t # ts) = (case term_EquatesWithConstant f t of
     Some c \<Rightarrow> Some c | None \<Rightarrow> pred_EquatesWithConstant f ts)"

fun pred_EquatesWithField :: "string \<Rightarrow> predicate \<Rightarrow> string" where
  "pred_EquatesWithField f [] = []"
| "pred_EquatesWithField f (t # ts) = (let g = term_EquatesWithField f t in
     if g \<noteq> [] then g else pred_EquatesWithField f ts)"

definition pred_String :: "(gotime \<Rightarrow> string) \<Rightarrow> predicate \<Rightarrow> string" where
  "pred_String st p = (case p of [] \<Rightarrow> []
     | t # ts \<Rightarrow> foldl (\<lambda>r u. r @ '' and '' @ term_String st u) (term_String st t) ts)"

section \<open>Operators and their names\<close>

lemma operator_roundtrip:
  "p \<noteq> BadOp \<Longrightarrow> OperatorFromString (op_String p) = Inr p"
  "OperatorFromString s = Inr p \<Longrightarrow> op_String p = s \<or> (p = NE \<and> s = ''!='')"
  by (cases p; simp add: op_String_def OperatorFromString_def)
    (auto simp: op_String_def OperatorFromString_def split: if_splits)

section \<open>Meaning on a row\<close>

text \<open>A row assigns values to its fields. On a scan whose \<open>GetVal\<close> reads a row and fails on other
  names, evaluation is a function of the row.\<close>

type_synonym row = "string \<rightharpoonup> val"

definition row_get :: "row \<Rightarrow> string \<Rightarrow> ('s, val option) go" where
  "row_get r f = (case r f of Some v \<Rightarrow> ret (Some v) | None \<Rightarrow> fail EFieldNotFound)"

definition expr_val :: "row \<Rightarrow> expression \<Rightarrow> val option" where
  "expr_val r e = (case ex_value e of Some v \<Rightarrow> Some v | None \<Rightarrow> r (ex_field e))"

definition term_holds :: "row \<Rightarrow> qterm \<Rightarrow> bool" where
  "term_holds r t = (case (expr_val r (t_lhs t), expr_val r (t_rhs t)) of
     (Some a, Some b) \<Rightarrow> compare_vals (t_op t) (Some a) (Some b) | _ \<Rightarrow> False)"

definition pred_holds :: "row \<Rightarrow> predicate \<Rightarrow> bool" where
  "pred_holds r p \<longleftrightarrow> (\<forall>t \<in> set p. term_holds r t)"

definition pred_holds_opt :: "row \<Rightarrow> predicate option \<Rightarrow> bool" where
  "pred_holds_opt r p = (case p of None \<Rightarrow> True | Some q \<Rightarrow> pred_holds r q)"

text \<open>A \<open>GetVal\<close> that reads the row \<open>r\<close> in every state satisfying \<open>I\<close>, and keeps \<open>I\<close>.\<close>

definition reads_row :: "('s \<Rightarrow> bool) \<Rightarrow> (string \<Rightarrow> ('s, val option) go) \<Rightarrow> row \<Rightarrow> bool" where
  "reads_row I getVal r \<longleftrightarrow> (\<forall>s f. I s \<longrightarrow> (\<exists>s'. I s' \<and>
     (case r f of Some v \<Rightarrow> getVal f s = (Inr (Some v), s') | None \<Rightarrow> \<exists>e. getVal f s = (Err e, s'))))"

lemma reads_row_Evaluate:
  assumes "reads_row I getVal r" and "I s"
  shows "\<exists>s'. I s' \<and> (case expr_val r e of Some v \<Rightarrow> expr_Evaluate getVal e s = (Inr (Some v), s')
    | None \<Rightarrow> \<exists>x. expr_Evaluate getVal e s = (Err x, s'))"
proof (cases "ex_value e")
  case None
  then show ?thesis using assms unfolding reads_row_def expr_Evaluate_def expr_val_def by simp
next
  case (Some v)
  then show ?thesis using assms(2) by (auto simp: expr_Evaluate_def expr_val_def go_unfold)
qed

lemma term_IsSatisfied_row:
  assumes "reads_row I getVal r" and "I s"
  shows "\<exists>s'. term_IsSatisfied getVal t s = (Inr (term_holds r t), s') \<and> I s'"
proof -
  obtain s1 where s1: "I s1" "case expr_val r (t_lhs t) of
      Some v \<Rightarrow> expr_Evaluate getVal (t_lhs t) s = (Inr (Some v), s1)
    | None \<Rightarrow> \<exists>x. expr_Evaluate getVal (t_lhs t) s = (Err x, s1)"
    using reads_row_Evaluate [OF assms] by blast
  show ?thesis
  proof (cases "expr_val r (t_lhs t)")
    case None
    then show ?thesis using s1 by (auto simp: term_IsSatisfied_def handle_Err term_holds_def go_unfold)
  next
    case (Some a)
    obtain s2 where s2: "I s2" "case expr_val r (t_rhs t) of
        Some v \<Rightarrow> expr_Evaluate getVal (t_rhs t) s1 = (Inr (Some v), s2)
      | None \<Rightarrow> \<exists>x. expr_Evaluate getVal (t_rhs t) s1 = (Err x, s2)"
      using reads_row_Evaluate [OF assms(1) s1(1)] by blast
    then show ?thesis
      using s1 Some
      by (cases "expr_val r (t_rhs t)")
        (auto simp: term_IsSatisfied_def handle_Inr handle_Err term_holds_def go_unfold)
  qed
qed

lemma pred_IsSatisfied_row:
  assumes "reads_row I getVal r" and "I s"
  shows "\<exists>s'. pred_IsSatisfied getVal p s = (Inr (pred_holds r p), s') \<and> I s'"
  using assms(2)
proof (induction p arbitrary: s)
  case Nil
  then show ?case by (simp add: go_unfold pred_holds_def)
next
  case (Cons t ts)
  obtain s1 where s1: "term_IsSatisfied getVal t s = (Inr (term_holds r t), s1)" "I s1"
    using term_IsSatisfied_row [OF assms(1) Cons.prems] by blast
  show ?case
  proof (cases "term_holds r t")
    case True
    then show ?thesis using Cons.IH [OF s1(2)] s1(1) by (auto simp: bnd_Inr pred_holds_def)
  next
    case False
    then show ?thesis using s1 by (auto simp: bnd_Inr pred_holds_def go_unfold)
  qed
qed

text \<open>On a plain row the state does not change.\<close>

lemma pred_run: "pred_IsSatisfied (row_get r) p s = (Inr (pred_holds r p), s)"
proof -
  have "reads_row ((=) s) (row_get r) r"
    by (auto simp: reads_row_def row_get_def go_unfold split: option.splits)
  then show ?thesis using pred_IsSatisfied_row [of "(=) s" "row_get r" r s p] by auto
qed

section \<open>Comparison\<close>

text \<open>The relation an operator names.\<close>

definition rel_of :: "operator \<Rightarrow> ('a :: linorder) \<Rightarrow> 'a \<Rightarrow> bool" where
  "rel_of p a b = (case p of EQ \<Rightarrow> a = b | NE \<Rightarrow> a \<noteq> b | LT \<Rightarrow> a < b | LE \<Rightarrow> a \<le> b | GT \<Rightarrow> b < a | GE \<Rightarrow> b \<le> a
     | BadOp \<Rightarrow> False)"

fun val_kind :: "val \<Rightarrow> nat" where
  "val_kind (VInt _) = 0" | "val_kind (VString _) = 1" | "val_kind (VBool _) = 2"
| "val_kind (VLong _) = 3" | "val_kind (VShort _) = 4" | "val_kind (VDate _) = 5"

text \<open>C33. The comparison of two values: on integers, longs, shorts and strings every operator is the
  relation it names, for longs and shorts on the signed value; dates of one location compare by
  their seconds; on booleans only \<open>=\<close> and \<open><>\<close> can hold; values of different types are unequal and
  satisfy no other comparison.\<close>

theorem compare_vals_reference:
  "compare_vals p (Some (VInt a)) (Some (VInt b)) = rel_of p a b \<and>
   compare_vals p (Some (VString s)) (Some (VString t)) = rel_of p s t \<and>
   compare_vals p (Some (VLong k)) (Some (VLong l)) = rel_of p (sint k) (sint l) \<and>
   compare_vals p (Some (VShort g)) (Some (VShort h)) = rel_of p (sint g) (sint h) \<and>
   compare_vals p (Some (VDate (Time u z))) (Some (VDate (Time v z))) = rel_of p u v \<and>
   compare_vals p (Some (VBool c)) (Some (VBool d)) = (p \<in> {EQ, NE} \<and> rel_of p c d) \<and>
   (val_kind x = val_kind y \<or> compare_vals p (Some x) (Some y) = (p = NE))"
proof (intro conjI)
  show "val_kind x = val_kind y \<or> compare_vals p (Some x) (Some y) = (p = NE)"
    by (cases x; cases y; cases p; simp add: compare_vals_def)
qed (cases p; auto simp: compare_vals_def rel_of_def compareInts_def compareStrings_def compareInt64s_def
    compareInt16s_def compareTimes_def compareBools_def signed_word_eqI)+

text \<open>A date constant of a query never equals a stored date: constants are parsed in UTC and dates
  read from a page are in the local zone, and \<open>==\<close> on \<open>time.Time\<close> compares the zone too. So \<open>d = c\<close>
  holds on no row, even when both \<open>d <= c\<close> and \<open>d >= c\<close> do.\<close>

theorem date_equality_never_holds:
  assumes "r f = Some (VDate (Time v Local))"
    and "t = NewTerm (NewFieldExpression f) (NewConstantExpression (Some (VDate (Time u UTC))))"
  shows "pred_IsSatisfied (row_get r) [t EQ] s = (Inr False, s) \<and>
    pred_IsSatisfied (row_get r) [t LE, t GE] s = (Inr (u = v), s)"
  using assms
  by (auto simp: pred_run pred_holds_def term_holds_def expr_val_def NewTerm_def NewFieldExpression_def
      NewConstantExpression_def compare_vals_def compareTimes_def simp del: pred_IsSatisfied.simps)

section \<open>Splitting a predicate over two tables\<close>

definition pred_IsSatisfied_opt :: "(string \<Rightarrow> ('s, val option) go) \<Rightarrow> predicate option \<Rightarrow> ('s, bool) go" where
  "pred_IsSatisfied_opt getVal p = (case p of None \<Rightarrow> ret True | Some q \<Rightarrow> pred_IsSatisfied getVal q)"

lemma pred_opt_run: "pred_IsSatisfied_opt (row_get r) p s = (Inr (pred_holds_opt r p), s)"
  by (cases p) (simp_all add: pred_IsSatisfied_opt_def pred_holds_opt_def go_unfold pred_run)

lemma SelectSubPredicate_holds:
  "pred_holds_opt r (SelectSubPredicate s p) \<longleftrightarrow> (\<forall>t \<in> set p. term_AppliesTo s t \<longrightarrow> term_holds r t)"
  by (auto simp: pred_holds_opt_def SelectSubPredicate_def pred_holds_def Let_def filter_empty_conv)

lemma JoinSubPredicate_holds:
  "pred_holds_opt r (JoinSubPredicate s1 s2 p) \<longleftrightarrow>
    (\<forall>t \<in> set p. \<not> term_AppliesTo s1 t \<longrightarrow> \<not> term_AppliesTo s2 t \<longrightarrow>
       term_AppliesTo (AddAll s2 (AddAll s1 NewSchema)) t \<longrightarrow> term_holds r t)"
  by (auto simp: pred_holds_opt_def JoinSubPredicate_def pred_holds_def Let_def filter_empty_conv)

text \<open>C19. Pushing a predicate down loses nothing: when every term applies to the union of two schemas, a
  row satisfies the predicate exactly when it satisfies the sub-predicates for each schema and the
  join sub-predicate, a missing sub-predicate being true.\<close>

theorem subpredicates_equivalent:
  assumes "\<forall>t \<in> set p. term_AppliesTo (AddAll s2 (AddAll s1 NewSchema)) t"
  shows "\<exists>a b c. pred_IsSatisfied_opt (row_get r) (SelectSubPredicate s1 p) s = (Inr a, s) \<and>
    pred_IsSatisfied_opt (row_get r) (SelectSubPredicate s2 p) s = (Inr b, s) \<and>
    pred_IsSatisfied_opt (row_get r) (JoinSubPredicate s1 s2 p) s = (Inr c, s) \<and>
    pred_IsSatisfied (row_get r) p s = (Inr (a \<and> b \<and> c), s)"
proof -
  have "pred_holds r p \<longleftrightarrow> pred_holds_opt r (SelectSubPredicate s1 p) \<and>
      pred_holds_opt r (SelectSubPredicate s2 p) \<and> pred_holds_opt r (JoinSubPredicate s1 s2 p)"
    unfolding SelectSubPredicate_holds JoinSubPredicate_holds pred_holds_def using assms by blast
  then show ?thesis by (simp add: pred_run pred_opt_run)
qed

section \<open>What a predicate forces\<close>

text \<open>As the constructors build them: an expression is a field or a constant, never both.\<close>

definition expr_wf :: "expression \<Rightarrow> bool" where
  "expr_wf e \<longleftrightarrow> (ex_value e = None) = (ex_field e \<noteq> [])"

definition pred_wf :: "predicate \<Rightarrow> bool" where
  "pred_wf p \<longleftrightarrow> (\<forall>t \<in> set p. expr_wf (t_lhs t) \<and> expr_wf (t_rhs t))"

lemma term_EquatesWithConstant_sound:
  assumes "term_holds r t" and "expr_wf (t_lhs t)" and "expr_wf (t_rhs t)"
    and "term_EquatesWithConstant f t = Some c"
  shows "r f = Some c"
  using assms
  by (auto simp: term_holds_def term_EquatesWithConstant_def expr_val_def expr_wf_def IsFieldName_def
      compare_vals_def split: if_splits option.splits)

lemma term_EquatesWithField_sound:
  assumes "term_holds r t" and "expr_wf (t_lhs t)" and "expr_wf (t_rhs t)"
    and "term_EquatesWithField f t = g" and "g \<noteq> []"
  shows "r f = r g \<and> r f \<noteq> None"
  using assms
  by (auto simp: term_holds_def term_EquatesWithField_def expr_val_def expr_wf_def IsFieldName_def
      compare_vals_def split: if_splits option.splits)

text \<open>C34. What the planner reads off a predicate is true of every row that satisfies it: if
  \<open>EquatesWithConstant f\<close> gives a constant, field \<open>f\<close> holds that constant, and if
  \<open>EquatesWithField f\<close> gives a field, the row has equal values in both.\<close>

theorem equates_sound:
  assumes "pred_wf p" and "pred_IsSatisfied (row_get r) p s = (Inr True, s')"
  shows "(\<forall>c. pred_EquatesWithConstant f p = Some c \<longrightarrow> r f = Some c) \<and>
    (\<forall>g. pred_EquatesWithField f p = g \<longrightarrow> g \<noteq> [] \<longrightarrow> r f = r g \<and> r f \<noteq> None)"
proof -
  have holds: "pred_holds r p" using assms(2) by (simp add: pred_run)
  have c: "r f = Some c" if "set q \<subseteq> set p" "pred_EquatesWithConstant f q = Some c" for q c
    using that
  proof (induction q)
    case (Cons t ts)
    then have t: "term_holds r t" "expr_wf (t_lhs t)" "expr_wf (t_rhs t)"
      using holds assms(1) by (auto simp: pred_holds_def pred_wf_def)
    show ?case
      using Cons term_EquatesWithConstant_sound [OF t]
      by (cases "term_EquatesWithConstant f t") auto
  qed simp
  have "r f = r (pred_EquatesWithField f q) \<and> r f \<noteq> None"
    if "set q \<subseteq> set p" "pred_EquatesWithField f q \<noteq> []" for q
    using that
  proof (induction q)
    case (Cons t ts)
    then have t: "term_holds r t" "expr_wf (t_lhs t)" "expr_wf (t_rhs t)"
      using holds assms(1) by (auto simp: pred_holds_def pred_wf_def)
    have "pred_EquatesWithField f (t # ts) =
        (if term_EquatesWithField f t = [] then pred_EquatesWithField f ts else term_EquatesWithField f t)"
      by (simp add: Let_def)
    then show ?case
      using Cons.IH Cons.prems term_EquatesWithField_sound [OF t refl, of f] by (metis set_subset_Cons subset_trans)
  qed simp
  with c show ?thesis by blast
qed

section \<open>Reduction factors\<close>

text \<open>The reduction factor of a contradictory predicate overflows: a comparison of two different
  constants counts as \<open>maxInt\<close>, and the product of two of them wraps around to 1, the factor of a
  predicate that has no effect.\<close>

theorem reduction_factor_overflow:
  assumes "a \<noteq> b" and "c \<noteq> d"
  shows "pred_ReductionFactor dv
    [NewTerm (NewConstantExpression (Some a)) (NewConstantExpression (Some b)) EQ] = Inr maxInt \<and>
   pred_ReductionFactor dv
    [NewTerm (NewConstantExpression (Some a)) (NewConstantExpression (Some b)) EQ,
     NewTerm (NewConstantExpression (Some c)) (NewConstantExpression (Some d)) EQ] = Inr 1"
  using assms
  by (simp add: pred_ReductionFactor_def term_ReductionFactor_def NewTerm_def NewConstantExpression_def
      IsFieldName_def wrap64_def maxInt_def)

section \<open>Instances\<close>

definition demo_row :: row where
  "demo_row = [''id'' \<mapsto> VInt 2, ''dept'' \<mapsto> VInt 2, ''born'' \<mapsto> VDate (Time 0 Local)]"

definition demo_pred :: predicate where
  "demo_pred = [NewTerm (NewFieldExpression ''id'') (NewConstantExpression (Some (VInt 2))) EQ,
     NewTerm (NewFieldExpression ''dept'') (NewFieldExpression ''id'') EQ]"

lemma demo_pred_holds: "pred_IsSatisfied (row_get demo_row) demo_pred s = (Inr True, s)"
  by (simp add: pred_run pred_holds_def demo_pred_def demo_row_def term_holds_def expr_val_def NewTerm_def
    NewFieldExpression_def NewConstantExpression_def compare_vals_def del: pred_IsSatisfied.simps)

lemma date_equality_never_holds_witness:
  "pred_IsSatisfied (row_get demo_row)
     [NewTerm (NewFieldExpression ''born'') (NewConstantExpression (Some (VDate (Time 0 UTC)))) EQ] () =
   (Inr False, ())"
  using date_equality_never_holds [of demo_row "''born''" 0
      "NewTerm (NewFieldExpression ''born'') (NewConstantExpression (Some (VDate (Time 0 UTC))))" 0 "()"]
  by (simp add: demo_row_def del: pred_IsSatisfied.simps)

lemma subpredicates_equivalent_witness:
  "\<exists>a b c. pred_IsSatisfied (row_get demo_row) demo_pred () = (Inr (a \<and> b \<and> c), ()) \<and>
     pred_IsSatisfied_opt (row_get demo_row)
       (JoinSubPredicate (AddIntField ''id'' NewSchema) (AddIntField ''dept'' NewSchema) demo_pred) () = (Inr c, ())"
proof -
  let ?s = "AddIntField ''id'' NewSchema" and ?d = "AddIntField ''dept'' NewSchema"
  have h: "HasField (AddAll ?d (AddAll ?s NewSchema)) ''id''" "HasField (AddAll ?d (AddAll ?s NewSchema)) ''dept''"
    by (simp_all add: AddAll_def AddIntField_def NewSchema_def AddField_def Add_def HasField_def)
  have "\<forall>t \<in> set demo_pred. term_AppliesTo (AddAll ?d (AddAll ?s NewSchema)) t"
    using h by (simp add: demo_pred_def term_AppliesTo_def expr_AppliesTo_def NewTerm_def
        NewFieldExpression_def NewConstantExpression_def)
  from subpredicates_equivalent [OF this, of demo_row "()"] show ?thesis by blast
qed

lemma equates_sound_witness:
  "demo_row ''id'' = Some (VInt 2) \<and> demo_row ''dept'' = demo_row ''id''"
proof -
  have wf: "pred_wf demo_pred"
    by (simp add: pred_wf_def demo_pred_def expr_wf_def NewTerm_def NewFieldExpression_def NewConstantExpression_def)
  have c: "pred_EquatesWithConstant ''id'' demo_pred = Some (VInt 2)"
    and f: "pred_EquatesWithField ''dept'' demo_pred = ''id''"
    by (simp_all add: demo_pred_def term_EquatesWithConstant_def term_EquatesWithField_def NewTerm_def
      NewFieldExpression_def NewConstantExpression_def IsFieldName_def)
  from equates_sound [OF wf demo_pred_holds [of "()"], of "''id''"]
    equates_sound [OF wf demo_pred_holds [of "()"], of "''dept''"] c f
  show ?thesis by simp
qed

lemma reduction_factor_overflow_witness:
  "pred_ReductionFactor (\<lambda>_. Inr 10)
    [NewTerm (NewConstantExpression (Some (VInt 1))) (NewConstantExpression (Some (VInt 2))) EQ,
     NewTerm (NewConstantExpression (Some (VInt 3))) (NewConstantExpression (Some (VInt 4))) EQ] = Inr 1"
  using reduction_factor_overflow [of "VInt 1" "VInt 2" "VInt 3" "VInt 4" "\<lambda>_. Inr 10"] by simp

end
