(* ===== verification/Parser.thy ===== *)
theory Parser
  imports Lexer QueryPred
begin

text \<open>
  \<^verbatim>\<open>parse/parser.go\<close>, \<^verbatim>\<open>parse/predicate_parser.go\<close> and \<^verbatim>\<open>parse/*_data.go\<close>: the SQL
  statements.

  A parser is its lexer, and every method a stateful call on it. The recursive methods (lists,
  conjunctions, field definitions) take fuel for their depth; the lemmas show that one more than the
  length of the input is always enough. The other lemmas are about what is parsed back: the
  definition of a view is the text of its query, which is parsed again when the view is used.
\<close>

section \<open>Statements\<close>

text \<open>\<open>qd_fields = None\<close> is the nil slice that stands for \<open>*\<close>.\<close>

record query_data =
  qd_fields :: "string list option"
  qd_tables :: "string list"
  qd_pred :: predicate

definition NewQueryData :: "string list option \<Rightarrow> string list \<Rightarrow> predicate \<Rightarrow> query_data" where
  "NewQueryData fs ts p = \<lparr>qd_fields = fs, qd_tables = ts, qd_pred = p\<rparr>"

text \<open>The names, each followed by a comma and a space, with the last two bytes cut off.\<close>

definition comma_list :: "string \<Rightarrow> string list \<Rightarrow> string" where
  "comma_list pre xs = (let r = pre @ concat (map (\<lambda>x. x @ '', '') xs) in take (length r - 2) r)"

definition QueryData_String :: "(gotime \<Rightarrow> string) \<Rightarrow> query_data \<Rightarrow> string" where
  "QueryData_String st qd =
     (if qd_tables qd = [] then []
      else
        let r1 = (case qd_fields qd of None \<Rightarrow> ''select *'' | Some fs \<Rightarrow> comma_list ''select '' fs);
            r2 = comma_list (r1 @ '' from '') (qd_tables qd);
            ps = pred_String st (qd_pred qd)
        in if ps \<noteq> [] then r2 @ '' where '' @ ps else r2)"

record insert_data =
  id_table :: string
  id_fields :: "string list"
  id_values :: "val option list"

definition NewInsertData :: "string \<Rightarrow> string list \<Rightarrow> val option list \<Rightarrow> insert_data" where
  "NewInsertData t fs vs = \<lparr>id_table = t, id_fields = fs, id_values = vs\<rparr>"

record delete_data =
  dd_table :: string
  dd_pred :: predicate

definition NewDeleteData :: "string \<Rightarrow> predicate \<Rightarrow> delete_data" where
  "NewDeleteData t p = \<lparr>dd_table = t, dd_pred = p\<rparr>"

record modify_data =
  md_table :: string
  md_field :: string
  md_value :: expression
  md_pred :: predicate

definition NewModifyData :: "string \<Rightarrow> string \<Rightarrow> expression \<Rightarrow> predicate \<Rightarrow> modify_data" where
  "NewModifyData t f e p = \<lparr>md_table = t, md_field = f, md_value = e, md_pred = p\<rparr>"

record create_table_data =
  ct_table :: string
  ct_schema :: schema

definition NewCreateTableData :: "string \<Rightarrow> schema \<Rightarrow> create_table_data" where
  "NewCreateTableData t s = \<lparr>ct_table = t, ct_schema = s\<rparr>"

record create_view_data =
  cv_name :: string
  cv_query :: query_data

definition NewCreateViewData :: "string \<Rightarrow> query_data \<Rightarrow> create_view_data" where
  "NewCreateViewData v q = \<lparr>cv_name = v, cv_query = q\<rparr>"

definition ViewDefinition :: "(gotime \<Rightarrow> string) \<Rightarrow> create_view_data \<Rightarrow> string" where
  "ViewDefinition st cv = QueryData_String st (cv_query cv)"

record create_index_data =
  ci_name :: string
  ci_table :: string
  ci_field :: string

definition NewCreateIndexData :: "string \<Rightarrow> string \<Rightarrow> string \<Rightarrow> create_index_data" where
  "NewCreateIndexData i t f = \<lparr>ci_name = i, ci_table = t, ci_field = f\<rparr>"

datatype command = CInsert insert_data | CDelete delete_data | CModify modify_data
  | CCreateTable create_table_data | CCreateView create_view_data | CCreateIndex create_index_data

section \<open>Constants, expressions, predicates\<close>

type_synonym 'a parser = "(lexer, 'a) go"

text \<open>\<open>_ = call\<close>: the error is dropped, the state the call left is kept.\<close>

definition ignore :: "unit parser \<Rightarrow> unit parser" where
  "ignore m = handle m (\<lambda>_. ret ()) (\<lambda>_. ret ())"

definition NewParser :: "unicode \<Rightarrow> string \<Rightarrow> lexer" where
  "NewParser U s = NewLexer U s"

definition p_field :: "string parser" where
  "p_field = EatId"

text \<open>Boolean and date constants are returned even when moving to the next token fails.\<close>

definition p_constant :: "val option parser" where
  "p_constant l =
     (if MatchStringConstant l then bnd EatStringConstant (\<lambda>v. ret (Some (VString v))) l
      else if MatchIntConstant l then bnd EatIntConstant (\<lambda>n. ret (Some (VInt n))) l
      else if MatchBooleanConstant l then
        handle EatBooleanConstant (\<lambda>b. ret (Some (VBool b))) (\<lambda>_. ret (Some (VBool False))) l
      else if MatchDateConstant l then
        handle EatDateConstant (\<lambda>d. ret (Some (VDate d))) (\<lambda>_. ret (Some (VDate time_zero))) l
      else (Err ESyntax, l))"

definition p_expression :: "expression parser" where
  "p_expression l =
     (if MatchId l then bnd p_field (\<lambda>f. ret (NewFieldExpression f)) l
      else bnd p_constant (\<lambda>c. ret (NewConstantExpression c)) l)"

definition p_parseOperator :: "string parser" where
  "p_parseOperator l = (case lx_tok l of TOp p \<Rightarrow> bnd nextToken (\<lambda>_. ret p) l | _ \<Rightarrow> (Err ESyntax, l))"

definition p_term :: "qterm parser" where
  "p_term =
     bnd p_expression (\<lambda>lhs.
     bnd p_parseOperator (\<lambda>p.
     bnd p_expression (\<lambda>rhs.
     bnd (lift_res (OperatorFromString p)) (\<lambda>parsedOp.
     ret (NewTerm lhs rhs parsedOp)))))"

fun p_predicate :: "nat \<Rightarrow> predicate parser" where
  "p_predicate 0 = (\<lambda>l. (Inl OutOfFuel, l))"
| "p_predicate (Suc n) =
     bnd p_term (\<lambda>firstTerm. \<lambda>l.
       if MatchKeyword ''and'' l then
         bnd (ignore (EatKeyword ''and'')) (\<lambda>_.
         bnd (p_predicate n) (\<lambda>otherPred.
         ret (ConjoinWith otherPred (NewPredicateFromTerm firstTerm)))) l
       else (Inr (NewPredicateFromTerm firstTerm), l))"

text \<open>The optional \<open>where\<close> clause that ends a query, a delete and an update.\<close>

definition p_where :: "nat \<Rightarrow> predicate parser" where
  "p_where n l =
     (if MatchKeyword ''where'' l then bnd (ignore (EatKeyword ''where'')) (\<lambda>_. p_predicate n) l
      else (Inr NewPredicate, l))"

section \<open>Queries\<close>

fun p_selectList :: "nat \<Rightarrow> string list option parser" where
  "p_selectList 0 = (\<lambda>l. (Inl OutOfFuel, l))"
| "p_selectList (Suc n) = (\<lambda>l0.
     if MatchDelim 42 l0 then bnd (ignore (EatDelim 42)) (\<lambda>_. ret None) l0
     else bnd p_field (\<lambda>f. \<lambda>l.
       if MatchDelim 44 l then
         bnd (ignore (EatDelim 44)) (\<lambda>_.
         bnd (p_selectList n) (\<lambda>rest.
         ret (Some (f # (case rest of None \<Rightarrow> [] | Some r \<Rightarrow> r))))) l
       else (Inr (Some [f]), l)) l0)"

text \<open>A comma-separated list of items; \<open>tableList\<close>, \<open>fieldList\<close> and \<open>constList\<close> have this shape.\<close>

fun p_list :: "'a parser \<Rightarrow> nat \<Rightarrow> 'a list parser" where
  "p_list item 0 = (\<lambda>l. (Inl OutOfFuel, l))"
| "p_list item (Suc n) =
     bnd item (\<lambda>x. \<lambda>l.
       if MatchDelim 44 l then
         bnd (ignore (EatDelim 44)) (\<lambda>_. bnd (p_list item n) (\<lambda>rest. ret (x # rest))) l
       else (Inr [x], l))"

definition p_tableList :: "nat \<Rightarrow> string list parser" where
  "p_tableList = p_list EatId"

definition p_fieldList :: "nat \<Rightarrow> string list parser" where
  "p_fieldList = p_list p_field"

definition p_constList :: "nat \<Rightarrow> val option list parser" where
  "p_constList = p_list p_constant"

definition p_Query :: "nat \<Rightarrow> query_data parser" where
  "p_Query n =
     bnd (EatKeyword ''select'') (\<lambda>_.
     bnd (p_selectList n) (\<lambda>fields.
     bnd (EatKeyword ''from'') (\<lambda>_.
     bnd (p_tableList n) (\<lambda>tables.
     bnd (p_where n) (\<lambda>pred.
     ret (NewQueryData fields tables pred))))))"

section \<open>Updates\<close>

definition p_delete :: "nat \<Rightarrow> delete_data parser" where
  "p_delete n =
     bnd (EatKeyword ''delete'') (\<lambda>_.
     bnd (EatKeyword ''from'') (\<lambda>_.
     bnd EatId (\<lambda>tableName.
     bnd (p_where n) (\<lambda>pred.
     ret (NewDeleteData tableName pred)))))"

definition p_insert :: "nat \<Rightarrow> insert_data parser" where
  "p_insert n =
     bnd (EatKeyword ''insert'') (\<lambda>_.
     bnd (EatKeyword ''into'') (\<lambda>_.
     bnd EatId (\<lambda>tableName.
     bnd (EatDelim 40) (\<lambda>_.
     bnd (p_fieldList n) (\<lambda>fields.
     bnd (EatDelim 41) (\<lambda>_.
     bnd (EatKeyword ''values'') (\<lambda>_.
     bnd (EatDelim 40) (\<lambda>_.
     bnd (p_constList n) (\<lambda>vals.
     bnd (EatDelim 41) (\<lambda>_.
     ret (NewInsertData tableName fields vals)))))))))))"

definition p_modify :: "nat \<Rightarrow> modify_data parser" where
  "p_modify n =
     bnd (EatKeyword ''update'') (\<lambda>_.
     bnd EatId (\<lambda>tableName.
     bnd (EatKeyword ''set'') (\<lambda>_.
     bnd p_field (\<lambda>fieldName.
     bnd (EatOperator ''='') (\<lambda>_.
     bnd p_expression (\<lambda>newVal.
     bnd (p_where n) (\<lambda>pred.
     ret (NewModifyData tableName fieldName newVal pred))))))))"

definition p_parseVarcharLength :: "string \<Rightarrow> schema \<Rightarrow> schema parser" where
  "p_parseVarcharLength f s =
     bnd (ignore (EatDelim 40)) (\<lambda>_.
     bnd EatIntConstant (\<lambda>n.
     bnd (ignore (EatDelim 41)) (\<lambda>_.
     ret (AddStringField f n s))))"

definition p_fieldType :: "string \<Rightarrow> schema parser" where
  "p_fieldType f l =
     (if MatchKeyword ''int'' l then bnd (ignore (EatKeyword ''int'')) (\<lambda>_. ret (AddIntField f NewSchema)) l
      else if MatchKeyword ''varchar'' l then
        bnd (ignore (EatKeyword ''varchar'')) (\<lambda>_. p_parseVarcharLength f NewSchema) l
      else if MatchKeyword ''bool'' l then bnd (ignore (EatKeyword ''bool'')) (\<lambda>_. ret (AddBoolField f NewSchema)) l
      else if MatchKeyword ''date'' l then bnd (ignore (EatKeyword ''date'')) (\<lambda>_. ret (AddDateField f NewSchema)) l
      else (Err ESyntax, l))"

definition p_fieldDef :: "schema parser" where
  "p_fieldDef = bnd p_field p_fieldType"

fun p_fieldDefs :: "nat \<Rightarrow> schema parser" where
  "p_fieldDefs 0 = (\<lambda>l. (Inl OutOfFuel, l))"
| "p_fieldDefs (Suc n) =
     bnd p_fieldDef (\<lambda>schema. \<lambda>l.
       if MatchDelim 44 l then
         bnd (ignore (EatDelim 44)) (\<lambda>_. bnd (p_fieldDefs n) (\<lambda>schema2. ret (AddAll schema2 schema))) l
       else (Inr schema, l))"

definition p_createTable :: "nat \<Rightarrow> create_table_data parser" where
  "p_createTable n =
     bnd (EatKeyword ''table'') (\<lambda>_.
     bnd EatId (\<lambda>tableName.
     bnd (EatDelim 40) (\<lambda>_.
     bnd (p_fieldDefs n) (\<lambda>sch.
     bnd (EatDelim 41) (\<lambda>_.
     ret (NewCreateTableData tableName sch))))))"

definition p_createView :: "nat \<Rightarrow> create_view_data parser" where
  "p_createView n =
     bnd (EatKeyword ''view'') (\<lambda>_.
     bnd EatId (\<lambda>viewName.
     bnd (EatKeyword ''as'') (\<lambda>_.
     bnd (p_Query n) (\<lambda>qd.
     ret (NewCreateViewData viewName qd)))))"

definition p_createIndex :: "create_index_data parser" where
  "p_createIndex =
     bnd (EatKeyword ''index'') (\<lambda>_.
     bnd EatId (\<lambda>indexName.
     bnd (EatKeyword ''on'') (\<lambda>_.
     bnd EatId (\<lambda>tableName.
     bnd (EatDelim 40) (\<lambda>_.
     bnd p_field (\<lambda>fieldName.
     bnd (EatDelim 41) (\<lambda>_.
     ret (NewCreateIndexData indexName tableName fieldName))))))))"

definition p_create :: "nat \<Rightarrow> command parser" where
  "p_create n =
     bnd (EatKeyword ''create'') (\<lambda>_. \<lambda>l.
       if MatchKeyword ''table'' l then bnd (p_createTable n) (\<lambda>d. ret (CCreateTable d)) l
       else if MatchKeyword ''view'' l then bnd (p_createView n) (\<lambda>d. ret (CCreateView d)) l
       else bnd p_createIndex (\<lambda>d. ret (CCreateIndex d)) l)"

definition p_UpdateCmd :: "nat \<Rightarrow> command parser" where
  "p_UpdateCmd n l =
     (if MatchKeyword ''insert'' l then bnd (p_insert n) (\<lambda>d. ret (CInsert d)) l
      else if MatchKeyword ''delete'' l then bnd (p_delete n) (\<lambda>d. ret (CDelete d)) l
      else if MatchKeyword ''update'' l then bnd (p_modify n) (\<lambda>d. ret (CModify d)) l
      else p_create n l)"

section \<open>The predicate parser\<close>

text \<open>It only checks the syntax, and looks for \<open>=\<close> as a delimiter.\<close>

definition pp_constant :: "unit parser" where
  "pp_constant l = (if MatchStringConstant l then bnd EatStringConstant (\<lambda>_. ret ()) l
     else bnd EatIntConstant (\<lambda>_. ret ()) l)"

definition pp_expression :: "unit parser" where
  "pp_expression l = (if MatchId l then bnd EatId (\<lambda>_. ret ()) l else pp_constant l)"

definition pp_term :: "unit parser" where
  "pp_term = bnd pp_expression (\<lambda>_. bnd (EatDelim 61) (\<lambda>_. pp_expression))"

fun pp_predicate :: "nat \<Rightarrow> unit parser" where
  "pp_predicate 0 = (\<lambda>l. (Inl OutOfFuel, l))"
| "pp_predicate (Suc n) = bnd pp_term (\<lambda>_. \<lambda>l.
     if MatchKeyword ''and'' l then bnd (EatKeyword ''and'') (\<lambda>_. pp_predicate n) l else (Inr (), l))"

section \<open>The parsers end\<close>

text \<open>What is left to read: the input, and one for a token that is not the end.\<close>

definition lsize :: "lexer \<Rightarrow> nat" where
  "lsize l = length (lx_rest l) + (if lx_tok l = TEOF then 0 else 1)"

text \<open>The outcome of a call from \<open>l\<close>: no fuel ran out and nothing panicked, the input did not grow,
  and when \<open>strict\<close>, a success has consumed something.\<close>

definition steps :: "bool \<Rightarrow> lexer \<Rightarrow> 'a res \<times> lexer \<Rightarrow> bool" where
  "steps strict l out \<longleftrightarrow> lsize (snd out) \<le> lsize l \<and> fst out \<noteq> Inl OutOfFuel \<and> fst out \<noteq> Inl Panic \<and>
     (strict \<longrightarrow> (\<forall>x. fst out = Inr x \<longrightarrow> lsize (snd out) < lsize l))"

lemma steps_weaken: "steps True l out \<Longrightarrow> steps b l out"
  by (simp add: steps_def)

lemma steps_ret [intro]: "steps False l (Inr x, l)" "steps b l (Err e, l)" "steps False l (ret x l)"
  by (simp_all add: steps_def go_unfold)

lemma steps_bnd_strict:
  assumes "steps True l (m l)" and "\<And>x l'. m l = (Inr x, l') \<Longrightarrow> lsize l' < lsize l \<Longrightarrow> steps False l' (f x l')"
  shows "steps True l (bnd m f l)"
proof (cases "m l")
  case (Pair r l')
  show ?thesis
  proof (cases r)
    case (Inl e)
    then show ?thesis using assms(1) Pair by (simp add: bnd_Inl steps_def)
  next
    case (Inr x)
    then have lt: "lsize l' < lsize l" using assms(1) Pair by (simp add: steps_def)
    then have "steps False l' (f x l')" using assms(2) Pair Inr by blast
    then show ?thesis using lt Pair Inr by (auto simp: bnd_Inr steps_def)
  qed
qed

lemma steps_bnd:
  assumes "steps False l (m l)" and "\<And>x l'. m l = (Inr x, l') \<Longrightarrow> lsize l' \<le> lsize l \<Longrightarrow> steps b l' (f x l')"
  shows "steps b l (bnd m f l)"
proof (cases "m l")
  case (Pair r l')
  show ?thesis
  proof (cases r)
    case (Inl e)
    then show ?thesis using assms(1) Pair by (simp add: bnd_Inl steps_def)
  next
    case (Inr x)
    then have le: "lsize l' \<le> lsize l" using assms(1) Pair by (simp add: steps_def)
    then have "steps b l' (f x l')" using assms(2) Pair Inr by blast
    then show ?thesis using le Pair Inr by (auto simp: bnd_Inr steps_def)
  qed
qed

lemma nextToken_steps:
  assumes "lx_tok l \<noteq> TEOF"
  shows "steps True l (nextToken l)"
proof -
  let ?l = "skipWhitespace l" and ?U = "lx_uni l"
  define s where "s = lx_rest ?l"
  have sk: "length s \<le> length (lx_rest l)" "lx_tok ?l = lx_tok l" "lx_uni ?l = ?U" "lx_rest ?l = s"
    using scan_while_length [of "is_space ?U" "lx_rest l"] by (simp_all add: skipWhitespace_def s_def)
  obtain r w where rw: "decode_rune s = (r, w)" by force
  have ok: "steps True l (Inr (), ?l\<lparr>lx_rest := s', lx_tok := t\<rparr>)" if "length s' < length s" for s' t
    using that sk assms by (auto simp: steps_def lsize_def)
  have err: "steps True l (Err e, ?l\<lparr>lx_rest := s'\<rparr>)" if "length s' \<le> length s" for s' e
    using that sk assms by (auto simp: steps_def lsize_def)
  note nt = nextToken_def Let_def sk(3,4) rw
  consider "s = []" | (op) "s \<noteq> []" "isOperatorStart r" | (str) "s \<noteq> []" "\<not> isOperatorStart r" "r = 39"
    | (delim) "s \<noteq> []" "\<not> isOperatorStart r" "r \<noteq> 39" "isDelimiter r"
    | (digit) "s \<noteq> []" "\<not> isOperatorStart r" "r \<noteq> 39" "\<not> isDelimiter r" "is_digit ?U r"
    | (word) "s \<noteq> []" "\<not> isOperatorStart r" "r \<noteq> 39" "\<not> isDelimiter r" "\<not> is_digit ?U r" "is_letter ?U r \<or> r = 95"
    | (other) "s \<noteq> []" "\<not> isOperatorStart r" "r \<noteq> 39" "\<not> isDelimiter r" "\<not> is_digit ?U r" "\<not> (is_letter ?U r \<or> r = 95)"
    by blast
  then show ?thesis
  proof cases
    case 1
    then show ?thesis using assms by (simp add: nt) (simp add: steps_def lsize_def sk)
  next
    case op
    obtain a b where ab: "scanOperator s = (a, b)" by force
    then show ?thesis using op ok scanOperator_shorter [of s] by (simp add: nt)
  next
    case str
    have lt: "length (drop 1 s) < length s" using str(1) by (cases s) auto
    show ?thesis
    proof (cases "scanString (drop 1 s)")
      case None
      then show ?thesis using str err [of "[]" ESyntax] by (simp add: nt isOperatorStart_def)
    next
      case (Some ab)
      obtain a b where ab: "ab = (a, b)" by force
      then have "length b < length s" using scanString_length [of "drop 1 s" a b] Some lt by simp
      then show ?thesis using str Some ab ok by (simp add: nt isOperatorStart_def)
    qed
  next
    case delim
    moreover have "length (drop w s) < length s"
      using decode_rune_shorter [OF rw [symmetric]] delim(1) by (cases s) auto
    ultimately show ?thesis using ok by (simp add: nt)
  next
    case digit
    then have "length (snd (scanDigits ?U s)) < length s"
      unfolding scanDigits_def using scan_while_shorter [OF rw] by simp
    moreover obtain a b where ab: "scanDigits ?U s = (a, b)" by force
    ultimately show ?thesis using digit ok [of b] err [of b ESyntax]
      by (cases "parseDate a"; cases "go_Atoi (filter (\<lambda>c. c \<noteq> CHR '' '') a)") (simp_all add: nt)
  next
    case word
    then have "length (snd (scanWord ?U s)) < length s"
      unfolding scanWord_def using scan_while_shorter [OF rw] by auto
    moreover obtain a b where ab: "scanWord ?U s = (a, b)" by force
    ultimately show ?thesis using word ok [of b] by (simp add: nt)
  next
    case other
    then show ?thesis using assms sk(1,2) by (simp add: nt) (simp add: steps_def lsize_def sk(4))
  qed
qed

lemma Eat_steps:
  "steps True l (EatDelim d l)" "steps True l (EatKeyword w l)" "steps True l (EatOperator q l)"
  by (auto simp: EatDelim_def MatchDelim_def EatKeyword_def MatchKeyword_def EatOperator_def MatchOperator_def
    intro: nextToken_steps)

lemma nextToken_ret_steps: "lx_tok l \<noteq> TEOF \<Longrightarrow> steps True l (bnd nextToken (\<lambda>_. ret x) l)"
  by (rule steps_bnd_strict, rule nextToken_steps) auto

lemma Eat_val_steps:
  "steps True l (EatId l)" "steps True l (EatIntConstant l)" "steps True l (EatStringConstant l)"
  "steps True l (EatBooleanConstant l)" "steps True l (EatDateConstant l)" "steps True l (p_parseOperator l)"
  by (cases "lx_tok l"; auto simp: EatId_def EatIntConstant_def EatStringConstant_def EatBooleanConstant_def
    EatDateConstant_def p_parseOperator_def intro: nextToken_ret_steps)+

lemma ignore_steps: "steps True l (m l) \<Longrightarrow> steps False l (ignore m l)"
  by (cases "m l"; cases "fst (m l)"; cases "projl (fst (m l))")
    (auto simp: ignore_def handle_def steps_def go_unfold)

text \<open>A constant may be returned without having been consumed.\<close>

lemma handle_ret_steps: "steps True l (m l) \<Longrightarrow> steps False l (handle m (\<lambda>x. ret (f x)) (\<lambda>_. ret y) l)"
  by (cases "m l"; cases "fst (m l)"; cases "projl (fst (m l))") (auto simp: handle_def steps_def go_unfold)

lemma p_constant_steps: "steps False l (p_constant l)"
proof -
  have "steps False l (bnd EatStringConstant (\<lambda>v. ret (Some (VString v))) l)"
    "steps False l (bnd EatIntConstant (\<lambda>n. ret (Some (VInt n))) l)"
    by (rule steps_bnd, rule steps_weaken [OF Eat_val_steps(3)], blast)
      (rule steps_bnd, rule steps_weaken [OF Eat_val_steps(2)], blast)
  then show ?thesis
    using handle_ret_steps [where m = EatBooleanConstant and l = l, OF Eat_val_steps(4)]
      handle_ret_steps [where m = EatDateConstant and l = l, OF Eat_val_steps(5)]
    by (auto simp: p_constant_def)
qed

lemma p_expression_steps: "steps False l (p_expression l)"
proof -
  have "steps False l (bnd p_field (\<lambda>f. ret (NewFieldExpression f)) l)"
    unfolding p_field_def by (rule steps_bnd, rule steps_weaken [OF Eat_val_steps(1)]) blast
  moreover have "steps False l (bnd p_constant (\<lambda>c. ret (NewConstantExpression c)) l)"
    by (rule steps_bnd, rule p_constant_steps) blast
  ultimately show ?thesis by (simp add: p_expression_def)
qed

lemma OperatorFromString_ok: "OperatorFromString p \<noteq> Inl OutOfFuel" "OperatorFromString p \<noteq> Inl Panic"
  by (simp_all add: OperatorFromString_def)

lemma lift_res_steps: "r \<noteq> Inl OutOfFuel \<Longrightarrow> r \<noteq> Inl Panic \<Longrightarrow> steps False l (lift_res r l)"
  by (simp add: steps_def go_unfold)

lemma p_term_steps: "steps True l (p_term l)"
  unfolding p_term_def
  by (rule steps_bnd, rule p_expression_steps, rule steps_bnd_strict, rule Eat_val_steps(6),
      rule steps_bnd, rule p_expression_steps, rule steps_bnd, rule lift_res_steps [OF OperatorFromString_ok])
    blast

lemma p_predicate_steps: "lsize l < n \<Longrightarrow> steps True l (p_predicate n l)"
proof (induction n arbitrary: l)
  case (Suc n)
  have rec: "steps False l2 (bnd (p_predicate n) (\<lambda>o'. ret (ConjoinWith o' (NewPredicateFromTerm x))) l2)"
    if "lsize l2 < n" for l2 x
    by (rule steps_bnd, rule steps_weaken [OF Suc.IH [OF that]]) blast
  have "steps False l1 (bnd (ignore (EatKeyword ''and'')) (\<lambda>_. bnd (p_predicate n)
      (\<lambda>o'. ret (ConjoinWith o' (NewPredicateFromTerm x)))) l1)" if "lsize l1 < lsize l" for l1 x
    by (rule steps_bnd, rule ignore_steps [OF Eat_steps(2)], rule rec) (use that Suc.prems in linarith)
  note rest = this
  show ?case
    by (subst p_predicate.simps, rule steps_bnd_strict, rule p_term_steps)
      (use rest in \<open>auto simp del: p_predicate.simps\<close>)
qed simp

lemma p_where_steps: "lsize l < n \<Longrightarrow> steps False l (p_where n l)"
proof -
  assume n: "lsize l < n"
  have "steps False l (bnd (ignore (EatKeyword ''where'')) (\<lambda>_. p_predicate n) l)"
    by (rule steps_bnd, rule ignore_steps [OF Eat_steps(2)], rule steps_weaken, rule p_predicate_steps)
      (use n in linarith)
  then show ?thesis by (auto simp: p_where_def)
qed

lemma p_list_steps:
  assumes item: "\<And>l. steps False l (item l)"
    and comma: "\<And>l x l'. item l = (Inr x, l') \<Longrightarrow> MatchDelim 44 l' \<Longrightarrow> lsize l' < lsize l"
  shows "lsize l < n \<Longrightarrow> steps False l (p_list item n l)"
proof (induction n arbitrary: l)
  case (Suc n)
  have rec: "steps False l2 (bnd (p_list item n) (\<lambda>r. ret (x # r)) l2)" if "lsize l2 < n" for l2 x
    by (rule steps_bnd, rule Suc.IH [OF that]) blast
  have "steps False l1 (bnd (ignore (EatDelim 44)) (\<lambda>_. bnd (p_list item n) (\<lambda>r. ret (x # r))) l1)"
    if "lsize l1 < lsize l" for l1 x
    by (rule steps_bnd, rule ignore_steps [OF Eat_steps(1)], rule rec) (use that Suc.prems in linarith)
  note rest = this
  show ?case
    by (subst p_list.simps, rule steps_bnd, rule item) (use rest comma in \<open>auto simp del: p_list.simps\<close>)
qed simp

text \<open>Sequencing below a bound, for the straight-line parsers.\<close>

definition below :: "nat \<Rightarrow> 'a parser \<Rightarrow> bool" where
  "below n m \<longleftrightarrow> (\<forall>l. lsize l < n \<longrightarrow> steps False l (m l))"

lemma below_bnd: "below n m \<Longrightarrow> (\<And>x. below n (f x)) \<Longrightarrow> below n (bnd m f)"
  unfolding below_def
proof (intro allI impI)
  fix l
  assume m: "\<forall>l. lsize l < n \<longrightarrow> steps False l (m l)" and f: "\<And>x. \<forall>l. lsize l < n \<longrightarrow> steps False l (f x l)"
    and l: "lsize l < n"
  show "steps False l (bnd m f l)"
    by (rule steps_bnd) (use m f l in \<open>auto intro: le_less_trans\<close>)
qed

lemma below_ret: "below n (ret x)" "below n (\<lambda>l. (Err e, l))"
  by (auto simp: below_def)

lemma below_if: "below n m \<Longrightarrow> below n k \<Longrightarrow> below n (\<lambda>l. if P l then m l else k l)"
  by (simp add: below_def)

lemma EatId_consumes: "EatId l = (Inr x, l') \<Longrightarrow> lsize l' < lsize l"
  using Eat_val_steps(1) [of l] by (simp add: steps_def)

lemma nextToken_err_tok: "nextToken l = (Err e, l') \<Longrightarrow> lx_tok l' = lx_tok l"
  by (auto simp: nextToken_def Let_def skipWhitespace_def split: if_splits prod.splits option.splits)

lemma p_constant_consumes:
  assumes "p_constant l = (Inr x, l')" and "MatchDelim d l'"
  shows "lsize l' < lsize l"
proof -
  obtain r l1 where nt: "nextToken l = (r, l1)" by force
  have st: "steps True l (r, l1)" if "lx_tok l \<noteq> TEOF" using nextToken_steps [OF that] nt by simp
  have r: "(\<exists>u. r = Inr u) \<or> (\<exists>e. r = Err e)" if "lx_tok l \<noteq> TEOF"
    using st [OF that] by (cases r; cases "projl r") (auto simp: steps_def)
  have tok: "lx_tok l1 = lx_tok l" if "r = Err e" for e using nt that nextToken_err_tok by blast
  note defs = p_constant_def MatchStringConstant_def MatchIntConstant_def MatchBooleanConstant_def
    MatchDateConstant_def EatStringConstant_def EatIntConstant_def EatBooleanConstant_def EatDateConstant_def
    bnd_def handle_def MatchDelim_def go_unfold steps_def
  show ?thesis
    using assms nt st r tok by (cases "lx_tok l") (auto simp: defs)
qed

lemma below_Eat:
  "below n (EatDelim d)" "below n (EatKeyword w)" "below n (EatOperator q)" "below n EatId"
  "below n EatIntConstant" "below n p_field" "below n p_expression" "below n p_constant"
  "below n (ignore (EatDelim d))" "below n (ignore (EatKeyword w))" "below n (p_where n)"
  "below n (p_predicate n)" "below n EatStringConstant"
  using p_expression_steps p_constant_steps
  by (auto simp: below_def p_field_def intro: steps_weaken [OF Eat_steps(1)] steps_weaken [OF Eat_steps(2)]
      steps_weaken [OF Eat_steps(3)] steps_weaken [OF Eat_val_steps(1)] steps_weaken [OF Eat_val_steps(2)]
      steps_weaken [OF Eat_val_steps(3)]
      ignore_steps [OF Eat_steps(1)] ignore_steps [OF Eat_steps(2)] p_where_steps steps_weaken [OF p_predicate_steps])

lemma below_lists:
  "below n (p_tableList n)" "below n (p_fieldList n)" "below n (p_constList n)"
proof -
  have "steps False l (p_list EatId n l)" if "lsize l < n" for l
    by (rule p_list_steps [OF steps_weaken [OF Eat_val_steps(1)] _ that]) (rule EatId_consumes)
  moreover have "steps False l (p_list p_constant n l)" if "lsize l < n" for l
    by (rule p_list_steps [OF p_constant_steps _ that]) (rule p_constant_consumes)
  ultimately show "below n (p_tableList n)" "below n (p_fieldList n)" "below n (p_constList n)"
    by (simp_all add: below_def p_tableList_def p_fieldList_def p_constList_def p_field_def)
qed

lemma p_selectList_steps: "lsize l < n \<Longrightarrow> steps False l (p_selectList n l)"
proof (induction n arbitrary: l)
  case (Suc n)
  have rec: "steps False l2 (bnd (p_selectList n) (\<lambda>r. ret (Some (x # (case r of None \<Rightarrow> [] | Some r \<Rightarrow> r)))) l2)"
    if "lsize l2 < n" for l2 x
    by (rule steps_bnd, rule Suc.IH [OF that]) blast
  have rest: "steps False l1 (bnd (ignore (EatDelim 44)) (\<lambda>_. bnd (p_selectList n)
      (\<lambda>r. ret (Some (x # (case r of None \<Rightarrow> [] | Some r \<Rightarrow> r))))) l1)" if "lsize l1 < lsize l" for l1 x
    by (rule steps_bnd, rule ignore_steps, rule Eat_steps(1), rule rec) (use that Suc.prems in linarith)
  have star: "steps False l (bnd (ignore (EatDelim 42)) (\<lambda>_. ret (None :: string list option)) l)"
    by (rule steps_bnd, rule ignore_steps, rule Eat_steps(1)) blast
  have "steps True l (bnd p_field (\<lambda>f. \<lambda>l. if MatchDelim 44 l then
      bnd (ignore (EatDelim 44)) (\<lambda>_. bnd (p_selectList n)
      (\<lambda>r. ret (Some (f # (case r of None \<Rightarrow> [] | Some r \<Rightarrow> r))))) l else (Inr (Some [f]), l)) l)"
    unfolding p_field_def
    by (rule steps_bnd_strict, rule Eat_val_steps(1)) (use rest in auto)
  note this = steps_weaken [OF this, of False]
  then show ?case using star by (simp add: p_selectList.simps(2))
qed simp

lemma p_fieldDef_steps: "steps True l (p_fieldDef l)"
proof -
  have b: "below (Suc (lsize l1)) (p_fieldType f)" for f l1
    unfolding p_fieldType_def p_parseVarcharLength_def
    by (intro below_if below_bnd below_Eat below_ret)
  have t: "steps False l1 (p_fieldType f l1)" for f l1
    using b [of l1 f] by (simp add: below_def)
  show ?thesis
    unfolding p_fieldDef_def p_field_def
    by (rule steps_bnd_strict, rule Eat_val_steps(1), rule t)
qed

lemma p_fieldDefs_steps: "lsize l < n \<Longrightarrow> steps False l (p_fieldDefs n l)"
proof (induction n arbitrary: l)
  case (Suc n)
  have rec: "steps False l2 (bnd (p_fieldDefs n) (\<lambda>r. ret (AddAll r x)) l2)" if "lsize l2 < n" for l2 x
    by (rule steps_bnd, rule Suc.IH [OF that]) blast
  have rest: "steps False l1 (bnd (ignore (EatDelim 44)) (\<lambda>_. bnd (p_fieldDefs n) (\<lambda>r. ret (AddAll r x))) l1)"
    if "lsize l1 < lsize l" for l1 x
    by (rule steps_bnd, rule ignore_steps, rule Eat_steps(1), rule rec) (use that Suc.prems in linarith)
  have "steps True l (p_fieldDefs (Suc n) l)"
    by (subst p_fieldDefs.simps, rule steps_bnd_strict, rule p_fieldDef_steps)
      (use rest in \<open>auto simp del: p_fieldDefs.simps\<close>)
  then show ?case by (rule steps_weaken)
qed simp

lemma below_rec: "below n (p_selectList n)" "below n (p_fieldDefs n)"
  by (auto simp: below_def intro: p_selectList_steps p_fieldDefs_steps)

lemma below_Query: "below n (p_Query n)"
  unfolding p_Query_def by (intro below_bnd below_Eat below_ret below_lists below_rec)

lemma below_commands: "below n (p_insert n)" "below n (p_delete n)" "below n (p_modify n)"
  "below n (p_createTable n)" "below n (p_createView n)" "below n p_createIndex"
  unfolding p_insert_def p_delete_def p_modify_def p_createTable_def p_createView_def p_createIndex_def
  by (intro below_bnd below_Eat below_ret below_lists below_rec below_Query)+

lemma below_UpdateCmd: "below n (p_UpdateCmd n)"
  unfolding p_UpdateCmd_def [abs_def] p_create_def
  by (intro below_if below_bnd below_Eat below_ret below_commands)

lemma NewLexer_size: "lsize (NewLexer U s) \<le> Suc (length s)"
  using nextToken_steps [of "\<lparr>lx_uni = U, lx_rest = s, lx_tok = TDelim 0\<rparr>"]
  by (simp add: NewLexer_def steps_def lsize_def)

lemma res_ok: "r \<noteq> Inl OutOfFuel \<Longrightarrow> r \<noteq> Inl Panic \<Longrightarrow> (\<exists>x. r = Inr x) \<or> (\<exists>e. r = Err e)"
  by (cases r; cases "projl r") auto

text \<open>C20. The parser ends on every input: with fuel for one more level than the length of the statement,
  parsing a query or an update command returns a result or a syntax error, and never runs out of
  fuel or panics, whatever the bytes of the statement and the Unicode tables.\<close>

theorem parser_ends:
  assumes "length s + 1 < n"
  shows "((\<exists>qd. fst (p_Query n (NewParser U s)) = Inr qd) \<or> (\<exists>e. fst (p_Query n (NewParser U s)) = Err e)) \<and>
    ((\<exists>c. fst (p_UpdateCmd n (NewParser U s)) = Inr c) \<or> (\<exists>e. fst (p_UpdateCmd n (NewParser U s)) = Err e))"
proof -
  have size: "lsize (NewParser U s) < n" using NewLexer_size [of U s] assms by (simp add: NewParser_def)
  have "fst (p_Query n (NewParser U s)) \<noteq> Inl OutOfFuel" "fst (p_Query n (NewParser U s)) \<noteq> Inl Panic"
    "fst (p_UpdateCmd n (NewParser U s)) \<noteq> Inl OutOfFuel" "fst (p_UpdateCmd n (NewParser U s)) \<noteq> Inl Panic"
    using below_Query [of n] below_UpdateCmd [of n] size by (simp_all add: below_def steps_def)
  then show ?thesis by (simp add: res_ok)
qed

text \<open>The separate predicate parser accepts nothing: it asks for \<open>=\<close> as a delimiter, and the lexer
  makes \<open>=\<close> an operator, so no statement makes it succeed.\<close>

theorem pred_parser_rejects: "\<not> (\<exists>l'. pp_predicate n (NewLexer U s) = (Inr (), l'))"
proof -
  have nt: "lx_tok l' \<noteq> TDelim 61" if "nextToken l = (r, l')" "lx_tok l \<noteq> TDelim 61" for l r l'
    using that by (auto simp: nextToken_def Let_def skipWhitespace_def isDelimiter_def
        split: if_splits prod.splits option.splits)
  have eat: "lx_tok l' \<noteq> TDelim 61" if "pp_expression l = (r, l')" "lx_tok l \<noteq> TDelim 61" for l r l'
    using that nt by (auto simp: pp_expression_def pp_constant_def EatId_def EatStringConstant_def
        EatIntConstant_def bnd_def go_unfold split: if_splits token.splits sum.splits prod.splits)
  have no_term: "pp_term l \<noteq> (Inr x, l')" if "lx_tok l \<noteq> TDelim 61" for l x l'
    using eat that by (auto simp: pp_term_def bnd_def EatDelim_def MatchDelim_def split: sum.splits prod.splits)
  have "lx_tok (NewLexer U s) \<noteq> TDelim 61"
    using nt [of "\<lparr>lx_uni = U, lx_rest = s, lx_tok = TDelim 0\<rparr>"] by (simp add: NewLexer_def) (metis prod.collapse)
  then show ?thesis
    using no_term by (cases n) (auto simp: bnd_def split: sum.splits prod.splits)
qed

lemma parser_ends_witness:
  "fst (p_Query 20 (NewParser ascii_tables ''select a from t'')) \<noteq> Inl OutOfFuel"
proof -
  have n: "length ''select a from t'' + 1 < (20 :: nat)" by simp
  show ?thesis using parser_ends [OF n, of ascii_tables] by auto
qed

end
