(* ===== verification/Roundtrip.thy ===== *)
theory Roundtrip
  imports Parser
begin

text \<open>
  What is printed and parsed again: the lexer on the texts that \<open>QueryData.String\<close> produces, the
  round trip of view definitions through \<^verbatim>\<open>parse/query_data.go\<close> and \<^verbatim>\<open>parse/parser.go\<close>,
  and the texts that do not survive it (quoted strings, dates followed by a space).
\<close>

section \<open>The lexer on ASCII text\<close>

abbreviation cc :: "char \<Rightarrow> nat" where
  "cc c \<equiv> of_char c"

abbreviation lc :: "unicode \<Rightarrow> string \<Rightarrow> token \<Rightarrow> lexer" where
  "lc U s t \<equiv> \<lparr>lx_uni = U, lx_rest = s, lx_tok = t\<rparr>"

lemma decode_ascii: "cc c < 128 \<Longrightarrow> decode_rune (c # s) = (cc c, 1)"
  by (simp add: decode_rune_def Let_def)

lemma encode_ascii: "cc c < 128 \<Longrightarrow> encode_rune (cc c) = [c]"
  by (simp add: encode_rune_def)

definition all_in :: "(nat \<Rightarrow> bool) \<Rightarrow> string \<Rightarrow> bool" where
  "all_in P s \<longleftrightarrow> (\<forall>c \<in> set s. cc c < 128 \<and> P (cc c))"

definition stops :: "(nat \<Rightarrow> bool) \<Rightarrow> string \<Rightarrow> bool" where
  "stops P s \<longleftrightarrow> (case s of [] \<Rightarrow> True | c # _ \<Rightarrow> cc c < 128 \<and> \<not> P (cc c))"

lemma all_in_simps [simp]: "all_in P []" "all_in P (c # s) \<longleftrightarrow> cc c < 128 \<and> P (cc c) \<and> all_in P s"
  "all_in P (s @ s') \<longleftrightarrow> all_in P s \<and> all_in P s'"
  by (auto simp: all_in_def)

lemma stops_simps [simp]: "stops P []" "stops P (c # s) \<longleftrightarrow> cc c < 128 \<and> \<not> P (cc c)"
  by (simp_all add: stops_def)

lemma scan_while_ascii: "all_in P a \<Longrightarrow> stops P b \<Longrightarrow> scan_while P (a @ b) = (a, b)"
proof (induction a)
  case Nil
  then show ?case by (cases b) (simp_all add: scan_while_step [OF _ decode_ascii])
next
  case (Cons c a)
  then show ?case by (simp add: scan_while_step [OF _ decode_ascii])
qed

text \<open>What moving to the next token gives on a text, whatever the token before.\<close>

definition lexes :: "unicode \<Rightarrow> string \<Rightarrow> token \<Rightarrow> string \<Rightarrow> bool" where
  "lexes U s tok s' \<longleftrightarrow> (\<forall>t. nextToken (lc U s t) = (Inr (), lc U s' tok))"

lemma lexes_New: "lexes U s tok s' \<Longrightarrow> NewLexer U s = lc U s' tok"
  by (simp add: lexes_def NewLexer_def)

lemma lexes_next: "lexes U s tok s' \<Longrightarrow> nextToken (lc U s t) = (Inr (), NewLexer U s)"
  by (simp add: lexes_def NewLexer_def)

lemma skip_space [simp]: "skipWhitespace (lc U (CHR '' '' # s) t) = skipWhitespace (lc U s t)"
  by (simp add: skipWhitespace_def scan_while_step [OF _ decode_ascii] is_space_def)

lemma skip_none: "stops (is_space U) s \<Longrightarrow> skipWhitespace (lc U s t) = lc U s t"
  using scan_while_ascii [of "is_space U" "[]" s] by (simp add: skipWhitespace_def)

lemma lexes_space: "lexes U s tok s' \<Longrightarrow> lexes U (CHR '' '' # s) tok s'"
  by (simp add: lexes_def nextToken_def)

lemma NewLexer_space: "NewLexer U (CHR '' '' # s) = NewLexer U s"
  by (simp add: NewLexer_def nextToken_def)

lemma lexes_end: "lexes U [] TEOF []"
  by (simp add: lexes_def nextToken_def skipWhitespace_def)

lemma lexes_delim: "lexes U (CHR '','' # s) (TDelim 44) s" "lexes U (CHR ''*'' # s) (TDelim 42) s"
  by (simp_all add: lexes_def nextToken_def skip_none is_space_def in_range_def Let_def decode_ascii
    isOperatorStart_def isDelimiter_def)

lemma lexes_op:
  assumes "q \<noteq> BadOp"
  shows "lexes U (op_String q @ CHR '' '' # s) (TOp (op_String q)) (CHR '' '' # s)"
  using assms encode_ascii [of "CHR ''=''"] encode_ascii [of "CHR ''<''"] encode_ascii [of "CHR ''>''"]
  by (cases q)
    (simp_all add: lexes_def nextToken_def skip_none is_space_def in_range_def Let_def decode_ascii
      isOperatorStart_def scanOperator_def op_String_def)

section \<open>Words and numbers\<close>

definition word_class :: "nat \<Rightarrow> bool" where
  "word_class r \<longleftrightarrow> in_range 97 122 r \<or> in_range 48 57 r \<or> r = 95"

definition lower_word :: "string \<Rightarrow> bool" where
  "lower_word w \<longleftrightarrow> w \<noteq> [] \<and> all_in word_class w \<and> \<not> in_range 48 57 (cc (hd w))"

definition word_token :: "string \<Rightarrow> token" where
  "word_token w = (if w = ''true'' \<or> w = ''false'' then TBool (w = ''true'') else TWord w)"

abbreviation word_stop :: "string \<Rightarrow> bool" where
  "word_stop b \<equiv> stops (\<lambda>r. in_range 65 90 r \<or> word_class r) b"

lemma to_lower_step:
  "cc c < 128 \<Longrightarrow> to_lower U (c # s) = encode_rune (rune_lower U (cc c)) @ to_lower U s"
  by (subst to_lower.simps) (simp add: decode_ascii)

lemma to_lower_word: "all_in word_class w \<Longrightarrow> to_lower U w = w"
proof (induction w)
  case Nil
  then show ?case by (simp add: to_lower.simps)
next
  case (Cons c w)
  then have "rune_lower U (cc c) = cc c" by (auto simp: rune_lower_def word_class_def in_range_def)
  then show ?case using Cons by (simp add: to_lower_step encode_ascii)
qed

lemma lexes_word:
  assumes w: "lower_word w" and b: "word_stop b"
  shows "lexes U (w @ b) (word_token w) b"
proof -
  obtain c w' where cw: "w = c # w'" using w by (cases w) (simp_all add: lower_word_def)
  have c: "cc c < 128" "in_range 97 122 (cc c) \<or> cc c = 95"
    using w cw by (auto simp: lower_word_def word_class_def)
  have cl: "\<not> isOperatorStart (cc c)" "cc c \<noteq> 39" "\<not> isDelimiter (cc c)" "\<not> is_digit U (cc c)"
    "is_letter U (cc c) \<or> cc c = 95" "\<not> is_space U (cc c)"
    using c by (auto simp: isOperatorStart_def isDelimiter_def is_digit_def is_letter_def is_space_def in_range_def)
  let ?P = "\<lambda>r. is_letter U r \<or> is_digit U r \<or> r = 95"
  have "all_in ?P w"
    using w by (auto simp: lower_word_def all_in_def word_class_def is_letter_def is_digit_def)
  moreover have "stops ?P b"
    using b by (auto simp: stops_def word_class_def is_letter_def is_digit_def split: list.splits)
  ultimately have "scanWord U (w @ b) = (w, b)" unfolding scanWord_def by (rule scan_while_ascii)
  moreover have "to_lower U w = w" using w by (simp add: lower_word_def to_lower_word)
  moreover have "skipWhitespace (lc U (w @ b) t) = lc U (w @ b) t" for t
    using cl(6) c(1) by (intro skip_none) (simp add: cw)
  moreover have "decode_rune (w @ b) = (cc c, 1)" using c(1) by (simp add: cw decode_ascii)
  ultimately show ?thesis using cl by (auto simp: lexes_def nextToken_def Let_def cw word_token_def)
qed

lemma digit_char_code: "d < 10 \<Longrightarrow> cc (digit_char d) = 48 + d"
  by (simp add: digit_char_def)

lemma digit_char_class: "d < 10 \<Longrightarrow> cc (digit_char d) < 128 \<and> in_range 48 57 (cc (digit_char d))"
  by (simp add: digit_char_code in_range_def)

lemma show_nat_digits: "all_in (in_range 48 57) (show_nat k) \<and> show_nat k \<noteq> []"
proof (induction k rule: show_nat.induct)
  case (1 k)
  have e: "show_nat k = (if k < 10 then [digit_char k] else show_nat (k div 10) @ [digit_char (k mod 10)])"
    by (rule show_nat.simps)
  show ?case
  proof (cases "k < 10")
    case True
    then have "show_nat k = [digit_char k]" using e by (simp only: if_True)
    then show ?thesis using digit_char_class [OF True] by simp
  next
    case False
    then have s: "show_nat k = show_nat (k div 10) @ [digit_char (k mod 10)]" using e by (simp only: if_False)
    have "k mod 10 < 10" by simp
    then show ?thesis unfolding s using 1 [OF False] digit_char_class [of "k mod 10"] by simp
  qed
qed

lemma digit_val_char:
  assumes "d < 10"
  shows "digit_val (digit_char d) = int d"
proof -
  have "digit_val (digit_char d) = int (cc (digit_char d)) - 48"
    unfolding digit_val_def of_nat_of_char ..
  then show ?thesis unfolding digit_char_code [OF assms] by simp
qed

lemma not_digit: "all_in (in_range 48 57) s \<Longrightarrow> \<not> in_range 48 57 (cc c) \<Longrightarrow> c \<notin> set s"
  by (auto simp: all_in_def)

lemma digits_val_snoc: "digits_val (s @ [c]) = digits_val s * 10 + digit_val c"
  by (simp add: digits_val_def)

lemma digits_val_show: "digits_val (show_nat k) = int k"
proof (induction k rule: show_nat.induct)
  case (1 k)
  show ?case
  proof (cases "k < 10")
    case True
    then show ?thesis
      by (subst show_nat.simps) (simp add: digits_val_def digit_val_char)
  next
    case False
    then have "digits_val (show_nat (k div 10)) = int (k div 10)" using 1 by simp
    then show ?thesis
      using False div_mult_mod_eq [of "int k" 10]
      by (subst show_nat.simps) (simp add: digits_val_snoc digit_val_char zdiv_int zmod_int)
  qed
qed

lemma Atoi_show:
  assumes "int k < 2 ^ 63"
  shows "go_Atoi (show_nat k) = Some (int k)"
proof -
  obtain c s where cs: "show_nat k = c # s" using show_nat_digits [of k] by (cases "show_nat k") auto
  have d: "\<forall>x \<in> set (show_nat k). ascii_digit x" using show_nat_digits [of k] by (auto simp: all_in_def)
  then have "ascii_digit c" by (simp add: cs)
  then have "c \<noteq> CHR ''-''" "c \<noteq> CHR ''+''" by (auto simp: in_range_def)
  then show ?thesis
    using d assms digits_val_show [of k] unfolding cs by (simp add: go_Atoi_def list_all_iff)
qed

lemma parseDate_no_dash:
  assumes "CHR ''-'' \<notin> set s"
  shows "parseDate s = None"
proof -
  have "parse_ymd s = None"
  proof (cases "tp_digits 4 s")
    case (Some a)
    obtain y s1 where a: "a = (y, s1)" by force
    then have "s1 = drop 4 s" using Some by (auto simp: tp_digits_def split: if_splits)
    then have "CHR ''-'' \<notin> set s1" using assms by (auto dest: in_set_dropD)
    then have "tp_lit CHR ''-'' s1 = None" by (auto simp: tp_lit_def split: list.splits)
    then show ?thesis using Some a by (simp add: parse_ymd_def)
  qed (simp add: parse_ymd_def)
  then show ?thesis by (simp add: parseDate_def parse_date_only_def parse_date_time_def)
qed

text \<open>A number takes the space behind it along.\<close>

abbreviation num_stop :: "string \<Rightarrow> bool" where
  "num_stop b \<equiv> stops (\<lambda>r. in_range 48 57 r \<or> r = 45 \<or> r = 32 \<or> r = 58) b"

lemma lexes_number:
  assumes k: "int k < 2 ^ 63" and b: "num_stop b" and sp: "sp = [] \<or> sp = '' ''"
  shows "lexes U (show_nat k @ sp @ b) (TNumber (int k)) b"
proof -
  let ?s = "show_nat k @ sp"
  obtain c s where cs: "show_nat k = c # s" using show_nat_digits [of k] by (cases "show_nat k") auto
  have dig: "all_in (in_range 48 57) (show_nat k)" using show_nat_digits by blast
  then have c: "cc c < 128" "in_range 48 57 (cc c)" by (simp_all add: cs)
  have cl: "\<not> isOperatorStart (cc c)" "cc c \<noteq> 39" "\<not> isDelimiter (cc c)" "is_digit U (cc c)" "\<not> is_space U (cc c)"
    using c by (auto simp: isOperatorStart_def isDelimiter_def is_digit_def is_space_def in_range_def)
  let ?P = "\<lambda>r. is_digit U r \<or> r = 45 \<or> r = 32 \<or> r = 58"
  have "all_in ?P ?s" using dig sp by (auto simp: all_in_def is_digit_def)
  moreover have "stops ?P b" using b by (auto simp: stops_def is_digit_def split: list.splits)
  ultimately have "scanDigits U (?s @ b) = (?s, b)" unfolding scanDigits_def by (rule scan_while_ascii)
  then have sc: "scanDigits U (show_nat k @ sp @ b) = (show_nat k @ sp, b)" by simp
  have no: "CHR ''-'' \<notin> set (show_nat k)" "CHR '' '' \<notin> set (show_nat k)"
    using not_digit [OF dig] by (simp_all add: in_range_def)
  then have "CHR ''-'' \<notin> set ?s" using sp by auto
  then have pd: "parseDate ?s = None" by (rule parseDate_no_dash)
  have "filter (\<lambda>c. c \<noteq> CHR '' '') ?s = show_nat k"
    using no(2) sp by (auto simp: filter_id_conv)
  then have at: "go_Atoi (filter (\<lambda>c. c \<noteq> CHR '' '') ?s) = Some (int k)" using Atoi_show [OF k] by simp
  have "skipWhitespace (lc U (show_nat k @ sp @ b) t) = lc U (show_nat k @ sp @ b) t" for t
    using cl(5) c(1) by (intro skip_none) (simp add: cs)
  moreover have "decode_rune (show_nat k @ sp @ b) = (cc c, 1)" using c(1) by (simp add: cs decode_ascii)
  ultimately show ?thesis
    using cl sc pd at cs by (auto simp: lexes_def nextToken_def Let_def)
qed

section \<open>Parsing printed lists\<close>

definition sql_ident :: "string \<Rightarrow> bool" where
  "sql_ident w \<longleftrightarrow> lower_word w \<and> w \<noteq> ''true'' \<and> w \<noteq> ''false'' \<and> \<not> List.member sql_keywords w"

definition lexable :: "unicode \<Rightarrow> string \<Rightarrow> bool" where
  "lexable U s \<longleftrightarrow> (\<exists>tok s'. lexes U s tok s')"

lemma lexable_next: "lexable U b \<Longrightarrow> nextToken (lc U b t) = (Inr (), NewLexer U b)"
  by (auto simp: lexable_def intro: lexes_next)

lemma lexable_space: "lexable U s \<Longrightarrow> lexable U (CHR '' '' # s)"
  unfolding lexable_def by (blast intro: lexes_space)

lemma lexable_word: "lower_word w \<Longrightarrow> word_stop b \<Longrightarrow> lexable U (w @ b)"
  unfolding lexable_def by (blast intro: lexes_word)

lemma lexable_delim: "lexable U (CHR '','' # s)" "lexable U (CHR ''*'' # s)" "lexable U []"
  unfolding lexable_def by (blast intro: lexes_delim lexes_end)+

lemma EatId_word:
  assumes "sql_ident w" and "word_stop b" and "lexable U b"
  shows "EatId (NewLexer U (w @ b)) = (Inr w, NewLexer U b)" and "MatchId (NewLexer U (w @ b))"
    and "\<not> MatchDelim d (NewLexer U (w @ b))"
proof -
  have N: "NewLexer U (w @ b) = lc U b (TWord w)"
    using lexes_New [OF lexes_word [of w b U]] assms by (simp add: sql_ident_def word_token_def)
  show "MatchId (NewLexer U (w @ b))" "\<not> MatchDelim d (NewLexer U (w @ b))"
    using assms(1) by (simp_all add: N MatchId_def MatchDelim_def sql_ident_def)
  then show "EatId (NewLexer U (w @ b)) = (Inr w, NewLexer U b)"
    using lexable_next [OF assms(3)] by (simp add: N EatId_def bnd_Inr go_unfold)
qed

definition sql_keyword :: "string \<Rightarrow> bool" where
  "sql_keyword w \<longleftrightarrow> lower_word w \<and> w \<noteq> ''true'' \<and> w \<noteq> ''false''"

lemma keyword_token:
  assumes "sql_keyword w" and "word_stop b"
  shows "NewLexer U (w @ b) = lc U b (TWord w)"
  using lexes_New [OF lexes_word [of w b U]] assms by (simp add: sql_keyword_def word_token_def)

lemma MatchKeyword_lower: "lower_word w \<Longrightarrow> MatchKeyword w l \<longleftrightarrow> lx_tok l = TWord w"
  by (simp add: MatchKeyword_def lower_word_def to_lower_word)

lemma EatKeyword_word:
  assumes "sql_keyword w" and "word_stop b" and "lexable U b"
  shows "EatKeyword w (NewLexer U (w @ b)) = (Inr (), NewLexer U b)"
    and "MatchKeyword w (NewLexer U (w @ b))"
  using assms lexable_next [OF assms(3)]
  by (simp_all add: keyword_token EatKeyword_def MatchKeyword_lower sql_keyword_def)

lemma ignore_ok: "m l = (Inr (), l') \<Longrightarrow> ignore m l = (Inr (), l')"
  by (simp add: ignore_def handle_def go_unfold)

text \<open>Names separated by a comma and a space.\<close>

fun sep_list :: "string list \<Rightarrow> string" where
  "sep_list [] = []"
| "sep_list [x] = x"
| "sep_list (x # y # xs) = x @ '', '' @ sep_list (y # xs)"

lemma sep_list_concat: "xs \<noteq> [] \<Longrightarrow> concat (map (\<lambda>x. x @ '', '') xs) = sep_list xs @ '', ''"
  by (induction xs rule: sep_list.induct) simp_all

lemma comma_list_sep: "xs \<noteq> [] \<Longrightarrow> comma_list pre xs = pre @ sep_list xs"
  by (simp add: comma_list_def sep_list_concat)

lemma sep_list_Cons: "sep_list (x # xs) @ b = x @ (if xs = [] then b else '', '' @ sep_list xs @ b)"
  by (cases xs) simp_all

lemma lexable_sep: "xs \<noteq> [] \<Longrightarrow> \<forall>x \<in> set xs. lower_word x \<Longrightarrow> word_stop b \<Longrightarrow> lexable U (sep_list xs @ b)"
proof (cases xs)
  case (Cons x ys)
  assume "\<forall>x \<in> set xs. lower_word x" "word_stop b"
  then show ?thesis
    unfolding Cons sep_list_Cons by (intro lexable_word) (auto simp: word_class_def in_range_def)
qed simp

lemma comma_token:
  "MatchDelim 44 (NewLexer U ('', '' @ s))" "lexable U s \<Longrightarrow> EatDelim 44 (NewLexer U ('', '' @ s)) = (Inr (), NewLexer U s)"
proof -
  have N: "NewLexer U (CHR '','' # CHR '' '' # s) = lc U (CHR '' '' # s) (TDelim 44)"
    by (rule lexes_New [OF lexes_delim(1)])
  then show "MatchDelim 44 (NewLexer U ('', '' @ s))" by (simp add: MatchDelim_def)
  assume "lexable U s"
  then show "EatDelim 44 (NewLexer U ('', '' @ s)) = (Inr (), NewLexer U s)"
    using lexable_next [OF lexable_space] by (simp add: N EatDelim_def MatchDelim_def NewLexer_space)
qed

lemma item_step:
  assumes "sql_ident x" and "word_stop b" and "lexable U b" and "ys \<noteq> [] \<Longrightarrow> \<forall>y \<in> set ys. lower_word y"
  shows "EatId (NewLexer U (sep_list (x # ys) @ b)) =
    (Inr x, if ys = [] then NewLexer U b else NewLexer U ('', '' @ sep_list ys @ b))"
  unfolding sep_list_Cons
proof (cases "ys = []")
  case True
  then show "EatId (NewLexer U (x @ (if ys = [] then b else '', '' @ sep_list ys @ b))) =
    (Inr x, if ys = [] then NewLexer U b else NewLexer U ('', '' @ sep_list ys @ b))"
    using EatId_word(1) [OF assms(1-3)] by simp
next
  case False
  have "word_stop ('', '' @ sep_list ys @ b)" by (simp add: word_class_def in_range_def)
  then show "EatId (NewLexer U (x @ (if ys = [] then b else '', '' @ sep_list ys @ b))) =
    (Inr x, if ys = [] then NewLexer U b else NewLexer U ('', '' @ sep_list ys @ b))"
    using EatId_word(1) [OF assms(1), of "'', '' @ sep_list ys @ b" U] lexable_delim(1) False by simp
qed

lemma ident_lower: "sql_ident x \<Longrightarrow> lower_word x"
  by (simp add: sql_ident_def)

lemma p_list_sep:
  assumes "xs \<noteq> []" and "\<forall>x \<in> set xs. sql_ident x" and "length xs \<le> n"
    and b: "word_stop b" "lexable U b" "\<not> MatchDelim 44 (NewLexer U b)"
  shows "p_list EatId n (NewLexer U (sep_list xs @ b)) = (Inr xs, NewLexer U b)"
  using assms(1-3)
proof (induction xs arbitrary: n)
  case (Cons x ys)
  obtain m where n: "n = Suc m" using Cons.prems(3) by (cases n) simp_all
  have it: "EatId (NewLexer U (sep_list (x # ys) @ b)) =
      (Inr x, if ys = [] then NewLexer U b else NewLexer U ('', '' @ sep_list ys @ b))"
    using Cons.prems(2) ident_lower by (intro item_step b) auto
  show ?case
  proof (cases "ys = []")
    case True
    then show ?thesis using it b(3) by (simp add: n bnd_Inr)
  next
    case False
    have "lexable U (sep_list ys @ b)"
      using Cons.prems(2) False b(1) ident_lower by (intro lexable_sep) auto
    moreover have "p_list EatId m (NewLexer U (sep_list ys @ b)) = (Inr ys, NewLexer U b)"
      using Cons.IH [OF False] Cons.prems n by simp
    ultimately show ?thesis
      using it False comma_token [of U "sep_list ys @ b"]
      by (simp add: n bnd_Inr ignore_ok go_unfold)
  qed
qed simp

lemma p_selectList_sep:
  assumes "xs \<noteq> []" and "\<forall>x \<in> set xs. sql_ident x" and "length xs \<le> n"
    and b: "word_stop b" "lexable U b" "\<not> MatchDelim 44 (NewLexer U b)"
  shows "p_selectList n (NewLexer U (sep_list xs @ b)) = (Inr (Some xs), NewLexer U b)"
  using assms(1-3)
proof (induction xs arbitrary: n)
  case (Cons x ys)
  obtain m where n: "n = Suc m" using Cons.prems(3) by (cases n) simp_all
  have it: "EatId (NewLexer U (sep_list (x # ys) @ b)) =
      (Inr x, if ys = [] then NewLexer U b else NewLexer U ('', '' @ sep_list ys @ b))"
    using Cons.prems(2) ident_lower by (intro item_step b) auto
  have "\<not> MatchDelim 42 (NewLexer U (sep_list (x # ys) @ b))"
  proof (cases "ys = []")
    case True
    then show ?thesis using EatId_word(3) [of x b U 42] Cons.prems(2) b by (simp add: sep_list_Cons)
  next
    case False
    have "word_stop ('', '' @ sep_list ys @ b)" by (simp add: word_class_def in_range_def)
    then show ?thesis
      using EatId_word(3) [of x "'', '' @ sep_list ys @ b" U 42] Cons.prems(2) lexable_delim(1) False
      by (simp add: sep_list_Cons)
  qed
  note star = this
  show ?case
  proof (cases "ys = []")
    case True
    then show ?thesis using it star b(3) by (simp add: n bnd_Inr p_field_def)
  next
    case False
    have "lexable U (sep_list ys @ b)"
      using Cons.prems(2) False b(1) ident_lower by (intro lexable_sep) auto
    moreover have "p_selectList m (NewLexer U (sep_list ys @ b)) = (Inr (Some ys), NewLexer U b)"
      using Cons.IH [OF False] Cons.prems n by simp
    ultimately show ?thesis
      using it star False comma_token [of U "sep_list ys @ b"]
      by (simp add: n bnd_Inr ignore_ok go_unfold p_field_def)
  qed
qed simp

section \<open>Parsing printed predicates\<close>

definition plain_expr :: "expression \<Rightarrow> bool" where
  "plain_expr e \<longleftrightarrow> (\<exists>f. e = NewFieldExpression f \<and> sql_ident f) \<or>
     (\<exists>k. e = NewConstantExpression (Some (VInt (int k))) \<and> int k < 2 ^ 63) \<or>
     (\<exists>b. e = NewConstantExpression (Some (VBool b)))"

definition plain_term :: "qterm \<Rightarrow> bool" where
  "plain_term t \<longleftrightarrow> plain_expr (t_lhs t) \<and> plain_expr (t_rhs t) \<and> t_op t \<noteq> BadOp"

text \<open>What may follow an expression: nothing, or a space and a text that does not continue a number.\<close>

definition tail_ok :: "unicode \<Rightarrow> string \<Rightarrow> bool" where
  "tail_ok U b \<longleftrightarrow> b = [] \<or> (\<exists>b'. b = CHR '' '' # b' \<and> num_stop b' \<and> lexable U b')"

lemma tail_ok_facts:
  assumes "tail_ok U b"
  shows "word_stop b" and "lexable U b"
  using assms lexable_space [of U] lexable_delim(3) by (auto simp: tail_ok_def word_class_def in_range_def)

lemma bool_word: "lower_word ''true''" "lower_word ''false''"
  by (simp_all add: lower_word_def word_class_def in_range_def)

lemma bool_token:
  assumes "word_stop b"
  shows "NewLexer U ((if v then ''true'' else ''false'') @ b) = lc U b (TBool v)"
  using lexes_New [OF lexes_word [OF bool_word(1) assms, of U]] lexes_New [OF lexes_word [OF bool_word(2) assms, of U]]
  by (simp add: word_token_def)

lemma number_token:
  assumes "int k < 2 ^ 63" and "tail_ok U b"
  obtains b' where "NewLexer U (show_nat k @ b) = lc U b' (TNumber (int k))" and "lexable U b'"
    and "NewLexer U b = NewLexer U b'" and "lexable U (show_nat k @ b)"
proof (cases "b = []")
  case True
  have "lexes U (show_nat k @ [] @ []) (TNumber (int k)) []" by (rule lexes_number) (use assms in simp_all)
  note l = this [simplified]
  show thesis
    by (rule that [of "[]"]) (use l lexes_New [OF l] lexable_delim(3) True in \<open>auto simp: lexable_def\<close>)
next
  case False
  then obtain b' where b': "b = CHR '' '' # b'" "num_stop b'" "lexable U b'"
    using assms(2) by (auto simp: tail_ok_def)
  have "lexes U (show_nat k @ '' '' @ b') (TNumber (int k)) b'" by (rule lexes_number) (use assms b' in simp_all)
  note l = this [simplified]
  show thesis
    by (rule that [of b']) (use l lexes_New [OF l] b' NewLexer_space in \<open>auto simp: lexable_def\<close>)
qed

lemma show_int_nat: "show_int (int k) = show_nat k"
  by (simp add: show_int_def)

lemma lexable_expr:
  assumes "plain_expr e" and "tail_ok U b"
  shows "lexable U (expr_String st e @ b)"
proof -
  note tail = tail_ok_facts [OF assms(2)]
  consider (f) f where "e = NewFieldExpression f" "sql_ident f"
    | (n) k where "e = NewConstantExpression (Some (VInt (int k)))" "int k < 2 ^ 63"
    | (b) v where "e = NewConstantExpression (Some (VBool v))"
    using assms(1) by (auto simp: plain_expr_def)
  then show ?thesis
  proof cases
    case f
    then show ?thesis using lexable_word [OF ident_lower tail(1)] by (simp add: expr_String_def NewFieldExpression_def)
  next
    case n
    then show ?thesis using number_token [OF n(2) assms(2)]
      by (simp add: expr_String_def NewConstantExpression_def show_int_nat) blast
  next
    case b
    then show ?thesis using lexable_word [OF bool_word(1) tail(1)] lexable_word [OF bool_word(2) tail(1)]
      by (simp add: expr_String_def NewConstantExpression_def)
  qed
qed

lemma p_expression_plain:
  assumes "plain_expr e" and "tail_ok U b"
  shows "p_expression (NewLexer U (expr_String st e @ b)) = (Inr e, NewLexer U b)"
proof -
  note tail = tail_ok_facts [OF assms(2)]
  consider (f) f where "e = NewFieldExpression f" "sql_ident f"
    | (n) k where "e = NewConstantExpression (Some (VInt (int k)))" "int k < 2 ^ 63"
    | (b) v where "e = NewConstantExpression (Some (VBool v))"
    using assms(1) by (auto simp: plain_expr_def)
  then show ?thesis
  proof cases
    case f
    then show ?thesis using EatId_word(1,2) [OF f(2) tail]
      by (simp add: p_expression_def p_field_def expr_String_def NewFieldExpression_def bnd_Inr go_unfold)
  next
    case n
    obtain b' where b': "NewLexer U (show_nat k @ b) = lc U b' (TNumber (int k))" "lexable U b'"
      "NewLexer U b = NewLexer U b'" by (rule number_token [OF n(2) assms(2)])
    then show ?thesis using n(1) lexable_next [OF b'(2)]
      by (simp add: p_expression_def p_constant_def MatchId_def MatchStringConstant_def MatchIntConstant_def
          EatIntConstant_def expr_String_def NewConstantExpression_def show_int_nat bnd_Inr bnd_assoc go_unfold)
  next
    case b
    then show ?thesis using lexable_next [OF tail(2)] bool_token [OF tail(1), of U v]
      by (simp add: p_expression_def p_constant_def MatchId_def MatchStringConstant_def MatchIntConstant_def
          MatchBooleanConstant_def EatBooleanConstant_def expr_String_def NewConstantExpression_def bnd_def
          handle_def go_unfold)
  qed
qed

lemma op_stop: "q \<noteq> BadOp \<Longrightarrow> num_stop (op_String q @ s)"
  by (cases q) (simp_all add: op_String_def in_range_def)

lemma op_tail:
  assumes "q \<noteq> BadOp"
  shows "tail_ok U (CHR '' '' # op_String q @ CHR '' '' # s)"
proof -
  have "lexable U (op_String q @ CHR '' '' # s)" unfolding lexable_def using lexes_op [OF assms] by blast
  then show ?thesis using op_stop [OF assms] by (simp add: tail_ok_def)
qed

lemma p_term_plain:
  assumes "plain_term t" and "tail_ok U b"
  shows "p_term (NewLexer U (term_String st t @ b)) = (Inr t, NewLexer U b)"
    and "lexable U (term_String st t @ b)"
proof -
  have t: "plain_expr (t_lhs t)" "plain_expr (t_rhs t)" "t_op t \<noteq> BadOp" using assms(1) by (simp_all add: plain_term_def)
  let ?r = "expr_String st (t_rhs t) @ b"
  let ?o = "CHR '' '' # op_String (t_op t) @ CHR '' '' # ?r"
  have s: "term_String st t @ b = expr_String st (t_lhs t) @ ?o" by (simp add: term_String_def)
  have ot: "tail_ok U ?o" using t(3) by (rule op_tail)
  show "lexable U (term_String st t @ b)" unfolding s by (rule lexable_expr [OF t(1) ot])
  have lhs: "p_expression (NewLexer U (expr_String st (t_lhs t) @ ?o)) = (Inr (t_lhs t), NewLexer U ?o)"
    by (rule p_expression_plain [OF t(1) ot])
  have N: "NewLexer U ?o = lc U (CHR '' '' # ?r) (TOp (op_String (t_op t)))"
    unfolding NewLexer_space by (rule lexes_New [OF lexes_op [OF t(3)]])
  have op: "p_parseOperator (NewLexer U ?o) = (Inr (op_String (t_op t)), NewLexer U ?r)"
    using lexable_next [OF lexable_space [OF lexable_expr [OF t(2) assms(2)]]]
    unfolding N p_parseOperator_def by (simp add: bnd_Inr go_unfold NewLexer_space)
  have rhs: "p_expression (NewLexer U ?r) = (Inr (t_rhs t), NewLexer U b)"
    by (rule p_expression_plain [OF t(2) assms(2)])
  show "p_term (NewLexer U (term_String st t @ b)) = (Inr t, NewLexer U b)"
    unfolding s using lhs op rhs operator_roundtrip(1) [OF t(3)]
    by (simp add: p_term_def bnd_Inr go_unfold NewTerm_def)
qed

text \<open>The text of the terms behind the first.\<close>

definition and_tail :: "(gotime \<Rightarrow> string) \<Rightarrow> predicate \<Rightarrow> string" where
  "and_tail st ts = concat (map (\<lambda>u. '' and '' @ term_String st u) ts)"

lemma pred_String_Cons: "pred_String st (t # ts) = term_String st t @ and_tail st ts"
proof -
  have "foldl (\<lambda>r u. r @ '' and '' @ term_String st u) r ts = r @ and_tail st ts" for r
    by (induction ts arbitrary: r) (simp_all add: and_tail_def)
  then show ?thesis by (simp add: pred_String_def)
qed

lemma and_keyword: "sql_keyword ''and''"
  by (simp add: sql_keyword_def lower_word_def word_class_def in_range_def)

lemma and_tail_ok: "tail_ok U (and_tail st ts)"
proof (cases ts)
  case (Cons t us)
  have "lexable U (''and'' @ CHR '' '' # s)" for s
    using and_keyword by (intro lexable_word) (auto simp: sql_keyword_def word_class_def in_range_def)
  then show ?thesis by (simp add: Cons and_tail_def tail_ok_def in_range_def)
qed (simp add: and_tail_def tail_ok_def)

lemma NewLexer_end: "NewLexer U [] = lc U [] TEOF"
  by (rule lexes_New [OF lexes_end])

lemma p_predicate_plain:
  assumes "\<forall>u \<in> set (t # ts). plain_term u" and "length (t # ts) \<le> n"
  shows "p_predicate n (NewLexer U (pred_String st (t # ts))) = (Inr (t # ts), NewLexer U [])"
  using assms
proof (induction ts arbitrary: t n)
  case Nil
  obtain m where n: "n = Suc m" using Nil.prems(2) by (cases n) simp_all
  have "p_term (NewLexer U (term_String st t @ [])) = (Inr t, NewLexer U [])"
    using Nil.prems(1) by (intro p_term_plain(1)) (simp_all add: tail_ok_def)
  then show ?case
    by (simp add: n pred_String_Cons and_tail_def bnd_Inr NewLexer_end MatchKeyword_def NewPredicateFromTerm_def)
next
  case (Cons u us)
  obtain m where n: "n = Suc m" using Cons.prems(2) by (cases n) simp_all
  have first: "p_term (NewLexer U (term_String st t @ and_tail st (u # us))) = (Inr t, NewLexer U (and_tail st (u # us)))"
    using Cons.prems(1) by (intro p_term_plain(1) and_tail_ok) simp
  have split: "and_tail st (u # us) = CHR '' '' # ''and'' @ CHR '' '' # pred_String st (u # us)"
    by (simp add: and_tail_def pred_String_Cons)
  have lx: "lexable U (CHR '' '' # pred_String st (u # us))"
    unfolding pred_String_Cons using Cons.prems(1) by (intro lexable_space p_term_plain(2) and_tail_ok) simp
  have ws: "word_stop (CHR '' '' # pred_String st (u # us))" by (simp add: word_class_def in_range_def)
  note kw = EatKeyword_word [OF and_keyword ws lx]
  have "p_predicate m (NewLexer U (pred_String st (u # us))) = (Inr (u # us), NewLexer U [])"
    using Cons.IH [of u m] Cons.prems n by simp
  then show ?case
    using first kw unfolding n pred_String_Cons [of st t]
    by (simp add: split NewLexer_space bnd_Inr ignore_ok go_unfold ConjoinWith_def NewPredicateFromTerm_def)
qed

section \<open>The round trip of a query\<close>

definition plain_query :: "query_data \<Rightarrow> bool" where
  "plain_query qd \<longleftrightarrow> (\<forall>fs. qd_fields qd = Some fs \<longrightarrow> fs \<noteq> [] \<and> (\<forall>f \<in> set fs. sql_ident f)) \<and>
     qd_tables qd \<noteq> [] \<and> (\<forall>t \<in> set (qd_tables qd). sql_ident t) \<and> (\<forall>u \<in> set (qd_pred qd). plain_term u)"

definition fields_text :: "string list option \<Rightarrow> string" where
  "fields_text fs = (case fs of None \<Rightarrow> ''*'' | Some xs \<Rightarrow> sep_list xs)"

definition where_text :: "(gotime \<Rightarrow> string) \<Rightarrow> predicate \<Rightarrow> string" where
  "where_text st p = (if p = [] then [] else '' where '' @ pred_String st p)"

lemma pred_String_nonempty: "p \<noteq> [] \<Longrightarrow> pred_String st p \<noteq> []"
  by (cases p) (simp_all add: pred_String_Cons term_String_def)

lemma QueryData_String_text:
  assumes "plain_query qd"
  shows "QueryData_String st qd = ''select '' @ fields_text (qd_fields qd) @ '' from '' @ sep_list (qd_tables qd) @
    where_text st (qd_pred qd)"
  using assms pred_String_nonempty [of "qd_pred qd" st]
  by (auto simp: QueryData_String_def plain_query_def Let_def comma_list_sep fields_text_def where_text_def
      pred_String_def split: option.splits)

lemma sql_words: "sql_keyword ''select''" "sql_keyword ''from''" "sql_keyword ''where''"
  by (simp_all add: sql_keyword_def lower_word_def word_class_def in_range_def)

lemma space_stop: "word_stop (CHR '' '' # s)"
  by (simp add: word_class_def in_range_def)

lemma keyword_lexable: "sql_keyword w \<Longrightarrow> lexable U (w @ CHR '' '' # s)"
  using space_stop by (intro lexable_word) (simp_all add: sql_keyword_def)

lemma where_text_facts:
  "word_stop (where_text st p)" "lexable U (where_text st p)" "\<not> MatchDelim 44 (NewLexer U (where_text st p))"
proof -
  have "where_text st p = [] \<or> (\<exists>s. where_text st p = CHR '' '' # ''where'' @ CHR '' '' # s)"
    by (simp add: where_text_def)
  then consider "where_text st p = []" | s where "where_text st p = CHR '' '' # ''where'' @ CHR '' '' # s" by blast
  then have "word_stop (where_text st p) \<and> lexable U (where_text st p) \<and>
      \<not> MatchDelim 44 (NewLexer U (where_text st p))"
  proof cases
    case 1
    then show ?thesis using lexable_delim(3) by (simp add: NewLexer_end MatchDelim_def)
  next
    case 2
    show ?thesis
      unfolding 2 NewLexer_space keyword_token [OF sql_words(3) space_stop]
      using lexable_space [OF keyword_lexable [OF sql_words(3)]] space_stop by (simp add: MatchDelim_def)
  qed
  then show "word_stop (where_text st p)" "lexable U (where_text st p)"
    "\<not> MatchDelim 44 (NewLexer U (where_text st p))" by blast+
qed

lemma p_where_text:
  assumes "\<forall>u \<in> set p. plain_term u" and "length p \<le> n"
  shows "p_where n (NewLexer U (where_text st p)) = (Inr p, NewLexer U [])"
proof (cases p)
  case Nil
  then show ?thesis by (simp add: where_text_def p_where_def NewLexer_end MatchKeyword_def NewPredicate_def)
next
  case (Cons t ts)
  have w: "where_text st p = CHR '' '' # ''where'' @ CHR '' '' # pred_String st p"
    using Cons by (simp add: where_text_def)
  have lx: "lexable U (CHR '' '' # pred_String st p)"
    unfolding Cons pred_String_Cons using assms(1) Cons
    by (intro lexable_space p_term_plain(2) and_tail_ok) simp
  note kw = EatKeyword_word [OF sql_words(3) space_stop lx]
  show ?thesis
    unfolding w NewLexer_space p_where_def using kw p_predicate_plain [of t ts n U st] assms Cons
    by (simp add: NewLexer_space bnd_Inr ignore_ok)
qed

lemma from_facts:
  "word_stop (CHR '' '' # ''from'' @ CHR '' '' # s)" "lexable U (CHR '' '' # ''from'' @ CHR '' '' # s)"
  "\<not> MatchDelim 44 (NewLexer U (CHR '' '' # ''from'' @ CHR '' '' # s))"
  using space_stop [of "''from'' @ CHR '' '' # s"] lexable_space [OF keyword_lexable [OF sql_words(2)]]
  unfolding NewLexer_space keyword_token [OF sql_words(2) space_stop] by (simp_all add: MatchDelim_def)

lemma p_selectList_text:
  assumes "\<forall>xs. fs = Some xs \<longrightarrow> xs \<noteq> [] \<and> (\<forall>x \<in> set xs. sql_ident x)"
    and "length (case fs of None \<Rightarrow> [] | Some xs \<Rightarrow> xs) < n"
  shows "p_selectList n (NewLexer U (fields_text fs @ CHR '' '' # ''from'' @ CHR '' '' # s)) =
    (Inr fs, NewLexer U (CHR '' '' # ''from'' @ CHR '' '' # s))"
    and "lexable U (fields_text fs @ CHR '' '' # ''from'' @ CHR '' '' # s)"
proof -
  let ?b = "CHR '' '' # ''from'' @ CHR '' '' # s"
  have "p_selectList n (NewLexer U (fields_text fs @ ?b)) = (Inr fs, NewLexer U ?b) \<and> lexable U (fields_text fs @ ?b)"
  proof (cases fs)
    case None
    obtain m where n: "n = Suc m" using assms(2) by (cases n) auto
    have N: "NewLexer U (CHR ''*'' # ?b) = lc U ?b (TDelim 42)" by (rule lexes_New [OF lexes_delim(2)])
    have "EatDelim 42 (lc U ?b (TDelim 42)) = (Inr (), NewLexer U ?b)"
      using lexable_next [OF from_facts(2)] by (simp add: EatDelim_def MatchDelim_def)
    note e = ignore_ok [where m = "EatDelim 42", OF this]
    have "p_selectList n (NewLexer U (CHR ''*'' # ?b)) = bnd (ignore (EatDelim 42)) (\<lambda>_. ret None) (lc U ?b (TDelim 42))"
      unfolding N n by (simp add: MatchDelim_def)
    also have "\<dots> = (Inr None, NewLexer U ?b)" unfolding bnd_def e by (simp add: ret_def)
    finally have "p_selectList n (NewLexer U (CHR ''*'' # ?b)) = (Inr None, NewLexer U ?b)" .
    then show ?thesis using None lexable_delim(2) by (simp add: fields_text_def)
  next
    case (Some xs)
    have "lexable U (sep_list xs @ ?b)"
      using assms(1) Some ident_lower from_facts(1) by (intro lexable_sep) auto
    moreover have "p_selectList n (NewLexer U (sep_list xs @ ?b)) = (Inr (Some xs), NewLexer U ?b)"
      using assms Some by (intro p_selectList_sep from_facts) auto
    ultimately show ?thesis using Some by (simp add: fields_text_def)
  qed
  then show "p_selectList n (NewLexer U (fields_text fs @ ?b)) = (Inr fs, NewLexer U ?b)"
    "lexable U (fields_text fs @ ?b)" by blast+
qed

lemma bnd_to: "m s = (Inr x, s') \<Longrightarrow> f x s' = r \<Longrightarrow> bnd m f s = r"
  by (simp add: bnd_Inr)

lemma query_roundtrip:
  assumes qd: "plain_query qd"
    and n: "length (case qd_fields qd of None \<Rightarrow> [] | Some xs \<Rightarrow> xs) < n" "length (qd_tables qd) < n"
      "length (qd_pred qd) < n"
  shows "p_Query n (NewParser U (QueryData_String st qd)) = (Inr qd, NewLexer U [])"
proof -
  let ?w = "where_text st (qd_pred qd)"
  let ?t = "sep_list (qd_tables qd) @ ?w"
  let ?b = "CHR '' '' # ''from'' @ CHR '' '' # ?t"
  have shown: "QueryData_String st qd = ''select'' @ CHR '' '' # fields_text (qd_fields qd) @ ?b"
    by (simp add: QueryData_String_text [OF qd])
  have fs: "\<forall>xs. qd_fields qd = Some xs \<longrightarrow> xs \<noteq> [] \<and> (\<forall>x \<in> set xs. sql_ident x)"
    and ts: "qd_tables qd \<noteq> []" "\<forall>x \<in> set (qd_tables qd). sql_ident x" "\<forall>u \<in> set (qd_pred qd). plain_term u"
    using qd by (simp_all add: plain_query_def)
  note sel = p_selectList_text [OF fs n(1)]
  have tl: "lexable U ?t" using ts ident_lower where_text_facts(1) by (intro lexable_sep) auto
  have tables: "p_tableList n (NewLexer U ?t) = (Inr (qd_tables qd), NewLexer U ?w)"
    unfolding p_tableList_def using ts n(2) by (intro p_list_sep where_text_facts) simp_all
  note k1 = EatKeyword_word(1) [OF sql_words(1) space_stop lexable_space [OF sel(2)]]
  note k2 = EatKeyword_word(1) [OF sql_words(2) space_stop lexable_space [OF tl]]
  note wh = p_where_text [OF ts(3), of n U st]
  show ?thesis
    unfolding NewParser_def p_Query_def shown
    apply (rule bnd_to, rule k1, unfold NewLexer_space)
    apply (rule bnd_to, rule sel(1), unfold NewLexer_space)
    apply (rule bnd_to, rule k2, unfold NewLexer_space)
    apply (rule bnd_to, rule tables)
    using wh n(3) by (simp add: bnd_Inr NewQueryData_def go_unfold)
qed

lemma query_of_view:
  assumes "plain_query (cv_query cv)" and "length (ViewDefinition st cv) < n"
  shows "p_Query n (NewParser U (ViewDefinition st cv)) = (Inr (cv_query cv), NewLexer U [])"
proof -
  let ?q = "cv_query cv"
  have sep: "length xs \<le> length (sep_list xs)" if "\<forall>x \<in> set xs. sql_ident x" for xs
    using that by (induction xs rule: sep_list.induct) (auto simp: sql_ident_def lower_word_def Suc_le_eq)
  have tail: "length ts \<le> length (and_tail st ts)" for ts by (induction ts) (simp_all add: and_tail_def)
  have pred: "length p \<le> length (where_text st p)" for p
    using tail [of "tl p"] by (cases p) (simp_all add: where_text_def pred_String_Cons)
  have q: "\<forall>xs. qd_fields ?q = Some xs \<longrightarrow> (\<forall>x \<in> set xs. sql_ident x)" "\<forall>x \<in> set (qd_tables ?q). sql_ident x"
    using assms(1) by (simp_all add: plain_query_def)
  have "length (case qd_fields ?q of None \<Rightarrow> [] | Some xs \<Rightarrow> xs) \<le> length (fields_text (qd_fields ?q))"
    using q(1) sep by (auto simp: fields_text_def split: option.splits)
  then show ?thesis
    using assms(2) sep [OF q(2)] pred [of "qd_pred ?q"]
    unfolding ViewDefinition_def QueryData_String_text [OF assms(1)]
    by (subst QueryData_String_text [OF assms(1), symmetric], intro query_roundtrip assms(1)) simp_all
qed

text \<open>C21. The definition of a view survives being stored as text: for a query over identifiers, with
  conditions that compare fields, non-negative integers and booleans, parsing the view definition
  gives the query back, whole and with nothing left over.\<close>

theorem view_definition_roundtrip:
  assumes "plain_query (cv_query cv)" and "length (ViewDefinition st cv) < n"
  shows "p_Query n (NewParser U (ViewDefinition st cv)) = (Inr (cv_query cv), NewLexer U [])"
  using assms by (rule query_of_view)

lemma view_definition_roundtrip_witness:
  "p_Query 60 (NewParser ascii_tables (ViewDefinition (\<lambda>_. []) (NewCreateViewData ''v''
     (NewQueryData (Some [''a'', ''b'']) [''t''] [NewTerm (NewFieldExpression ''a'') (NewConstantExpression (Some (VInt 3))) LE])))) =
   (Inr (NewQueryData (Some [''a'', ''b'']) [''t'']
     [NewTerm (NewFieldExpression ''a'') (NewConstantExpression (Some (VInt 3))) LE]), NewLexer ascii_tables [])"
proof -
  let ?t = "NewTerm (NewFieldExpression ''a'') (NewConstantExpression (Some (VInt 3))) LE"
  let ?cv = "NewCreateViewData ''v'' (NewQueryData (Some [''a'', ''b'']) [''t''] [?t])"
  have id: "sql_ident ''a''" "sql_ident ''b''" "sql_ident ''t''"
    by (simp_all add: sql_ident_def lower_word_def word_class_def in_range_def sql_keywords_def)
  have "plain_expr (NewConstantExpression (Some (VInt 3)))"
    unfolding plain_expr_def by (intro disjI2 disjI1 exI [of _ 3]) simp
  then have "plain_term ?t" using id(1) by (auto simp: plain_term_def NewTerm_def plain_expr_def)
  then have pq: "plain_query (cv_query ?cv)"
    using id by (simp add: plain_query_def NewCreateViewData_def NewQueryData_def)
  have "length (ViewDefinition (\<lambda>_. []) ?cv) < 60"
    by (simp add: ViewDefinition_def QueryData_String_def NewCreateViewData_def NewQueryData_def comma_list_def
      Let_def pred_String_Cons and_tail_def term_String_def expr_String_def NewTerm_def op_String_def
      NewFieldExpression_def NewConstantExpression_def show_int_def show_nat.simps)
  from view_definition_roundtrip [OF pq this, of ascii_tables] show ?thesis by (simp add: NewCreateViewData_def)
qed

section \<open>What the text does not keep\<close>

text \<open>A string constant of a view is lost: it is printed without quotes, so a view whose condition
  compares a field with a string that reads as an identifier is stored, and parsed back without an
  error, as a different query, which compares the field with a field of that name.\<close>

theorem view_string_constant_lost:
  assumes "plain_query (NewQueryData fs ts [])" and "sql_ident f" and "sql_ident x"
    and "cv_query cv = NewQueryData fs ts [NewTerm (NewFieldExpression f) (NewConstantExpression (Some (VString x))) EQ]"
    and "length (ViewDefinition st cv) < n"
  shows "p_Query n (NewParser U (ViewDefinition st cv)) =
      (Inr (NewQueryData fs ts [NewTerm (NewFieldExpression f) (NewFieldExpression x) EQ]), NewLexer U [])"
    (is "_ = (Inr ?q, _)")
proof -
  have "x \<noteq> []" using assms(3) by (simp add: sql_ident_def lower_word_def)
  have same: "ViewDefinition st cv = ViewDefinition st (cv\<lparr>cv_query := ?q\<rparr>)"
    unfolding ViewDefinition_def assms(4)
    by (simp add: QueryData_String_def NewQueryData_def pred_String_Cons and_tail_def term_String_def
      NewTerm_def expr_String_def NewFieldExpression_def NewConstantExpression_def)
  have "plain_query ?q"
    using assms(1-3) by (auto simp: plain_query_def NewQueryData_def plain_term_def NewTerm_def plain_expr_def)
  then have pq: "plain_query (cv_query (cv\<lparr>cv_query := ?q\<rparr>))" by simp
  show ?thesis
    unfolding same using query_of_view [OF pq] assms(5) unfolding same by simp
qed

lemma view_string_constant_lost_witness:
  "fst (p_Query 60 (NewParser ascii_tables ''select a from t where a = joe'')) =
     Inr (NewQueryData (Some [''a'']) [''t''] [NewTerm (NewFieldExpression ''a'') (NewFieldExpression ''joe'') EQ])"
proof -
  let ?t = "NewTerm (NewFieldExpression ''a'') (NewConstantExpression (Some (VString ''joe''))) EQ"
  let ?cv = "NewCreateViewData ''v'' (NewQueryData (Some [''a'']) [''t''] [?t])"
  have id: "sql_ident ''a''" "sql_ident ''joe''" "sql_ident ''t''"
    by (simp_all add: sql_ident_def lower_word_def word_class_def in_range_def sql_keywords_def)
  have pq: "plain_query (NewQueryData (Some [''a'']) [''t''] [])"
    using id by (simp add: plain_query_def NewQueryData_def)
  have shown: "ViewDefinition st ?cv = ''select a from t where a = joe''" for st
    by (simp add: ViewDefinition_def QueryData_String_def NewCreateViewData_def NewQueryData_def comma_list_def
      Let_def pred_String_Cons and_tail_def term_String_def expr_String_def NewTerm_def op_String_def
      NewFieldExpression_def NewConstantExpression_def)
  have len: "length (ViewDefinition (\<lambda>_. []) ?cv) < 60" unfolding shown by simp
  have cv: "cv_query ?cv = NewQueryData (Some [''a'']) [''t''] [?t]" by (simp add: NewCreateViewData_def)
  show ?thesis using view_string_constant_lost [OF pq id(1,2) cv len, of ascii_tables] unfolding shown by simp
qed

text \<open>Dates. The characters of a date are digits and dashes, so the token takes the space behind it.\<close>

lemma parse_ymd_chars:
  assumes "parse_ymd d = Some (y, m, k, [])"
  shows "all_in (\<lambda>r. in_range 48 57 r \<or> r = 45) d" and "d \<noteq> []" and "\<not> list_all ascii_digit d"
    and "ascii_digit (hd d)"
proof -
  obtain c0 c1 c2 c3 c4 c5 c6 c7 c8 c9 where d: "d = [c0, c1, c2, c3, c4, c5, c6, c7, c8, c9]"
    and dig: "ascii_digit c0" "ascii_digit c1" "ascii_digit c2" "ascii_digit c3" "ascii_digit c5"
      "ascii_digit c6" "ascii_digit c8" "ascii_digit c9" and dash: "c4 = CHR ''-''" "c7 = CHR ''-''"
  proof -
    obtain y s1 where p1: "tp_digits 4 d = Some (y, s1)" using assms by (auto simp: parse_ymd_def bind_eq_Some_conv)
    obtain s2 where p2: "tp_lit CHR ''-'' s1 = Some s2" using assms p1 by (auto simp: parse_ymd_def bind_eq_Some_conv)
    obtain m s3 where p3: "tp_digits 2 s2 = Some (m, s3)"
      using assms p1 p2 by (auto simp: parse_ymd_def bind_eq_Some_conv)
    obtain s4 where p4: "tp_lit CHR ''-'' s3 = Some s4"
      using assms p1 p2 p3 by (auto simp: parse_ymd_def bind_eq_Some_conv)
    have p5: "tp_digits 2 s4 = Some (k, [])"
      using assms p1 p2 p3 p4 by (auto simp: parse_ymd_def bind_eq_Some_conv split: if_splits)
    have lit: "s = c # s'" if "tp_lit c s = Some s'" for c s s'
      using that by (auto simp: tp_lit_def split: list.splits if_splits)
    have four: "\<exists>a b c e. s = a # b # c # e # s' \<and> ascii_digit a \<and> ascii_digit b \<and> ascii_digit c \<and> ascii_digit e"
      if "tp_digits 4 s = Some (v, s')" for s v s'
      using that by (cases s; cases "tl s"; cases "tl (tl s)"; cases "tl (tl (tl s))")
        (auto simp: tp_digits_def split: if_splits)
    have two: "\<exists>a b. s = a # b # s' \<and> ascii_digit a \<and> ascii_digit b" if "tp_digits 2 s = Some (v, s')" for s v s'
      using that by (cases s; cases "tl s") (auto simp: tp_digits_def split: if_splits)
    show ?thesis using four [OF p1] lit [OF p2] two [OF p3] lit [OF p4] two [OF p5] that by blast
  qed
  have code: "(of_char c :: nat) < 128" if "ascii_digit c" for c :: char using that by (simp add: in_range_def)
  show "all_in (\<lambda>r. in_range 48 57 r \<or> r = 45) d" "d \<noteq> []" "ascii_digit (hd d)"
    using dig dash code by (simp_all add: d)
  show "\<not> list_all ascii_digit d" using dash by (simp add: d in_range_def)
qed

lemma parse_ymd_append:
  assumes "parse_ymd s = Some (y, m, k, r)"
  shows "parse_ymd (s @ t) = Some (y, m, k, r @ t)"
proof -
  have digits: "tp_digits n (s @ t) = Some (v, r @ t)" if "tp_digits n s = Some (v, r)" for n s v r
    using that by (auto simp: tp_digits_def split: if_splits)
  have lit: "tp_lit c (s @ t) = Some (r @ t)" if "tp_lit c s = Some r" for c s r
    using that by (auto simp: tp_lit_def split: list.splits if_splits)
  show ?thesis
    using assms by (auto simp: parse_ymd_def bind_eq_Some_conv digits lit split: if_splits dest!: digits lit)
qed

lemma parseDate_spaced:
  assumes "parse_ymd d = Some (y, m, k, [])"
  shows "parseDate (d @ '' '') = None"
  using parse_ymd_append [OF assms, of "'' ''"]
  by (simp add: parseDate_def parse_date_only_def parse_date_time_def tp_spaces_def tp_num_def tp_digits_def)

lemma Atoi_date:
  assumes "parse_ymd d = Some (y, m, k, [])"
  shows "go_Atoi d = None"
proof -
  have "hd d \<noteq> CHR ''-''" "hd d \<noteq> CHR ''+''" using parse_ymd_chars(4) [OF assms] by (auto simp: in_range_def)
  then show ?thesis using parse_ymd_chars(3) [OF assms] by (simp add: go_Atoi_def)
qed

lemma date_token:
  assumes d: "parse_ymd d = Some (y, m, k, [])" and b: "num_stop b" and sp: "sp = [] \<or> sp = '' ''"
  shows "nextToken (lc U (d @ sp @ b) tok) = (case parseDate (d @ sp) of
    Some t \<Rightarrow> (Inr (), lc U b (TDate t)) | None \<Rightarrow> (Err ESyntax, lc U b tok))"
proof -
  note chars = parse_ymd_chars [OF d]
  obtain c s where cs: "d = c # s" using chars(2) by (cases d) auto
  have c: "cc c < 128" "in_range 48 57 (cc c)" using chars(1,4) by (simp_all add: cs)
  have cl: "\<not> isOperatorStart (cc c)" "cc c \<noteq> 39" "\<not> isDelimiter (cc c)" "is_digit U (cc c)" "\<not> is_space U (cc c)"
    using c by (auto simp: isOperatorStart_def isDelimiter_def is_digit_def is_space_def in_range_def)
  let ?P = "\<lambda>r. is_digit U r \<or> r = 45 \<or> r = 32 \<or> r = 58"
  have "all_in ?P (d @ sp)" using chars(1) sp by (auto simp: all_in_def is_digit_def)
  moreover have "stops ?P b" using b by (auto simp: stops_def is_digit_def split: list.splits)
  ultimately have "scanDigits U ((d @ sp) @ b) = (d @ sp, b)" unfolding scanDigits_def by (rule scan_while_ascii)
  then have sc: "scanDigits U (d @ sp @ b) = (d @ sp, b)" by simp
  have "CHR '' '' \<notin> set d" using not_digit [of d "CHR '' ''"] chars(1) by (auto simp: all_in_def in_range_def)
  then have "filter (\<lambda>c. c \<noteq> CHR '' '') (d @ sp) = d" using sp by (auto simp: filter_id_conv)
  then have at: "go_Atoi (filter (\<lambda>c. c \<noteq> CHR '' '') (d @ sp)) = None" using Atoi_date [OF d] by simp
  have "skipWhitespace (lc U (d @ sp @ b) tok) = lc U (d @ sp @ b) tok"
    using cl(5) c(1) by (intro skip_none) (simp add: cs)
  moreover have "decode_rune (d @ sp @ b) = (cc c, 1)" using c(1) by (simp add: cs decode_ascii)
  ultimately show ?thesis
    using cl sc at chars(2) by (simp add: nextToken_def Let_def split: option.split)
qed

text \<open>A date is only accepted where nothing but the end, or a character other than a space, follows:
  the token takes the space along, and a date-only layout does not allow it. So a condition on a date
  that another condition follows is a syntax error.\<close>

theorem lexer_rejects_spaced_date:
  assumes "parse_date_only d = Some t" and "num_stop b"
  shows "nextToken (lc U (d @ b) tok) = (Inr (), lc U b (TDate t)) \<and>
    nextToken (lc U (d @ '' '' @ b) tok) = (Err ESyntax, lc U b tok)"
proof -
  obtain y m k where d: "parse_ymd d = Some (y, m, k, [])"
    using assms(1) by (auto simp: parse_date_only_def bind_eq_Some_conv split: if_splits)
  have "parseDate d = Some t" using assms(1) by (simp add: parseDate_def)
  then show ?thesis
    using date_token [OF d assms(2), of "[]" U tok] date_token [OF d assms(2), of "'' ''" U tok] parseDate_spaced [OF d]
    by simp
qed

lemma lexer_rejects_spaced_date_witness:
  "nextToken (lc ascii_tables ''2024-02-29 and a = 1'' (TDelim 0)) = (Err ESyntax, lc ascii_tables ''and a = 1'' (TDelim 0))"
proof -
  have "parse_date_only ''2024-02-29'' = Some (Time 1709164800 UTC)" by code_simp
  from lexer_rejects_spaced_date [OF this, of "''and a = 1''" ascii_tables "TDelim 0"] show ?thesis by (simp add: in_range_def)
qed

text \<open>Numbers separated by a space are one number.\<close>

lemma spaced_digits_merge: "nextToken (lc U ''1 2,'' tok) = (Inr (), lc U '','' (TNumber 12))"
proof -
  have "scanDigits U (''1 2'' @ '','') = (''1 2'', '','')" unfolding scanDigits_def
    by (rule scan_while_ascii) (simp_all add: is_digit_def in_range_def)
  then have sc: "scanDigits U ''1 2,'' = (''1 2'', '','')" by simp
  have "skipWhitespace (lc U ''1 2,'' tok) = lc U ''1 2,'' tok"
    by (intro skip_none) (simp add: is_space_def in_range_def)
  moreover have "parseDate ''1 2'' = None" by (rule parseDate_no_dash) simp
  ultimately show ?thesis
    by (simp add: nextToken_def Let_def decode_ascii isOperatorStart_def isDelimiter_def is_digit_def in_range_def sc
      go_Atoi_def digits_val_def digit_val_def)
qed

end
