(* ===== verification/RecordPage.thy ===== *)
theory RecordPage
  imports Tx Layout
begin

text \<open>
  \<^verbatim>\<open>record/page.go\<close> and \<^verbatim>\<open>record/id.go\<close>: a block as an array of slots.

  A record page is a transaction, a block it has pinned, and a layout; slot \<open>k\<close> starts at byte
  \<open>k * slotSize\<close> with its flag. The lemmas give the search for a flag as \<open>find\<close> over the slots,
  insertion and deletion as changes of one flag, setting a field as a change that no other field
  and no flag sees, and \<open>Format\<close> as making every slot empty.
\<close>

section \<open>Record identifiers\<close>

record record_id =
  rid_block :: int
  rid_slot :: int

definition NewID :: "int \<Rightarrow> int \<Rightarrow> record_id" where
  "NewID b k = \<lparr>rid_block = b, rid_slot = k\<rparr>"

definition ID_Equals :: "record_id \<Rightarrow> record_id \<Rightarrow> bool" where
  "ID_Equals a b \<longleftrightarrow> rid_block a = rid_block b \<and> rid_slot a = rid_slot b"

section \<open>Record pages\<close>

record record_page =
  rp_tx :: int
  rp_block :: block_id
  rp_layout :: layout

definition FlagEmpty :: int where "FlagEmpty = 0"
definition FlagUsed :: int where "FlagUsed = 1"

definition NewPage :: "int \<Rightarrow> block_id \<Rightarrow> layout \<Rightarrow> ('z world_scheme, record_page) go" where
  "NewPage t b lay = bnd (tx_Pin t b) (\<lambda>_. ret \<lparr>rp_tx = t, rp_block = b, rp_layout = lay\<rparr>)"

definition rp_offset :: "record_page \<Rightarrow> int \<Rightarrow> int" where
  "rp_offset p slot = slot * slotSize (rp_layout p)"

definition rp_pos :: "record_page \<Rightarrow> int \<Rightarrow> string \<Rightarrow> int" where
  "rp_pos p slot f = rp_offset p slot + lay_Offset (rp_layout p) f"

definition rp_GetInt :: "record_page \<Rightarrow> int \<Rightarrow> string \<Rightarrow> ('z world_scheme, int) go" where
  "rp_GetInt p slot f = tx_GetInt (rp_tx p) (rp_block p) (rp_pos p slot f)"

definition rp_GetLong :: "record_page \<Rightarrow> int \<Rightarrow> string \<Rightarrow> ('z world_scheme, 64 word) go" where
  "rp_GetLong p slot f = tx_GetLong (rp_tx p) (rp_block p) (rp_pos p slot f)"

definition rp_GetString :: "record_page \<Rightarrow> int \<Rightarrow> string \<Rightarrow> ('z world_scheme, string) go" where
  "rp_GetString p slot f = tx_GetString (rp_tx p) (rp_block p) (rp_pos p slot f)"

definition rp_GetBool :: "record_page \<Rightarrow> int \<Rightarrow> string \<Rightarrow> ('z world_scheme, bool) go" where
  "rp_GetBool p slot f = tx_GetBool (rp_tx p) (rp_block p) (rp_pos p slot f)"

definition rp_GetDate :: "record_page \<Rightarrow> int \<Rightarrow> string \<Rightarrow> ('z world_scheme, gotime) go" where
  "rp_GetDate p slot f = tx_GetDate (rp_tx p) (rp_block p) (rp_pos p slot f)"

definition rp_GetShort :: "record_page \<Rightarrow> int \<Rightarrow> string \<Rightarrow> ('z world_scheme, 16 word) go" where
  "rp_GetShort p slot f = tx_GetShort (rp_tx p) (rp_block p) (rp_pos p slot f)"

definition rp_SetInt :: "record_page \<Rightarrow> int \<Rightarrow> string \<Rightarrow> int \<Rightarrow> ('z world_scheme, unit) go" where
  "rp_SetInt p slot f v = tx_SetInt (rp_tx p) (rp_block p) (rp_pos p slot f) v True"

definition rp_SetLong :: "record_page \<Rightarrow> int \<Rightarrow> string \<Rightarrow> 64 word \<Rightarrow> ('z world_scheme, unit) go" where
  "rp_SetLong p slot f v = tx_SetLong (rp_tx p) (rp_block p) (rp_pos p slot f) v True"

definition rp_SetString :: "record_page \<Rightarrow> int \<Rightarrow> string \<Rightarrow> string \<Rightarrow> ('z world_scheme, unit) go" where
  "rp_SetString p slot f v = tx_SetString (rp_tx p) (rp_block p) (rp_pos p slot f) v True"

definition rp_SetBool :: "record_page \<Rightarrow> int \<Rightarrow> string \<Rightarrow> bool \<Rightarrow> ('z world_scheme, unit) go" where
  "rp_SetBool p slot f v = tx_SetBool (rp_tx p) (rp_block p) (rp_pos p slot f) v True"

definition rp_SetDate :: "record_page \<Rightarrow> int \<Rightarrow> string \<Rightarrow> gotime \<Rightarrow> ('z world_scheme, unit) go" where
  "rp_SetDate p slot f v = tx_SetDate (rp_tx p) (rp_block p) (rp_pos p slot f) v True"

definition rp_SetShort :: "record_page \<Rightarrow> int \<Rightarrow> string \<Rightarrow> 16 word \<Rightarrow> ('z world_scheme, unit) go" where
  "rp_SetShort p slot f v = tx_SetShort (rp_tx p) (rp_block p) (rp_pos p slot f) v True"

definition rp_setFlag :: "record_page \<Rightarrow> int \<Rightarrow> int \<Rightarrow> ('z world_scheme, unit) go" where
  "rp_setFlag p slot flag = tx_SetInt (rp_tx p) (rp_block p) (rp_offset p slot) flag True"

definition rp_Delete :: "record_page \<Rightarrow> int \<Rightarrow> ('z world_scheme, unit) go" where
  "rp_Delete p slot = rp_setFlag p slot FlagEmpty"

definition isValidSlot :: "record_page \<Rightarrow> 'z world_scheme \<Rightarrow> int \<Rightarrow> bool" where
  "isValidSlot p s slot \<longleftrightarrow> 0 \<le> slot \<and> rp_offset p (slot + 1) \<le> tx_BlockSize s"

text \<open>The body of the field loop of \<open>Format\<close>; a type the switch does not know sets nothing.\<close>

definition format_field :: "record_page \<Rightarrow> int \<Rightarrow> string \<Rightarrow> ('z world_scheme, unit) go" where
  "format_field p slot f =
     (let t = rp_tx p; b = rp_block p; pos = rp_pos p slot f;
          ty = schema_Type (lay_schema (rp_layout p)) f in
      if ty = Integer then tx_SetInt t b pos 0 False
      else if ty = Long then tx_SetLong t b pos 0 False
      else if ty = Short then tx_SetShort t b pos 0 False
      else if ty = Boolean then tx_SetBool t b pos False False
      else if ty = Date then tx_SetDate t b pos time_zero False
      else if ty = Varchar then tx_SetString t b pos [] False
      else ret ())"

fun format_loop :: "nat \<Rightarrow> record_page \<Rightarrow> int \<Rightarrow> ('z world_scheme, unit) go" where
  "format_loop 0 p slot s = (Inl OutOfFuel, s)"
| "format_loop (Suc n) p slot s =
     (if isValidSlot p s slot then
        bnd (tx_SetInt (rp_tx p) (rp_block p) (rp_offset p slot) FlagEmpty False) (\<lambda>_.
        bnd (for_each (sch_fields (lay_schema (rp_layout p))) (format_field p slot)) (\<lambda>_.
        format_loop n p (slot + 1))) s
      else (Inr (), s))"

definition rp_Format :: "nat \<Rightarrow> record_page \<Rightarrow> ('z world_scheme, unit) go" where
  "rp_Format n p = bnd (gets tx_BlockSize) (\<lambda>bs.
     if slotSize (rp_layout p) > bs then fail ESlotTooLarge else format_loop n p 0)"

fun search_loop :: "nat \<Rightarrow> record_page \<Rightarrow> int \<Rightarrow> int \<Rightarrow> ('z world_scheme, int) go" where
  "search_loop 0 p flag slot s = (Inl OutOfFuel, s)"
| "search_loop (Suc n) p flag slot s =
     (if isValidSlot p s slot then
        bnd (tx_GetInt (rp_tx p) (rp_block p) (rp_offset p slot)) (\<lambda>currentFlag.
        if currentFlag = flag then ret slot else search_loop n p flag (slot + 1)) s
      else (Err ENoSlotFound, s))"

definition rp_searchAfter :: "nat \<Rightarrow> record_page \<Rightarrow> int \<Rightarrow> int \<Rightarrow> ('z world_scheme, int) go" where
  "rp_searchAfter n p slot flag = search_loop n p flag (slot + 1)"

definition rp_NextAfter :: "nat \<Rightarrow> record_page \<Rightarrow> int \<Rightarrow> ('z world_scheme, int) go" where
  "rp_NextAfter n p slot = rp_searchAfter n p slot FlagUsed"

definition rp_InsertAfter :: "nat \<Rightarrow> record_page \<Rightarrow> int \<Rightarrow> ('z world_scheme, int) go" where
  "rp_InsertAfter n p slot =
     bnd (rp_searchAfter n p slot FlagEmpty) (\<lambda>newSlot.
     bnd (rp_setFlag p newSlot FlagUsed) (\<lambda>_. ret newSlot))"

section \<open>Reading under a lock\<close>

definition slockable :: "'z world_scheme \<Rightarrow> int \<Rightarrow> block_id \<Rightarrow> bool" where
  "slockable s t b \<longleftrightarrow> map_of (tx_own (txns s t)) b \<noteq> None \<or> \<not> hasXLock (locks s) b"

text \<open>A step of transaction \<open>t\<close> that only takes locks.\<close>

definition locks_only :: "int \<Rightarrow> 'z world_scheme \<Rightarrow> 'z world_scheme \<Rightarrow> bool" where
  "locks_only t s s' \<longleftrightarrow>
     (\<exists>lt own. s' = txn_upd t (\<lambda>x. x\<lparr>tx_own := own\<rparr>) (s\<lparr>locks := lt\<rparr>)) \<and>
     (\<forall>c. can_xlock s t c \<longrightarrow> can_xlock s' t c) \<and> (\<forall>c. x_locked s t c \<longrightarrow> x_locked s' t c) \<and>
     (\<forall>c. slockable s t c \<longrightarrow> slockable s' t c)"

lemma locks_only_refl: "locks_only t s s"
  unfolding locks_only_def by (intro conjI exI [of _ "tx_own (txns s t)"] exI [of _ "locks s"]) simp_all

lemma locks_only_trans:
  assumes "locks_only t s s'" and "locks_only t s' s''"
  shows "locks_only t s s''"
proof -
  obtain lt own lt' own' where s: "s' = txn_upd t (\<lambda>x. x\<lparr>tx_own := own\<rparr>) (s\<lparr>locks := lt\<rparr>)"
    "s'' = txn_upd t (\<lambda>x. x\<lparr>tx_own := own'\<rparr>) (s'\<lparr>locks := lt'\<rparr>)"
    using assms unfolding locks_only_def by blast
  then have "s'' = txn_upd t (\<lambda>x. x\<lparr>tx_own := own'\<rparr>) (s\<lparr>locks := lt'\<rparr>)"
    by (simp add: txn_upd_def)
  then show ?thesis using assms unfolding locks_only_def by blast
qed

lemma locks_only_same:
  assumes "locks_only t s s'"
  shows "pool_inv s' = pool_inv s" and "blk_view s' c = blk_view s c"
    and "log_holds s' l = log_holds s l" and "nblocks s' n = nblocks s n"
    and "in_file s' c = in_file s c" and "blockSize s' = blockSize s" and "logFile s' = logFile s"
    and "tx_holds s' u c i = tx_holds s u c i" and "bufferPool s' = bufferPool s"
    and "tx_bufs (txns s' u) = tx_bufs (txns s u)"
proof -
  obtain lt own where s: "s' = txn_upd t (\<lambda>x. x\<lparr>tx_own := own\<rparr>) (s\<lparr>locks := lt\<rparr>)"
    using assms unfolding locks_only_def by blast
  show bufs: "tx_bufs (txns s' u) = tx_bufs (txns s u)" for u by (simp add: s)
  show pool: "bufferPool s' = bufferPool s" by (simp add: s)
  show "tx_holds s' u c i = tx_holds s u c i" unfolding tx_holds_def bufs pool ..
qed (use assms in \<open>auto simp: locks_only_def\<close>)

lemma locks_only_lock:
  assumes "locks_only t s s'"
  shows "can_xlock s t c \<Longrightarrow> can_xlock s' t c" and "x_locked s t c \<Longrightarrow> x_locked s' t c"
    and "slockable s t c \<Longrightarrow> slockable s' t c"
  using assms by (simp_all add: locks_only_def)

lemma can_xlock_slockable: "can_xlock s t b \<Longrightarrow> slockable s t b"
  by (auto simp: can_xlock_def slockable_def x_locked_def hasXLock_def)

lemma tx_SLock_spec:
  assumes "slockable s t b"
  obtains s' where "tx_SLock t b s = (Inr (), s')" and "locks_only t s s'"
proof (cases "map_of (tx_own (txns s t)) b")
  case (Some x)
  then have "tx_SLock t b s = (Inr (), s)"
    by (simp add: tx_SLock_def with_locks_def cm_SLock_def)
  then show thesis using locks_only_refl that by blast
next
  case None
  then have free: "\<not> hasXLock (locks s) b" using assms by (simp add: slockable_def)
  let ?lt = "(locks s)(b \<mapsto> getLockVal (locks s) b + 1)"
  let ?own = "AList.update b ''s'' (tx_own (txns s t))"
  let ?s' = "txn_upd t (\<lambda>x. x\<lparr>tx_own := ?own\<rparr>) (s\<lparr>locks := ?lt\<rparr>)"
  have run: "tx_SLock t b s = (Inr (), ?s')"
    using None free by (simp add: tx_SLock_def with_locks_def cm_SLock_def)
  have "can_xlock s t c \<Longrightarrow> can_xlock ?s' t c" for c
    using None by (cases "c = b") (auto simp: can_xlock_def x_locked_def getLockVal_def)
  moreover have "slockable s t c \<Longrightarrow> slockable ?s' t c" for c
    using None by (cases "c = b") (auto simp: slockable_def hasXLock_def getLockVal_def)
  moreover have "x_locked s t c \<Longrightarrow> x_locked ?s' t c" for c
    using None by (cases "c = b") (auto simp: x_locked_def)
  ultimately have "locks_only t s ?s'" unfolding locks_only_def by blast
  then show thesis using run that by blast
qed

lemma tx_Get_spec:
  assumes "pool_inv s" and "tx_holds s t b i" and "slockable s t b"
  obtains s' where "tx_Get get t b off s = (get (blk_view s b) off, s')" and "locks_only t s s'"
proof -
  obtain s' where s': "tx_SLock t b s = (Inr (), s')" "locks_only t s s'"
    by (rule tx_SLock_spec [OF assms(3)])
  note same = locks_only_same [OF s'(2)]
  have h: "tx_holds s' t b i" "pool_inv s'" using assms by (simp_all add: same)
  have "tx_Get get t b off s = (get (blk_view s b) off, s')"
    using s'(1) tx_buffer_held [OF tx_holds_GetBuffer [OF h(1)]] tx_holds_view [OF h(2,1)]
    by (simp add: tx_Get_def bnd_Inr bnd_simps go_unfold same)
  then show thesis using s'(2) that by blast
qed

section \<open>Slots\<close>

text \<open>The page is one of the block's slots, readable by the transaction.\<close>

definition rp_ready :: "'z world_scheme \<Rightarrow> record_page \<Rightarrow> bool" where
  "rp_ready s p \<longleftrightarrow> pool_inv s \<and> (\<exists>i. tx_holds s (rp_tx p) (rp_block p) i) \<and>
     slockable s (rp_tx p) (rp_block p) \<and> IntSize \<le> slotSize (rp_layout p)"

abbreviation rp_view :: "record_page \<Rightarrow> 'z world_scheme \<Rightarrow> page" where
  "rp_view p s \<equiv> blk_view s (rp_block p)"

definition nslots :: "record_page \<Rightarrow> 'z world_scheme \<Rightarrow> int" where
  "nslots p s = blockSize s div slotSize (rp_layout p)"

text \<open>The flag of slot \<open>k\<close> in the page's current contents.\<close>

definition flag_is :: "record_page \<Rightarrow> 'z world_scheme \<Rightarrow> int \<Rightarrow> int \<Rightarrow> bool" where
  "flag_is p s flag k \<longleftrightarrow> page_GetInt (rp_view p s) (rp_offset p k) = Inr flag"

lemma isValidSlot_iff:
  assumes "IntSize \<le> slotSize (rp_layout p)"
  shows "isValidSlot p s k \<longleftrightarrow> 0 \<le> k \<and> k < nslots p s"
proof -
  have "0 < slotSize (rp_layout p)" using assms by (simp add: IntSize_def)
  then have "(k + 1) * slotSize (rp_layout p) \<le> blockSize s \<longleftrightarrow> k + 1 \<le> nslots p s"
    unfolding nslots_def by (rule int_le_div_iff [symmetric])
  then show ?thesis
    unfolding isValidSlot_def rp_offset_def tx_BlockSize_def by (simp only: add1_zle_eq)
qed

lemma valid_slot_offset:
  assumes "IntSize \<le> slotSize (rp_layout p)" and "0 \<le> k" and "k < nslots p s"
  shows "0 \<le> rp_offset p k" and "rp_offset p k + slotSize (rp_layout p) \<le> blockSize s"
proof -
  have sz: "0 < slotSize (rp_layout p)" using assms(1) by (simp add: IntSize_def)
  then show "0 \<le> rp_offset p k" using assms(2) by (simp add: rp_offset_def)
  have "isValidSlot p s k" using assms by (simp add: isValidSlot_iff)
  then show "rp_offset p k + slotSize (rp_layout p) \<le> blockSize s"
    by (simp add: isValidSlot_def rp_offset_def tx_BlockSize_def algebra_simps)
qed

lemma rp_ready_locks_only: "rp_ready s p \<Longrightarrow> locks_only (rp_tx p) s s' \<Longrightarrow> rp_ready s' p"
  unfolding rp_ready_def
  using locks_only_same(1,8) [of "rp_tx p" s s'] locks_only_lock(3) [of "rp_tx p" s s'] by auto

lemma slot_flag_read:
  assumes r: "rp_ready s p" and k: "0 \<le> k" "k < nslots p s"
  obtains v s' where "tx_GetInt (rp_tx p) (rp_block p) (rp_offset p k) s = (Inr v, s')"
    and "flag_is p s v k" and "locks_only (rp_tx p) s s'"
proof -
  obtain i where h: "pool_inv s" "tx_holds s (rp_tx p) (rp_block p) i" "slockable s (rp_tx p) (rp_block p)"
    and sz: "IntSize \<le> slotSize (rp_layout p)"
    using r by (auto simp: rp_ready_def)
  note off = valid_slot_offset [OF sz k]
  have "rp_offset p k + 4 \<le> int (length (rp_view p s))"
    using off sz tx_holds_data(3,4) [OF h(1,2)] by (simp add: IntSize_def)
  then obtain v where v: "page_GetInt (rp_view p s) (rp_offset p k) = Inr v"
    using off(1) by (auto simp: page_GetInt_def be_read_def)
  obtain s' where "tx_GetInt (rp_tx p) (rp_block p) (rp_offset p k) s = (Inr v, s')"
    "locks_only (rp_tx p) s s'"
    unfolding tx_GetInt_def by (rule tx_Get_spec [OF h, of page_GetInt "rp_offset p k"]) (simp add: v)
  then show thesis using v that by (simp add: flag_is_def)
qed

lemma flag_is_fun: "flag_is p s v k \<Longrightarrow> flag_is p s w k \<longleftrightarrow> w = v"
  by (auto simp: flag_is_def)

lemma search_loop_find:
  assumes "rp_ready s p" and "0 \<le> k" and "nat (nslots p s - k) < n"
  shows "\<exists>s'. search_loop n p flag k s =
    ((case find (flag_is p s flag) [k..nslots p s - 1] of Some j \<Rightarrow> Inr j | None \<Rightarrow> Err ENoSlotFound), s') \<and>
    locks_only (rp_tx p) s s'"
  using assms
proof (induction n arbitrary: s k)
  case 0
  then show ?case by simp
next
  case (Suc n)
  have sz: "IntSize \<le> slotSize (rp_layout p)" using Suc.prems(1) by (simp add: rp_ready_def)
  show ?case
  proof (cases "k < nslots p s")
    case False
    then show ?thesis using Suc.prems(2) sz locks_only_refl by (auto simp: isValidSlot_iff)
  next
    case True
    have upto: "[k..nslots p s - 1] = k # [k + 1..nslots p s - 1]"
      using True by (simp add: upto_rec1)
    obtain v s1 where v: "tx_GetInt (rp_tx p) (rp_block p) (rp_offset p k) s = (Inr v, s1)"
      "flag_is p s v k" "locks_only (rp_tx p) s s1"
      by (rule slot_flag_read [OF Suc.prems(1,2) True])
    have valid: "isValidSlot p s k" using True Suc.prems(2) sz by (simp add: isValidSlot_iff)
    show ?thesis
    proof (cases "v = flag")
      case True
      then show ?thesis using v valid by (auto simp: upto bnd_Inr go_unfold)
    next
      case False
      have same: "nslots p s1 = nslots p s" "flag_is p s1 = flag_is p s"
        using locks_only_same [OF v(3)] by (simp_all add: nslots_def flag_is_def fun_eq_iff)
      have "rp_ready s1 p" by (rule rp_ready_locks_only [OF Suc.prems(1) v(3)])
      then obtain s' where "search_loop n p flag (k + 1) s1 =
          ((case find (flag_is p s flag) [k + 1..nslots p s - 1] of Some j \<Rightarrow> Inr j
            | None \<Rightarrow> Err ENoSlotFound), s')" "locks_only (rp_tx p) s1 s'"
        using Suc.IH [of s1 "k + 1"] Suc.prems(2,3) True unfolding same by fastforce
      then show ?thesis
        using v valid False locks_only_trans [OF v(3)] flag_is_fun [OF v(2), of flag]
        by (auto simp: upto bnd_Inr)
    qed
  qed
qed

section \<open>Cells: a field's value in a slot\<close>

lemma be_bytes_be_val: "length bs = n \<Longrightarrow> be_bytes n (be_val bs) = bs"
proof (induction n arbitrary: bs)
  case 0
  then show ?case by simp
next
  case (Suc n)
  then obtain as b where bs: "bs = as @ [b]" "length as = n"
    by (metis append_butlast_last_id length_0_conv length_append_singleton nat.distinct(1) old.nat.inject)
  have "uint b < 256" by (rule order_less_le_trans [OF unsigned_less]) simp
  then have "(be_val as * 256 + uint b) div 256 = be_val as"
    by (simp add: unsigned_greater_eq)
  moreover have "word_of_int (be_val as * 256 + uint b) = b"
  proof -
    have "word_of_int (be_val as * 256 + uint b) = word_of_int (be_val as) * (256 :: byte) + b" by simp
    moreover have "(256 :: byte) = 0" by (simp add: word_eq_iff_unsigned)
    ultimately show ?thesis by (simp only: mult_zero_right add_0)
  qed
  ultimately show ?case using Suc.IH [OF bs(2)] by (simp add: bs(1))
qed

lemma be_val_bounds: "0 \<le> be_val bs" "be_val bs < 256 ^ length bs"
proof -
  have "be_val bs = be_val bs mod 256 ^ length bs"
    by (metis be_bytes_be_val be_val_be_bytes)
  then show "0 \<le> be_val bs" "be_val bs < 256 ^ length bs"
    by (metis pos_mod_sign zero_less_numeral zero_less_power, metis pos_mod_bound zero_less_numeral zero_less_power)
qed

text \<open>Any four bytes are the encoding of the integer they read as.\<close>

lemma GetInt_has:
  assumes "page_GetInt pg off = Inr v"
  shows "has pg off (enc_int v)" and "int32_range v"
proof -
  let ?w = "word_of_int (be_val (bslice (nat off) 4 pg)) :: 32 word"
  have r: "0 \<le> off" "off + 4 \<le> int (length pg)" and v: "v = sint ?w"
    using assms by (auto simp: page_GetInt_def be_read_def split: if_splits)
  have l: "length (bslice (nat off) 4 pg) = 4" using r by (intro length_bslice) simp
  have "word_of_int v = ?w" by (simp add: v)
  moreover have "uint ?w = be_val (bslice (nat off) 4 pg)"
    using be_val_bounds [of "bslice (nat off) 4 pg"] l by (simp add: unsigned_of_int take_bit_int_eq_self)
  ultimately have "enc_int v = bslice (nat off) 4 pg"
    using l by (simp add: enc_int_def be_bytes_be_val)
  moreover have "has pg off (bslice (nat off) 4 pg)" using r l by (simp add: has_def)
  ultimately show "has pg off (enc_int v)" by simp
  have "- (2 ^ 31) \<le> sint ?w" "sint ?w < 2 ^ 31"
    using sint_ge [of ?w] sint_lt [of ?w] by simp_all
  then show "int32_range v" by (simp add: v int32_range_def)
qed

text \<open>What writing through the page needs of the world.\<close>

definition rp_writable :: "'z world_scheme \<Rightarrow> record_page \<Rightarrow> bool" where
  "rp_writable s p \<longleftrightarrow> pool_inv s \<and> (\<exists>i. tx_holds s (rp_tx p) (rp_block p) i) \<and>
     can_xlock s (rp_tx p) (rp_block p) \<and> IntSize \<le> slotSize (rp_layout p) \<and> 0 \<le> rp_tx p \<and>
     int32_range (rp_tx p) \<and> storable_string (File (rp_block p)) \<and>
     int32_range (BlockNumber (rp_block p)) \<and> blockSize s < 2 ^ 31"

lemma rp_writable_ready: "rp_writable s p \<Longrightarrow> rp_ready s p"
  by (auto simp: rp_writable_def rp_ready_def intro: can_xlock_slockable)

lemma rp_writable_updates:
  assumes "rp_writable s p" and "updates (rp_tx p) (rp_block p) pg s s'"
  shows "rp_writable s' p" and "rp_view p s' = pg" and "nslots p s' = nslots p s"
proof -
  show "rp_writable s' p" using assms unfolding rp_writable_def updates_def by (metis (no_types, lifting))
  obtain i where "pool_inv s" "tx_holds s (rp_tx p) (rp_block p) i"
    using assms(1) by (auto simp: rp_writable_def)
  then show "rp_view p s' = pg" "nslots p s' = nslots p s"
    using assms(2) tx_holds_data(1,2) [of s "rp_tx p" "rp_block p" i]
    by (auto simp: updates_def nslots_def)
qed

lemma rp_writable_locks_only:
  assumes "rp_writable s p" and "locks_only (rp_tx p) s s'"
  shows "rp_writable s' p"
  using assms(1) locks_only_same(1,6,8) [OF assms(2)] locks_only_lock(1) [OF assms(2)]
  unfolding rp_writable_def by auto

lemma rp_view_length: "rp_ready s p \<Longrightarrow> int (length (rp_view p s)) = blockSize s"
  using tx_holds_data(3,4) by (fastforce simp: rp_ready_def)

text \<open>Setting a value somewhere in the page's block.\<close>

lemma rp_update:
  assumes w: "rp_writable s p" and off: "0 \<le> off" "off + int (length (val_enc v)) \<le> blockSize s"
    and v: "val_ok v" and old: "val_ok old" "same_kind old v" "has (rp_view p s) off (val_enc old)"
    and sz: "record_size (val_rec (rp_tx p) (rp_block p) off old) + 8 \<le> blockSize s"
  obtains s' where "tx_SetVal (rp_tx p) (rp_block p) off v True s = (Inr (), s')"
    and "updates (rp_tx p) (rp_block p) (bsplice (nat off) (val_enc v) (rp_view p s)) s s'"
proof -
  obtain i where h: "pool_inv s" "tx_holds s (rp_tx p) (rp_block p) i"
    "can_xlock s (rp_tx p) (rp_block p)" "0 \<le> rp_tx p"
    using w by (auto simp: rp_writable_def)
  obtain l where l: "log_holds s l" using h(1) by (auto simp: pool_inv_def)
  have len: "int (length (rp_view p s)) = blockSize s"
    using rp_view_length [OF rp_writable_ready [OF w]] .
  have fit: "val_fits (rp_view p s) off v" using v off len by (auto simp: val_fits_def)
  have hd: "storable_header (rp_tx p) (rp_block p) off"
    using w off by (simp add: rp_writable_def storable_header_def int32_range_def)
  show thesis
    by (rule tx_SetVal_logged [OF h fit old(2,1,3) hd sz l]) (rule that)
qed

lemma rp_setFlag_spec:
  assumes w: "rp_writable s p" and k: "0 \<le> k" "k < nslots p s" and fl: "int32_range fl"
    and sz: "value_pos (File (rp_block p)) + 12 \<le> blockSize s"
  obtains s' where "rp_setFlag p k fl s = (Inr (), s')" and
    "updates (rp_tx p) (rp_block p) (bsplice (nat (rp_offset p k)) (enc_int fl) (rp_view p s)) s s'"
proof -
  have lay: "IntSize \<le> slotSize (rp_layout p)" using w by (simp add: rp_writable_def)
  note off = valid_slot_offset [OF lay k]
  obtain v where "flag_is p s v k"
    using slot_flag_read [OF rp_writable_ready [OF w] k] by blast
  then have old: "has (rp_view p s) (rp_offset p k) (enc_int v)" "int32_range v"
    using GetInt_has by (simp_all add: flag_is_def)
  show thesis
    by (rule rp_update [OF w off(1), of "VInt fl" "VInt v"])
      (use off(2) lay old fl sz that in \<open>simp_all add: IntSize_def rp_setFlag_def\<close>)
qed

section \<open>Fields do not interfere\<close>

abbreviation rp_fields :: "record_page \<Rightarrow> string list" where
  "rp_fields p \<equiv> sch_fields (lay_schema (rp_layout p))"

abbreviation rp_size :: "record_page \<Rightarrow> string \<Rightarrow> int" where
  "rp_size p f \<equiv> size_of (lay_schema (rp_layout p)) f"

text \<open>Field \<open>f\<close> of slot \<open>k\<close> holds \<open>v\<close>, within the bytes the layout gives it.\<close>

definition cell :: "record_page \<Rightarrow> 'z world_scheme \<Rightarrow> int \<Rightarrow> string \<Rightarrow> val \<Rightarrow> bool" where
  "cell p s k f v \<longleftrightarrow> has (rp_view p s) (rp_pos p k f) (val_enc v) \<and> val_ok v \<and>
     int (length (val_enc v)) \<le> rp_size p f"

lemma slot_apart:
  assumes "0 < (sz :: int)" and "j < k"
  shows "(j + 1) * sz \<le> k * sz"
  using assms by (intro mult_right_mono) simp_all

lemma field_bounds:
  assumes "layout_wf lay" and "f \<in> set (sch_fields (lay_schema lay))"
  shows "IntSize \<le> lay_Offset lay f" and "lay_Offset lay f + size_of (lay_schema lay) f \<le> slotSize lay"
  using assms by (auto simp: layout_wf_def Let_def lay_Offset_def)

lemma fields_apart:
  assumes lay: "layout_wf (rp_layout p)" and f: "f \<in> set (rp_fields p)" and g: "g \<in> set (rp_fields p)"
    and ne: "(j, f) \<noteq> (k, g)"
  shows "rp_pos p j f + rp_size p f \<le> rp_pos p k g \<or> rp_pos p k g + rp_size p g \<le> rp_pos p j f"
proof -
  have sz: "0 < slotSize (rp_layout p)" using lay by (simp add: layout_wf_def Let_def IntSize_def)
  note bf = field_bounds [OF lay f] and bg = field_bounds [OF lay g]
  have i0: "0 < IntSize" by (simp add: IntSize_def)
  consider "j < k" | "k < j" | "j = k" "f \<noteq> g" using ne by fastforce
  then show ?thesis
  proof cases
    case 1
    then show ?thesis using slot_apart [OF sz, of j k] bf bg i0
      unfolding rp_pos_def rp_offset_def by (simp add: ring_distribs)
  next
    case 2
    then show ?thesis using slot_apart [OF sz, of k j] bf bg i0
      unfolding rp_pos_def rp_offset_def by (simp add: ring_distribs)
  next
    case 3
    then have "lay_Offset (rp_layout p) f + rp_size p f \<le> lay_Offset (rp_layout p) g \<or>
        lay_Offset (rp_layout p) g + rp_size p g \<le> lay_Offset (rp_layout p) f"
      using lay f g by (simp add: layout_wf_def Let_def)
    then show ?thesis using 3(1) by (auto simp: rp_pos_def)
  qed
qed

lemma flag_field_apart:
  assumes lay: "layout_wf (rp_layout p)" and f: "f \<in> set (rp_fields p)"
  shows "rp_offset p k + IntSize \<le> rp_pos p j f \<or> rp_pos p j f + rp_size p f \<le> rp_offset p k"
proof -
  have sz: "0 < slotSize (rp_layout p)" using lay by (simp add: layout_wf_def Let_def IntSize_def)
  note bf = field_bounds [OF lay f]
  show ?thesis
  proof (cases "j < k")
    case True
    then show ?thesis using slot_apart [OF sz, of j k] bf
      unfolding rp_pos_def rp_offset_def by (simp add: ring_distribs)
  next
    case False
    then have "k * slotSize (rp_layout p) \<le> j * slotSize (rp_layout p)"
      using sz by (intro mult_right_mono) simp_all
    then show ?thesis using bf unfolding rp_pos_def rp_offset_def by simp
  qed
qed

lemma flags_apart:
  assumes "IntSize \<le> slotSize (rp_layout p)" and "j \<noteq> k"
  shows "rp_offset p k + IntSize \<le> rp_offset p j \<or> rp_offset p j + IntSize \<le> rp_offset p k"
proof -
  have sz: "0 < slotSize (rp_layout p)" using assms by (simp add: IntSize_def)
  show ?thesis using slot_apart [OF sz, of j k] slot_apart [OF sz, of k j] assms
    unfolding rp_offset_def by (cases "j < k") (simp_all add: ring_distribs)
qed

text \<open>Four bytes away from an overwritten range read as before.\<close>

lemma page_GetInt_kept:
  assumes "0 \<le> off" and "nat off + length e \<le> length pg" and "0 \<le> a"
    and "a + 4 \<le> off \<or> off + int (length e) \<le> a"
  shows "page_GetInt (bsplice (nat off) e pg) a = page_GetInt pg a"
proof -
  have "nat a + 4 \<le> nat off \<or> nat off + length e \<le> nat a" using assms by linarith
  then have "bslice (nat a) 4 (bsplice (nat off) e pg) = bslice (nat a) 4 pg"
    using assms(2) by (intro bslice_bsplice_other) simp_all
  then show ?thesis using assms(2) by (simp add: page_GetInt_def be_read_def)
qed

lemma field_pos:
  assumes lay: "layout_wf (rp_layout p)" and f: "f \<in> set (rp_fields p)" and k: "0 \<le> k" "k < nslots p s"
  shows "0 \<le> rp_pos p k f" and "rp_pos p k f + rp_size p f \<le> blockSize s"
proof -
  have sz: "IntSize \<le> slotSize (rp_layout p)" using lay by (simp add: layout_wf_def Let_def)
  note off = valid_slot_offset [OF sz k] and b = field_bounds [OF lay f]
  show "0 \<le> rp_pos p k f" "rp_pos p k f + rp_size p f \<le> blockSize s"
    using off b by (simp_all add: rp_pos_def IntSize_def)
qed

text \<open>The setter of a value's type, and the getter of the same type.\<close>

fun rp_SetVal :: "record_page \<Rightarrow> int \<Rightarrow> string \<Rightarrow> val \<Rightarrow> ('z world_scheme, unit) go" where
  "rp_SetVal p k f (VInt n) = rp_SetInt p k f n"
| "rp_SetVal p k f (VString x) = rp_SetString p k f x"
| "rp_SetVal p k f (VBool x) = rp_SetBool p k f x"
| "rp_SetVal p k f (VLong x) = rp_SetLong p k f x"
| "rp_SetVal p k f (VShort x) = rp_SetShort p k f x"
| "rp_SetVal p k f (VDate x) = rp_SetDate p k f x"

lemmas rp_Set_defs = rp_SetInt_def rp_SetString_def rp_SetBool_def rp_SetLong_def rp_SetShort_def
  rp_SetDate_def

lemma rp_SetVal_tx: "rp_SetVal p k f v = tx_SetVal (rp_tx p) (rp_block p) (rp_pos p k f) v True"
  by (cases v) (simp_all add: rp_Set_defs)

lemma field_write:
  assumes w: "rp_writable s p" and lay: "layout_wf (rp_layout p)" and f: "f \<in> set (rp_fields p)"
    and k: "0 \<le> k" "k < nslots p s"
    and v: "val_ok v" "int (length (val_enc v)) \<le> rp_size p f"
    and u: "updates (rp_tx p) (rp_block p) (bsplice (nat (rp_pos p k f)) (val_enc v) (rp_view p s)) s s'"
  obtains "rp_writable s' p" and "nslots p s' = nslots p s" and "cell p s' k f v"
    and "\<And>j g x. g \<in> set (rp_fields p) \<Longrightarrow> (j, g) \<noteq> (k, f) \<Longrightarrow> cell p s j g x \<Longrightarrow> cell p s' j g x"
    and "\<And>j fl. 0 \<le> j \<Longrightarrow> flag_is p s' fl j = flag_is p s fl j"
proof -
  note pos = field_pos [OF lay f k] and u = rp_writable_updates [OF w u]
  have len: "int (length (rp_view p s)) = blockSize s" by (rule rp_view_length [OF rp_writable_ready [OF w]])
  have fit: "nat (rp_pos p k f) + length (val_enc v) \<le> length (rp_view p s)" using pos v(2) len by linarith
  have "cell p s' k f v" using v fit pos by (simp add: cell_def u(2) has_new)
  moreover have "cell p s' j g x"
    if g: "g \<in> set (rp_fields p)" "(j, g) \<noteq> (k, f)" "cell p s j g x" for j g x
  proof -
    have "rp_pos p j g + int (length (val_enc x)) \<le> rp_pos p k f \<or>
        rp_pos p k f + int (length (val_enc v)) \<le> rp_pos p j g"
      using fields_apart [OF lay g(1) f g(2)] g(3) v(2) by (auto simp: cell_def)
    then show ?thesis using g(3) has_kept [OF _ pos(1) fit] by (simp add: cell_def u(2))
  qed
  moreover have "flag_is p s' fl j = flag_is p s fl j" if "0 \<le> j" for j fl
  proof -
    have sz0: "0 \<le> slotSize (rp_layout p)" using lay by (simp add: layout_wf_def Let_def IntSize_def)
    then have "0 \<le> rp_offset p j" using that by (simp add: rp_offset_def)
    then have "page_GetInt (rp_view p s') (rp_offset p j) = page_GetInt (rp_view p s) (rp_offset p j)"
      unfolding u(2) using flag_field_apart [OF lay f, of j k] v(2)
      by (intro page_GetInt_kept [OF pos(1) fit]) (auto simp: IntSize_def)
    then show ?thesis by (simp add: flag_is_def)
  qed
  ultimately show thesis using that u by simp
qed

lemma rp_SetVal_spec:
  assumes w: "rp_writable s p" and lay: "layout_wf (rp_layout p)" and f: "f \<in> set (rp_fields p)"
    and k: "0 \<le> k" "k < nslots p s" and old: "cell p s k f old" and kind: "same_kind old v"
    and v: "val_ok v" "int (length (val_enc v)) \<le> rp_size p f"
    and sz: "record_size (val_rec (rp_tx p) (rp_block p) (rp_pos p k f) old) + 8 \<le> blockSize s"
  obtains s' where "rp_SetVal p k f v s = (Inr (), s')" and "rp_writable s' p" and "nslots p s' = nslots p s"
    and "cell p s' k f v"
    and "\<And>j g x. g \<in> set (rp_fields p) \<Longrightarrow> (j, g) \<noteq> (k, f) \<Longrightarrow> cell p s j g x \<Longrightarrow> cell p s' j g x"
    and "\<And>j fl. 0 \<le> j \<Longrightarrow> flag_is p s' fl j = flag_is p s fl j"
proof -
  note pos = field_pos [OF lay f k]
  have end': "rp_pos p k f + int (length (val_enc v)) \<le> blockSize s" using pos v(2) by linarith
  have o1: "val_ok old" "has (rp_view p s) (rp_pos p k f) (val_enc old)"
    using old by (simp_all add: cell_def)
  obtain s' where s': "tx_SetVal (rp_tx p) (rp_block p) (rp_pos p k f) v True s = (Inr (), s')"
    "updates (rp_tx p) (rp_block p) (bsplice (nat (rp_pos p k f)) (val_enc v) (rp_view p s)) s s'"
    by (rule rp_update [OF w pos(1) end' v(1) o1(1) kind o1(2) sz])
  have run: "rp_SetVal p k f v s = (Inr (), s')" using s'(1) by (simp only: rp_SetVal_tx)
  show thesis by (rule field_write [OF w lay f k v s'(2)]) (rule that [OF run])
qed

section \<open>Flags\<close>

lemma rp_setFlag_change:
  assumes w: "rp_writable s p" and lay: "layout_wf (rp_layout p)" and k: "0 \<le> k" "k < nslots p s"
    and fl: "int32_range fl"
    and u: "updates (rp_tx p) (rp_block p) (bsplice (nat (rp_offset p k)) (enc_int fl) (rp_view p s)) s s'"
  shows "0 \<le> j \<Longrightarrow> flag_is p s' x j \<longleftrightarrow> (if j = k then x = fl else flag_is p s x j)"
    and "g \<in> set (rp_fields p) \<Longrightarrow> cell p s j' g v \<Longrightarrow> cell p s' j' g v"
proof -
  have sz: "IntSize \<le> slotSize (rp_layout p)" "0 \<le> slotSize (rp_layout p)"
    using lay by (simp_all add: layout_wf_def Let_def IntSize_def)
  note off = valid_slot_offset [OF sz(1) k] and v = rp_writable_updates [OF w u]
  have len: "int (length (rp_view p s)) = blockSize s" by (rule rp_view_length [OF rp_writable_ready [OF w]])
  have fit: "nat (rp_offset p k) + length (enc_int fl) \<le> length (rp_view p s)"
    using off sz len by (simp add: IntSize_def)
  show "flag_is p s' x j \<longleftrightarrow> (if j = k then x = fl else flag_is p s x j)" if "0 \<le> j" for j x
  proof (cases "j = k")
    case True
    have "page_GetInt (rp_view p s') (rp_offset p k) = Inr fl"
      unfolding v(2) by (rule has_read(1) [OF has_new [OF off(1) fit] fl])
    then show ?thesis using True by (auto simp: flag_is_def)
  next
    case False
    have "0 \<le> rp_offset p j" using that sz(2) by (simp add: rp_offset_def)
    then have "page_GetInt (rp_view p s') (rp_offset p j) = page_GetInt (rp_view p s) (rp_offset p j)"
      unfolding v(2) using flags_apart [OF sz(1) False]
      by (intro page_GetInt_kept [OF off(1) fit]) (auto simp: IntSize_def)
    then show ?thesis using False by (simp add: flag_is_def)
  qed
  show "cell p s' j' g v" if g: "g \<in> set (rp_fields p)" "cell p s j' g v" for j' g v
  proof -
    have "rp_pos p j' g + int (length (val_enc v)) \<le> rp_offset p k \<or>
        rp_offset p k + int (length (enc_int fl)) \<le> rp_pos p j' g"
      using flag_field_apart [OF lay g(1), of k j'] g(2) by (auto simp: cell_def IntSize_def)
    then show ?thesis using g(2) has_kept [OF _ off(1) fit] by (simp add: cell_def v(2))
  qed
qed

lemma flag_range: "int32_range FlagEmpty" "int32_range FlagUsed"
  by (simp_all add: FlagEmpty_def FlagUsed_def int32_range_def)

lemma find_in: "find P [a..b] = Some j \<Longrightarrow> a \<le> j \<and> j \<le> b \<and> P j"
  by (auto simp: find_Some_iff in_set_conv_nth dest!: nth_mem)

text \<open>C30. The search of a record page for a flag is \<open>find\<close> over the slots behind the given one: it
  returns the first slot with the flag, or \<open>ErrNoSlotFound\<close> when there is none, and takes at most as
  many rounds as the block has slots, so that it ends.\<close>

theorem rp_searchAfter_find:
  assumes "rp_ready s p" and "- 1 \<le> slot" and "nat (nslots p s) < n"
  shows "\<exists>s'. rp_searchAfter n p slot flag s =
    ((case find (flag_is p s flag) [slot + 1..nslots p s - 1] of Some j \<Rightarrow> Inr j | None \<Rightarrow> Err ENoSlotFound), s') \<and>
    locks_only (rp_tx p) s s'"
proof -
  have "nat (nslots p s - (slot + 1)) < n" using assms(2,3) by linarith
  then show ?thesis unfolding rp_searchAfter_def using assms by (intro search_loop_find) simp_all
qed

text \<open>C31. \<open>InsertAfter\<close> takes the first empty slot behind the given one, marks it as used and changes
  no other flag and no field of any slot; when no slot is empty it fails with \<open>ErrNoSlotFound\<close> and
  changes nothing but locks.\<close>

theorem rp_InsertAfter_first_empty:
  assumes w: "rp_writable s p" and lay: "layout_wf (rp_layout p)" and "- 1 \<le> slot"
    and "nat (nslots p s) < n" and sz: "value_pos (File (rp_block p)) + 12 \<le> blockSize s"
  shows "case find (flag_is p s FlagEmpty) [slot + 1..nslots p s - 1] of
      None \<Rightarrow> \<exists>s'. rp_InsertAfter n p slot s = (Err ENoSlotFound, s') \<and> locks_only (rp_tx p) s s'
    | Some k \<Rightarrow> \<exists>s'. rp_InsertAfter n p slot s = (Inr k, s') \<and> rp_writable s' p \<and>
        (\<forall>j x. 0 \<le> j \<longrightarrow> flag_is p s' x j = (if j = k then x = FlagUsed else flag_is p s x j)) \<and>
        (\<forall>j. \<forall>f \<in> set (rp_fields p). \<forall>v. cell p s j f v \<longrightarrow> cell p s' j f v)"
proof -
  have fuel: "nat (nslots p s - (slot + 1)) < n" using assms(3,4) by linarith
  have at: "0 \<le> slot + 1" using assms(3) by linarith
  obtain s1 where s1: "rp_searchAfter n p slot FlagEmpty s =
    ((case find (flag_is p s FlagEmpty) [slot + 1..nslots p s - 1] of Some j \<Rightarrow> Inr j | None \<Rightarrow> Err ENoSlotFound), s1)"
    "locks_only (rp_tx p) s s1"
    using search_loop_find [OF rp_writable_ready [OF w] at fuel, of FlagEmpty]
    unfolding rp_searchAfter_def by blast
  note same = locks_only_same [OF s1(2)]
  show ?thesis
  proof (cases "find (flag_is p s FlagEmpty) [slot + 1..nslots p s - 1]")
    case None
    then show ?thesis using s1 by (simp add: rp_InsertAfter_def bnd_Inl)
  next
    case (Some k)
    have k: "0 \<le> k" "k < nslots p s" using find_in [OF Some] assms(3) by simp_all
    have w1: "rp_writable s1 p" by (rule rp_writable_locks_only [OF w s1(2)])
    have ns: "nslots p s1 = nslots p s" by (simp add: nslots_def same)
    have k1: "k < nslots p s1" using k ns by simp
    have sz1: "value_pos (File (rp_block p)) + 12 \<le> blockSize s1" using sz by (simp add: same)
    obtain s' where s': "rp_setFlag p k FlagUsed s1 = (Inr (), s')"
      "updates (rp_tx p) (rp_block p) (bsplice (nat (rp_offset p k)) (enc_int FlagUsed) (rp_view p s1)) s1 s'"
      by (rule rp_setFlag_spec [OF w1 k(1) k1 flag_range(2) sz1])
    note ch = rp_setFlag_change [OF w1 lay k(1) k1 flag_range(2) s'(2)]
    have eq: "flag_is p s1 x j = flag_is p s x j" "cell p s1 j f v = cell p s j f v" for x j f v
      by (simp_all add: flag_is_def cell_def same)
    have "rp_InsertAfter n p slot s = (Inr k, s')"
      using s1 Some s'(1) by (simp add: rp_InsertAfter_def bnd_Inr go_unfold)
    then show ?thesis
      using rp_writable_updates(1) [OF w1 s'(2)] ch by (simp add: Some eq)
  qed
qed

lemma rp_Delete_spec:
  assumes w: "rp_writable s p" and lay: "layout_wf (rp_layout p)" and k: "0 \<le> k" "k < nslots p s"
    and sz: "value_pos (File (rp_block p)) + 12 \<le> blockSize s"
  shows "\<exists>s'. rp_Delete p k s = (Inr (), s') \<and> rp_writable s' p \<and>
    (\<forall>j x. 0 \<le> j \<longrightarrow> flag_is p s' x j = (if j = k then x = FlagEmpty else flag_is p s x j)) \<and>
    (\<forall>j. \<forall>f \<in> set (rp_fields p). \<forall>v. cell p s j f v \<longrightarrow> cell p s' j f v)"
proof -
  obtain s' where s': "rp_setFlag p k FlagEmpty s = (Inr (), s')"
    "updates (rp_tx p) (rp_block p) (bsplice (nat (rp_offset p k)) (enc_int FlagEmpty) (rp_view p s)) s s'"
    by (rule rp_setFlag_spec [OF w k flag_range(1) sz])
  then show ?thesis
    using rp_writable_updates(1) [OF w s'(2)] rp_setFlag_change [OF w lay k flag_range(1) s'(2)]
    by (simp add: rp_Delete_def)
qed

section \<open>Formatting a block\<close>

text \<open>An unlogged write through the page.\<close>

lemma rp_update_unlogged:
  assumes w: "rp_writable s p" and off: "0 \<le> off" "off + int (length (val_enc v)) \<le> blockSize s"
    and v: "val_ok v"
  obtains s' where "tx_SetVal (rp_tx p) (rp_block p) off v False s = (Inr (), s')"
    and "updates (rp_tx p) (rp_block p) (bsplice (nat off) (val_enc v) (rp_view p s)) s s'"
proof -
  obtain i where h: "pool_inv s" "tx_holds s (rp_tx p) (rp_block p) i"
    "can_xlock s (rp_tx p) (rp_block p)" "0 \<le> rp_tx p"
    using w by (auto simp: rp_writable_def)
  have len: "int (length (rp_view p s)) = blockSize s"
    using rp_view_length [OF rp_writable_ready [OF w]] .
  have fit: "val_fits (rp_view p s) off v" using v off len by (auto simp: val_fits_def)
  show thesis by (rule tx_SetVal_unlogged [OF h fit]) (rule that)
qed

text \<open>What \<open>Format\<close> stores in a field; a date is stored as seconds and reads back in local time.\<close>

definition default_val :: "SchemaType \<Rightarrow> val" where
  "default_val ty = (if ty = Integer then VInt 0 else if ty = Long then VLong 0
     else if ty = Short then VShort 0 else if ty = Boolean then VBool False
     else if ty = Date then VDate (Time (unix time_zero) Local) else VString [])"

abbreviation rp_default :: "record_page \<Rightarrow> string \<Rightarrow> val" where
  "rp_default p f \<equiv> default_val (schema_Type (lay_schema (rp_layout p)) f)"

lemma tx_SetDate_location:
  "tx_SetDate t b off time_zero logIt = tx_SetDate t b off (Time (unix time_zero) Local) logIt"
  by (simp add: tx_SetDate_def tx_Set_def page_SetDate_def)

lemma default_val_fits:
  assumes "field_ok s f"
  shows "val_ok (default_val (schema_Type s f))"
    and "int (length (val_enc (default_val (schema_Type s f)))) \<le> size_of s f"
  using assms
  by (auto simp: field_ok_def default_val_def type_codes size_of_def lengthInBytes_def Let_def IntSize_def
      MaxLength_def int32_range_def storable_string_def utf8_string_def bytes_of_def local_time_def time_zero_def)

lemma format_field_tx:
  assumes "field_ok (lay_schema (rp_layout p)) f"
  shows "format_field p k f = tx_SetVal (rp_tx p) (rp_block p) (rp_pos p k f) (rp_default p f) False"
  using assms
  by (auto simp: format_field_def Let_def field_ok_def default_val_def type_codes tx_SetDate_location)

lemma format_field_spec:
  assumes w: "rp_writable s p" and lay: "layout_wf (rp_layout p)" and f: "f \<in> set (rp_fields p)"
    and ok: "field_ok (lay_schema (rp_layout p)) f" and k: "0 \<le> k" "k < nslots p s"
  obtains s' where "format_field p k f s = (Inr (), s')" and "rp_writable s' p" and "nslots p s' = nslots p s"
    and "cell p s' k f (rp_default p f)"
    and "\<And>j g x. g \<in> set (rp_fields p) \<Longrightarrow> (j, g) \<noteq> (k, f) \<Longrightarrow> cell p s j g x \<Longrightarrow> cell p s' j g x"
    and "\<And>j fl. 0 \<le> j \<Longrightarrow> flag_is p s' fl j = flag_is p s fl j"
proof -
  let ?v = "rp_default p f"
  note pos = field_pos [OF lay f k] and v = default_val_fits [OF ok]
  have end': "rp_pos p k f + int (length (val_enc ?v)) \<le> blockSize s" using pos v(2) by linarith
  have len: "int (length (rp_view p s)) = blockSize s" by (rule rp_view_length [OF rp_writable_ready [OF w]])
  obtain s' where s': "tx_SetVal (rp_tx p) (rp_block p) (rp_pos p k f) ?v False s = (Inr (), s')"
    "updates (rp_tx p) (rp_block p) (bsplice (nat (rp_pos p k f)) (val_enc ?v) (rp_view p s)) s s'"
    by (rule rp_update_unlogged [OF w pos(1) end' v(1)])
  have run: "format_field p k f s = (Inr (), s')" using s'(1) by (simp only: format_field_tx [OF ok])
  show thesis
    by (rule field_write [OF w lay f k v s'(2)]) (rule that [OF run])
qed

lemma format_fields_spec:
  assumes "rp_writable s p" and lay: "layout_wf (rp_layout p)" and "set fs \<subseteq> set (rp_fields p)"
    and ok: "\<forall>f \<in> set (rp_fields p). field_ok (lay_schema (rp_layout p)) f" and k: "0 \<le> k" "k < nslots p s"
  shows "\<exists>s'. for_each fs (format_field p k) s = (Inr (), s') \<and> rp_writable s' p \<and> nslots p s' = nslots p s \<and>
    (\<forall>f \<in> set fs. cell p s' k f (rp_default p f)) \<and>
    (\<forall>j g x. g \<in> set (rp_fields p) \<longrightarrow> j \<noteq> k \<or> x = rp_default p g \<longrightarrow> cell p s j g x \<longrightarrow> cell p s' j g x) \<and>
    (\<forall>j fl. 0 \<le> j \<longrightarrow> flag_is p s' fl j = flag_is p s fl j)"
  using assms(1,3) k
proof (induction fs arbitrary: s)
  case Nil
  then show ?case by (simp add: go_unfold)
next
  case (Cons f fs)
  have f: "f \<in> set (rp_fields p)" "field_ok (lay_schema (rp_layout p)) f" and fs: "set fs \<subseteq> set (rp_fields p)"
    using Cons.prems(2) ok by auto
  obtain s1 where s1: "format_field p k f s = (Inr (), s1)" "rp_writable s1 p" "nslots p s1 = nslots p s"
    "cell p s1 k f (rp_default p f)"
    and keep: "\<And>j g x. g \<in> set (rp_fields p) \<Longrightarrow> (j, g) \<noteq> (k, f) \<Longrightarrow> cell p s j g x \<Longrightarrow> cell p s1 j g x"
    and flags: "\<And>j fl. 0 \<le> j \<Longrightarrow> flag_is p s1 fl j = flag_is p s fl j"
    by (rule format_field_spec [OF Cons.prems(1) lay f Cons.prems(3,4)]) blast
  have k1: "k < nslots p s1" using s1(3) Cons.prems(4) by simp
  obtain s' where s': "for_each fs (format_field p k) s1 = (Inr (), s')" "rp_writable s' p"
    "nslots p s' = nslots p s1" and cs: "\<forall>f \<in> set fs. cell p s' k f (rp_default p f)"
    and keep': "\<forall>j g x. g \<in> set (rp_fields p) \<longrightarrow> j \<noteq> k \<or> x = rp_default p g \<longrightarrow> cell p s1 j g x \<longrightarrow> cell p s' j g x"
    and flags': "\<forall>j fl. 0 \<le> j \<longrightarrow> flag_is p s' fl j = flag_is p s1 fl j"
    using Cons.IH [OF s1(2) fs Cons.prems(3) k1] by blast
  have "cell p s1 j g x"
    if "g \<in> set (rp_fields p)" "j \<noteq> k \<or> x = rp_default p g" "cell p s j g x" for j g x
    using that keep [of g j x] s1(4) by (cases "(j, g) = (k, f)") auto
  moreover have "cell p s' k f (rp_default p f)" using keep' f(1) s1(4) by blast
  ultimately show ?case
    using s1(1,3) s' cs keep' flags flags' by (intro exI [of _ s']) (simp add: bnd_Inr)
qed

text \<open>All slots from \<open>k\<close> on are empty and hold the default values.\<close>

definition blank_from :: "record_page \<Rightarrow> 'z world_scheme \<Rightarrow> int \<Rightarrow> bool" where
  "blank_from p s k \<longleftrightarrow> (\<forall>j. k \<le> j \<longrightarrow> j < nslots p s \<longrightarrow> flag_is p s FlagEmpty j \<and>
     (\<forall>f \<in> set (rp_fields p). cell p s j f (rp_default p f)))"

lemma format_loop_spec:
  assumes "rp_writable s p" and lay: "layout_wf (rp_layout p)"
    and ok: "\<forall>f \<in> set (rp_fields p). field_ok (lay_schema (rp_layout p)) f"
    and "0 \<le> k" and "nat (nslots p s - k) < n"
  shows "\<exists>s'. format_loop n p k s = (Inr (), s') \<and> rp_writable s' p \<and> nslots p s' = nslots p s \<and>
    blank_from p s' k \<and>
    (\<forall>j fl. 0 \<le> j \<longrightarrow> j < k \<longrightarrow> flag_is p s' fl j = flag_is p s fl j) \<and>
    (\<forall>j g x. g \<in> set (rp_fields p) \<longrightarrow> j < k \<longrightarrow> cell p s j g x \<longrightarrow> cell p s' j g x)"
  using assms(1,4,5)
proof (induction n arbitrary: s k)
  case 0
  then show ?case by simp
next
  case (Suc n)
  have sz: "IntSize \<le> slotSize (rp_layout p)" using lay by (simp add: layout_wf_def Let_def)
  show ?case
  proof (cases "k < nslots p s")
    case False
    then show ?thesis
      using Suc.prems(1,2) by (intro exI [of _ s]) (simp add: isValidSlot_iff [OF sz] blank_from_def)
  next
    case True
    note off = valid_slot_offset [OF sz Suc.prems(2) True]
    have valid: "isValidSlot p s k" using True Suc.prems(2) by (simp add: isValidSlot_iff [OF sz])
    have oe: "rp_offset p k + int (length (val_enc (VInt FlagEmpty))) \<le> blockSize s"
      "val_ok (VInt FlagEmpty)" using off sz flag_range by (simp_all add: IntSize_def)
    obtain s1 where s1: "tx_SetVal (rp_tx p) (rp_block p) (rp_offset p k) (VInt FlagEmpty) False s = (Inr (), s1)"
      "updates (rp_tx p) (rp_block p) (bsplice (nat (rp_offset p k)) (val_enc (VInt FlagEmpty)) (rp_view p s)) s s1"
      by (rule rp_update_unlogged [OF Suc.prems(1) off(1) oe])
    note u1 = rp_writable_updates [OF Suc.prems(1) s1(2)]
    note c1 = rp_setFlag_change [OF Suc.prems(1) lay Suc.prems(2) True flag_range(1) s1(2) [unfolded val_enc.simps]]
    have k1: "k < nslots p s1" using u1(3) True by simp
    obtain s2 where s2: "for_each (rp_fields p) (format_field p k) s1 = (Inr (), s2)" "rp_writable s2 p"
      "nslots p s2 = nslots p s1" and cs2: "\<forall>f \<in> set (rp_fields p). cell p s2 k f (rp_default p f)"
      and keep2: "\<forall>j g x. g \<in> set (rp_fields p) \<longrightarrow> j \<noteq> k \<or> x = rp_default p g \<longrightarrow> cell p s1 j g x \<longrightarrow> cell p s2 j g x"
      and flags2: "\<forall>j fl. 0 \<le> j \<longrightarrow> flag_is p s2 fl j = flag_is p s1 fl j"
      using format_fields_spec [OF u1(1) lay subset_refl ok Suc.prems(2) k1] by blast
    have pre: "0 \<le> k + 1" "nat (nslots p s2 - (k + 1)) < n"
      using Suc.prems(2,3) True s2(3) u1(3) by simp_all
    obtain s' where s': "format_loop n p (k + 1) s2 = (Inr (), s')" "rp_writable s' p" "nslots p s' = nslots p s2"
      and bl: "blank_from p s' (k + 1)"
      and flags': "\<forall>j fl. 0 \<le> j \<longrightarrow> j < k + 1 \<longrightarrow> flag_is p s' fl j = flag_is p s2 fl j"
      and keep': "\<forall>j g x. g \<in> set (rp_fields p) \<longrightarrow> j < k + 1 \<longrightarrow> cell p s2 j g x \<longrightarrow> cell p s' j g x"
      using Suc.IH [OF s2(2) pre] by blast
    have "flag_is p s' FlagEmpty k" using flags' flags2 c1(1) Suc.prems(2) by simp
    moreover have "cell p s' k f (rp_default p f)" if "f \<in> set (rp_fields p)" for f
      using keep' cs2 that by simp
    ultimately have "blank_from p s' k"
      using bl unfolding blank_from_def by (metis add1_zle_eq antisym_conv2 zless_add1_eq)
    moreover have "format_loop (Suc n) p k s = (Inr (), s')"
      using valid s1(1) s2(1) s'(1) by (simp add: bnd_Inr)
    moreover have "flag_is p s' fl j = flag_is p s fl j" if "0 \<le> j" "j < k" for j fl
      using flags' flags2 c1(1) that by simp
    moreover have "cell p s' j g x" if "g \<in> set (rp_fields p)" "j < k" "cell p s j g x" for j g x
      using keep' keep2 c1(2) that by simp
    ultimately show ?thesis using s'(2,3) s2(3) u1(3) by auto
  qed
qed

text \<open>C32. \<open>Format\<close> of a page whose slot fits the block, with fuel for the block's slots, succeeds and
  leaves every slot empty with the zero value of its type in every field; so a search for a used
  slot then finds none.\<close>

theorem rp_Format_blank:
  assumes "rp_writable s p" and "layout_wf (rp_layout p)"
    and "\<forall>f \<in> set (rp_fields p). field_ok (lay_schema (rp_layout p)) f"
    and "slotSize (rp_layout p) \<le> blockSize s" and "nat (nslots p s) < n"
  shows "\<exists>s' s''. rp_Format n p s = (Inr (), s') \<and> rp_writable s' p \<and> nslots p s' = nslots p s \<and>
    (\<forall>j. 0 \<le> j \<longrightarrow> j < nslots p s \<longrightarrow> flag_is p s' FlagEmpty j \<and>
       (\<forall>f \<in> set (rp_fields p). cell p s' j f (default_val (schema_Type (lay_schema (rp_layout p)) f)))) \<and>
    rp_NextAfter n p (- 1) s' = (Err ENoSlotFound, s'')"
proof -
  have z: "(0 :: int) \<le> 0" "nat (nslots p s - 0) < n" using assms(5) by simp_all
  obtain s' where s': "format_loop n p 0 s = (Inr (), s')" "rp_writable s' p" "nslots p s' = nslots p s"
    "blank_from p s' 0"
    using format_loop_spec [OF assms(1-3) z] by blast
  have run: "rp_Format n p s = (Inr (), s')"
    using s'(1) assms(4) by (simp add: rp_Format_def bnd_simps tx_BlockSize_def)
  have "find (flag_is p s' FlagUsed) [0..nslots p s' - 1] = None"
    using s'(4) by (auto simp: find_None_iff blank_from_def flag_is_def FlagEmpty_def FlagUsed_def)
  moreover have "nat (nslots p s' - 0) < n" using s'(3) assms(5) by simp
  ultimately have "\<exists>s''. rp_NextAfter n p (- 1) s' = (Err ENoSlotFound, s'')"
    using search_loop_find [OF rp_writable_ready [OF s'(2)] z(1), of n FlagUsed]
    by (auto simp: rp_NextAfter_def rp_searchAfter_def)
  then show ?thesis using run s' by (simp add: blank_from_def)
qed

section \<open>A concrete page\<close>

text \<open>One integer field; eight slots of eight bytes in the block of \<open>demo_world\<close>.\<close>

definition demo_layout :: layout where
  "demo_layout = \<lparr>lay_schema = AddIntField ''id'' NewSchema, lay_offsets = [''id'' \<mapsto> 4], slotSize = 8\<rparr>"

definition demo_page :: record_page where
  "demo_page = \<lparr>rp_tx = 1, rp_block = demo_blk, rp_layout = demo_layout\<rparr>"

lemma demo_layout_new: "NewLayout (AddIntField ''id'' NewSchema) = Inr demo_layout"
  by (simp add: NewLayout_def sort_fields_def layout_in_order_def demo_layout_def AddIntField_def NewSchema_def
    Let_def lengthInBytes_def alignmentRequirement_def align_up_def IntSize_def maxAlignment_def AddField_def
    schema_Type_def sch_lookup_def)

lemma demo_layout_facts:
  "layout_wf demo_layout" "\<forall>f \<in> set (rp_fields demo_page). field_ok (lay_schema (rp_layout demo_page)) f"
  "rp_fields demo_page = [''id'']" "rp_layout demo_page = demo_layout"
  "schema_Type (lay_schema (rp_layout demo_page)) ''id'' = Integer" "rp_size demo_page ''id'' = 4"
proof -
  show f: "rp_fields demo_page = [''id'']" "rp_layout demo_page = demo_layout"
    "schema_Type (lay_schema (rp_layout demo_page)) ''id'' = Integer"
    by (simp_all add: demo_page_def demo_layout_def AddIntField_def NewSchema_def)
  then show "\<forall>f \<in> set (rp_fields demo_page). field_ok (lay_schema (rp_layout demo_page)) f"
    "rp_size demo_page ''id'' = 4"
    by (simp_all add: field_ok_def size_of_def lengthInBytes_def IntSize_def type_codes)
  have "\<forall>f \<in> set (sch_fields (AddIntField ''id'' NewSchema)). field_ok (AddIntField ''id'' NewSchema) f"
    by (simp add: AddIntField_def NewSchema_def field_ok_def)
  then have "\<forall>f \<in> set (sch_fields (sort_fields (AddIntField ''id'' NewSchema))).
      field_ok (sort_fields (AddIntField ''id'' NewSchema)) f" by simp
  then obtain l where "layout_in_order (sort_fields (AddIntField ''id'' NewSchema)) = Inr l" "layout_wf l"
    using layout_in_order_wf by blast
  then show "layout_wf demo_layout" using demo_layout_new by (simp add: NewLayout_def)
qed

lemma demo_page_writable:
  obtains s :: world where "rp_writable s demo_page" and "blockSize s = 64" and "nslots demo_page s = 8"
proof -
  obtain s :: world where s: "pool_inv s" "blockSize s = 64" "tx_holds s 1 demo_blk 0" "can_xlock s 1 demo_blk"
    by (rule demo_world) blast
  have "rp_writable s demo_page"
    using s demo_header(1) by (auto simp: rp_writable_def demo_page_def demo_layout_def IntSize_def storable_header_def)
  then show thesis
    using that s(2) by (simp add: nslots_def demo_page_def demo_layout_def)
qed

lemma rp_Format_blank_witness:
  "\<exists>s s' :: world. rp_Format 9 demo_page s = (Inr (), s') \<and> flag_is demo_page s' FlagEmpty 7"
proof -
  obtain s :: world where s: "rp_writable s demo_page" "blockSize s = 64" "nslots demo_page s = 8"
    by (rule demo_page_writable)
  have "slotSize (rp_layout demo_page) \<le> blockSize s" "nat (nslots demo_page s) < 9"
    using s by (simp_all add: demo_layout_facts demo_layout_def)
  then obtain s' :: world where "rp_Format 9 demo_page s = (Inr (), s')"
    "\<forall>j. 0 \<le> j \<longrightarrow> j < nslots demo_page s \<longrightarrow> flag_is demo_page s' FlagEmpty j \<and>
      (\<forall>f \<in> set (rp_fields demo_page). cell demo_page s' j f
        (default_val (schema_Type (lay_schema (rp_layout demo_page)) f)))"
    using rp_Format_blank [OF s(1) _ demo_layout_facts(2)] demo_layout_facts(1,4) by metis
  then show ?thesis using s(3) by (intro exI [of _ s] exI [of _ s']) simp
qed

text \<open>The same page after formatting.\<close>

lemma demo_formatted:
  obtains s :: world where "rp_writable s demo_page" and "64 \<le> blockSize s" and "nslots demo_page s = 8"
    and "blank_from demo_page s 0"
proof -
  obtain s :: world where s: "rp_writable s demo_page" "blockSize s = 64" "nslots demo_page s = 8"
    by (rule demo_page_writable)
  have z: "(0 :: int) \<le> 0" "nat (nslots demo_page s - 0) < 9" using s(3) by simp_all
  have wf: "layout_wf (rp_layout demo_page)" using demo_layout_facts by simp
  obtain s' :: world where s': "rp_writable s' demo_page" "nslots demo_page s' = nslots demo_page s"
    "blank_from demo_page s' 0"
    using format_loop_spec [OF s(1) wf demo_layout_facts(2) z] by blast
  have "8 = blockSize s' div 8"
    using s'(2) s(3) by (simp add: nslots_def demo_page_def demo_layout_def)
  then have "64 \<le> blockSize s'" by linarith
  then show thesis using that s' s(3) by simp
qed

lemma demo_blank:
  assumes "blank_from demo_page s 0" and "nslots demo_page s = 8" and "0 \<le> k" and "k < 8"
  shows "flag_is demo_page s FlagEmpty k" and "cell demo_page s k ''id'' (VInt 0)"
  using assms demo_layout_facts by (auto simp: blank_from_def default_val_def)

lemma rp_searchAfter_find_witness:
  "\<exists>s s' :: world. rp_searchAfter 9 demo_page (- 1) FlagEmpty s = (Inr 0, s')"
proof -
  obtain s :: world where s: "rp_writable s demo_page" "nslots demo_page s = 8" "blank_from demo_page s 0"
    by (rule demo_formatted)
  have "find (flag_is demo_page s FlagEmpty) [0..7] = Some 0"
    using demo_blank(1) [OF s(3,2), of 0] by (simp add: upto_rec1)
  then show ?thesis
    using rp_searchAfter_find [OF rp_writable_ready [OF s(1)], of "- 1" 9 FlagEmpty] s(2) by auto
qed

lemma rp_InsertAfter_first_empty_witness:
  "\<exists>s s' :: world. rp_InsertAfter 9 demo_page (- 1) s = (Inr 0, s') \<and> flag_is demo_page s' FlagUsed 0 \<and>
    flag_is demo_page s' FlagEmpty 1"
proof -
  obtain s :: world where s: "rp_writable s demo_page" "nslots demo_page s = 8" "blank_from demo_page s 0"
    and b: "64 \<le> blockSize s"
    by (rule demo_formatted) blast
  have "find (flag_is demo_page s FlagEmpty) [0..7] = Some 0"
    using demo_blank(1) [OF s(3,2), of 0] by (simp add: upto_rec1)
  moreover have "value_pos (File (rp_block demo_page)) + 12 \<le> blockSize s"
    using b demo_header(2) by (simp add: demo_page_def)
  ultimately obtain s' :: world where "rp_InsertAfter 9 demo_page (- 1) s = (Inr 0, s')"
    "\<forall>j x. 0 \<le> j \<longrightarrow> flag_is demo_page s' x j = (if j = 0 then x = FlagUsed else flag_is demo_page s x j)"
    using rp_InsertAfter_first_empty [OF s(1), of "- 1" 9] s(2) demo_layout_facts(1,4) by auto
  then show ?thesis using demo_blank(1) [OF s(3,2), of 1] by (intro exI [of _ s] exI [of _ s']) simp
qed

end
