(* ===== verification/Pins.thy ===== *)
theory Pins
  imports RecordPage
begin

text \<open>
  \<^verbatim>\<open>tx/buffer_list.go\<close> seen by its clients: accounting for the pins of one transaction.

  \<open>pins_are s t bs\<close>: transaction \<open>t\<close> holds exactly the pins of the list \<open>bs\<close> of blocks, one for each
  occurrence. \<open>own_buffers s t\<close> are the buffers no other transaction has pinned; pinning and unpinning
  leave that set as it is, so that a transaction with more of them than pins can always pin
  another block. So do updates and the appending of a block. \<open>calm t s s'\<close> is what such steps, and steps that only take locks, leave alone.
\<close>

section \<open>What a reading step leaves alone\<close>

definition calm :: "int \<Rightarrow> 'z world_scheme \<Rightarrow> 'z world_scheme \<Rightarrow> bool" where
  "calm t s s' \<longleftrightarrow> blockSize s' = blockSize s \<and> logFile s' = logFile s \<and>
     (\<forall>n. n \<noteq> logFile s \<longrightarrow> nblocks s' n = nblocks s n) \<and>
     (\<forall>c. in_file s c \<longrightarrow> File c \<noteq> logFile s \<longrightarrow> blk_view s' c = blk_view s c) \<and>
     (\<forall>l. log_holds s l \<longrightarrow> log_holds s' l) \<and>
     (\<forall>it recs. it_at s (logFile s) it recs \<longrightarrow> it_at s' (logFile s) it recs) \<and>
     (\<forall>c. slockable s t c \<longrightarrow> slockable s' t c) \<and> world.more s' = world.more s"

lemma calm_refl: "calm t s s"
  by (simp add: calm_def)

lemma calm_trans: "calm t s s' \<Longrightarrow> calm t s' s'' \<Longrightarrow> calm t s s''"
  unfolding calm_def by (auto simp: in_file_def)

lemma calm_in_file: "calm t s s' \<Longrightarrow> File c \<noteq> logFile s \<Longrightarrow> in_file s' c = in_file s c"
  by (simp add: calm_def in_file_def)

lemma calm_locks_only: "locks_only t s s' \<Longrightarrow> calm t s s'"
proof -
  assume l: "locks_only t s s'"
  obtain lt own where s': "s' = txn_upd t (\<lambda>x. x\<lparr>tx_own := own\<rparr>) (s\<lparr>locks := lt\<rparr>)"
    using l unfolding locks_only_def by blast
  then have "world.more s' = world.more s" "\<And>l. log_holds s' l = log_holds s l"
    "\<And>lf it recs. it_at s' lf it recs = it_at s lf it recs" by simp_all (simp add: txn_upd_def)
  then show ?thesis
    using locks_only_same [OF l] locks_only_lock(3) [OF l] by (simp add: calm_def)
qed

text \<open>Pinning and unpinning leave the locks alone, too.\<close>

definition same_locks :: "'z world_scheme \<Rightarrow> 'z world_scheme \<Rightarrow> bool" where
  "same_locks s s' \<longleftrightarrow> locks s' = locks s \<and> (\<forall>u. tx_own (txns s' u) = tx_own (txns s u))"

section \<open>Accounting\<close>

definition held_in :: "'z world_scheme \<Rightarrow> int \<Rightarrow> nat \<Rightarrow> bool" where
  "held_in s t i \<longleftrightarrow> (\<exists>b c. map_of (tx_bufs (txns s t)) b = Some (i, c))"

definition pins_are :: "'z world_scheme \<Rightarrow> int \<Rightarrow> block_id list \<Rightarrow> bool" where
  "pins_are s t bs \<longleftrightarrow> (\<forall>b. map_of (tx_bufs (txns s t)) b = None \<longleftrightarrow> b \<notin> set bs) \<and>
     (\<forall>b i c. map_of (tx_bufs (txns s t)) b = Some (i, c) \<longrightarrow> c = int (count_list bs b) \<and>
       i < length (bufferPool s) \<and> buf_block (bufferPool s ! i) = Some b \<and> 0 < pins (bufferPool s ! i))"

definition own_buffers :: "'z world_scheme \<Rightarrow> int \<Rightarrow> nat set" where
  "own_buffers s t = {i. i < length (bufferPool s) \<and> pins (bufferPool s ! i) = (if held_in s t i then 1 else 0)}"

lemma pins_are_none: "pins_are s t bs \<Longrightarrow> map_of (tx_bufs (txns s t)) b = None \<longleftrightarrow> b \<notin> set bs"
  by (simp add: pins_are_def)

lemma pins_areI:
  assumes "\<And>b. map_of (tx_bufs (txns s t)) b = None \<longleftrightarrow> b \<notin> set bs"
    and "\<And>b i c. map_of (tx_bufs (txns s t)) b = Some (i, c) \<Longrightarrow> c = int (count_list bs b) \<and>
       i < length (bufferPool s) \<and> buf_block (bufferPool s ! i) = Some b \<and> 0 < pins (bufferPool s ! i)"
  shows "pins_are s t bs"
  using assms unfolding pins_are_def by blast

lemma pins_are_entry:
  assumes "pins_are s t bs" and "map_of (tx_bufs (txns s t)) b = Some (i, c)"
  shows "b \<in> set bs" and "c = int (count_list bs b)" and "i < length (bufferPool s)"
    and "buf_block (bufferPool s ! i) = Some b" and "0 < pins (bufferPool s ! i)"
  using assms(2) pins_are_none [OF assms(1), of b] assms(1) unfolding pins_are_def by auto

lemma pins_are_holds:
  assumes "pins_are s t bs" and "b \<in> set bs"
  obtains i where "tx_holds s t b i"
proof -
  obtain i c where e: "map_of (tx_bufs (txns s t)) b = Some (i, c)"
    using pins_are_none [OF assms(1), of b] assms(2) by auto
  have "1 \<le> c" using pins_are_entry(2) [OF assms(1) e] assms(2) count_list_0_iff [of bs b] by linarith
  then have "tx_holds s t b i" using e pins_are_entry(3,4) [OF assms(1) e] by (auto simp: tx_holds_def)
  then show thesis by (rule that)
qed

lemma held_in_unique:
  assumes "pins_are s t bs" and "map_of (tx_bufs (txns s t)) b = Some (i, c)"
    and "map_of (tx_bufs (txns s t)) b' = Some (i, c')"
  shows "b' = b"
  using pins_are_entry(4) [OF assms(1,2)] pins_are_entry(4) [OF assms(1,3)] by simp

lemma pins_are_cong:
  assumes "map_of (tx_bufs (txns s' t)) = map_of (tx_bufs (txns s t))" and "bufferPool s' = bufferPool s"
  shows "pins_are s' t bs = pins_are s t bs" and "own_buffers s' t = own_buffers s t"
  using assms by (simp_all add: pins_are_def own_buffers_def held_in_def)

text \<open>There is a buffer to pin as long as the transaction has fewer pins than buffers of its own.\<close>

lemma spare_buffer:
  assumes p: "pins_are s t bs" and room: "length bs < card (own_buffers s t)"
  shows "\<exists>i < length (bufferPool s). pins (bufferPool s ! i) = 0"
proof (rule ccontr)
  assume none: "\<not> ?thesis"
  define ix where "ix = (\<lambda>b. fst (the (map_of (tx_bufs (txns s t)) b)))"
  have "own_buffers s t \<subseteq> ix ` set bs"
  proof
    fix i
    assume i: "i \<in> own_buffers s t"
    then have "held_in s t i" using none by (auto simp: own_buffers_def split: if_splits)
    then obtain b c where e: "map_of (tx_bufs (txns s t)) b = Some (i, c)" by (auto simp: held_in_def)
    then have "ix b = i" by (simp add: ix_def)
    then show "i \<in> ix ` set bs" using pins_are_entry(1) [OF p e] by blast
  qed
  then have "card (own_buffers s t) \<le> card (ix ` set bs)" by (intro card_mono) simp_all
  also have "\<dots> \<le> card (set bs)" by (intro card_image_le) simp
  also have "\<dots> \<le> length bs" by (rule card_length)
  finally show False using room by simp
qed

lemma calm_pool:
  assumes "pool_frame s s'"
  shows "calm t s (txn_upd t (\<lambda>x. x\<lparr>tx_bufs := l\<rparr>) s')"
proof -
  have m: "pool_state.more s' = pool_state.more s" using assms by (simp add: pool_frame_def)
  have "world.more s' = world.more s" using m by (cases s; cases s'; simp)
  then show ?thesis
    using assms more_world [OF m]
    by (simp add: calm_def pool_frame_def slockable_def) (simp add: txn_upd_def)
qed

lemma set_count: "x \<in> set xs \<longleftrightarrow> 0 < count_list xs x"
  using count_list_0_iff [of xs x] by (metis gr0I not_gr0)

section \<open>Unpinning\<close>

lemma tx_Unpin_spec:
  assumes inv: "pool_inv s" and p: "pins_are s t (b # bs)"
  obtains s' where "tx_Unpin t b s = (Inr (), s')" and "pool_inv s'" and "pins_are s' t bs"
    and "own_buffers s' t = own_buffers s t" and "calm t s s'" and "same_locks s s'"
proof -
  obtain i c where e: "map_of (tx_bufs (txns s t)) b = Some (i, c)"
    using pins_are_none [OF p, of b] by auto
  note ent = pins_are_entry [OF p e]
  have keep: "c' = int (count_list bs b') \<and> j < length (bufferPool s) \<and> buf_block (bufferPool s ! j) = Some b' \<and>
      0 < pins (bufferPool s ! j)" if "map_of (tx_bufs (txns s t)) b' = Some (j, c')" "b' \<noteq> b" for b' j c'
    using pins_are_entry [OF p that(1)] that(2) by simp
  have none: "map_of (tx_bufs (txns s t)) b' = None \<longleftrightarrow> b' \<noteq> b \<and> b' \<notin> set bs" for b'
    using pins_are_none [OF p, of b'] by simp
  show thesis
  proof (cases "b \<in> set bs")
    case True
    let ?s' = "txn_upd t (\<lambda>x. x\<lparr>tx_bufs := AList.update b (i, c - 1) (tx_bufs x)\<rparr>) s"
    have c: "\<not> c - 1 \<le> 0" using ent(2) True set_count [of b bs] by simp
    have run: "tx_Unpin t b s = (Inr (), ?s')"
      using e c by (simp add: tx_Unpin_def bl_Unpin_def bnd_simps bl_set_def go_unfold)
    have m: "map_of (tx_bufs (txns ?s' t)) = (map_of (tx_bufs (txns s t)))(b \<mapsto> (i, c - 1))"
      by (simp add: update_conv')
    have "pins_are ?s' t bs"
    proof (rule pins_areI, unfold m)
      show "((map_of (tx_bufs (txns s t)))(b \<mapsto> (i, c - 1))) b' = None \<longleftrightarrow> b' \<notin> set bs" for b'
        using none [of b'] True by (cases "b' = b") simp_all
      show "c' = int (count_list bs b') \<and> j < length (bufferPool ?s') \<and>
          buf_block (bufferPool ?s' ! j) = Some b' \<and> 0 < pins (bufferPool ?s' ! j)"
        if "((map_of (tx_bufs (txns s t)))(b \<mapsto> (i, c - 1))) b' = Some (j, c')" for b' j c'
        using that keep [of b' j c'] ent by (cases "b' = b") auto
    qed
    moreover have "held_in ?s' t j = held_in s t j" for j
    proof
      show "held_in s t j" if "held_in ?s' t j"
        using that e unfolding held_in_def m by (auto split: if_splits)
      show "held_in ?s' t j" if h: "held_in s t j"
      proof -
        obtain b' c' where b': "map_of (tx_bufs (txns s t)) b' = Some (j, c')" using h by (auto simp: held_in_def)
        then show ?thesis using e unfolding held_in_def m
          by (cases "b' = b") (auto intro: exI [of _ b'])
      qed
    qed
    then have "own_buffers ?s' t = own_buffers s t" by (simp add: own_buffers_def)
    moreover have "calm t s ?s'" using calm_pool [OF pool_frame_refl [of s]] by (simp add: txn_upd_def)
    ultimately show thesis using run inv by (intro that [of ?s']) (simp_all add: same_locks_def)
  next
    case False
    have c: "c - 1 \<le> 0" using ent(2) False set_count [of b bs] by simp
    obtain s1 where s1: "bm_Unpin i s = (Inr (), s1)" "pool_inv s1" "pool_frame s s1"
      "bufferPool s1 = (bufferPool s)[i := (bufferPool s ! i)\<lparr>pins := pins (bufferPool s ! i) - 1\<rparr>]"
      by (rule bm_Unpin_spec [OF inv ent(3,5)]) blast
    have m1: "pool_state.more s1 = pool_state.more s" using s1(3) by (simp add: pool_frame_def)
    note tx = more_world(2,1) [OF m1]
    let ?s' = "txn_upd t (\<lambda>x. x\<lparr>tx_bufs := AList.delete b (tx_bufs x)\<rparr>) s1"
    have run: "tx_Unpin t b s = (Inr (), ?s')"
      using e c s1(1) by (simp add: tx_Unpin_def bl_Unpin_def bnd_simps bnd_Inr go_unfold)
    have m: "map_of (tx_bufs (txns ?s' t)) = (map_of (tx_bufs (txns s t)))(b := None)"
      by (simp add: tx delete_conv')
    have other: "j \<noteq> i" if "map_of (tx_bufs (txns s t)) b' = Some (j, c')" "b' \<noteq> b" for j b' c'
      using held_in_unique [OF p e] that by blast
    have "pins_are ?s' t bs"
    proof (rule pins_areI, unfold m)
      show "((map_of (tx_bufs (txns s t)))(b := None)) b' = None \<longleftrightarrow> b' \<notin> set bs" for b'
        using none [of b'] False by (cases "b' = b") simp_all
      show "c' = int (count_list bs b') \<and> j < length (bufferPool ?s') \<and>
          buf_block (bufferPool ?s' ! j) = Some b' \<and> 0 < pins (bufferPool ?s' ! j)"
        if "((map_of (tx_bufs (txns s t)))(b := None)) b' = Some (j, c')" for b' j c'
      proof -
        have b': "map_of (tx_bufs (txns s t)) b' = Some (j, c')" "b' \<noteq> b"
          using that by (simp_all split: if_splits)
        show ?thesis using keep [OF b'] other [OF b'] by (simp add: s1(4))
      qed
    qed
    moreover have held: "held_in ?s' t j \<longleftrightarrow> held_in s t j \<and> j \<noteq> i" for j
    proof
      show "held_in s t j \<and> j \<noteq> i" if h: "held_in ?s' t j"
      proof -
        obtain b' c' where "map_of (tx_bufs (txns s t)) b' = Some (j, c')" "b' \<noteq> b"
          using h unfolding held_in_def m by (auto split: if_splits)
        then show ?thesis using other by (auto simp: held_in_def)
      qed
      show "held_in ?s' t j" if h: "held_in s t j \<and> j \<noteq> i"
      proof -
        obtain b' c' where b': "map_of (tx_bufs (txns s t)) b' = Some (j, c')" using h by (auto simp: held_in_def)
        then have "b' \<noteq> b" using e h by auto
        then show ?thesis using b' unfolding held_in_def m by (intro exI [of _ b']) simp
      qed
    qed
    have "held_in s t i" using e by (auto simp: held_in_def)
    then have "own_buffers ?s' t = own_buffers s t"
      using ent(3) by (auto simp: own_buffers_def held s1(4) nth_list_update)
    moreover have "calm t s ?s'" using calm_pool [OF s1(3)] by (simp add: txn_upd_def)
    ultimately show thesis using run s1(2) by (intro that [of ?s']) (simp_all add: same_locks_def tx)
  qed
qed

section \<open>Pinning\<close>

lemma tx_Pin_spec:
  assumes inv: "pool_inv s" and p: "pins_are s t bs" and room: "length bs < card (own_buffers s t)"
    and blk: "in_file s b" "File b \<noteq> logFile s"
  obtains s' where "tx_Pin t b s = (Inr (), s')" and "pool_inv s'" and "pins_are s' t (b # bs)"
    and "own_buffers s' t = own_buffers s t" and "calm t s s'" and "same_locks s s'"
proof (cases "map_of (tx_bufs (txns s t)) b")
  case (Some e)
  obtain i c where e: "map_of (tx_bufs (txns s t)) b = Some (i, c)" using Some by (cases e) simp
  note ent = pins_are_entry [OF p e]
  let ?s' = "txn_upd t (\<lambda>x. x\<lparr>tx_bufs := AList.update b (i, c + 1) (tx_bufs x)\<rparr>) s"
  have run: "tx_Pin t b s = (Inr (), ?s')"
    using e by (simp add: tx_Pin_def bl_Pin_def bnd_simps bl_set_def go_unfold)
  have m: "map_of (tx_bufs (txns ?s' t)) = (map_of (tx_bufs (txns s t)))(b \<mapsto> (i, c + 1))"
    by (simp add: update_conv')
  have "pins_are ?s' t (b # bs)"
  proof (rule pins_areI, unfold m)
    show "((map_of (tx_bufs (txns s t)))(b \<mapsto> (i, c + 1))) b' = None \<longleftrightarrow> b' \<notin> set (b # bs)" for b'
      using pins_are_none [OF p, of b'] by (cases "b' = b") simp_all
    show "c' = int (count_list (b # bs) b') \<and> j < length (bufferPool ?s') \<and>
        buf_block (bufferPool ?s' ! j) = Some b' \<and> 0 < pins (bufferPool ?s' ! j)"
      if "((map_of (tx_bufs (txns s t)))(b \<mapsto> (i, c + 1))) b' = Some (j, c')" for b' j c'
      using that pins_are_entry [OF p, of b' j c'] ent by (cases "b' = b") auto
  qed
  moreover have "held_in ?s' t j = held_in s t j" for j
  proof
    show "held_in s t j" if "held_in ?s' t j"
      using that e unfolding held_in_def m by (auto split: if_splits)
    show "held_in ?s' t j" if h: "held_in s t j"
    proof -
      obtain b' c' where b': "map_of (tx_bufs (txns s t)) b' = Some (j, c')" using h by (auto simp: held_in_def)
      then show ?thesis using e unfolding held_in_def m
        by (cases "b' = b") (auto intro: exI [of _ b'])
    qed
  qed
  then have "own_buffers ?s' t = own_buffers s t" by (simp add: own_buffers_def)
  moreover have "calm t s ?s'" using calm_pool [OF pool_frame_refl [of s]] by (simp add: txn_upd_def)
  ultimately show thesis using run inv by (intro that [of ?s']) (simp_all add: same_locks_def)
next
  case None
  have new: "b \<notin> set bs" using None pins_are_none [OF p] by blast
  obtain k where k: "k < length (bufferPool s)" "pins (bufferPool s ! k) = 0"
    using spare_buffer [OF p room] by blast
  obtain s1 i where s1: "bm_tryToPin naive_choose b s = (Inr (Some i), s1)" "pool_inv s1" "pool_frame s s1"
    "i < length (bufferPool s1)" "buf_block (bufferPool s1 ! i) = Some b" "0 < pins (bufferPool s1 ! i)"
    "\<And>j. j < length (bufferPool s) \<Longrightarrow> j \<noteq> i \<Longrightarrow> bufferPool s1 ! j = bufferPool s ! j"
    "pins (bufferPool s1 ! i) = pins (bufferPool s ! i) + 1"
    "buf_block (bufferPool s ! i) = Some b \<or> pins (bufferPool s ! i) = 0"
  proof (cases rule: naive.tryToPin_spec [OF inv blk])
    case (1 s1 i)
    then show ?thesis by (rule that)
  next
    case 2
    then have "0 < pins (bufferPool s ! k)" using nth_mem [OF k(1)] by (auto simp: isPinned_def)
    then show ?thesis using k(2) by simp
  qed
  have m1: "pool_state.more s1 = pool_state.more s" and len: "length (bufferPool s1) = length (bufferPool s)"
    using s1(3) by (simp_all add: pool_frame_def)
  note tx = more_world(2,1) [OF m1]
  let ?s' = "txn_upd t (\<lambda>x. x\<lparr>tx_bufs := AList.update b (i, 1) (tx_bufs x)\<rparr>) s1"
  have run: "tx_Pin t b s = (Inr (), ?s')"
    using None s1(1) by (simp add: tx_Pin_def bl_Pin_def bm_Pin_def bnd_simps bnd_Inr bl_set_def go_unfold)
  have m: "map_of (tx_bufs (txns ?s' t)) = (map_of (tx_bufs (txns s t)))(b \<mapsto> (i, 1))"
    by (simp add: tx update_conv')
  have other: "j \<noteq> i" if e: "map_of (tx_bufs (txns s t)) b' = Some (j, c')" for b' j c'
  proof
    assume "j = i"
    then have "b' = b" using pins_are_entry(4,5) [OF p e] s1(9) by auto
    then show False using e None by simp
  qed
  have "pins_are ?s' t (b # bs)"
  proof (rule pins_areI, unfold m)
    show "((map_of (tx_bufs (txns s t)))(b \<mapsto> (i, 1))) b' = None \<longleftrightarrow> b' \<notin> set (b # bs)" for b'
      using pins_are_none [OF p, of b'] by (cases "b' = b") simp_all
    show "c' = int (count_list (b # bs) b') \<and> j < length (bufferPool ?s') \<and>
        buf_block (bufferPool ?s' ! j) = Some b' \<and> 0 < pins (bufferPool ?s' ! j)"
      if q: "((map_of (tx_bufs (txns s t)))(b \<mapsto> (i, 1))) b' = Some (j, c')" for b' j c'
    proof (cases "b' = b")
      case True
      then show ?thesis using q new s1(4-6) set_count [of b bs] by simp
    next
      case False
      then have e: "map_of (tx_bufs (txns s t)) b' = Some (j, c')" using q by simp
      show ?thesis using pins_are_entry [OF p e] other [OF e] s1(7) [of j] len False by simp
    qed
  qed
  moreover have held: "held_in ?s' t j \<longleftrightarrow> held_in s t j \<or> j = i" for j
  proof
    show "held_in s t j \<or> j = i" if "held_in ?s' t j"
      using that unfolding held_in_def m by (auto split: if_splits)
    show "held_in ?s' t j" if h: "held_in s t j \<or> j = i"
    proof (cases "j = i")
      case True
      then show ?thesis unfolding held_in_def m by (intro exI [of _ b]) simp
    next
      case False
      then obtain b' c' where b': "map_of (tx_bufs (txns s t)) b' = Some (j, c')" using h by (auto simp: held_in_def)
      then have "b' \<noteq> b" using None by auto
      then show ?thesis using b' unfolding held_in_def m by (intro exI [of _ b']) simp
    qed
  qed
  have "\<not> held_in s t i" using other by (auto simp: held_in_def)
  then have "j \<in> own_buffers ?s' t \<longleftrightarrow> j \<in> own_buffers s t" for j
    using s1(7) [of j] s1(8) len by (cases "j = i") (simp_all add: own_buffers_def held, auto)
  then have "own_buffers ?s' t = own_buffers s t" by blast
  moreover have "calm t s ?s'" using calm_pool [OF s1(3)] by (simp add: txn_upd_def)
  ultimately show thesis using run s1(2) by (intro that [of ?s']) (simp_all add: same_locks_def tx)
qed

section \<open>Updates and steps that only read files\<close>

lemma updates_own:
  assumes u: "updates w b p s s'"
  shows "own_buffers s' t = own_buffers s t"
proof -
  have m: "map_of (tx_bufs (txns s' t)) = map_of (tx_bufs (txns s t))" and pn: "same_pins s s'"
    using u by (simp_all add: updates_def)
  show ?thesis using pn by (auto simp: own_buffers_def held_in_def m same_pins_def)
qed

lemma updates_pins:
  assumes u: "updates w b p s s'" and pi: "pins_are s t bs"
  shows "pins_are s' t bs" and "own_buffers s' t = own_buffers s t"
proof -
  have m: "map_of (tx_bufs (txns s' t)) = map_of (tx_bufs (txns s t))" and pn: "same_pins s s'"
    and h: "\<And>c i. tx_holds s t c i \<Longrightarrow> tx_holds s' t c i"
    using u by (simp_all add: updates_def)
  show "pins_are s' t bs"
  proof (rule pins_areI, unfold m)
    show "map_of (tx_bufs (txns s t)) b' = None \<longleftrightarrow> b' \<notin> set bs" for b' by (rule pins_are_none [OF pi])
    show "c = int (count_list bs b') \<and> i < length (bufferPool s') \<and> buf_block (bufferPool s' ! i) = Some b' \<and>
        0 < pins (bufferPool s' ! i)" if e: "map_of (tx_bufs (txns s t)) b' = Some (i, c)" for b' i c
    proof -
      note ent = pins_are_entry [OF pi e]
      have "tx_holds s t b' i"
        using e ent set_count [of b' bs] by (auto simp: tx_holds_def)
      then have "tx_holds s' t b' i" by (rule h)
      then show ?thesis using ent pn by (simp add: tx_holds_def same_pins_def)
    qed
  qed
  show "own_buffers s' t = own_buffers s t" by (rule updates_own [OF u])
qed

lemma quiet_pins:
  assumes "quiet s s'"
  shows "pins_are s' t bs = pins_are s t bs" and "own_buffers s' t = own_buffers s t"
  using pins_are_cong [of s' t s] quiet_same(12,13) [OF assms] more_world(2) [of s' s] by auto

section \<open>Appending a block\<close>

lemma pool_inv_appended:
  assumes inv: "pool_inv s" and fr: "fm_frame s s'" and wf: "fm_wf s'" and n: "n \<noteq> logFile s"
    and nb: "\<And>m. nblocks s' m = (if m = n then nblocks s n + 1 else nblocks s m)"
    and db: "\<And>c. in_file s c \<Longrightarrow> disk_block s' c = disk_block s c"
  shows "pool_inv s'" and "\<And>c. in_file s c \<Longrightarrow> blk_view s' c = blk_view s c"
    and "blk_view s' (NewBlockId n (nblocks s n)) = disk_block s' (NewBlockId n (nblocks s n))"
    and "bufferPool s' = bufferPool s" and "pool_state.more s' = pool_state.more s"
proof -
  have p: "bufferPool s' = bufferPool s" "numAvailable s' = numAvailable s" "pool_state.more s' = pool_state.more s"
    using lm_frame_pool [OF lm_frame_fm [OF fr]] by simp_all
  then show "bufferPool s' = bufferPool s" "pool_state.more s' = pool_state.more s" by simp_all
  have same: "blockSize s' = blockSize s" "logFile s' = logFile s" using fr by simp_all
  have inf: "in_file s c \<Longrightarrow> in_file s' c" for c by (auto simp: in_file_def nb)
  have ok: "buf_ok s b \<Longrightarrow> buf_ok s' b" for b
    using inf db by (auto simp: buf_ok_def same split: option.splits)
  obtain recss cur where l: "lm_inv s recss cur" using inv by (auto simp: pool_inv_def log_holds_def)
  have "lm_inv s' recss cur" by (rule lm_inv_fm [OF l fr wf]) (use n in \<open>auto simp: nb intro: db\<close>)
  then show "pool_inv s'" using inv ok by (auto simp: pool_inv_def log_holds_def p)
  show "blk_view s' c = blk_view s c" if "in_file s c" for c
    using that by (simp add: blk_view_def p db split: option.splits)
  have "findExistingBuffer (bufferPool s) (NewBlockId n (nblocks s n)) = None"
    unfolding findExistingBuffer_None
  proof (intro allI impI notI)
    fix i
    assume i: "i < length (bufferPool s)" "buf_block (bufferPool s ! i) = Some (NewBlockId n (nblocks s n))"
    then have "buf_ok s (bufferPool s ! i)" using pool_inv_buf_ok [OF inv] by simp
    then show False using i(2) by (simp add: buf_ok_def in_file_def NewBlockId_def)
  qed
  then show "blk_view s' (NewBlockId n (nblocks s n)) = disk_block s' (NewBlockId n (nblocks s n))"
    by (simp add: blk_view_def p)
qed

lemma tx_Append_spec:
  assumes inv: "pool_inv s" and can: "can_xlock s t (NewBlockId n EndOfFile)" and n: "n \<noteq> logFile s"
  obtains s' where "tx_Append t n s = (Inr (NewBlockId n (nblocks s n)), s')" and "pool_inv s'"
    and "blockSize s' = blockSize s" and "logFile s' = logFile s"
    and "\<And>m. nblocks s' m = (if m = n then nblocks s n + 1 else nblocks s m)"
    and "\<And>c. in_file s c \<Longrightarrow> blk_view s' c = blk_view s c"
    and "blk_view s' (NewBlockId n (nblocks s n)) = replicate (nat (blockSize s)) 0"
    and "\<And>c. can_xlock s t c \<Longrightarrow> can_xlock s' t c"
    and "\<And>bs. pins_are s' t bs = pins_are s t bs" and "own_buffers s' t = own_buffers s t"
proof -
  obtain s1 where s1: "tx_XLock t (NewBlockId n EndOfFile) s = (Inr (), s1)" "pool_inv s1"
    "bufferPool s1 = bufferPool s" "blockSize s1 = blockSize s" "logFile s1 = logFile s"
    and x1: "\<And>n. nblocks s1 n = nblocks s n" "\<And>c. in_file s1 c = in_file s c" "\<And>c. blk_view s1 c = blk_view s c"
      "\<And>u. tx_bufs (txns s1 u) = tx_bufs (txns s u)" "\<And>c. can_xlock s t c \<Longrightarrow> can_xlock s1 t c"
    by (rule tx_XLock_frame [OF inv can]) blast
  have wf: "fm_wf s1" using s1(2) by (auto simp: pool_inv_def log_holds_def lm_inv_def)
  obtain s2 where s2: "fm_Append n s1 = (Inr (NewBlockId n (nblocks s1 n)), s2)" and fr: "fm_frame s1 s2" and wf2: "fm_wf s2"
    and nb: "\<And>m. nblocks s2 m = (if m = n then nblocks s1 n + 1 else nblocks s1 m)"
    and new: "disk_block s2 (NewBlockId n (nblocks s1 n)) = replicate (nat (blockSize s1)) 0"
    and db: "\<And>c. in_file s1 c \<Longrightarrow> disk_block s2 c = disk_block s1 c"
    by (rule fm_Append_spec [OF wf, of n]) blast
  have n1: "n \<noteq> logFile s1" using n s1(5) by simp
  note ap = pool_inv_appended [OF s1(2) fr wf2 n1 nb db]
  have m: "txns s2 = txns s1" "locks s2 = locks s1" using more_world [OF ap(5)] by simp_all
  have pc: "map_of (tx_bufs (txns s2 t)) = map_of (tx_bufs (txns s t))" "bufferPool s2 = bufferPool s"
    using m ap(4) s1(3) x1(4) by simp_all
  show thesis
  proof (rule that)
    show "tx_Append t n s = (Inr (NewBlockId n (nblocks s n)), s2)"
      using s1(1) s2 x1(1) by (simp add: tx_Append_def bnd_def)
    show "blockSize s2 = blockSize s" "logFile s2 = logFile s" using fr s1(4,5) by simp_all
    show "blk_view s2 (NewBlockId n (nblocks s n)) = replicate (nat (blockSize s)) 0"
      using ap(3) new s1(4) x1(1) by simp
    show "can_xlock s2 t c" if "can_xlock s t c" for c
      using x1(5) [OF that] m by (simp add: can_xlock_def x_locked_def)
  qed (use ap nb x1 pins_are_cong [OF pc] in simp_all)
qed

end
