(* ===== verification/Recovery.thy ===== *)
theory Recovery
  imports Pins
begin

text \<open>
  Recovery after a crash (\<open>doRecover\<close> of \<^verbatim>\<open>tx/recovery_manager.go\<close>), and how far a rollback reaches.

  \<open>losers\<close> is the specification of the scan of the log: the updates to undo, newest first. The loop is
  shown to undo exactly these. The records hold the bytes that an update overwrote, so undoing them
  all restores the contents from before the updates whichever of them had reached the disk.
\<close>

section \<open>Undoing an update of a block that is not pinned\<close>

definition can_undo :: "'z world_scheme \<Rightarrow> int \<Rightarrow> update \<Rightarrow> bool" where
  "can_undo s t u = (case u of (b, off, v) \<Rightarrow> in_file s b \<and> File b \<noteq> logFile s \<and> can_xlock s t b \<and>
     val_ok v \<and> 0 \<le> off \<and> nat off + length (val_enc v) \<le> nat (blockSize s))"

text \<open>A transaction that holds no pin, and for which a buffer is free.\<close>

definition idle :: "'z world_scheme \<Rightarrow> int \<Rightarrow> bool" where
  "idle s t \<longleftrightarrow> pool_inv s \<and> pins_are s t [] \<and> 0 < card (own_buffers s t)"

definition undone :: "int \<Rightarrow> update list \<Rightarrow> 'z world_scheme \<Rightarrow> 'z world_scheme \<Rightarrow> bool" where
  "undone t us s s' \<longleftrightarrow> idle s' t \<and> blockSize s' = blockSize s \<and> logFile s' = logFile s \<and>
     (\<forall>n. n \<noteq> logFile s \<longrightarrow> nblocks s' n = nblocks s n) \<and>
     (\<forall>l. log_holds s l \<longrightarrow> log_holds s' l) \<and>
     (\<forall>it l. it_at s (logFile s) it l \<longrightarrow> it_at s' (logFile s) it l) \<and>
     (\<forall>c. can_xlock s t c \<longrightarrow> can_xlock s' t c) \<and>
     (\<forall>c. in_file s c \<longrightarrow> File c \<noteq> logFile s \<longrightarrow> blk_view s' c = foldl (\<lambda>V u. update_view u V) (blk_view s) us c)"

lemma undone_trans:
  assumes a: "undone t us s s'" and b: "undone t vs s' s''"
  shows "undone t (us @ vs) s s''"
proof -
  have "blk_view s'' c = foldl (\<lambda>V u. update_view u V) (blk_view s) (us @ vs) c"
    if c: "in_file s c" "File c \<noteq> logFile s" for c
  proof -
    have "blk_view s' c = foldl (\<lambda>V u. update_view u V) (blk_view s) us c" "in_file s' c" "File c \<noteq> logFile s'"
      using a c by (simp_all add: undone_def in_file_def)
    then show ?thesis
      using b foldl_update_view [of "blk_view s'" c "foldl (\<lambda>V u. update_view u V) (blk_view s) us" vs]
      by (simp add: undone_def)
  qed
  then show ?thesis using a b by (simp add: undone_def)
qed

lemma undone_quiet:
  assumes "quiet s s'" and "idle s t"
  shows "undone t [] s s'"
  using assms(2) quiet_same [OF assms(1)] quiet_pins [OF assms(1)] by (simp add: undone_def idle_def)

lemma undone_can_undo: "undone t us s s' \<Longrightarrow> can_undo s t u \<Longrightarrow> can_undo s' t u"
  by (cases u) (auto simp: undone_def can_undo_def in_file_def)

lemma undo_unpinned:
  assumes i: "idle s t" and t: "0 \<le> t" and can: "can_undo s t (b, off, v)"
  shows "\<exists>s'. Undo (val_rec u b off v) t s = (Inr (), s') \<and> undone t [(b, off, v)] s s'"
proof -
  have inv: "pool_inv s" and p: "pins_are s t []" and room: "length [] < card (own_buffers s t)"
    using i by (simp_all add: idle_def)
  have blk: "in_file s b" "File b \<noteq> logFile s" and x: "can_xlock s t b"
    and v: "val_ok v" "0 \<le> off" "nat off + length (val_enc v) \<le> nat (blockSize s)"
    using can by (simp_all add: can_undo_def)
  obtain s1 where s1: "tx_Pin t b s = (Inr (), s1)" "pool_inv s1" "pins_are s1 t [b]"
    "own_buffers s1 t = own_buffers s t" and calm1: "calm t s s1" and lk1: "same_locks s s1"
    by (rule tx_Pin_spec [OF inv p room blk]) blast
  obtain i where hold: "tx_holds s1 t b i" by (rule pins_are_holds [OF s1(3)]) auto
  have x1: "can_xlock s1 t c = can_xlock s t c" for c
    using lk1 by (simp add: same_locks_def can_xlock_def x_locked_def)
  have fit: "val_fits (blk_view s1 b) off v"
    using v tx_holds_data(3) [OF s1(2) hold] calm1 by (simp add: val_fits_def calm_def)
  obtain s2 where set: "tx_SetVal t b off v False s1 = (Inr (), s2)"
    and up: "updates t b (bsplice (nat off) (val_enc v) (blk_view s1 b)) s1 s2"
    and l2: "\<And>l. log_holds s2 l = log_holds s1 l"
    and it2: "\<And>lf it recs. it_at s2 lf it recs = it_at s1 lf it recs"
    by (rule tx_SetVal_unlogged [OF s1(2) hold _ t fit]) (use x x1 in auto)
  have inv2: "pool_inv s2" using up by (simp add: updates_def)
  note p2 = updates_pins [OF up s1(3)]
  obtain s3 where s3: "tx_Unpin t b s2 = (Inr (), s3)" "pool_inv s3" "pins_are s3 t []"
    "own_buffers s3 t = own_buffers s2 t" and calm3: "calm t s2 s3" and lk3: "same_locks s2 s3"
    by (rule tx_Unpin_spec [OF inv2 p2(1)]) blast
  have x3: "can_xlock s3 t c = can_xlock s2 t c" for c
    using lk3 by (simp add: same_locks_def can_xlock_def x_locked_def)
  have run: "Undo (val_rec u b off v) t s = (Inr (), s3)"
    using s1(1) set s3(1)
    by (simp add: Undo_val_rec undo_with_def bnd_Inr with_defer_def tx_Pin_def tx_Unpin_def)
  have sizes: "blockSize s3 = blockSize s" "logFile s3 = logFile s" "logFile s2 = logFile s" "logFile s1 = logFile s"
    "\<And>n. n \<noteq> logFile s \<Longrightarrow> nblocks s1 n = nblocks s n" "\<And>n. n \<noteq> logFile s \<Longrightarrow> nblocks s2 n = nblocks s n"
    "\<And>n. n \<noteq> logFile s \<Longrightarrow> nblocks s3 n = nblocks s n"
    using calm1 calm3 up by (simp_all add: calm_def updates_def)
  have view: "blk_view s3 c = update_view (b, off, v) (blk_view s) c"
    if c: "in_file s c" "File c \<noteq> logFile s" for c
  proof -
    have f: "in_file s1 c" "in_file s2 c" "in_file s1 b" using c blk sizes(5,6) by (simp_all add: in_file_def)
    have "blk_view s3 c = blk_view s2 c" using calm3 f(2) c(2) sizes(3) by (simp add: calm_def)
    also have "\<dots> = update_view (b, off, v) (blk_view s1) c"
      using up f(1) c(2) sizes(4) by (simp add: updates_def update_view_def)
    also have "\<dots> = update_view (b, off, v) (blk_view s) c"
      using calm1 c blk by (simp add: calm_def update_view_def)
    finally show ?thesis .
  qed
  have "undone t [(b, off, v)] s s3"
    using s3 p2(2) s1(4) room sizes view calm1 calm3 up l2 it2 x1 x3
    by (simp add: undone_def idle_def calm_def updates_def)
  then show ?thesis using run by blast
qed

section \<open>What recovery undoes\<close>

fun undo_of :: "log_record \<Rightarrow> update option" where
  "undo_of (SetIntRecord _ b off v) = Some (b, off, VInt v)"
| "undo_of (SetStringRecord _ b off v) = Some (b, off, VString v)"
| "undo_of (SetBoolRecord _ b off v) = Some (b, off, VBool v)"
| "undo_of (SetLongRecord _ b off v) = Some (b, off, VLong v)"
| "undo_of (SetShortRecord _ b off v) = Some (b, off, VShort v)"
| "undo_of (SetDateRecord _ b off v) = Some (b, off, VDate v)"
| "undo_of _ = None"

lemma undo_of_Some: "undo_of r = Some (b, off, v) \<Longrightarrow> r = val_rec (record_TxNumber r) b off v"
  by (cases r) auto

lemma undo_of_None: "undo_of r = None \<Longrightarrow> Undo r t s = (Inr (), s)"
  by (cases r) (auto simp: go_unfold)

lemma undo_of_val_rec [simp]: "undo_of (val_rec t b off v) = Some (b, off, v)"
  by (cases v) simp_all

text \<open>The updates that \<open>doRecover\<close> is to undo, newest first: those of transactions without a later
  commit or rollback record, back to the last checkpoint.\<close>

fun losers :: "int list \<Rightarrow> log_record list \<Rightarrow> update list" where
  "losers fin [] = []"
| "losers fin (r # rs) =
     (if record_Op r = Checkpoint then []
      else if record_Op r = Commit \<or> record_Op r = Rollback then losers (record_TxNumber r # fin) rs
      else if record_TxNumber r \<in> set fin then losers fin rs
      else (case undo_of r of None \<Rightarrow> losers fin rs | Some u \<Rightarrow> u # losers fin rs))"

lemma losers_cong: "set fin = set fin' \<Longrightarrow> losers fin rs = losers fin' rs"
proof (induction rs arbitrary: fin fin')
  case (Cons r rs)
  have "losers (record_TxNumber r # fin) rs = losers (record_TxNumber r # fin') rs"
    by (rule Cons.IH) (simp add: Cons.prems)
  moreover have "losers fin rs = losers fin' rs" by (rule Cons.IH) (rule Cons.prems)
  ultimately show ?case using Cons.prems by (simp only: losers.simps)
qed simp

lemma undo_record:
  assumes i: "idle s t" and t: "0 \<le> t" and can: "\<And>u. undo_of r = Some u \<Longrightarrow> can_undo s t u"
  shows "\<exists>s'. Undo r t s = (Inr (), s') \<and> undone t (case undo_of r of None \<Rightarrow> [] | Some u \<Rightarrow> [u]) s s'"
proof (cases "undo_of r")
  case None
  then show ?thesis using undo_of_None [OF None] i by (intro exI [of _ s]) (simp add: undone_def)
next
  case (Some u)
  obtain b off v where u: "u = (b, off, v)" by (cases u)
  have r: "r = val_rec (record_TxNumber r) b off v" using Some u by (intro undo_of_Some) simp
  have c: "can_undo s t (b, off, v)" using can [OF Some] unfolding u .
  obtain s' where "Undo (val_rec (record_TxNumber r) b off v) t s = (Inr (), s')" "undone t [(b, off, v)] s s'"
    using undo_unpinned [OF i t c] by blast
  moreover have "Undo r t s = Undo (val_rec (record_TxNumber r) b off v) t s" by (subst r) (rule refl)
  ultimately show ?thesis unfolding Some option.case u by (intro exI [of _ s'] conjI) simp_all
qed

lemma recover_loop_spec:
  assumes "idle s t" and "0 \<le> t" and "it_at s (logFile s) it l"
    and "list_all2 (\<lambda>bs r. CreateLogRecord bs = Inr r) l rs" and "length l < n"
    and "\<forall>u \<in> set (losers fin rs). can_undo s t u"
  shows "\<exists>s'. recover_loop n t fin it s = (Inr (), s') \<and> undone t (losers fin rs) s s'"
  using assms
proof (induction n arbitrary: s it l rs fin)
  case 0
  from 0(5) show ?case by simp
next
  case (Suc n)
  show ?case
  proof (cases l)
    case Nil
    then show ?thesis
      using it_HasNext_iff [OF Suc.prems(3)] Suc.prems(1,4) by (simp add: undone_def)
  next
    case (Cons bs l')
    obtain r rs' where rs: "rs = r # rs'" "CreateLogRecord bs = Inr r"
      "list_all2 (\<lambda>bs r. CreateLogRecord bs = Inr r) l' rs'"
      using Suc.prems(4) Cons by (auto simp: list_all2_Cons1)
    obtain s1 it' where nx: "it_Next it s = (Inr (bs, it'), s1)" "it_at s1 (logFile s) it' l'" "quiet s s1"
      by (rule it_Next_quiet [OF Suc.prems(3) [unfolded Cons]])
    have u1: "undone t [] s s1" using nx(3) Suc.prems(1) by (rule undone_quiet)
    have i1: "idle s1 t" "logFile s1 = logFile s" using u1 by (simp_all add: undone_def)
    have step: "recover_loop (Suc n) t fin it s =
        (if record_Op r = Checkpoint then ret ()
         else if record_Op r = Commit \<or> record_Op r = Rollback then recover_loop n t (fin @ [record_TxNumber r]) it'
         else if record_TxNumber r \<notin> set fin then bnd (Undo r t) (\<lambda>_. recover_loop n t fin it')
         else recover_loop n t fin it') s1"
      using it_HasNext_iff [OF Suc.prems(3)] Cons nx(1) rs(2) by (simp add: bnd_simps)
    have goon: "\<exists>s'. recover_loop n t fin' it' s2 = (Inr (), s') \<and> undone t (us @ losers fin' rs') s s'"
      if s2: "undone t us s s2" and all: "\<forall>u \<in> set (losers fin' rs'). can_undo s t u" and at: "it_at s2 (logFile s) it' l'"
      for s2 fin' us
    proof -
      have i2: "idle s2 t" "logFile s2 = logFile s" using s2 by (simp_all add: undone_def)
      have "\<forall>u \<in> set (losers fin' rs'). can_undo s2 t u" using all undone_can_undo [OF s2] by blast
      then obtain s' where "recover_loop n t fin' it' s2 = (Inr (), s')" "undone t (losers fin' rs') s2 s'"
        using Suc.IH [OF i2(1) Suc.prems(2) _ rs(3), of it'] at i2(2) Suc.prems(5) Cons by auto
      then show ?thesis using undone_trans [OF s2] by blast
    qed
    consider (stop) "record_Op r = Checkpoint"
      | (fin) "record_Op r \<noteq> Checkpoint" "record_Op r = Commit \<or> record_Op r = Rollback"
      | (undo) "record_Op r \<noteq> Checkpoint" "record_Op r \<noteq> Commit" "record_Op r \<noteq> Rollback" "record_TxNumber r \<notin> set fin"
      | (skip) "record_Op r \<noteq> Checkpoint" "record_Op r \<noteq> Commit" "record_Op r \<noteq> Rollback" "record_TxNumber r \<in> set fin"
      by blast
    then show ?thesis
    proof cases
      case stop
      then show ?thesis using u1 rs(1) unfolding step by (simp add: go_unfold)
    next
      case fin
      have l: "losers (fin @ [record_TxNumber r]) rs' = losers fin rs"
        using fin rs(1) by (auto intro!: losers_cong)
      have "\<exists>s'. recover_loop n t (fin @ [record_TxNumber r]) it' s1 = (Inr (), s') \<and> undone t (losers fin rs) s s'"
        using goon [OF u1, of "fin @ [record_TxNumber r]"] Suc.prems(6) nx(2) unfolding l by simp
      then show ?thesis using fin unfolding step by simp
    next
      case undo
      have l: "losers fin rs = (case undo_of r of None \<Rightarrow> [] | Some u \<Rightarrow> [u]) @ losers fin rs'"
        using undo rs(1) by (auto split: option.split)
      have "can_undo s1 t u" if "undo_of r = Some u" for u
        using Suc.prems(6) that undone_can_undo [OF u1] unfolding l by simp
      then obtain s2 where s2: "Undo r t s1 = (Inr (), s2)"
        "undone t (case undo_of r of None \<Rightarrow> [] | Some u \<Rightarrow> [u]) s1 s2"
        using undo_record [OF i1(1) Suc.prems(2)] by blast
      have at2: "it_at s2 (logFile s) it' l'" using s2(2) nx(2) i1(2) by (simp add: undone_def)
      have all: "\<forall>u \<in> set (losers fin rs'). can_undo s t u" using Suc.prems(6) unfolding l by simp
      have "\<exists>s'. recover_loop n t fin it' s2 = (Inr (), s') \<and> undone t (losers fin rs) s s'"
        using goon [OF undone_trans [OF u1 s2(2)] all at2] unfolding l by simp
      then show ?thesis using undo s2(1) unfolding step by (simp add: bnd_Inr)
    next
      case skip
      have "\<exists>s'. recover_loop n t fin it' s1 = (Inr (), s') \<and> undone t (losers fin rs) s s'"
        using goon [OF u1, of fin] Suc.prems(6) nx(2) rs(1) skip by simp
      then show ?thesis using skip unfolding step by simp
    qed
  qed
qed

section \<open>How far a rollback reaches\<close>

text \<open>The updates that \<open>doRollback\<close> undoes: those of every record with the transaction's number, back to
  a start record.\<close>

fun reached :: "int \<Rightarrow> log_record list \<Rightarrow> update list" where
  "reached t [] = []"
| "reached t (r # rs) =
     (if record_TxNumber r \<noteq> t then reached t rs
      else if record_Op r = Start then []
      else (case undo_of r of None \<Rightarrow> reached t rs | Some u \<Rightarrow> u # reached t rs))"

lemma rollback_loop_spec:
  assumes "idle s t" and "0 \<le> t" and "it_at s (logFile s) it l"
    and "list_all2 (\<lambda>bs r. CreateLogRecord bs = Inr r) l rs" and "length l < n"
    and "\<forall>u \<in> set (reached t rs). can_undo s t u"
  shows "\<exists>s'. rollback_loop n t it s = (Inr (), s') \<and> undone t (reached t rs) s s'"
  using assms
proof (induction n arbitrary: s it l rs)
  case 0
  from 0(5) show ?case by simp
next
  case (Suc n)
  show ?case
  proof (cases l)
    case Nil
    then show ?thesis
      using it_HasNext_iff [OF Suc.prems(3)] Suc.prems(1,4) by (simp add: undone_def)
  next
    case (Cons bs l')
    obtain r rs' where rs: "rs = r # rs'" "CreateLogRecord bs = Inr r"
      "list_all2 (\<lambda>bs r. CreateLogRecord bs = Inr r) l' rs'"
      using Suc.prems(4) Cons by (auto simp: list_all2_Cons1)
    obtain s1 it' where nx: "it_Next it s = (Inr (bs, it'), s1)" "it_at s1 (logFile s) it' l'" "quiet s s1"
      by (rule it_Next_quiet [OF Suc.prems(3) [unfolded Cons]])
    have u1: "undone t [] s s1" using nx(3) Suc.prems(1) by (rule undone_quiet)
    have i1: "idle s1 t" "logFile s1 = logFile s" using u1 by (simp_all add: undone_def)
    have step: "rollback_loop (Suc n) t it s =
        (if record_TxNumber r = t then
           if record_Op r = Start then ret () else bnd (Undo r t) (\<lambda>_. rollback_loop n t it')
         else rollback_loop n t it') s1"
      using it_HasNext_iff [OF Suc.prems(3)] Cons nx(1) rs(2) by (simp add: bnd_Inr bnd_simps)
    have goon: "\<exists>s'. rollback_loop n t it' s2 = (Inr (), s') \<and> undone t (us @ reached t rs') s s'"
      if s2: "undone t us s s2" and all: "\<forall>u \<in> set (reached t rs'). can_undo s t u" and at: "it_at s2 (logFile s) it' l'"
      for s2 us
    proof -
      have i2: "idle s2 t" "logFile s2 = logFile s" using s2 by (simp_all add: undone_def)
      have "\<forall>u \<in> set (reached t rs'). can_undo s2 t u" using all undone_can_undo [OF s2] by blast
      then obtain s' where "rollback_loop n t it' s2 = (Inr (), s')" "undone t (reached t rs') s2 s'"
        using Suc.IH [OF i2(1) Suc.prems(2) _ rs(3), of it'] at i2(2) Suc.prems(5) Cons by auto
      then show ?thesis using undone_trans [OF s2] by blast
    qed
    consider (other) "record_TxNumber r \<noteq> t" | (start) "record_TxNumber r = t" "record_Op r = Start"
      | (own) "record_TxNumber r = t" "record_Op r \<noteq> Start" by blast
    then show ?thesis
    proof cases
      case other
      then have "\<exists>s'. rollback_loop n t it' s1 = (Inr (), s') \<and> undone t (reached t rs) s s'"
        using goon [OF u1] Suc.prems(6) nx(2) rs(1) by simp
      then show ?thesis using other unfolding step by simp
    next
      case start
      then show ?thesis using u1 rs(1) unfolding step by (simp add: go_unfold)
    next
      case own
      have l: "reached t rs = (case undo_of r of None \<Rightarrow> [] | Some u \<Rightarrow> [u]) @ reached t rs'"
        using own rs(1) by (auto split: option.split)
      have "can_undo s1 t u" if "undo_of r = Some u" for u
        using Suc.prems(6) that undone_can_undo [OF u1] unfolding l by simp
      then obtain s2 where s2: "Undo r t s1 = (Inr (), s2)"
        "undone t (case undo_of r of None \<Rightarrow> [] | Some u \<Rightarrow> [u]) s1 s2"
        using undo_record [OF i1(1) Suc.prems(2)] by blast
      have at2: "it_at s2 (logFile s) it' l'" using s2(2) nx(2) i1(2) by (simp add: undone_def)
      have all: "\<forall>u \<in> set (reached t rs'). can_undo s t u" using Suc.prems(6) unfolding l by simp
      have "\<exists>s'. rollback_loop n t it' s2 = (Inr (), s') \<and> undone t (reached t rs) s s'"
        using goon [OF undone_trans [OF u1 s2(2)] all at2] unfolding l by simp
      then show ?thesis using own s2(1) unfolding step by (simp add: bnd_Inr)
    qed
  qed
qed

text \<open>Both loops start from the iterator, which flushes the log.\<close>

lemma iterator_idle:
  assumes i: "idle s t" and h: "log_holds s l"
  obtains it s1 where "lm_Iterator s = (Inr it, s1)" and "idle s1 t" and "it_at s1 (logFile s1) it l"
    and "log_holds s1 l" and "\<And>u. can_undo s1 t u = can_undo s t u"
    and "\<And>us s2. undone t us s1 s2 \<Longrightarrow> idle s2 t \<and> log_holds s2 l \<and> blockSize s2 = blockSize s \<and>
      logFile s2 = logFile s \<and> (\<forall>n. n \<noteq> logFile s \<longrightarrow> nblocks s2 n = nblocks s n) \<and>
      (\<forall>c. in_file s c \<longrightarrow> File c \<noteq> logFile s \<longrightarrow> blk_view s2 c = foldl (\<lambda>V u. update_view u V) (blk_view s) us c)"
proof -
  obtain recss cur where lm: "lm_inv s recss cur" and l: "l = log_of recss cur"
    using h by (auto simp: log_holds_def)
  obtain s1 it where it: "lm_Iterator s = (Inr it, s1)" "lm_inv s1 recss cur"
    "it_at s1 (logFile s) it l" and fr: "lm_frame s s1" and df: "data_frame s s1"
    by (rule lm_Iterator_spec [OF lm]) (simp add: l)
  have h1: "log_holds s1 l" using it(2) l by (auto simp: log_holds_def)
  have inv: "pool_inv s" using i by (simp add: idle_def)
  note p = lm_frame_pool [OF fr] and d = data_frame_same [OF df] and w = lm_frame_world [OF fr]
  note p1 = pool_inv_log [OF inv fr df h1]
  have i1: "idle s1 t" using i p1(1) pins_are_cong [of s1 t s] p w by (simp add: idle_def)
  have can: "can_undo s1 t u = can_undo s t u" for u
    by (cases u) (auto simp: can_undo_def can_xlock_def x_locked_def d w in_file_def)
  have final: "idle s2 t \<and> log_holds s2 l \<and> blockSize s2 = blockSize s \<and> logFile s2 = logFile s \<and>
      (\<forall>n. n \<noteq> logFile s \<longrightarrow> nblocks s2 n = nblocks s n) \<and>
      (\<forall>c. in_file s c \<longrightarrow> File c \<noteq> logFile s \<longrightarrow> blk_view s2 c = foldl (\<lambda>V u. update_view u V) (blk_view s) us c)"
    if u: "undone t us s1 s2" for us s2
  proof -
    have "blk_view s2 c = foldl (\<lambda>V u. update_view u V) (blk_view s) us c"
      if c: "in_file s c" "File c \<noteq> logFile s" for c
    proof -
      have "blk_view s2 c = foldl (\<lambda>V u. update_view u V) (blk_view s1) us c"
        using u c d(2) d(5) [OF c(2)] by (simp add: undone_def)
      also have "\<dots> = foldl (\<lambda>V u. update_view u V) (blk_view s) us c"
        by (rule foldl_update_view) (rule p1(2) [OF c])
      finally show ?thesis .
    qed
    then show ?thesis using u h1 d by (simp add: undone_def)
  qed
  show thesis using it(1,3) i1 h1 can final d(2) by (intro that [of it s1]) simp_all
qed

lemma rm_doRollback_idle:
  assumes i: "idle s t" and t: "0 \<le> t" and h: "log_holds s l"
    and rs: "list_all2 (\<lambda>bs r. CreateLogRecord bs = Inr r) l rs" and n: "length l < n"
    and can: "\<forall>u \<in> set (reached t rs). can_undo s t u"
  shows "\<exists>s'. rm_doRollback n t s = (Inr (), s') \<and> pool_inv s' \<and>
    (\<forall>c. in_file s c \<longrightarrow> File c \<noteq> logFile s \<longrightarrow>
       blk_view s' c = foldl (\<lambda>V u. update_view u V) (blk_view s) (reached t rs) c)"
proof -
  obtain it s1 where it: "lm_Iterator s = (Inr it, s1)" "idle s1 t" "it_at s1 (logFile s1) it l"
    and can1: "\<And>u. can_undo s1 t u = can_undo s t u"
    and fin: "\<And>us s2. undone t us s1 s2 \<Longrightarrow> idle s2 t \<and> log_holds s2 l \<and> blockSize s2 = blockSize s \<and>
      logFile s2 = logFile s \<and> (\<forall>n. n \<noteq> logFile s \<longrightarrow> nblocks s2 n = nblocks s n) \<and>
      (\<forall>c. in_file s c \<longrightarrow> File c \<noteq> logFile s \<longrightarrow> blk_view s2 c = foldl (\<lambda>V u. update_view u V) (blk_view s) us c)"
    by (rule iterator_idle [OF i h]) blast
  obtain s2 where s2: "rollback_loop n t it s1 = (Inr (), s2)" "undone t (reached t rs) s1 s2"
    using rollback_loop_spec [OF it(2) t it(3) rs n] can can1 by blast
  have "rm_doRollback n t s = (Inr (), s2)" using it(1) s2(1) by (simp add: rm_doRollback_def bnd_Inr)
  then show ?thesis using fin [OF s2(2)] by (auto simp: idle_def)
qed

lemma rm_doRecover_idle:
  assumes i: "idle s t" and t: "0 \<le> t" and h: "log_holds s l"
    and rs: "list_all2 (\<lambda>bs r. CreateLogRecord bs = Inr r) l rs" and n: "length l < n"
    and can: "\<forall>u \<in> set (losers [] rs). can_undo s t u"
  obtains s' where "rm_doRecover n t s = (Inr (), s')" and "pool_inv s'" and "log_holds s' l"
    and "blockSize s' = blockSize s" and "logFile s' = logFile s" and "\<And>n. n \<noteq> logFile s \<Longrightarrow> nblocks s' n = nblocks s n"
    and "\<And>c. in_file s c \<Longrightarrow> File c \<noteq> logFile s \<Longrightarrow>
       blk_view s' c = foldl (\<lambda>V u. update_view u V) (blk_view s) (losers [] rs) c"
proof -
  obtain it s1 where it: "lm_Iterator s = (Inr it, s1)" "idle s1 t" "it_at s1 (logFile s1) it l"
    and can1: "\<And>u. can_undo s1 t u = can_undo s t u"
    and fin: "\<And>us s2. undone t us s1 s2 \<Longrightarrow> idle s2 t \<and> log_holds s2 l \<and> blockSize s2 = blockSize s \<and>
      logFile s2 = logFile s \<and> (\<forall>n. n \<noteq> logFile s \<longrightarrow> nblocks s2 n = nblocks s n) \<and>
      (\<forall>c. in_file s c \<longrightarrow> File c \<noteq> logFile s \<longrightarrow> blk_view s2 c = foldl (\<lambda>V u. update_view u V) (blk_view s) us c)"
    by (rule iterator_idle [OF i h]) blast
  obtain s2 where s2: "recover_loop n t [] it s1 = (Inr (), s2)" "undone t (losers [] rs) s1 s2"
    using recover_loop_spec [OF it(2) t it(3) rs n] can can1 by blast
  have "rm_doRecover n t s = (Inr (), s2)" using it(1) s2(1) by (simp add: rm_doRecover_def bnd_Inr)
  then show thesis using fin [OF s2(2)] by (intro that [of s2]) (simp_all add: idle_def)
qed

section \<open>Before-images\<close>

text \<open>Updates with the values they overwrite, oldest first, and the undo records they leave.\<close>

fun before_images :: "(block_id \<Rightarrow> page) \<Rightarrow> (update \<times> val) list \<Rightarrow> bool" where
  "before_images V [] \<longleftrightarrow> True"
| "before_images V (((b, off, v), old) # xs) \<longleftrightarrow>
     invertible (V b) off v old \<and> val_fits (V b) off v \<and> before_images (update_view (b, off, v) V) xs"

definition undos :: "(update \<times> val) list \<Rightarrow> update list" where
  "undos xs = rev (map (\<lambda>((b, off, v), old). (b, off, old)) xs)"

definition in_update :: "update \<Rightarrow> block_id \<Rightarrow> nat \<Rightarrow> bool" where
  "in_update u c i \<longleftrightarrow> (case u of (b, off, v) \<Rightarrow> b = c \<and> nat off \<le> i \<and> i < nat off + length (val_enc v))"

definition touched :: "update list \<Rightarrow> block_id \<Rightarrow> nat \<Rightarrow> bool" where
  "touched us c i \<longleftrightarrow> (\<exists>u \<in> set us. in_update u c i)"

text \<open>Undoing everything gives the old bytes where an update wrote, whatever stood there.\<close>

lemma undo_bytes:
  assumes "before_images V xs" and "length (W c) = length (V c)"
  shows "length (foldl (\<lambda>V u. update_view u V) W (undos xs) c) = length (V c) \<and>
    (\<forall>i < length (V c). foldl (\<lambda>V u. update_view u V) W (undos xs) c ! i =
       (if touched (map fst xs) c i then V c ! i else W c ! i))"
  using assms
proof (induction xs arbitrary: V)
  case Nil
  then show ?case by (simp add: undos_def touched_def)
next
  case (Cons x xs)
  obtain b off v old where x: "x = ((b, off, v), old)" by (metis prod.collapse)
  let ?V1 = "update_view (b, off, v) V"
  let ?R = "foldl (\<lambda>V u. update_view u V) W (undos xs)"
  have inv: "invertible (V b) off v old" "val_fits (V b) off v" "before_images ?V1 xs"
    using Cons.prems(1) by (simp_all add: x)
  have fit: "0 \<le> off" "nat off + length (val_enc v) \<le> length (V b)" "length (val_enc old) = length (val_enc v)"
    and old: "bslice (nat off) (length (val_enc old)) (V b) = val_enc old"
    using inv(1,2) by (simp_all add: val_fits_def invertible_def has_def)
  have V1: "?V1 c = (if c = b then bsplice (nat off) (val_enc v) (V b) else V c)"
    by (simp add: update_view_def)
  have len1: "length (?V1 c) = length (V c)" using fit by (simp add: V1)
  have ih: "length (?R c) = length (V c) \<and> (\<forall>i < length (V c).
      ?R c ! i = (if touched (map fst xs) c i then ?V1 c ! i else W c ! i))"
    using Cons.IH [OF inv(3)] Cons.prems(2) unfolding len1 by simp
  have step: "foldl (\<lambda>V u. update_view u V) W (undos (x # xs)) c =
      (if c = b then bsplice (nat off) (val_enc old) (?R b) else ?R c)"
    by (simp add: undos_def x update_view_def)
  have up: "in_update (fst x) c i \<longleftrightarrow> b = c \<and> nat off \<le> i \<and> i < nat off + length (val_enc v)" for i
    by (simp add: in_update_def x)
  have tch: "touched (map fst (x # xs)) c i \<longleftrightarrow> in_update (fst x) c i \<or> touched (map fst xs) c i" for i
    by (simp add: touched_def)
  show ?case
  proof (cases "c = b")
    case False
    then show ?thesis using ih unfolding step tch up by (simp add: V1)
  next
    case True
    have R: "length (?R b) = length (V b)" using ih True by simp
    have "foldl (\<lambda>V u. update_view u V) W (undos (x # xs)) c ! i =
        (if touched (map fst (x # xs)) c i then V c ! i else W c ! i)" if i: "i < length (V c)" for i
    proof (cases "nat off \<le> i \<and> i < nat off + length (val_enc v)")
      case T: True
      have "val_enc old ! (i - nat off) = V b ! i"
        using nth_bslice [of "i - nat off" "length (val_enc old)" "nat off" "V b"] T fit unfolding old by auto
      then show ?thesis
        using T i R fit True unfolding step tch up by (simp add: nth_bsplice)
    next
      case F: False
      then have "?V1 c ! i = V c ! i" using i fit True F unfolding V1 by (auto simp: nth_bsplice)
      then show ?thesis using F i R fit True ih unfolding step tch up by (auto simp: nth_bsplice)
    qed
    then show ?thesis using R fit True unfolding step by simp
  qed
qed

lemma undo_restores:
  assumes "before_images V xs" and "length (W c) = length (V c)"
    and "\<And>i. i < length (V c) \<Longrightarrow> W c ! i = V c ! i \<or> touched (map fst xs) c i"
  shows "foldl (\<lambda>V u. update_view u V) W (undos xs) c = V c"
proof (rule nth_equalityI)
  show "length (foldl (\<lambda>V u. update_view u V) W (undos xs) c) = length (V c)"
    using undo_bytes [of V xs W c, OF assms(1,2)] by simp
  then show "foldl (\<lambda>V u. update_view u V) W (undos xs) c ! i = V c ! i"
    if "i < length (foldl (\<lambda>V u. update_view u V) W (undos xs) c)" for i
    using undo_bytes [of V xs W c, OF assms(1,2)] assms(3) [of i] that by auto
qed

section \<open>Properties of recovery\<close>


text \<open>C35. A rollback undoes committed updates of an earlier transaction with its number: no start record
  is ever written, so \<open>doRollback\<close> goes on behind the commit record, and numbers start again with
  every run of the program. A transaction that has done nothing itself then overwrites a committed
  value with the one from before it.\<close>

theorem rollback_undoes_committed:
  assumes "idle s t" and "0 \<le> t" and "log_holds s (c # u # l)" and "CreateLogRecord c = Inr (CommitRecord t)"
    and "CreateLogRecord u = Inr (val_rec t b off old)"
    and "\<forall>bs \<in> set l. \<exists>r. CreateLogRecord bs = Inr r \<and> record_TxNumber r \<noteq> t"
    and "can_undo s t (b, off, old)" and "length l + 2 < n"
  shows "\<exists>s'. rm_doRollback n t s = (Inr (), s') \<and> pool_inv s' \<and>
    blk_view s' b = bsplice (nat off) (val_enc old) (blk_view s b)"
proof -
  have "\<forall>bs \<in> set l. \<exists>r. CreateLogRecord bs = Inr r \<and> record_TxNumber r \<noteq> t" by (rule assms(6))
  then have "\<exists>rs. list_all2 (\<lambda>bs r. CreateLogRecord bs = Inr r) l rs \<and> reached t rs = []"
  proof (induction l)
    case (Cons bs l)
    then obtain r rs where "CreateLogRecord bs = Inr r" "record_TxNumber r \<noteq> t"
      "list_all2 (\<lambda>bs r. CreateLogRecord bs = Inr r) l rs" "reached t rs = []" by auto
    then show ?case by (intro exI [of _ "r # rs"]) simp
  qed simp
  then obtain rs where rs: "list_all2 (\<lambda>bs r. CreateLogRecord bs = Inr r) l rs" "reached t rs = []" by blast
  let ?rs = "CommitRecord t # val_rec t b off old # rs"
  have r: "reached t ?rs = [(b, off, old)]" using rs(2) by simp
  have "list_all2 (\<lambda>bs r. CreateLogRecord bs = Inr r) (c # u # l) ?rs" using assms(4,5) rs(1) by simp
  moreover have "length (c # u # l) < n" using assms(8) by simp
  moreover have "\<forall>u \<in> set (reached t ?rs). can_undo s t u" using assms(7) unfolding r by simp
  ultimately obtain s' where s': "rm_doRollback n t s = (Inr (), s')" "pool_inv s'"
    "\<forall>c. in_file s c \<longrightarrow> File c \<noteq> logFile s \<longrightarrow>
       blk_view s' c = foldl (\<lambda>V u. update_view u V) (blk_view s) (reached t ?rs) c"
    using rm_doRollback_idle [OF assms(1-3)] by blast
  have "in_file s b" "File b \<noteq> logFile s" using assms(7) by (simp_all add: can_undo_def)
  then show ?thesis using s' unfolding r by (auto simp: update_view_def)
qed

section \<open>A crash\<close>

text \<open>Transaction 1 makes a logged update and the process ends; it starts again with no locks and pins.\<close>

lemma demo_crash:
  obtains s :: world and u where "idle s 1" and "log_holds s [u]" and "blockSize s = 64"
    and "CreateLogRecord u = Inr (val_rec 1 demo_blk 8 (VInt 0))" and "can_undo s 1 (demo_blk, 8, VInt 0)"
    and "blk_view s demo_blk = bsplice 8 (enc_int 5) (replicate 64 0)"
    and "int32_range 1"
proof -
  obtain s :: world where s: "pool_inv s" "log_holds s []" "blockSize s = 64" "logFile s = ''log''"
    "tx_holds s 1 demo_blk 0" "can_xlock s 1 demo_blk" "blk_view s demo_blk = replicate 64 0"
    "length (bufferPool s) = 2" "\<not> isPinned (bufferPool s ! 1)"
    by (rule demo_world_pool) blast
  have fit: "val_fits (blk_view s demo_blk) 8 (VInt 5)" by (simp add: val_fits_def int32_range_def s(7))
  obtain s1 u where s1: "tx_SetVal 1 demo_blk 8 (VInt 5) True s = (Inr (), s1)"
    and up: "updates 1 demo_blk (bsplice (nat 8) (val_enc (VInt 5)) (blk_view s demo_blk)) s s1"
    and h1: "log_holds s1 [u]" and u: "CreateLogRecord u = Inr (val_rec 1 demo_blk 8 (VInt 0))"
    by (rule tx_SetVal_logged [OF s(1,5,6) _ fit, of "VInt 0" "[]"])
      (use s has_zero demo_header in \<open>auto simp: int32_range_def\<close>)
  define s2 where "s2 = txn_upd 1 (\<lambda>_. \<lparr>tx_own = [], tx_bufs = []\<rparr>) (s1\<lparr>locks := Map.empty\<rparr>)"
  note data = tx_holds_data [OF s(1,5)]
  have f: "pool_inv s1" "blockSize s1 = 64" "logFile s1 = ''log''" "same_pins s s1"
    "blk_view s1 demo_blk = bsplice 8 (enc_int 5) (replicate 64 0)" "in_file s1 demo_blk"
    using up s(3,4,7) data(1,2) by (simp_all add: updates_def in_file_def)
  have "pins_are s2 1 []" by (simp add: s2_def pins_are_def)
  moreover have "0 < card (own_buffers s2 1)"
  proof -
    have "buf_ok s (bufferPool s ! 1)" using s(1,8) by (intro pool_inv_buf_ok) simp_all
    then have "pins (bufferPool s ! 1) = 0" using s(9) by (simp add: buf_ok_def isPinned_def)
    then have "pins (bufferPool s1 ! 1) = 0" using f(4) s(8) by (simp add: same_pins_def)
    then have "1 \<in> own_buffers s2 1"
      using f(4) s(8) by (simp add: own_buffers_def held_in_def s2_def same_pins_def)
    then show ?thesis by (auto simp: card_gt_0_iff own_buffers_def)
  qed
  ultimately have "idle s2 1" using f(1) by (simp add: idle_def s2_def)
  moreover have "can_undo s2 1 (demo_blk, 8, VInt 0)"
    using f(2,3,6) data(2) s(4) by (simp add: can_undo_def s2_def can_xlock_def getLockVal_def int32_range_def)
  ultimately show thesis
    using h1 u f by (intro that [of s2 u]) (simp_all add: s2_def int32_range_def)
qed


lemma rollback_undoes_committed_witness:
  "\<exists>s s' :: world. blk_view s demo_blk = bsplice 8 (enc_int 5) (replicate 64 0) \<and>
    rm_doRollback 3 1 s = (Inr (), s') \<and> blk_view s' demo_blk = replicate 64 0"
proof -
  obtain s :: world and u where s: "idle s 1" "log_holds s [u]" "blockSize s = 64"
    "CreateLogRecord u = Inr (val_rec 1 demo_blk 8 (VInt 0))" "can_undo s 1 (demo_blk, 8, VInt 0)"
    "blk_view s demo_blk = bsplice 8 (enc_int 5) (replicate 64 0)" and one: "int32_range 1"
    by (rule demo_crash)
  have fit: "storable_record (CommitRecord 1)" "record_size (CommitRecord 1) + 8 \<le> blockSize s"
    using s(3) one by simp_all
  obtain s1 c where s1: "write_record (CommitRecord 1) s = (Inr (latestLSN s + 1), s1)"
    "log_holds s1 (c # [u])" "CreateLogRecord c = Inr (read_as (CommitRecord 1))"
    and fr: "lm_frame s s1" and df: "data_frame s s1"
    by (rule write_record_spec [OF s(2) fit]) blast
  have inv: "pool_inv s" using s(1) by (simp add: idle_def)
  note p = lm_frame_pool [OF fr] and d = data_frame_same [OF df] and w = lm_frame_world [OF fr]
  note p1 = pool_inv_log [OF inv fr df s1(2)]
  have blk: "in_file s demo_blk" "File demo_blk \<noteq> logFile s" using s(5) by (simp_all add: can_undo_def)
  have "idle s1 1" using s(1) p1(1) pins_are_cong [of s1 1 s] p w by (simp add: idle_def)
  moreover have "can_undo s1 1 (demo_blk, 8, VInt 0)"
    using s(5) by (simp add: can_undo_def can_xlock_def x_locked_def d w in_file_def)
  moreover have "CreateLogRecord c = Inr (CommitRecord 1)" using s1(3) by simp
  ultimately obtain s' where "rm_doRollback 3 1 s1 = (Inr (), s')"
    "blk_view s' demo_blk = bsplice (nat 8) (val_enc (VInt 0)) (blk_view s1 demo_blk)"
    using rollback_undoes_committed [OF _ _ s1(2) _ s(4), of 3] by auto
  moreover have "blk_view s1 demo_blk = bsplice 8 (enc_int 5) (replicate 64 0)" using p1(2) [OF blk] s(6) by simp
  moreover have "bsplice 8 (enc_int 0) (bsplice 8 (enc_int 5) (replicate 64 0)) = replicate 64 0"
    by (simp add: bsplice_again enc_zero) (simp add: bsplice_def replicate_add [symmetric])
  ultimately show ?thesis by auto
qed

end
