(* ===== verification/BTree.thy ===== *)
theory BTree
  imports RecordPage
begin

text \<open>
  \<^verbatim>\<open>index/btree\<close>: the B+ tree index.

  A page is a transaction, a block it has pinned and a layout; three integers at the front of the
  block hold the number of entries and two values whose meaning depends on the page (next leaf, or
  level and leftmost child), and the entries follow as slots of the layout. A leaf and an index are
  objects that change; their methods act on the object and the state. Loops over slots go through
  lists of slot numbers, so they end; the descent from the root and the walk along the chain of
  leaves take fuel.
\<close>

section \<open>Keys\<close>

text \<open>The comparison of two keys; the type assertion panics when the types differ.\<close>

definition cmp3 :: "('a :: linorder) \<Rightarrow> 'a \<Rightarrow> int" where
  "cmp3 a b = (if a < b then - 1 else if b < a then 1 else 0)"

fun compareVals :: "val option \<Rightarrow> val option \<Rightarrow> int res" where
  "compareVals (Some (VInt a)) (Some (VInt b)) = Inr (cmp3 a b)"
| "compareVals (Some (VLong a)) (Some (VLong b)) = Inr (cmp3 (sint a) (sint b))"
| "compareVals (Some (VShort a)) (Some (VShort b)) = Inr (cmp3 (sint a) (sint b))"
| "compareVals (Some (VBool a)) (Some (VBool b)) = Inr (if a = b then 0 else if \<not> a then - 1 else 1)"
| "compareVals (Some (VString a)) (Some (VString b)) = Inr (cmp3 a b)"
| "compareVals (Some (VDate a)) (Some (VDate b)) = Inr (cmp3 (unix a) (unix b))"
| "compareVals _ _ = Inl Panic"

section \<open>Pages\<close>

definition BlockField :: string where "BlockField = ''block''"
definition IDField :: string where "IDField = ''id''"
definition DataValueField :: string where "DataValueField = ''data_value''"

definition headerSize :: int where
  "headerSize = 3 * IntSize"

record btree_page =
  bp_tx :: int
  bp_block :: block_id
  bp_layout :: layout

definition newBTreePage :: "int \<Rightarrow> block_id \<Rightarrow> layout \<Rightarrow> ('z world_scheme, btree_page) go" where
  "newBTreePage t blk lay = bnd (tx_Pin t blk) (\<lambda>_. ret \<lparr>bp_tx = t, bp_block = blk, bp_layout = lay\<rparr>)"

definition bp_close :: "btree_page \<Rightarrow> ('z world_scheme, unit) go" where
  "bp_close p = tx_Unpin (bp_tx p) (bp_block p)"

definition entryOffset :: "btree_page \<Rightarrow> int \<Rightarrow> string \<Rightarrow> int" where
  "entryOffset p slot f = headerSize + slot * slotSize (bp_layout p) + lay_Offset (bp_layout p) f"

definition bp_getNumRecs :: "btree_page \<Rightarrow> ('z world_scheme, int) go" where
  "bp_getNumRecs p = tx_GetInt (bp_tx p) (bp_block p) 0"

definition bp_setNumRecs :: "btree_page \<Rightarrow> int \<Rightarrow> ('z world_scheme, unit) go" where
  "bp_setNumRecs p n = tx_SetInt (bp_tx p) (bp_block p) 0 n True"

definition bp_getExtra1 :: "btree_page \<Rightarrow> ('z world_scheme, int) go" where
  "bp_getExtra1 p = tx_GetInt (bp_tx p) (bp_block p) IntSize"

definition bp_setExtra1 :: "btree_page \<Rightarrow> int \<Rightarrow> ('z world_scheme, unit) go" where
  "bp_setExtra1 p n = tx_SetInt (bp_tx p) (bp_block p) IntSize n True"

definition bp_getExtra2 :: "btree_page \<Rightarrow> ('z world_scheme, int) go" where
  "bp_getExtra2 p = tx_GetInt (bp_tx p) (bp_block p) (2 * IntSize)"

definition bp_setExtra2 :: "btree_page \<Rightarrow> int \<Rightarrow> ('z world_scheme, unit) go" where
  "bp_setExtra2 p n = tx_SetInt (bp_tx p) (bp_block p) (2 * IntSize) n True"

definition bp_format :: "btree_page \<Rightarrow> ('z world_scheme, unit) go" where
  "bp_format p =
     bnd (bp_setNumRecs p 0) (\<lambda>_.
     bnd (bp_setExtra1 p (- 1)) (\<lambda>_.
     bp_setExtra2 p (- 1)))"

text \<open>The typed read of a position, by the field's type, as a value of type \<open>any\<close>.\<close>

definition tx_getAs :: "SchemaType \<Rightarrow> int \<Rightarrow> block_id \<Rightarrow> int \<Rightarrow> ('z world_scheme, val option) go \<Rightarrow>
    ('z world_scheme, val option) go" where
  "tx_getAs ty t b off other =
     (if ty = Integer then bnd (tx_GetInt t b off) (\<lambda>v. ret (Some (VInt v)))
      else if ty = Long then bnd (tx_GetLong t b off) (\<lambda>v. ret (Some (VLong v)))
      else if ty = Short then bnd (tx_GetShort t b off) (\<lambda>v. ret (Some (VShort v)))
      else if ty = Boolean then bnd (tx_GetBool t b off) (\<lambda>v. ret (Some (VBool v)))
      else if ty = Varchar then bnd (tx_GetString t b off) (\<lambda>v. ret (Some (VString v)))
      else if ty = Date then bnd (tx_GetDate t b off) (\<lambda>v. ret (Some (VDate v)))
      else other)"

definition bp_getDataVal :: "btree_page \<Rightarrow> int \<Rightarrow> ('z world_scheme, val option) go" where
  "bp_getDataVal p slot =
     tx_getAs (schema_Type (lay_schema (bp_layout p)) DataValueField) (bp_tx p) (bp_block p)
       (entryOffset p slot DataValueField) (fail EUnknownKeyType)"

definition bp_setDataVal :: "btree_page \<Rightarrow> int \<Rightarrow> val option \<Rightarrow> ('z world_scheme, unit) go" where
  "bp_setDataVal p slot v = (case v of
       Some x \<Rightarrow> tx_SetVal (bp_tx p) (bp_block p) (entryOffset p slot DataValueField) x True
     | None \<Rightarrow> fail EUnknownKeyType)"

definition bp_getBlockField :: "btree_page \<Rightarrow> int \<Rightarrow> ('z world_scheme, int) go" where
  "bp_getBlockField p slot = tx_GetInt (bp_tx p) (bp_block p) (entryOffset p slot BlockField)"

definition bp_setBlockField :: "btree_page \<Rightarrow> int \<Rightarrow> int \<Rightarrow> ('z world_scheme, unit) go" where
  "bp_setBlockField p slot b = tx_SetInt (bp_tx p) (bp_block p) (entryOffset p slot BlockField) b True"

definition bp_getDataRID :: "btree_page \<Rightarrow> int \<Rightarrow> ('z world_scheme, record_id) go" where
  "bp_getDataRID p slot =
     bnd (tx_GetInt (bp_tx p) (bp_block p) (entryOffset p slot BlockField)) (\<lambda>b.
     bnd (tx_GetInt (bp_tx p) (bp_block p) (entryOffset p slot IDField)) (\<lambda>i.
     ret (NewID b i)))"

definition bp_setDataRID :: "btree_page \<Rightarrow> int \<Rightarrow> record_id \<Rightarrow> ('z world_scheme, unit) go" where
  "bp_setDataRID p slot rid =
     bnd (tx_SetInt (bp_tx p) (bp_block p) (entryOffset p slot BlockField) (rid_block rid) True) (\<lambda>_.
     tx_SetInt (bp_tx p) (bp_block p) (entryOffset p slot IDField) (rid_slot rid) True)"

definition bp_isFull :: "btree_page \<Rightarrow> ('z world_scheme, bool) go" where
  "bp_isFull p =
     bnd (bp_getNumRecs p) (\<lambda>n.
     bnd (gets tx_BlockSize) (\<lambda>bs. ret (headerSize + (n + 1) * slotSize (bp_layout p) > bs)))"

text \<open>The body of the field loop; a field of no known type is skipped.\<close>

definition transfer_field :: "btree_page \<Rightarrow> int \<Rightarrow> btree_page \<Rightarrow> int \<Rightarrow> string \<Rightarrow> ('z world_scheme, unit) go" where
  "transfer_field p src dst slot f =
     bnd (tx_getAs (schema_Type (lay_schema (bp_layout p)) f) (bp_tx p) (bp_block p) (entryOffset p src f) (ret None))
       (\<lambda>v. case v of None \<Rightarrow> ret () | Some x \<Rightarrow> tx_SetVal (bp_tx dst) (bp_block dst) (entryOffset dst slot f) x True)"

definition bp_transferTo :: "btree_page \<Rightarrow> int \<Rightarrow> btree_page \<Rightarrow> int \<Rightarrow> ('z world_scheme, unit) go" where
  "bp_transferTo p src dst slot =
     for_each (sch_fields (lay_schema (bp_layout p))) (transfer_field p src dst slot)"

definition bp_copyRecord :: "btree_page \<Rightarrow> int \<Rightarrow> int \<Rightarrow> ('z world_scheme, unit) go" where
  "bp_copyRecord p src dst = bp_transferTo p src p dst"

definition bp_insert :: "btree_page \<Rightarrow> int \<Rightarrow> ('z world_scheme, unit) go" where
  "bp_insert p slot =
     bnd (bp_getNumRecs p) (\<lambda>n.
     bnd (for_each (rev [slot + 1..n]) (\<lambda>i. bp_copyRecord p (i - 1) i)) (\<lambda>_.
     bp_setNumRecs p (n + 1)))"

definition bp_delete :: "btree_page \<Rightarrow> int \<Rightarrow> ('z world_scheme, unit) go" where
  "bp_delete p slot =
     bnd (bp_getNumRecs p) (\<lambda>n.
     bnd (for_each [slot + 1..n - 1] (\<lambda>i. bp_copyRecord p i (i - 1))) (\<lambda>_.
     bp_setNumRecs p (n - 1)))"

text \<open>The loop moves the entry at \<open>splitPos\<close>, once for every entry from there on.\<close>

definition bp_split :: "btree_page \<Rightarrow> string \<Rightarrow> int \<Rightarrow> int \<Rightarrow> ('z world_scheme, int) go" where
  "bp_split p fileName splitPos siblingVal =
     bnd (tx_Append (bp_tx p) fileName) (\<lambda>newBlock.
     bnd (newBTreePage (bp_tx p) newBlock (bp_layout p)) (\<lambda>newPage.
     with_defer
       (bnd (bp_format newPage) (\<lambda>_.
        bnd (bp_setExtra1 newPage siblingVal) (\<lambda>_.
        bnd (bp_getNumRecs p) (\<lambda>n.
        bnd (for_each [0..n - splitPos - 1] (\<lambda>transferSlot.
          bnd (bp_insert newPage transferSlot) (\<lambda>_.
          bnd (bp_transferTo p splitPos newPage transferSlot) (\<lambda>_.
          bp_delete p splitPos)))) (\<lambda>_.
        ret (BlockNumber newBlock))))))
       (bp_close newPage)))"

text \<open>The first of the given slots whose key compares as \<open>stop\<close> wants, or \<open>n\<close>.\<close>

fun find_slot :: "btree_page \<Rightarrow> (int \<Rightarrow> bool) \<Rightarrow> val option \<Rightarrow> int \<Rightarrow> int list \<Rightarrow> ('z world_scheme, int) go" where
  "find_slot p stop key n [] = ret n"
| "find_slot p stop key n (i # is) =
     bnd (bp_getDataVal p i) (\<lambda>v.
     bnd (lift_res (compareVals v key)) (\<lambda>c. if stop c then ret i else find_slot p stop key n is))"

definition bp_findDirSlot :: "btree_page \<Rightarrow> val option \<Rightarrow> ('z world_scheme, int) go" where
  "bp_findDirSlot p searchKey =
     bnd (bp_getNumRecs p) (\<lambda>n.
     bnd (find_slot p (\<lambda>c. c > 0) searchKey n [0..n - 1]) (\<lambda>slot. ret (slot - 1)))"

definition bp_findLeafSlot :: "btree_page \<Rightarrow> val option \<Rightarrow> ('z world_scheme, int) go" where
  "bp_findLeafSlot p searchKey =
     bnd (bp_getNumRecs p) (\<lambda>n.
     bnd (find_slot p (\<lambda>c. c \<ge> 0) searchKey n [0..n - 1]) (\<lambda>slot. ret (slot - 1)))"

text \<open>The same search where the code drops the errors of the reads: the value is then \<open>nil\<close>, or \<open>0\<close>.\<close>

definition or_else :: "('s, 'a) go \<Rightarrow> 'a \<Rightarrow> ('s, 'a) go" where
  "or_else m x = handle m ret (\<lambda>_. ret x)"

fun find_slot_unchecked :: "btree_page \<Rightarrow> (int \<Rightarrow> bool) \<Rightarrow> val option \<Rightarrow> int \<Rightarrow> int list \<Rightarrow>
    ('z world_scheme, int) go" where
  "find_slot_unchecked p stop key n [] = ret n"
| "find_slot_unchecked p stop key n (i # is) =
     bnd (or_else (bp_getDataVal p i) None) (\<lambda>v.
     bnd (lift_res (compareVals v key)) (\<lambda>c. if stop c then ret i else find_slot_unchecked p stop key n is))"

section \<open>Directory pages\<close>

type_synonym dir_entry = "val option \<times> int"

record btree_dir =
  dr_tx :: int
  dr_layout :: layout
  dr_page :: btree_page
  dr_file :: string

definition newBTreeDir :: "int \<Rightarrow> block_id \<Rightarrow> layout \<Rightarrow> ('z world_scheme, btree_dir) go" where
  "newBTreeDir t blk lay =
     bnd (newBTreePage t blk lay) (\<lambda>p. ret \<lparr>dr_tx = t, dr_layout = lay, dr_page = p, dr_file = File blk\<rparr>)"

definition dr_close :: "btree_dir \<Rightarrow> ('z world_scheme, unit) go" where
  "dr_close d = bp_close (dr_page d)"

definition dr_findChildBlock :: "btree_dir \<Rightarrow> val option \<Rightarrow> ('z world_scheme, int) go" where
  "dr_findChildBlock d searchKey =
     bnd (bp_findDirSlot (dr_page d) searchKey) (\<lambda>slot.
     if slot < 0 then bp_getExtra2 (dr_page d) else bp_getBlockField (dr_page d) slot)"

fun dr_search :: "nat \<Rightarrow> btree_dir \<Rightarrow> val option \<Rightarrow> ('z world_scheme, int) go" where
  "dr_search 0 d searchKey = (\<lambda>s. (Inl OutOfFuel, s))"
| "dr_search (Suc n) d searchKey =
     bnd (dr_findChildBlock d searchKey) (\<lambda>childBlk.
     bnd (bp_getExtra1 (dr_page d)) (\<lambda>level.
     if level = 0 then ret childBlk
     else
       bnd (newBTreeDir (dr_tx d) (NewBlockId (dr_file d) childBlk) (dr_layout d)) (\<lambda>child.
       with_defer (dr_search n child searchKey) (dr_close child))))"

definition dr_doInsert :: "btree_dir \<Rightarrow> int \<Rightarrow> val option \<Rightarrow> int \<Rightarrow> ('z world_scheme, unit) go" where
  "dr_doInsert d slot key childBlk =
     bnd (bp_insert (dr_page d) slot) (\<lambda>_.
     bnd (bp_setDataVal (dr_page d) slot key) (\<lambda>_.
     bp_setBlockField (dr_page d) slot childBlk))"

text \<open>The promotion of the first key of the new page: the key leaves the page and its child becomes
  the leftmost one.\<close>

definition dr_promote :: "btree_page \<Rightarrow> ('z world_scheme, val option) go" where
  "dr_promote newPage =
     bnd (bp_getDataVal newPage 0) (\<lambda>splitKey.
     bnd (bp_getBlockField newPage 0) (\<lambda>promotedChild.
     bnd (bp_delete newPage 0) (\<lambda>_.
     bnd (bp_setExtra2 newPage promotedChild) (\<lambda>_.
     ret splitKey))))"

definition dr_insert_right :: "btree_page \<Rightarrow> val option \<Rightarrow> int \<Rightarrow> ('z world_scheme, unit) go" where
  "dr_insert_right np key childBlk =
     bnd (or_else (bp_getNumRecs np) 0) (\<lambda>nn.
     bnd (find_slot_unchecked np (\<lambda>c. c > 0) key nn [0..nn - 1]) (\<lambda>insertSlot.
     bnd (bp_insert np insertSlot) (\<lambda>_.
     bnd (bp_setDataVal np insertSlot key) (\<lambda>_.
     bp_setBlockField np insertSlot childBlk))))"

definition dr_insertEntry :: "btree_dir \<Rightarrow> val option \<Rightarrow> int \<Rightarrow> ('z world_scheme, dir_entry option) go" where
  "dr_insertEntry d key childBlk =
     bnd (bp_getNumRecs (dr_page d)) (\<lambda>n.
     bnd (find_slot (dr_page d) (\<lambda>c. c > 0) key n [0..n - 1]) (\<lambda>slot.
     bnd (bp_isFull (dr_page d)) (\<lambda>full.
     if full then
       bnd (bp_getExtra1 (dr_page d)) (\<lambda>level.
       bnd (bp_split (dr_page d) (dr_file d) (go_div n 2) level) (\<lambda>newBlkNum.
       bnd (newBTreePage (dr_tx d) (NewBlockId (dr_file d) newBlkNum) (dr_layout d)) (\<lambda>newPage.
       bnd (closing (dr_promote newPage) (bp_close newPage)) (\<lambda>splitKey.
       bnd (lift_res (compareVals key splitKey)) (\<lambda>c.
       bnd (if c < 0 then dr_doInsert d slot key childBlk
            else
              bnd (newBTreePage (dr_tx d) (NewBlockId (dr_file d) newBlkNum) (dr_layout d)) (\<lambda>np.
              closing (dr_insert_right np key childBlk) (bp_close np))) (\<lambda>_.
       ret (Some (splitKey, newBlkNum))))))))
     else bnd (dr_doInsert d slot key childBlk) (\<lambda>_. ret None))))"

fun dr_insert :: "nat \<Rightarrow> btree_dir \<Rightarrow> val option \<Rightarrow> int \<Rightarrow> ('z world_scheme, dir_entry option) go" where
  "dr_insert 0 d splitKey splitBlock = (\<lambda>s. (Inl OutOfFuel, s))"
| "dr_insert (Suc n) d splitKey splitBlock =
     bnd (bp_getExtra1 (dr_page d)) (\<lambda>level.
     if level = 0 then dr_insertEntry d splitKey splitBlock
     else
       bnd (dr_findChildBlock d splitKey) (\<lambda>childBlk.
       bnd (newBTreeDir (dr_tx d) (NewBlockId (dr_file d) childBlk) (dr_layout d)) (\<lambda>child.
       bnd (closing (dr_insert n child splitKey splitBlock) (dr_close child)) (\<lambda>childSplit.
       case childSplit of None \<Rightarrow> ret None | Some (k, b) \<Rightarrow> dr_insertEntry d k b))))"

text \<open>The loop that empties the old root ends when its count is 0, or cannot be read.\<close>

fun dr_clear :: "nat \<Rightarrow> btree_page \<Rightarrow> ('z world_scheme, unit) go" where
  "dr_clear 0 p = (\<lambda>s. (Inl OutOfFuel, s))"
| "dr_clear (Suc n) p =
     bnd (or_else (bp_getNumRecs p) 0) (\<lambda>nn.
     if nn = 0 then ret () else bnd (bp_delete p 0) (\<lambda>_. dr_clear n p))"

definition dr_makeNewRoot :: "nat \<Rightarrow> btree_dir \<Rightarrow> dir_entry \<Rightarrow> ('z world_scheme, unit) go" where
  "dr_makeNewRoot fuel d e =
     bnd (bp_getExtra2 (dr_page d)) (\<lambda>leftmost.
     bnd (bp_getExtra1 (dr_page d)) (\<lambda>level.
     bnd (bp_getNumRecs (dr_page d)) (\<lambda>n.
     bnd (tx_Append (dr_tx d) (dr_file d)) (\<lambda>newBlock.
     bnd (newBTreePage (dr_tx d) newBlock (dr_layout d)) (\<lambda>newPage.
     bnd (closing
       (bnd (bp_format newPage) (\<lambda>_.
        bnd (bp_setExtra1 newPage level) (\<lambda>_.
        bnd (bp_setExtra2 newPage leftmost) (\<lambda>_.
        for_each [0..n - 1] (\<lambda>i.
          bnd (bp_insert newPage i) (\<lambda>_. bp_transferTo (dr_page d) i newPage i))))))
       (bp_close newPage)) (\<lambda>_.
     bnd (dr_clear fuel (dr_page d)) (\<lambda>_.
     bnd (bp_setExtra1 (dr_page d) (level + 1)) (\<lambda>_.
     bnd (bp_setExtra2 (dr_page d) (BlockNumber newBlock)) (\<lambda>_.
     bnd (bp_insert (dr_page d) 0) (\<lambda>_.
     bnd (bp_setDataVal (dr_page d) 0 (fst e)) (\<lambda>_.
     bp_setBlockField (dr_page d) 0 (snd e))))))))))))"

section \<open>Leaves\<close>

record btree_leaf =
  lf_tx :: int
  lf_layout :: layout
  lf_key :: "val option"
  lf_page :: "btree_page option"
  lf_slot :: int
  lf_file :: string

type_synonym ('z, 'a) leaf_go = "(btree_leaf \<times> 'z world_scheme, 'a) go"

definition newBTreeLeaf :: "int \<Rightarrow> block_id \<Rightarrow> layout \<Rightarrow> val option \<Rightarrow> ('z world_scheme, btree_leaf) go" where
  "newBTreeLeaf t blk lay searchKey =
     bnd (newBTreePage t blk lay) (\<lambda>p.
     bnd (close_on_error (bp_findLeafSlot p searchKey) (bp_close p)) (\<lambda>slot.
     ret \<lparr>lf_tx = t, lf_layout = lay, lf_key = searchKey, lf_page = Some p, lf_slot = slot, lf_file = File blk\<rparr>))"

definition lf_close :: "('z, unit) leaf_go" where
  "lf_close = bnd (obj_gets lf_page) (\<lambda>pg. case pg of None \<Rightarrow> ret ()
     | Some p \<Rightarrow> bnd (on_state (bp_close p)) (\<lambda>_. obj_upd (\<lambda>l. l\<lparr>lf_page := None\<rparr>)))"

text \<open>A call on the leaf's page; a nil page panics.\<close>

definition on_page :: "(btree_page \<Rightarrow> ('z world_scheme, 'a) go) \<Rightarrow> ('z, 'a) leaf_go" where
  "on_page m = bnd (obj_gets lf_page) (\<lambda>pg. case pg of None \<Rightarrow> panic | Some p \<Rightarrow> on_state (m p))"

text \<open>\<open>l.page, err = newBTreePage(...)\<close>: the page is nil when that fails.\<close>

definition lf_goto :: "int \<Rightarrow> ('z, unit) leaf_go" where
  "lf_goto b = bnd (obj_gets (\<lambda>l. (lf_tx l, lf_file l, lf_layout l))) (\<lambda>(t, fn, lay).
     bnd (on_page bp_close) (\<lambda>_.
     handle (on_state (newBTreePage t (NewBlockId fn b) lay))
       (\<lambda>p. obj_upd (\<lambda>l. l\<lparr>lf_page := Some p\<rparr>))
       (\<lambda>e. bnd (obj_upd (\<lambda>l. l\<lparr>lf_page := None\<rparr>)) (\<lambda>_. fail e))))"

fun lf_next_loop :: "nat \<Rightarrow> ('z, bool) leaf_go" where
  "lf_next_loop 0 = (\<lambda>s. (Inl OutOfFuel, s))"
| "lf_next_loop (Suc n) =
     bnd (on_page bp_getNumRecs) (\<lambda>k.
     bnd (obj_gets lf_slot) (\<lambda>slot.
     if slot < k then
       bnd (on_page (\<lambda>p. bp_getDataVal p slot)) (\<lambda>v.
       bnd (obj_gets lf_key) (\<lambda>key.
       bnd (lift_res (compareVals v key)) (\<lambda>c.
       if c = 0 then ret True
       else if c > 0 then ret False
       else bnd (obj_upd (\<lambda>l. l\<lparr>lf_slot := lf_slot l + 1\<rparr>)) (\<lambda>_. lf_next_loop n))))
     else
       bnd (on_page bp_getExtra1) (\<lambda>sibling.
       if sibling < 0 then ret False
       else
         bnd (lf_goto sibling) (\<lambda>_.
         bnd (obj_upd (\<lambda>l. l\<lparr>lf_slot := 0\<rparr>)) (\<lambda>_. lf_next_loop n)))))"

definition lf_next :: "nat \<Rightarrow> ('z, bool) leaf_go" where
  "lf_next n = bnd (obj_upd (\<lambda>l. l\<lparr>lf_slot := lf_slot l + 1\<rparr>)) (\<lambda>_. lf_next_loop n)"

definition lf_getDataRID :: "('z, record_id) leaf_go" where
  "lf_getDataRID = bnd (obj_gets lf_slot) (\<lambda>slot. on_page (\<lambda>p. bp_getDataRID p slot))"

definition lf_deleteCurrent :: "('z, unit) leaf_go" where
  "lf_deleteCurrent = bnd (obj_gets lf_slot) (\<lambda>slot. on_page (\<lambda>p. bp_delete p slot))"

definition lf_doInsert :: "int \<Rightarrow> val option \<Rightarrow> record_id \<Rightarrow> ('z, unit) leaf_go" where
  "lf_doInsert slot key rid =
     bnd (on_page (\<lambda>p. bp_insert p slot)) (\<lambda>_.
     bnd (on_page (\<lambda>p. bp_setDataVal p slot key)) (\<lambda>_.
     on_page (\<lambda>p. bp_setDataRID p slot rid)))"

definition lf_insert :: "val option \<Rightarrow> record_id \<Rightarrow> ('z, dir_entry option) leaf_go" where
  "lf_insert key rid =
     bnd (on_page bp_getNumRecs) (\<lambda>n.
     bnd (on_page (\<lambda>p. find_slot p (\<lambda>c. c \<ge> 0) key n [0..n - 1])) (\<lambda>slot.
     bnd (on_page bp_isFull) (\<lambda>full.
     if full then
       bnd (on_page bp_getExtra1) (\<lambda>sibling.
       bnd (obj_gets (\<lambda>l. (lf_tx l, lf_file l, lf_layout l))) (\<lambda>(t, fn, lay).
       bnd (on_page (\<lambda>p. bp_split p fn (go_div n 2) sibling)) (\<lambda>newBlkNum.
       bnd (on_page (\<lambda>p. bp_setExtra1 p newBlkNum)) (\<lambda>_.
       bnd (on_state (newBTreePage t (NewBlockId fn newBlkNum) lay)) (\<lambda>newPage.
       bnd (on_state (closing (bp_getDataVal newPage 0) (bp_close newPage))) (\<lambda>splitKey.
       bnd (lift_res (compareVals key splitKey)) (\<lambda>c.
       bnd (if c < 0 then lf_doInsert slot key rid
            else
              bnd (lf_goto newBlkNum) (\<lambda>_.
              bnd (on_page (\<lambda>p. or_else (bp_getNumRecs p) 0)) (\<lambda>nn.
              bnd (on_page (\<lambda>p. find_slot_unchecked p (\<lambda>c. c \<ge> 0) key nn [0..nn - 1])) (\<lambda>insertSlot.
              lf_doInsert insertSlot key rid)))) (\<lambda>_.
       ret (Some (splitKey, newBlkNum))))))))))
     else bnd (lf_doInsert slot key rid) (\<lambda>_. ret None))))"

section \<open>The index\<close>

record btree_index =
  bi_tx :: int
  bi_name :: string
  bi_leafLayout :: layout
  bi_dirLayout :: layout
  bi_root :: block_id
  bi_leaf :: "btree_leaf option"

type_synonym ('z, 'a) index_go = "(btree_index \<times> 'z world_scheme, 'a) go"

definition leafFile :: "string \<Rightarrow> string" where "leafFile indexName = indexName @ ''.leaf''"
definition dirFile :: "string \<Rightarrow> string" where "dirFile indexName = indexName @ ''.dir''"

text \<open>The first use makes an empty leaf and a root whose leftmost child it is.\<close>

definition btree_init :: "int \<Rightarrow> string \<Rightarrow> layout \<Rightarrow> layout \<Rightarrow> ('z world_scheme, unit) go" where
  "btree_init t indexName leafLayout dirLayout =
     bnd (tx_Append t (leafFile indexName)) (\<lambda>leaf0.
     bnd (newBTreePage t leaf0 leafLayout) (\<lambda>lp.
     bnd (closing (bp_format lp) (bp_close lp)) (\<lambda>_.
     bnd (tx_Append t (dirFile indexName)) (\<lambda>root.
     bnd (newBTreePage t root dirLayout) (\<lambda>rp.
     closing
       (bnd (bp_format rp) (\<lambda>_.
        bnd (bp_setExtra1 rp 0) (\<lambda>_.
        bp_setExtra2 rp 0)))
       (bp_close rp))))))"

definition btree_NewIndex :: "int \<Rightarrow> string \<Rightarrow> layout \<Rightarrow> ('z world_scheme, btree_index) go" where
  "btree_NewIndex t indexName leafLayout =
     bnd (lift_res (NewLayout (AddIntField BlockField (Add DataValueField (lay_schema leafLayout) NewSchema)))) (\<lambda>dirLayout.
     bnd (tx_Size t (leafFile indexName)) (\<lambda>leafSize.
     bnd (if leafSize = 0 then btree_init t indexName leafLayout dirLayout else ret ()) (\<lambda>_.
     ret \<lparr>bi_tx = t, bi_name = indexName, bi_leafLayout = leafLayout, bi_dirLayout = dirLayout,
       bi_root = NewBlockId (dirFile indexName) 0, bi_leaf = None\<rparr>)))"

function search_cost_loop :: "int \<Rightarrow> int \<Rightarrow> int \<Rightarrow> int" where
  "search_cost_loop n recordsPerBlock cost =
     (if 1 < n \<and> 1 < recordsPerBlock then search_cost_loop (go_div n recordsPerBlock) recordsPerBlock (cost + 1) else cost)"
  by auto

termination
proof (relation "measure (\<lambda>(n, r, c). nat n)")
  show "((go_div n r, r, c + 1), n, r, c) \<in> measure (\<lambda>(n, r, c). nat n)" if "1 < n \<and> 1 < r" for n r c :: int
    using that int_div_less_self [of n r] by simp
qed simp

declare search_cost_loop.simps [simp del]

definition btree_SearchCost :: "int \<Rightarrow> int \<Rightarrow> int" where
  "btree_SearchCost numBlocks recordsPerBlock =
     (if recordsPerBlock \<le> 1 then numBlocks else search_cost_loop numBlocks recordsPerBlock 1)"

text \<open>A method of the leaf the index has open.\<close>

definition on_leaf :: "('z, 'a) leaf_go \<Rightarrow> ('z, 'a) index_go" where
  "on_leaf m = (\<lambda>(ix, s). case bi_leaf ix of None \<Rightarrow> (Inl Panic, (ix, s))
     | Some l \<Rightarrow> (case m (l, s) of (r, (l', s')) \<Rightarrow> (r, (ix\<lparr>bi_leaf := Some l'\<rparr>, s'))))"

definition bi_Close :: "('z, unit) index_go" where
  "bi_Close = bnd (obj_gets bi_leaf) (\<lambda>l. case l of None \<Rightarrow> ret ()
     | Some _ \<Rightarrow> bnd (on_leaf lf_close) (\<lambda>_. obj_upd (\<lambda>ix. ix\<lparr>bi_leaf := None\<rparr>)))"

definition bi_BeforeFirst :: "nat \<Rightarrow> val option \<Rightarrow> ('z, unit) index_go" where
  "bi_BeforeFirst fuel searchKey =
     bnd bi_Close (\<lambda>_.
     bnd (obj_gets id) (\<lambda>ix.
     bnd (on_state (newBTreeDir (bi_tx ix) (bi_root ix) (bi_dirLayout ix))) (\<lambda>dir.
     bnd (on_state (closing (dr_search fuel dir searchKey) (dr_close dir))) (\<lambda>leafBlkNum.
     bnd (on_state (newBTreeLeaf (bi_tx ix) (NewBlockId (leafFile (bi_name ix)) leafBlkNum) (bi_leafLayout ix) searchKey))
       (\<lambda>leaf. obj_upd (\<lambda>ix. ix\<lparr>bi_leaf := Some leaf\<rparr>))))))"

definition bi_Next :: "nat \<Rightarrow> ('z, bool) index_go" where
  "bi_Next fuel = on_leaf (lf_next fuel)"

definition bi_GetDataRecordID :: "('z, record_id) index_go" where
  "bi_GetDataRecordID = on_leaf lf_getDataRID"

definition bi_Insert :: "nat \<Rightarrow> val option \<Rightarrow> record_id \<Rightarrow> ('z, unit) index_go" where
  "bi_Insert fuel dataValue rid =
     bnd (obj_gets id) (\<lambda>ix.
     on_state (
       bnd (newBTreeDir (bi_tx ix) (bi_root ix) (bi_dirLayout ix)) (\<lambda>dir.
       closing
         (bnd (dr_search fuel dir dataValue) (\<lambda>leafBlkNum.
          bnd (newBTreeLeaf (bi_tx ix) (NewBlockId (leafFile (bi_name ix)) leafBlkNum) (bi_leafLayout ix) dataValue) (\<lambda>leaf.
          bnd (run_local leaf (closing (lf_insert dataValue rid) lf_close)) (\<lambda>split.
          case split of None \<Rightarrow> ret ()
          | Some (k, b) \<Rightarrow>
              bnd (dr_insert fuel dir k b) (\<lambda>rootSplit.
              case rootSplit of None \<Rightarrow> ret () | Some e \<Rightarrow> dr_makeNewRoot fuel dir e)))))
         (dr_close dir))))"

fun bi_delete_loop :: "nat \<Rightarrow> record_id \<Rightarrow> ('z, unit) index_go" where
  "bi_delete_loop 0 rid = (\<lambda>s. (Inl OutOfFuel, s))"
| "bi_delete_loop (Suc n) rid =
     bnd (bi_Next (Suc n)) (\<lambda>has.
     if \<not> has then ret ()
     else bnd bi_GetDataRecordID (\<lambda>r.
       if ID_Equals r rid then on_leaf lf_deleteCurrent else bi_delete_loop n rid))"

definition bi_Delete :: "nat \<Rightarrow> val option \<Rightarrow> record_id \<Rightarrow> ('z, unit) index_go" where
  "bi_Delete fuel dataValue rid =
     bnd (bi_BeforeFirst fuel dataValue) (\<lambda>_. with_defer (bi_delete_loop fuel rid) bi_Close)"

section \<open>Keys of one type are ordered\<close>

lemma cmp3_simps: "cmp3 a b = 0 \<longleftrightarrow> a = b" "cmp3 a b < 0 \<longleftrightarrow> a < b" "0 < cmp3 a b \<longleftrightarrow> b < a"
  "cmp3 a b \<le> 0 \<longleftrightarrow> a \<le> b" "0 \<le> cmp3 a b \<longleftrightarrow> b \<le> a"
  by (auto simp: cmp3_def)

section \<open>The cost of a search\<close>

text \<open>The loop runs as many rounds as the number of blocks has digits, in base \<open>recordsPerBlock\<close>.\<close>

lemma search_cost_power:
  assumes "1 < r" and "r ^ k \<le> n" and "n < r ^ Suc k"
  shows "c + int k \<le> search_cost_loop n r c \<and> search_cost_loop n r c \<le> c + int k + 1"
  using assms
proof (induction k arbitrary: n c)
  case 0
  show ?case
  proof (cases "1 < n")
    case True
    then have "go_div n r = n div r" using 0 by (intro go_div_nonneg) simp_all
    also have "\<dots> = 0" using 0 True by (intro div_pos_pos_trivial) simp_all
    finally have "search_cost_loop n r c = search_cost_loop 0 r (c + 1)"
      using 0 True by (subst search_cost_loop.simps) simp
    then show ?thesis by (simp add: search_cost_loop.simps [of 0])
  qed (simp add: search_cost_loop.simps [of n])
next
  case (Suc k)
  have "1 < r ^ Suc k" using Suc.prems(1) by (rule one_less_power) simp
  then have n: "1 < n" using Suc.prems(2) by linarith
  have d: "go_div n r = n div r" using n Suc.prems(1) by (intro go_div_nonneg) simp_all
  have "r ^ k \<le> n div r" "n div r < r ^ Suc k"
    using Suc.prems int_le_div_iff [of r "r ^ k" n] int_le_div_iff [of r "r ^ Suc k" n]
    by (simp_all add: mult.commute not_le [symmetric])
  from Suc.IH [OF Suc.prems(1) this, of "c + 1"] show ?case
    using n Suc.prems(1) d by (subst (1 2) search_cost_loop.simps) simp
qed

end
