(* ===== verification/BTreePages.thy ===== *)
theory BTreePages
  imports BTree Pins
begin

text \<open>
  \<^verbatim>\<open>index/btree/page.go\<close> and \<^verbatim>\<open>index/btree/leaf.go\<close>: a page as a list of entries.

  \<open>bt_slots p s es n x1 x2\<close> says what the bytes of the page's block mean: a header with the number of
  entries and two more values, and an entry in every slot that fits in the block; the first \<open>n\<close>
  are the page's entries, the others are left-overs. \<open>bt_page p s L x1 x2\<close> forgets the left-overs. The operations
  of a page refine those of the list: opening a gap, deleting, setting a field, searching.
\<close>

section \<open>Keys\<close>

text \<open>What \<open>compareVals\<close> returns for values of the same type.\<close>

fun val_type :: "val \<Rightarrow> SchemaType" where
  "val_type (VInt _) = Integer" | "val_type (VString _) = Varchar" | "val_type (VBool _) = Boolean"
| "val_type (VLong _) = Long" | "val_type (VShort _) = Short" | "val_type (VDate _) = Date"

definition vcmp :: "val \<Rightarrow> val \<Rightarrow> int" where
  "vcmp a b = (case compareVals (Some a) (Some b) of Inr c \<Rightarrow> c | Inl _ \<Rightarrow> 0)"

lemma compareVals_same: "val_type a = val_type b \<Longrightarrow> compareVals (Some a) (Some b) = Inr (vcmp a b)"
  by (cases a; cases b) (simp_all add: vcmp_def type_codes)

lemma compareVals_differ: "val_type a \<noteq> val_type b \<Longrightarrow> compareVals (Some a) (Some b) = Inl Panic"
  by (cases a; cases b) simp_all

lemma same_type_kind: "val_type a = val_type b \<Longrightarrow> same_kind a b"
  by (cases a; cases b) (simp_all add: type_codes)

lemma vcmp_trans:
  assumes "val_type a = val_type b" and "val_type b = val_type c" and "vcmp a b \<le> 0" and "vcmp b c \<le> 0"
  shows "vcmp a c \<le> 0"
  using assms by (cases a; cases b; cases c) (auto simp: vcmp_def cmp3_def type_codes split: if_splits)

lemma vcmp_anti: "val_type a = val_type b \<Longrightarrow> vcmp b a = - vcmp a b"
  by (cases a; cases b) (auto simp: vcmp_def cmp3_def type_codes)

section \<open>Slots of a block\<close>

type_synonym entry = "string \<Rightarrow> val"

abbreviation rp_of :: "btree_page \<Rightarrow> record_page" where
  "rp_of p \<equiv> \<lparr>rp_tx = bp_tx p, rp_block = bp_block p, rp_layout = bp_layout p\<rparr>"

abbreviation bt_fields :: "btree_page \<Rightarrow> string list" where
  "bt_fields p \<equiv> sch_fields (lay_schema (bp_layout p))"

abbreviation bt_size :: "btree_page \<Rightarrow> string \<Rightarrow> int" where
  "bt_size p f \<equiv> size_of (lay_schema (bp_layout p)) f"

definition val_in :: "btree_page \<Rightarrow> string \<Rightarrow> val \<Rightarrow> bool" where
  "val_in p f v \<longleftrightarrow> val_ok v \<and> int (length (val_enc v)) \<le> bt_size p f \<and>
     val_type v = schema_Type (lay_schema (bp_layout p)) f"

definition bt_cap :: "btree_page \<Rightarrow> int \<Rightarrow> nat" where
  "bt_cap p bs = nat ((bs - headerSize) div slotSize (bp_layout p))"

definition bt_entry :: "btree_page \<Rightarrow> page \<Rightarrow> int \<Rightarrow> entry \<Rightarrow> bool" where
  "bt_entry p pg k e \<longleftrightarrow> (\<forall>f \<in> set (bt_fields p). has pg (entryOffset p k f) (val_enc (e f)) \<and> val_in p f (e f))"

text \<open>The layout, and log records of the page's values that fit in a log block.\<close>

definition bt_wf :: "btree_page \<Rightarrow> int \<Rightarrow> bool" where
  "bt_wf p bs \<longleftrightarrow> layout_wf (bp_layout p) \<and> (\<forall>f \<in> set (bt_fields p). field_ok (lay_schema (bp_layout p)) f) \<and>
     (\<forall>f \<in> set (bt_fields p). value_pos (File (bp_block p)) + 4 * bt_size p f + 8 \<le> bs) \<and>
     value_pos (File (bp_block p)) + 12 \<le> bs \<and> headerSize \<le> bs"

definition bt_bytes :: "btree_page \<Rightarrow> page \<Rightarrow> entry list \<Rightarrow> int \<Rightarrow> int \<Rightarrow> int \<Rightarrow> bool" where
  "bt_bytes p pg es n x1 x2 \<longleftrightarrow> length es = bt_cap p (int (length pg)) \<and> 0 \<le> n \<and> n \<le> int (length es) \<and>
     page_GetInt pg 0 = Inr n \<and> page_GetInt pg IntSize = Inr x1 \<and> page_GetInt pg (2 * IntSize) = Inr x2 \<and>
     (\<forall>k < length es. bt_entry p pg (int k) (es ! k))"

definition bt_slots :: "btree_page \<Rightarrow> 'z world_scheme \<Rightarrow> entry list \<Rightarrow> int \<Rightarrow> int \<Rightarrow> int \<Rightarrow> bool" where
  "bt_slots p s es n x1 x2 \<longleftrightarrow> rp_writable s (rp_of p) \<and> bt_wf p (blockSize s) \<and>
     bt_bytes p (blk_view s (bp_block p)) es n x1 x2"

lemma entry_pos: "entryOffset p k f = headerSize + rp_pos (rp_of p) k f"
  by (simp add: entryOffset_def rp_pos_def rp_offset_def)

lemma entry_apart:
  assumes "layout_wf (bp_layout p)" and "f \<in> set (bt_fields p)" and "g \<in> set (bt_fields p)" and "(j, f) \<noteq> (k, g)"
  shows "entryOffset p j f + bt_size p f \<le> entryOffset p k g \<or> entryOffset p k g + bt_size p g \<le> entryOffset p j f"
  using fields_apart [of "rp_of p" f g j k] assms by (simp add: entry_pos)

lemma entry_bounds:
  assumes wf: "layout_wf (bp_layout p)" and f: "f \<in> set (bt_fields p)" and k: "k < bt_cap p bs"
  shows "headerSize + IntSize \<le> entryOffset p (int k) f" and "entryOffset p (int k) f + bt_size p f \<le> bs"
proof -
  let ?z = "slotSize (bp_layout p)"
  have z: "0 < ?z" using wf by (simp add: layout_wf_def Let_def IntSize_def)
  note b = field_bounds [OF wf f]
  have "int k + 1 \<le> (bs - headerSize) div ?z" using k by (simp add: bt_cap_def)
  then have "(int k + 1) * ?z \<le> bs - headerSize" using int_le_div_iff [OF z] by blast
  then show "entryOffset p (int k) f + bt_size p f \<le> bs" using b by (simp add: entryOffset_def ring_distribs)
  have "0 \<le> int k * ?z" using z by simp
  then show "headerSize + IntSize \<le> entryOffset p (int k) f" using b by (simp add: entryOffset_def)
qed

lemma record_size_bound:
  assumes "val_ok v"
  shows "record_size (val_rec t b off v) \<le> value_pos (File b) + 4 * int (length (val_enc v))"
  by (cases v) (simp_all add: enc_int_def enc_string_def enc_bool_def enc_long_def enc_short_def enc_date_def MaxLength_def IntSize_def bytes_of_def)

lemma bt_bytes_length: "bt_bytes p pg es n x1 x2 \<Longrightarrow> k < length es \<Longrightarrow> k < bt_cap p (int (length pg))"
  by (simp add: bt_bytes_def)

lemma bt_bytes_set:
  assumes lay: "layout_wf (bp_layout p)" and b: "bt_bytes p pg es n x1 x2" and k: "k < length es"
    and f: "f \<in> set (bt_fields p)" and v: "val_in p f v"
  shows "bt_bytes p (bsplice (nat (entryOffset p (int k) f)) (val_enc v) pg) (es[k := (es ! k)(f := v)]) n x1 x2"
    and "length (bsplice (nat (entryOffset p (int k) f)) (val_enc v) pg) = length pg"
proof -
  let ?off = "entryOffset p (int k) f" and ?pg = "bsplice (nat (entryOffset p (int k) f)) (val_enc v) pg"
  note pos = entry_bounds [OF lay f bt_bytes_length [OF b k]]
  have off: "0 \<le> ?off" "headerSize \<le> ?off" using pos(1) by (simp_all add: headerSize_def IntSize_def)
  have "int (length (val_enc v)) \<le> bt_size p f" using v by (simp add: val_in_def)
  then have fit: "nat ?off + length (val_enc v) \<le> length pg" using pos(2) off(1) by linarith
  show len: "length ?pg = length pg" using fit by simp
  have head: "page_GetInt ?pg (h * IntSize) = page_GetInt pg (h * IntSize)" if "h \<in> {0, 1, 2}" for h
    by (rule page_GetInt_kept [OF off(1) fit]) (use that off(2) in \<open>auto simp: headerSize_def IntSize_def\<close>)
  have "bt_entry p ?pg (int j) ((es[k := (es ! k)(f := v)]) ! j)" if j: "j < length es" for j
    unfolding bt_entry_def
  proof (intro ballI)
    fix g
    assume g: "g \<in> set (bt_fields p)"
    have old: "has pg (entryOffset p (int j) g) (val_enc ((es ! j) g))" "val_in p g ((es ! j) g)"
      using b j g by (auto simp: bt_bytes_def bt_entry_def)
    show "has ?pg (entryOffset p (int j) g) (val_enc (((es[k := (es ! k)(f := v)]) ! j) g)) \<and>
        val_in p g (((es[k := (es ! k)(f := v)]) ! j) g)"
    proof (cases "(int j, g) = (int k, f)")
      case True
      then show ?thesis using k v has_new [OF off(1) fit] by simp
    next
      case False
      have "entryOffset p (int j) g + int (length (val_enc ((es ! j) g))) \<le> ?off \<or>
          ?off + int (length (val_enc v)) \<le> entryOffset p (int j) g"
        using entry_apart [OF lay g f False] old(2) v by (auto simp: val_in_def)
      then have "has ?pg (entryOffset p (int j) g) (val_enc ((es ! j) g))"
        by (rule has_kept [OF old(1) off(1) fit])
      moreover have "((es[k := (es ! k)(f := v)]) ! j) g = (es ! j) g"
        using False j by (cases "j = k") auto
      ultimately show ?thesis using old(2) by simp
    qed
  qed
  then show "bt_bytes p ?pg (es[k := (es ! k)(f := v)]) n x1 x2"
    using b head [of 0] head [of 1] head [of 2] len by (simp add: bt_bytes_def)
qed

lemma bt_bytes_head:
  assumes lay: "layout_wf (bp_layout p)" and b: "bt_bytes p pg es n x1 x2" and big: "headerSize \<le> int (length pg)"
    and h: "h \<in> {0, 1, 2}" and v: "int32_range v" and n: "h = 0 \<Longrightarrow> 0 \<le> v \<and> v \<le> int (length es)"
  shows "bt_bytes p (bsplice (nat (h * IntSize)) (enc_int v) pg) es (if h = 0 then v else n)
      (if h = 1 then v else x1) (if h = 2 then v else x2)"
    and "length (bsplice (nat (h * IntSize)) (enc_int v) pg) = length pg"
proof -
  let ?pg = "bsplice (nat (h * IntSize)) (enc_int v) pg"
  have off: "0 \<le> h * IntSize" "h * IntSize + 4 \<le> headerSize" using h by (auto simp: IntSize_def headerSize_def)
  have fit: "nat (h * IntSize) + length (enc_int v) \<le> length pg" using off big by simp
  show len: "length ?pg = length pg" using fit by simp
  have new: "page_GetInt ?pg (h * IntSize) = Inr v" by (rule has_read(1) [OF has_new [OF off(1) fit] v])
  have kept: "page_GetInt ?pg (g * IntSize) = page_GetInt pg (g * IntSize)" if "g \<in> {0, 1, 2}" "g \<noteq> h" for g
    by (rule page_GetInt_kept [OF off(1) fit]) (use that h in \<open>auto simp: IntSize_def\<close>)
  have "bt_entry p ?pg (int j) (es ! j)" if j: "j < length es" for j
    unfolding bt_entry_def
  proof (intro ballI)
    fix g
    assume g: "g \<in> set (bt_fields p)"
    have old: "has pg (entryOffset p (int j) g) (val_enc ((es ! j) g))" "val_in p g ((es ! j) g)"
      using b j g by (auto simp: bt_bytes_def bt_entry_def)
    have "h * IntSize + int (length (enc_int v)) \<le> entryOffset p (int j) g"
      using entry_bounds(1) [OF lay g bt_bytes_length [OF b j]] off(2) by (simp add: IntSize_def)
    then have "has ?pg (entryOffset p (int j) g) (val_enc ((es ! j) g))"
      by (intro has_kept [OF old(1) off(1) fit]) simp
    then show "has ?pg (entryOffset p (int j) g) (val_enc ((es ! j) g)) \<and> val_in p g ((es ! j) g)" using old(2) by simp
  qed
  then show "bt_bytes p ?pg es (if h = 0 then v else n) (if h = 1 then v else x1) (if h = 2 then v else x2)"
  proof -
    assume e: "\<And>j. j < length es \<Longrightarrow> bt_entry p ?pg (int j) (es ! j)"
    have old: "length es = bt_cap p (int (length pg))" "0 \<le> n" "n \<le> int (length es)"
      "page_GetInt pg 0 = Inr n" "page_GetInt pg IntSize = Inr x1" "page_GetInt pg (2 * IntSize) = Inr x2"
      using b by (simp_all add: bt_bytes_def)
    consider "h = 0" | "h = 1" | "h = 2" using h by blast
    then show ?thesis
    proof cases
      case 1
      then show ?thesis using e old n new kept [of 1] kept [of 2] len by (simp add: bt_bytes_def)
    next
      case 2
      then show ?thesis using e old new kept [of 0] kept [of 2] len by (simp add: bt_bytes_def)
    next
      case 3
      then show ?thesis using e old new kept [of 0] kept [of 1] len by (simp add: bt_bytes_def)
    qed
  qed
qed

section \<open>Reads and writes of a page\<close>

lemma bt_slots_locks:
  assumes "bt_slots p s es n x1 x2" and "locks_only (bp_tx p) s s'"
  shows "bt_slots p s' es n x1 x2"
proof -
  have w: "rp_writable s (rp_of p)" using assms(1) unfolding bt_slots_def by blast
  have "locks_only (rp_tx (rp_of p)) s s'" using assms(2) by (simp only: record_page.simps)
  from rp_writable_locks_only [OF w this] show ?thesis using assms(1) locks_only_same(2,6) [OF assms(2)] by (simp add: bt_slots_def)
qed

lemma bt_view_length: "bt_slots p s es n x1 x2 \<Longrightarrow> int (length (blk_view s (bp_block p))) = blockSize s"
  using rp_view_length [OF rp_writable_ready, of s "rp_of p"] by (simp add: bt_slots_def)

lemma bt_Get:
  assumes "bt_slots p s es n x1 x2"
  obtains s' where "tx_Get g (bp_tx p) (bp_block p) off s = (g (blk_view s (bp_block p)) off, s')"
    and "bt_slots p s' es n x1 x2" and "locks_only (bp_tx p) s s'"
proof -
  obtain i where h: "pool_inv s" "tx_holds s (bp_tx p) (bp_block p) i" "slockable s (bp_tx p) (bp_block p)"
    using rp_writable_ready [of s "rp_of p"] assms by (auto simp: bt_slots_def rp_ready_def)
  obtain s' where "tx_Get g (bp_tx p) (bp_block p) off s = (g (blk_view s (bp_block p)) off, s')" "locks_only (bp_tx p) s s'"
    by (rule tx_Get_spec [OF h])
  then show thesis using bt_slots_locks [OF assms] that by blast
qed

lemma bt_GetInt:
  assumes "bt_slots p s es n x1 x2" and "page_GetInt (blk_view s (bp_block p)) off = Inr v"
  shows "\<exists>s'. tx_GetInt (bp_tx p) (bp_block p) off s = (Inr v, s') \<and> bt_slots p s' es n x1 x2 \<and> locks_only (bp_tx p) s s'"
  unfolding tx_GetInt_def assms(2) [symmetric] by (rule bt_Get [OF assms(1), of page_GetInt off]) blast

lemma bt_header:
  assumes "bt_slots p s es n x1 x2"
  shows "\<exists>s'. bp_getNumRecs p s = (Inr n, s') \<and> bt_slots p s' es n x1 x2 \<and> locks_only (bp_tx p) s s'"
    and "\<exists>s'. bp_getExtra1 p s = (Inr x1, s') \<and> bt_slots p s' es n x1 x2 \<and> locks_only (bp_tx p) s s'"
    and "\<exists>s'. bp_getExtra2 p s = (Inr x2, s') \<and> bt_slots p s' es n x1 x2 \<and> locks_only (bp_tx p) s s'"
proof -
  have h: "page_GetInt (blk_view s (bp_block p)) 0 = Inr n" "page_GetInt (blk_view s (bp_block p)) IntSize = Inr x1"
    "page_GetInt (blk_view s (bp_block p)) (2 * IntSize) = Inr x2"
    using assms unfolding bt_slots_def bt_bytes_def by blast+
  note get = bt_GetInt [OF assms]
  show "\<exists>s'. bp_getNumRecs p s = (Inr n, s') \<and> bt_slots p s' es n x1 x2 \<and> locks_only (bp_tx p) s s'"
    unfolding bp_getNumRecs_def by (rule get [OF h(1)])
  show "\<exists>s'. bp_getExtra1 p s = (Inr x1, s') \<and> bt_slots p s' es n x1 x2 \<and> locks_only (bp_tx p) s s'"
    unfolding bp_getExtra1_def by (rule get [OF h(2)])
  show "\<exists>s'. bp_getExtra2 p s = (Inr x2, s') \<and> bt_slots p s' es n x1 x2 \<and> locks_only (bp_tx p) s s'"
    unfolding bp_getExtra2_def by (rule get [OF h(3)])
qed

lemma bt_getAs:
  assumes b: "bt_slots p s es n x1 x2" and k: "k < length es" and f: "f \<in> set (bt_fields p)"
  shows "\<exists>s'. tx_getAs (schema_Type (lay_schema (bp_layout p)) f) (bp_tx p) (bp_block p) (entryOffset p (int k) f) other s =
      (Inr (Some ((es ! k) f)), s') \<and> bt_slots p s' es n x1 x2 \<and> locks_only (bp_tx p) s s'"
proof -
  let ?v = "(es ! k) f" and ?pg = "blk_view s (bp_block p)" and ?off = "entryOffset p (int k) f"
  have h: "has ?pg ?off (val_enc ?v)" and ok: "val_ok ?v" and ty: "schema_Type (lay_schema (bp_layout p)) f = val_type ?v"
    using b k f by (auto simp: bt_slots_def bt_bytes_def bt_entry_def val_in_def)
  have read: "\<exists>s'. bnd (tx_Get g (bp_tx p) (bp_block p) ?off) (\<lambda>v. ret (Some (c v))) s = (Inr (Some (c x)), s') \<and>
      bt_slots p s' es n x1 x2 \<and> locks_only (bp_tx p) s s'" if "g ?pg ?off = Inr x"
    for g :: "page \<Rightarrow> int \<Rightarrow> 'x res" and c :: "'x \<Rightarrow> val" and x
  proof -
    obtain s' where "tx_Get g (bp_tx p) (bp_block p) ?off s = (g ?pg ?off, s')" "bt_slots p s' es n x1 x2" "locks_only (bp_tx p) s s'"
      by (rule bt_Get [OF b, of g ?off])
    then show ?thesis using that by (simp add: bnd_def go_unfold)
  qed
  show ?thesis
    unfolding ty using h ok
    by (cases ?v) (simp_all add: tx_getAs_def type_codes tx_GetInt_def tx_GetString_def tx_GetBool_def tx_GetLong_def
      tx_GetShort_def tx_GetDate_def read has_read)
qed

text \<open>A step of the page's transaction that changes at most the page's block: what it keeps.\<close>

definition touches :: "btree_page \<Rightarrow> 'z world_scheme \<Rightarrow> 'z world_scheme \<Rightarrow> bool" where
  "touches p s s' \<longleftrightarrow> blockSize s' = blockSize s \<and> logFile s' = logFile s \<and>
     (\<forall>n. n \<noteq> logFile s \<longrightarrow> nblocks s' n = nblocks s n) \<and>
     (\<forall>c. in_file s c \<longrightarrow> File c \<noteq> logFile s \<longrightarrow> c \<noteq> bp_block p \<longrightarrow> blk_view s' c = blk_view s c) \<and>
     (\<forall>c. can_xlock s (bp_tx p) c \<longrightarrow> can_xlock s' (bp_tx p) c) \<and>
     (\<forall>c i. tx_holds s (bp_tx p) c i \<longrightarrow> tx_holds s' (bp_tx p) c i) \<and> (pool_inv s \<longrightarrow> pool_inv s') \<and>
     (\<forall>bs. pins_are s (bp_tx p) bs \<longrightarrow> pins_are s' (bp_tx p) bs) \<and> own_buffers s' (bp_tx p) = own_buffers s (bp_tx p)"

lemma touches_refl: "touches p s s"
  by (simp add: touches_def)

lemma touches_trans: "touches p s s' \<Longrightarrow> touches p s' s'' \<Longrightarrow> touches p s s''"
  unfolding touches_def in_file_def by auto

lemma touches_locks: "locks_only (bp_tx p) s s' \<Longrightarrow> touches p s s'"
  using locks_only_same [of "bp_tx p" s s'] locks_only_lock(1) [of "bp_tx p" s s'] pins_are_cong [of s' "bp_tx p" s]
  unfolding touches_def by simp

lemma touches_updates: "updates (bp_tx p) (bp_block p) pg s s' \<Longrightarrow> touches p s s'"
  using updates_pins(1) [of "bp_tx p" "bp_block p" pg s s' "bp_tx p"] updates_own [of "bp_tx p" "bp_block p" pg s s' "bp_tx p"]
  unfolding touches_def updates_def by simp

lemma touches_slots:
  assumes t: "touches p s s'" and q: "bp_tx q = bp_tx p" "bp_block q \<noteq> bp_block p" "bt_slots q s es n x1 x2"
  shows "bt_slots q s' es n x1 x2"
proof -
  have w: "rp_writable s (rp_of q)" using q(3) unfolding bt_slots_def by blast
  then obtain i where i: "pool_inv s" "tx_holds s (bp_tx q) (bp_block q) i" by (auto simp: rp_writable_def)
  have v: "blk_view s' (bp_block q) = blk_view s (bp_block q)"
    using t q(2) tx_holds_data(1,2) [OF i] by (simp add: touches_def)
  have "tx_holds s' (bp_tx q) (bp_block q) i" "pool_inv s'" "can_xlock s' (bp_tx q) (bp_block q)" "blockSize s' = blockSize s"
    using w t i q(1) unfolding rp_writable_def touches_def by simp_all
  then have "rp_writable s' (rp_of q)" using w unfolding rp_writable_def by auto
  then show ?thesis using q(3) v t by (simp add: bt_slots_def touches_def)
qed

lemma bt_written:
  assumes b: "bt_slots p s es n x1 x2" and u: "updates (bp_tx p) (bp_block p) pg s s'"
    and new: "bt_bytes p pg es' n' x1' x2'"
  shows "bt_slots p s' es' n' x1' x2'" and "touches p s s'"
proof -
  have w: "rp_writable s (rp_of p)" using b unfolding bt_slots_def by blast
  have u': "updates (rp_tx (rp_of p)) (rp_block (rp_of p)) pg s s'" using u by simp
  from rp_writable_updates [OF w u'] have "rp_writable s' (rp_of p)" "blk_view s' (bp_block p) = pg" by simp_all
  then show "bt_slots p s' es' n' x1' x2'" using b u new by (simp add: bt_slots_def updates_def)
  show "touches p s s'" by (rule touches_updates [OF u])
qed

lemma bt_SetVal:
  assumes b: "bt_slots p s es n x1 x2" and k: "k < length es" and f: "f \<in> set (bt_fields p)" and v: "val_in p f v"
  shows "\<exists>s'. tx_SetVal (bp_tx p) (bp_block p) (entryOffset p (int k) f) v True s = (Inr (), s') \<and>
    bt_slots p s' (es[k := (es ! k)(f := v)]) n x1 x2 \<and> touches p s s'"
proof -
  let ?old = "(es ! k) f" and ?pg = "blk_view s (bp_block p)" and ?off = "entryOffset p (int k) f"
  have w: "rp_writable s (rp_of p)" and wf: "bt_wf p (blockSize s)" and by': "bt_bytes p ?pg es n x1 x2"
    using b unfolding bt_slots_def by blast+
  have lay: "layout_wf (bp_layout p)" using wf by (simp add: bt_wf_def)
  have old: "has ?pg ?off (val_enc ?old)" "val_in p f ?old" using by' k f by (auto simp: bt_bytes_def bt_entry_def)
  have cap: "k < bt_cap p (blockSize s)" using bt_bytes_length [OF by' k] bt_view_length [OF b] by simp
  note pos = entry_bounds [OF lay f cap]
  have len: "int (length (val_enc v)) \<le> bt_size p f" "int (length (val_enc ?old)) \<le> bt_size p f"
    using v old(2) by (simp_all add: val_in_def)
  have off: "0 \<le> ?off" using pos(1) by (simp add: headerSize_def IntSize_def)
  have end': "?off + int (length (val_enc v)) \<le> blockSize s" using pos(2) len(1) by linarith
  have vals: "val_ok v" "val_ok ?old" "same_kind ?old v"
    using v old(2) by (simp_all add: val_in_def same_type_kind)
  have "value_pos (File (bp_block p)) + 4 * bt_size p f + 8 \<le> blockSize s" using wf f by (simp add: bt_wf_def)
  then have sz: "record_size (val_rec (bp_tx p) (bp_block p) ?off ?old) + 8 \<le> blockSize s"
    using record_size_bound [OF vals(2), of "bp_tx p" "bp_block p" ?off] len(2) by linarith
  obtain s' where s': "tx_SetVal (bp_tx p) (bp_block p) ?off v True s = (Inr (), s')"
    "updates (bp_tx p) (bp_block p) (bsplice (nat ?off) (val_enc v) ?pg) s s'"
    using rp_update [of s "rp_of p" ?off v ?old] w off end' vals old(1) sz by auto
  show ?thesis
    using s'(1) bt_written [OF b s'(2) bt_bytes_set(1) [OF lay by' k f v]] by blast
qed

lemma bt_SetHeader:
  assumes b: "bt_slots p s es n x1 x2" and h: "h \<in> {0, 1, 2}" and v: "int32_range v"
    and n: "h = 0 \<Longrightarrow> 0 \<le> v \<and> v \<le> int (length es)"
  shows "\<exists>s'. tx_SetInt (bp_tx p) (bp_block p) (h * IntSize) v True s = (Inr (), s') \<and> touches p s s' \<and>
    bt_slots p s' es (if h = 0 then v else n) (if h = 1 then v else x1) (if h = 2 then v else x2)"
proof -
  let ?pg = "blk_view s (bp_block p)" and ?off = "h * IntSize"
  have w: "rp_writable s (rp_of p)" and wf: "bt_wf p (blockSize s)" and by': "bt_bytes p ?pg es n x1 x2"
    using b unfolding bt_slots_def by blast+
  have lay: "layout_wf (bp_layout p)" and big: "headerSize \<le> int (length ?pg)" "headerSize \<le> blockSize s"
    using wf bt_view_length [OF b] by (simp_all add: bt_wf_def)
  have off: "0 \<le> ?off" "?off + int (length (val_enc (VInt v))) \<le> blockSize s"
    using h big(2) by (auto simp: headerSize_def IntSize_def)
  obtain old where "page_GetInt ?pg ?off = Inr old" using by' h by (auto simp: bt_bytes_def)
  note old = GetInt_has [OF this]
  have sz: "record_size (val_rec (bp_tx p) (bp_block p) ?off (VInt old)) + 8 \<le> blockSize s"
    using wf by (simp add: bt_wf_def)
  obtain s' where s': "tx_SetVal (bp_tx p) (bp_block p) ?off (VInt v) True s = (Inr (), s')"
    "updates (bp_tx p) (bp_block p) (bsplice (nat ?off) (val_enc (VInt v)) ?pg) s s'"
    using rp_update [of s "rp_of p" ?off "VInt v" "VInt old"] w off v old sz by auto
  have new: "bt_bytes p (bsplice (nat ?off) (val_enc (VInt v)) ?pg) es (if h = 0 then v else n)
      (if h = 1 then v else x1) (if h = 2 then v else x2)"
    using bt_bytes_head(1) [OF lay by' big(1) h v n] by simp
  show ?thesis using s'(1) bt_written [OF b s'(2) new] by simp
qed

lemma bt_setters:
  assumes b: "bt_slots p s es n x1 x2" and v: "int32_range v"
  shows "0 \<le> v \<Longrightarrow> v \<le> int (length es) \<Longrightarrow>
      \<exists>s'. bp_setNumRecs p v s = (Inr (), s') \<and> touches p s s' \<and> bt_slots p s' es v x1 x2"
    and "\<exists>s'. bp_setExtra1 p v s = (Inr (), s') \<and> touches p s s' \<and> bt_slots p s' es n v x2"
    and "\<exists>s'. bp_setExtra2 p v s = (Inr (), s') \<and> touches p s s' \<and> bt_slots p s' es n x1 v"
  using bt_SetHeader [OF b, of 0 v] bt_SetHeader [OF b, of 1 v] bt_SetHeader [OF b, of 2 v] v
  by (simp_all add: bp_setNumRecs_def bp_setExtra1_def bp_setExtra2_def)

section \<open>Moving entries\<close>

lemma bt_slots_cong:
  assumes "bt_slots p s es n x1 x2" and "length es' = length es"
    and "\<And>k f. k < length es \<Longrightarrow> f \<in> set (bt_fields p) \<Longrightarrow> (es' ! k) f = (es ! k) f"
  shows "bt_slots p s es' n x1 x2"
  using assms unfolding bt_slots_def bt_bytes_def bt_entry_def by auto

lemma bt_val_in: "bt_slots p s es n x1 x2 \<Longrightarrow> k < length es \<Longrightarrow> f \<in> set (bt_fields p) \<Longrightarrow> val_in p f ((es ! k) f)"
  by (auto simp: bt_slots_def bt_bytes_def bt_entry_def)

lemma bt_transfer_field:
  assumes b: "bt_slots p s es n x1 x2" and k: "src < length es" "dst < length es" and f: "f \<in> set (bt_fields p)"
  shows "\<exists>s'. transfer_field p (int src) p (int dst) f s = (Inr (), s') \<and> touches p s s' \<and>
    bt_slots p s' (es[dst := (es ! dst)(f := (es ! src) f)]) n x1 x2"
proof -
  obtain s1 where s1: "tx_getAs (schema_Type (lay_schema (bp_layout p)) f) (bp_tx p) (bp_block p) (entryOffset p (int src) f)
      (ret None) s = (Inr (Some ((es ! src) f)), s1)" "bt_slots p s1 es n x1 x2" "locks_only (bp_tx p) s s1"
    using bt_getAs [OF b k(1) f] by blast
  obtain s2 where s2: "tx_SetVal (bp_tx p) (bp_block p) (entryOffset p (int dst) f) ((es ! src) f) True s1 = (Inr (), s2)"
    "bt_slots p s2 (es[dst := (es ! dst)(f := (es ! src) f)]) n x1 x2" "touches p s1 s2"
    using bt_SetVal [OF s1(2) k(2) f bt_val_in [OF b k(1) f]] by blast
  have "transfer_field p (int src) p (int dst) f s = (Inr (), s2)"
    using s1(1) s2(1) by (simp add: transfer_field_def bnd_Inr)
  then show ?thesis using s2(2,3) touches_trans [OF touches_locks [OF s1(3)]] by blast
qed

lemma bt_transfer_fields:
  assumes "bt_slots p s es n x1 x2" and k: "src < length es" "dst < length es" "src \<noteq> dst" and "set fs \<subseteq> set (bt_fields p)"
  shows "\<exists>s'. for_each fs (transfer_field p (int src) p (int dst)) s = (Inr (), s') \<and> touches p s s' \<and>
    bt_slots p s' (es[dst := override_on (es ! dst) (es ! src) (set fs)]) n x1 x2"
  using assms(1,5) k
proof (induction fs arbitrary: s es)
  case Nil
  then show ?case using touches_refl by (simp add: go_unfold)
next
  case (Cons f fs)
  let ?es = "es[dst := (es ! dst)(f := (es ! src) f)]"
  have f: "f \<in> set (bt_fields p)" and fs: "set fs \<subseteq> set (bt_fields p)" using Cons.prems(2) by auto
  obtain s1 where s1: "transfer_field p (int src) p (int dst) f s = (Inr (), s1)" "touches p s s1" "bt_slots p s1 ?es n x1 x2"
    using bt_transfer_field [OF Cons.prems(1,3,4) f] by blast
  have k': "src < length ?es" "dst < length ?es" using Cons.prems(3,4) by simp_all
  obtain s' where s': "for_each fs (transfer_field p (int src) p (int dst)) s1 = (Inr (), s')" "touches p s1 s'"
    "bt_slots p s' (?es[dst := override_on (?es ! dst) (?es ! src) (set fs)]) n x1 x2"
    using Cons.IH [OF s1(3) fs k' Cons.prems(5)] by blast
  have "override_on (?es ! dst) (?es ! src) (set fs) = override_on (es ! dst) (es ! src) (set (f # fs))"
    using Cons.prems(4,5) by (auto simp: fun_eq_iff override_on_def)
  then show ?case using s1(1) s'(1,3) touches_trans [OF s1(2) s'(2)] by (auto simp: bnd_Inr)
qed

lemma bt_copy:
  assumes b: "bt_slots p s es n x1 x2" and k: "src < length es" "dst < length es" "src \<noteq> dst"
  shows "\<exists>s'. bp_copyRecord p (int src) (int dst) s = (Inr (), s') \<and> touches p s s' \<and>
    bt_slots p s' (es[dst := es ! src]) n x1 x2"
proof -
  obtain s' where s': "for_each (bt_fields p) (transfer_field p (int src) p (int dst)) s = (Inr (), s')" "touches p s s'"
    "bt_slots p s' (es[dst := override_on (es ! dst) (es ! src) (set (bt_fields p))]) n x1 x2"
    using bt_transfer_fields [OF b k order_refl] by blast
  have "bt_slots p s' (es[dst := es ! src]) n x1 x2"
  proof (rule bt_slots_cong [OF s'(3)])
    show "((es[dst := es ! src]) ! j) f = ((es[dst := override_on (es ! dst) (es ! src) (set (bt_fields p))]) ! j) f"
      if "f \<in> set (bt_fields p)" for j f
      using that k(2) by (cases "j = dst") simp_all
  qed simp
  then show ?thesis using s'(1,2) by (simp add: bp_copyRecord_def bp_transferTo_def)
qed

text \<open>The entries from \<open>lo\<close> to \<open>hi - 1\<close> moved up by one slot, from the last to the first.\<close>

definition shift_up :: "nat \<Rightarrow> nat \<Rightarrow> 'a list \<Rightarrow> 'a list" where
  "shift_up lo hi es = map (\<lambda>i. if lo < i \<and> i \<le> hi then es ! (i - 1) else es ! i) [0..<length es]"

lemma shift_up_length [simp]: "length (shift_up lo hi es) = length es"
  by (simp add: shift_up_def)

lemma shift_up_nth: "i < length es \<Longrightarrow> shift_up lo hi es ! i = (if lo < i \<and> i \<le> hi then es ! (i - 1) else es ! i)"
  by (simp add: shift_up_def)

lemma shift_up_step: "lo < hi \<Longrightarrow> hi < length es \<Longrightarrow> shift_up lo hi es = shift_up lo (hi - 1) (es[hi := es ! (hi - 1)])"
  by (rule nth_equalityI) (auto simp: shift_up_def nth_list_update)

lemma shift_up_none: "hi \<le> lo \<Longrightarrow> shift_up lo hi es = es"
  by (rule nth_equalityI) (auto simp: shift_up_def)

lemma bt_shift_up:
  assumes "bt_slots p s es n x1 x2" and "lo \<le> hi" and "hi < length es"
  shows "\<exists>s'. for_each (rev [int lo + 1..int hi]) (\<lambda>i. bp_copyRecord p (i - 1) i) s = (Inr (), s') \<and> touches p s s' \<and>
    bt_slots p s' (shift_up lo hi es) n x1 x2"
  using assms
proof (induction "hi - lo" arbitrary: hi s es)
  case 0
  then show ?case using touches_refl [of p s] shift_up_none [of hi lo es] by (auto simp: go_unfold)
next
  case (Suc d)
  have hi: "lo < hi" using Suc.hyps(2) by linarith
  have "[int lo + 1..int hi] = [int lo + 1..int (hi - 1)] @ [int hi]"
    using upto_rec2 [of "int lo + 1" "int hi"] hi by (simp add: of_nat_diff)
  then have list: "rev [int lo + 1..int hi] = int hi # rev [int lo + 1..int (hi - 1)]" by simp
  have k: "hi - 1 < length es" "hi < length es" "hi - 1 \<noteq> hi" using hi Suc.prems(3) by simp_all
  obtain s1 where s1: "bp_copyRecord p (int (hi - 1)) (int hi) s = (Inr (), s1)" "touches p s s1"
    "bt_slots p s1 (es[hi := es ! (hi - 1)]) n x1 x2"
    using bt_copy [OF Suc.prems(1) k] by blast
  have "d = hi - 1 - lo" "lo \<le> hi - 1" "hi - 1 < length (es[hi := es ! (hi - 1)])" using Suc.hyps(2) hi k by simp_all
  then obtain s' where s': "for_each (rev [int lo + 1..int (hi - 1)]) (\<lambda>i. bp_copyRecord p (i - 1) i) s1 = (Inr (), s')"
    "touches p s1 s'" "bt_slots p s' (shift_up lo (hi - 1) (es[hi := es ! (hi - 1)])) n x1 x2"
    using Suc.hyps(1) [of "hi - 1" s1 "es[hi := es ! (hi - 1)]"] s1(3) by blast
  have "int (hi - 1) = int hi - 1" using hi by simp
  then have run: "bp_copyRecord p (int hi - 1) (int hi) s = (Inr (), s1)" using s1(1) by (simp only:)
  have "for_each (rev [int lo + 1..int hi]) (\<lambda>i. bp_copyRecord p (i - 1) i) s = (Inr (), s')"
    unfolding list for_each.simps by (simp only: bnd_def run sum.case prod.case s'(1))
  then show ?case using s'(3) touches_trans [OF s1(2) s'(2)] unfolding shift_up_step [OF hi Suc.prems(3)] by blast
qed

text \<open>The entries behind \<open>lo\<close>, below \<open>hi\<close>, moved down by one slot.\<close>

definition shift_down :: "nat \<Rightarrow> nat \<Rightarrow> 'a list \<Rightarrow> 'a list" where
  "shift_down lo hi es = map (\<lambda>i. if lo \<le> i \<and> Suc i < hi then es ! Suc i else es ! i) [0..<length es]"

lemma shift_down_length [simp]: "length (shift_down lo hi es) = length es"
  by (simp add: shift_down_def)

lemma shift_down_nth: "i < length es \<Longrightarrow> shift_down lo hi es ! i = (if lo \<le> i \<and> Suc i < hi then es ! Suc i else es ! i)"
  by (simp add: shift_down_def)

lemma shift_down_step: "Suc lo < hi \<Longrightarrow> hi \<le> length es \<Longrightarrow> shift_down lo hi es = shift_down (Suc lo) hi (es[lo := es ! Suc lo])"
  by (rule nth_equalityI) (auto simp: shift_down_def nth_list_update)

lemma shift_down_none: "hi \<le> Suc lo \<Longrightarrow> shift_down lo hi es = es"
  by (rule nth_equalityI) (auto simp: shift_down_def)

lemma bt_shift_down:
  assumes "bt_slots p s es n x1 x2" and "hi \<le> length es"
  shows "\<exists>s'. for_each [int lo + 1..int hi - 1] (\<lambda>i. bp_copyRecord p i (i - 1)) s = (Inr (), s') \<and> touches p s s' \<and>
    bt_slots p s' (shift_down lo hi es) n x1 x2"
  using assms
proof (induction "hi - lo" arbitrary: lo s es)
  case 0
  then show ?case using touches_refl [of p s] shift_down_none [of hi lo es] by (auto simp: go_unfold)
next
  case (Suc d)
  show ?case
  proof (cases "Suc lo < hi")
    case False
    then show ?thesis using touches_refl [of p s] shift_down_none [of hi lo es] Suc.prems(1) by (auto simp: go_unfold)
  next
    case True
    have list: "[int lo + 1..int hi - 1] = int (Suc lo) # [int (Suc lo) + 1..int hi - 1]"
      using upto_rec1 [of "int lo + 1" "int hi - 1"] True by simp
    have k: "Suc lo < length es" "lo < length es" "Suc lo \<noteq> lo" using True Suc.prems(2) by simp_all
    obtain s1 where s1: "bp_copyRecord p (int (Suc lo)) (int lo) s = (Inr (), s1)" "touches p s s1"
      "bt_slots p s1 (es[lo := es ! Suc lo]) n x1 x2"
      using bt_copy [OF Suc.prems(1) k] by blast
    have "d = hi - Suc lo" "hi \<le> length (es[lo := es ! Suc lo])" using Suc.hyps(2) Suc.prems(2) by simp_all
    then obtain s' where s': "for_each [int (Suc lo) + 1..int hi - 1] (\<lambda>i. bp_copyRecord p i (i - 1)) s1 = (Inr (), s')"
      "touches p s1 s'" "bt_slots p s' (shift_down (Suc lo) hi (es[lo := es ! Suc lo])) n x1 x2"
      using Suc.hyps(1) [of "Suc lo" s1 "es[lo := es ! Suc lo]"] s1(3) by blast
    then show ?thesis
      using s1(1) touches_trans [OF s1(2) s'(2)] shift_down_step [OF True Suc.prems(2)] unfolding list
      by (simp add: bnd_Inr)
  qed
qed

section \<open>A page as a list of entries\<close>

definition bt_page :: "btree_page \<Rightarrow> 'z world_scheme \<Rightarrow> entry list \<Rightarrow> int \<Rightarrow> int \<Rightarrow> bool" where
  "bt_page p s L x1 x2 \<longleftrightarrow> (\<exists>left. bt_slots p s (L @ left) (int (length L)) x1 x2)"

lemma touches_page: "touches p s s' \<Longrightarrow> bp_tx q = bp_tx p \<Longrightarrow> bp_block q \<noteq> bp_block p \<Longrightarrow> bt_page q s L x1 x2 \<Longrightarrow> bt_page q s' L x1 x2"
  unfolding bt_page_def using touches_slots by blast

lemma bt_page_locks: "bt_page p s L x1 x2 \<Longrightarrow> locks_only (bp_tx p) s s' \<Longrightarrow> bt_page p s' L x1 x2"
  unfolding bt_page_def using bt_slots_locks by blast

lemma bt_page_size:
  assumes "bt_page p s L x1 x2"
  shows "length L \<le> bt_cap p (blockSize s)"
proof -
  obtain left where b: "bt_slots p s (L @ left) (int (length L)) x1 x2" using assms unfolding bt_page_def by blast
  then have "length (L @ left) = bt_cap p (int (length (blk_view s (bp_block p))))" unfolding bt_slots_def bt_bytes_def by blast
  then show ?thesis using bt_view_length [OF b] by simp
qed

lemma bt_page_cong:
  assumes "bt_page p s L x1 x2" and "length L' = length L"
    and "\<And>k f. k < length L \<Longrightarrow> f \<in> set (bt_fields p) \<Longrightarrow> (L' ! k) f = (L ! k) f"
  shows "bt_page p s L' x1 x2"
proof -
  obtain left where b: "bt_slots p s (L @ left) (int (length L)) x1 x2" using assms(1) unfolding bt_page_def by blast
  have "bt_slots p s (L' @ left) (int (length L)) x1 x2"
    by (rule bt_slots_cong [OF b]) (use assms(2,3) in \<open>auto simp: nth_append\<close>)
  then show ?thesis unfolding bt_page_def assms(2) [symmetric] by blast
qed

lemma bt_page_header:
  assumes "bt_page p s L x1 x2"
  shows "\<exists>s'. bp_getNumRecs p s = (Inr (int (length L)), s') \<and> bt_page p s' L x1 x2 \<and> locks_only (bp_tx p) s s'"
    and "\<exists>s'. bp_getExtra1 p s = (Inr x1, s') \<and> bt_page p s' L x1 x2 \<and> locks_only (bp_tx p) s s'"
    and "\<exists>s'. bp_getExtra2 p s = (Inr x2, s') \<and> bt_page p s' L x1 x2 \<and> locks_only (bp_tx p) s s'"
proof -
  obtain left where b: "bt_slots p s (L @ left) (int (length L)) x1 x2" using assms unfolding bt_page_def by blast
  note h = bt_header [OF b]
  show "\<exists>s'. bp_getNumRecs p s = (Inr (int (length L)), s') \<and> bt_page p s' L x1 x2 \<and> locks_only (bp_tx p) s s'"
    using h(1) unfolding bt_page_def by blast
  show "\<exists>s'. bp_getExtra1 p s = (Inr x1, s') \<and> bt_page p s' L x1 x2 \<and> locks_only (bp_tx p) s s'"
    using h(2) unfolding bt_page_def by blast
  show "\<exists>s'. bp_getExtra2 p s = (Inr x2, s') \<and> bt_page p s' L x1 x2 \<and> locks_only (bp_tx p) s s'"
    using h(3) unfolding bt_page_def by blast
qed

lemma bt_page_get:
  assumes "bt_page p s L x1 x2" and k: "k < length L" and f: "f \<in> set (bt_fields p)"
  shows "\<exists>s'. tx_getAs (schema_Type (lay_schema (bp_layout p)) f) (bp_tx p) (bp_block p) (entryOffset p (int k) f) other s =
      (Inr (Some ((L ! k) f)), s') \<and> bt_page p s' L x1 x2 \<and> locks_only (bp_tx p) s s'"
proof -
  obtain left where b: "bt_slots p s (L @ left) (int (length L)) x1 x2" using assms(1) unfolding bt_page_def by blast
  have "k < length (L @ left)" "(L @ left) ! k = L ! k" using k by (simp_all add: nth_append)
  then show ?thesis using bt_getAs [OF b _ f, of k other] unfolding bt_page_def by auto
qed

lemma bt_page_val:
  assumes "bt_page p s L x1 x2" and "e \<in> set L" and f: "f \<in> set (bt_fields p)"
  shows "val_in p f (e f)"
proof -
  obtain left where b: "bt_slots p s (L @ left) (int (length L)) x1 x2" using assms(1) unfolding bt_page_def by blast
  obtain k where k: "k < length L" "e = L ! k" using assms(2) by (auto simp: in_set_conv_nth)
  then show ?thesis using bt_val_in [OF b _ f, of k] by (simp add: nth_append)
qed

lemma bt_page_set:
  assumes "bt_page p s (L1 @ x # L2) x1 x2" and f: "f \<in> set (bt_fields p)" and v: "val_in p f v"
  shows "\<exists>s'. tx_SetVal (bp_tx p) (bp_block p) (entryOffset p (int (length L1)) f) v True s = (Inr (), s') \<and>
    touches p s s' \<and> bt_page p s' (L1 @ x(f := v) # L2) x1 x2"
proof -
  obtain left where b: "bt_slots p s ((L1 @ x # L2) @ left) (int (length (L1 @ x # L2))) x1 x2"
    using assms(1) unfolding bt_page_def by blast
  have k: "length L1 < length ((L1 @ x # L2) @ left)" by simp
  have "((L1 @ x # L2) @ left)[length L1 := (((L1 @ x # L2) @ left) ! length L1)(f := v)] = (L1 @ x(f := v) # L2) @ left"
    by simp
  then obtain s' where "tx_SetVal (bp_tx p) (bp_block p) (entryOffset p (int (length L1)) f) v True s = (Inr (), s')"
    "bt_slots p s' ((L1 @ x(f := v) # L2) @ left) (int (length (L1 @ x # L2))) x1 x2" "touches p s s'"
    using bt_SetVal [OF b k f v] by auto
  moreover have "length (L1 @ x # L2) = length (L1 @ x(f := v) # L2)" by simp
  ultimately show ?thesis unfolding bt_page_def by metis
qed

lemma bt_page_extra:
  assumes "bt_page p s L x1 x2" and v: "int32_range v"
  shows "\<exists>s'. bp_setExtra1 p v s = (Inr (), s') \<and> touches p s s' \<and> bt_page p s' L v x2"
    and "\<exists>s'. bp_setExtra2 p v s = (Inr (), s') \<and> touches p s s' \<and> bt_page p s' L x1 v"
proof -
  obtain left where b: "bt_slots p s (L @ left) (int (length L)) x1 x2" using assms(1) unfolding bt_page_def by blast
  show "\<exists>s'. bp_setExtra1 p v s = (Inr (), s') \<and> touches p s s' \<and> bt_page p s' L v x2"
    using bt_setters(2) [OF b v] unfolding bt_page_def by blast
  show "\<exists>s'. bp_setExtra2 p v s = (Inr (), s') \<and> touches p s s' \<and> bt_page p s' L x1 v"
    using bt_setters(3) [OF b v] unfolding bt_page_def by blast
qed

lemma shift_up_list: "shift_up (length A) (length A + length B) (A @ B @ y # left) = A @ (B @ [y]) ! 0 # B @ left"
proof (rule nth_equalityI)
  fix i
  assume "i < length (shift_up (length A) (length A + length B) (A @ B @ y # left))"
  then have i: "i < length A + Suc (length B + length left)" by simp
  consider "i < length A" | "i = length A" | j where "i = Suc (length A + j)" "j < length B" | j where "i = Suc (length A + j)" "length B \<le> j"
    by (metis add_Suc_right leI less_imp_Suc_add linorder_neqE_nat)
  then show "shift_up (length A) (length A + length B) (A @ B @ y # left) ! i = (A @ (B @ [y]) ! 0 # B @ left) ! i"
    using i by cases (simp_all add: shift_up_nth nth_append Suc_diff_le)
qed simp

lemma shift_down_list: "\<exists>x. shift_down (length A) (Suc (length A + length B)) (A @ y # B @ left) = A @ B @ x # left"
proof (intro exI nth_equalityI)
  let ?x = "(y # B) ! length B"
  fix i
  assume "i < length (shift_down (length A) (Suc (length A + length B)) (A @ y # B @ left))"
  then have i: "i < length A + Suc (length B + length left)" by simp
  consider "i < length A" | j where "i = length A + j" "j < length B" | "i = length A + length B" | j where "i = Suc (length A + length B + j)"
    by (metis add.assoc add_Suc_right le_add_diff_inverse leI less_imp_Suc_add linorder_neqE_nat nat_add_left_cancel_less)
  then show "shift_down (length A) (Suc (length A + length B)) (A @ y # B @ left) ! i = (A @ B @ (y # B) ! length B # left) ! i"
    using i by cases (simp_all add: shift_down_nth nth_append nth_Cons')
qed simp

lemma bt_slots_small:
  assumes b: "bt_slots p s es n x1 x2" and "0 \<le> v" and "v \<le> int (length es)"
  shows "int32_range v"
proof -
  have "layout_wf (bp_layout p)" "headerSize \<le> blockSize s" "blockSize s < 2 ^ 31"
    using b by (simp_all add: bt_slots_def bt_wf_def rp_writable_def)
  then have "0 < slotSize (bp_layout p)" "0 \<le> blockSize s - headerSize" "blockSize s < 2 ^ 31"
    by (simp_all add: layout_wf_def Let_def IntSize_def)
  then have "(blockSize s - headerSize) div slotSize (bp_layout p) \<le> blockSize s - headerSize" "0 \<le> (blockSize s - headerSize) div slotSize (bp_layout p)"
    using zdiv_mono2 [of "blockSize s - headerSize" 1 "slotSize (bp_layout p)"] by (simp_all add: pos_imp_zdiv_nonneg_iff)
  moreover have "length es = bt_cap p (blockSize s)"
    using b bt_view_length [OF b] by (simp add: bt_slots_def bt_bytes_def)
  ultimately show ?thesis
    using assms(2,3) \<open>blockSize s < 2 ^ 31\<close> by (simp add: bt_cap_def int32_range_def headerSize_def IntSize_def)
qed

section \<open>The operations of a page on its entries\<close>

lemma bp_insert_gap:
  assumes "bt_page p s (A @ B) x1 x2" and room: "length (A @ B) < bt_cap p (blockSize s)"
  shows "\<exists>s' x. bp_insert p (int (length A)) s = (Inr (), s') \<and> touches p s s' \<and> bt_page p s' (A @ x # B) x1 x2"
proof -
  let ?n = "length A + length B"
  obtain s1 where s1: "bp_getNumRecs p s = (Inr (int ?n), s1)" "bt_page p s1 (A @ B) x1 x2" "locks_only (bp_tx p) s s1"
    using bt_page_header(1) [OF assms(1)] by auto
  obtain left where b: "bt_slots p s1 ((A @ B) @ left) (int ?n) x1 x2" using s1(2) unfolding bt_page_def by auto
  have "length ((A @ B) @ left) = bt_cap p (blockSize s1)" "blockSize s1 = blockSize s"
    using b bt_view_length [OF b] locks_only_same(6) [OF s1(3)] by (simp_all add: bt_slots_def bt_bytes_def)
  then obtain y left' where left: "left = y # left'" using room by (cases left) auto
  have b': "bt_slots p s1 (A @ B @ y # left') (int ?n) x1 x2" using b left by simp
  have k: "length A \<le> ?n" "?n < length (A @ B @ y # left')" by simp_all
  obtain s2 where s2: "for_each (rev [int (length A) + 1..int ?n]) (\<lambda>i. bp_copyRecord p (i - 1) i) s1 = (Inr (), s2)"
    "touches p s1 s2" "bt_slots p s2 (A @ (B @ [y]) ! 0 # B @ left') (int ?n) x1 x2"
    using bt_shift_up [OF b' k] unfolding shift_up_list by blast
  have "int32_range (int ?n + 1)" using bt_slots_small [OF b'] by simp
  moreover have "0 \<le> int ?n + 1" "int ?n + 1 \<le> int (length (A @ (B @ [y]) ! 0 # B @ left'))" by simp_all
  ultimately obtain s3 where s3: "bp_setNumRecs p (int ?n + 1) s2 = (Inr (), s3)" "touches p s2 s3"
    "bt_slots p s3 (A @ (B @ [y]) ! 0 # B @ left') (int ?n + 1) x1 x2"
    using bt_setters(1) [OF s2(3)] by blast
  have "bp_insert p (int (length A)) s = (Inr (), s3)"
    using s1(1) s2(1) s3(1) by (simp add: bp_insert_def bnd_def)
  moreover have "touches p s s3"
    by (rule touches_trans [OF touches_locks [OF s1(3)] touches_trans [OF s2(2) s3(2)]])
  moreover have "bt_page p s3 (A @ (B @ [y]) ! 0 # B) x1 x2"
    using s3(3) unfolding bt_page_def by (intro exI [of _ left']) (simp add: add.commute)
  ultimately show ?thesis by blast
qed

lemma bp_delete_entry:
  assumes "bt_page p s (A @ y # B) x1 x2"
  shows "\<exists>s'. bp_delete p (int (length A)) s = (Inr (), s') \<and> touches p s s' \<and> bt_page p s' (A @ B) x1 x2"
proof -
  let ?n = "Suc (length A + length B)"
  obtain s1 where s1: "bp_getNumRecs p s = (Inr (int ?n), s1)" "bt_page p s1 (A @ y # B) x1 x2" "locks_only (bp_tx p) s s1"
    using bt_page_header(1) [OF assms(1)] by auto
  obtain left where b: "bt_slots p s1 (A @ y # B @ left) (int ?n) x1 x2" using s1(2) unfolding bt_page_def by auto
  obtain x where x: "shift_down (length A) ?n (A @ y # B @ left) = A @ B @ x # left" using shift_down_list [where A = A and y = y and B = B and left = left] by (elim exE)
  have k: "?n \<le> length (A @ y # B @ left)" by simp
  obtain s2 where s2: "for_each [int (length A) + 1..int ?n - 1] (\<lambda>i. bp_copyRecord p i (i - 1)) s1 = (Inr (), s2)"
    "touches p s1 s2" "bt_slots p s2 (A @ B @ x # left) (int ?n) x1 x2"
    using bt_shift_down [OF b k, of "length A"] unfolding x by blast
  have "int32_range (int ?n - 1)" using bt_slots_small [OF b] by simp
  moreover have "0 \<le> int ?n - 1" "int ?n - 1 \<le> int (length (A @ B @ x # left))" by simp_all
  ultimately obtain s3 where s3: "bp_setNumRecs p (int ?n - 1) s2 = (Inr (), s3)" "touches p s2 s3"
    "bt_slots p s3 (A @ B @ x # left) (int ?n - 1) x1 x2"
    using bt_setters(1) [OF s2(3)] by blast
  have "bp_delete p (int (length A)) s = (Inr (), s3)"
    using s1(1) s2(1) s3(1) by (simp add: bp_delete_def bnd_def)
  moreover have "touches p s s3"
    by (rule touches_trans [OF touches_locks [OF s1(3)] touches_trans [OF s2(2) s3(2)]])
  moreover have "bt_page p s3 (A @ B) x1 x2"
    using s3(3) unfolding bt_page_def by (intro exI [of _ "x # left"]) simp
  ultimately show ?thesis by blast
qed

lemma bp_isFull_cap:
  assumes "bt_page p s L x1 x2"
  shows "\<exists>s'. bp_isFull p s = (Inr (bt_cap p (blockSize s) \<le> length L), s') \<and> bt_page p s' L x1 x2 \<and> locks_only (bp_tx p) s s'"
proof -
  obtain s1 where s1: "bp_getNumRecs p s = (Inr (int (length L)), s1)" "bt_page p s1 L x1 x2" "locks_only (bp_tx p) s s1"
    using bt_page_header(1) [OF assms] by blast
  have wf: "layout_wf (bp_layout p)" "headerSize \<le> blockSize s" using assms by (auto simp: bt_page_def bt_slots_def bt_wf_def)
  then have z: "0 < slotSize (bp_layout p)" by (simp add: layout_wf_def Let_def IntSize_def)
  let ?q = "(blockSize s - headerSize) div slotSize (bp_layout p)"
  have "nat q \<le> k \<longleftrightarrow> \<not> int k + 1 \<le> q" for q :: int and k by linarith
  then have "bt_cap p (blockSize s) \<le> length L \<longleftrightarrow> \<not> int (length L) + 1 \<le> ?q" unfolding bt_cap_def .
  also have "\<dots> \<longleftrightarrow> headerSize + (int (length L) + 1) * slotSize (bp_layout p) > blockSize s"
    unfolding int_le_div_iff [OF z] by linarith
  finally have full: "bt_cap p (blockSize s) \<le> length L \<longleftrightarrow> headerSize + (int (length L) + 1) * slotSize (bp_layout p) > blockSize s" .
  have "bp_isFull p s = (Inr (headerSize + (int (length L) + 1) * slotSize (bp_layout p) > blockSize s), s1)"
    unfolding bp_isFull_def bnd_def s1(1) using locks_only_same(6) [OF s1(3)] by (simp add: go_unfold tx_BlockSize_def)
  then show ?thesis using s1(2,3) unfolding full by blast
qed

text \<open>The key of an entry, and the entries that a search passes.\<close>

abbreviation bt_key :: "entry \<Rightarrow> val" where
  "bt_key e \<equiv> e DataValueField"

lemma find_slot_scan:
  assumes "bt_page p s L x1 x2" and "DataValueField \<in> set (bt_fields p)"
    and "val_type key = schema_Type (lay_schema (bp_layout p)) DataValueField" and "i \<le> length L"
  shows "\<exists>s'. find_slot p stop (Some key) (int (length L)) [int i..int (length L) - 1] s =
      (Inr (int (i + length (takeWhile (\<lambda>e. \<not> stop (vcmp (bt_key e) key)) (drop i L)))), s') \<and>
    bt_page p s' L x1 x2 \<and> locks_only (bp_tx p) s s'"
  using assms(1,4)
proof (induction "length L - i" arbitrary: i s)
  case 0
  then show ?case using locks_only_refl by (auto simp: go_unfold)
next
  case (Suc d)
  have i: "i < length L" using Suc.hyps(2) by linarith
  have list: "[int i..int (length L) - 1] = int i # [int (Suc i)..int (length L) - 1]"
    using i upto_rec1 [of "int i" "int (length L) - 1"] by (simp add: add.commute)
  obtain s1 where s1: "bp_getDataVal p (int i) s = (Inr (Some (bt_key (L ! i))), s1)" "bt_page p s1 L x1 x2" "locks_only (bp_tx p) s s1"
    using bt_page_get [OF Suc.prems(1) i assms(2)] unfolding bp_getDataVal_def by blast
  have "val_in p DataValueField (bt_key (L ! i))" by (rule bt_page_val [OF Suc.prems(1) nth_mem [OF i] assms(2)])
  then have c: "compareVals (Some (bt_key (L ! i))) (Some key) = Inr (vcmp (bt_key (L ! i)) key)"
    using assms(3) by (intro compareVals_same) (simp add: val_in_def)
  show ?case
  proof (cases "stop (vcmp (bt_key (L ! i)) key)")
    case True
    then show ?thesis
      using s1 c Cons_nth_drop_Suc [OF i, symmetric] unfolding list by (simp add: bnd_def go_unfold)
  next
    case False
    have "d = length L - Suc i" "Suc i \<le> length L" using Suc.hyps(2) i by simp_all
    from Suc.hyps(1) [OF this(1) s1(2) this(2)]
    obtain s' where "find_slot p stop (Some key) (int (length L)) [int (Suc i)..int (length L) - 1] s1 =
        (Inr (int (Suc i + length (takeWhile (\<lambda>e. \<not> stop (vcmp (bt_key e) key)) (drop (Suc i) L)))), s')"
      "bt_page p s' L x1 x2" "locks_only (bp_tx p) s1 s'"
      by (elim exE conjE)
    then show ?thesis
      using s1 c False Cons_nth_drop_Suc [OF i, symmetric] locks_only_trans [OF s1(3)] unfolding list
      by (auto simp: bnd_def go_unfold)
  qed
qed

lemma find_slot_page:
  assumes "bt_page p s L x1 x2" and "DataValueField \<in> set (bt_fields p)"
    and "val_type key = schema_Type (lay_schema (bp_layout p)) DataValueField"
  shows "\<exists>s'. find_slot p stop (Some key) (int (length L)) [0..int (length L) - 1] s =
      (Inr (int (length (takeWhile (\<lambda>e. \<not> stop (vcmp (bt_key e) key)) L))), s') \<and>
    bt_page p s' L x1 x2 \<and> locks_only (bp_tx p) s s'"
  using find_slot_scan [OF assms, of 0 stop] by simp

section \<open>Sorted insertion into a leaf\<close>

definition leaf_entry :: "val \<Rightarrow> record_id \<Rightarrow> entry" where
  "leaf_entry key rid = (\<lambda>_. VInt 0)(DataValueField := key, BlockField := VInt (rid_block rid), IDField := VInt (rid_slot rid))"

definition leaf_takes :: "btree_page \<Rightarrow> val \<Rightarrow> record_id \<Rightarrow> bool" where
  "leaf_takes p key rid \<longleftrightarrow> set (bt_fields p) = {BlockField, IDField, DataValueField} \<and> val_in p DataValueField key \<and>
     val_in p BlockField (VInt (rid_block rid)) \<and> val_in p IDField (VInt (rid_slot rid))"

definition bt_sorted :: "entry list \<Rightarrow> bool" where
  "bt_sorted = sorted_wrt (\<lambda>a b. vcmp (bt_key a) (bt_key b) \<le> 0)"

definition key_below :: "val \<Rightarrow> entry \<Rightarrow> bool" where
  "key_below key e \<longleftrightarrow> vcmp (bt_key e) key < 0"

definition leaf_put :: "val \<Rightarrow> record_id \<Rightarrow> entry list \<Rightarrow> entry list" where
  "leaf_put key rid L = takeWhile (key_below key) L @ leaf_entry key rid # dropWhile (key_below key) L"

lemma on_page_run: "lf_page l = Some p \<Longrightarrow> m p s = (r, s') \<Longrightarrow> on_page m (l, s) = (r, (l, s'))"
  by (simp add: on_page_def obj_gets_def on_state_def bnd_def go_unfold)

lemma fields_differ: "DataValueField \<noteq> BlockField" "DataValueField \<noteq> IDField" "BlockField \<noteq> IDField"
  by (simp_all add: DataValueField_def BlockField_def IDField_def)

lemma bp_fill:
  assumes b: "bt_page p s (A @ x # B) x1 x2" and t: "leaf_takes p key rid"
  shows "\<exists>s1 s'. bp_setDataVal p (int (length A)) (Some key) s = (Inr (), s1) \<and>
    bp_setDataRID p (int (length A)) rid s1 = (Inr (), s') \<and> touches p s s' \<and> bt_page p s' (A @ leaf_entry key rid # B) x1 x2"
proof -
  have f: "DataValueField \<in> set (bt_fields p)" "BlockField \<in> set (bt_fields p)" "IDField \<in> set (bt_fields p)"
    and v: "val_in p DataValueField key" "val_in p BlockField (VInt (rid_block rid))" "val_in p IDField (VInt (rid_slot rid))"
    using t by (auto simp: leaf_takes_def)
  obtain s1 where s1: "bp_setDataVal p (int (length A)) (Some key) s = (Inr (), s1)" "touches p s s1"
    "bt_page p s1 (A @ x(DataValueField := key) # B) x1 x2"
    using bt_page_set [OF b f(1) v(1)] unfolding bp_setDataVal_def by auto
  let ?x2 = "x(DataValueField := key, BlockField := VInt (rid_block rid))"
  obtain s2 where s2: "tx_SetVal (bp_tx p) (bp_block p) (entryOffset p (int (length A)) BlockField) (VInt (rid_block rid)) True s1 = (Inr (), s2)"
    "touches p s1 s2" "bt_page p s2 (A @ ?x2 # B) x1 x2"
    using bt_page_set [OF s1(3) f(2) v(2)] by blast
  let ?x3 = "?x2(IDField := VInt (rid_slot rid))"
  obtain s3 where s3: "tx_SetVal (bp_tx p) (bp_block p) (entryOffset p (int (length A)) IDField) (VInt (rid_slot rid)) True s2 = (Inr (), s3)"
    "touches p s2 s3" "bt_page p s3 (A @ ?x3 # B) x1 x2"
    using bt_page_set [OF s2(3) f(3) v(3)] by blast
  have "bp_setDataRID p (int (length A)) rid s1 = (Inr (), s3)"
    using s2(1) s3(1) by (simp add: bp_setDataRID_def bnd_def)
  moreover have "bt_page p s3 (A @ leaf_entry key rid # B) x1 x2"
  proof (rule bt_page_cong [OF s3(3)])
    show "((A @ leaf_entry key rid # B) ! k) f = ((A @ ?x3 # B) ! k) f" if "f \<in> set (bt_fields p)" for k f
      using that t fields_differ by (auto simp: nth_append nth_Cons' leaf_entry_def leaf_takes_def)
  qed simp
  ultimately show ?thesis
    using s1(1) touches_trans [OF s1(2) touches_trans [OF s2(2) s3(2)]] by blast
qed

lemma lf_doInsert_entry:
  assumes l: "lf_page l = Some p" and b: "bt_page p s (A @ B) x1 x2" and room: "length (A @ B) < bt_cap p (blockSize s)"
    and t: "leaf_takes p key rid"
  shows "\<exists>s'. lf_doInsert (int (length A)) (Some key) rid (l, s) = (Inr (), (l, s')) \<and> touches p s s' \<and>
    bt_page p s' (A @ leaf_entry key rid # B) x1 x2"
proof -
  obtain s1 x where s1: "bp_insert p (int (length A)) s = (Inr (), s1)" "touches p s s1" "bt_page p s1 (A @ x # B) x1 x2"
    using bp_insert_gap [OF b room] by blast
  obtain s2 s3 where s2: "bp_setDataVal p (int (length A)) (Some key) s1 = (Inr (), s2)" "bp_setDataRID p (int (length A)) rid s2 = (Inr (), s3)"
    "touches p s1 s3" "bt_page p s3 (A @ leaf_entry key rid # B) x1 x2"
    using bp_fill [OF s1(3) t] by blast
  note run = on_page_run [OF l, of "\<lambda>p. bp_insert p (int (length A))", OF s1(1)]
    on_page_run [OF l, of "\<lambda>p. bp_setDataVal p (int (length A)) (Some key)", OF s2(1)]
    on_page_run [OF l, of "\<lambda>p. bp_setDataRID p (int (length A)) rid", OF s2(2)]
  have "lf_doInsert (int (length A)) (Some key) rid (l, s) = (Inr (), (l, s3))"
    by (simp add: lf_doInsert_def bnd_def run)
  then show ?thesis using s2(4) touches_trans [OF s1(2) s2(3)] by blast
qed

lemma on_page_ran: "lf_page l = Some p \<Longrightarrow> on_page m (l, s) = (r, (l', s')) \<Longrightarrow> m p s = (r, s')"
  by (auto simp: on_page_def obj_gets_def on_state_def bnd_def go_unfold split: prod.splits)

lemma leaf_search:
  assumes l: "lf_page l = Some p" and b: "bt_page p s L x1 x2" and t: "leaf_takes p key rid"
  shows "\<exists>s1 s2. on_page bp_getNumRecs (l, s) = (Inr (int (length L)), (l, s1)) \<and>
    on_page (\<lambda>p. find_slot p (\<lambda>c. c \<ge> 0) (Some key) (int (length L)) [0..int (length L) - 1]) (l, s1) =
      (Inr (int (length (takeWhile (key_below key) L))), (l, s2)) \<and> bt_page p s2 L x1 x2 \<and> locks_only (bp_tx p) s s2"
proof -
  have f: "DataValueField \<in> set (bt_fields p)" and ty: "val_type key = schema_Type (lay_schema (bp_layout p)) DataValueField"
    using t by (auto simp: leaf_takes_def val_in_def)
  obtain s1 where s1: "bp_getNumRecs p s = (Inr (int (length L)), s1)" "bt_page p s1 L x1 x2" "locks_only (bp_tx p) s s1"
    using bt_page_header(1) [OF b] by blast
  have pass: "(\<lambda>e. \<not> 0 \<le> vcmp (bt_key e) key) = key_below key" by (auto simp: key_below_def fun_eq_iff)
  obtain s2 where s2: "find_slot p (\<lambda>c. c \<ge> 0) (Some key) (int (length L)) [0..int (length L) - 1] s1 =
      (Inr (int (length (takeWhile (key_below key) L))), s2)" "bt_page p s2 L x1 x2" "locks_only (bp_tx p) s1 s2"
    using find_slot_page [OF s1(2) f ty, of "\<lambda>c. c \<ge> 0"] unfolding pass by blast
  show ?thesis
    using on_page_run [where m = bp_getNumRecs, OF l s1(1)] s2(2) locks_only_trans [OF s1(3) s2(3)]
      on_page_run [where m = "\<lambda>p. find_slot p (\<lambda>c. c \<ge> 0) (Some key) (int (length L)) [0..int (length L) - 1]", OF l s2(1)] by blast
qed

lemma leaf_slot:
  assumes l: "lf_page l = Some p" and b: "bt_page p s L x1 x2" and t: "leaf_takes p key rid"
  shows "\<exists>s1 s2 s3. on_page bp_getNumRecs (l, s) = (Inr (int (length L)), (l, s1)) \<and>
    on_page (\<lambda>p. find_slot p (\<lambda>c. c \<ge> 0) (Some key) (int (length L)) [0..int (length L) - 1]) (l, s1) =
      (Inr (int (length (takeWhile (key_below key) L))), (l, s2)) \<and>
    on_page bp_isFull (l, s2) = (Inr (bt_cap p (blockSize s) \<le> length L), (l, s3)) \<and> bt_page p s3 L x1 x2 \<and> locks_only (bp_tx p) s s3"
proof -
  obtain s1 s2 where run: "on_page bp_getNumRecs (l, s) = (Inr (int (length L)), (l, s1))"
    "on_page (\<lambda>p. find_slot p (\<lambda>c. c \<ge> 0) (Some key) (int (length L)) [0..int (length L) - 1]) (l, s1) =
      (Inr (int (length (takeWhile (key_below key) L))), (l, s2))" and s2: "bt_page p s2 L x1 x2" "locks_only (bp_tx p) s s2"
    using leaf_search [OF assms] by blast
  obtain s3 where s3: "bp_isFull p s2 = (Inr (bt_cap p (blockSize s2) \<le> length L), s3)" "bt_page p s3 L x1 x2" "locks_only (bp_tx p) s2 s3"
    using bp_isFull_cap [OF s2(1)] by blast
  have "blockSize s2 = blockSize s" by (rule locks_only_same(6) [OF s2(2)])
  then show ?thesis
    using run on_page_run [where m = bp_isFull, OF l s3(1)] s3(2) locks_only_trans [OF s2(2) s3(3)] by auto
qed

lemma lf_insert_room:
  assumes l: "lf_page l = Some p" and b: "bt_page p s L x1 x2" and t: "leaf_takes p key rid"
    and room: "length L < bt_cap p (blockSize s)"
  shows "\<exists>s'. lf_insert (Some key) rid (l, s) = (Inr None, (l, s')) \<and> touches p s s' \<and> bt_page p s' (leaf_put key rid L) x1 x2"
proof -
  obtain s1 s2 s3 where run: "on_page bp_getNumRecs (l, s) = (Inr (int (length L)), (l, s1))"
    "on_page (\<lambda>p. find_slot p (\<lambda>c. c \<ge> 0) (Some key) (int (length L)) [0..int (length L) - 1]) (l, s1) =
      (Inr (int (length (takeWhile (key_below key) L))), (l, s2))"
    "on_page bp_isFull (l, s2) = (Inr (bt_cap p (blockSize s) \<le> length L), (l, s3))"
    and s3: "bt_page p s3 L x1 x2" "locks_only (bp_tx p) s s3"
    using leaf_slot [OF l b t] by blast
  have b3: "bt_page p s3 (takeWhile (key_below key) L @ dropWhile (key_below key) L) x1 x2" using s3(1) by simp
  have room3: "length (takeWhile (key_below key) L @ dropWhile (key_below key) L) < bt_cap p (blockSize s3)"
    using room locks_only_same(6) [OF s3(2)] by simp
  obtain s4 where s4: "lf_doInsert (int (length (takeWhile (key_below key) L))) (Some key) rid (l, s3) = (Inr (), (l, s4))" "touches p s3 s4"
    "bt_page p s4 (leaf_put key rid L) x1 x2"
    using lf_doInsert_entry [OF l b3 room3 t] unfolding leaf_put_def by blast
  have "lf_insert (Some key) rid (l, s) = (Inr None, (l, s4))"
    using room s4(1) by (simp add: lf_insert_def bnd_def run go_unfold)
  then show ?thesis using s4(3) touches_trans [OF touches_locks [OF s3(2)] s4(2)] by blast
qed

lemma leaf_entry_key [simp]: "bt_key (leaf_entry key rid) = key"
  using fields_differ by (simp add: leaf_entry_def)

lemma leaf_put_sorted:
  assumes "bt_sorted L" and ty: "\<forall>e \<in> set L. val_type (bt_key e) = val_type key"
  shows "bt_sorted (leaf_put key rid L)"
proof -
  have le: "vcmp (bt_key a) (bt_key b) \<le> 0" if "a \<in> set (takeWhile (key_below key) L)" "b \<in> set (leaf_entry key rid # dropWhile (key_below key) L)" for a b
  proof -
    have a: "vcmp (bt_key a) key \<le> 0" "val_type (bt_key a) = val_type key"
      using that(1) ty by (auto dest: set_takeWhileD simp: key_below_def)
    show ?thesis
    proof (cases "b = leaf_entry key rid")
      case False
      then have "b \<in> set (dropWhile (key_below key) L)" using that(2) by simp
      moreover have "bt_sorted (takeWhile (key_below key) L @ dropWhile (key_below key) L)" using assms(1) by simp
      ultimately show ?thesis using that(1) unfolding bt_sorted_def sorted_wrt_append by blast
    qed (use a in simp)
  qed
  have "bt_sorted (takeWhile (key_below key) L @ dropWhile (key_below key) L)" using assms(1) by simp
  then have parts: "bt_sorted (takeWhile (key_below key) L)" "bt_sorted (dropWhile (key_below key) L)"
    unfolding bt_sorted_def sorted_wrt_append by blast+
  have "vcmp key (bt_key b) \<le> 0" if b: "b \<in> set (dropWhile (key_below key) L)" for b
  proof -
    obtain c D where d: "dropWhile (key_below key) L = c # D" using b by (cases "dropWhile (key_below key) L") auto
    then have c: "\<not> key_below key c" "c \<in> set L" by (metis hd_dropWhile list.discI list.sel(1), metis d list.set_intros(1) set_dropWhileD)
    have bL: "b \<in> set L" by (rule set_dropWhileD [OF b])
    have "vcmp key (bt_key c) \<le> 0" using c vcmp_anti [of "bt_key c" key] ty by (simp add: key_below_def)
    moreover have "vcmp (bt_key c) (bt_key b) \<le> 0 \<or> b = c" using parts(2) b unfolding bt_sorted_def d by auto
    ultimately show ?thesis using vcmp_trans [of key "bt_key c" "bt_key b"] ty c(2) bL by auto
  qed
  then show ?thesis using parts le unfolding leaf_put_def bt_sorted_def sorted_wrt_append by auto
qed

section \<open>Pages that are not pinned\<close>

text \<open>\<open>bt_stored\<close> is \<open>bt_page\<close> without the pin: what a page is while nobody has it open.\<close>

definition bt_home :: "btree_page \<Rightarrow> 'z world_scheme \<Rightarrow> bool" where
  "bt_home p s \<longleftrightarrow> in_file s (bp_block p) \<and> File (bp_block p) \<noteq> logFile s \<and> can_xlock s (bp_tx p) (bp_block p) \<and>
     0 \<le> bp_tx p \<and> int32_range (bp_tx p) \<and> storable_string (File (bp_block p)) \<and>
     int32_range (BlockNumber (bp_block p)) \<and> blockSize s < 2 ^ 31 \<and> bt_wf p (blockSize s)"

definition bt_stored :: "btree_page \<Rightarrow> 'z world_scheme \<Rightarrow> entry list \<Rightarrow> int \<Rightarrow> int \<Rightarrow> bool" where
  "bt_stored p s L x1 x2 \<longleftrightarrow> bt_home p s \<and>
     (\<exists>left. bt_bytes p (blk_view s (bp_block p)) (L @ left) (int (length L)) x1 x2)"

lemma bt_page_stored: "bt_page p s L x1 x2 \<Longrightarrow> bt_stored p s L x1 x2"
  unfolding bt_page_def bt_stored_def bt_slots_def bt_home_def rp_writable_def
  using tx_holds_data(1,2) by fastforce

lemma bt_stored_page:
  assumes "bt_stored p s L x1 x2" and inv: "pool_inv s" and pi: "pins_are s (bp_tx p) bs" and b: "bp_block p \<in> set bs"
  shows "bt_page p s L x1 x2"
proof -
  obtain i where "tx_holds s (bp_tx p) (bp_block p) i" by (rule pins_are_holds [OF pi b])
  moreover have "IntSize \<le> slotSize (bp_layout p)"
    using assms(1) by (simp add: bt_stored_def bt_home_def bt_wf_def layout_wf_def Let_def)
  ultimately have "rp_writable s (rp_of p)"
    using assms(1) inv by (auto simp: rp_writable_def bt_stored_def bt_home_def)
  then show ?thesis using assms(1) unfolding bt_page_def bt_stored_def bt_slots_def bt_home_def by auto
qed

text \<open>A step of transaction \<open>t\<close> that changes and adds no block outside \<open>C\<close>.\<close>

definition spares :: "int \<Rightarrow> block_id set \<Rightarrow> 'z world_scheme \<Rightarrow> 'z world_scheme \<Rightarrow> bool" where
  "spares t C s s' \<longleftrightarrow> blockSize s' = blockSize s \<and> logFile s' = logFile s \<and>
     (\<forall>n. n \<noteq> logFile s \<longrightarrow> nblocks s n \<le> nblocks s' n) \<and>
     (\<forall>c. in_file s c \<longrightarrow> File c \<noteq> logFile s \<longrightarrow> c \<notin> C \<longrightarrow> blk_view s' c = blk_view s c) \<and>
     (\<forall>c. in_file s' c \<longrightarrow> File c \<noteq> logFile s \<longrightarrow> c \<notin> C \<longrightarrow> in_file s c) \<and>
     (\<forall>c. can_xlock s t c \<longrightarrow> can_xlock s' t c) \<and> own_buffers s' t = own_buffers s t"

lemma spares_refl: "spares t C s s"
  by (simp add: spares_def)

lemma spares_in_file: "spares t C s s' \<Longrightarrow> in_file s c \<Longrightarrow> File c \<noteq> logFile s \<Longrightarrow> in_file s' c"
  unfolding spares_def in_file_def by (auto intro: order_less_le_trans)

lemma spares_trans:
  assumes "spares t C s s'" and "spares t D s' s''"
  shows "spares t (C \<union> D) s s''"
proof -
  have "nblocks s n \<le> nblocks s'' n" if "n \<noteq> logFile s" for n
    using assms that unfolding spares_def by (metis order_trans)
  then show ?thesis using assms spares_in_file [OF assms(1)] unfolding spares_def by auto
qed

lemma spares_mono: "spares t C s s' \<Longrightarrow> C \<subseteq> D \<Longrightarrow> spares t D s s'"
  unfolding spares_def by blast

lemma in_file_same: "\<forall>n. n \<noteq> x \<longrightarrow> nblocks s' n = nblocks s n \<Longrightarrow> File c \<noteq> x \<Longrightarrow> in_file s' c = in_file s c"
  by (simp add: in_file_def)

lemma spares_touches: "touches p s s' \<Longrightarrow> spares (bp_tx p) {bp_block p} s s'"
  using in_file_same [of "logFile s" s' s] by (auto simp: touches_def spares_def)

lemma spares_calm: "calm t s s' \<Longrightarrow> same_locks s s' \<Longrightarrow> own_buffers s' t = own_buffers s t \<Longrightarrow> spares t {} s s'"
  using calm_in_file [of t s s'] by (auto simp: calm_def same_locks_def spares_def can_xlock_def x_locked_def)

lemma spares_locks: "locks_only t s s' \<Longrightarrow> spares t {} s s'"
  using locks_only_same [of t s s'] locks_only_lock(1) [of t s s'] pins_are_cong(2) [of s' t s] by (simp add: spares_def)

text \<open>A file grows by the blocks of \<open>C\<close> only.\<close>

lemma spares_grown:
  assumes "spares t C s s'" and fn: "fn \<noteq> logFile s" and "\<And>k. NewBlockId fn k \<in> C \<Longrightarrow> k < m" and "nblocks s fn \<le> m" and "0 \<le> m"
  shows "nblocks s' fn \<le> m"
proof (rule ccontr)
  assume "\<not> nblocks s' fn \<le> m"
  then have "in_file s' (NewBlockId fn m)" using assms(5) by (simp add: in_file_def NewBlockId_def)
  moreover have "NewBlockId fn m \<notin> C" using assms(3) by blast
  moreover have "File (NewBlockId fn m) \<noteq> logFile s" using fn by (simp add: NewBlockId_def)
  ultimately have "in_file s (NewBlockId fn m)" using assms(1) unfolding spares_def by blast
  then show False using assms(4) by (simp add: in_file_def NewBlockId_def)
qed

lemma spares_nblocks:
  assumes "spares t {} s s'" and "fn \<noteq> logFile s" and "0 \<le> nblocks s fn"
  shows "nblocks s' fn = nblocks s fn"
  using spares_grown [OF assms(1,2) _ order_refl assms(3)] assms(1,2) by (force simp: spares_def)

lemma spares_stored:
  assumes "spares t C s s'" and "bp_tx q = t" and "bp_block q \<notin> C" and "bt_stored q s L x1 x2"
  shows "bt_stored q s' L x1 x2"
  using assms unfolding spares_def bt_stored_def bt_home_def in_file_def by (auto intro: order_less_le_trans)

section \<open>New pages\<close>

text \<open>A block of zeroes is an empty page: every slot holds the zero values.\<close>

definition zero_val :: "SchemaType \<Rightarrow> val" where
  "zero_val ty = (if ty = Date then VDate (Time 0 Local) else default_val ty)"

lemma zero_val_enc: "val_enc (zero_val ty) = replicate (length (val_enc (zero_val ty))) 0"
  by (simp add: zero_val_def default_val_def enc_int_def enc_long_def enc_short_def enc_bool_def enc_date_def
      enc_string_def bytes_of_def numeral_eq_Suc)

lemma zero_val_in:
  assumes "field_ok (lay_schema (bp_layout p)) f"
  shows "val_in p f (zero_val (schema_Type (lay_schema (bp_layout p)) f))"
  using assms
  by (auto simp: val_in_def field_ok_def zero_val_def default_val_def type_codes size_of_def lengthInBytes_def Let_def
      IntSize_def MaxLength_def int32_range_def storable_string_def utf8_string_def bytes_of_def local_time_def)

lemma bt_bytes_zero:
  assumes wf: "bt_wf p bs"
  shows "bt_bytes p (replicate (nat bs) 0)
      (replicate (bt_cap p bs) (\<lambda>f. zero_val (schema_Type (lay_schema (bp_layout p)) f))) 0 0 0"
proof -
  let ?pg = "replicate (nat bs) (0 :: byte)"
  have lay: "layout_wf (bp_layout p)" and bs: "headerSize \<le> bs" and ok: "\<forall>f \<in> set (bt_fields p). field_ok (lay_schema (bp_layout p)) f"
    using wf by (simp_all add: bt_wf_def)
  have len: "int (length ?pg) = bs" using bs by (simp add: headerSize_def IntSize_def)
  have z: "has ?pg off (replicate k 0)" if "0 \<le> off" "off + int k \<le> bs" for off k
    using that len by (auto simp: has_def bslice_def min_def)
  have r: "page_GetInt ?pg off = Inr 0" if "0 \<le> off" "off + 4 \<le> bs" for off
  proof -
    have "has ?pg off (enc_int 0)" using z [of off 4] that by (simp add: enc_zero)
    then show ?thesis by (rule has_read(1)) (simp add: int32_range_def)
  qed
  have "bt_entry p ?pg (int k) (\<lambda>f. zero_val (schema_Type (lay_schema (bp_layout p)) f))" if k: "k < bt_cap p bs" for k
    unfolding bt_entry_def
  proof (intro ballI conjI)
    fix f
    assume f: "f \<in> set (bt_fields p)"
    let ?v = "zero_val (schema_Type (lay_schema (bp_layout p)) f)"
    show v: "val_in p f ?v" by (rule zero_val_in) (use ok f in blast)
    have "0 \<le> entryOffset p (int k) f" "entryOffset p (int k) f + int (length (val_enc ?v)) \<le> bs"
      using entry_bounds [OF lay f k] v by (simp_all add: val_in_def headerSize_def IntSize_def)
    from z [OF this] show "has ?pg (entryOffset p (int k) f) (val_enc ?v)"
      unfolding zero_val_enc [symmetric] .
  qed
  then show ?thesis
    using r [of 0] r [of IntSize] r [of "2 * IntSize"] bs len by (simp add: bt_bytes_def headerSize_def IntSize_def)
qed

lemma bt_slots_new:
  assumes "bt_home p s" and "pool_inv s" and "pins_are s (bp_tx p) bs" and "bp_block p \<in> set bs"
    and z: "blk_view s (bp_block p) = replicate (nat (blockSize s)) 0"
  shows "bt_page p s [] 0 0"
proof (rule bt_stored_page)
  have "bt_wf p (blockSize s)" using assms(1) by (simp add: bt_home_def)
  from bt_bytes_zero [OF this] show "bt_stored p s [] 0 0" using assms(1) unfolding bt_stored_def z by auto
qed (use assms in simp_all)

lemma bp_format_empty:
  assumes "bt_page p s [] x1 x2"
  shows "\<exists>s'. bp_format p s = (Inr (), s') \<and> touches p s s' \<and> bt_page p s' [] (- 1) (- 1)"
proof -
  obtain left where b: "bt_slots p s left 0 x1 x2" using assms unfolding bt_page_def by auto
  have r: "int32_range 0" "int32_range (- 1)" by (simp_all add: int32_range_def)
  obtain s1 where s1: "bp_setNumRecs p 0 s = (Inr (), s1)" "touches p s s1" "bt_slots p s1 left 0 x1 x2"
    using bt_setters(1) [OF b r(1)] by auto
  obtain s2 where s2: "bp_setExtra1 p (- 1) s1 = (Inr (), s2)" "touches p s1 s2" "bt_slots p s2 left 0 (- 1) x2"
    using bt_setters(2) [OF s1(3) r(2)] by blast
  obtain s3 where s3: "bp_setExtra2 p (- 1) s2 = (Inr (), s3)" "touches p s2 s3" "bt_slots p s3 left 0 (- 1) (- 1)"
    using bt_setters(3) [OF s2(3) r(2)] by blast
  have "bp_format p s = (Inr (), s3)" using s1(1) s2(1) s3(1) by (simp add: bp_format_def bnd_def)
  moreover have "bt_page p s3 [] (- 1) (- 1)" using s3(3) by (auto simp: bt_page_def)
  ultimately show ?thesis using touches_trans [OF s1(2) touches_trans [OF s2(2) s3(2)]] by blast
qed

section \<open>Opening and closing\<close>

abbreviation page_at :: "int \<Rightarrow> block_id \<Rightarrow> layout \<Rightarrow> btree_page" where
  "page_at t b lay \<equiv> \<lparr>bp_tx = t, bp_block = b, bp_layout = lay\<rparr>"

lemma newBTreePage_spec:
  assumes inv: "pool_inv s" and p: "pins_are s t bs" and room: "length bs < card (own_buffers s t)"
    and blk: "in_file s b" "File b \<noteq> logFile s"
  obtains s' where "newBTreePage t b lay s = (Inr (page_at t b lay), s')" and "pool_inv s'" and "pins_are s' t (b # bs)"
    and "own_buffers s' t = own_buffers s t" and "spares t {} s s'"
proof -
  obtain s' where "tx_Pin t b s = (Inr (), s')" "pool_inv s'" "pins_are s' t (b # bs)"
    "own_buffers s' t = own_buffers s t" "calm t s s'" "same_locks s s'"
    by (rule tx_Pin_spec [OF inv p room blk])
  then show thesis using that [of s'] spares_calm [of t s s'] by (simp add: newBTreePage_def bnd_Inr go_unfold)
qed

lemma bp_close_spec:
  assumes inv: "pool_inv s" and p: "pins_are s (bp_tx p) (bp_block p # bs)"
  obtains s' where "bp_close p s = (Inr (), s')" and "pool_inv s'" and "pins_are s' (bp_tx p) bs"
    and "own_buffers s' (bp_tx p) = own_buffers s (bp_tx p)" and "spares (bp_tx p) {} s s'"
proof -
  obtain s' where "tx_Unpin (bp_tx p) (bp_block p) s = (Inr (), s')" "pool_inv s'" "pins_are s' (bp_tx p) bs"
    "own_buffers s' (bp_tx p) = own_buffers s (bp_tx p)" "calm (bp_tx p) s s'" "same_locks s s'"
    by (rule tx_Unpin_spec [OF inv p])
  then show thesis using that [of s'] spares_calm [of "bp_tx p" s s'] by (simp add: bp_close_def)
qed

section \<open>Moving entries to another page\<close>

text \<open>Two pages of one transaction with one layout.\<close>

definition mates :: "btree_page \<Rightarrow> btree_page \<Rightarrow> bool" where
  "mates p q \<longleftrightarrow> bp_tx q = bp_tx p \<and> bp_layout q = bp_layout p \<and> bp_block q \<noteq> bp_block p"

lemma mates_sym: "mates p q \<Longrightarrow> mates q p"
  by (auto simp: mates_def)

lemma mates_page: "mates p q \<Longrightarrow> touches p s s' \<Longrightarrow> bt_page q s L x1 x2 \<Longrightarrow> bt_page q s' L x1 x2"
  using touches_page [of p s s' q] by (simp add: mates_def)

lemma move_fields:
  assumes pq: "mates p q" and "bt_page p s (A @ e # B) x1 x2" and "bt_page q s (C @ x # D) y1 y2"
    and "set fs \<subseteq> set (bt_fields p)"
  shows "\<exists>s'. for_each fs (transfer_field p (int (length A)) q (int (length C))) s = (Inr (), s') \<and> touches q s s' \<and>
    bt_page p s' (A @ e # B) x1 x2 \<and> bt_page q s' (C @ override_on x e (set fs) # D) y1 y2"
  using assms(2-4)
proof (induction fs arbitrary: s x)
  case Nil
  then show ?case using touches_refl [of q s] by (simp add: go_unfold)
next
  case (Cons f fs)
  have same: "bp_tx q = bp_tx p" "bp_layout q = bp_layout p" using pq by (simp_all add: mates_def)
  have f: "f \<in> set (bt_fields p)" "f \<in> set (bt_fields q)" and fs: "set fs \<subseteq> set (bt_fields p)" using Cons.prems(3) same by auto
  have k: "length A < length (A @ e # B)" "(A @ e # B) ! length A = e" by simp_all
  obtain s1 where s1: "tx_getAs (schema_Type (lay_schema (bp_layout p)) f) (bp_tx p) (bp_block p) (entryOffset p (int (length A)) f)
      (ret None) s = (Inr (Some (e f)), s1)" "bt_page p s1 (A @ e # B) x1 x2" "locks_only (bp_tx p) s s1"
    using bt_page_get [OF Cons.prems(1) k(1) f(1), of "ret None"] unfolding k(2) by blast
  have q1: "bt_page q s1 (C @ x # D) y1 y2" and t1: "touches q s s1"
    using bt_page_locks [OF Cons.prems(2), of s1] touches_locks [of q s s1] s1(3) same(1) by simp_all
  have "val_in p f (e f)" by (rule bt_page_val [OF Cons.prems(1) _ f(1)]) simp
  then have v: "val_in q f (e f)" using same(2) by (simp add: val_in_def)
  obtain s2 where s2: "tx_SetVal (bp_tx q) (bp_block q) (entryOffset q (int (length C)) f) (e f) True s1 = (Inr (), s2)"
    "touches q s1 s2" "bt_page q s2 (C @ x(f := e f) # D) y1 y2"
    using bt_page_set [OF q1 f(2) v] by blast
  have p2: "bt_page p s2 (A @ e # B) x1 x2" by (rule mates_page [OF mates_sym [OF pq] s2(2) s1(2)])
  obtain s3 where s3: "for_each fs (transfer_field p (int (length A)) q (int (length C))) s2 = (Inr (), s3)" "touches q s2 s3"
    "bt_page p s3 (A @ e # B) x1 x2" "bt_page q s3 (C @ override_on (x(f := e f)) e (set fs) # D) y1 y2"
    using Cons.IH [OF p2 s2(3) fs] by blast
  have "transfer_field p (int (length A)) q (int (length C)) f s = (Inr (), s2)"
    using s1(1) s2(1) by (simp add: transfer_field_def bnd_def)
  then have run: "for_each (f # fs) (transfer_field p (int (length A)) q (int (length C))) s = (Inr (), s3)"
    using s3(1) by (simp add: bnd_def)
  have "override_on (x(f := e f)) e (set fs) = override_on x e (set (f # fs))" by (auto simp: override_on_def fun_eq_iff)
  then show ?case
    using run s3(3,4) touches_trans [OF t1 touches_trans [OF s2(2) s3(2)]] by auto
qed

lemma bp_transferTo_entry:
  assumes pq: "mates p q" and "bt_page p s (A @ e # B) x1 x2" and "bt_page q s (C @ x # D) y1 y2"
  shows "\<exists>s'. bp_transferTo p (int (length A)) q (int (length C)) s = (Inr (), s') \<and> touches q s s' \<and>
    bt_page p s' (A @ e # B) x1 x2 \<and> bt_page q s' (C @ e # D) y1 y2"
proof -
  obtain s' where s': "for_each (bt_fields p) (transfer_field p (int (length A)) q (int (length C))) s = (Inr (), s')" "touches q s s'"
    "bt_page p s' (A @ e # B) x1 x2" "bt_page q s' (C @ override_on x e (set (bt_fields p)) # D) y1 y2"
    using move_fields [OF assms order_refl] by blast
  have "bt_page q s' (C @ e # D) y1 y2"
  proof (rule bt_page_cong [OF s'(4)])
    show "((C @ e # D) ! k) f = ((C @ override_on x e (set (bt_fields p)) # D) ! k) f" if "f \<in> set (bt_fields q)" for k f
      using that pq by (auto simp: nth_append nth_Cons' mates_def)
  qed simp
  then show ?thesis using s'(1-3) by (auto simp: bp_transferTo_def)
qed

text \<open>A step on two pages: everything else is kept, the pins too.\<close>

definition works :: "int \<Rightarrow> block_id set \<Rightarrow> 'z world_scheme \<Rightarrow> 'z world_scheme \<Rightarrow> bool" where
  "works t C s s' \<longleftrightarrow> spares t C s s' \<and> (pool_inv s \<longrightarrow> pool_inv s') \<and> (\<forall>n. n \<noteq> logFile s \<longrightarrow> nblocks s' n = nblocks s n) \<and>
     (\<forall>bs. pins_are s t bs \<longrightarrow> pins_are s' t bs \<and> own_buffers s' t = own_buffers s t)"

lemma works_refl: "works t C s s"
  by (simp add: works_def spares_refl)

lemma works_trans: "works t C s s' \<Longrightarrow> works t D s' s'' \<Longrightarrow> works t (C \<union> D) s s''"
  unfolding works_def using spares_trans [of t C s s' D s''] by (auto simp: spares_def)

lemma works_touches: "touches p s s' \<Longrightarrow> works (bp_tx p) {bp_block p} s s'"
  using spares_touches [of p s s'] by (simp add: touches_def works_def)

lemma works_add: "works t C s s' \<Longrightarrow> touches p s' s'' \<Longrightarrow> bp_tx p = t \<Longrightarrow> bp_block p \<in> C \<Longrightarrow> works t C s s''"
  using works_trans [of t C s s' "{bp_block p}" s''] works_touches [of p s' s''] by (simp add: insert_absorb)

lemma split_loop:
  assumes "mates p q" and "bt_page p s (A @ B) x1 x2" and "bt_page q s C y1 y2" and "length C + length B \<le> bt_cap q (blockSize s)"
  shows "\<exists>s'. for_each [int (length C)..int (length C + length B) - 1] (\<lambda>i. bnd (bp_insert q i) (\<lambda>_.
      bnd (bp_transferTo p (int (length A)) q i) (\<lambda>_. bp_delete p (int (length A))))) s = (Inr (), s') \<and>
    works (bp_tx p) {bp_block p, bp_block q} s s' \<and> bt_page p s' A x1 x2 \<and> bt_page q s' (C @ B) y1 y2"
  using assms
proof (induction B arbitrary: s C)
  case Nil
  then show ?case using works_refl by (auto simp: go_unfold)
next
  case (Cons e B)
  note pq = Cons.prems(1)
  have tq: "bp_tx q = bp_tx p" using pq by (simp add: mates_def)
  have list: "[int (length C)..int (length C + length (e # B)) - 1] =
      int (length C) # [int (length (C @ [e]))..int (length (C @ [e]) + length B) - 1]"
    using upto_rec1 [of "int (length C)" "int (length C + length (e # B)) - 1"] by (simp add: add.commute)
  have q0: "bt_page q s (C @ []) y1 y2" "length (C @ []) < bt_cap q (blockSize s)" using Cons.prems(3,4) by simp_all
  obtain s1 x where s1: "bp_insert q (int (length C)) s = (Inr (), s1)" "touches q s s1" "bt_page q s1 (C @ x # []) y1 y2"
    using bp_insert_gap [OF q0] by blast
  have p1: "bt_page p s1 (A @ e # B) x1 x2" by (rule mates_page [OF mates_sym [OF pq] s1(2) Cons.prems(2)])
  obtain s2 where s2: "bp_transferTo p (int (length A)) q (int (length C)) s1 = (Inr (), s2)" "touches q s1 s2"
    "bt_page p s2 (A @ e # B) x1 x2" "bt_page q s2 (C @ [e]) y1 y2"
    using bp_transferTo_entry [OF pq p1 s1(3)] by blast
  obtain s3 where s3: "bp_delete p (int (length A)) s2 = (Inr (), s3)" "touches p s2 s3" "bt_page p s3 (A @ B) x1 x2"
    using bp_delete_entry [OF s2(3)] by blast
  have q3: "bt_page q s3 (C @ [e]) y1 y2" by (rule mates_page [OF pq s3(2) s2(4)])
  have w: "works (bp_tx p) {bp_block p, bp_block q} s s3"
    by (rule works_add [OF works_add [OF works_add [OF works_refl s1(2)] s2(2)] s3(2)]) (simp_all add: tq)
  have "length (C @ [e]) + length B \<le> bt_cap q (blockSize s3)" using Cons.prems(4) w by (simp add: works_def spares_def)
  from Cons.IH [OF pq s3(3) q3 this]
  obtain s' where s': "for_each [int (length (C @ [e]))..int (length (C @ [e]) + length B) - 1] (\<lambda>i. bnd (bp_insert q i) (\<lambda>_.
      bnd (bp_transferTo p (int (length A)) q i) (\<lambda>_. bp_delete p (int (length A))))) s3 = (Inr (), s')"
    "works (bp_tx p) {bp_block p, bp_block q} s3 s'" "bt_page p s' A x1 x2" "bt_page q s' ((C @ [e]) @ B) y1 y2"
    by blast
  have "works (bp_tx p) {bp_block p, bp_block q} s s'" using works_trans [OF w s'(2)] by simp
  moreover have "for_each [int (length C)..int (length C + length (e # B)) - 1] (\<lambda>i. bnd (bp_insert q i) (\<lambda>_.
      bnd (bp_transferTo p (int (length A)) q i) (\<lambda>_. bp_delete p (int (length A))))) s = (Inr (), s')"
    unfolding list for_each.simps by (simp only: bnd_def s1(1) s2(1) s3(1) sum.case prod.case s'(1))
  moreover have "bt_page q s' (C @ e # B) y1 y2" using s'(4) by simp
  ultimately show ?case using s'(3) by blast
qed

section \<open>Splitting a page\<close>

text \<open>The page that a split adds: the next block of the page's file.\<close>

abbreviation next_page :: "btree_page \<Rightarrow> 'z world_scheme \<Rightarrow> btree_page" where
  "next_page p s \<equiv> page_at (bp_tx p) (NewBlockId (File (bp_block p)) (nblocks s (File (bp_block p)))) (bp_layout p)"

definition may_split :: "btree_page \<Rightarrow> 'z world_scheme \<Rightarrow> bool" where
  "may_split p s \<longleftrightarrow> can_xlock s (bp_tx p) (NewBlockId (File (bp_block p)) EndOfFile) \<and>
     can_xlock s (bp_tx p) (bp_block (next_page p s)) \<and> int32_range (nblocks s (File (bp_block p)))"

lemma next_page_fresh: "\<not> in_file s (bp_block (next_page p s))"
  by (simp add: in_file_def NewBlockId_def)

lemma next_page_home:
  assumes home: "bt_home p s" and may: "may_split p s" and sp: "spares (bp_tx p) C s s'"
    and new: "nblocks s' (File (bp_block p)) = nblocks s (File (bp_block p)) + 1"
  shows "bt_home (next_page p s) s'"
proof -
  have "0 \<le> nblocks s (File (bp_block p))"
    using home by (simp add: bt_home_def in_file_def)
  moreover have "bt_wf (next_page p s) (blockSize s')"
    using home sp by (simp add: bt_home_def bt_wf_def spares_def NewBlockId_def)
  ultimately show ?thesis
    using home may sp new by (simp add: bt_home_def may_split_def spares_def in_file_def NewBlockId_def)
qed

lemma next_page_opened:
  assumes home: "bt_home p s" and may: "may_split p s" and inv: "pool_inv s" and pi: "pins_are s (bp_tx p) bs"
    and room: "length bs < card (own_buffers s (bp_tx p))"
  obtains s1 s2 where "tx_Append (bp_tx p) (File (bp_block p)) s = (Inr (bp_block (next_page p s)), s1)"
    and "newBTreePage (bp_tx p) (bp_block (next_page p s)) (bp_layout p) s1 = (Inr (next_page p s), s2)" and "pool_inv s2"
    and "pins_are s2 (bp_tx p) (bp_block (next_page p s) # bs)" and "own_buffers s2 (bp_tx p) = own_buffers s (bp_tx p)"
    and "spares (bp_tx p) {bp_block (next_page p s)} s s2" and "bt_page (next_page p s) s2 [] 0 0"
proof -
  let ?t = "bp_tx p" and ?fn = "File (bp_block p)" and ?q = "next_page p s" and ?nb = "bp_block (next_page p s)"
  have fn: "?fn \<noteq> logFile s" using home by (simp add: bt_home_def)
  have can: "can_xlock s ?t (NewBlockId ?fn EndOfFile)" using may by (simp add: may_split_def)
  obtain s1 where ap: "tx_Append ?t ?fn s = (Inr ?nb, s1)" and inv1: "pool_inv s1"
    and bs1: "blockSize s1 = blockSize s" "logFile s1 = logFile s"
    and nb1: "\<And>m. nblocks s1 m = (if m = ?fn then nblocks s ?fn + 1 else nblocks s m)"
    and v1: "\<And>c. in_file s c \<Longrightarrow> blk_view s1 c = blk_view s c" "blk_view s1 ?nb = replicate (nat (blockSize s)) 0"
    and l1: "\<And>c. can_xlock s ?t c \<Longrightarrow> can_xlock s1 ?t c"
    and pi1: "\<And>bs. pins_are s1 ?t bs = pins_are s ?t bs" "own_buffers s1 ?t = own_buffers s ?t"
    using tx_Append_spec [OF inv can fn] by auto
  have sp1: "spares ?t {?nb} s s1"
    unfolding spares_def in_file_def using bs1 nb1 v1(1) l1 pi1(2) by (auto simp: NewBlockId_def in_file_def intro!: block_id.equality)
  have home1: "bt_home ?q s1" by (rule next_page_home [OF home may sp1]) (simp add: nb1)
  have pins1: "pins_are s1 ?t bs" "length bs < card (own_buffers s1 ?t)" using pi room pi1 by simp_all
  have nf: "in_file s1 ?nb" "File ?nb \<noteq> logFile s1" using home1 by (simp_all add: bt_home_def)
  obtain s2 where s2: "newBTreePage ?t ?nb (bp_layout p) s1 = (Inr ?q, s2)" "pool_inv s2" "pins_are s2 ?t (?nb # bs)"
    "own_buffers s2 ?t = own_buffers s1 ?t" "spares ?t {} s1 s2"
    using newBTreePage_spec [OF inv1 pins1 nf, of "bp_layout p"] by auto
  have sp2: "spares ?t {?nb} s s2" using spares_trans [OF sp1 s2(5)] by simp
  have "bt_home ?q s2" using home1 s2(5) by (simp add: bt_home_def spares_def in_file_def) (meson order_less_le_trans)
  moreover have "blk_view s2 ?nb = replicate (nat (blockSize s2)) 0" using s2(5) v1(2) bs1(1) nf by (simp add: spares_def)
  ultimately have q2: "bt_page ?q s2 [] 0 0" by (intro bt_slots_new [OF _ s2(2), of _ "?nb # bs"]) (use s2(3) in simp_all)
  then show thesis using that [of s1 s2] ap s2(1-4) pi1(2) sp2 by simp
qed

lemma bp_split_entries:
  assumes page: "bt_page p s (A @ B) x1 x2" and pi: "pins_are s (bp_tx p) bs" and pb: "bp_block p \<in> set bs"
    and room: "length bs < card (own_buffers s (bp_tx p))" and may: "may_split p s" and sib: "int32_range sib"
  obtains s' where "bp_split p (File (bp_block p)) (int (length A)) sib s = (Inr (nblocks s (File (bp_block p))), s')"
    and "pool_inv s'" and "pins_are s' (bp_tx p) bs" and "own_buffers s' (bp_tx p) = own_buffers s (bp_tx p)"
    and "spares (bp_tx p) {bp_block p, bp_block (next_page p s)} s s'" and "bt_page p s' A x1 x2"
    and "bt_stored (next_page p s) s' B sib (- 1)"
proof -
  let ?t = "bp_tx p" and ?fn = "File (bp_block p)" and ?q = "next_page p s" and ?nb = "bp_block (next_page p s)"
  have home: "bt_home p s" using bt_page_stored [OF page] by (simp add: bt_stored_def)
  have inv: "pool_inv s" using page by (auto simp: bt_page_def bt_slots_def rp_writable_def)
  have pq: "mates p ?q" using home next_page_fresh [of s p] by (auto simp: mates_def bt_home_def)
  obtain s1 s2 where ap: "tx_Append ?t ?fn s = (Inr ?nb, s1)" and s2: "newBTreePage ?t ?nb (bp_layout p) s1 = (Inr ?q, s2)" "pool_inv s2"
    "pins_are s2 ?t (?nb # bs)" "own_buffers s2 ?t = own_buffers s ?t" and sp2: "spares ?t {?nb} s s2" and q2: "bt_page ?q s2 [] 0 0"
    by (rule next_page_opened [OF home may inv pi room])
  have p2: "bt_page p s2 (A @ B) x1 x2"
    by (rule bt_stored_page [OF spares_stored [OF sp2 refl _ bt_page_stored [OF page]] s2(2,3)]) (use pb pq in \<open>auto simp: mates_def\<close>)
  obtain s3 where s3: "bp_format ?q s2 = (Inr (), s3)" "touches ?q s2 s3" "bt_page ?q s3 [] (- 1) (- 1)"
    using bp_format_empty [OF q2] by blast
  obtain s4 where s4: "bp_setExtra1 ?q sib s3 = (Inr (), s4)" "touches ?q s3 s4" "bt_page ?q s4 [] sib (- 1)"
    using bt_page_extra(1) [OF s3(3) sib] by blast
  have p4: "bt_page p s4 (A @ B) x1 x2"
    by (rule mates_page [OF mates_sym [OF pq] s4(2) mates_page [OF mates_sym [OF pq] s3(2) p2]])
  obtain s5 where s5: "bp_getNumRecs p s4 = (Inr (int (length (A @ B))), s5)" "bt_page p s5 (A @ B) x1 x2" "locks_only ?t s4 s5"
    using bt_page_header(1) [OF p4] by blast
  note t5 = touches_locks [OF s5(3)]
  have q5: "bt_page ?q s5 [] sib (- 1)" by (rule mates_page [OF pq t5 s4(3)])
  have w5: "works ?t {bp_block p, ?nb} s2 s5"
    by (rule works_add [OF works_add [OF works_add [OF works_refl s3(2)] s4(2)] t5]) simp_all
  have "blockSize s5 = blockSize s" using w5 sp2 by (simp add: works_def spares_def)
  moreover have "length B \<le> bt_cap p (blockSize s)" using bt_page_size [OF page] by simp
  ultimately have fits: "length [] + length B \<le> bt_cap ?q (blockSize s5)" by (simp add: bt_cap_def)
  obtain s6 where s6: "for_each [int (length [])..int (length [] + length B) - 1] (\<lambda>i. bnd (bp_insert ?q i) (\<lambda>_.
      bnd (bp_transferTo p (int (length A)) ?q i) (\<lambda>_. bp_delete p (int (length A))))) s5 = (Inr (), s6)"
    "works ?t {bp_block p, ?nb} s5 s6" "bt_page p s6 A x1 x2" "bt_page ?q s6 ([] @ B) sib (- 1)"
    using split_loop [OF pq s5(2) q5 fits] by auto
  have w6: "works ?t {bp_block p, ?nb} s2 s6" using works_trans [OF w5 s6(2)] by simp
  have inv6: "pool_inv s6" and pins6: "pins_are s6 (bp_tx ?q) (bp_block ?q # bs)" "own_buffers s6 ?t = own_buffers s ?t"
    using w6 s2(2-4) by (auto simp: works_def)
  obtain s7 where s7: "bp_close ?q s6 = (Inr (), s7)" "pool_inv s7" "pins_are s7 ?t bs"
    "own_buffers s7 ?t = own_buffers s6 ?t" "spares ?t {} s6 s7"
    by (rule bp_close_spec [OF inv6 pins6(1)]) auto
  have "spares ?t {bp_block p, ?nb} s2 s7"
    using w6 spares_trans [of ?t "{bp_block p, ?nb}" s2 s6 "{}" s7] s7(5) by (simp add: works_def)
  then have "spares ?t ({?nb} \<union> {bp_block p, ?nb}) s s7" by (rule spares_trans [OF sp2])
  then have sp7: "spares ?t {bp_block p, ?nb} s s7" by (rule spares_mono) auto
  have stored: "bt_stored p s7 A x1 x2" "bt_stored ?q s7 B sib (- 1)"
    using spares_stored [OF s7(5) _ _ bt_page_stored [OF s6(3)]] spares_stored [OF s7(5) _ _ bt_page_stored [OF s6(4)]] by simp_all
  have "int (length A + length B) - int (length A) - 1 = int (length B) - 1" by simp
  moreover have "BlockNumber (NewBlockId ?fn k) = k" for k by (simp add: NewBlockId_def)
  ultimately have "bp_split p ?fn (int (length A)) sib s = (Inr (nblocks s ?fn), s7)"
    using ap s2(1) s3(1) s4(1) s5(1) s6(1) s7(1) by (simp add: bp_split_def bnd_def with_defer_def go_unfold)
  then show thesis
    using s7(2-4) sp7 stored(2) bt_stored_page [OF stored(1) s7(2,3) pb] pins6(2) by (intro that [of s7]) simp_all
qed

end
