(* ===== verification/BTreeLeaves.thy ===== *)
theory BTreeLeaves
  imports BTreePages
begin

text \<open>
  \<^verbatim>\<open>index/btree/leaf.go\<close>: insertion into a leaf that is full.

  The leaf is split in the middle, and the entry goes to the half that the new page's first key
  says. \<open>leaf_halves\<close> is what the two pages hold then, \<open>leaf_after\<close> the leaf object; \<open>halves_sorted\<close> is
  the statement about the lists.
\<close>

section \<open>Insertion into a full leaf\<close>

definition leaf_on :: "btree_leaf \<Rightarrow> btree_page \<Rightarrow> bool" where
  "leaf_on l p \<longleftrightarrow> lf_page l = Some p \<and> lf_tx l = bp_tx p \<and> lf_file l = File (bp_block p) \<and> lf_layout l = bp_layout p"

lemma bt_page_ranges: "bt_page p s L x1 x2 \<Longrightarrow> int32_range x1 \<and> int32_range x2"
  unfolding bt_page_def bt_slots_def bt_bytes_def using GetInt_has by blast

lemma bt_page_inv: "bt_page p s L x1 x2 \<Longrightarrow> pool_inv s"
  by (auto simp: bt_page_def bt_slots_def rp_writable_def)

lemma lf_goto_page:
  assumes l: "leaf_on l p" and pi: "pins_are s (bp_tx p) (bp_block p # bs)" and inv: "pool_inv s"
    and room: "length bs < card (own_buffers s (bp_tx p))"
    and q: "q = page_at (bp_tx p) (NewBlockId (File (bp_block p)) k) (bp_layout p)" and st: "bt_stored q s L x1 x2"
  obtains s' where "lf_goto k (l, s) = (Inr (), (l\<lparr>lf_page := Some q\<rparr>, s'))" and "pool_inv s'"
    and "pins_are s' (bp_tx p) (bp_block q # bs)" and "own_buffers s' (bp_tx p) = own_buffers s (bp_tx p)"
    and "spares (bp_tx p) {} s s'" and "bt_page q s' L x1 x2"
proof -
  obtain s1 where s1: "bp_close p s = (Inr (), s1)" "pool_inv s1" "pins_are s1 (bp_tx p) bs"
    "own_buffers s1 (bp_tx p) = own_buffers s (bp_tx p)" "spares (bp_tx p) {} s s1"
    by (rule bp_close_spec [OF inv pi])
  have t: "bp_tx q = bp_tx p" using q by simp
  have st1: "bt_stored q s1 L x1 x2" by (rule spares_stored [OF s1(5) t _ st]) simp
  then have nf: "in_file s1 (bp_block q)" "File (bp_block q) \<noteq> logFile s1" by (simp_all add: bt_stored_def bt_home_def)
  have room1: "length bs < card (own_buffers s1 (bp_tx p))" using room s1(4) by simp
  obtain s2 where s2: "newBTreePage (bp_tx p) (bp_block q) (bp_layout p) s1 = (Inr (page_at (bp_tx p) (bp_block q) (bp_layout p)), s2)"
    "pool_inv s2" "pins_are s2 (bp_tx p) (bp_block q # bs)"
    "own_buffers s2 (bp_tx p) = own_buffers s1 (bp_tx p)" "spares (bp_tx p) {} s1 s2"
    by (rule newBTreePage_spec [OF s1(2,3) room1 nf, of "bp_layout p"])
  have run: "lf_goto k (l, s) = (Inr (), (l\<lparr>lf_page := Some q\<rparr>, s2))"
    using l s1(1) s2(1)
    by (simp add: q lf_goto_def leaf_on_def obj_gets_def obj_upd_def on_page_def on_state_def bnd_def handle_def go_unfold)
  have "bt_stored q s2 L x1 x2" by (rule spares_stored [OF s2(5) t _ st1]) simp
  then have "bt_page q s2 L x1 x2" by (rule bt_stored_page [OF _ s2(2), where bs = "bp_block q # bs"]) (use s2(3) t in simp_all)
  then show thesis using run s1(4) s2(2-4) spares_trans [OF s1(5) s2(5)] by (intro that [of s2]) simp_all
qed

text \<open>The key at the front of a stored page, read through a page opened for it.\<close>

lemma first_key:
  assumes st: "bt_stored q s (e # L) x1 x2" and inv: "pool_inv s" and pi: "pins_are s (bp_tx q) bs"
    and room: "length bs < card (own_buffers s (bp_tx q))" and f: "DataValueField \<in> set (bt_fields q)"
  obtains s1 s' where "newBTreePage (bp_tx q) (bp_block q) (bp_layout q) s = (Inr q, s1)"
    and "closing (bp_getDataVal q 0) (bp_close q) s1 = (Inr (Some (bt_key e)), s')" and "pool_inv s'"
    and "pins_are s' (bp_tx q) bs" and "own_buffers s' (bp_tx q) = own_buffers s (bp_tx q)" and "spares (bp_tx q) {} s s'"
proof -
  have nf: "in_file s (bp_block q)" "File (bp_block q) \<noteq> logFile s" using st by (simp_all add: bt_stored_def bt_home_def)
  obtain s1 where s1: "newBTreePage (bp_tx q) (bp_block q) (bp_layout q) s = (Inr (page_at (bp_tx q) (bp_block q) (bp_layout q)), s1)"
    "pool_inv s1" "pins_are s1 (bp_tx q) (bp_block q # bs)"
    "own_buffers s1 (bp_tx q) = own_buffers s (bp_tx q)" "spares (bp_tx q) {} s s1"
    by (rule newBTreePage_spec [OF inv pi room nf, of "bp_layout q"])
  have "bt_stored q s1 (e # L) x1 x2" by (rule spares_stored [OF s1(5) refl _ st]) simp
  then have p1: "bt_page q s1 (e # L) x1 x2" by (rule bt_stored_page [OF _ s1(2,3)]) simp
  have k: "0 < length (e # L)" "(e # L) ! 0 = e" by simp_all
  obtain s2 where s2: "bp_getDataVal q 0 s1 = (Inr (Some (bt_key e)), s2)" "bt_page q s2 (e # L) x1 x2" "locks_only (bp_tx q) s1 s2"
    using bt_page_get [OF p1 k(1) f, of "fail EUnknownKeyType"] unfolding bp_getDataVal_def k(2) by auto
  note t = touches_locks [OF s2(3)]
  have pins2: "pins_are s2 (bp_tx q) (bp_block q # bs)" "own_buffers s2 (bp_tx q) = own_buffers s (bp_tx q)" "pool_inv s2"
    using t s1(2-4) by (auto simp: touches_def)
  obtain s3 where s3: "bp_close q s2 = (Inr (), s3)" "pool_inv s3" "pins_are s3 (bp_tx q) bs"
    "own_buffers s3 (bp_tx q) = own_buffers s2 (bp_tx q)" "spares (bp_tx q) {} s2 s3"
    by (rule bp_close_spec [OF pins2(3,1)])
  have "closing (bp_getDataVal q 0) (bp_close q) s1 = (Inr (Some (bt_key e)), s3)"
    using s2(1) s3(1) by (simp add: closing_def handle_def bnd_def go_unfold)
  moreover have "spares (bp_tx q) {} s1 s2"
    by (rule spares_locks [OF s2(3)])
  then have "spares (bp_tx q) {} s s3" using spares_trans [OF s1(5) spares_trans [OF _ s3(5)]] by simp
  ultimately show thesis using s1(1) s3(2-4) pins2(2) by (intro that [of s1 s3]) simp_all
qed

lemma find_slot_unchecked_same:
  "find_slot p stop key n js s = (Inr r, s') \<Longrightarrow> find_slot_unchecked p stop key n js s = (Inr r, s')"
  by (induction js arbitrary: s) (auto simp: bnd_def or_else_def handle_def go_unfold split: prod.splits sum.splits if_splits)

lemma leaf_takes_mate: "leaf_takes p key rid \<Longrightarrow> bp_layout q = bp_layout p \<Longrightarrow> leaf_takes q key rid"
  by (simp add: leaf_takes_def val_in_def)

text \<open>What the two pages hold after a split and the insertion.\<close>

definition leaf_halves :: "btree_page \<Rightarrow> btree_page \<Rightarrow> val \<Rightarrow> record_id \<Rightarrow> entry list \<Rightarrow> 'z world_scheme \<Rightarrow> int \<Rightarrow> int \<Rightarrow> bool" where
  "leaf_halves p q key rid L s x1 x2 \<longleftrightarrow>
     (let A = take (length L div 2) L; B = drop (length L div 2) L; left = vcmp key (bt_key (hd B)) < 0 in
      bt_stored p s (if left then leaf_put key rid A else A) (BlockNumber (bp_block q)) x2 \<and>
      bt_stored q s (if left then B else leaf_put key rid B) x1 (- 1))"

definition leaf_after :: "btree_leaf \<Rightarrow> btree_page \<Rightarrow> val \<Rightarrow> entry list \<Rightarrow> btree_leaf" where
  "leaf_after l q key L = (if vcmp key (bt_key (hd (drop (length L div 2) L))) < 0 then l else l\<lparr>lf_page := Some q\<rparr>)"

lemma split_done:
  assumes l: "leaf_on l p" and t: "leaf_takes p key rid" and ab: "L = A @ e # B" "A = take (length L div 2) L" "e # B = drop (length L div 2) L"
    and sorted: "bt_sorted L" and cap: "length L \<le> bt_cap p (blockSize s)" "2 \<le> length L"
    and inv: "pool_inv s" and pi: "pins_are s (bp_tx p) (bp_block p # bs)" and room: "length bs < card (own_buffers s (bp_tx p))"
    and q: "q = page_at (bp_tx p) (NewBlockId (File (bp_block p)) k) (bp_layout p)" "bp_block q \<noteq> bp_block p"
    and st: "bt_stored p s A k x2" "bt_stored q s (e # B) x1 (- 1)"
  obtains s' where "(if vcmp key (bt_key e) < 0 then lf_doInsert (int (length (takeWhile (key_below key) L))) (Some key) rid
      else bnd (lf_goto k) (\<lambda>_. bnd (on_page (\<lambda>p. or_else (bp_getNumRecs p) 0)) (\<lambda>nn.
        bnd (on_page (\<lambda>p. find_slot_unchecked p (\<lambda>c. c \<ge> 0) (Some key) nn [0..nn - 1])) (\<lambda>insertSlot.
        lf_doInsert insertSlot (Some key) rid)))) (l, s) = (Inr (), (leaf_after l q key L, s'))"
    and "pool_inv s'" and "pins_are s' (bp_tx p) (bp_block (the (lf_page (leaf_after l q key L))) # bs)"
    and "own_buffers s' (bp_tx p) = own_buffers s (bp_tx p)" and "spares (bp_tx p) {bp_block p, bp_block q} s s'"
    and "leaf_halves p q key rid L s' x1 x2"
proof (cases "vcmp key (bt_key e) < 0")
  case True
  have lp: "lf_page l = Some p" using l by (simp add: leaf_on_def)
  have e: "e \<in> set L" using ab(1) by simp
  have pp: "bt_page p s A k x2" by (rule bt_stored_page [OF st(1) inv pi]) simp
  have "length A < length L" using ab(1) by simp
  then have rm: "length (takeWhile (key_below key) A @ dropWhile (key_below key) A) < bt_cap p (blockSize s)" using cap(1) by simp
  have "DataValueField \<in> set (bt_fields p)" "DataValueField \<in> set (bt_fields q)" using t q(1) by (simp_all add: leaf_takes_def)
  moreover obtain C where "bt_bytes q (blk_view s (bp_block q)) ((e # B) @ C) (int (length (e # B))) x1 (- 1)"
    using st(2) unfolding bt_stored_def by blast
  ultimately have "val_in q DataValueField (bt_key e)" unfolding bt_bytes_def bt_entry_def by (metis append_Cons length_greater_0_conv list.discI nth_Cons_0)
  then have "val_type (bt_key e) = val_type key" using t q(1) by (simp add: val_in_def leaf_takes_def)
  then have "\<not> key_below key e" using True vcmp_anti [of key "bt_key e"] by (simp add: key_below_def)
  then have tw: "takeWhile (key_below key) L = takeWhile (key_below key) A"
    unfolding ab(1) by (simp add: takeWhile_append) (metis takeWhile_eq_all_conv)
  have pp': "bt_page p s (takeWhile (key_below key) A @ dropWhile (key_below key) A) k x2" using pp by simp
  obtain s' where s': "lf_doInsert (int (length (takeWhile (key_below key) A))) (Some key) rid (l, s) = (Inr (), (l, s'))" "touches p s s'"
    "bt_page p s' (leaf_put key rid A) k x2"
    using lf_doInsert_entry [OF lp pp' rm t] unfolding leaf_put_def by blast
  have "bp_block q \<notin> {bp_block p}" "bp_tx q = bp_tx p" using q by simp_all
  then have "bt_stored q s' (e # B) x1 (- 1)" using spares_stored [OF spares_touches [OF s'(2)] _ _ st(2)] by blast
  then have h: "leaf_halves p q key rid L s' x1 x2"
    using True bt_page_stored [OF s'(3)] unfolding leaf_halves_def Let_def ab(2) [symmetric] ab(3) [symmetric] q(1) by (simp add: NewBlockId_def)
  have la: "leaf_after l q key L = l" using True unfolding leaf_after_def ab(3) [symmetric] by simp
  show thesis
    by (rule that [of s'])
      (use s' h True tw la lp pi inv spares_mono [OF spares_touches [OF s'(2)], of "{bp_block p, bp_block q}"] in \<open>auto simp: touches_def\<close>)
next
  case False
  have qt: "bp_tx q = bp_tx p" "bp_layout q = bp_layout p" using q(1) by simp_all
  let ?l = "l\<lparr>lf_page := Some q\<rparr>"
  obtain s1 where s1: "lf_goto k (l, s) = (Inr (), (?l, s1))" "pool_inv s1" "pins_are s1 (bp_tx p) (bp_block q # bs)"
    "own_buffers s1 (bp_tx p) = own_buffers s (bp_tx p)" "spares (bp_tx p) {} s s1" "bt_page q s1 (e # B) x1 (- 1)"
    by (rule lf_goto_page [OF l pi inv room q(1) st(2)])
  have lq: "lf_page ?l = Some q" by simp
  have tq: "leaf_takes q key rid" by (rule leaf_takes_mate [OF t qt(2)])
  obtain s2 s3 where run: "on_page bp_getNumRecs (?l, s1) = (Inr (int (length (e # B))), (?l, s2))"
    "on_page (\<lambda>p. find_slot p (\<lambda>c. c \<ge> 0) (Some key) (int (length (e # B))) [0..int (length (e # B)) - 1]) (?l, s2) =
      (Inr (int (length (takeWhile (key_below key) (e # B)))), (?l, s3))" and q3: "bt_page q s3 (e # B) x1 (- 1)" "locks_only (bp_tx q) s1 s3"
    using leaf_search [OF lq s1(6) tq] by blast
  have n: "bp_getNumRecs q s1 = (Inr (int (length (e # B))), s2)"
    and f: "find_slot q (\<lambda>c. c \<ge> 0) (Some key) (int (length (e # B))) [0..int (length (e # B)) - 1] s2 =
      (Inr (int (length (takeWhile (key_below key) (e # B)))), s3)"
    using on_page_ran [OF lq run(1)] on_page_ran [OF lq run(2)] by simp_all
  have n': "or_else (bp_getNumRecs q) 0 s1 = (Inr (int (length (e # B))), s2)"
    using n by (simp add: or_else_def handle_def go_unfold)
  have blind: "on_page (\<lambda>p. or_else (bp_getNumRecs p) 0) (?l, s1) = (Inr (int (length (e # B))), (?l, s2))"
    "on_page (\<lambda>p. find_slot_unchecked p (\<lambda>c. c \<ge> 0) (Some key) (int (length (e # B))) [0..int (length (e # B)) - 1]) (?l, s2) =
      (Inr (int (length (takeWhile (key_below key) (e # B)))), (?l, s3))"
    using on_page_run [where m = "\<lambda>p. or_else (bp_getNumRecs p) 0", OF lq n']
      on_page_run [where m = "\<lambda>p. find_slot_unchecked p (\<lambda>c. c \<ge> 0) (Some key) (int (length (e # B))) [0..int (length (e # B)) - 1]",
        OF lq find_slot_unchecked_same [OF f]] by simp_all
  let ?B = "e # B"
  have "blockSize s3 = blockSize s" using s1(5) locks_only_same(6) [OF q3(2)] by (simp add: spares_def)
  moreover have "bt_cap q = bt_cap p" using qt(2) by (simp add: bt_cap_def fun_eq_iff)
  moreover have "length ?B < length L" using cap(2) arg_cong [OF ab(3), of length] by simp
  ultimately have rm: "length (takeWhile (key_below key) ?B @ dropWhile (key_below key) ?B) < bt_cap q (blockSize s3)"
    using cap(1) unfolding takeWhile_dropWhile_id by simp
  have q3': "bt_page q s3 (takeWhile (key_below key) ?B @ dropWhile (key_below key) ?B) x1 (- 1)" using q3(1) by simp
  obtain s' where s': "lf_doInsert (int (length (takeWhile (key_below key) ?B))) (Some key) rid (?l, s3) = (Inr (), (?l, s'))" "touches q s3 s'"
    "bt_page q s' (leaf_put key rid ?B) x1 (- 1)"
    using lf_doInsert_entry [OF lq q3' rm tq] unfolding leaf_put_def by blast
  have tch: "touches q s1 s'" by (rule touches_trans [OF touches_locks [OF q3(2)] s'(2)])
  have sp: "spares (bp_tx p) {bp_block q} s s'" using spares_trans [OF s1(5)] spares_touches [OF tch] qt(1) by auto
  have "bt_stored p s' A k x2" by (rule spares_stored [OF sp refl _ st(1)]) (use q(2) in simp)
  then have h: "leaf_halves p q key rid L s' x1 x2"
    using False bt_page_stored [OF s'(3)] unfolding leaf_halves_def Let_def ab(2) [symmetric] ab(3) [symmetric] q(1) by (simp add: NewBlockId_def)
  have la: "leaf_after l q key L = ?l" using False unfolding leaf_after_def ab(3) [symmetric] by simp
  have "pool_inv s'" "pins_are s' (bp_tx p) (bp_block q # bs)" "own_buffers s' (bp_tx p) = own_buffers s (bp_tx p)"
    using tch s1(2-4) qt(1) unfolding touches_def by auto
  moreover have "bnd (lf_goto k) (\<lambda>_. bnd (on_page (\<lambda>p. or_else (bp_getNumRecs p) 0)) (\<lambda>nn.
        bnd (on_page (\<lambda>p. find_slot_unchecked p (\<lambda>c. c \<ge> 0) (Some key) nn [0..nn - 1])) (\<lambda>insertSlot.
        lf_doInsert insertSlot (Some key) rid))) (l, s) = (Inr (), (?l, s'))"
    by (simp only: bnd_def s1(1) blind s'(1) sum.case prod.case)
  ultimately show thesis
    using h False la spares_mono [OF sp, of "{bp_block p, bp_block q}"] by (intro that [of s']) simp_all
qed

lemma lf_insert_full:
  assumes l: "leaf_on l p" and b: "bt_page p s L x1 x2" and t: "leaf_takes p key rid" and sorted: "bt_sorted L"
    and full: "bt_cap p (blockSize s) = length L" "2 \<le> length L" and pi: "pins_are s (bp_tx p) (bp_block p # bs)"
    and room: "Suc (length bs) < card (own_buffers s (bp_tx p))" and may: "may_split p s"
  obtains s' where "lf_insert (Some key) rid (l, s) =
      (Inr (Some (Some (bt_key (hd (drop (length L div 2) L))), nblocks s (File (bp_block p)))), (leaf_after l (next_page p s) key L, s'))"
    and "pool_inv s'" and "pins_are s' (bp_tx p) (bp_block (the (lf_page (leaf_after l (next_page p s) key L))) # bs)"
    and "own_buffers s' (bp_tx p) = own_buffers s (bp_tx p)" and "spares (bp_tx p) {bp_block p, bp_block (next_page p s)} s s'"
    and "leaf_halves p (next_page p s) key rid L s' x1 x2"
proof -
  let ?q = "next_page p s" and ?k = "nblocks s (File (bp_block p))" and ?A = "take (length L div 2) L" and ?B = "drop (length L div 2) L"
  have lp: "lf_page l = Some p" and lf: "lf_tx l = bp_tx p" "lf_file l = File (bp_block p)" "lf_layout l = bp_layout p"
    using l by (simp_all add: leaf_on_def)
  obtain e B where eB: "e # B = ?B" using full(2) by (cases ?B) auto
  have L: "L = ?A @ e # B" unfolding eB by simp
  obtain s1 s2 s3 where run: "on_page bp_getNumRecs (l, s) = (Inr (int (length L)), (l, s1))"
    "on_page (\<lambda>p. find_slot p (\<lambda>c. c \<ge> 0) (Some key) (int (length L)) [0..int (length L) - 1]) (l, s1) =
      (Inr (int (length (takeWhile (key_below key) L))), (l, s2))"
    "on_page bp_isFull (l, s2) = (Inr (bt_cap p (blockSize s) \<le> length L), (l, s3))"
    and s3: "bt_page p s3 L x1 x2" "locks_only (bp_tx p) s s3"
    using leaf_slot [OF lp b t] by blast
  obtain s4 where s4: "bp_getExtra1 p s3 = (Inr x1, s4)" "bt_page p s4 L x1 x2" "locks_only (bp_tx p) s3 s4"
    using bt_page_header(2) [OF s3(1)] by blast
  note l4 = locks_only_trans [OF s3(2) s4(3)]
  have same: "nblocks s4 n = nblocks s n" "next_page p s4 = ?q" for n using locks_only_same(4) [OF l4] by simp_all
  have t4: "touches p s s4" by (rule touches_locks [OF l4])
  have pins4: "pins_are s4 (bp_tx p) (bp_block p # bs)" "own_buffers s4 (bp_tx p) = own_buffers s (bp_tx p)"
    using t4 pi unfolding touches_def by auto
  have room4: "length (bp_block p # bs) < card (own_buffers s4 (bp_tx p))" using room pins4(2) by simp
  have may4: "may_split p s4" using may locks_only_lock(1) [OF l4] unfolding may_split_def same by auto
  have p4: "bt_page p s4 (?A @ ?B) x1 x2" using s4(2) by simp
  have pb: "bp_block p \<in> set (bp_block p # bs)" by simp
  have xr: "int32_range x1" using bt_page_ranges [OF b] by simp
  have k: "go_div (int (length L)) 2 = int (length ?A)" by (simp add: go_div_nonneg zdiv_int)
  obtain s5 where s5: "bp_split p (File (bp_block p)) (int (length ?A)) x1 s4 = (Inr ?k, s5)" "pool_inv s5"
    "pins_are s5 (bp_tx p) (bp_block p # bs)" "own_buffers s5 (bp_tx p) = own_buffers s4 (bp_tx p)"
    "spares (bp_tx p) {bp_block p, bp_block ?q} s4 s5" "bt_page p s5 ?A x1 x2" "bt_stored ?q s5 ?B x1 (- 1)"
    by (rule bp_split_entries [OF p4 pins4(1) pb room4 may4 xr]) (simp only: same)
  have "int32_range ?k" using may by (simp add: may_split_def)
  then obtain s6 where s6: "bp_setExtra1 p ?k s5 = (Inr (), s6)" "touches p s5 s6" "bt_page p s6 ?A ?k x2"
    using bt_page_extra(1) [OF s5(6)] by blast
  have home: "bt_home p s" using bt_page_stored [OF b] by (simp add: bt_stored_def)
  have q: "bp_tx ?q = bp_tx p" "bp_block ?q \<noteq> bp_block p" using home next_page_fresh [of s p] by (auto simp: bt_home_def)
  have st6: "bt_stored ?q s6 (e # B) x1 (- 1)"
    using spares_stored [OF spares_touches [OF s6(2)] q(1) _ s5(7)] q(2) eB by simp
  have pins6: "pins_are s6 (bp_tx ?q) (bp_block p # bs)" "own_buffers s6 (bp_tx ?q) = own_buffers s (bp_tx p)" "pool_inv s6"
    using s6(2) s5(2-4) pins4(2) q(1) unfolding touches_def by auto
  have room6: "length (bp_block p # bs) < card (own_buffers s6 (bp_tx ?q))" using room pins6(2) by simp
  have f: "DataValueField \<in> set (bt_fields ?q)" using t by (simp add: leaf_takes_def)
  obtain s7 s8 where s8: "newBTreePage (bp_tx ?q) (bp_block ?q) (bp_layout ?q) s6 = (Inr ?q, s7)"
    "closing (bp_getDataVal ?q 0) (bp_close ?q) s7 = (Inr (Some (bt_key e)), s8)" "pool_inv s8"
    "pins_are s8 (bp_tx ?q) (bp_block p # bs)" "own_buffers s8 (bp_tx ?q) = own_buffers s6 (bp_tx ?q)" "spares (bp_tx ?q) {} s6 s8"
    by (rule first_key [OF st6 pins6(3,1) room6 f])
  have st8: "bt_stored p s8 ?A ?k x2" "bt_stored ?q s8 (e # B) x1 (- 1)"
    using spares_stored [OF s8(6) _ _ bt_page_stored [OF s6(3)]] spares_stored [OF s8(6) _ _ st6] q(1) by simp_all
  have sp: "spares (bp_tx p) {bp_block p, bp_block ?q} s s8"
    using spares_trans [OF spares_locks [OF l4] spares_trans [OF s5(5) spares_trans [OF spares_touches [OF s6(2)]]], of "{}" s8] s8(6) q(1)
    by (simp add: insert_commute)
  have cap8: "length L \<le> bt_cap p (blockSize s8)" using full(1) sp by (simp add: spares_def)
  have room8: "length bs < card (own_buffers s8 (bp_tx p))" using room s8(5) pins6(2) q(1) by simp
  have pins8: "pins_are s8 (bp_tx p) (bp_block p # bs)" using s8(4) q(1) by simp
  obtain s9 where s9: "(if vcmp key (bt_key e) < 0 then lf_doInsert (int (length (takeWhile (key_below key) L))) (Some key) rid
      else bnd (lf_goto ?k) (\<lambda>_. bnd (on_page (\<lambda>p. or_else (bp_getNumRecs p) 0)) (\<lambda>nn.
        bnd (on_page (\<lambda>p. find_slot_unchecked p (\<lambda>c. c \<ge> 0) (Some key) nn [0..nn - 1])) (\<lambda>insertSlot.
        lf_doInsert insertSlot (Some key) rid)))) (l, s8) = (Inr (), (leaf_after l ?q key L, s9))"
    "pool_inv s9" "pins_are s9 (bp_tx p) (bp_block (the (lf_page (leaf_after l ?q key L))) # bs)"
    "own_buffers s9 (bp_tx p) = own_buffers s8 (bp_tx p)" "spares (bp_tx p) {bp_block p, bp_block ?q} s8 s9"
    "leaf_halves p ?q key rid L s9 x1 x2"
    by (rule split_done [OF l t L refl eB sorted cap8 full(2) s8(3) pins8 room8 refl q(2) st8])
  have c: "compareVals (Some key) (Some (bt_key e)) = Inr (vcmp key (bt_key e))"
  proof (rule compareVals_same)
    have "e \<in> set L" unfolding arg_cong [OF L, of set] by simp
    then have "val_in p DataValueField (bt_key e)" using bt_page_val [OF b] t by (simp add: leaf_takes_def)
    then show "val_type key = val_type (bt_key e)" using t by (simp add: leaf_takes_def val_in_def)
  qed
  have hd: "hd ?B = e" unfolding eB [symmetric] by simp
  note on = on_page_run [where m = bp_getExtra1, OF lp s4(1)]
    on_page_run [where m = "\<lambda>q. bp_split q (File (bp_block p)) (int (length ?A)) x1", OF lp s5(1)]
    on_page_run [where m = "\<lambda>q. bp_setExtra1 q ?k", OF lp s6(1)]
  have full': "on_page bp_isFull (l, s2) = (Inr True, (l, s3))" using run(3) full(1) by simp
  have own: "obj_gets (\<lambda>l. (lf_tx l, lf_file l, lf_layout l)) (l, s4) =
      (Inr (bp_tx p, File (bp_block p), bp_layout p), (l, s4))"
    using lf by (simp add: obj_gets_def go_unfold)
  have open': "on_state (newBTreePage (bp_tx p) (NewBlockId (File (bp_block p)) ?k) (bp_layout p)) (l, s6) = (Inr ?q, (l, s7))"
    using s8(1) by (simp add: on_state_def)
  have close': "on_state (closing (bp_getDataVal ?q 0) (bp_close ?q)) (l, s7) = (Inr (Some (bt_key e)), (l, s8))"
    using s8(2) by (simp add: on_state_def)
  have "lf_insert (Some key) rid (l, s) = (Inr (Some (Some (bt_key e), ?k)), (leaf_after l ?q key L, s9))"
    unfolding lf_insert_def
    by (simp only: bnd_def run(1,2) full' if_True sum.case prod.case on own k open' close' c s9(1) go_unfold)
  then show thesis
    using s9(2-4,6) hd s8(5) pins6(2) q(1) spares_trans [OF sp s9(5)] by (intro that [of s9]) auto
qed

section \<open>Insertion keeps a leaf sorted\<close>

lemma leaf_put_mset: "mset (leaf_put key rid L) = add_mset (leaf_entry key rid) (mset L)"
proof -
  have "mset (takeWhile (key_below key) L) + mset (dropWhile (key_below key) L) = mset L"
    unfolding mset_append [symmetric] takeWhile_dropWhile_id ..
  then show ?thesis by (simp add: leaf_put_def)
qed

lemma leaf_put_set: "set (leaf_put key rid L) = insert (leaf_entry key rid) (set L)"
  using arg_cong [OF leaf_put_mset, of set_mset] by simp

lemma bt_sorted_append: "bt_sorted (A @ B) \<longleftrightarrow> bt_sorted A \<and> bt_sorted B \<and> (\<forall>a \<in> set A. \<forall>b \<in> set B. vcmp (bt_key a) (bt_key b) \<le> 0)"
  by (simp add: bt_sorted_def sorted_wrt_append)

lemma vcmp_refl [simp]: "vcmp v v = 0"
  using vcmp_anti [of v v] by simp

text \<open>The two lists that a split leaves, with the new entry in the half that \<open>insert\<close> chooses.\<close>

lemma halves_sorted:
  assumes sorted: "bt_sorted (A @ e # B)" and ty: "\<forall>x \<in> set (A @ e # B). val_type (bt_key x) = val_type key"
    and A': "A' = (if vcmp key (bt_key e) < 0 then leaf_put key rid A else A)"
    and B': "B' = (if vcmp key (bt_key e) < 0 then e # B else leaf_put key rid (e # B))"
  shows "bt_sorted (A' @ B')" and "mset (A' @ B') = add_mset (leaf_entry key rid) (mset (A @ e # B))"
    and "\<forall>x \<in> set A'. vcmp (bt_key x) (bt_key e) \<le> 0" and "\<forall>x \<in> set B'. 0 \<le> vcmp (bt_key x) (bt_key e)"
proof -
  note parts = sorted [unfolded bt_sorted_append]
  have tyA: "\<forall>x \<in> set A. val_type (bt_key x) = val_type key" and tyB: "\<forall>x \<in> set (e # B). val_type (bt_key x) = val_type key"
    using ty by simp_all
  have A: "\<forall>x \<in> set A. vcmp (bt_key x) (bt_key e) \<le> 0" using parts by simp
  have B: "\<forall>x \<in> set (e # B). 0 \<le> vcmp (bt_key x) (bt_key e)"
  proof
    fix x
    assume x: "x \<in> set (e # B)"
    then have "vcmp (bt_key e) (bt_key x) \<le> 0" using parts by (auto simp: bt_sorted_def)
    then show "0 \<le> vcmp (bt_key x) (bt_key e)" using vcmp_anti [of "bt_key e" "bt_key x"] x tyB by auto
  qed
  show A2: "\<forall>x \<in> set A'. vcmp (bt_key x) (bt_key e) \<le> 0" unfolding A' using A by (auto simp: leaf_put_set)
  show B2: "\<forall>x \<in> set B'. 0 \<le> vcmp (bt_key x) (bt_key e)" unfolding B' using B by (auto simp: leaf_put_set)
  have ty': "\<forall>x \<in> set (A' @ B'). val_type (bt_key x) = val_type (bt_key e)"
    unfolding A' B' using tyA tyB by (auto simp: leaf_put_set)
  have "vcmp (bt_key a) (bt_key b) \<le> 0" if a: "a \<in> set A'" and b: "b \<in> set B'" for a b
  proof (rule vcmp_trans)
    show "val_type (bt_key a) = val_type (bt_key e)" "val_type (bt_key e) = val_type (bt_key b)"
      using ty' a b by auto
    then show "vcmp (bt_key e) (bt_key b) \<le> 0" using vcmp_anti [of "bt_key b" "bt_key e"] bspec [OF B2 b] by simp
    show "vcmp (bt_key a) (bt_key e) \<le> 0" by (rule bspec [OF A2 a])
  qed
  moreover have "bt_sorted A'" "bt_sorted B'"
    unfolding A' B' using parts leaf_put_sorted [OF _ tyA, of rid] leaf_put_sorted [OF _ tyB, of rid] by simp_all
  ultimately show "bt_sorted (A' @ B')" by (simp add: bt_sorted_append)
  show "mset (A' @ B') = add_mset (leaf_entry key rid) (mset (A @ e # B))"
    unfolding A' B' by (simp add: leaf_put_mset)
qed

end
