(* ===== verification/LeafSearch.thy ===== *)
theory LeafSearch
  imports BTreeLeaves
begin

text \<open>
  \<^verbatim>\<open>index/btree/leaf.go\<close>: the search along the chain of leaves.

  \<open>leaf_chain t fn lay s C\<close>: the blocks listed in \<open>C\<close>, with their entries, are leaves of the file \<open>fn\<close>, each linked
  to the next, the last one to none. A leaf object that stands before the first \<open>j\<close> entries of the front page of
  such a chain (\<open>walking\<close>) answers \<open>next\<close> with the entries that carry its key, in order, across the pages.
\<close>

section \<open>Chains\<close>

abbreviation leaf_at :: "int \<Rightarrow> string \<Rightarrow> layout \<Rightarrow> int \<Rightarrow> btree_page" where
  "leaf_at t fn lay k \<equiv> page_at t (NewBlockId fn k) lay"

fun leaf_chain :: "int \<Rightarrow> string \<Rightarrow> layout \<Rightarrow> 'z world_scheme \<Rightarrow> (int \<times> entry list) list \<Rightarrow> bool" where
  "leaf_chain t fn lay s [] \<longleftrightarrow> True"
| "leaf_chain t fn lay s ((k, L) # C) \<longleftrightarrow>
     (\<exists>next x2. bt_stored (leaf_at t fn lay k) s L next x2 \<and> (case C of [] \<Rightarrow> next < 0 | (k', L') # C' \<Rightarrow> next = k')) \<and>
     leaf_chain t fn lay s C"

definition chain_entries :: "(int \<times> entry list) list \<Rightarrow> entry list" where
  "chain_entries C = concat (map snd C)"

lemma chain_entries_simps [simp]: "chain_entries [] = []" "chain_entries ((k, L) # C) = L @ chain_entries C"
  by (simp_all add: chain_entries_def)

text \<open>An upper bound for the steps that are left: one for each entry and one for each page.\<close>

definition chain_steps :: "(int \<times> entry list) list \<Rightarrow> nat" where
  "chain_steps C = length (chain_entries C) + length C"

lemma chain_kept:
  assumes "spares t B s s'" and "leaf_chain t fn lay s C" and "\<And>k. k \<in> fst ` set C \<Longrightarrow> NewBlockId fn k \<notin> B"
  shows "leaf_chain t fn lay s' C"
  using assms(2,3)
proof (induction C)
  case (Cons kL C)
  obtain k L where kL: "kL = (k, L)" by (cases kL)
  have "bt_stored (leaf_at t fn lay k) s' L next x2" if "bt_stored (leaf_at t fn lay k) s L next x2" for "next" x2
    by (rule spares_stored [OF assms(1) _ _ that]) (use Cons.prems(2) [of k] kL in simp_all)
  then show ?case using Cons unfolding kL leaf_chain.simps by (metis image_insert insertI2 list.simps(15))
qed simp

lemma chain_spares: "spares t {} s s' \<Longrightarrow> leaf_chain t fn lay s C \<Longrightarrow> leaf_chain t fn lay s' C"
  using chain_kept [of t "{}" s s' fn lay C] by simp

text \<open>The layout of a leaf, and keys of its type.\<close>

definition leaf_layout :: "layout \<Rightarrow> val \<Rightarrow> bool" where
  "leaf_layout lay key \<longleftrightarrow> set (sch_fields (lay_schema lay)) = {BlockField, IDField, DataValueField} \<and>
     schema_Type (lay_schema lay) BlockField = Integer \<and> schema_Type (lay_schema lay) IDField = Integer \<and>
     val_type key = schema_Type (lay_schema lay) DataValueField"

fun val_int :: "val \<Rightarrow> int" where
  "val_int (VInt n) = n"
| "val_int _ = 0"

lemma val_int_eq: "VInt v = x \<Longrightarrow> v = val_int x"
  by auto

definition entry_rid :: "entry \<Rightarrow> record_id" where
  "entry_rid e = NewID (val_int (e BlockField)) (val_int (e IDField))"

lemma leaf_entry_rid [simp]: "entry_rid (leaf_entry key rid) = rid"
  using fields_differ by (cases rid) (simp add: entry_rid_def leaf_entry_def NewID_def)

definition has_key :: "val \<Rightarrow> entry \<Rightarrow> bool" where
  "has_key key e \<longleftrightarrow> vcmp (bt_key e) key = 0"

definition walking :: "int \<Rightarrow> string \<Rightarrow> layout \<Rightarrow> val \<Rightarrow> block_id list \<Rightarrow> btree_leaf \<Rightarrow> 'z world_scheme \<Rightarrow> (int \<times> entry list) list \<Rightarrow> bool" where
  "walking t fn lay key bs l s C \<longleftrightarrow> (\<exists>k L C'. C = (k, L) # C' \<and>
     l = \<lparr>lf_tx = t, lf_layout = lay, lf_key = Some key, lf_page = Some (leaf_at t fn lay k), lf_slot = lf_slot l, lf_file = fn\<rparr> \<and>
     pins_are s t (NewBlockId fn k # bs)) \<and> pool_inv s \<and> length bs < card (own_buffers s t) \<and> leaf_chain t fn lay s C"

lemma walkingD:
  assumes "walking t fn lay key bs l s ((k, L) # C)"
  shows "lf_page l = Some (leaf_at t fn lay k)" and "lf_tx l = t" and "lf_file l = fn" and "lf_layout l = lay"
    and "lf_key l = Some key" and "leaf_on l (leaf_at t fn lay k)" and "pool_inv s" and "pins_are s t (NewBlockId fn k # bs)"
    and "length bs < card (own_buffers s t)" and "leaf_chain t fn lay s ((k, L) # C)"
    and "\<exists>x1 x2. bt_page (leaf_at t fn lay k) s L x1 x2 \<and> (case C of [] \<Rightarrow> x1 < 0 | (k', L') # C' \<Rightarrow> x1 = k')"
proof -
  have w: "l = \<lparr>lf_tx = t, lf_layout = lay, lf_key = Some key, lf_page = Some (leaf_at t fn lay k), lf_slot = lf_slot l, lf_file = fn\<rparr>"
    and s: "pool_inv s" "pins_are s t (NewBlockId fn k # bs)" "length bs < card (own_buffers s t)" "leaf_chain t fn lay s ((k, L) # C)"
    using assms by (simp_all add: walking_def)
  show "lf_page l = Some (leaf_at t fn lay k)" "lf_tx l = t" "lf_file l = fn" "lf_layout l = lay" "lf_key l = Some key"
    by (subst w, simp)+
  then show "leaf_on l (leaf_at t fn lay k)" by (simp add: leaf_on_def NewBlockId_def)
  show "pool_inv s" "pins_are s t (NewBlockId fn k # bs)" "length bs < card (own_buffers s t)" "leaf_chain t fn lay s ((k, L) # C)"
    by (rule s)+
  obtain x1 x2 where x: "bt_stored (leaf_at t fn lay k) s L x1 x2" "case C of [] \<Rightarrow> x1 < 0 | (k', L') # C' \<Rightarrow> x1 = k'"
    using s(4) by auto
  have "bt_page (leaf_at t fn lay k) s L x1 x2"
    by (rule bt_stored_page [OF x(1) s(1), of "NewBlockId fn k # bs"]) (use s(2) in simp_all)
  then show "\<exists>x1 x2. bt_page (leaf_at t fn lay k) s L x1 x2 \<and> (case C of [] \<Rightarrow> x1 < 0 | (k', L') # C' \<Rightarrow> x1 = k')"
    using x(2) by blast
qed

text \<open>Reads on the page, and changes of the position, keep the leaf walking.\<close>

lemma walking_locks:
  assumes "walking t fn lay key bs l s C" and "locks_only t s s'"
  shows "walking t fn lay key bs l s' C" and "spares t {} s s'"
proof -
  show sp: "spares t {} s s'" by (rule spares_locks [OF assms(2)])
  have "pins_are s' t bs' = pins_are s t bs'" "own_buffers s' t = own_buffers s t" for bs'
    using pins_are_cong [of s' t s] locks_only_same(9,10) [OF assms(2)] by simp_all
  then show "walking t fn lay key bs l s' C"
    using assms(1) chain_spares [OF sp] locks_only_same(1) [OF assms(2)] by (auto simp: walking_def)
qed

lemma walking_slot: "walking t fn lay key bs l s C \<Longrightarrow> walking t fn lay key bs (l\<lparr>lf_slot := j\<rparr>) s C"
  unfolding walking_def by (metis (no_types, lifting) btree_leaf.select_convs(5) btree_leaf.update_convs(5))

section \<open>One step of the search\<close>

lemma walk_count:
  assumes w: "walking t fn lay key bs l s ((k, L) # C)"
  shows "\<exists>s'. on_page bp_getNumRecs (l, s) = (Inr (int (length L)), (l, s')) \<and>
    walking t fn lay key bs l s' ((k, L) # C) \<and> spares t {} s s'"
proof -
  let ?p = "leaf_at t fn lay k"
  obtain x1 x2 where "bt_page ?p s L x1 x2" using walkingD(11) [OF w] by blast
  then obtain s' where "bp_getNumRecs ?p s = (Inr (int (length L)), s')" "locks_only (bp_tx ?p) s s'"
    using bt_page_header(1) by blast
  then show ?thesis
    using on_page_run [where m = bp_getNumRecs, OF walkingD(1) [OF w]] walking_locks [OF w, of s'] by auto
qed

lemma walk_key:
  assumes w: "walking t fn lay key bs l s ((k, L) # C)" and lay: "leaf_layout lay key" and j: "j < length L"
  shows "\<exists>s'. on_page (\<lambda>p. bp_getDataVal p (int j)) (l, s) = (Inr (Some (bt_key (L ! j))), (l, s')) \<and>
    walking t fn lay key bs l s' ((k, L) # C) \<and> spares t {} s s'"
    and "compareVals (Some (bt_key (L ! j))) (Some key) = Inr (vcmp (bt_key (L ! j)) key)"
proof -
  let ?p = "leaf_at t fn lay k"
  obtain x1 x2 where b: "bt_page ?p s L x1 x2" using walkingD(11) [OF w] by blast
  have f: "DataValueField \<in> set (bt_fields ?p)" using lay by (simp add: leaf_layout_def)
  obtain s' where "bp_getDataVal ?p (int j) s = (Inr (Some (bt_key (L ! j))), s')" "locks_only (bp_tx ?p) s s'"
    using bt_page_get [OF b j f] unfolding bp_getDataVal_def by blast
  then show "\<exists>s'. on_page (\<lambda>p. bp_getDataVal p (int j)) (l, s) = (Inr (Some (bt_key (L ! j))), (l, s')) \<and>
    walking t fn lay key bs l s' ((k, L) # C) \<and> spares t {} s s'"
    using on_page_run [where m = "\<lambda>p. bp_getDataVal p (int j)", OF walkingD(1) [OF w]] walking_locks [OF w, of s'] by auto
  have "val_in ?p DataValueField (bt_key (L ! j))" by (rule bt_page_val [OF b nth_mem [OF j] f])
  then show "compareVals (Some (bt_key (L ! j))) (Some key) = Inr (vcmp (bt_key (L ! j)) key)"
    using lay by (intro compareVals_same) (simp add: val_in_def leaf_layout_def)
qed

lemma walk_rid:
  assumes w: "walking t fn lay key bs l s ((k, L) # C)" and lay: "leaf_layout lay key" and j: "j < length L"
  shows "\<exists>s'. on_page (\<lambda>p. bp_getDataRID p (int j)) (l, s) = (Inr (entry_rid (L ! j)), (l, s')) \<and>
    walking t fn lay key bs l s' ((k, L) # C) \<and> spares t {} s s'"
proof -
  let ?p = "leaf_at t fn lay k"
  obtain x1 x2 where b: "bt_page ?p s L x1 x2" using walkingD(11) [OF w] by blast
  have get: "\<exists>s'. tx_GetInt t (NewBlockId fn k) (entryOffset ?p (int j) f) s = (Inr (val_int ((L ! j) f)), s') \<and>
      bt_page ?p s' L x1 x2 \<and> locks_only t s s'" if b: "bt_page ?p s L x1 x2" and f: "f \<in> {BlockField, IDField}" for s f
  proof -
    have f': "f \<in> set (bt_fields ?p)" "schema_Type (lay_schema lay) f = Integer" using f lay by (auto simp: leaf_layout_def)
    obtain s' where s': "bnd (tx_GetInt t (NewBlockId fn k) (entryOffset ?p (int j) f)) (\<lambda>v. ret (Some (VInt v))) s =
        (Inr (Some ((L ! j) f)), s')" "bt_page ?p s' L x1 x2" "locks_only t s s'"
      using bt_page_get [OF b j f'(1), of "ret None"] f'(2) by (auto simp: tx_getAs_def)
    then obtain v s1 where "tx_GetInt t (NewBlockId fn k) (entryOffset ?p (int j) f) s = (Inr v, s1)"
      by (cases "tx_GetInt t (NewBlockId fn k) (entryOffset ?p (int j) f) s") (auto simp: bnd_def split: sum.splits)
    then show ?thesis using s' by (auto simp: bnd_def go_unfold intro: val_int_eq)
  qed
  obtain s1 where s1: "tx_GetInt t (NewBlockId fn k) (entryOffset ?p (int j) BlockField) s = (Inr (val_int ((L ! j) BlockField)), s1)"
    "bt_page ?p s1 L x1 x2" "locks_only t s s1" using get [OF b, of BlockField] by blast
  obtain s2 where s2: "tx_GetInt t (NewBlockId fn k) (entryOffset ?p (int j) IDField) s1 = (Inr (val_int ((L ! j) IDField)), s2)"
    "locks_only t s1 s2" using get [OF s1(2), of IDField] by blast
  have "bp_getDataRID ?p (int j) s = (Inr (entry_rid (L ! j)), s2)"
    using s1(1) s2(1) by (simp add: bp_getDataRID_def bnd_def go_unfold entry_rid_def)
  then show ?thesis
    using on_page_run [where m = "\<lambda>p. bp_getDataRID p (int j)", OF walkingD(1) [OF w]]
      walking_locks [OF w locks_only_trans [OF s1(3) s2(2)]] by auto
qed

lemma walk_goto:
  assumes w: "walking t fn lay key bs l s ((k, L) # (k', L') # C)"
  shows "\<exists>s1 s'. on_page bp_getExtra1 (l, s) = (Inr k', (l, s1)) \<and> 0 \<le> k' \<and>
    lf_goto k' (l, s1) = (Inr (), (l\<lparr>lf_page := Some (leaf_at t fn lay k')\<rparr>, s')) \<and>
    walking t fn lay key bs (l\<lparr>lf_page := Some (leaf_at t fn lay k')\<rparr>) s' ((k', L') # C) \<and> spares t {} s s'"
proof -
  let ?p = "leaf_at t fn lay k" and ?q = "leaf_at t fn lay k'"
  obtain x2 where b: "bt_page ?p s L k' x2" using walkingD(11) [OF w] by auto
  obtain s1 where s1: "bp_getExtra1 ?p s = (Inr k', s1)" "locks_only (bp_tx ?p) s s1"
    using bt_page_header(2) [OF b] by blast
  have w1: "walking t fn lay key bs l s1 ((k, L) # (k', L') # C)" and sp1: "spares t {} s s1"
    using walking_locks [OF w, of s1] s1(2) by simp_all
  note d = walkingD [OF w1]
  obtain n' x2' where st: "bt_stored ?q s1 L' n' x2'" using d(10) by auto
  have q: "?q = page_at (bp_tx ?p) (NewBlockId (File (bp_block ?p)) k') (bp_layout ?p)" by (simp add: NewBlockId_def)
  have pi: "pins_are s1 (bp_tx ?p) (bp_block ?p # bs)" "length bs < card (own_buffers s1 (bp_tx ?p))" using d(8,9) by simp_all
  obtain s2 where s2: "lf_goto k' (l, s1) = (Inr (), (l\<lparr>lf_page := Some ?q\<rparr>, s2))" "pool_inv s2"
    "pins_are s2 (bp_tx ?p) (bp_block ?q # bs)" "own_buffers s2 (bp_tx ?p) = own_buffers s1 (bp_tx ?p)"
    "spares (bp_tx ?p) {} s1 s2" "bt_page ?q s2 L' n' x2'"
    by (rule lf_goto_page [OF d(6) pi(1) d(7) pi(2) q st])
  have sp2: "spares t {} s1 s2" using s2(5) by simp
  have ch: "leaf_chain t fn lay s2 ((k', L') # C)" using chain_spares [OF sp2 d(10)] by simp
  have "l\<lparr>lf_page := Some ?q\<rparr> = \<lparr>lf_tx = t, lf_layout = lay, lf_key = Some key, lf_page = Some ?q, lf_slot = lf_slot l, lf_file = fn\<rparr>"
    using d(2-5) by (cases l) simp
  then have "walking t fn lay key bs (l\<lparr>lf_page := Some ?q\<rparr>) s2 ((k', L') # C)"
    using s2(2-4) d(9) ch by (simp add: walking_def)
  moreover have "0 \<le> k'" using st by (simp add: bt_stored_def bt_home_def in_file_def NewBlockId_def)
  ultimately show ?thesis
    using on_page_run [where m = bp_getExtra1, OF d(1) s1(1)] s2(1) spares_trans [OF sp1 sp2] by auto
qed

lemma walk_last:
  assumes w: "walking t fn lay key bs l s [(k, L)]"
  shows "\<exists>x s'. on_page bp_getExtra1 (l, s) = (Inr x, (l, s')) \<and> x < 0 \<and> walking t fn lay key bs l s' [(k, L)] \<and> spares t {} s s'"
proof -
  let ?p = "leaf_at t fn lay k"
  obtain x1 x2 where b: "bt_page ?p s L x1 x2" "x1 < 0" using walkingD(11) [OF w] by auto
  obtain s1 where s1: "bp_getExtra1 ?p s = (Inr x1, s1)" "locks_only (bp_tx ?p) s s1"
    using bt_page_header(2) [OF b(1)] by blast
  then show ?thesis
    using on_page_run [where m = bp_getExtra1, OF walkingD(1) [OF w] s1(1)] walking_locks [OF w, of s1] b(2) by auto
qed

text \<open>The entries of the chain behind position \<open>j\<close> of its first page, and where the search stops.\<close>

abbreviation rest_from :: "nat \<Rightarrow> (int \<times> entry list) list \<Rightarrow> (int \<times> entry list) list" where
  "rest_from j C \<equiv> (case C of [] \<Rightarrow> [] | (k, L) # C' \<Rightarrow> (k, drop j L) # C')"

definition stops_at :: "int \<Rightarrow> string \<Rightarrow> layout \<Rightarrow> val \<Rightarrow> block_id list \<Rightarrow> nat \<Rightarrow> (int \<times> entry list) list \<Rightarrow>
    (btree_leaf \<times> 'z world_scheme, bool) go \<Rightarrow> btree_leaf \<Rightarrow> 'z world_scheme \<Rightarrow> bool" where
  "stops_at t fn lay key bs j0 C0 m l s \<longleftrightarrow> (\<exists>ok l' s' P C j. m (l, s) = (Inr ok, (l', s')) \<and> spares t {} s s' \<and>
     walking t fn lay key bs l' s' C \<and> lf_slot l' = int j \<and> C0 = P @ C \<and>
     (let E = dropWhile (key_below key) (chain_entries (rest_from j0 C0)) in
       ok = (E \<noteq> [] \<and> has_key key (hd E)) \<and>
       (ok \<longrightarrow> j < length (snd (hd C)) \<and> chain_entries (rest_from j C) = E \<and>
          chain_steps (rest_from j C) \<le> chain_steps (rest_from j0 C0))))"

lemma stops_after:
  assumes "m (l, s) = m' (l1, s1)" and "spares t {} s s1" and "stops_at t fn lay key bs j1 C1 m' l1 s1" and "C0 = Q @ C1"
    and "dropWhile (key_below key) (chain_entries (rest_from j0 C0)) = dropWhile (key_below key) (chain_entries (rest_from j1 C1))"
    and "chain_steps (rest_from j1 C1) \<le> chain_steps (rest_from j0 C0)"
  shows "stops_at t fn lay key bs j0 C0 m l s"
proof -
  obtain ok l' s' P C j where r: "m' (l1, s1) = (Inr ok, (l', s'))" "spares t {} s1 s'"
    "walking t fn lay key bs l' s' C" "lf_slot l' = int j" "C1 = P @ C"
    "let E = dropWhile (key_below key) (chain_entries (rest_from j1 C1)) in ok = (E \<noteq> [] \<and> has_key key (hd E)) \<and>
       (ok \<longrightarrow> j < length (snd (hd C)) \<and> chain_entries (rest_from j C) = E \<and> chain_steps (rest_from j C) \<le> chain_steps (rest_from j1 C1))"
    using assms(3) unfolding stops_at_def by blast
  have "spares t {} s s'" using spares_trans [OF assms(2) r(2)] by simp
  moreover have "C0 = (Q @ P) @ C" using assms(4) r(5) by simp
  ultimately show ?thesis
    unfolding stops_at_def assms(1) assms(5) using r(1-4,6) assms(6)
    by (intro exI [of _ ok] exI [of _ l'] exI [of _ s'] exI [of _ "Q @ P"] exI [of _ C] exI [of _ j]) (auto simp: Let_def)
qed

lemma lf_next_loop_stops:
  assumes "leaf_layout lay key" and "walking t fn lay key bs l s ((k, L) # C)" and "lf_slot l = int j" and "j \<le> length L"
    and "chain_steps ((k, drop j L) # C) < n"
  shows "stops_at t fn lay key bs j ((k, L) # C) (lf_next_loop n) l s"
  using assms(2-)
proof (induction n arbitrary: l s k L C j)
  case (Suc n)
  note w = Suc.prems(1) and slot = Suc.prems(2)
  obtain s1 where s1: "on_page bp_getNumRecs (l, s) = (Inr (int (length L)), (l, s1))"
    and w1: "walking t fn lay key bs l s1 ((k, L) # C)" and sp1: "spares t {} s s1"
    using walk_count [OF w] by blast
  have here: "obj_gets lf_slot (l, s) = (Inr (int j), (l, s))" "obj_gets lf_key (l, s) = (Inr (Some key), (l, s))" for s :: "'a world_scheme"
    using slot walkingD(5) [OF w] by (simp_all add: obj_gets_def go_unfold)
  show ?case
  proof (cases "j < length L")
    case True
    let ?e = "L ! j"
    have E: "drop j L = ?e # drop (Suc j) L" by (rule Cons_nth_drop_Suc [OF True, symmetric])
    obtain s2 where s2: "on_page (\<lambda>p. bp_getDataVal p (int j)) (l, s1) = (Inr (Some (bt_key ?e)), (l, s2))"
      and w2: "walking t fn lay key bs l s2 ((k, L) # C)" and sp2: "spares t {} s1 s2"
      using walk_key(1) [OF w1 assms(1) True] by blast
    have sp: "spares t {} s s2" using spares_trans [OF sp1 sp2] by simp
    note c = walk_key(2) [OF w1 assms(1) True]
    have lt: "int j < int (length L)" using True by simp
    have run: "lf_next_loop (Suc n) (l, s) = (if vcmp (bt_key ?e) key = 0 then (Inr True, (l, s2))
        else if 0 < vcmp (bt_key ?e) key then (Inr False, (l, s2)) else lf_next_loop n (l\<lparr>lf_slot := int (Suc j)\<rparr>, s2))"
      using s1 s2 c here lt slot by (simp add: bnd_def go_unfold obj_upd_def add.commute)
    show ?thesis
    proof (cases "key_below key ?e")
      case True
      have "lf_next_loop (Suc n) (l, s) = lf_next_loop n (l\<lparr>lf_slot := int (Suc j)\<rparr>, s2)"
        using run True by (simp add: key_below_def)
      moreover have "stops_at t fn lay key bs (Suc j) ((k, L) # C) (lf_next_loop n) (l\<lparr>lf_slot := int (Suc j)\<rparr>) s2"
        by (rule Suc.IH [OF walking_slot [OF w2]]) (use lt Suc.prems(4) E in \<open>simp_all add: chain_steps_def\<close>)
      ultimately show ?thesis
        by (rule stops_after [OF _ sp _ append_Nil [symmetric]]) (use True E in \<open>simp_all add: chain_steps_def\<close>)
    next
      case False
      then show ?thesis
        unfolding stops_at_def
        using run w2 sp slot True E
        by (intro exI [of _ "vcmp (bt_key ?e) key = 0"] exI [of _ l] exI [of _ s2] exI [of _ "[]"] exI [of _ "(k, L) # C"] exI [of _ j])
          (auto simp: key_below_def has_key_def)
    qed
  next
    case False
    then have none: "drop j L = []" "\<not> int j < int (length L)" using Suc.prems(3) by simp_all
    show ?thesis
    proof (cases C)
      case Nil
      obtain x s2 where s2: "on_page bp_getExtra1 (l, s1) = (Inr x, (l, s2))" "x < 0"
        and w2: "walking t fn lay key bs l s2 [(k, L)]" and sp2: "spares t {} s1 s2"
        using walk_last [of t fn lay key bs l s1 k L] w1 Nil by auto
      have "lf_next_loop (Suc n) (l, s) = (Inr False, (l, s2))"
        using s1 s2 here none(2) by (simp add: bnd_def go_unfold)
      moreover have "spares t {} s s2" using spares_trans [OF sp1 sp2] by simp
      ultimately show ?thesis
        unfolding stops_at_def using w2 slot none(1) Nil
        by (intro exI [of _ False] exI [of _ l] exI [of _ s2] exI [of _ "[]"] exI [of _ "[(k, L)]"] exI [of _ j]) simp
    next
      case (Cons kL C')
      obtain k' L' where kL: "kL = (k', L')" by (cases kL)
      let ?l = "l\<lparr>lf_page := Some (leaf_at t fn lay k')\<rparr>"
      obtain s2 s3 where s2: "on_page bp_getExtra1 (l, s1) = (Inr k', (l, s2))" "0 \<le> k'"
        "lf_goto k' (l, s2) = (Inr (), (?l, s3))" and w3: "walking t fn lay key bs ?l s3 ((k', L') # C')" and sp3: "spares t {} s1 s3"
        using walk_goto [of t fn lay key bs l s1 k L k' L' C'] w1 Cons kL by auto
      have "lf_next_loop (Suc n) (l, s) = lf_next_loop n (?l\<lparr>lf_slot := int 0\<rparr>, s3)"
        using s1 s2 here none(2) by (simp add: bnd_def go_unfold obj_upd_def)
      moreover have "spares t {} s s3" using spares_trans [OF sp1 sp3] by simp
      moreover have "stops_at t fn lay key bs 0 ((k', L') # C') (lf_next_loop n) (?l\<lparr>lf_slot := int 0\<rparr>) s3"
        by (rule Suc.IH [OF walking_slot [OF w3]]) (use Suc.prems(4) Cons kL in \<open>simp_all add: chain_steps_def\<close>)
      ultimately show ?thesis
        by (rule stops_after [where Q = "[(k, L)]"]) (use none(1) Cons kL in \<open>simp_all add: chain_steps_def\<close>)
    qed
  qed
qed simp

section \<open>All entries with a key\<close>

text \<open>Reading the leaf until \<open>next\<close> says false.\<close>

fun leaf_rids :: "nat \<Rightarrow> nat \<Rightarrow> ('z, record_id list) leaf_go" where
  "leaf_rids 0 n = (\<lambda>s. (Inl OutOfFuel, s))"
| "leaf_rids (Suc m) n =
     bnd (lf_next n) (\<lambda>ok. if ok then bnd lf_getDataRID (\<lambda>r. bnd (leaf_rids m n) (\<lambda>rs. ret (r # rs))) else ret [])"

definition keyed :: "val \<Rightarrow> entry list \<Rightarrow> bool" where
  "keyed key R \<longleftrightarrow> bt_sorted R \<and> (\<forall>e \<in> set R. val_type (bt_key e) = val_type key)"

lemma keyed_tail: "keyed key (A @ B) \<Longrightarrow> keyed key B"
  by (simp add: keyed_def bt_sorted_append)

lemma keyed_filter:
  assumes "keyed key R" and E: "E = dropWhile (key_below key) R"
  shows "filter (has_key key) R = (if E \<noteq> [] \<and> has_key key (hd E) then hd E # filter (has_key key) (tl E) else [])"
proof -
  have R: "R = takeWhile (key_below key) R @ E" unfolding E by simp
  have "filter (has_key key) (takeWhile (key_below key) R) = []"
    by (auto simp: filter_empty_conv has_key_def key_below_def dest: set_takeWhileD)
  then have f: "filter (has_key key) R = filter (has_key key) E" using arg_cong [OF R, of "filter (has_key key)"] by simp
  show ?thesis
  proof (cases E)
    case (Cons e T)
    have kE: "keyed key (e # T)" using keyed_tail [of key "takeWhile (key_below key) R" E] assms(1) R Cons by simp
    have "\<not> key_below key e" using Cons unfolding E by (metis hd_dropWhile list.distinct(1) list.sel(1) dropWhile_eq_Nil_conv)
    then have "\<not> has_key key x" if "\<not> has_key key e" and x: "x \<in> set T" for x
    proof -
      have "0 < vcmp (bt_key e) key" using that(1) \<open>\<not> key_below key e\<close> by (simp add: key_below_def has_key_def)
      moreover have "vcmp (bt_key e) (bt_key x) \<le> 0" "val_type (bt_key e) = val_type (bt_key x)" "val_type (bt_key x) = val_type key"
        using kE x by (auto simp: keyed_def bt_sorted_def)
      ultimately show ?thesis using vcmp_trans [of "bt_key e" "bt_key x" key] by (auto simp: has_key_def)
    qed
    then show ?thesis using f Cons by (auto simp: filter_empty_conv)
  qed (simp add: f)
qed

lemma rest_from_tail:
  assumes "C = (k, L) # C'" and "j < length L"
  shows "chain_entries (rest_from j C) = L ! j # chain_entries (rest_from (Suc j) C)"
    and "Suc (chain_steps (rest_from (Suc j) C)) = chain_steps (rest_from j C)"
  using assms Cons_nth_drop_Suc [of j L] by (simp_all add: chain_steps_def)

lemma leaf_rids_found:
  assumes "leaf_layout lay key" and "walking t fn lay key bs l s C" and "lf_slot l = int j - 1" and "j \<le> length (snd (hd C))"
    and "keyed key (chain_entries (rest_from j C))" and "length (filter (has_key key) (chain_entries (rest_from j C))) < m"
    and "chain_steps (rest_from j C) < n"
  shows "\<exists>l' s' C'. leaf_rids m n (l, s) = (Inr (map entry_rid (filter (has_key key) (chain_entries (rest_from j C)))), (l', s')) \<and>
    walking t fn lay key bs l' s' C' \<and> spares t {} s s'"
  using assms(2-)
proof (induction m arbitrary: l s C j)
  case (Suc m)
  obtain k L C0 where C: "C = (k, L) # C0" using Suc.prems(1) unfolding walking_def by blast
  let ?R = "rest_from j C" and ?l = "l\<lparr>lf_slot := int j\<rparr>"
  have w: "walking t fn lay key bs ?l s ((k, L) # C0)" using walking_slot [OF Suc.prems(1)] C by simp
  have slot: "lf_slot ?l = int j" by simp
  have "stops_at t fn lay key bs j C (lf_next_loop n) ?l s"
    using lf_next_loop_stops [OF assms(1) w slot] Suc.prems(3,6) C by simp
  then obtain ok l1 s1 C1 j1 where r: "lf_next_loop n (?l, s) = (Inr ok, (l1, s1))" "spares t {} s s1"
    "walking t fn lay key bs l1 s1 C1" "lf_slot l1 = int j1"
    and E: "ok = (dropWhile (key_below key) (chain_entries ?R) \<noteq> [] \<and> has_key key (hd (dropWhile (key_below key) (chain_entries ?R))))"
      "ok \<longrightarrow> j1 < length (snd (hd C1)) \<and> chain_entries (rest_from j1 C1) = dropWhile (key_below key) (chain_entries ?R) \<and>
        chain_steps (rest_from j1 C1) \<le> chain_steps ?R"
    unfolding stops_at_def Let_def by blast
  note filt = keyed_filter [OF Suc.prems(4) refl]
  have "lf_next n (l, s) = lf_next_loop n (?l, s)"
    using Suc.prems(2) by (simp add: lf_next_def obj_upd_def bnd_def go_unfold)
  then have nxt: "lf_next n (l, s) = (Inr ok, (l1, s1))" using r(1) by simp
  show ?case
  proof (cases ok)
    case False
    then show ?thesis using nxt r(2,3) filt E(1) by (auto simp: bnd_def go_unfold)
  next
    case True
    obtain k1 L1 C2 where C1: "C1 = (k1, L1) # C2" using r(3) unfolding walking_def by blast
    have j1: "j1 < length L1" using E(2) True C1 by simp
    note tail = rest_from_tail [OF C1 j1]
    have E': "dropWhile (key_below key) (chain_entries ?R) = L1 ! j1 # chain_entries (rest_from (Suc j1) C1)"
      using E(2) True tail(1) by simp
    obtain s2 where s2: "on_page (\<lambda>p. bp_getDataRID p (int j1)) (l1, s1) = (Inr (entry_rid (L1 ! j1)), (l1, s2))"
      "walking t fn lay key bs l1 s2 C1" "spares t {} s1 s2"
      using walk_rid [OF r(3) [unfolded C1] assms(1) j1] unfolding C1 by blast
    have rid: "lf_getDataRID (l1, s1) = (Inr (entry_rid (L1 ! j1)), (l1, s2))"
      using s2(1) r(4) by (simp add: lf_getDataRID_def obj_gets_def bnd_def go_unfold)
    have f: "filter (has_key key) (chain_entries ?R) = L1 ! j1 # filter (has_key key) (chain_entries (rest_from (Suc j1) C1))"
      using filt True E(1) E' by simp
    have "chain_entries ?R = takeWhile (key_below key) (chain_entries ?R) @ [L1 ! j1] @ chain_entries (rest_from (Suc j1) C1)"
      unfolding append_Cons append_Nil E' [symmetric] by simp
    then have "keyed key (chain_entries (rest_from (Suc j1) C1))"
      using keyed_tail [of key "takeWhile (key_below key) (chain_entries ?R) @ [L1 ! j1]"] Suc.prems(4) by (metis append_assoc)
    moreover have "length (filter (has_key key) (chain_entries (rest_from (Suc j1) C1))) < m" using Suc.prems(5) f by simp
    moreover have "chain_steps (rest_from (Suc j1) C1) < n" using tail(2) E(2) True Suc.prems(6) by linarith
    moreover have "lf_slot l1 = int (Suc j1) - 1" "Suc j1 \<le> length (snd (hd C1))" using r(4) j1 C1 by simp_all
    ultimately obtain l' s' C' where ih: "leaf_rids m n (l1, s2) =
        (Inr (map entry_rid (filter (has_key key) (chain_entries (rest_from (Suc j1) C1)))), (l', s'))"
      "walking t fn lay key bs l' s' C'" "spares t {} s2 s'"
      using Suc.IH [OF s2(2), of "Suc j1"] by blast
    have "leaf_rids (Suc m) n (l, s) = (Inr (map entry_rid (filter (has_key key) (chain_entries ?R))), (l', s'))"
      using nxt True rid ih(1) unfolding f by (simp add: bnd_def go_unfold)
    moreover have "spares t {} s s'" using spares_trans [OF r(2) spares_trans [OF s2(3) ih(3)]] by simp
    ultimately show ?thesis using ih(2) by blast
  qed
qed simp

section \<open>Opening a leaf\<close>

lemma newBTreeLeaf_walks:
  assumes ch: "leaf_chain t fn lay s ((k, L) # C)" and lay: "leaf_layout lay key" and inv: "pool_inv s"
    and pi: "pins_are s t bs" and room: "length bs < card (own_buffers s t)"
  obtains l s' where "newBTreeLeaf t (NewBlockId fn k) lay (Some key) s = (Inr l, s')"
    and "walking t fn lay key bs l s' ((k, L) # C)" and "lf_slot l = int (length (takeWhile (key_below key) L)) - 1"
    and "own_buffers s' t = own_buffers s t" and "spares t {} s s'"
proof -
  let ?p = "leaf_at t fn lay k"
  obtain x1 x2 where st: "bt_stored ?p s L x1 x2" using ch by auto
  have nf: "in_file s (NewBlockId fn k)" "File (NewBlockId fn k) \<noteq> logFile s" using st by (simp_all add: bt_stored_def bt_home_def)
  obtain s1 where s1: "newBTreePage t (NewBlockId fn k) lay s = (Inr ?p, s1)" "pool_inv s1" "pins_are s1 t (NewBlockId fn k # bs)"
    "own_buffers s1 t = own_buffers s t" "spares t {} s s1"
    by (rule newBTreePage_spec [OF inv pi room nf])
  have st1: "bt_stored ?p s1 L x1 x2" by (rule spares_stored [OF s1(5) _ _ st]) simp_all
  have p1: "bt_page ?p s1 L x1 x2"
    by (rule bt_stored_page [OF st1 s1(2), of "NewBlockId fn k # bs"]) (use s1(3) in simp_all)
  obtain s2 where s2: "bp_getNumRecs ?p s1 = (Inr (int (length L)), s2)" "bt_page ?p s2 L x1 x2" "locks_only (bp_tx ?p) s1 s2"
    using bt_page_header(1) [OF p1] by blast
  have f: "DataValueField \<in> set (bt_fields ?p)" "val_type key = schema_Type (lay_schema (bp_layout ?p)) DataValueField"
    using lay by (simp_all add: leaf_layout_def)
  have pass: "(\<lambda>e. \<not> 0 \<le> vcmp (bt_key e) key) = key_below key" by (auto simp: key_below_def fun_eq_iff)
  obtain s3 where s3: "find_slot ?p (\<lambda>c. c \<ge> 0) (Some key) (int (length L)) [0..int (length L) - 1] s2 =
      (Inr (int (length (takeWhile (key_below key) L))), s3)" "locks_only (bp_tx ?p) s2 s3"
    using find_slot_page [OF s2(2) f, of "\<lambda>c. c \<ge> 0"] unfolding pass by blast
  have lo: "locks_only t s1 s3" using locks_only_trans [OF s2(3) s3(2)] by simp
  let ?l = "\<lparr>lf_tx = t, lf_layout = lay, lf_key = Some key, lf_page = Some ?p,
    lf_slot = int (length (takeWhile (key_below key) L)) - 1, lf_file = fn\<rparr>"
  have nm: "File (NewBlockId fn k) = fn" by (simp add: NewBlockId_def)
  have run: "newBTreeLeaf t (NewBlockId fn k) lay (Some key) s = (Inr ?l, s3)"
    using s1(1) s2(1) s3(1) unfolding newBTreeLeaf_def bp_findLeafSlot_def close_on_error_def handle_def nm
    by (simp add: bnd_def go_unfold)
  have "walking t fn lay key bs ?l s1 ((k, L) # C)"
    using s1(2-4) room chain_spares [OF s1(5) ch] by (simp add: walking_def)
  note w3 = walking_locks [OF this lo]
  have "own_buffers s3 t = own_buffers s t"
    using pins_are_cong(2) [of s3 t s1] locks_only_same(9,10) [OF lo] s1(4) by simp
  then show thesis using run w3 spares_trans [OF s1(5) w3(2)] by (intro that [of ?l s3]) simp_all
qed

lemma leaf_rids_opened:
  assumes lay: "leaf_layout lay key" and w: "walking t fn lay key bs l s ((k, L) # C)"
    and slot: "lf_slot l = int (length (takeWhile (key_below key) L)) - 1" and ky: "keyed key (chain_entries ((k, L) # C))"
    and m: "length (filter (has_key key) (chain_entries ((k, L) # C))) < m" and n: "chain_steps ((k, L) # C) < n"
  shows "\<exists>l' s' C'. leaf_rids m n (l, s) = (Inr (map entry_rid (filter (has_key key) (chain_entries ((k, L) # C)))), (l', s')) \<and>
    walking t fn lay key bs l' s' C' \<and> spares t {} s s'"
proof -
  let ?j = "length (takeWhile (key_below key) L)" and ?C = "(k, L) # C"
  have d: "drop ?j L = dropWhile (key_below key) L" by (simp add: dropWhile_eq_drop)
  have split: "chain_entries ?C = takeWhile (key_below key) L @ chain_entries (rest_from ?j ?C)" by (simp add: d)
  have "filter (has_key key) (takeWhile (key_below key) L) = []"
    by (auto simp: filter_empty_conv has_key_def key_below_def dest: set_takeWhileD)
  then have f: "filter (has_key key) (chain_entries ?C) = filter (has_key key) (chain_entries (rest_from ?j ?C))"
    unfolding split filter_append by simp
  have "keyed key (chain_entries (rest_from ?j ?C))" using keyed_tail ky unfolding split by blast
  moreover have "chain_steps (rest_from ?j ?C) < n" using n by (simp add: chain_steps_def)
  moreover have "?j \<le> length (snd (hd ?C))" using length_takeWhile_le by simp
  moreover have "length (filter (has_key key) (chain_entries (rest_from ?j ?C))) < m" using m unfolding f .
  ultimately show ?thesis using leaf_rids_found [OF lay w slot] unfolding f by blast
qed

lemma lf_close_walking:
  assumes w: "walking t fn lay key bs l s C"
  obtains s' where "lf_close (l, s) = (Inr (), (l\<lparr>lf_page := None\<rparr>, s'))" and "pool_inv s'" and "pins_are s' t bs"
    and "own_buffers s' t = own_buffers s t" and "spares t {} s s'"
proof -
  obtain k L C0 where C: "C = (k, L) # C0" using w unfolding walking_def by blast
  note d = walkingD [OF w [unfolded C]]
  have p: "pins_are s (bp_tx (leaf_at t fn lay k)) (bp_block (leaf_at t fn lay k) # bs)" using d(8) by simp
  obtain s' where s': "bp_close (leaf_at t fn lay k) s = (Inr (), s')" "pool_inv s'"
    "pins_are s' (bp_tx (leaf_at t fn lay k)) bs"
    "own_buffers s' (bp_tx (leaf_at t fn lay k)) = own_buffers s (bp_tx (leaf_at t fn lay k))" "spares (bp_tx (leaf_at t fn lay k)) {} s s'"
    by (rule bp_close_spec [OF d(7) p])
  show thesis
    by (rule that [of s']) (use s' d(1) in \<open>simp_all add: lf_close_def obj_gets_def obj_upd_def on_state_def bnd_def go_unfold\<close>)
qed

end
