(* ===== verification/IndexSearch.thy ===== *)
theory IndexSearch
  imports LeafSearch
begin

text \<open>
  \<^verbatim>\<open>index/btree/dir.go\<close> and \<^verbatim>\<open>index/btree/index.go\<close>: from the root to the entries.

  \<open>dir_leads h t fn lay s key k leaf\<close>: the directory page in block \<open>k\<close> of the file \<open>fn\<close>, with \<open>h\<close> levels below it, sends
  the key to the leaf in block \<open>leaf\<close>. The operations of an index then are those of the chain of leaves
  that starts there.
\<close>

section \<open>The descent\<close>

definition dir_layout :: "layout \<Rightarrow> val \<Rightarrow> bool" where
  "dir_layout lay key \<longleftrightarrow> {BlockField, DataValueField} \<subseteq> set (sch_fields (lay_schema lay)) \<and>
     schema_Type (lay_schema lay) BlockField = Integer \<and> val_type key = schema_Type (lay_schema lay) DataValueField"

definition dir_child :: "val \<Rightarrow> entry list \<Rightarrow> int \<Rightarrow> int" where
  "dir_child key D leftmost = (let P = takeWhile (\<lambda>e. vcmp (bt_key e) key \<le> 0) D in
     if P = [] then leftmost else val_int (last P BlockField))"

primrec dir_leads :: "nat \<Rightarrow> int \<Rightarrow> string \<Rightarrow> layout \<Rightarrow> 'z world_scheme \<Rightarrow> val \<Rightarrow> int \<Rightarrow> int \<Rightarrow> bool" where
  "dir_leads 0 t fn lay s key k leaf \<longleftrightarrow>
     (\<exists>D leftmost. bt_stored (leaf_at t fn lay k) s D 0 leftmost \<and> leaf = dir_child key D leftmost)"
| "dir_leads (Suc h) t fn lay s key k leaf \<longleftrightarrow>
     (\<exists>D level leftmost. bt_stored (leaf_at t fn lay k) s D level leftmost \<and> level \<noteq> 0 \<and>
        dir_leads h t fn lay s key (dir_child key D leftmost) leaf)"

lemma dir_leads_stored: "dir_leads h t fn lay s key k leaf \<Longrightarrow> \<exists>D level leftmost. bt_stored (leaf_at t fn lay k) s D level leftmost"
  by (cases h) auto

lemma dir_leads_spares:
  assumes "spares t B s s'" and "\<And>k. NewBlockId fn k \<notin> B"
  shows "dir_leads h t fn lay s key k leaf \<Longrightarrow> dir_leads h t fn lay s' key k leaf"
proof (induction h arbitrary: k)
  case 0
  then obtain D leftmost where d: "bt_stored (leaf_at t fn lay k) s D 0 leftmost" "leaf = dir_child key D leftmost" by auto
  have "bt_stored (leaf_at t fn lay k) s' D 0 leftmost"
    by (rule spares_stored [OF assms(1) _ _ d(1)]) (use assms(2) in simp_all)
  then show ?case unfolding dir_leads.simps using d(2) by blast
next
  case (Suc h)
  then obtain D level leftmost where d: "bt_stored (leaf_at t fn lay k) s D level leftmost" "level \<noteq> 0"
    "dir_leads h t fn lay s key (dir_child key D leftmost) leaf" by auto
  have "bt_stored (leaf_at t fn lay k) s' D level leftmost"
    by (rule spares_stored [OF assms(1) _ _ d(1)]) (use assms(2) in simp_all)
  then show ?case unfolding dir_leads.simps using d(2) Suc.IH [OF d(3)] by blast
qed

abbreviation dir_at :: "int \<Rightarrow> string \<Rightarrow> layout \<Rightarrow> int \<Rightarrow> btree_dir" where
  "dir_at t fn lay k \<equiv> \<lparr>dr_tx = t, dr_layout = lay, dr_page = leaf_at t fn lay k, dr_file = fn\<rparr>"

lemma page_block_field:
  assumes b: "bt_page p s D x1 x2" and j: "j < length D"
    and f: "BlockField \<in> set (bt_fields p)" "schema_Type (lay_schema (bp_layout p)) BlockField = Integer"
  shows "\<exists>s'. bp_getBlockField p (int j) s = (Inr (val_int ((D ! j) BlockField)), s') \<and> bt_page p s' D x1 x2 \<and> locks_only (bp_tx p) s s'"
proof -
  obtain s' where s': "bnd (tx_GetInt (bp_tx p) (bp_block p) (entryOffset p (int j) BlockField)) (\<lambda>v. ret (Some (VInt v))) s =
      (Inr (Some ((D ! j) BlockField)), s')" "bt_page p s' D x1 x2" "locks_only (bp_tx p) s s'"
    using bt_page_get [OF b j f(1), of "ret None"] f(2) by (auto simp: tx_getAs_def)
  then obtain v s1 where "tx_GetInt (bp_tx p) (bp_block p) (entryOffset p (int j) BlockField) s = (Inr v, s1)"
    by (cases "tx_GetInt (bp_tx p) (bp_block p) (entryOffset p (int j) BlockField) s") (auto simp: bnd_def split: sum.splits)
  then show ?thesis using s' by (auto simp: bp_getBlockField_def bnd_def go_unfold intro: val_int_eq)
qed

lemma findChildBlock_child:
  assumes b: "bt_page (leaf_at t fn lay k) s D x1 leftmost" and lay: "dir_layout lay key"
  shows "\<exists>s'. dr_findChildBlock (dir_at t fn lay k) (Some key) s = (Inr (dir_child key D leftmost), s') \<and>
    bt_page (leaf_at t fn lay k) s' D x1 leftmost \<and> locks_only t s s'"
proof -
  let ?p = "leaf_at t fn lay k" and ?P = "takeWhile (\<lambda>e. vcmp (bt_key e) key \<le> 0) D"
  have f: "DataValueField \<in> set (bt_fields ?p)" "BlockField \<in> set (bt_fields ?p)"
    "schema_Type (lay_schema (bp_layout ?p)) BlockField = Integer" "val_type key = schema_Type (lay_schema (bp_layout ?p)) DataValueField"
    using lay by (simp_all add: dir_layout_def)
  obtain s1 where s1: "bp_getNumRecs ?p s = (Inr (int (length D)), s1)" "bt_page ?p s1 D x1 leftmost" "locks_only t s s1"
    using bt_page_header(1) [OF b] by auto
  have pass: "(\<lambda>e. \<not> vcmp (bt_key e) key > 0) = (\<lambda>e. vcmp (bt_key e) key \<le> 0)" by (simp add: not_less)
  obtain s2 where s2: "find_slot ?p (\<lambda>c. c > 0) (Some key) (int (length D)) [0..int (length D) - 1] s1 = (Inr (int (length ?P)), s2)"
    "bt_page ?p s2 D x1 leftmost" "locks_only t s1 s2"
    using find_slot_page [OF s1(2) f(1,4), of "\<lambda>c. c > 0"] unfolding pass by auto
  have slot: "bp_findDirSlot ?p (Some key) s = (Inr (int (length ?P) - 1), s2)"
    using s1(1) s2(1) by (simp add: bp_findDirSlot_def bnd_def go_unfold)
  note l2 = locks_only_trans [OF s1(3) s2(3)]
  show ?thesis
  proof (cases "?P = []")
    case True
    obtain s3 where "bp_getExtra2 ?p s2 = (Inr leftmost, s3)" "bt_page ?p s3 D x1 leftmost" "locks_only t s2 s3"
      using bt_page_header(3) [OF s2(2)] by auto
    then show ?thesis
      using slot True locks_only_trans [OF l2] unfolding dr_findChildBlock_def dir_child_def by (auto simp: bnd_def)
  next
    case False
    let ?j = "length ?P - 1"
    have "length ?P \<le> length D" by (rule length_takeWhile_le)
    then have j: "?j < length D" "int (length ?P) - 1 = int ?j" using False by (cases ?P; simp)+
    obtain s3 where s3: "bp_getBlockField ?p (int ?j) s2 = (Inr (val_int ((D ! ?j) BlockField)), s3)" "bt_page ?p s3 D x1 leftmost" "locks_only t s2 s3"
      using page_block_field [OF s2(2) j(1) f(2,3)] by auto
    have "D ! ?j = last ?P" using False by (metis last_conv_nth takeWhile_nth diff_less length_greater_0_conv zero_less_one)
    then have "dr_findChildBlock (dir_at t fn lay k) (Some key) s = (Inr (dir_child key D leftmost), s3)"
      using slot s3(1) False unfolding dr_findChildBlock_def dir_child_def Let_def j(2) by (simp add: bnd_def)
    then show ?thesis using s3(2) locks_only_trans [OF l2 s3(3)] by blast
  qed
qed

lemma dir_open:
  assumes st: "bt_stored (leaf_at t fn lay k) s D x1 x2" and inv: "pool_inv s" and pi: "pins_are s t bs"
    and room: "length bs < card (own_buffers s t)"
  obtains s' where "newBTreeDir t (NewBlockId fn k) lay s = (Inr (dir_at t fn lay k), s')" and "pool_inv s'"
    and "pins_are s' t (NewBlockId fn k # bs)" and "own_buffers s' t = own_buffers s t" and "spares t {} s s'"
proof -
  have nf: "in_file s (NewBlockId fn k)" "File (NewBlockId fn k) \<noteq> logFile s" using st by (simp_all add: bt_stored_def bt_home_def)
  have nm: "File (NewBlockId fn k) = fn" by (simp add: NewBlockId_def)
  obtain s' where "newBTreePage t (NewBlockId fn k) lay s = (Inr (leaf_at t fn lay k), s')" "pool_inv s'"
    "pins_are s' t (NewBlockId fn k # bs)" "own_buffers s' t = own_buffers s t" "spares t {} s s'"
    by (rule newBTreePage_spec [OF inv pi room nf])
  then show thesis by (intro that [of s']) (simp_all add: newBTreeDir_def bnd_def go_unfold nm)
qed

lemma dir_close:
  assumes inv: "pool_inv s" and pi: "pins_are s t (NewBlockId fn k # bs)"
  obtains s' where "dr_close (dir_at t fn lay k) s = (Inr (), s')" and "pool_inv s'" and "pins_are s' t bs"
    and "own_buffers s' t = own_buffers s t" and "spares t {} s s'"
proof -
  have p: "pins_are s (bp_tx (leaf_at t fn lay k)) (bp_block (leaf_at t fn lay k) # bs)" using pi by simp
  obtain s' where "bp_close (leaf_at t fn lay k) s = (Inr (), s')" "pool_inv s'"
    "pins_are s' (bp_tx (leaf_at t fn lay k)) bs"
    "own_buffers s' (bp_tx (leaf_at t fn lay k)) = own_buffers s (bp_tx (leaf_at t fn lay k))" "spares (bp_tx (leaf_at t fn lay k)) {} s s'"
    by (rule bp_close_spec [OF inv p])
  then show thesis by (intro that [of s']) (simp_all add: dr_close_def)
qed

text \<open>The child of a page, and its level, as \<open>search\<close> reads them.\<close>

lemma dir_step:
  assumes st: "bt_stored (leaf_at t fn lay k) s D level leftmost" and lay: "dir_layout lay key"
    and inv: "pool_inv s" and pi: "pins_are s t (NewBlockId fn k # bs)"
  obtains s1 s2 where "dr_findChildBlock (dir_at t fn lay k) (Some key) s = (Inr (dir_child key D leftmost), s1)"
    and "bp_getExtra1 (leaf_at t fn lay k) s1 = (Inr level, s2)" and "pool_inv s2"
    and "pins_are s2 t (NewBlockId fn k # bs)" and "own_buffers s2 t = own_buffers s t" and "spares t {} s s2"
proof -
  have b: "bt_page (leaf_at t fn lay k) s D level leftmost"
    by (rule bt_stored_page [OF st inv, of "NewBlockId fn k # bs"]) (use pi in simp_all)
  obtain s1 where s1: "dr_findChildBlock (dir_at t fn lay k) (Some key) s = (Inr (dir_child key D leftmost), s1)"
    "bt_page (leaf_at t fn lay k) s1 D level leftmost" "locks_only t s s1"
    using findChildBlock_child [OF b lay] by blast
  obtain s2 where s2: "bp_getExtra1 (leaf_at t fn lay k) s1 = (Inr level, s2)" "locks_only t s1 s2"
    using bt_page_header(2) [OF s1(2)] by auto
  note lo = locks_only_trans [OF s1(3) s2(2)]
  show thesis
    using s1(1) s2(1) inv pi locks_only_same [OF lo] spares_locks [OF lo] pins_are_cong [of s2 t s]
    by (intro that [of s1 s2]) simp_all
qed

lemma dr_search_leads:
  assumes "dir_layout lay key" and "dir_leads h t fn lay s key k leaf" and "pool_inv s" and "pins_are s t (NewBlockId fn k # bs)"
    and "length bs + h < card (own_buffers s t)" and "h < n"
  shows "\<exists>s'. dr_search n (dir_at t fn lay k) (Some key) s = (Inr leaf, s') \<and> pool_inv s' \<and> pins_are s' t (NewBlockId fn k # bs) \<and>
    own_buffers s' t = own_buffers s t \<and> spares t {} s s'"
  using assms(2-)
proof (induction h arbitrary: n s k bs)
  case 0
  obtain n0 where n: "n = Suc n0" using 0(5) by (cases n) auto
  obtain D leftmost where d: "bt_stored (leaf_at t fn lay k) s D 0 leftmost" "leaf = dir_child key D leftmost" using 0(1) by auto
  obtain s1 s2 where s: "dr_findChildBlock (dir_at t fn lay k) (Some key) s = (Inr leaf, s1)"
    "bp_getExtra1 (leaf_at t fn lay k) s1 = (Inr 0, s2)" "pool_inv s2" "pins_are s2 t (NewBlockId fn k # bs)"
    "own_buffers s2 t = own_buffers s t" "spares t {} s s2"
    by (rule dir_step [OF d(1) assms(1) 0(2,3)]) (simp only: d(2))
  then show ?case unfolding n by (simp add: bnd_def go_unfold)
next
  case (Suc h)
  obtain n0 where n: "n = Suc n0" "h < n0" using Suc.prems(5) by (cases n) auto
  obtain D level leftmost where d: "bt_stored (leaf_at t fn lay k) s D level leftmost" "level \<noteq> 0"
    and leads: "dir_leads h t fn lay s key (dir_child key D leftmost) leaf" using Suc.prems(1) by auto
  let ?c = "dir_child key D leftmost"
  obtain s1 s2 where s2: "dr_findChildBlock (dir_at t fn lay k) (Some key) s = (Inr ?c, s1)"
    "bp_getExtra1 (leaf_at t fn lay k) s1 = (Inr level, s2)" "pool_inv s2" "pins_are s2 t (NewBlockId fn k # bs)"
    "own_buffers s2 t = own_buffers s t" "spares t {} s s2"
    by (rule dir_step [OF d(1) assms(1) Suc.prems(2,3)])
  have leads2: "dir_leads h t fn lay s2 key ?c leaf" by (rule dir_leads_spares [OF s2(6) _ leads]) simp
  then obtain D' l' x' where st': "bt_stored (leaf_at t fn lay ?c) s2 D' l' x'" using dir_leads_stored by blast
  have room2: "length (NewBlockId fn k # bs) < card (own_buffers s2 t)" using Suc.prems(4) s2(5) by simp
  obtain s3 where s3: "newBTreeDir t (NewBlockId fn ?c) lay s2 = (Inr (dir_at t fn lay ?c), s3)" "pool_inv s3"
    "pins_are s3 t (NewBlockId fn ?c # NewBlockId fn k # bs)" "own_buffers s3 t = own_buffers s2 t" "spares t {} s2 s3"
    by (rule dir_open [OF st' s2(3,4) room2])
  have leads3: "dir_leads h t fn lay s3 key ?c leaf" by (rule dir_leads_spares [OF s3(5) _ leads2]) simp
  have room3: "length (NewBlockId fn k # bs) + h < card (own_buffers s3 t)" using Suc.prems(4) s2(5) s3(4) by simp
  obtain s4 where s4: "dr_search n0 (dir_at t fn lay ?c) (Some key) s3 = (Inr leaf, s4)" "pool_inv s4"
    "pins_are s4 t (NewBlockId fn ?c # NewBlockId fn k # bs)" "own_buffers s4 t = own_buffers s3 t" "spares t {} s3 s4"
    using Suc.IH [OF leads3 s3(2,3) room3 n(2)] by blast
  obtain s5 where s5: "dr_close (dir_at t fn lay ?c) s4 = (Inr (), s5)" "pool_inv s5" "pins_are s5 t (NewBlockId fn k # bs)"
    "own_buffers s5 t = own_buffers s4 t" "spares t {} s4 s5"
    by (rule dir_close [OF s4(2,3), of lay])
  have "dr_search n (dir_at t fn lay k) (Some key) s = (Inr leaf, s5)"
    using s2(1,2) d(2) s3(1) s4(1) s5(1) unfolding n(1) by (simp add: bnd_def with_defer_def)
  moreover have "spares t {} s s5"
    using spares_trans [OF s2(6) spares_trans [OF s3(5) spares_trans [OF s4(5) s5(5)]]] by simp
  ultimately show ?case using s5(2-4) s2(5) s3(4) s4(4) by auto
qed

section \<open>Searching the index\<close>

text \<open>Reading the index until \<open>Next\<close> says false.\<close>

fun index_rids :: "nat \<Rightarrow> nat \<Rightarrow> ('z, record_id list) index_go" where
  "index_rids 0 n = (\<lambda>s. (Inl OutOfFuel, s))"
| "index_rids (Suc m) n =
     bnd (bi_Next n) (\<lambda>ok. if ok then bnd bi_GetDataRecordID (\<lambda>r. bnd (index_rids m n) (\<lambda>rs. ret (r # rs))) else ret [])"

lemma on_leaf_run: "bi_leaf ix = Some l \<Longrightarrow> m (l, s) = (r, (l', s')) \<Longrightarrow> on_leaf m (ix, s) = (r, (ix\<lparr>bi_leaf := Some l'\<rparr>, s'))"
  by (simp add: on_leaf_def)

lemma index_rids_leaf:
  "bi_leaf ix = Some l \<Longrightarrow> leaf_rids m n (l, s) = (r, (l', s')) \<Longrightarrow> index_rids m n (ix, s) = (r, (ix\<lparr>bi_leaf := Some l'\<rparr>, s'))"
proof (induction m arbitrary: ix l s r l' s')
  case 0
  then show ?case by (cases ix) auto
next
  case (Suc m)
  obtain a l1 s1 where a: "lf_next n (l, s) = (a, (l1, s1))" by (cases "lf_next n (l, s)") auto
  obtain b l2 s2 where b: "lf_getDataRID (l1, s1) = (b, (l2, s2))" by (cases "lf_getDataRID (l1, s1)") auto
  obtain c l3 s3 where c: "leaf_rids m n (l2, s2) = (c, (l3, s3))" by (cases "leaf_rids m n (l2, s2)") auto
  have run: "bi_Next n (ix, s) = (a, (ix\<lparr>bi_leaf := Some l1\<rparr>, s1))"
    "bi_GetDataRecordID (ix\<lparr>bi_leaf := Some l1\<rparr>, s1) = (b, (ix\<lparr>bi_leaf := Some l2\<rparr>, s2))"
    "index_rids m n (ix\<lparr>bi_leaf := Some l2\<rparr>, s2) = (c, (ix\<lparr>bi_leaf := Some l3\<rparr>, s3))"
    using on_leaf_run [where m = "lf_next n", OF Suc.prems(1) a] on_leaf_run [where m = lf_getDataRID and ix = "ix\<lparr>bi_leaf := Some l1\<rparr>", OF _ b]
      Suc.IH [where ix = "ix\<lparr>bi_leaf := Some l2\<rparr>", OF _ c] by (simp_all add: bi_Next_def bi_GetDataRecordID_def)
  show ?case
    using Suc.prems(2) by (cases a; cases b; cases c) (auto simp: bnd_def a b c run go_unfold split: if_splits)
qed

text \<open>The directory sends the key to the front of a chain of leaves.\<close>

definition index_leads :: "btree_index \<Rightarrow> nat \<Rightarrow> 'z world_scheme \<Rightarrow> val \<Rightarrow> (int \<times> entry list) list \<Rightarrow> bool" where
  "index_leads ix h s key C \<longleftrightarrow> C \<noteq> [] \<and> bi_root ix = NewBlockId (dirFile (bi_name ix)) 0 \<and>
     dir_leads h (bi_tx ix) (dirFile (bi_name ix)) (bi_dirLayout ix) s key 0 (fst (hd C)) \<and>
     leaf_chain (bi_tx ix) (leafFile (bi_name ix)) (bi_leafLayout ix) s C \<and> leaf_layout (bi_leafLayout ix) key \<and>
     dir_layout (bi_dirLayout ix) key \<and> keyed key (chain_entries C)"

text \<open>From the root to an open leaf: the directory is unpinned again.\<close>

lemma descend:
  assumes ix: "index_leads ix h s key ((k, L) # C)" and inv: "pool_inv s" and pi: "pins_are s (bi_tx ix) bs"
    and room: "length bs + h < card (own_buffers s (bi_tx ix))" and n: "h < n"
  obtains d s1 s2 s3 where "newBTreeDir (bi_tx ix) (bi_root ix) (bi_dirLayout ix) s = (Inr d, s1)"
    and "dr_search n d (Some key) s1 = (Inr k, s2)" and "dr_close d s2 = (Inr (), s3)"
    and "pool_inv s2" and "pins_are s2 (bi_tx ix) (bi_root ix # bs)" and "own_buffers s2 (bi_tx ix) = own_buffers s (bi_tx ix)"
    and "spares (bi_tx ix) {} s s2" and "pool_inv s3" and "pins_are s3 (bi_tx ix) bs"
    and "own_buffers s3 (bi_tx ix) = own_buffers s (bi_tx ix)" and "spares (bi_tx ix) {} s s3"
    and "d = dir_at (bi_tx ix) (dirFile (bi_name ix)) (bi_dirLayout ix) 0"
proof -
  let ?t = "bi_tx ix" and ?fn = "dirFile (bi_name ix)" and ?lay = "bi_dirLayout ix"
  have root: "bi_root ix = NewBlockId ?fn 0" and leads: "dir_leads h ?t ?fn ?lay s key 0 k" and lay: "dir_layout ?lay key"
    using ix by (simp_all add: index_leads_def)
  obtain D x1 x2 where st: "bt_stored (leaf_at ?t ?fn ?lay 0) s D x1 x2" using dir_leads_stored [OF leads] by blast
  have rm: "length bs < card (own_buffers s ?t)" using room by simp
  obtain s1 where s1: "newBTreeDir ?t (NewBlockId ?fn 0) ?lay s = (Inr (dir_at ?t ?fn ?lay 0), s1)" "pool_inv s1"
    "pins_are s1 ?t (NewBlockId ?fn 0 # bs)" "own_buffers s1 ?t = own_buffers s ?t" "spares ?t {} s s1"
    by (rule dir_open [OF st inv pi rm])
  have leads1: "dir_leads h ?t ?fn ?lay s1 key 0 k" by (rule dir_leads_spares [OF s1(5) _ leads]) simp
  have room1: "length bs + h < card (own_buffers s1 ?t)" using room s1(4) by simp
  obtain s2 where s2: "dr_search n (dir_at ?t ?fn ?lay 0) (Some key) s1 = (Inr k, s2)" "pool_inv s2"
    "pins_are s2 ?t (NewBlockId ?fn 0 # bs)" "own_buffers s2 ?t = own_buffers s1 ?t" "spares ?t {} s1 s2"
    using dr_search_leads [OF lay leads1 s1(2,3) room1 n] by blast
  obtain s3 where s3: "dr_close (dir_at ?t ?fn ?lay 0) s2 = (Inr (), s3)" "pool_inv s3" "pins_are s3 ?t bs"
    "own_buffers s3 ?t = own_buffers s2 ?t" "spares ?t {} s2 s3"
    by (rule dir_close [OF s2(2,3), of ?lay])
  have "spares ?t {} s s2" using spares_trans [OF s1(5) s2(5)] by simp
  moreover from this have "spares ?t {} s s3" using spares_trans [OF _ s3(5)] by fastforce
  ultimately show thesis
    using s1(1,4) s2(1-4) s3(1-4) by (intro that [of "dir_at ?t ?fn ?lay 0" s1 s2 s3]) (simp_all add: root)
qed

lemma bi_BeforeFirst_walks:
  assumes leaf: "bi_leaf ix = None" and ix: "index_leads ix h s key ((k, L) # C)" and inv: "pool_inv s" and pi: "pins_are s (bi_tx ix) bs"
    and room: "length bs + h < card (own_buffers s (bi_tx ix))" and n: "h < n"
  obtains l s' where "bi_BeforeFirst n (Some key) (ix, s) = (Inr (), (ix\<lparr>bi_leaf := Some l\<rparr>, s'))"
    and "walking (bi_tx ix) (leafFile (bi_name ix)) (bi_leafLayout ix) key bs l s' ((k, L) # C)"
    and "lf_slot l = int (length (takeWhile (key_below key) L)) - 1" and "spares (bi_tx ix) {} s s'"
proof -
  let ?t = "bi_tx ix" and ?fn = "leafFile (bi_name ix)" and ?lay = "bi_leafLayout ix"
  obtain d s1 s2 s3 where d: "newBTreeDir ?t (bi_root ix) (bi_dirLayout ix) s = (Inr d, s1)"
    "dr_search n d (Some key) s1 = (Inr k, s2)" "dr_close d s2 = (Inr (), s3)"
    "pool_inv s3" "pins_are s3 ?t bs" "own_buffers s3 ?t = own_buffers s ?t" "spares ?t {} s s3"
    by (rule descend [OF ix inv pi room n])
  have ch: "leaf_chain ?t ?fn ?lay s3 ((k, L) # C)" and lay: "leaf_layout ?lay key"
    using chain_spares [OF d(7)] ix by (simp_all only: index_leads_def)
  have rm: "length bs < card (own_buffers s3 ?t)" using room d(6) by simp
  obtain l s4 where l: "newBTreeLeaf ?t (NewBlockId ?fn k) ?lay (Some key) s3 = (Inr l, s4)"
    "walking ?t ?fn ?lay key bs l s4 ((k, L) # C)" "lf_slot l = int (length (takeWhile (key_below key) L)) - 1"
    "own_buffers s4 ?t = own_buffers s3 ?t" "spares ?t {} s3 s4"
    by (rule newBTreeLeaf_walks [OF ch lay d(4,5) rm])
  have "closing (dr_search n d (Some key)) (dr_close d) s1 = (Inr k, s3)"
    using d(2,3) by (simp add: closing_def handle_def bnd_def go_unfold)
  then have "bi_BeforeFirst n (Some key) (ix, s) = (Inr (), (ix\<lparr>bi_leaf := Some l\<rparr>, s4))"
    using leaf d(1) l(1)
    by (simp add: bi_BeforeFirst_def bi_Close_def obj_gets_def obj_upd_def on_state_def bnd_def go_unfold)
  then show thesis using l(2,3) spares_trans [OF d(7) l(5)] by (intro that [of l s4]) simp_all
qed

lemma index_finds:
  assumes "bi_leaf ix = None" and ix: "index_leads ix h s key C" and "pool_inv s" and "pins_are s (bi_tx ix) bs"
    and "length bs + h < card (own_buffers s (bi_tx ix))" and "h < n"
    and "length (filter (has_key key) (chain_entries C)) < m" and "chain_steps C < n"
  obtains l s' C' where "bnd (bi_BeforeFirst n (Some key)) (\<lambda>_. index_rids m n) (ix, s) =
      (Inr (map entry_rid (filter (has_key key) (chain_entries C))), (ix\<lparr>bi_leaf := Some l\<rparr>, s'))"
    and "walking (bi_tx ix) (leafFile (bi_name ix)) (bi_leafLayout ix) key bs l s' C'" and "spares (bi_tx ix) {} s s'"
proof -
  obtain k L C0 where C: "C = (k, L) # C0" using ix by (cases C) (auto simp: index_leads_def)
  obtain l s1 where l: "bi_BeforeFirst n (Some key) (ix, s) = (Inr (), (ix\<lparr>bi_leaf := Some l\<rparr>, s1))"
    "walking (bi_tx ix) (leafFile (bi_name ix)) (bi_leafLayout ix) key bs l s1 ((k, L) # C0)"
    "lf_slot l = int (length (takeWhile (key_below key) L)) - 1" "spares (bi_tx ix) {} s s1"
    by (rule bi_BeforeFirst_walks [OF assms(1) ix [unfolded C] assms(3-6)])
  have lay: "leaf_layout (bi_leafLayout ix) key" and ky: "keyed key (chain_entries ((k, L) # C0))"
    using ix C by (simp_all only: index_leads_def)
  obtain l' s' C' where r: "leaf_rids m n (l, s1) = (Inr (map entry_rid (filter (has_key key) (chain_entries ((k, L) # C0)))), (l', s'))"
    and w: "walking (bi_tx ix) (leafFile (bi_name ix)) (bi_leafLayout ix) key bs l' s' C'" "spares (bi_tx ix) {} s1 s'"
    using leaf_rids_opened [OF lay l(2,3) ky assms(7,8) [unfolded C]] by blast
  have "index_rids m n (ix\<lparr>bi_leaf := Some l\<rparr>, s1) =
      (Inr (map entry_rid (filter (has_key key) (chain_entries C))), (ix\<lparr>bi_leaf := Some l, bi_leaf := Some l'\<rparr>, s'))"
    unfolding C by (rule index_rids_leaf [OF _ r]) simp
  then show thesis using l(1) w spares_trans [OF l(4) w(2)] by (intro that [of l' s' C']) (simp_all add: bnd_def)
qed

section \<open>Insertion into the index\<close>

lemma keyed_put:
  assumes "keyed key (L @ R)" and "\<forall>e \<in> set R. vcmp key (bt_key e) \<le> 0"
  shows "keyed key (leaf_put key rid L @ R)"
    and "filter (has_key key) (leaf_put key rid L @ R) = leaf_entry key rid # filter (has_key key) (L @ R)"
proof -
  have ty: "\<forall>e \<in> set L. val_type (bt_key e) = val_type key" and so: "bt_sorted L"
    using assms(1) by (simp_all add: keyed_def bt_sorted_append)
  show "keyed key (leaf_put key rid L @ R)"
    using assms leaf_put_sorted [OF so ty, of rid] by (auto simp: keyed_def bt_sorted_append leaf_put_set)
  have none: "filter (has_key key) (takeWhile (key_below key) L) = []"
    by (auto simp: filter_empty_conv has_key_def key_below_def dest: set_takeWhileD)
  have "filter (has_key key) L = filter (has_key key) (takeWhile (key_below key) L @ dropWhile (key_below key) L)" by simp
  also have "\<dots> = filter (has_key key) (dropWhile (key_below key) L)" unfolding filter_append none by simp
  finally show "filter (has_key key) (leaf_put key rid L @ R) = leaf_entry key rid # filter (has_key key) (L @ R)"
    using none by (simp add: leaf_put_def has_key_def)
qed

lemma files_apart: "leafFile n \<noteq> dirFile n" "dirFile n \<noteq> leafFile n"
  by (simp_all add: leafFile_def dirFile_def)

abbreviation ix_leaf :: "btree_index \<Rightarrow> int \<Rightarrow> btree_page" where
  "ix_leaf ix k \<equiv> leaf_at (bi_tx ix) (leafFile (bi_name ix)) (bi_leafLayout ix) k"

lemma index_leads_change:
  assumes ix: "index_leads ix h s key ((k, L) # C)" and sp: "spares (bi_tx ix) {bp_block (ix_leaf ix k)} s s'"
    and ch: "leaf_chain (bi_tx ix) (leafFile (bi_name ix)) (bi_leafLayout ix) s' ((k, L') # C)" and ky: "keyed key (chain_entries ((k, L') # C))"
  shows "index_leads ix h s' key ((k, L') # C)"
proof -
  have "dir_leads h (bi_tx ix) (dirFile (bi_name ix)) (bi_dirLayout ix) s' key 0 k"
    by (rule dir_leads_spares [OF sp]) (use ix files_apart in \<open>auto simp: index_leads_def NewBlockId_def\<close>)
  then show ?thesis using ix ch ky by (simp add: index_leads_def)
qed

lemma bi_Insert_room:
  assumes ix: "index_leads ix h s key ((k, L) # C)" and "k \<notin> fst ` set C" and t: "leaf_takes (ix_leaf ix k) key rid"
    and cap: "length L < bt_cap (ix_leaf ix k) (blockSize s)" and next': "\<forall>e \<in> set (chain_entries C). vcmp key (bt_key e) \<le> 0"
    and inv: "pool_inv s" and pi: "pins_are s (bi_tx ix) bs" and room: "length bs + max 1 h < card (own_buffers s (bi_tx ix))" and n: "h < n"
  obtains s' where "bi_Insert n (Some key) rid (ix, s) = (Inr (), (ix, s'))" and "index_leads ix h s' key ((k, leaf_put key rid L) # C)"
    and "pool_inv s'" and "pins_are s' (bi_tx ix) bs" and "own_buffers s' (bi_tx ix) = own_buffers s (bi_tx ix)"
    and "spares (bi_tx ix) {bp_block (ix_leaf ix k)} s s'"
proof -
  let ?t = "bi_tx ix" and ?fn = "leafFile (bi_name ix)" and ?lay = "bi_leafLayout ix" and ?p = "ix_leaf ix k"
  have room': "length bs + h < card (own_buffers s ?t)" using room by simp
  obtain d s1 s2 s3 where d: "newBTreeDir ?t (bi_root ix) (bi_dirLayout ix) s = (Inr d, s1)" "dr_search n d (Some key) s1 = (Inr k, s2)"
    "pool_inv s2" "pins_are s2 ?t (bi_root ix # bs)" "own_buffers s2 ?t = own_buffers s ?t" "spares ?t {} s s2"
    "d = dir_at ?t (dirFile (bi_name ix)) (bi_dirLayout ix) 0"
    by (rule descend [OF ix inv pi room' n])
  have lay: "leaf_layout ?lay key" and ch: "leaf_chain ?t ?fn ?lay s2 ((k, L) # C)" and root: "bi_root ix = NewBlockId (dirFile (bi_name ix)) 0"
    using ix chain_spares [OF d(6)] by (simp_all only: index_leads_def)
  have rm: "length (bi_root ix # bs) < card (own_buffers s2 ?t)" using room d(5) by simp
  obtain l s4 where l: "newBTreeLeaf ?t (NewBlockId ?fn k) ?lay (Some key) s2 = (Inr l, s4)"
    "walking ?t ?fn ?lay key (bi_root ix # bs) l s4 ((k, L) # C)" "own_buffers s4 ?t = own_buffers s2 ?t" "spares ?t {} s2 s4"
    by (rule newBTreeLeaf_walks [OF ch lay d(3,4) rm])
  note w = walkingD [OF l(2)]
  obtain x1 x2 where b: "bt_page ?p s4 L x1 x2" "case C of [] \<Rightarrow> x1 < 0 | (k', L') # C' \<Rightarrow> x1 = k'" using w(11) by blast
  have "blockSize s4 = blockSize s" using l(4) d(6) by (simp add: spares_def)
  then have cap': "length L < bt_cap ?p (blockSize s4)" using cap by simp
  obtain s5 where s5: "lf_insert (Some key) rid (l, s4) = (Inr None, (l, s5))" "touches ?p s4 s5" "bt_page ?p s5 (leaf_put key rid L) x1 x2"
    using lf_insert_room [OF w(1) b(1) t cap'] by blast
  have sp5: "spares ?t {bp_block ?p} s4 s5" using spares_touches [OF s5(2)] by simp
  have "leaf_chain ?t ?fn ?lay s5 C"
    by (rule chain_kept [OF sp5]) (use w(10) assms(2) in \<open>auto simp: NewBlockId_def\<close>)
  then have ch5: "leaf_chain ?t ?fn ?lay s5 ((k, leaf_put key rid L) # C)" using bt_page_stored [OF s5(3)] b(2) by auto
  have "pool_inv s5" "pins_are s5 ?t (NewBlockId ?fn k # bi_root ix # bs)" and own5: "own_buffers s5 ?t = own_buffers s4 ?t"
    using s5(2) w(7,8) unfolding touches_def by auto
  then have w5: "walking ?t ?fn ?lay key (bi_root ix # bs) l s5 ((k, leaf_put key rid L) # C)"
    using l(2) ch5 w(9) by (simp add: walking_def)
  obtain s6 where s6: "lf_close (l, s5) = (Inr (), (l\<lparr>lf_page := None\<rparr>, s6))" "pool_inv s6" "pins_are s6 ?t (bi_root ix # bs)"
    "own_buffers s6 ?t = own_buffers s5 ?t" "spares ?t {} s5 s6"
    by (rule lf_close_walking [OF w5])
  obtain s7 where s7: "dr_close d s6 = (Inr (), s7)" "pool_inv s7" "pins_are s7 ?t bs"
    "own_buffers s7 ?t = own_buffers s6 ?t" "spares ?t {} s6 s7"
    using dir_close [OF s6(2) s6(3) [unfolded root], of "bi_dirLayout ix"] d(7) by blast
  have "run_local l (closing (lf_insert (Some key) rid) lf_close) s4 = (Inr None, s6)"
    using s5(1) s6(1) by (simp add: run_local_def closing_def handle_def bnd_def go_unfold)
  then have run: "bi_Insert n (Some key) rid (ix, s) = (Inr (), (ix, s7))"
    using d(1,2) l(1) s7(1)
    by (simp add: bi_Insert_def obj_gets_def on_state_def bnd_def go_unfold closing_def handle_def)
  have sp4: "spares ?t {} s s4" using spares_trans [OF d(6) l(4)] by simp
  have sp67: "spares ?t {} s5 s7" using spares_trans [OF s6(5) s7(5)] by simp
  have sp: "spares ?t {bp_block ?p} s s7" using spares_trans [OF sp4 spares_trans [OF sp5 sp67]] by simp
  have ky: "keyed key (chain_entries ((k, leaf_put key rid L) # C))"
    using keyed_put(1) [OF _ next'] ix by (simp add: index_leads_def)
  have "index_leads ix h s7 key ((k, leaf_put key rid L) # C)"
    by (rule index_leads_change [OF ix sp chain_spares [OF sp67 ch5] ky])
  then show thesis using run sp s7(2-4) s6(4) own5 l(3) d(5) by (intro that [of s7]) simp_all
qed

end
