(* ===== verification/DirTree.thy ===== *)
theory DirTree
  imports IndexSearch
begin

text \<open>
  \<^verbatim>\<open>index/btree/dir.go\<close>: a directory of any height as one sorted list of separators.

  \<open>dir_tree t fn lay s h k lm es N\<close>: the block \<open>k\<close> is the root of a directory with \<open>h\<close> levels of pages, its
  leftmost leaf is \<open>lm\<close>, \<open>es\<close> lists the keys and leaves of all its levels from left to right, and \<open>N\<close> its pages.
  A search follows the last separator that is not above the key (\<open>route\<close>); an insertion puts the new separator
  behind it (\<open>sep_put\<close>), however many pages split.
\<close>

section \<open>Separators\<close>

type_synonym sep = "val \<times> int"

abbreviation le_key :: "val \<Rightarrow> sep \<Rightarrow> bool" where
  "le_key key \<equiv> (\<lambda>x. vcmp (fst x) key \<le> 0)"

definition sep_sorted :: "val \<Rightarrow> sep list \<Rightarrow> bool" where
  "sep_sorted key es \<longleftrightarrow> sorted_wrt (\<lambda>a b. vcmp (fst a) (fst b) < 0) es \<and> (\<forall>x \<in> set es. val_type (fst x) = val_type key)"

definition sep_put :: "val \<Rightarrow> int \<Rightarrow> sep list \<Rightarrow> sep list" where
  "sep_put key leaf es = takeWhile (le_key key) es @ (key, leaf) # dropWhile (le_key key) es"

definition route :: "val \<Rightarrow> int \<Rightarrow> sep list \<Rightarrow> int" where
  "route key lm es = last (lm # map snd (filter (le_key key) es))"

lemma route_append: "route key lm (xs @ ys) = route key (route key lm xs) ys"
  by (cases "map snd (filter (le_key key) ys)") (simp_all add: route_def)

lemma route_simps [simp]: "route key lm [] = lm" "route key lm (x # xs) = route key (if le_key key x then snd x else lm) xs"
  using route_append [of key lm "[x]" xs] by (simp_all add: route_def)

lemma route_above: "\<forall>x \<in> set xs. \<not> le_key key x \<Longrightarrow> route key lm xs = lm"
  by (simp add: route_def)

lemma sep_sorted_append:
  "sep_sorted key (xs @ ys) \<longleftrightarrow> sep_sorted key xs \<and> sep_sorted key ys \<and> (\<forall>x \<in> set xs. \<forall>y \<in> set ys. vcmp (fst x) (fst y) < 0)"
  by (auto simp: sep_sorted_def sorted_wrt_append)

lemma sep_sorted_Cons:
  "sep_sorted key (x # xs) \<longleftrightarrow> val_type (fst x) = val_type key \<and> (\<forall>y \<in> set xs. vcmp (fst x) (fst y) < 0) \<and> sep_sorted key xs"
  by (auto simp: sep_sorted_def)

text \<open>Strict comparisons of values of one type.\<close>

lemma vcmp_swap:
  assumes "val_type a = val_type b"
  shows "vcmp a b < 0 \<longleftrightarrow> \<not> vcmp b a \<le> 0"
  using vcmp_anti [OF assms] by linarith

lemma vcmp_less_trans:
  assumes ab: "val_type a = val_type b" and bc: "val_type b = val_type c" and lt: "vcmp a b < 0" "vcmp b c \<le> 0"
  shows "vcmp a c < 0"
proof -
  note ac = trans [OF ab bc]
  have "\<not> vcmp b a \<le> 0" using lt(1) unfolding vcmp_swap [OF ab] .
  then have "\<not> vcmp c a \<le> 0" using vcmp_trans [OF bc ac [symmetric] lt(2)] by blast
  then show ?thesis unfolding vcmp_swap [OF ac] .
qed

lemma vcmp_le_less_trans:
  assumes ab: "val_type a = val_type b" and bc: "val_type b = val_type c" and lt: "vcmp a b \<le> 0" "vcmp b c < 0"
  shows "vcmp a c < 0"
proof -
  note ac = trans [OF ab bc]
  have "\<not> vcmp c b \<le> 0" using lt(2) unfolding vcmp_swap [OF bc] .
  then have "\<not> vcmp c a \<le> 0" using vcmp_trans [OF ac [symmetric] ab] lt(1) by blast
  then show ?thesis unfolding vcmp_swap [OF ac] .
qed

text \<open>In a sorted list the separators that are not above a key are a prefix.\<close>

lemma sep_sorted_le:
  assumes "sep_sorted key (xs @ x # ys)" and "le_key key x" and "y \<in> set xs"
  shows "le_key key y"
proof -
  have "vcmp (fst y) (fst x) < 0" "val_type (fst x) = val_type key" using assms(1,3) by (simp_all add: sep_sorted_append sep_sorted_Cons)
  moreover have "val_type (fst y) = val_type key" using assms(1,3) by (simp add: sep_sorted_def)
  ultimately show ?thesis using vcmp_trans [of "fst y" "fst x" key] assms(2) by simp
qed

lemma sep_sorted_gt:
  assumes "sep_sorted key (x # ys)" and "\<not> le_key key x" and "y \<in> set ys"
  shows "\<not> le_key key y"
proof
  assume le: "le_key key y"
  have "vcmp (fst x) (fst y) < 0" "val_type (fst x) = val_type key" "val_type (fst y) = val_type key"
    using assms(1,3) by (simp_all add: sep_sorted_def)
  then have "vcmp (fst x) key \<le> 0" using vcmp_trans [of "fst x" "fst y" key] le by simp
  then show False using assms(2) by simp
qed

lemma sep_put_cut:
  assumes "\<forall>x \<in> set X. le_key key x" and "\<forall>y \<in> set Y. \<not> le_key key y"
  shows "sep_put key leaf (X @ es @ Y) = X @ sep_put key leaf es @ Y"
proof -
  have "takeWhile (le_key key) (es @ Y) = takeWhile (le_key key) es \<and> dropWhile (le_key key) (es @ Y) = dropWhile (le_key key) es @ Y"
    using assms(2) by (cases Y; induction es) auto
  then show ?thesis using assms(1) by (simp add: sep_put_def)
qed

section \<open>Trees of pages\<close>

text \<open>The subtrees below the entries of a page, one behind the other; \<open>P\<close> describes a single one.\<close>

fun kids :: "(int \<Rightarrow> int \<Rightarrow> sep list \<Rightarrow> int list \<Rightarrow> bool) \<Rightarrow> entry list \<Rightarrow> sep list \<Rightarrow> int list \<Rightarrow> bool" where
  "kids P [] es N \<longleftrightarrow> es = [] \<and> N = []"
| "kids P (e # D) es N \<longleftrightarrow> (\<exists>l x M es' N'. P (val_int (e BlockField)) l x M \<and> kids P D es' N' \<and>
     es = (bt_key e, l) # x @ es' \<and> N = M @ N')"

text \<open>All subtrees of a page: the one of its leftmost child first.\<close>

definition kids0 :: "(int \<Rightarrow> int \<Rightarrow> sep list \<Rightarrow> int list \<Rightarrow> bool) \<Rightarrow> int \<Rightarrow> int \<Rightarrow> entry list \<Rightarrow> sep list \<Rightarrow> int list \<Rightarrow> bool" where
  "kids0 P c0 lm D es N \<longleftrightarrow> (\<exists>es0 N0 es1 N1. P c0 lm es0 N0 \<and> kids P D es1 N1 \<and> es = es0 @ es1 \<and> N = N0 @ N1)"

primrec dir_tree :: "int \<Rightarrow> string \<Rightarrow> layout \<Rightarrow> 'z world_scheme \<Rightarrow> nat \<Rightarrow> int \<Rightarrow> int \<Rightarrow> sep list \<Rightarrow> int list \<Rightarrow> bool" where
  "dir_tree t fn lay s 0 k lm es N \<longleftrightarrow> lm = k \<and> es = [] \<and> N = []"
| "dir_tree t fn lay s (Suc h) k lm es N \<longleftrightarrow>
     (\<exists>D c0 N'. bt_stored (leaf_at t fn lay k) s D (int h) c0 \<and> kids0 (dir_tree t fn lay s h) c0 lm D es N' \<and> N = k # N')"

lemma kids0I: "P c0 lm es0 N0 \<Longrightarrow> kids P D es1 N1 \<Longrightarrow> kids0 P c0 lm D (es0 @ es1) (N0 @ N1)"
  unfolding kids0_def by blast

lemma kids_append:
  "kids P (A @ B) es N \<longleftrightarrow> (\<exists>es1 es2 N1 N2. kids P A es1 N1 \<and> kids P B es2 N2 \<and> es = es1 @ es2 \<and> N = N1 @ N2)"
proof (induction A arbitrary: es N)
  case (Cons a A)
  show ?case
  proof
    assume "kids P ((a # A) @ B) es N"
    then obtain l x M es' N' where h: "P (val_int (a BlockField)) l x M" "kids P (A @ B) es' N'" "es = (bt_key a, l) # x @ es'" "N = M @ N'"
      by auto
    obtain es1 es2 N1 N2 where "kids P A es1 N1" "kids P B es2 N2" "es' = es1 @ es2" "N' = N1 @ N2"
      using h(2) unfolding Cons.IH by blast
    moreover from this have "kids P (a # A) ((bt_key a, l) # x @ es1) (M @ N1)" using h(1) unfolding kids.simps by blast
    ultimately show "\<exists>es1 es2 N1 N2. kids P (a # A) es1 N1 \<and> kids P B es2 N2 \<and> es = es1 @ es2 \<and> N = N1 @ N2"
      using h(3,4) by (intro exI [of _ "(bt_key a, l) # x @ es1"] exI [of _ es2] exI [of _ "M @ N1"] exI [of _ N2]) simp
  next
    assume "\<exists>es1 es2 N1 N2. kids P (a # A) es1 N1 \<and> kids P B es2 N2 \<and> es = es1 @ es2 \<and> N = N1 @ N2"
    then obtain l x M es1 es2 N1 N2 where "P (val_int (a BlockField)) l x M" "kids P A es1 N1" "kids P B es2 N2"
      "es = (bt_key a, l) # x @ es1 @ es2" "N = M @ N1 @ N2" by auto
    moreover from this have "kids P (A @ B) (es1 @ es2) (N1 @ N2)" unfolding Cons.IH by blast
    ultimately show "kids P ((a # A) @ B) es N" unfolding append_Cons kids.simps by blast
  qed
qed simp

lemma kids_appendI: "kids P A es1 N1 \<Longrightarrow> kids P B es2 N2 \<Longrightarrow> kids P (A @ B) (es1 @ es2) (N1 @ N2)"
  unfolding kids_append by blast

lemma kids_mono:
  "kids P D es N \<Longrightarrow> (\<And>c l x M. P c l x M \<Longrightarrow> set M \<subseteq> set N \<Longrightarrow> Q c l x M) \<Longrightarrow> kids Q D es N"
proof (induction D arbitrary: es N)
  case (Cons e D)
  then obtain l x M es' N' where h: "P (val_int (e BlockField)) l x M" "kids P D es' N'" "es = (bt_key e, l) # x @ es'" "N = M @ N'"
    by auto
  have "kids Q D es' N'"
  proof (rule Cons.IH [OF h(2)])
    show "Q c l x M" if "P c l x M" "set M \<subseteq> set N'" for c l x M
      by (rule Cons.prems(2) [OF that(1)]) (use that(2) h(4) in auto)
  qed
  moreover have "Q (val_int (e BlockField)) l x M" by (rule Cons.prems(2) [OF h(1)]) (simp add: h(4))
  ultimately show ?case using h(3,4) unfolding kids.simps by blast
qed simp

lemma kids0_mono:
  "kids0 P c0 lm D es N \<Longrightarrow> (\<And>c l x M. P c l x M \<Longrightarrow> set M \<subseteq> set N \<Longrightarrow> Q c l x M) \<Longrightarrow> kids0 Q c0 lm D es N"
  unfolding kids0_def by (metis kids_mono [of P _ _ _ Q] set_append Un_upper1 Un_upper2 subset_trans)

lemma kids_pages:
  "kids P D es N \<Longrightarrow> (\<And>c l x M. P c l x M \<Longrightarrow> set M \<subseteq> B) \<Longrightarrow> set N \<subseteq> B"
proof (induction D arbitrary: es N)
  case (Cons e D)
  then obtain l x M es' N' where h: "P (val_int (e BlockField)) l x M" "kids P D es' N'" "N = M @ N'" by auto
  show ?case using Cons.IH [OF h(2) Cons.prems(2)] Cons.prems(2) [OF h(1)] h(3) by simp
qed simp

lemma kids0_pages: "kids0 P c0 lm D es N \<Longrightarrow> (\<And>c l x M. P c l x M \<Longrightarrow> set M \<subseteq> B) \<Longrightarrow> set N \<subseteq> B"
  unfolding kids0_def using kids_pages [of P D _ _ B] by fastforce

lemma dir_tree_spares:
  assumes sp: "spares t B s s'"
  shows "dir_tree t fn lay s h k lm es N \<Longrightarrow> (\<And>k. k \<in> set N \<Longrightarrow> NewBlockId fn k \<notin> B) \<Longrightarrow> dir_tree t fn lay s' h k lm es N"
proof (induction h arbitrary: k lm es N)
  case (Suc h)
  then obtain D c0 N' where h: "bt_stored (leaf_at t fn lay k) s D (int h) c0" "kids0 (dir_tree t fn lay s h) c0 lm D es N'" "N = k # N'"
    by auto
  have "bt_stored (leaf_at t fn lay k) s' D (int h) c0"
    by (rule spares_stored [OF sp _ _ h(1)]) (use Suc.prems(2) h(3) in simp_all)
  moreover have "kids0 (dir_tree t fn lay s' h) c0 lm D es N'"
  proof (rule kids0_mono [OF h(2)])
    show "dir_tree t fn lay s' h c l x M" if "dir_tree t fn lay s h c l x M" "set M \<subseteq> set N'" for c l x M
      by (rule Suc.IH [OF that(1)]) (use Suc.prems(2) h(3) that(2) in auto)
  qed
  ultimately show ?case using h(3) by auto
qed simp

section \<open>The child that a key leads to\<close>

abbreviation le_ent :: "val \<Rightarrow> entry \<Rightarrow> bool" where
  "le_ent key \<equiv> (\<lambda>e. vcmp (bt_key e) key \<le> 0)"

definition dir_ent :: "val \<Rightarrow> int \<Rightarrow> entry" where
  "dir_ent key blk = (\<lambda>_. VInt 0)(DataValueField := key, BlockField := VInt blk)"

definition dir_put :: "val \<Rightarrow> int \<Rightarrow> entry list \<Rightarrow> entry list" where
  "dir_put key blk D = takeWhile (le_ent key) D @ dir_ent key blk # dropWhile (le_ent key) D"

lemma dir_ent_simps [simp]: "bt_key (dir_ent key blk) = key" "dir_ent key blk BlockField = VInt blk"
  using fields_differ by (simp_all add: dir_ent_def)

lemma kids_Cons: "P (val_int (e BlockField)) l x M \<Longrightarrow> kids P D es N \<Longrightarrow> kids P (e # D) ((bt_key e, l) # x @ es) (M @ N)"
  unfolding kids.simps by blast

lemma kids_ent: "P nk l x M \<Longrightarrow> kids P D es N \<Longrightarrow> kids P (dir_ent v nk # D) ((v, l) # x @ es) (M @ N)"
  using kids_Cons [of P "dir_ent v nk" l x M D es N] by simp

lemma kids_above:
  assumes "kids P B es N" and "sep_sorted key es" and "B = [] \<or> \<not> le_ent key (hd B)"
  shows "\<forall>y \<in> set es. \<not> le_key key y"
proof (cases B)
  case (Cons f B')
  then obtain l x es' where es: "es = (bt_key f, l) # x @ es'" using assms(1) by auto
  have "\<not> le_key key (bt_key f, l)" using assms(3) Cons by simp
  then show ?thesis using sep_sorted_gt [of key "(bt_key f, l)" "x @ es'"] assms(2) unfolding es by auto
qed (use assms(1) in simp)

lemma kids_keys: "kids P D es N \<Longrightarrow> \<forall>e \<in> set D. \<exists>l. (bt_key e, l) \<in> set es"
  by (induction D arbitrary: es N) fastforce+

lemma kids_sorted:
  "kids P D es N \<Longrightarrow> sep_sorted key es \<Longrightarrow> bt_sorted D \<and> (\<forall>e \<in> set D. val_type (bt_key e) = val_type key)"
proof (induction D arbitrary: es N)
  case Nil
  then show ?case by (simp add: bt_sorted_def)
next
  case (Cons e D)
  then obtain l x es' N' where h: "kids P D es' N'" "es = (bt_key e, l) # x @ es'" by auto
  have so: "sep_sorted key es'" "val_type (bt_key e) = val_type key" "\<forall>y \<in> set es'. vcmp (bt_key e) (fst y) < 0"
    using Cons.prems(2) unfolding h(2) by (auto simp: sep_sorted_Cons sep_sorted_append)
  have "vcmp (bt_key e) (bt_key f) \<le> 0" if "f \<in> set D" for f using kids_keys [OF h(1)] that so(3) by fastforce
  then show ?case using Cons.IH [OF h(1) so(1)] so(2) by (simp add: bt_sorted_def)
qed

lemma hd_rest: "dropWhile p xs = [] \<or> \<not> p (hd (dropWhile p xs))"
  using hd_dropWhile [of p xs] by blast

lemma kids0_focus:
  assumes k0: "kids0 P c0 lm D es N" and so: "sep_sorted key es"
  obtains l x M X Y N1 N2 where "P (dir_child key D c0) l x M" and "es = X @ x @ Y" and "N = N1 @ M @ N2"
    and "\<forall>y \<in> set X. le_key key y" and "\<forall>y \<in> set Y. \<not> le_key key y" and "route key lm X = l"
    and "\<forall>e \<in> set (takeWhile (le_ent key) D). \<exists>l. (bt_key e, l) \<in> set X"
    and "\<forall>e \<in> set (dropWhile (le_ent key) D). \<exists>l. (bt_key e, l) \<in> set Y"
    and "\<And>Q x' M'. (\<And>c l x K. P c l x K \<Longrightarrow> set K \<subseteq> set N1 \<union> set N2 \<Longrightarrow> Q c l x K) \<Longrightarrow> Q (dir_child key D c0) l x' M' \<Longrightarrow>
      kids0 Q c0 lm D (X @ x' @ Y) (N1 @ M' @ N2)"
    and "\<And>Q v nk x1 M1 l2 x2 M2. (\<And>c l x K. P c l x K \<Longrightarrow> set K \<subseteq> set N1 \<union> set N2 \<Longrightarrow> Q c l x K) \<Longrightarrow>
      Q (dir_child key D c0) l x1 M1 \<Longrightarrow> Q nk l2 x2 M2 \<Longrightarrow> takeWhile (le_ent v) D = takeWhile (le_ent key) D \<Longrightarrow>
      kids0 Q c0 lm (dir_put v nk D) (X @ x1 @ (v, l2) # x2 @ Y) (N1 @ M1 @ M2 @ N2)"
proof -
  let ?A = "takeWhile (le_ent key) D" and ?B = "dropWhile (le_ent key) D"
  obtain es0 N0 es1 N1 where h: "P c0 lm es0 N0" "kids P D es1 N1" "es = es0 @ es1" "N = N0 @ N1"
    using k0 unfolding kids0_def by blast
  have "kids P (?A @ ?B) es1 N1" using h(2) by simp
  then obtain ea eb Na Nb where ab: "kids P ?A ea Na" "kids P ?B eb Nb" "es1 = ea @ eb" "N1 = Na @ Nb"
    unfolding kids_append by blast
  have above: "\<forall>y \<in> set eb. \<not> le_key key y"
    by (rule kids_above [OF ab(2) _ hd_rest]) (use so in \<open>simp add: h(3) ab(3) sep_sorted_append\<close>)
  have put: "dir_put v nk D = ?A @ dir_ent v nk # ?B" if "takeWhile (le_ent v) D = ?A" for v nk
  proof -
    have "?A @ dropWhile (le_ent v) D = D" "?A @ ?B = D"
      using takeWhile_dropWhile_id [of "le_ent v" D] takeWhile_dropWhile_id [of "le_ent key" D] unfolding that by blast+
    then have "dropWhile (le_ent v) D = ?B" by (metis same_append_eq)
    then show ?thesis unfolding dir_put_def that by simp
  qed
  have keys: "\<forall>e \<in> set ?A. \<exists>l. (bt_key e, l) \<in> set ea" "\<forall>e \<in> set ?B. \<exists>l. (bt_key e, l) \<in> set eb"
    by (rule kids_keys [OF ab(1)], rule kids_keys [OF ab(2)])
  show thesis
  proof (cases "?A = []")
    case True
    then have D: "?B = D" "ea = []" "Na = []" using ab(1) takeWhile_dropWhile_id [of "le_ent key" D] by simp_all
    have c: "dir_child key D c0 = c0" using True by (simp add: dir_child_def)
    show thesis
    proof (rule that [of lm es0 N0 "[]" eb "[]" Nb])
      show "kids0 Q c0 lm D ([] @ x' @ eb) ([] @ M' @ Nb)"
        if "\<And>c l x K. P c l x K \<Longrightarrow> set K \<subseteq> set [] \<union> set Nb \<Longrightarrow> Q c l x K" "Q (dir_child key D c0) lm x' M'" for Q x' M'
      proof -
        have "kids Q D eb Nb" by (rule kids_mono [of P]) (use ab(2) D that(1) in simp_all)
        then show ?thesis using that(2) unfolding kids0_def c by auto
      qed
      show "kids0 Q c0 lm (dir_put v nk D) ([] @ x1 @ (v, l2) # x2 @ eb) ([] @ M1 @ M2 @ Nb)"
        if "\<And>c l x K. P c l x K \<Longrightarrow> set K \<subseteq> set [] \<union> set Nb \<Longrightarrow> Q c l x K" "Q (dir_child key D c0) lm x1 M1" "Q nk l2 x2 M2"
          "takeWhile (le_ent v) D = ?A" for Q v nk x1 M1 l2 x2 M2
      proof -
        have "kids Q D eb Nb" by (rule kids_mono [of P]) (use ab(2) D that(1) in simp_all)
        then have "kids Q (dir_ent v nk # D) ((v, l2) # x2 @ eb) (M2 @ Nb)" by (rule kids_ent [where P = Q, OF that(3)])
        moreover have "dir_put v nk D = dir_ent v nk # D" using put [OF that(4)] True D(1) by simp
        moreover have "Q c0 lm x1 M1" using that(2) c by simp
        ultimately show ?thesis using kids0I [of Q c0 lm x1 M1 "dir_ent v nk # D" "(v, l2) # x2 @ eb" "M2 @ Nb"] by simp
      qed
    qed (use h ab D above c keys True in simp_all)
  next
    case False
    obtain A e where A: "?A = A @ [e]" using False by (metis rev_exhaust)
    obtain ei l x Ni M where e: "kids P A ei Ni" "P (val_int (e BlockField)) l x M" "ea = ei @ (bt_key e, l) # x" "Na = Ni @ M"
      using ab(1) unfolding A kids_append by auto
    have c: "dir_child key D c0 = val_int (e BlockField)" using A by (simp add: dir_child_def)
    have le: "le_key key (bt_key e, l)" using A by (metis fst_conv last_in_set last_snoc set_takeWhileD snoc_eq_iff_butlast)
    have X: "\<forall>y \<in> set (es0 @ ei @ [(bt_key e, l)]). le_key key y"
      using sep_sorted_le [of key "es0 @ ei" "(bt_key e, l)" "x @ eb"] so le unfolding h(3) ab(3) e(3) by auto
    have keep: "kids Q A ei Ni \<and> kids Q ?B eb Nb \<and> Q c0 lm es0 N0"
      if q: "\<And>c l x K. P c l x K \<Longrightarrow> set K \<subseteq> set (N0 @ Ni) \<union> set Nb \<Longrightarrow> Q c l x K" for Q
    proof (intro conjI)
      show "kids Q A ei Ni" by (rule kids_mono [OF e(1)]) (rule q, assumption, auto)
      show "kids Q ?B eb Nb" by (rule kids_mono [OF ab(2)]) (rule q, assumption, auto)
      show "Q c0 lm es0 N0" by (rule q [OF h(1)]) auto
    qed
    have join: "kids Q (A @ [e]) (ei @ (bt_key e, l) # x') (Ni @ M')" if "kids Q A ei Ni" "Q (val_int (e BlockField)) l x' M'" for Q x' M'
      using that kids_appendI [of Q A ei Ni "[e]" "(bt_key e, l) # x'" M'] kids_Cons [of Q e l x' M' "[]" "[]" "[]"] by simp
    show thesis
    proof (rule that [of l x M "es0 @ ei @ [(bt_key e, l)]" eb "N0 @ Ni" Nb])
      show "kids0 Q c0 lm D ((es0 @ ei @ [(bt_key e, l)]) @ x' @ eb) ((N0 @ Ni) @ M' @ Nb)"
        if "\<And>c l x K. P c l x K \<Longrightarrow> set K \<subseteq> set (N0 @ Ni) \<union> set Nb \<Longrightarrow> Q c l x K" "Q (dir_child key D c0) l x' M'" for Q x' M'
      proof -
        have kp: "kids Q A ei Ni \<and> kids Q ?B eb Nb \<and> Q c0 lm es0 N0" by (rule keep) (rule that(1))
        have "kids Q (?A @ ?B) ((ei @ (bt_key e, l) # x') @ eb) ((Ni @ M') @ Nb)"
          using kids_appendI [OF join [of Q x' M'], of ?B eb Nb] kp that(2) unfolding A c by blast
        then have "kids Q D ((ei @ (bt_key e, l) # x') @ eb) ((Ni @ M') @ Nb)" unfolding takeWhile_dropWhile_id .
        then show ?thesis using kids0I [of Q c0 lm es0 N0] kp by fastforce
      qed
      show "kids0 Q c0 lm (dir_put v nk D) ((es0 @ ei @ [(bt_key e, l)]) @ x1 @ (v, l2) # x2 @ eb) ((N0 @ Ni) @ M1 @ M2 @ Nb)"
        if "\<And>c l x K. P c l x K \<Longrightarrow> set K \<subseteq> set (N0 @ Ni) \<union> set Nb \<Longrightarrow> Q c l x K" "Q (dir_child key D c0) l x1 M1" "Q nk l2 x2 M2"
          "takeWhile (le_ent v) D = ?A" for Q v nk x1 M1 l2 x2 M2
      proof -
        have kp: "kids Q A ei Ni \<and> kids Q ?B eb Nb \<and> Q c0 lm es0 N0" by (rule keep) (rule that(1))
        have "kids Q (dir_ent v nk # ?B) ((v, l2) # x2 @ eb) (M2 @ Nb)" using kids_ent [where P = Q, OF that(3)] kp by blast
        then have "kids Q (?A @ dir_ent v nk # ?B) ((ei @ (bt_key e, l) # x1) @ (v, l2) # x2 @ eb) ((Ni @ M1) @ M2 @ Nb)"
          using kids_appendI [OF join [of Q x1 M1], of "dir_ent v nk # ?B" "(v, l2) # x2 @ eb" "M2 @ Nb"] kp that(2) unfolding A c by blast
        then show ?thesis using kids0I [of Q c0 lm es0 N0] kp unfolding put [OF that(4)] by fastforce
      qed
      show "\<forall>f \<in> set ?A. \<exists>l'. (bt_key f, l') \<in> set (es0 @ ei @ [(bt_key e, l)])"
        using kids_keys [OF e(1)] unfolding A by fastforce
    qed (use h ab e X above c le keys(2) in \<open>auto simp: route_append\<close>)
  qed
qed

lemma dir_tree_leads:
  "dir_tree t fn lay s (Suc h) k lm es N \<Longrightarrow> sep_sorted key es \<Longrightarrow> dir_leads h t fn lay s key k (route key lm es)"
proof (induction h arbitrary: k lm es N)
  case 0
  then obtain D c0 N' where h: "bt_stored (leaf_at t fn lay k) s D 0 c0" "kids0 (dir_tree t fn lay s 0) c0 lm D es N'" by auto
  obtain l x M X Y where f: "dir_tree t fn lay s 0 (dir_child key D c0) l x M" "es = X @ x @ Y" "\<forall>y \<in> set Y. \<not> le_key key y" "route key lm X = l"
    by (rule kids0_focus [OF h(2) 0(2)]) blast
  have "route key lm es = dir_child key D c0" using f by (simp add: route_append route_above)
  then show ?case using h(1) by auto
next
  case (Suc h)
  obtain D c0 N' where h: "bt_stored (leaf_at t fn lay k) s D (int (Suc h)) c0" "kids0 (dir_tree t fn lay s (Suc h)) c0 lm D es N'"
    using Suc.prems(1) unfolding dir_tree.simps(2) [of t fn lay s "Suc h"] by blast
  obtain l x M X Y where f: "dir_tree t fn lay s (Suc h) (dir_child key D c0) l x M" "es = X @ x @ Y" "\<forall>y \<in> set Y. \<not> le_key key y" "route key lm X = l"
    by (rule kids0_focus [OF h(2) Suc.prems(2)]) blast
  have "sep_sorted key x" using Suc.prems(2) unfolding f(2) sep_sorted_append by blast
  from Suc.IH [OF f(1) this] have "dir_leads h t fn lay s key (dir_child key D c0) (route key lm es)"
    using f by (simp add: route_append route_above)
  then show ?case using h(1) unfolding dir_leads.simps by (intro exI [of _ D] exI [of _ "int (Suc h)"] exI [of _ c0]) simp
qed

end
