(* ===== verification/DirInsert.thy ===== *)
theory DirInsert
  imports DirTree
begin

text \<open>
  \<^verbatim>\<open>index/btree/dir.go\<close>: insertion into a directory.

  A separator goes into the page on the lowest level; a page that is full is split, the first key of its right
  half moves up, and the root that is split moves to a new page below it. On the separators of the directory all
  this is \<open>sep_put\<close>.
\<close>

section \<open>Insertion into a directory page\<close>

definition dir_takes :: "btree_page \<Rightarrow> val \<Rightarrow> int \<Rightarrow> bool" where
  "dir_takes p key blk \<longleftrightarrow> set (bt_fields p) = {DataValueField, BlockField} \<and> val_in p DataValueField key \<and>
     val_in p BlockField (VInt blk)"

lemma dir_takes_layout: "dir_takes p key blk \<Longrightarrow> dir_layout (bp_layout p) key"
  by (auto simp: dir_takes_def dir_layout_def val_in_def)

lemma dir_takes_mate: "dir_takes p key blk \<Longrightarrow> bp_layout q = bp_layout p \<Longrightarrow> dir_takes q key blk"
  by (simp add: dir_takes_def val_in_def)

lemma closing_run: "m s = (Inr x, s1) \<Longrightarrow> d s1 = (Inr (), s2) \<Longrightarrow> closing m d s = (Inr x, s2)"
  by (simp add: closing_def handle_def bnd_def go_unfold)

lemma page_put:
  assumes b: "bt_page p s (A @ B) x1 x2" and t: "dir_takes p key blk" and room: "length (A @ B) < bt_cap p (blockSize s)"
  obtains s1 s2 s' where "bp_insert p (int (length A)) s = (Inr (), s1)" and "bp_setDataVal p (int (length A)) (Some key) s1 = (Inr (), s2)"
    and "bp_setBlockField p (int (length A)) blk s2 = (Inr (), s')" and "touches p s s'" and "bt_page p s' (A @ dir_ent key blk # B) x1 x2"
proof -
  have f: "DataValueField \<in> set (bt_fields p)" "BlockField \<in> set (bt_fields p)"
    and v: "val_in p DataValueField key" "val_in p BlockField (VInt blk)"
    using t by (auto simp: dir_takes_def)
  obtain s1 x where s1: "bp_insert p (int (length A)) s = (Inr (), s1)" "touches p s s1" "bt_page p s1 (A @ x # B) x1 x2"
    using bp_insert_gap [OF b room] by blast
  obtain s2 where s2: "bp_setDataVal p (int (length A)) (Some key) s1 = (Inr (), s2)" "touches p s1 s2"
    "bt_page p s2 (A @ x(DataValueField := key) # B) x1 x2"
    using bt_page_set [OF s1(3) f(1) v(1)] unfolding bp_setDataVal_def by auto
  let ?x = "x(DataValueField := key, BlockField := VInt blk)"
  obtain s3 where s3: "tx_SetVal (bp_tx p) (bp_block p) (entryOffset p (int (length A)) BlockField) (VInt blk) True s2 = (Inr (), s3)"
    "touches p s2 s3" "bt_page p s3 (A @ ?x # B) x1 x2"
    using bt_page_set [OF s2(3) f(2) v(2)] by blast
  have "bp_setBlockField p (int (length A)) blk s2 = (Inr (), s3)" using s3(1) by (simp add: bp_setBlockField_def)
  moreover have "bt_page p s3 (A @ dir_ent key blk # B) x1 x2"
  proof (rule bt_page_cong [OF s3(3)])
    show "((A @ dir_ent key blk # B) ! k) f = ((A @ ?x # B) ! k) f" if "f \<in> set (bt_fields p)" for k f
      using that t fields_differ by (auto simp: nth_append nth_Cons' dir_ent_def dir_takes_def)
  qed simp
  ultimately show thesis
    using that [OF s1(1) s2(1)] touches_trans [OF s1(2) touches_trans [OF s2(2) s3(2)]] by blast
qed

lemma dir_slot:
  assumes b: "bt_page p s D x1 x2" and t: "dir_takes p key blk"
  shows "\<exists>s'. find_slot p (\<lambda>c. c > 0) (Some key) (int (length D)) [0..int (length D) - 1] s =
      (Inr (int (length (takeWhile (le_ent key) D))), s') \<and> bt_page p s' D x1 x2 \<and> locks_only (bp_tx p) s s'"
proof -
  have pass: "(\<lambda>e. \<not> 0 < vcmp (bt_key e) key) = le_ent key" by (simp add: not_less)
  show ?thesis
    using find_slot_page [OF b, of key "\<lambda>c. c > 0"] t unfolding pass by (auto simp: dir_takes_def val_in_def)
qed

lemma dr_insertEntry_start:
  assumes d: "dr_page d = p" and b: "bt_page p s D x1 x2" and t: "dir_takes p key blk"
  obtains s1 s2 s3 where "bp_getNumRecs (dr_page d) s = (Inr (int (length D)), s1)"
    and "find_slot (dr_page d) (\<lambda>c. c > 0) (Some key) (int (length D)) [0..int (length D) - 1] s1 =
      (Inr (int (length (takeWhile (le_ent key) D))), s2)"
    and "bp_isFull (dr_page d) s2 = (Inr (bt_cap p (blockSize s) \<le> length D), s3)" and "bt_page p s3 D x1 x2" and "locks_only (bp_tx p) s s3"
proof -
  obtain s1 where s1: "bp_getNumRecs p s = (Inr (int (length D)), s1)" "bt_page p s1 D x1 x2" "locks_only (bp_tx p) s s1"
    using bt_page_header(1) [OF b] by blast
  obtain s2 where s2: "find_slot p (\<lambda>c. c > 0) (Some key) (int (length D)) [0..int (length D) - 1] s1 =
      (Inr (int (length (takeWhile (le_ent key) D))), s2)" "bt_page p s2 D x1 x2" "locks_only (bp_tx p) s1 s2"
    using dir_slot [OF s1(2) t] by blast
  obtain s3 where s3: "bp_isFull p s2 = (Inr (bt_cap p (blockSize s2) \<le> length D), s3)" "bt_page p s3 D x1 x2" "locks_only (bp_tx p) s2 s3"
    using bp_isFull_cap [OF s2(2)] by blast
  have "blockSize s2 = blockSize s" using locks_only_same(6) [OF locks_only_trans [OF s1(3) s2(3)]] .
  then show thesis
    using that [of s1 s2 s3] s1(1) s2(1) s3(1,2) locks_only_trans [OF s1(3) locks_only_trans [OF s2(3) s3(3)]] d by simp
qed

lemma dr_doInsert_put:
  assumes d: "dr_page d = p" and b: "bt_page p s D x1 x2" and t: "dir_takes p key blk" and room: "length D < bt_cap p (blockSize s)"
  shows "\<exists>s'. dr_doInsert d (int (length (takeWhile (le_ent key) D))) (Some key) blk s = (Inr (), s') \<and> touches p s s' \<and>
    bt_page p s' (dir_put key blk D) x1 x2"
proof -
  let ?A = "takeWhile (le_ent key) D" and ?B = "dropWhile (le_ent key) D"
  have b': "bt_page p s (?A @ ?B) x1 x2" and room': "length (?A @ ?B) < bt_cap p (blockSize s)" using b room by simp_all
  obtain s1 s2 s' where "bp_insert p (int (length ?A)) s = (Inr (), s1)" "bp_setDataVal p (int (length ?A)) (Some key) s1 = (Inr (), s2)"
    "bp_setBlockField p (int (length ?A)) blk s2 = (Inr (), s')" "touches p s s'" "bt_page p s' (?A @ dir_ent key blk # ?B) x1 x2"
    by (rule page_put [OF b' t room'])
  then show ?thesis unfolding dr_doInsert_def dir_put_def d by (simp add: bnd_def)
qed

lemma dr_insertEntry_room:
  assumes d: "dr_page d = p" and b: "bt_page p s D x1 x2" and t: "dir_takes p key blk" and room: "length D < bt_cap p (blockSize s)"
  shows "\<exists>s'. dr_insertEntry d (Some key) blk s = (Inr None, s') \<and> touches p s s' \<and> bt_page p s' (dir_put key blk D) x1 x2"
proof -
  obtain s1 s2 s3 where run: "bp_getNumRecs (dr_page d) s = (Inr (int (length D)), s1)"
    "find_slot (dr_page d) (\<lambda>c. c > 0) (Some key) (int (length D)) [0..int (length D) - 1] s1 =
      (Inr (int (length (takeWhile (le_ent key) D))), s2)"
    "bp_isFull (dr_page d) s2 = (Inr (bt_cap p (blockSize s) \<le> length D), s3)" and s3: "bt_page p s3 D x1 x2" "locks_only (bp_tx p) s s3"
    by (rule dr_insertEntry_start [OF d b t])
  have room3: "length D < bt_cap p (blockSize s3)" using room locks_only_same(6) [OF s3(2)] by simp
  obtain s4 where s4: "dr_doInsert d (int (length (takeWhile (le_ent key) D))) (Some key) blk s3 = (Inr (), s4)" "touches p s3 s4"
    "bt_page p s4 (dir_put key blk D) x1 x2"
    using dr_doInsert_put [OF d s3(1) t room3] by blast
  have "dr_insertEntry d (Some key) blk s = (Inr None, s4)"
    using room s4(1) by (simp add: dr_insertEntry_def bnd_def run go_unfold)
  then show ?thesis using s4(3) touches_trans [OF touches_locks [OF s3(2)] s4(2)] by blast
qed

section \<open>A directory page that is full\<close>

lemma dir_put_left:
  assumes "\<not> le_ent key e"
  shows "takeWhile (le_ent key) (A @ e # B) = takeWhile (le_ent key) A" and "dir_put key blk (A @ e # B) = dir_put key blk A @ e # B"
proof -
  have "takeWhile (le_ent key) (A @ e # B) = takeWhile (le_ent key) A \<and> dropWhile (le_ent key) (A @ e # B) = dropWhile (le_ent key) A @ e # B"
    using assms by (induction A) auto
  then show "takeWhile (le_ent key) (A @ e # B) = takeWhile (le_ent key) A" "dir_put key blk (A @ e # B) = dir_put key blk A @ e # B"
    by (simp_all add: dir_put_def)
qed

lemma dir_put_right:
  assumes "\<forall>x \<in> set A. le_ent key x" and "le_ent key e"
  shows "dir_put key blk (A @ e # B) = A @ e # dir_put key blk B"
  using assms by (simp add: dir_put_def)

lemma open_page:
  assumes st: "bt_stored q s L x1 x2" and inv: "pool_inv s" and pi: "pins_are s (bp_tx q) bs"
    and room: "length bs < card (own_buffers s (bp_tx q))"
  obtains s1 where "newBTreePage (bp_tx q) (bp_block q) (bp_layout q) s = (Inr q, s1)" and "pool_inv s1"
    and "pins_are s1 (bp_tx q) (bp_block q # bs)" and "spares (bp_tx q) {} s s1" and "bt_page q s1 L x1 x2"
proof -
  have blk: "in_file s (bp_block q)" "File (bp_block q) \<noteq> logFile s" using st by (simp_all add: bt_stored_def bt_home_def)
  have q: "page_at (bp_tx q) (bp_block q) (bp_layout q) = q" by simp
  obtain s1 where s1: "newBTreePage (bp_tx q) (bp_block q) (bp_layout q) s = (Inr (page_at (bp_tx q) (bp_block q) (bp_layout q)), s1)"
    "pool_inv s1" "pins_are s1 (bp_tx q) (bp_block q # bs)" "spares (bp_tx q) {} s s1"
    by (rule newBTreePage_spec [OF inv pi room blk]) blast
  have st1: "bt_stored q s1 L x1 x2" by (rule spares_stored [OF s1(4) refl _ st]) simp
  have "bt_page q s1 L x1 x2" by (rule bt_stored_page [OF st1 s1(2,3)]) simp
  then show thesis using that [of s1] s1 unfolding q by blast
qed

text \<open>The promotion of the first entry of a page that is not pinned.\<close>

lemma promote_first:
  assumes st: "bt_stored q s (e # B) x1 x2" and inv: "pool_inv s" and pi: "pins_are s (bp_tx q) bs"
    and room: "length bs < card (own_buffers s (bp_tx q))" and f: "{DataValueField, BlockField} \<subseteq> set (bt_fields q)"
    and ty: "schema_Type (lay_schema (bp_layout q)) BlockField = Integer"
  obtains s1 s' where "newBTreePage (bp_tx q) (bp_block q) (bp_layout q) s = (Inr q, s1)"
    and "closing (dr_promote q) (bp_close q) s1 = (Inr (Some (bt_key e)), s')" and "pool_inv s'"
    and "pins_are s' (bp_tx q) bs" and "spares (bp_tx q) {bp_block q} s s'" and "bt_stored q s' B x1 (val_int (e BlockField))"
proof -
  obtain s1 where s1: "newBTreePage (bp_tx q) (bp_block q) (bp_layout q) s = (Inr q, s1)" "pool_inv s1"
    "pins_are s1 (bp_tx q) (bp_block q # bs)" "spares (bp_tx q) {} s s1" and q1: "bt_page q s1 (e # B) x1 x2"
    by (rule open_page [OF st inv pi room])
  have z: "(0 :: nat) < length (e # B)" by simp
  obtain s2 where s2: "bp_getDataVal q 0 s1 = (Inr (Some (bt_key e)), s2)" "bt_page q s2 (e # B) x1 x2" "locks_only (bp_tx q) s1 s2"
    using bt_page_get [OF q1 z, of DataValueField "fail EUnknownKeyType"] f unfolding bp_getDataVal_def by auto
  have ff: "BlockField \<in> set (bt_fields q)" using f by simp
  obtain s3 where s3: "bp_getBlockField q 0 s2 = (Inr (val_int (e BlockField)), s3)" "bt_page q s3 (e # B) x1 x2" "locks_only (bp_tx q) s2 s3"
    using page_block_field [OF s2(2) z ff ty] by auto
  have q3: "bt_page q s3 ([] @ e # B) x1 x2" using s3(2) by simp
  obtain s4 where s4: "bp_delete q 0 s3 = (Inr (), s4)" "touches q s3 s4" "bt_page q s4 B x1 x2"
    using bp_delete_entry [OF q3] by auto
  have "val_in q BlockField (e BlockField)" using bt_page_val [OF s3(2) _ ff] by simp
  then have "int32_range (val_int (e BlockField))" using ty by (cases "e BlockField") (auto simp: val_in_def type_codes int32_range_def)
  then obtain s5 where s5: "bp_setExtra2 q (val_int (e BlockField)) s4 = (Inr (), s5)" "touches q s4 s5" "bt_page q s5 B x1 (val_int (e BlockField))"
    using bt_page_extra(2) [OF s4(3)] by blast
  have t5: "touches q s1 s5"
    by (rule touches_trans [OF touches_locks [OF locks_only_trans [OF s2(3) s3(3)]] touches_trans [OF s4(2) s5(2)]])
  have h5: "pool_inv s5" "pins_are s5 (bp_tx q) (bp_block q # bs)" using t5 s1(2,3) by (auto simp: touches_def)
  obtain s6 where s6: "bp_close q s5 = (Inr (), s6)" "pool_inv s6" "pins_are s6 (bp_tx q) bs" "spares (bp_tx q) {} s5 s6"
    by (rule bp_close_spec [OF h5]) blast
  have "dr_promote q s1 = (Inr (Some (bt_key e)), s5)"
    using s2(1) s3(1) s4(1) s5(1) by (simp add: dr_promote_def bnd_def go_unfold)
  moreover have "spares (bp_tx q) {bp_block q} s s6"
    using spares_trans [OF s1(4) spares_trans [OF spares_touches [OF t5] s6(4)]] by simp
  moreover have "bt_stored q s6 B x1 (val_int (e BlockField))"
    by (rule spares_stored [OF s6(4) refl _ bt_page_stored [OF s5(3)]]) simp
  ultimately show thesis using that [of s1 s6] s1(1) s6(2,3) closing_run [of "dr_promote q" s1 "Some (bt_key e)" s5 "bp_close q" s6] s6(1) by blast
qed

text \<open>The insertion into the right half, which is opened for it.\<close>

lemma right_insert:
  assumes st: "bt_stored q s B x1 x2" and inv: "pool_inv s" and pi: "pins_are s (bp_tx q) bs"
    and room: "length bs < card (own_buffers s (bp_tx q))" and t: "dir_takes q key blk" and cap: "length B < bt_cap q (blockSize s)"
  obtains s' where "bnd (newBTreePage (bp_tx q) (bp_block q) (bp_layout q)) (\<lambda>np. closing (dr_insert_right np (Some key) blk) (bp_close np)) s = (Inr (), s')"
    and "pool_inv s'" and "pins_are s' (bp_tx q) bs" and "spares (bp_tx q) {bp_block q} s s'" and "bt_stored q s' (dir_put key blk B) x1 x2"
proof -
  let ?A = "takeWhile (le_ent key) B" and ?C = "dropWhile (le_ent key) B"
  obtain s1 where s1: "newBTreePage (bp_tx q) (bp_block q) (bp_layout q) s = (Inr q, s1)" "pool_inv s1"
    "pins_are s1 (bp_tx q) (bp_block q # bs)" "spares (bp_tx q) {} s s1" and q1: "bt_page q s1 B x1 x2"
    by (rule open_page [OF st inv pi room])
  obtain s2 where s2: "bp_getNumRecs q s1 = (Inr (int (length B)), s2)" "bt_page q s2 B x1 x2" "locks_only (bp_tx q) s1 s2"
    using bt_page_header(1) [OF q1] by blast
  obtain s3 where s3: "find_slot q (\<lambda>c. c > 0) (Some key) (int (length B)) [0..int (length B) - 1] s2 = (Inr (int (length ?A)), s3)"
    "bt_page q s3 B x1 x2" "locks_only (bp_tx q) s2 s3"
    using dir_slot [OF s2(2) t] by blast
  note l3 = locks_only_trans [OF s2(3) s3(3)]
  have q3: "bt_page q s3 (?A @ ?C) x1 x2" using s3(2) by simp
  have "length (?A @ ?C) < bt_cap q (blockSize s3)" using cap s1(4) locks_only_same(6) [OF l3] by (simp add: spares_def)
  from page_put [OF q3 t this]
  obtain s4 s5 s6 where s6: "bp_insert q (int (length ?A)) s3 = (Inr (), s4)" "bp_setDataVal q (int (length ?A)) (Some key) s4 = (Inr (), s5)"
    "bp_setBlockField q (int (length ?A)) blk s5 = (Inr (), s6)" "touches q s3 s6" "bt_page q s6 (dir_put key blk B) x1 x2"
    unfolding dir_put_def by blast
  have run: "dr_insert_right q (Some key) blk s1 = (Inr (), s6)"
    using s2(1) find_slot_unchecked_same [OF s3(1)] s6(1-3)
    by (simp add: dr_insert_right_def or_else_def handle_def bnd_def go_unfold)
  have t6: "touches q s1 s6" by (rule touches_trans [OF touches_locks [OF l3] s6(4)])
  have h6: "pool_inv s6" "pins_are s6 (bp_tx q) (bp_block q # bs)" using t6 s1(2,3) by (auto simp: touches_def)
  obtain s7 where s7: "bp_close q s6 = (Inr (), s7)" "pool_inv s7" "pins_are s7 (bp_tx q) bs" "spares (bp_tx q) {} s6 s7"
    by (rule bp_close_spec [OF h6]) blast
  have "spares (bp_tx q) {bp_block q} s s7"
    using spares_trans [OF s1(4) spares_trans [OF spares_touches [OF t6] s7(4)]] by simp
  moreover have "bt_stored q s7 (dir_put key blk B) x1 x2"
    by (rule spares_stored [OF s7(4) refl _ bt_page_stored [OF s6(5)]]) simp
  ultimately show thesis using that [of s7] s1(1) s7(2,3) closing_run [of "dr_insert_right q (Some key) blk" s1 "()" s6 "bp_close q" s7] run s7(1) by (simp add: bnd_def)
qed

lemma new_block [simp]: "File (NewBlockId fn k) = fn" "BlockNumber (NewBlockId fn k) = k" "NewBlockId fn k = NewBlockId fn' k' \<longleftrightarrow> fn = fn' \<and> k = k'"
  by (auto simp: NewBlockId_def)

lemma dir_takes_new: "dir_takes p key blk \<Longrightarrow> int32_range k \<Longrightarrow> val_in p DataValueField v \<Longrightarrow> dir_takes p v k"
  by (simp add: dir_takes_def val_in_def)

lemma sorted_le:
  assumes "bt_sorted (A @ e # B)" and "le_ent key e" and "\<forall>x \<in> set (A @ e # B). val_type (bt_key x) = val_type key"
  shows "\<forall>x \<in> set A. le_ent key x"
proof
  fix x
  assume x: "x \<in> set A"
  have "vcmp (bt_key x) (bt_key e) \<le> 0" using assms(1) x by (simp add: bt_sorted_append)
  then show "le_ent key x" using vcmp_trans [of "bt_key x" "bt_key e" key] assms(2,3) x by simp
qed

text \<open>The insertion after the split: into the left page, which is open, or into the right one.\<close>

lemma dir_split_insert:
  assumes t: "dir_takes (leaf_at t fn lay k) key blk" and so: "bt_sorted (A @ e # B)"
    and ty: "\<forall>x \<in> set (A @ e # B). val_type (bt_key x) = val_type key" and cap: "length A + length B < bt_cap (leaf_at t fn lay k) (blockSize s)"
    and inv: "pool_inv s" and pi: "pins_are s t (NewBlockId fn k # bs)" and room: "Suc (length bs) < card (own_buffers s t)" and kk: "k' \<noteq> k"
    and st: "bt_stored (leaf_at t fn lay k) s A level lm" "bt_stored (leaf_at t fn lay k') s B level lm'"
  obtains A' B' s' where "(if vcmp key (bt_key e) < 0
       then dr_doInsert (dir_at t fn lay k) (int (length (takeWhile (le_ent key) (A @ e # B)))) (Some key) blk
       else bnd (newBTreePage t (NewBlockId fn k') lay) (\<lambda>np. closing (dr_insert_right np (Some key) blk) (bp_close np))) s = (Inr (), s')"
    and "dir_put key blk (A @ e # B) = A' @ e # B'" and "pool_inv s'" and "pins_are s' t (NewBlockId fn k # bs)"
    and "spares t {NewBlockId fn k, NewBlockId fn k'} s s'" and "bt_stored (leaf_at t fn lay k) s' A' level lm"
    and "bt_stored (leaf_at t fn lay k') s' B' level lm'"
proof -
  let ?p = "leaf_at t fn lay k" and ?q = "leaf_at t fn lay k'"
  have eq: "le_ent key e \<longleftrightarrow> \<not> vcmp key (bt_key e) < 0" using vcmp_swap [of key "bt_key e"] ty by auto
  have c: "bt_cap ?q n = bt_cap ?p n" for n by (simp add: bt_cap_def)
  have p: "bt_page ?p s A level lm" by (rule bt_stored_page [OF st(1) inv, of "NewBlockId fn k # bs"]) (use pi in simp_all)
  show thesis
  proof (cases "vcmp key (bt_key e) < 0")
    case True
    then have left: "takeWhile (le_ent key) (A @ e # B) = takeWhile (le_ent key) A" "dir_put key blk (A @ e # B) = dir_put key blk A @ e # B"
      using dir_put_left [where A = A and B = B] eq by simp_all
    have capA: "length A < bt_cap ?p (blockSize s)" using cap by simp
    obtain s' where s': "dr_doInsert (dir_at t fn lay k) (int (length (takeWhile (le_ent key) A))) (Some key) blk s = (Inr (), s')" "touches ?p s s'"
      "bt_page ?p s' (dir_put key blk A) level lm"
      using dr_doInsert_put [OF _ p t capA, of "dir_at t fn lay k"] by auto
    have sp: "spares t {NewBlockId fn k} s s'" using spares_touches [OF s'(2)] by simp
    have "bt_stored ?q s' B level lm'" by (rule spares_stored [OF sp _ _ st(2)]) (use kk in simp_all)
    moreover have "pool_inv s'" "pins_are s' t (NewBlockId fn k # bs)" using s'(2) inv pi by (simp_all add: touches_def)
    ultimately show thesis
      using True s'(1) left bt_page_stored [OF s'(3)] spares_mono [OF sp, of "{NewBlockId fn k, NewBlockId fn k'}"]
      by (intro that [of s' "dir_put key blk A" B]) simp_all
  next
    case False
    then have le: "le_ent key e" using eq by simp
    have put: "dir_put key blk (A @ e # B) = A @ e # dir_put key blk B" by (rule dir_put_right) (use sorted_le [OF so le ty] le in simp_all)
    have tq: "dir_takes ?q key blk" by (rule dir_takes_mate [OF t]) simp
    have r: "pins_are s (bp_tx ?q) (NewBlockId fn k # bs)" "length (NewBlockId fn k # bs) < card (own_buffers s (bp_tx ?q))" "length B < bt_cap ?q (blockSize s)"
      using pi room cap c by simp_all
    obtain s' where s': "bnd (newBTreePage (bp_tx ?q) (bp_block ?q) (bp_layout ?q)) (\<lambda>np. closing (dr_insert_right np (Some key) blk) (bp_close np)) s = (Inr (), s')"
      "pool_inv s'" "pins_are s' (bp_tx ?q) (NewBlockId fn k # bs)" "spares (bp_tx ?q) {bp_block ?q} s s'" "bt_stored ?q s' (dir_put key blk B) level lm'"
      by (rule right_insert [OF st(2) inv r(1,2) tq r(3)])
    have "bt_stored ?p s' A level lm" by (rule spares_stored [OF s'(4) _ _ st(1)]) (use kk in simp_all)
    moreover have "spares t {NewBlockId fn k, NewBlockId fn k'} s s'" by (rule spares_mono [of t "{NewBlockId fn k'}"]) (use s'(4) in simp_all)
    ultimately show thesis using False put s' by (intro that [of s' A "dir_put key blk B"]) simp_all
  qed
qed

lemma dr_insertEntry_full:
  assumes b: "bt_page (leaf_at t fn lay k) s D level lm" and t: "dir_takes (leaf_at t fn lay k) key blk" and so: "bt_sorted D"
    and full: "bt_cap (leaf_at t fn lay k) (blockSize s) = length D" "0 < length D" and pi: "pins_are s t (NewBlockId fn k # bs)"
    and room: "Suc (length bs) < card (own_buffers s t)" and may: "may_split (leaf_at t fn lay k) s"
  obtains A e B s' where "dr_insertEntry (dir_at t fn lay k) (Some key) blk s = (Inr (Some (Some (bt_key e), nblocks s fn)), s')"
    and "dir_put key blk D = A @ e # B" and "pool_inv s'" and "pins_are s' t (NewBlockId fn k # bs)"
    and "spares t {NewBlockId fn k, NewBlockId fn (nblocks s fn)} s s'" and "bt_stored (leaf_at t fn lay k) s' A level lm"
    and "bt_stored (leaf_at t fn lay (nblocks s fn)) s' B level (val_int (e BlockField))" and "dir_takes (leaf_at t fn lay k) (bt_key e) (nblocks s fn)"
proof -
  let ?p = "leaf_at t fn lay k" and ?m = "nblocks s fn" and ?A = "take (length D div 2) D" and ?B = "drop (length D div 2) D"
  let ?q = "leaf_at t fn lay ?m" and ?d = "dir_at t fn lay k"
  have dp: "dr_page ?d = ?p" by simp
  have "length D div 2 < length D" using full(2) by simp
  then obtain e B where eB: "?B = e # B" by (cases ?B) auto
  have D: "D = ?A @ e # B" unfolding eB [symmetric] by simp
  obtain s1 s2 s3 where run: "bp_getNumRecs (dr_page ?d) s = (Inr (int (length D)), s1)"
    "find_slot (dr_page ?d) (\<lambda>c. c > 0) (Some key) (int (length D)) [0..int (length D) - 1] s1 =
      (Inr (int (length (takeWhile (le_ent key) D))), s2)"
    "bp_isFull (dr_page ?d) s2 = (Inr (bt_cap ?p (blockSize s) \<le> length D), s3)" and s3: "bt_page ?p s3 D level lm" "locks_only (bp_tx ?p) s s3"
    by (rule dr_insertEntry_start [OF dp b t])
  obtain s4 where s4: "bp_getExtra1 ?p s3 = (Inr level, s4)" "bt_page ?p s4 D level lm" "locks_only (bp_tx ?p) s3 s4"
    using bt_page_header(2) [OF s3(1)] by blast
  have l4: "locks_only t s s4" using locks_only_trans [OF s3(2) s4(3)] by simp
  note sp4 = spares_locks [OF l4]
  have same: "nblocks s4 n = nblocks s n" "blockSize s4 = blockSize s" for n using locks_only_same(4,6) [OF l4] by simp_all
  have p4: "bt_page ?p s4 (?A @ ?B) level lm" using s4(2) by simp
  have r4: "pins_are s4 (bp_tx ?p) (NewBlockId fn k # bs)" "bp_block ?p \<in> set (NewBlockId fn k # bs)"
    "length (NewBlockId fn k # bs) < card (own_buffers s4 (bp_tx ?p))"
    using pi room pins_are_cong [of s4 t s] locks_only_same(9,10) [OF l4] by simp_all
  have may4: "may_split ?p s4" using may locks_only_lock(1) [OF l4] by (simp add: may_split_def same)
  have lr: "int32_range level" using bt_page_ranges [OF b] by simp
  obtain s5 where s5: "bp_split ?p fn (int (length ?A)) level s4 = (Inr ?m, s5)" "pool_inv s5" "pins_are s5 t (NewBlockId fn k # bs)"
    "spares t {NewBlockId fn k, NewBlockId fn ?m} s4 s5" "bt_page ?p s5 ?A level lm" "bt_stored ?q s5 (e # B) level (- 1)"
    using bp_split_entries [OF p4 r4 may4 lr] unfolding eB by (auto simp: same)
  have home: "in_file s (NewBlockId fn k)" using bt_page_stored [OF b] by (simp add: bt_stored_def bt_home_def)
  then have kk: "?m \<noteq> k" by (simp add: in_file_def)
  have own5: "own_buffers s5 t = own_buffers s t" using s5(4) sp4 by (simp add: spares_def)
  have r5: "pins_are s5 (bp_tx ?q) (NewBlockId fn k # bs)" "length (NewBlockId fn k # bs) < card (own_buffers s5 (bp_tx ?q))"
    using s5(3) room own5 by simp_all
  have f: "{DataValueField, BlockField} \<subseteq> set (bt_fields ?q)" "schema_Type (lay_schema (bp_layout ?q)) BlockField = Integer"
    using t by (auto simp: dir_takes_def val_in_def)
  obtain s6 s7 where s7: "newBTreePage t (NewBlockId fn ?m) lay s5 = (Inr ?q, s6)" "closing (dr_promote ?q) (bp_close ?q) s6 = (Inr (Some (bt_key e)), s7)"
    "pool_inv s7" "pins_are s7 t (NewBlockId fn k # bs)" "spares t {NewBlockId fn ?m} s5 s7" "bt_stored ?q s7 B level (val_int (e BlockField))"
    using promote_first [OF s5(6,2) r5 f] by auto
  have st7: "bt_stored ?p s7 ?A level lm" by (rule spares_stored [OF s7(5) _ _ bt_page_stored [OF s5(5)]]) (use kk in simp_all)
  have eD: "e \<in> set D" unfolding arg_cong [OF D, of set] by simp
  have vi: "val_in ?p DataValueField (bt_key x)" if "x \<in> set D" for x by (rule bt_page_val [OF b that]) (use t in \<open>simp add: dir_takes_def\<close>)
  then have ty: "\<forall>x \<in> set D. val_type (bt_key x) = val_type key" using t by (simp add: dir_takes_def val_in_def)
  have own7: "own_buffers s7 t = own_buffers s t" "blockSize s7 = blockSize s" using s7(5) s5(4) own5 sp4 by (simp_all add: spares_def)
  have lenD: "Suc (length ?A + length B) = length D" using arg_cong [OF D, of length] by simp
  then have cap7: "length ?A + length B < bt_cap ?p (blockSize s7)" and room7: "Suc (length bs) < card (own_buffers s7 t)"
    using full(1) room unfolding own7 by linarith+
  have split: "bt_sorted (?A @ e # B)" "\<forall>x \<in> set (?A @ e # B). val_type (bt_key x) = val_type key"
    by (rule subst [OF D, of bt_sorted], rule so) (rule subst [OF D, of "\<lambda>D. \<forall>x \<in> set D. val_type (bt_key x) = val_type key"], rule ty)
  obtain A' B' s8 where s8: "(if vcmp key (bt_key e) < 0 then dr_doInsert ?d (int (length (takeWhile (le_ent key) D))) (Some key) blk
       else bnd (newBTreePage t (NewBlockId fn ?m) lay) (\<lambda>np. closing (dr_insert_right np (Some key) blk) (bp_close np))) s7 = (Inr (), s8)"
    "dir_put key blk D = A' @ e # B'" "pool_inv s8" "pins_are s8 t (NewBlockId fn k # bs)"
    "spares t {NewBlockId fn k, NewBlockId fn ?m} s7 s8" "bt_stored ?p s8 A' level lm" "bt_stored ?q s8 B' level (val_int (e BlockField))"
    using dir_split_insert [OF t split cap7 s7(3,4) room7 kk st7 s7(6)] unfolding D [symmetric] by blast
  have cmp: "compareVals (Some key) (Some (bt_key e)) = Inr (vcmp key (bt_key e))" by (rule compareVals_same) (use ty eD in simp)
  have div: "go_div (int (length D)) 2 = int (length ?A)" by (simp add: go_div_nonneg zdiv_int)
  have full': "bp_isFull (dr_page ?d) s2 = (Inr True, s3)" using run(3) full(1) by simp
  have acc: "dr_tx ?d = t" "dr_layout ?d = lay" "dr_file ?d = fn" by simp_all
  have "dr_insertEntry ?d (Some key) blk s = (Inr (Some (Some (bt_key e), ?m)), s8)"
    unfolding dr_insertEntry_def
    by (simp only: bnd_def run(1,2) [unfolded dp] full' [unfolded dp] if_True sum.case prod.case dp acc s4(1) div s5(1) s7(1,2) cmp s8(1) go_unfold)
  moreover have "spares t {NewBlockId fn k, NewBlockId fn ?m} s s8"
    using spares_trans [OF sp4 spares_trans [OF s5(4) spares_trans [OF s7(5) s8(5)]]] by (simp add: insert_commute)
  moreover have "dir_takes ?p (bt_key e) ?m" by (rule dir_takes_new [OF t _ vi [OF eD]]) (use may in \<open>simp add: may_split_def\<close>)
  ultimately show thesis using that s8(2-4,6,7) by blast
qed

section \<open>The separators behind an insertion\<close>

lemma takeWhile_same:
  assumes "\<forall>e \<in> set (takeWhile P D). Q e" and "\<forall>e \<in> set (dropWhile P D). \<not> Q e"
  shows "takeWhile Q D = takeWhile P D"
proof -
  have "takeWhile Q (takeWhile P D @ dropWhile P D) = takeWhile P D @ takeWhile Q (dropWhile P D)"
    by (rule takeWhile_append2) (use assms(1) in blast)
  also have "takeWhile Q xs = []" if "\<forall>e \<in> set xs. \<not> Q e" for xs using that by (cases xs) auto
  from this [OF assms(2)] have "takeWhile P D @ takeWhile Q (dropWhile P D) = takeWhile P D" by simp
  finally show ?thesis by simp
qed

lemma dir_tree_in_file: "dir_tree t fn lay s h k lm es N \<Longrightarrow> set N \<subseteq> {0..<nblocks s fn}"
proof (induction h arbitrary: k lm es N)
  case (Suc h)
  then obtain D c0 N' where h: "bt_stored (leaf_at t fn lay k) s D (int h) c0" "kids0 (dir_tree t fn lay s h) c0 lm D es N'" "N = k # N'"
    by auto
  have "set N' \<subseteq> {0..<nblocks s fn}" by (rule kids0_pages [OF h(2)]) (rule Suc.IH)
  moreover have "0 \<le> k \<and> k < nblocks s fn" using h(1) by (simp add: bt_stored_def bt_home_def in_file_def)
  ultimately show ?case using h(3) by simp
qed simp

text \<open>What an insertion leaves: the page with the new separators, or two of them and the one between.\<close>

definition dir_result :: "int \<Rightarrow> string \<Rightarrow> layout \<Rightarrow> 'z world_scheme \<Rightarrow> nat \<Rightarrow> int \<Rightarrow> int \<Rightarrow> sep list \<Rightarrow> int set \<Rightarrow> dir_entry option \<Rightarrow> bool" where
  "dir_result t fn lay s h k lm es B r \<longleftrightarrow> (case r of
     None \<Rightarrow> \<exists>N. dir_tree t fn lay s h k lm es N \<and> distinct N \<and> set N \<subseteq> B
   | Some (sk, nk) \<Rightarrow> \<exists>v es1 lm2 es2 N1 N2. sk = Some v \<and> es = es1 @ (v, lm2) # es2 \<and> dir_tree t fn lay s h k lm es1 N1 \<and>
       dir_tree t fn lay s h nk lm2 es2 N2 \<and> distinct (N1 @ N2) \<and> set (N1 @ N2) \<subseteq> B \<and> dir_takes (leaf_at t fn lay k) v nk)"

lemma node_insert:
  assumes st: "bt_stored (leaf_at t fn lay k) s D (int h) c0" and kd: "kids0 (dir_tree t fn lay s h) c0 lm (dir_put v nk D) es N"
    and so: "bt_sorted D" and t: "dir_takes (leaf_at t fn lay k) v nk" and kN: "distinct (k # N)"
    and inv: "pool_inv s" and pi: "pins_are s t (NewBlockId fn k # bs)" and room: "Suc (length bs) < card (own_buffers s t)"
    and may: "may_split (leaf_at t fn lay k) s" and cap: "0 < bt_cap (leaf_at t fn lay k) (blockSize s)"
  obtains r s' where "dr_insertEntry (dir_at t fn lay k) (Some v) nk s = (Inr r, s')" and "pool_inv s'" and "pins_are s' t (NewBlockId fn k # bs)"
    and "spares t {NewBlockId fn k, NewBlockId fn (nblocks s fn)} s s'"
    and "dir_result t fn lay s' (Suc h) k lm es (insert k (insert (nblocks s fn) (set N))) r"
proof -
  let ?p = "leaf_at t fn lay k" and ?m = "nblocks s fn"
  have b: "bt_page ?p s D (int h) c0" by (rule bt_stored_page [OF st inv, of "NewBlockId fn k # bs"]) (use pi in simp_all)
  have inf: "set N \<subseteq> {0..<?m}" by (rule kids0_pages [OF kd]) (rule dir_tree_in_file)
  have km: "k < ?m" using st by (simp add: bt_stored_def bt_home_def in_file_def)
  have keep: "kids0 (dir_tree t fn lay s' h) c0 lm (dir_put v nk D) es N"
    if "spares t {NewBlockId fn k, NewBlockId fn ?m} s s'" for s'
  proof (rule kids0_mono [OF kd])
    show "dir_tree t fn lay s' h c l x M" if "dir_tree t fn lay s h c l x M" "set M \<subseteq> set N" for c l x M
      by (rule dir_tree_spares [OF \<open>spares t _ s s'\<close> that(1)]) (use that(2) kN inf in auto)
  qed
  show thesis
  proof (cases "length D < bt_cap ?p (blockSize s)")
    case True
    obtain s' where s': "dr_insertEntry (dir_at t fn lay k) (Some v) nk s = (Inr None, s')" "touches ?p s s'"
      "bt_page ?p s' (dir_put v nk D) (int h) c0"
      using dr_insertEntry_room [OF _ b t True, of "dir_at t fn lay k"] by auto
    have sp: "spares t {NewBlockId fn k, NewBlockId fn ?m} s s'"
      by (rule spares_mono [of t "{NewBlockId fn k}"]) (use spares_touches [OF s'(2)] in simp_all)
    have "dir_tree t fn lay s' (Suc h) k lm es (k # N)"
      using bt_page_stored [OF s'(3)] keep [OF sp] unfolding dir_tree.simps by blast
    then have "dir_result t fn lay s' (Suc h) k lm es (insert k (insert ?m (set N))) None"
      using kN unfolding dir_result_def option.case by (intro exI [of _ "k # N"]) auto
    moreover have "pool_inv s'" "pins_are s' t (NewBlockId fn k # bs)" using s'(2) inv pi by (simp_all add: touches_def)
    ultimately show thesis using that [OF s'(1)] sp by blast
  next
    case False
    then have full: "bt_cap ?p (blockSize s) = length D" "0 < length D" using bt_page_size [OF b] cap by simp_all
    obtain A e B s' where s': "dr_insertEntry (dir_at t fn lay k) (Some v) nk s = (Inr (Some (Some (bt_key e), ?m)), s')"
      "dir_put v nk D = A @ e # B" "pool_inv s'" "pins_are s' t (NewBlockId fn k # bs)"
      "spares t {NewBlockId fn k, NewBlockId fn ?m} s s'" "bt_stored ?p s' A (int h) c0"
      "bt_stored (leaf_at t fn lay ?m) s' B (int h) (val_int (e BlockField))" "dir_takes ?p (bt_key e) ?m"
      by (rule dr_insertEntry_full [OF b t so full pi room may])
    let ?P = "dir_tree t fn lay s' h"
    have "kids0 ?P c0 lm (A @ e # B) es N" using keep [OF s'(5)] unfolding s'(2) .
    then obtain es0 N0 es1 N1 where z: "?P c0 lm es0 N0" "kids ?P (A @ e # B) es1 N1" "es = es0 @ es1" "N = N0 @ N1"
      unfolding kids0_def by blast
    obtain ea eb' Na Nb' where y: "kids ?P A ea Na" "kids ?P (e # B) eb' Nb'" "es1 = ea @ eb'" "N1 = Na @ Nb'"
      using z(2) unfolding kids_append by blast
    obtain l x M eb Nb where w: "?P (val_int (e BlockField)) l x M" "kids ?P B eb Nb" "eb' = (bt_key e, l) # x @ eb" "Nb' = M @ Nb"
      using y(2) by auto
    have "dir_tree t fn lay s' (Suc h) k lm (es0 @ ea) (k # N0 @ Na)"
      using s'(6) kids0I [of ?P c0 lm es0 N0 A ea Na] z(1) y(1) unfolding dir_tree.simps by blast
    moreover have "dir_tree t fn lay s' (Suc h) ?m l (x @ eb) (?m # M @ Nb)"
      using s'(7) kids0I [of ?P "val_int (e BlockField)" l x M B eb Nb] w(1,2) unfolding dir_tree.simps by blast
    moreover have "distinct ((k # N0 @ Na) @ ?m # M @ Nb)"
      using kN km inf unfolding z(4) y(4) w(4) by force
    moreover have "set ((k # N0 @ Na) @ ?m # M @ Nb) \<subseteq> insert k (insert ?m (set N))" unfolding z(4) y(4) w(4) by auto
    moreover have "es = (es0 @ ea) @ (bt_key e, l) # x @ eb" unfolding z(3) y(3) w(3) by simp
    ultimately have "dir_result t fn lay s' (Suc h) k lm es (insert k (insert ?m (set N))) (Some (Some (bt_key e), ?m))"
      using s'(8) unfolding dir_result_def option.case prod.case by blast
    then show thesis using that s'(1,3-5) by blast
  qed
qed

section \<open>Insertion into a directory of any height\<close>

text \<open>The file may take \<open>g\<close> more pages: their locks, and their numbers.\<close>

definition may_grow :: "int \<Rightarrow> string \<Rightarrow> 'z world_scheme \<Rightarrow> nat \<Rightarrow> bool" where
  "may_grow t fn s g \<longleftrightarrow> (\<forall>k. can_xlock s t (NewBlockId fn k)) \<and> int32_range (nblocks s fn + int g)"

lemma may_grow_split:
  assumes "may_grow t fn s g" and "0 \<le> nblocks s fn"
  shows "may_split (leaf_at t fn lay k) s"
  using assms by (auto simp: may_grow_def may_split_def int32_range_def)

lemma may_grow_later:
  assumes "may_grow t fn s (g + g')" and "spares t C s s'" and "nblocks s' fn \<le> nblocks s fn + int g" and "0 \<le> nblocks s' fn"
  shows "may_grow t fn s' g'"
  using assms by (auto simp: may_grow_def int32_range_def spares_def)

text \<open>The separators put behind the child on the way, on each level.\<close>

lemma put_here:
  assumes "sep_sorted key (X @ x1 @ (v, l2) # x2 @ Y)"
    and "\<forall>e \<in> set (takeWhile (le_ent key) D). \<exists>l. (bt_key e, l) \<in> set X" and "\<forall>e \<in> set (dropWhile (le_ent key) D). \<exists>l. (bt_key e, l) \<in> set Y"
  shows "takeWhile (le_ent v) D = takeWhile (le_ent key) D"
proof (rule takeWhile_same)
  have so: "\<forall>x \<in> set X. vcmp (fst x) v < 0" "\<forall>y \<in> set Y. vcmp v (fst y) < 0"
    using assms(1) by (simp_all add: sep_sorted_append sep_sorted_Cons)
  have ty: "val_type v = val_type key" "\<forall>y \<in> set Y. val_type (fst y) = val_type key"
    using assms(1) unfolding sep_sorted_def by simp_all
  show "\<forall>e \<in> set (takeWhile (le_ent key) D). le_ent v e" using assms(2) so(1) by fastforce
  show "\<forall>e \<in> set (dropWhile (le_ent key) D). \<not> le_ent v e"
  proof
    fix e
    assume "e \<in> set (dropWhile (le_ent key) D)"
    then obtain l where "(bt_key e, l) \<in> set Y" using assms(3) by blast
    then have "vcmp v (bt_key e) < 0" "val_type v = val_type (bt_key e)" using so(2) ty by fastforce+
    then show "\<not> le_ent v e" using vcmp_swap by blast
  qed
qed

lemma page_room:
  assumes "dir_tree t fn lay s (Suc h) k lm es N" and "pins_are s t bs" and "length bs < card (own_buffers s t)" and "pool_inv s"
  obtains s' where "newBTreeDir t (NewBlockId fn k) lay s = (Inr (dir_at t fn lay k), s')" and "pool_inv s'"
    and "pins_are s' t (NewBlockId fn k # bs)" and "spares t {} s s'"
proof -
  obtain D c0 where "bt_stored (leaf_at t fn lay k) s D (int h) c0" using assms(1) by auto
  from dir_open [OF this assms(4,2,3)] show thesis using that by blast
qed

text \<open>The blocks that an insertion may change or add.\<close>

abbreviation dir_scope :: "string \<Rightarrow> int \<Rightarrow> int list \<Rightarrow> nat \<Rightarrow> block_id set" where
  "dir_scope fn m N g \<equiv> NewBlockId fn ` (set N \<union> {m..<m + int g})"

lemma scope_grown:
  assumes "spares t (dir_scope fn (nblocks s fn) N g) s s'" and "set N \<subseteq> {0..<nblocks s fn}" and "fn \<noteq> logFile s" and "0 \<le> nblocks s fn"
  shows "nblocks s' fn \<le> nblocks s fn + int g" and "nblocks s fn \<le> nblocks s' fn"
proof -
  show "nblocks s' fn \<le> nblocks s fn + int g"
    by (rule spares_grown [OF assms(1,3)]) (use assms(2,4) in fastforce)+
  show "nblocks s fn \<le> nblocks s' fn" using assms(1,3) by (simp add: spares_def)
qed

lemma dir_result_mono: "dir_result t fn lay s h k lm es B r \<Longrightarrow> B \<subseteq> B' \<Longrightarrow> dir_result t fn lay s h k lm es B' r"
  unfolding dir_result_def by (cases r) (auto, blast+)

lemma dir_result_spares:
  assumes "dir_result t fn lay s h k lm es B r" and "spares t {} s s'"
  shows "dir_result t fn lay s' h k lm es B r"
proof -
  have tr: "dir_tree t fn lay s' h k lm es N" if "dir_tree t fn lay s h k lm es N" for k lm es N
    by (rule dir_tree_spares [OF assms(2) that]) simp
  show ?thesis
  proof (cases r)
    case None
    show ?thesis using assms(1) tr unfolding dir_result_def None option.case by meson
  next
    case (Some q)
    then obtain sk nk where q: "r = Some (sk, nk)" by (cases q) auto
    obtain v es1 lm2 es2 N1 N2 where w: "sk = Some v" "es = es1 @ (v, lm2) # es2" "dir_tree t fn lay s h k lm es1 N1"
      "dir_tree t fn lay s h nk lm2 es2 N2" "distinct (N1 @ N2)" "set (N1 @ N2) \<subseteq> B" "dir_takes (leaf_at t fn lay k) v nk"
      using assms(1) unfolding dir_result_def q option.case prod.case by blast
    then show ?thesis
      unfolding dir_result_def q option.case prod.case using tr [OF w(3)] tr [OF w(4)]
      by (intro exI [of _ v] exI [of _ es1] exI [of _ lm2] exI [of _ es2] exI [of _ N1] exI [of _ N2]) simp
  qed
qed

text \<open>New pages in the place of a subtree.\<close>

lemma pages_replaced:
  fixes m :: int
  assumes "distinct (k # A @ M @ B)" and "set (k # A @ M @ B) \<subseteq> {0..<m}" and "distinct M'" and "set M' \<subseteq> set M \<union> {m..<m + g}"
  shows "distinct (k # A @ M' @ B)"
proof -
  have "j \<noteq> k \<and> j \<notin> set A \<and> j \<notin> set B" if j: "j \<in> set M'" for j
  proof (cases "j \<in> set M")
    case False
    then have "m \<le> j" using assms(4) j by auto
    then have "j \<notin> {0..<m}" by simp
    then have "j \<notin> set (k # A @ M @ B)" using assms(2) by blast
    then show ?thesis by simp
  qed (use assms(1) in auto)
  then show ?thesis using assms(1,3) by auto
qed

lemma dr_insert_tree:
  assumes "dir_tree t fn lay s (Suc h) k lm es N" and "distinct N" and "sep_sorted key es" and "sep_sorted key (sep_put key blk es)"
    and "dir_takes (leaf_at t fn lay 0) key blk" and "pool_inv s" and "pins_are s t (NewBlockId fn k # bs)"
    and "Suc (length bs + h) < card (own_buffers s t)" and "may_grow t fn s (Suc h)" and "0 < bt_cap (leaf_at t fn lay 0) (blockSize s)" and "h < n"
  shows "\<exists>r s'. dr_insert n (dir_at t fn lay k) (Some key) blk s = (Inr r, s') \<and> pool_inv s' \<and> pins_are s' t (NewBlockId fn k # bs) \<and>
    spares t (dir_scope fn (nblocks s fn) N (Suc h)) s s' \<and>
    dir_result t fn lay s' (Suc h) k lm (sep_put key blk es) (set N \<union> {nblocks s fn..<nblocks s fn + int (Suc h)}) r"
  using assms
proof (induction h arbitrary: s k lm es N bs n)
  case 0
  obtain n0 where n: "n = Suc n0" using 0(11) by (cases n) auto
  obtain D c0 N' where h: "bt_stored (leaf_at t fn lay k) s D 0 c0" "kids0 (dir_tree t fn lay s 0) c0 lm D es N'" "N = k # N'"
    using 0(1) by auto
  let ?p = "leaf_at t fn lay k" and ?m = "nblocks s fn"
  have b: "bt_page ?p s D 0 c0" by (rule bt_stored_page [OF h(1) 0(6), of "NewBlockId fn k # bs"]) (use 0(7) in simp_all)
  obtain s1 where s1: "bp_getExtra1 ?p s = (Inr 0, s1)" "bt_page ?p s1 D 0 c0" "locks_only t s s1"
    using bt_page_header(2) [OF b] by auto
  note sp1 = spares_locks [OF s1(3)]
  obtain l x M X Y N1 N2 where f: "dir_tree t fn lay s 0 (dir_child key D c0) l x M" "es = X @ x @ Y" "N' = N1 @ M @ N2"
    "\<forall>y \<in> set X. le_key key y" "\<forall>y \<in> set Y. \<not> le_key key y"
    "\<forall>e \<in> set (takeWhile (le_ent key) D). \<exists>l. (bt_key e, l) \<in> set X" "\<forall>e \<in> set (dropWhile (le_ent key) D). \<exists>l. (bt_key e, l) \<in> set Y"
    and close: "\<And>Q v nk x1 M1 l2 x2 M2. (\<And>c l x K. dir_tree t fn lay s 0 c l x K \<Longrightarrow> set K \<subseteq> set N1 \<union> set N2 \<Longrightarrow> Q c l x K) \<Longrightarrow>
      Q (dir_child key D c0) l x1 M1 \<Longrightarrow> Q nk l2 x2 M2 \<Longrightarrow> takeWhile (le_ent v) D = takeWhile (le_ent key) D \<Longrightarrow>
      kids0 Q c0 lm (dir_put v nk D) (X @ x1 @ (v, l2) # x2 @ Y) (N1 @ M1 @ M2 @ N2)"
    by (rule kids0_focus [OF h(2) 0(3)]) blast
  have e: "x = []" "M = []" "l = dir_child key D c0" using f(1) by simp_all
  have put: "sep_put key blk es = X @ [(key, blk)] @ Y" unfolding f(2) sep_put_cut [OF f(4,5)] e by (simp add: sep_put_def)
  have kd: "kids0 (dir_tree t fn lay s1 0) c0 lm (dir_put key blk D) (sep_put key blk es) N'"
    using close [of "dir_tree t fn lay s1 0" "[]" "[]" blk blk "[]" "[]" key] e unfolding put f(3) by simp
  have so: "bt_sorted D" using h(2) kids_sorted 0(3) unfolding kids0_def by (metis sep_sorted_append)
  have t: "dir_takes ?p key blk" by (rule dir_takes_mate [OF 0(5)]) simp
  have nb: "nblocks s1 fn = ?m" "blockSize s1 = blockSize s" using locks_only_same(4,6) [OF s1(3)] by simp_all
  have m0: "0 \<le> ?m" using h(1) by (simp add: bt_stored_def bt_home_def in_file_def)
  have "may_grow t fn s1 1" by (rule may_grow_later [of t fn s 0 1]) (use 0(9) sp1 nb m0 in simp_all)
  from may_grow_split [OF this] have may: "may_split ?p s1" using m0 nb by simp
  have r: "pool_inv s1" "pins_are s1 t (NewBlockId fn k # bs)" "Suc (length bs) < card (own_buffers s1 t)" "0 < bt_cap ?p (blockSize s1)"
    using 0(6-8,10) locks_only_same [OF s1(3)] pins_are_cong [of s1 t s] nb by (simp_all add: bt_cap_def)
  have kN: "distinct (k # N')" using 0(2) h(3) by simp
  have st: "bt_stored ?p s1 D (int 0) c0" using bt_page_stored [OF s1(2)] by simp
  obtain r' s' where s': "dr_insertEntry (dir_at t fn lay k) (Some key) blk s1 = (Inr r', s')" "pool_inv s'" "pins_are s' t (NewBlockId fn k # bs)"
    "spares t {NewBlockId fn k, NewBlockId fn (nblocks s1 fn)} s1 s'"
    "dir_result t fn lay s' (Suc 0) k lm (sep_put key blk es) (insert k (insert (nblocks s1 fn) (set N'))) r'"
    by (rule node_insert [OF st kd so t kN r(1-3) may r(4)])
  have "spares t {NewBlockId fn k, NewBlockId fn ?m} s s'" using spares_trans [OF sp1 s'(4)] nb by simp
  then have "spares t (dir_scope fn ?m N (Suc 0)) s s'" by (rule spares_mono) (use h(3) in auto)
  moreover have "insert k (insert (nblocks s1 fn) (set N')) = set N \<union> {?m..<?m + int (Suc 0)}" using h(3) nb by auto
  moreover have "dr_insert n (dir_at t fn lay k) (Some key) blk s = (Inr r', s')" using s1(1) s'(1) unfolding n by (simp add: bnd_def)
  ultimately show ?case using s'(2,3,5) by auto
next
  case (Suc h)
  obtain n0 where n: "n = Suc n0" "h < n0" using Suc.prems(11) by (cases n) auto
  obtain D c0 N' where h: "bt_stored (leaf_at t fn lay k) s D (int (Suc h)) c0" "kids0 (dir_tree t fn lay s (Suc h)) c0 lm D es N'" "N = k # N'"
    using Suc.prems(1) unfolding dir_tree.simps(2) [of t fn lay s "Suc h"] by blast
  let ?p = "leaf_at t fn lay k" and ?m = "nblocks s fn" and ?c = "dir_child key D c0" and ?P = "\<lambda>s. dir_tree t fn lay s (Suc h)"
  have inf: "set N \<subseteq> {0..<?m}" by (rule dir_tree_in_file [OF Suc.prems(1)])
  have fn: "fn \<noteq> logFile s" and m0: "0 \<le> ?m" using h(1) by (simp_all add: bt_stored_def bt_home_def in_file_def)
  have b: "bt_page ?p s D (int (Suc h)) c0" by (rule bt_stored_page [OF h(1) Suc.prems(6), of "NewBlockId fn k # bs"]) (use Suc.prems(7) in simp_all)
  obtain s1 where s1: "bp_getExtra1 ?p s = (Inr (int (Suc h)), s1)" "bt_page ?p s1 D (int (Suc h)) c0" "locks_only t s s1"
    using bt_page_header(2) [OF b] by auto
  have lay: "dir_layout lay key" using dir_takes_layout [OF Suc.prems(5)] by simp
  obtain s2 where s2: "dr_findChildBlock (dir_at t fn lay k) (Some key) s1 = (Inr ?c, s2)" "locks_only t s1 s2"
    using findChildBlock_child [OF s1(2) lay] by blast
  have l2: "locks_only t s s2" by (rule locks_only_trans [OF s1(3) s2(2)])
  note sp2 = spares_locks [OF l2]
  obtain l x M X Y N1 N2 where f: "?P s ?c l x M" "es = X @ x @ Y" "N' = N1 @ M @ N2"
    "\<forall>y \<in> set X. le_key key y" "\<forall>y \<in> set Y. \<not> le_key key y"
    "\<forall>e \<in> set (takeWhile (le_ent key) D). \<exists>l. (bt_key e, l) \<in> set X" "\<forall>e \<in> set (dropWhile (le_ent key) D). \<exists>l. (bt_key e, l) \<in> set Y"
    and here: "\<And>Q x' M'. (\<And>c l x K. ?P s c l x K \<Longrightarrow> set K \<subseteq> set N1 \<union> set N2 \<Longrightarrow> Q c l x K) \<Longrightarrow> Q ?c l x' M' \<Longrightarrow>
      kids0 Q c0 lm D (X @ x' @ Y) (N1 @ M' @ N2)"
    and more: "\<And>Q v nk x1 M1 l2 x2 M2. (\<And>c l x K. ?P s c l x K \<Longrightarrow> set K \<subseteq> set N1 \<union> set N2 \<Longrightarrow> Q c l x K) \<Longrightarrow>
      Q ?c l x1 M1 \<Longrightarrow> Q nk l2 x2 M2 \<Longrightarrow> takeWhile (le_ent v) D = takeWhile (le_ent key) D \<Longrightarrow>
      kids0 Q c0 lm (dir_put v nk D) (X @ x1 @ (v, l2) # x2 @ Y) (N1 @ M1 @ M2 @ N2)"
    by (rule kids0_focus [OF h(2) Suc.prems(3)]) blast
  have put: "sep_put key blk es = X @ sep_put key blk x @ Y" unfolding f(2) by (rule sep_put_cut [OF f(4,5)])
  have so: "sep_sorted key x" "sep_sorted key (sep_put key blk x)"
    using Suc.prems(3) unfolding f(2) sep_sorted_append apply blast
    using Suc.prems(4) unfolding put sep_sorted_append by blast
  have sets: "distinct M" "k \<notin> set M" "set M \<inter> set N1 = {}" "set M \<inter> set N2 = {}" "distinct N1" "distinct N2" "set N1 \<inter> set N2 = {}"
    "k \<notin> set N1" "k \<notin> set N2" "set N = insert k (set N1 \<union> set M \<union> set N2)"
    using Suc.prems(2) unfolding h(3) f(3) by auto
  have r2: "pool_inv s2" "pins_are s2 t (NewBlockId fn k # bs)" "length (NewBlockId fn k # bs) < card (own_buffers s2 t)"
    using Suc.prems(6-8) locks_only_same [OF l2] pins_are_cong [of s2 t s] by simp_all
  have c2: "?P s2 ?c l x M" by (rule dir_tree_spares [OF sp2 f(1)]) simp
  obtain s3 where s3: "newBTreeDir t (NewBlockId fn ?c) lay s2 = (Inr (dir_at t fn lay ?c), s3)" "pool_inv s3"
    "pins_are s3 t (NewBlockId fn ?c # NewBlockId fn k # bs)" "spares t {} s2 s3"
    by (rule page_room [OF c2 r2(2,3,1)])
  have sp3: "spares t {} s s3" using spares_trans [OF sp2 s3(4)] by simp
  have c3: "?P s3 ?c l x M" by (rule dir_tree_spares [OF sp3 f(1)]) simp
  have nb3: "nblocks s3 fn = ?m" "blockSize s3 = blockSize s" "own_buffers s3 t = own_buffers s t"
    using spares_nblocks [OF sp3 fn m0] sp3 by (simp_all add: spares_def)
  have grow3: "may_grow t fn s3 (Suc h)"
    by (rule may_grow_later [of t fn s 1 "Suc h"]) (use Suc.prems(9) sp3 nb3 m0 in \<open>simp_all add: add.commute\<close>)
  have r3: "Suc (length (NewBlockId fn k # bs) + h) < card (own_buffers s3 t)" "0 < bt_cap (leaf_at t fn lay 0) (blockSize s3)"
    using Suc.prems(8,10) nb3 by simp_all
  obtain r s4 where s4: "dr_insert n0 (dir_at t fn lay ?c) (Some key) blk s3 = (Inr r, s4)" "pool_inv s4"
    "pins_are s4 t (NewBlockId fn ?c # NewBlockId fn k # bs)" "spares t (dir_scope fn ?m M (Suc h)) s3 s4"
    "dir_result t fn lay s4 (Suc h) ?c l (sep_put key blk x) (set M \<union> {?m..<?m + int (Suc h)}) r"
    using Suc.IH [OF c3 sets(1) so Suc.prems(5) s3(2,3) r3(1) grow3 r3(2) n(2)] unfolding nb3 by blast
  obtain s5 where s5: "dr_close (dir_at t fn lay ?c) s4 = (Inr (), s5)" "pool_inv s5" "pins_are s5 t (NewBlockId fn k # bs)" "spares t {} s4 s5"
    by (rule dir_close [OF s4(2,3), of lay]) blast
  have res: "dir_result t fn lay s5 (Suc h) ?c l (sep_put key blk x) (set M \<union> {?m..<?m + int (Suc h)}) r"
    by (rule dir_result_spares [OF s4(5) s5(4)])
  have sp5: "spares t (dir_scope fn ?m M (Suc h)) s s5" using spares_trans [OF sp3 spares_trans [OF s4(4) s5(4)]] by simp
  have out: "NewBlockId fn j \<notin> dir_scope fn ?m M (Suc h)" if "j \<in> insert k (set N1 \<union> set N2)" for j
    using that sets inf by auto
  have st5: "bt_stored ?p s5 D (int (Suc h)) c0" by (rule spares_stored [OF sp5 _ _ h(1)]) (use out [of k] in simp_all)
  have keep: "?P s5 c l x K" if "?P s c l x K" "set K \<subseteq> set N1 \<union> set N2" for c l x K
    by (rule dir_tree_spares [OF sp5 that(1)]) (use out that(2) in blast)
  have run: "dr_insert n (dir_at t fn lay k) (Some key) blk s =
      (case r of None \<Rightarrow> ret None | Some (sk, b) \<Rightarrow> dr_insertEntry (dir_at t fn lay k) sk b) s5"
    using s1(1) s2(1) s3(1) closing_run [of "dr_insert n0 (dir_at t fn lay ?c) (Some key) blk" s3 r s4 "dr_close (dir_at t fn lay ?c)" s5] s4(1) s5(1)
    unfolding n(1) by (simp add: bnd_def)
  show ?case
  proof (cases r)
    case None
    obtain M' where M': "?P s5 ?c l (sep_put key blk x) M'" "distinct M'" "set M' \<subseteq> set M \<union> {?m..<?m + int (Suc h)}"
      using res unfolding None dir_result_def option.case by blast
    have "kids0 (?P s5) c0 lm D (sep_put key blk es) (N1 @ M' @ N2)" unfolding put by (rule here [of "?P s5", OF keep M'(1)])
    then have "dir_tree t fn lay s5 (Suc (Suc h)) k lm (sep_put key blk es) (k # N1 @ M' @ N2)"
      using st5 unfolding dir_tree.simps(2) [of t fn lay s5 "Suc h"] by blast
    moreover have "distinct (k # N1 @ M' @ N2)"
      by (rule pages_replaced [OF Suc.prems(2) [unfolded h(3) f(3)] inf [unfolded h(3) f(3)] M'(2,3)])
    moreover have "set (k # N1 @ M' @ N2) \<subseteq> set N \<union> {?m..<?m + int (Suc (Suc h))}" using M'(3) sets(10) by auto
    ultimately have "dir_result t fn lay s5 (Suc (Suc h)) k lm (sep_put key blk es) (set N \<union> {?m..<?m + int (Suc (Suc h))}) None"
      unfolding dir_result_def option.case by blast
    moreover have "spares t (dir_scope fn ?m N (Suc (Suc h))) s s5" by (rule spares_mono [OF sp5]) (use sets in auto)
    ultimately show ?thesis using run s5(2,3) unfolding None by (auto simp: go_unfold)
  next
    case (Some q)
    then obtain sk nk where q: "r = Some (sk, nk)" by (cases q) auto
    obtain v x1 l2 x2 M1 M2 where w: "sk = Some v" "sep_put key blk x = x1 @ (v, l2) # x2" "?P s5 ?c l x1 M1" "?P s5 nk l2 x2 M2"
      "distinct (M1 @ M2)" "set (M1 @ M2) \<subseteq> set M \<union> {?m..<?m + int (Suc h)}" "dir_takes (leaf_at t fn lay ?c) v nk"
      using res unfolding q dir_result_def option.case prod.case by blast
    have put2: "sep_put key blk es = X @ x1 @ (v, l2) # x2 @ Y" unfolding put w(2) by simp
    have tw: "takeWhile (le_ent v) D = takeWhile (le_ent key) D" by (rule put_here [OF Suc.prems(4) [unfolded put2] f(6,7)])
    have kd: "kids0 (?P s5) c0 lm (dir_put v nk D) (sep_put key blk es) (N1 @ M1 @ M2 @ N2)"
      unfolding put2 by (rule more [of "?P s5", OF keep w(3,4) tw])
    have soD: "bt_sorted D" using h(2) kids_sorted Suc.prems(3) unfolding kids0_def by (metis sep_sorted_append)
    have t: "dir_takes ?p v nk" by (rule dir_takes_mate [OF w(7)]) simp
    have kN: "distinct (k # N1 @ M1 @ M2 @ N2)"
      using pages_replaced [OF Suc.prems(2) [unfolded h(3) f(3)] inf [unfolded h(3) f(3)] w(5,6)] by simp
    have M: "set M \<subseteq> {0..<?m}" using inf sets by auto
    note g = scope_grown [OF sp5 M fn m0]
    have nb5: "blockSize s5 = blockSize s" "own_buffers s5 t = own_buffers s t" using sp5 by (simp_all add: spares_def)
    have "may_grow t fn s5 1"
      by (rule may_grow_later [of t fn s "Suc h" 1]) (use Suc.prems(9) sp5 g m0 in \<open>simp_all add: add.commute\<close>)
    then have may: "may_split ?p s5" by (rule may_grow_split) (use g(2) m0 in simp)
    have r5: "Suc (length bs) < card (own_buffers s5 t)" "0 < bt_cap ?p (blockSize s5)" using Suc.prems(8,10) nb5 by (simp_all add: bt_cap_def)
    obtain r' s6 where s6: "dr_insertEntry (dir_at t fn lay k) (Some v) nk s5 = (Inr r', s6)" "pool_inv s6" "pins_are s6 t (NewBlockId fn k # bs)"
      "spares t {NewBlockId fn k, NewBlockId fn (nblocks s5 fn)} s5 s6"
      "dir_result t fn lay s6 (Suc (Suc h)) k lm (sep_put key blk es) (insert k (insert (nblocks s5 fn) (set (N1 @ M1 @ M2 @ N2)))) r'"
      by (rule node_insert [OF st5 kd soD t kN s5(2,3) r5(1) may r5(2)])
    have "insert k (insert (nblocks s5 fn) (set (N1 @ M1 @ M2 @ N2))) \<subseteq> set N \<union> {?m..<?m + int (Suc (Suc h))}"
      using w(6) sets g by auto
    then have "dir_result t fn lay s6 (Suc (Suc h)) k lm (sep_put key blk es) (set N \<union> {?m..<?m + int (Suc (Suc h))}) r'"
      by (rule dir_result_mono [OF s6(5)])
    moreover have "spares t (dir_scope fn ?m N (Suc (Suc h))) s s6"
      by (rule spares_mono [OF spares_trans [OF sp5 s6(4)]]) (use sets g in auto)
    ultimately show ?thesis using run s6(1-3) unfolding q w(1) by auto
  qed
qed

section \<open>A new root\<close>

lemma copy_loop:
  assumes "mates p q" and "bt_page p s (A @ B) x1 x2" and "bt_page q s A y1 y2" and "length A + length B \<le> bt_cap q (blockSize s)"
  shows "\<exists>s'. for_each [int (length A)..int (length A + length B) - 1] (\<lambda>i. bnd (bp_insert q i) (\<lambda>_. bp_transferTo p i q i)) s = (Inr (), s') \<and>
    works (bp_tx p) {bp_block q} s s' \<and> bt_page p s' (A @ B) x1 x2 \<and> bt_page q s' (A @ B) y1 y2"
  using assms
proof (induction B arbitrary: s A)
  case Nil
  then show ?case using works_refl by (auto simp: go_unfold)
next
  case (Cons e B)
  note pq = Cons.prems(1)
  have tq: "bp_tx q = bp_tx p" using pq by (simp add: mates_def)
  have list: "[int (length A)..int (length A + length (e # B)) - 1] =
      int (length A) # [int (length (A @ [e]))..int (length (A @ [e]) + length B) - 1]"
    using upto_rec1 [of "int (length A)" "int (length A + length (e # B)) - 1"] by (simp add: add.commute)
  have q0: "bt_page q s (A @ []) y1 y2" "length (A @ []) < bt_cap q (blockSize s)" using Cons.prems(3,4) by simp_all
  obtain s1 x where s1: "bp_insert q (int (length A)) s = (Inr (), s1)" "touches q s s1" "bt_page q s1 (A @ x # []) y1 y2"
    using bp_insert_gap [OF q0] by blast
  have p1: "bt_page p s1 (A @ e # B) x1 x2" by (rule mates_page [OF mates_sym [OF pq] s1(2) Cons.prems(2)])
  obtain s2 where s2: "bp_transferTo p (int (length A)) q (int (length A)) s1 = (Inr (), s2)" "touches q s1 s2"
    "bt_page p s2 (A @ e # B) x1 x2" "bt_page q s2 (A @ [e]) y1 y2"
    using bp_transferTo_entry [OF pq p1 s1(3)] by blast
  have w: "works (bp_tx p) {bp_block q} s s2"
    by (rule works_add [OF works_add [OF works_refl s1(2)] s2(2)]) (simp_all add: tq)
  have p2: "bt_page p s2 ((A @ [e]) @ B) x1 x2" using s2(3) by simp
  have "length (A @ [e]) + length B \<le> bt_cap q (blockSize s2)" using Cons.prems(4) w by (simp add: works_def spares_def)
  from Cons.IH [OF pq p2 s2(4) this]
  obtain s' where s': "for_each [int (length (A @ [e]))..int (length (A @ [e]) + length B) - 1] (\<lambda>i. bnd (bp_insert q i) (\<lambda>_. bp_transferTo p i q i)) s2 = (Inr (), s')"
    "works (bp_tx p) {bp_block q} s2 s'" "bt_page p s' ((A @ [e]) @ B) x1 x2" "bt_page q s' ((A @ [e]) @ B) y1 y2"
    by blast
  have "works (bp_tx p) {bp_block q} s s'" using works_trans [OF w s'(2)] by simp
  moreover have "for_each [int (length A)..int (length A + length (e # B)) - 1] (\<lambda>i. bnd (bp_insert q i) (\<lambda>_. bp_transferTo p i q i)) s = (Inr (), s')"
    unfolding list for_each.simps by (simp only: bnd_def s1(1) s2(1) sum.case prod.case s'(1))
  ultimately show ?case using s'(3,4) by auto
qed

text \<open>The loop that empties the old root.\<close>

lemma clear_loop:
  "bt_page p s D x1 x2 \<Longrightarrow> length D < n \<Longrightarrow> \<exists>s'. dr_clear n p s = (Inr (), s') \<and> touches p s s' \<and> bt_page p s' [] x1 x2"
proof (induction D arbitrary: s n)
  case Nil
  obtain n0 where n: "n = Suc n0" using Nil(2) by (cases n) auto
  obtain s1 where "bp_getNumRecs p s = (Inr 0, s1)" "bt_page p s1 [] x1 x2" "locks_only (bp_tx p) s s1"
    using bt_page_header(1) [OF Nil(1)] by auto
  then show ?case using touches_locks unfolding n by (auto simp: or_else_def handle_def bnd_def go_unfold)
next
  case (Cons e D)
  obtain n0 where n: "n = Suc n0" "length D < n0" using Cons.prems(2) by (cases n) auto
  obtain s1 where s1: "bp_getNumRecs p s = (Inr (int (length (e # D))), s1)" "bt_page p s1 (e # D) x1 x2" "locks_only (bp_tx p) s s1"
    using bt_page_header(1) [OF Cons.prems(1)] by blast
  have "bt_page p s1 ([] @ e # D) x1 x2" using s1(2) by simp
  then obtain s2 where s2: "bp_delete p 0 s1 = (Inr (), s2)" "touches p s1 s2" "bt_page p s2 D x1 x2" using bp_delete_entry by fastforce
  obtain s' where s': "dr_clear n0 p s2 = (Inr (), s')" "touches p s2 s'" "bt_page p s' [] x1 x2"
    using Cons.IH [OF s2(3) n(2)] by blast
  have "dr_clear n p s = (Inr (), s')" using s1(1) s2(1) s'(1) unfolding n(1) by (simp add: or_else_def handle_def bnd_def go_unfold)
  then show ?case using s'(3) touches_trans [OF touches_locks [OF s1(3)] touches_trans [OF s2(2) s'(2)]] by blast
qed

lemma dr_makeNewRoot_page:
  assumes b: "bt_page (leaf_at t fn lay k) s D level lm" and t: "dir_takes (leaf_at t fn lay k) key blk" and pi: "pins_are s t (NewBlockId fn k # bs)"
    and room: "Suc (length bs) < card (own_buffers s t)" and may: "may_split (leaf_at t fn lay k) s" and lr: "int32_range (level + 1)"
    and cap: "0 < bt_cap (leaf_at t fn lay k) (blockSize s)" and n: "bt_cap (leaf_at t fn lay k) (blockSize s) < n"
  obtains s' where "dr_makeNewRoot n (dir_at t fn lay k) (Some key, blk) s = (Inr (), s')" and "pool_inv s'" and "pins_are s' t (NewBlockId fn k # bs)"
    and "spares t {NewBlockId fn k, NewBlockId fn (nblocks s fn)} s s'"
    and "bt_stored (leaf_at t fn lay k) s' [dir_ent key blk] (level + 1) (nblocks s fn)" and "bt_stored (leaf_at t fn lay (nblocks s fn)) s' D level lm"
proof -
  let ?p = "leaf_at t fn lay k" and ?m = "nblocks s fn" and ?pins = "NewBlockId fn k # bs"
  let ?q = "leaf_at t fn lay ?m" and ?d = "dir_at t fn lay k"
  have dp: "dr_page ?d = ?p" "dr_tx ?d = t" "dr_file ?d = fn" "dr_layout ?d = lay" by simp_all
  have inv: "pool_inv s" by (rule bt_page_inv [OF b])
  obtain s1 where s1: "bp_getExtra2 ?p s = (Inr lm, s1)" "bt_page ?p s1 D level lm" "locks_only t s s1"
    using bt_page_header(3) [OF b] by auto
  obtain s2 where s2: "bp_getExtra1 ?p s1 = (Inr level, s2)" "bt_page ?p s2 D level lm" "locks_only t s1 s2"
    using bt_page_header(2) [OF s1(2)] by auto
  obtain s3 where s3: "bp_getNumRecs ?p s2 = (Inr (int (length D)), s3)" "bt_page ?p s3 D level lm" "locks_only t s2 s3"
    using bt_page_header(1) [OF s2(2)] by auto
  have l3: "locks_only t s s3" by (rule locks_only_trans [OF s1(3) locks_only_trans [OF s2(3) s3(3)]])
  note sp3 = spares_locks [OF l3]
  have same: "nblocks s3 n = nblocks s n" "blockSize s3 = blockSize s" "own_buffers s3 t = own_buffers s t" for n
    using locks_only_same(4,6) [OF l3] sp3 by (simp_all add: spares_def)
  have home: "bt_home ?p s3" using bt_page_stored [OF s3(2)] by (simp add: bt_stored_def)
  have may3: "may_split ?p s3" using may locks_only_lock(1) [OF l3] by (simp add: may_split_def same)
  have r3: "pool_inv s3" "pins_are s3 (bp_tx ?p) ?pins" "length ?pins < card (own_buffers s3 (bp_tx ?p))"
    using inv pi room same(3) locks_only_same [OF l3] pins_are_cong(1) [of s3 t s] by simp_all
  obtain s4 s5 where raw: "tx_Append (bp_tx ?p) (File (bp_block ?p)) s3 = (Inr (bp_block (next_page ?p s3)), s4)"
    "newBTreePage (bp_tx ?p) (bp_block (next_page ?p s3)) (bp_layout ?p) s4 = (Inr (next_page ?p s3), s5)" "pool_inv s5"
    "pins_are s5 (bp_tx ?p) (bp_block (next_page ?p s3) # ?pins)" "spares (bp_tx ?p) {bp_block (next_page ?p s3)} s3 s5"
    "bt_page (next_page ?p s3) s5 [] 0 0"
    by (rule next_page_opened [OF home may3 r3]) blast
  have s5: "tx_Append t fn s3 = (Inr (NewBlockId fn ?m), s4)" "newBTreePage t (NewBlockId fn ?m) lay s4 = (Inr ?q, s5)" "pool_inv s5"
    "pins_are s5 t (NewBlockId fn ?m # ?pins)" "spares t {NewBlockId fn ?m} s3 s5" "bt_page ?q s5 [] 0 0"
    using raw by (simp_all add: same)
  have km: "k < ?m" using home by (simp add: bt_home_def in_file_def same)
  have pq: "mates ?p ?q" using km by (simp add: mates_def)
  have st5: "bt_stored ?p s5 D level lm" by (rule spares_stored [OF s5(5) _ _ bt_page_stored [OF s3(2)]]) (use km in simp_all)
  have p5: "bt_page ?p s5 D level lm" by (rule bt_stored_page [OF st5 s5(3), of "NewBlockId fn ?m # ?pins"]) (use s5(4) in simp_all)
  have r: "int32_range level" "int32_range lm" "int32_range ?m" using bt_page_ranges [OF b] may by (simp_all add: may_split_def)
  obtain s6 where s6: "bp_format ?q s5 = (Inr (), s6)" "touches ?q s5 s6" "bt_page ?q s6 [] (- 1) (- 1)" using bp_format_empty [OF s5(6)] by blast
  obtain s7 where s7: "bp_setExtra1 ?q level s6 = (Inr (), s7)" "touches ?q s6 s7" "bt_page ?q s7 [] level (- 1)" using bt_page_extra(1) [OF s6(3) r(1)] by blast
  obtain s8 where s8: "bp_setExtra2 ?q lm s7 = (Inr (), s8)" "touches ?q s7 s8" "bt_page ?q s8 [] level lm" using bt_page_extra(2) [OF s7(3) r(2)] by blast
  have t8: "touches ?q s5 s8" by (rule touches_trans [OF s6(2) touches_trans [OF s7(2) s8(2)]])
  have p8: "bt_page ?p s8 ([] @ D) level lm" using mates_page [OF mates_sym [OF pq] t8 p5] by simp
  have bs8: "blockSize s8 = blockSize s" using t8 s5(5) same(2) by (simp add: touches_def spares_def)
  have "length [] + length D \<le> bt_cap ?q (blockSize s8)" using bt_page_size [OF b] bs8 by (simp add: bt_cap_def)
  from copy_loop [OF pq p8 s8(3) this]
  obtain s9 where s9: "for_each [0..int (length D) - 1] (\<lambda>i. bnd (bp_insert ?q i) (\<lambda>_. bp_transferTo ?p i ?q i)) s8 = (Inr (), s9)"
    "works t {NewBlockId fn ?m} s8 s9" "bt_page ?p s9 D level lm" "bt_page ?q s9 D level lm" by auto
  have w9: "works t {NewBlockId fn ?m} s5 s9" using works_trans [OF _ s9(2), of "{NewBlockId fn ?m}"] works_touches [OF t8] by simp
  have r9: "pool_inv s9" "pins_are s9 (bp_tx ?q) (bp_block ?q # ?pins)" using w9 s5(3,4) by (simp_all add: works_def)
  obtain s10 where s10: "bp_close ?q s9 = (Inr (), s10)" "pool_inv s10" "pins_are s10 t ?pins" "spares t {} s9 s10"
    using bp_close_spec [OF r9] by auto
  have st10: "bt_stored ?p s10 D level lm" "bt_stored ?q s10 D level lm"
    using spares_stored [OF s10(4) _ _ bt_page_stored [OF s9(3)]] spares_stored [OF s10(4) _ _ bt_page_stored [OF s9(4)]] by simp_all
  have p10: "bt_page ?p s10 D level lm" by (rule bt_stored_page [OF st10(1) s10(2), of ?pins]) (use s10(3) in simp_all)
  have sp10: "spares t {NewBlockId fn ?m} s s10"
    using spares_trans [OF sp3 spares_trans [OF s5(5) spares_trans [OF _ s10(4)]]] w9 by (fastforce simp: works_def)
  have bs10: "blockSize s10 = blockSize s" using sp10 by (simp add: spares_def)
  have "length D < n" using bt_page_size [OF b] n by simp
  from clear_loop [OF p10 this] obtain s11 where s11: "dr_clear n ?p s10 = (Inr (), s11)" "touches ?p s10 s11" "bt_page ?p s11 [] level lm" by blast
  obtain s12 where s12: "bp_setExtra1 ?p (level + 1) s11 = (Inr (), s12)" "touches ?p s11 s12" "bt_page ?p s12 [] (level + 1) lm"
    using bt_page_extra(1) [OF s11(3) lr] by blast
  obtain s13 where s13: "bp_setExtra2 ?p ?m s12 = (Inr (), s13)" "touches ?p s12 s13" "bt_page ?p s13 [] (level + 1) ?m"
    using bt_page_extra(2) [OF s12(3) r(3)] by blast
  have t13: "touches ?p s10 s13" by (rule touches_trans [OF s11(2) touches_trans [OF s12(2) s13(2)]])
  have "bt_page ?p s13 ([] @ []) (level + 1) ?m" "length ([] @ []) < bt_cap ?p (blockSize s13)" using s13(3) cap t13 bs10 by (simp_all add: touches_def)
  from page_put [OF this(1) t this(2)]
  obtain s14 s15 s16 where s16: "bp_insert ?p 0 s13 = (Inr (), s14)" "bp_setDataVal ?p 0 (Some key) s14 = (Inr (), s15)"
    "bp_setBlockField ?p 0 blk s15 = (Inr (), s16)" "touches ?p s13 s16" "bt_page ?p s16 [dir_ent key blk] (level + 1) ?m" by auto
  have t16: "touches ?p s10 s16" by (rule touches_trans [OF t13 s16(4)])
  have fill: "closing (bnd (bp_format ?q) (\<lambda>_. bnd (bp_setExtra1 ?q level) (\<lambda>_. bnd (bp_setExtra2 ?q lm) (\<lambda>_.
      for_each [0..int (length D) - 1] (\<lambda>i. bnd (bp_insert ?q i) (\<lambda>_. bp_transferTo ?p i ?q i)))))) (bp_close ?q) s5 = (Inr (), s10)"
    by (rule closing_run [where ?s1.0 = s9]) (simp_all only: bnd_def s6(1) s7(1) s8(1) s9(1) s10(1) sum.case prod.case)
  have "dr_makeNewRoot n ?d (Some key, blk) s = (Inr (), s16)"
    unfolding dr_makeNewRoot_def
    by (simp only: bnd_def dp fst_conv snd_conv s1(1) s2(1) s3(1) s5(1,2) fill s11(1) s12(1) s13(1) s16(1-3) new_block sum.case prod.case)
  moreover have "spares t {NewBlockId fn k, NewBlockId fn ?m} s s16"
    using spares_trans [OF sp10, of "{NewBlockId fn k}" s16] spares_touches [OF t16] by (simp add: insert_commute)
  moreover have "bt_stored ?q s16 D level lm" by (rule spares_stored [OF spares_touches [OF t16] _ _ st10(2)]) (use km in simp_all)
  moreover have "pool_inv s16" "pins_are s16 t ?pins" using t16 s10(2,3) by (simp_all add: touches_def)
  ultimately show thesis using that bt_page_stored [OF s16(5)] by blast
qed

lemma dr_makeNewRoot_tree:
  assumes tr: "dir_tree t fn lay s (Suc h) k lm es1 N1" "dir_tree t fn lay s (Suc h) nk lm2 es2 N2" and dN: "distinct (N1 @ N2)"
    and t: "dir_takes (leaf_at t fn lay k) v nk" and inv: "pool_inv s" and pi: "pins_are s t (NewBlockId fn k # bs)"
    and room: "Suc (length bs) < card (own_buffers s t)" and grow: "may_grow t fn s 1" and lr: "int32_range (int (Suc h))"
    and cap: "0 < bt_cap (leaf_at t fn lay 0) (blockSize s)" and n: "bt_cap (leaf_at t fn lay 0) (blockSize s) < n"
  obtains s' N where "dr_makeNewRoot n (dir_at t fn lay k) (Some v, nk) s = (Inr (), s')" and "pool_inv s'" and "pins_are s' t (NewBlockId fn k # bs)"
    and "spares t {NewBlockId fn k, NewBlockId fn (nblocks s fn)} s s'"
    and "dir_tree t fn lay s' (Suc (Suc h)) k lm (es1 @ (v, lm2) # es2) N" and "distinct N"
proof -
  let ?m = "nblocks s fn" and ?p = "leaf_at t fn lay k"
  obtain D c0 N' where h: "bt_stored ?p s D (int h) c0" "kids0 (dir_tree t fn lay s h) c0 lm D es1 N'" "N1 = k # N'" using tr(1) by auto
  have b: "bt_page ?p s D (int h) c0" by (rule bt_stored_page [OF h(1) inv, of "NewBlockId fn k # bs"]) (use pi in simp_all)
  have inf: "set N1 \<subseteq> {0..<?m}" "set N2 \<subseteq> {0..<?m}" by (rule dir_tree_in_file [OF tr(1)], rule dir_tree_in_file [OF tr(2)])
  have m0: "0 \<le> ?m" using inf(1) h(3) by auto
  have c: "bt_cap ?p = bt_cap (leaf_at t fn lay 0)" by (rule ext) (simp add: bt_cap_def)
  have lr': "int32_range (int h + 1)" using lr by (simp add: add.commute)
  obtain s' where s': "dr_makeNewRoot n (dir_at t fn lay k) (Some v, nk) s = (Inr (), s')" "pool_inv s'" "pins_are s' t (NewBlockId fn k # bs)"
    "spares t {NewBlockId fn k, NewBlockId fn ?m} s s'" "bt_stored ?p s' [dir_ent v nk] (int h + 1) ?m"
    "bt_stored (leaf_at t fn lay ?m) s' D (int h) c0"
    by (rule dr_makeNewRoot_page [OF b t pi room may_grow_split [OF grow m0] lr' cap [folded c] n [folded c]])
  have sub: "set N' \<union> set N2 \<subseteq> {0..<?m} - {k}" using dN inf h(3) by auto
  have keep: "dir_tree t fn lay s' g c l x K" if "dir_tree t fn lay s g c l x K" "set K \<subseteq> set N' \<union> set N2" for g c l x K
    by (rule dir_tree_spares [OF s'(4) that(1)]) (use subset_trans [OF that(2) sub] in auto)
  have "kids0 (dir_tree t fn lay s' h) c0 lm D es1 N'" by (rule kids0_mono [OF h(2)]) (use keep in blast)
  then have old: "dir_tree t fn lay s' (Suc h) ?m lm es1 (?m # N')" using s'(6) unfolding dir_tree.simps by blast
  have right: "dir_tree t fn lay s' (Suc h) nk lm2 es2 N2" by (rule keep [OF tr(2)]) simp
  have "kids (dir_tree t fn lay s' (Suc h)) [dir_ent v nk] ((v, lm2) # es2) N2"
    using kids_ent [where P = "dir_tree t fn lay s' (Suc h)" and D = "[]" and es = "[]" and N = "[]", OF right] by simp
  from kids0I [where P = "dir_tree t fn lay s' (Suc h)", OF old this]
  have "dir_tree t fn lay s' (Suc (Suc h)) k lm (es1 @ (v, lm2) # es2) (k # (?m # N') @ N2)"
    using s'(5) unfolding dir_tree.simps(2) [of t fn lay s' "Suc h"] by (auto simp: add.commute)
  moreover have "distinct (k # (?m # N') @ N2)" using dN inf h(3) by auto
  ultimately show thesis using that s'(1-4) by blast
qed

end
