(* ===== verification/IndexTree.thy ===== *)
theory IndexTree
  imports DirInsert
begin

text \<open>
  \<^verbatim>\<open>index/btree/index.go\<close>: the whole index as one sorted list of entries.

  \<open>btree ix s h T\<close>: the root of the index \<open>ix\<close> leads, over \<open>h + 1\<close> levels of directory pages, to the leaves listed
  in \<open>T\<close>, each with the separator in front of it and its entries. Read from left to right the separators and the keys
  are strictly sorted. A search is \<open>filter\<close> on the entries of \<open>T\<close>, and an insertion is \<open>leaf_put\<close>, whatever splits.
\<close>

section \<open>Leaves and separators in one list\<close>

type_synonym seg = "val option \<times> int \<times> entry list"

definition seg_sep :: "seg \<Rightarrow> sep list" where
  "seg_sep x = (case x of (None, k, L) \<Rightarrow> [] | (Some v, k, L) \<Rightarrow> [(v, k)])"

definition seg_marks :: "seg \<Rightarrow> (val \<times> bool) list" where
  "seg_marks x = (case x of (v, k, L) \<Rightarrow> (case v of None \<Rightarrow> [] | Some u \<Rightarrow> [(u, False)]) @ map (\<lambda>e. (bt_key e, True)) L)"

definition seps :: "seg list \<Rightarrow> sep list" where
  "seps T = concat (map seg_sep T)"

definition marks :: "seg list \<Rightarrow> (val \<times> bool) list" where
  "marks T = concat (map seg_marks T)"

abbreviation leaves :: "seg list \<Rightarrow> (int \<times> entry list) list" where
  "leaves T \<equiv> map snd T"

abbreviation all_entries :: "seg list \<Rightarrow> entry list" where
  "all_entries T \<equiv> chain_entries (leaves T)"

lemma seps_simps [simp]: "seps [] = []" "seps (x # T) = seg_sep x @ seps T" "seps (T @ U) = seps T @ seps U"
  by (simp_all add: seps_def)

lemma marks_simps [simp]: "marks [] = []" "marks (x # T) = seg_marks x @ marks T" "marks (T @ U) = marks T @ marks U"
  by (simp_all add: marks_def)

lemma chain_entries_append [simp]: "chain_entries (C @ D) = chain_entries C @ chain_entries D"
  by (simp add: chain_entries_def)

text \<open>A separator is in front of the entries with the same key.\<close>

definition mlt :: "val \<times> bool \<Rightarrow> val \<times> bool \<Rightarrow> bool" where
  "mlt m n \<longleftrightarrow> vcmp (fst m) (fst n) < 0 \<or> vcmp (fst m) (fst n) = 0 \<and> \<not> snd m \<and> snd n"

definition mtyped :: "val \<Rightarrow> seg list \<Rightarrow> bool" where
  "mtyped key T \<longleftrightarrow> (\<forall>m \<in> set (marks T). val_type (fst m) = val_type key)"

definition msorted :: "seg list \<Rightarrow> bool" where
  "msorted T \<longleftrightarrow> sorted_wrt mlt (marks T)"

lemma mlt_simps [simp]: "mlt (a, True) n \<longleftrightarrow> vcmp a (fst n) < 0" "mlt m (b, False) \<longleftrightarrow> vcmp (fst m) b < 0"
  "mlt (a, False) (b, True) \<longleftrightarrow> vcmp a b \<le> 0"
  by (auto simp: mlt_def)

lemma mlt_le: "mlt m n \<Longrightarrow> vcmp (fst m) (fst n) \<le> 0"
  by (auto simp: mlt_def)

lemma seg_sep_marks: "x \<in> set (seg_sep y) \<Longrightarrow> (fst x, False) \<in> set (seg_marks y)"
  by (auto simp: seg_sep_def seg_marks_def split: prod.splits option.splits)

lemma seg_marks_entry: "e \<in> set L \<Longrightarrow> (bt_key e, True) \<in> set (seg_marks (v, k, L))"
  by (simp add: seg_marks_def)

lemma seps_marks: "x \<in> set (seps T) \<Longrightarrow> (fst x, False) \<in> set (marks T)"
  by (induction T) (auto dest: seg_sep_marks)

lemma entries_marks: "e \<in> set (all_entries T) \<Longrightarrow> (bt_key e, True) \<in> set (marks T)"
  by (induction T) (auto simp: seg_marks_def)

lemma sep_sorted_seps: "msorted T \<Longrightarrow> mtyped key T \<Longrightarrow> sep_sorted key (seps T)"
proof (induction T)
  case Nil
  then show ?case by (simp add: sep_sorted_def)
next
  case (Cons x T)
  have so: "sorted_wrt mlt (seg_marks x)" "\<forall>m \<in> set (seg_marks x). \<forall>n \<in> set (marks T). mlt m n" "msorted T"
    using Cons.prems(1) by (simp_all add: msorted_def sorted_wrt_append)
  have ty: "mtyped key T" "\<forall>m \<in> set (seg_marks x). val_type (fst m) = val_type key" using Cons.prems(2) by (auto simp: mtyped_def)
  have "sorted_wrt R (seg_sep x)" for R by (simp add: seg_sep_def split: prod.splits option.splits)
  moreover have "val_type (fst y) = val_type key" if "y \<in> set (seg_sep x)" for y using ty(2) seg_sep_marks [OF that] by fastforce
  ultimately have "sep_sorted key (seg_sep x)" by (simp add: sep_sorted_def)
  moreover have "vcmp (fst a) (fst b) < 0" if "a \<in> set (seg_sep x)" "b \<in> set (seps T)" for a b
    using so(2) seg_sep_marks [OF that(1)] seps_marks [OF that(2)] by fastforce
  ultimately show ?case using Cons.IH [OF so(3) ty(1)] by (simp add: sep_sorted_append)
qed

lemma keyed_entries: "msorted T \<Longrightarrow> mtyped key T \<Longrightarrow> keyed key (all_entries T)"
proof (induction T)
  case Nil
  then show ?case by (simp add: keyed_def bt_sorted_def)
next
  case (Cons x T)
  obtain v k L where x: "x = (v, k, L)" by (cases x)
  have so: "sorted_wrt mlt (map (\<lambda>e. (bt_key e, True)) L)" "\<forall>e \<in> set L. \<forall>n \<in> set (marks T). mlt (bt_key e, True) n" "msorted T"
    using Cons.prems(1) by (auto simp: msorted_def sorted_wrt_append seg_marks_def x)
  have "mtyped key T" using Cons.prems(2) by (auto simp: mtyped_def)
  moreover have "val_type (bt_key e) = val_type key" if "e \<in> set L" for e
  proof -
    have "(bt_key e, True) \<in> set (marks (x # T))" using seg_marks_entry [OF that, of v k] by (simp add: x)
    then have "val_type (fst (bt_key e, True)) = val_type key" using Cons.prems(2) unfolding mtyped_def by blast
    then show ?thesis by simp
  qed
  ultimately have ty: "mtyped key T" "\<forall>e \<in> set L. val_type (bt_key e) = val_type key" by simp_all
  have "bt_sorted L" using so(1) unfolding bt_sorted_def sorted_wrt_map by (rule sorted_wrt_mono_rel [rotated]) simp
  moreover have "vcmp (bt_key a) (bt_key b) \<le> 0" if "a \<in> set L" "b \<in> set (all_entries T)" for a b
    using so(2) that(1) entries_marks [OF that(2)] by fastforce
  ultimately show ?case using Cons.IH [OF so(3) ty(1)] ty(2) by (auto simp: keyed_def bt_sorted_append x)
qed

section \<open>The place of a key\<close>

definition seg_le :: "val \<Rightarrow> seg \<Rightarrow> bool" where
  "seg_le key x \<longleftrightarrow> (case fst x of None \<Rightarrow> True | Some v \<Rightarrow> vcmp v key \<le> 0)"

text \<open>Only the first leaf has no separator.\<close>

definition segs_wf :: "seg list \<Rightarrow> bool" where
  "segs_wf T \<longleftrightarrow> T \<noteq> [] \<and> fst (hd T) = None \<and> (\<forall>x \<in> set (tl T). fst x \<noteq> None)"

lemma place:
  assumes wf: "segs_wf T" and so: "msorted T" and ty: "mtyped key T"
  obtains T1 v k L T2 where "T = T1 @ (v, k, L) # T2" and "\<forall>m \<in> set (marks T1). vcmp (fst m) key \<le> 0 \<and> (snd m \<longrightarrow> vcmp (fst m) key < 0)"
    and "\<forall>u. v = Some u \<longrightarrow> vcmp u key \<le> 0" and "\<forall>m \<in> set (marks T2). vcmp key (fst m) < 0" and "T1 \<noteq> [] \<longrightarrow> v \<noteq> None"
    and "\<forall>x \<in> set T2. fst x \<noteq> None" and "T1 \<noteq> [] \<longrightarrow> segs_wf T1" and "T1 = [] \<longrightarrow> v = None"
proof -
  let ?A = "takeWhile (seg_le key) T"
  obtain x0 T0 where T: "T = x0 # T0" "fst x0 = None" "\<forall>x \<in> set T0. fst x \<noteq> None" using wf by (cases T) (auto simp: segs_wf_def)
  have "?A \<noteq> []" using T(2) by (simp add: T(1) seg_le_def)
  then obtain T1 x where A: "?A = T1 @ [x]" by (metis rev_exhaust)
  obtain v k L where x: "x = (v, k, L)" by (cases x)
  have "T = T1 @ (v, k, L) # dropWhile (seg_le key) T" using takeWhile_dropWhile_id [of "seg_le key" T] unfolding A x by simp
  then obtain B where split: "T = T1 @ (v, k, L) # B" and hB: "B = [] \<or> \<not> seg_le key (hd B)" using hd_rest by blast
  have le: "seg_le key x" using A by (metis last_in_set last_snoc set_takeWhileD snoc_eq_iff_butlast)
  have head: "T1 \<noteq> [] \<longrightarrow> v \<noteq> None \<and> segs_wf T1" "T1 = [] \<longrightarrow> v = None" "\<forall>x \<in> set B. fst x \<noteq> None"
    using split T by (cases T1; auto simp: segs_wf_def)+
  have mso: "sorted_wrt mlt (marks T1 @ seg_marks (v, k, L) @ marks B)" using so arg_cong [OF split, of marks] by (simp add: msorted_def)
  have mty: "val_type (fst m) = val_type key" if "m \<in> set (marks T1 @ seg_marks (v, k, L) @ marks B)" for m
    using ty that arg_cong [OF split, of marks] by (simp add: mtyped_def)
  have low: "vcmp (fst m) key \<le> 0 \<and> (snd m \<longrightarrow> vcmp (fst m) key < 0)" if m: "m \<in> set (marks T1)" for m
  proof -
    have "T1 \<noteq> []" using m by auto
    then obtain u where u: "v = Some u" using head(1) by auto
    have in': "(u, False) \<in> set (seg_marks (v, k, L))" by (simp add: u seg_marks_def)
    moreover have "\<forall>a \<in> set (marks T1). \<forall>b \<in> set (seg_marks (v, k, L)). mlt a b" using mso by (simp add: sorted_wrt_append)
    ultimately have "mlt m (u, False)" using m by blast
    then have lt: "vcmp (fst m) u < 0" by simp
    have "vcmp u key \<le> 0" using le by (simp add: seg_le_def x u)
    moreover have "val_type (fst m) = val_type u" "val_type u = val_type key" using mty [of m] mty [of "(u, False)"] m in' by auto
    ultimately show ?thesis using vcmp_less_trans [OF _ _ lt] by (simp add: less_imp_le)
  qed
  have high: "vcmp key (fst m) < 0" if m: "m \<in> set (marks B)" for m
  proof -
    obtain y B' where B: "B = y # B'" using m by (cases B) auto
    have "\<not> seg_le key y" using B hB by simp
    then obtain w kw Lw where y: "y = (Some w, kw, Lw)" "\<not> vcmp w key \<le> 0" by (cases y) (auto simp: seg_le_def split: option.splits)
    have ms: "marks B = (w, False) # (map (\<lambda>e. (bt_key e, True)) Lw @ marks B')" by (simp add: B y(1) seg_marks_def)
    have tw: "val_type w = val_type key" using mty [of "(w, False)"] by (simp add: ms)
    have lt: "vcmp key w < 0" using y(2) vcmp_swap [OF tw [symmetric]] by simp
    show ?thesis
    proof (cases "m = (w, False)")
      case False
      then have "mlt (w, False) m" using mso m unfolding ms by (auto simp: sorted_wrt_append)
      then have "vcmp w (fst m) \<le> 0" using mlt_le by fastforce
      moreover have "val_type w = val_type (fst m)" using tw mty [of m] m by simp
      ultimately show ?thesis using vcmp_less_trans [OF tw [symmetric] _ lt] by blast
    qed (use lt in simp)
  qed
  show thesis
    by (rule that [OF split]) (use low high head le in \<open>auto simp: seg_le_def x\<close>)
qed

lemma route_place:
  assumes "\<forall>m \<in> set (marks T1). vcmp (fst m) key \<le> 0" and "\<forall>u. v = Some u \<longrightarrow> vcmp u key \<le> 0" and "\<forall>m \<in> set (marks T2). vcmp key (fst m) < 0"
    and "T1 = [] \<longrightarrow> v = None" and "T1 \<noteq> [] \<longrightarrow> v \<noteq> None" and ty: "mtyped key T2"
  shows "route key (fst (snd (hd (T1 @ (v, k, L) # T2)))) (seps (T1 @ (v, k, L) # T2)) = k"
    and "\<forall>x \<in> set (seps (T1 @ [(v, k, L)])). le_key key x" and "\<forall>y \<in> set (seps T2). \<not> le_key key y"
proof -
  show le: "\<forall>x \<in> set (seps (T1 @ [(v, k, L)])). le_key key x"
    using assms(1,2) seps_marks by (fastforce simp: seg_sep_def split: option.splits)
  show gt: "\<forall>y \<in> set (seps T2). \<not> le_key key y"
  proof
    fix y
    assume "y \<in> set (seps T2)"
    from seps_marks [OF this] have "(fst y, False) \<in> set (marks T2)" .
    then have "vcmp key (fst y) < 0" "val_type key = val_type (fst y)" using assms(3) ty by (fastforce simp: mtyped_def)+
    then show "\<not> le_key key y" using vcmp_swap by blast
  qed
  show "route key (fst (snd (hd (T1 @ (v, k, L) # T2)))) (seps (T1 @ (v, k, L) # T2)) = k"
  proof (cases v)
    case None
    then show ?thesis using assms(5) route_above [OF gt] by (simp add: seg_sep_def)
  next
    case (Some u)
    then show ?thesis using assms(2) route_above [OF gt] by (simp add: seg_sep_def route_append)
  qed
qed

section \<open>The tree\<close>

text \<open>The layouts that \<open>NewIndex\<close> uses: the directory has the key and the block of the leaves' layout.\<close>

definition tree_layouts :: "btree_index \<Rightarrow> bool" where
  "tree_layouts ix \<longleftrightarrow> (let L = lay_schema (bi_leafLayout ix); D = lay_schema (bi_dirLayout ix) in
     set (sch_fields L) = {BlockField, IDField, DataValueField} \<and> schema_Type L BlockField = Integer \<and> schema_Type L IDField = Integer \<and>
     set (sch_fields D) = {DataValueField, BlockField} \<and> schema_Type D BlockField = Integer \<and>
     schema_Type D DataValueField = schema_Type L DataValueField \<and> size_of D DataValueField = size_of L DataValueField)"

abbreviation key_type :: "btree_index \<Rightarrow> SchemaType" where
  "key_type ix \<equiv> schema_Type (lay_schema (bi_leafLayout ix)) DataValueField"

abbreviation ix_dir :: "btree_index \<Rightarrow> 'z world_scheme \<Rightarrow> nat \<Rightarrow> int \<Rightarrow> int \<Rightarrow> sep list \<Rightarrow> int list \<Rightarrow> bool" where
  "ix_dir ix \<equiv> dir_tree (bi_tx ix) (dirFile (bi_name ix)) (bi_dirLayout ix)"

abbreviation ix_chain :: "btree_index \<Rightarrow> 'z world_scheme \<Rightarrow> (int \<times> entry list) list \<Rightarrow> bool" where
  "ix_chain ix \<equiv> leaf_chain (bi_tx ix) (leafFile (bi_name ix)) (bi_leafLayout ix)"

definition btree :: "btree_index \<Rightarrow> 'z world_scheme \<Rightarrow> nat \<Rightarrow> seg list \<Rightarrow> bool" where
  "btree ix s h T \<longleftrightarrow> segs_wf T \<and> tree_layouts ix \<and> bi_root ix = NewBlockId (dirFile (bi_name ix)) 0 \<and>
     (\<exists>N. ix_dir ix s (Suc h) 0 (fst (snd (hd T))) (seps T) N \<and> distinct N) \<and> ix_chain ix s (leaves T) \<and>
     distinct (map fst (leaves T)) \<and> msorted T \<and> (\<forall>m \<in> set (marks T). val_type (fst m) = key_type ix)"

lemma tree_layouts_leaf: "tree_layouts ix \<Longrightarrow> val_type key = key_type ix \<Longrightarrow> leaf_layout (bi_leafLayout ix) key"
  by (simp add: tree_layouts_def leaf_layout_def Let_def)

lemma tree_layouts_dir: "tree_layouts ix \<Longrightarrow> val_type key = key_type ix \<Longrightarrow> dir_layout (bi_dirLayout ix) key"
  by (simp add: tree_layouts_def dir_layout_def Let_def)

lemma chain_tail: "leaf_chain t fn lay s (P @ C) \<Longrightarrow> leaf_chain t fn lay s C"
  by (induction P) auto

lemma chain_in_file: "leaf_chain t fn lay s C \<Longrightarrow> x \<in> set C \<Longrightarrow> 0 \<le> fst x \<and> fst x < nblocks s fn"
  by (induction C) (auto simp: bt_stored_def bt_home_def in_file_def)

text \<open>New pages in the place of a leaf.\<close>

lemma chain_replace:
  assumes "spares t B s s'" and "leaf_chain t fn lay s' ((k, A) # R')"
  shows "leaf_chain t fn lay s (P @ (k, L) # R) \<Longrightarrow> \<forall>j \<in> fst ` set P. NewBlockId fn j \<notin> B \<Longrightarrow> leaf_chain t fn lay s' (P @ (k, A) # R')"
proof (induction P)
  case Nil
  then show ?case using assms(2) by simp
next
  case (Cons x P)
  obtain j M where x: "x = (j, M)" by (cases x)
  obtain nx x2 where st: "bt_stored (leaf_at t fn lay j) s M nx x2" "case P @ (k, L) # R of [] \<Rightarrow> nx < 0 | (k', L') # C' \<Rightarrow> nx = k'"
    using Cons.prems(1) x by auto
  have "bt_stored (leaf_at t fn lay j) s' M nx x2" by (rule spares_stored [OF assms(1) _ _ st(1)]) (use Cons.prems(2) x in simp_all)
  moreover have "case P @ (k, A) # R' of [] \<Rightarrow> nx < 0 | (k', L') # C' \<Rightarrow> nx = k'" using st(2) by (cases P) auto
  ultimately show ?case using Cons.IH Cons.prems unfolding x append_Cons leaf_chain.simps by auto
qed

lemma btree_leads:
  assumes bt: "btree ix s h T" and ty: "val_type key = key_type ix"
  obtains T1 v k L T2 where "T = T1 @ (v, k, L) # T2" and "index_leads ix h s key ((k, L) # leaves T2)"
    and "\<forall>m \<in> set (marks T1). mlt m (key, True)" and "\<forall>u. v = Some u \<longrightarrow> vcmp u key \<le> 0"
    and "\<forall>m \<in> set (marks T2). vcmp key (fst m) < 0"
    and "\<forall>e \<in> set (all_entries T1). \<not> has_key key e"
proof -
  have wf: "segs_wf T" "msorted T" "mtyped key T" using bt ty by (simp_all add: btree_def mtyped_def)
  obtain T1 v k L T2 where p: "T = T1 @ (v, k, L) # T2" "\<forall>m \<in> set (marks T1). vcmp (fst m) key \<le> 0 \<and> (snd m \<longrightarrow> vcmp (fst m) key < 0)"
    "\<forall>u. v = Some u \<longrightarrow> vcmp u key \<le> 0" "\<forall>m \<in> set (marks T2). vcmp key (fst m) < 0" "T1 \<noteq> [] \<longrightarrow> v \<noteq> None" "T1 = [] \<longrightarrow> v = None"
    by (rule place [OF wf]) blast
  have ty2: "mtyped key T2" using wf(3) unfolding p(1) by (simp add: mtyped_def)
  have le: "\<forall>m \<in> set (marks T1). vcmp (fst m) key \<le> 0" using p(2) by blast
  have r: "route key (fst (snd (hd T))) (seps T) = k" unfolding p(1) by (rule route_place(1) [OF le p(3,4,6,5) ty2])
  obtain N where tr: "ix_dir ix s (Suc h) 0 (fst (snd (hd T))) (seps T) N" using bt unfolding btree_def by blast
  have "dir_leads h (bi_tx ix) (dirFile (bi_name ix)) (bi_dirLayout ix) s key 0 k"
    using dir_tree_leads [OF tr sep_sorted_seps [OF wf(2,3)]] unfolding r .
  moreover have "ix_chain ix s ((k, L) # leaves T2)"
    using bt chain_tail [of _ _ _ s "leaves T1" "(k, L) # leaves T2"] unfolding btree_def p(1) by simp
  moreover have "keyed key (chain_entries ((k, L) # leaves T2))"
    using keyed_tail [of key "all_entries T1"] keyed_entries [OF wf(2,3)] unfolding p(1) by simp
  moreover have lay: "tree_layouts ix" "bi_root ix = NewBlockId (dirFile (bi_name ix)) 0" using bt unfolding btree_def by blast+
  ultimately have "index_leads ix h s key ((k, L) # leaves T2)"
    using tree_layouts_leaf [OF lay(1) ty] tree_layouts_dir [OF lay(1) ty] by (simp only: index_leads_def list.sel fst_conv) simp
  moreover have "\<not> has_key key e" if "e \<in> set (all_entries T1)" for e
    using p(2) entries_marks [OF that] by (fastforce simp: has_key_def)
  moreover have "\<forall>m \<in> set (marks T1). mlt m (key, True)" using p(2) by (auto simp: mlt_def less_le)
  ultimately show thesis using that p(1,3,4) by blast
qed

section \<open>An insertion that splits the leaf\<close>

text \<open>\<open>Close\<close> gives back the pin of the page the leaf ends up with.\<close>

lemma lf_close_page:
  assumes "lf_page l = Some p" and "pool_inv s" and "pins_are s (bp_tx p) (bp_block p # bs)"
  obtains s' where "lf_close (l, s) = (Inr (), (l\<lparr>lf_page := None\<rparr>, s'))" and "pool_inv s'" and "pins_are s' (bp_tx p) bs"
    and "spares (bp_tx p) {} s s'"
proof -
  obtain s' where s': "bp_close p s = (Inr (), s')" "pool_inv s'" "pins_are s' (bp_tx p) bs" "spares (bp_tx p) {} s s'"
    by (rule bp_close_spec [OF assms(2,3)]) blast
  show thesis
    by (rule that [of s']) (use s' assms(1) in \<open>simp_all add: lf_close_def obj_gets_def obj_upd_def on_state_def bnd_def go_unfold\<close>)
qed

text \<open>The leaf's part: the separator and the new block for the directory, and the two halves.\<close>

lemma leaf_split_run:
  assumes ch: "leaf_chain t fn lay s ((k, L) # C)" and kC: "k \<notin> fst ` set C" and lay: "leaf_layout lay key"
    and tk: "leaf_takes (leaf_at t fn lay k) key rid" and so: "bt_sorted L"
    and full: "bt_cap (leaf_at t fn lay k) (blockSize s) = length L" "2 \<le> length L" and inv: "pool_inv s" and pi: "pins_are s t bs"
    and room: "Suc (length bs) < card (own_buffers s t)" and grow: "may_grow t fn s 1" and D: "drop (length L div 2) L = e # B"
  obtains l s1 s' A' B' where "newBTreeLeaf t (NewBlockId fn k) lay (Some key) s = (Inr l, s1)"
    and "run_local l (closing (lf_insert (Some key) rid) lf_close) s1 = (Inr (Some (Some (bt_key e), nblocks s fn)), s')"
    and "pool_inv s'" and "pins_are s' t bs" and "spares t {NewBlockId fn k, NewBlockId fn (nblocks s fn)} s s'"
    and "leaf_chain t fn lay s' ((k, A') # (nblocks s fn, B') # C)"
    and "A' = (if vcmp key (bt_key e) < 0 then leaf_put key rid (take (length L div 2) L) else take (length L div 2) L)"
    and "B' = (if vcmp key (bt_key e) < 0 then e # B else leaf_put key rid (e # B))"
proof -
  let ?p = "leaf_at t fn lay k" and ?m = "nblocks s fn"
  have rm: "length bs < card (own_buffers s t)" using room by simp
  obtain l s1 where l: "newBTreeLeaf t (NewBlockId fn k) lay (Some key) s = (Inr l, s1)" "walking t fn lay key bs l s1 ((k, L) # C)"
    "own_buffers s1 t = own_buffers s t" "spares t {} s s1"
    by (rule newBTreeLeaf_walks [OF ch lay inv pi rm])
  note w = walkingD [OF l(2)]
  obtain x1 x2 where b: "bt_page ?p s1 L x1 x2" "case C of [] \<Rightarrow> x1 < 0 | (k', L') # C' \<Rightarrow> x1 = k'" using w(11) by blast
  have fn: "fn \<noteq> logFile s" and m0: "0 \<le> ?m" using ch by (auto simp: bt_stored_def bt_home_def in_file_def)
  have m1: "nblocks s1 fn = ?m" by (rule spares_nblocks [OF l(4) fn m0])
  have "may_grow t fn s1 1" by (rule may_grow_later [of t fn s 0 1, OF _ l(4)]) (use grow m1 m0 in simp_all)
  from may_grow_split [OF this] have may: "may_split ?p s1" using m1 m0 by simp
  have "blockSize s1 = blockSize s" using l(4) by (simp add: spares_def)
  then have full1: "bt_cap ?p (blockSize s1) = length L" using full(1) by simp
  have pi1: "pins_are s1 (bp_tx ?p) (bp_block ?p # bs)" "Suc (length bs) < card (own_buffers s1 (bp_tx ?p))" using w(8) room l(3) by simp_all
  obtain s2 where s2: "lf_insert (Some key) rid (l, s1) = (Inr (Some (Some (bt_key e), ?m)), (leaf_after l (next_page ?p s1) key L, s2))"
    "pool_inv s2" "pins_are s2 t (bp_block (the (lf_page (leaf_after l (next_page ?p s1) key L))) # bs)"
    "spares t {NewBlockId fn k, NewBlockId fn ?m} s1 s2" "leaf_halves ?p (next_page ?p s1) key rid L s2 x1 x2"
    using lf_insert_full [OF w(6) b(1) tk so full1 full(2) pi1 may] unfolding D by (auto simp: m1)
  let ?l = "leaf_after l (next_page ?p s1) key L"
  obtain q where q: "lf_page ?l = Some q" "bp_tx q = t" 
    using w(1) unfolding leaf_after_def by (cases "vcmp key (bt_key (hd (drop (length L div 2) L))) < 0") auto
  have pq: "pins_are s2 (bp_tx q) (bp_block q # bs)" using s2(3) q by simp
  obtain s3 where s3: "lf_close (?l, s2) = (Inr (), (?l\<lparr>lf_page := None\<rparr>, s3))" "pool_inv s3" "pins_are s3 (bp_tx q) bs" "spares (bp_tx q) {} s2 s3"
    by (rule lf_close_page [OF q(1) s2(2) pq])
  have sp3: "spares t {} s2 s3" using s3(4) q(2) by simp
  define A' where "A' = (if vcmp key (bt_key e) < 0 then leaf_put key rid (take (length L div 2) L) else take (length L div 2) L)"
  define B' where "B' = (if vcmp key (bt_key e) < 0 then e # B else leaf_put key rid (e # B))"
  have st2: "bt_stored ?p s2 A' ?m x2" "bt_stored (leaf_at t fn lay ?m) s2 B' x1 (- 1)"
    using s2(5) unfolding leaf_halves_def Let_def D A'_def B'_def by (simp_all add: m1)
  have st3: "bt_stored ?p s3 A' ?m x2" "bt_stored (leaf_at t fn lay ?m) s3 B' x1 (- 1)"
    using spares_stored [OF sp3 _ _ st2(1)] spares_stored [OF sp3 _ _ st2(2)] by simp_all
  have sp: "spares t {NewBlockId fn k, NewBlockId fn ?m} s s3" using spares_trans [OF l(4) spares_trans [OF s2(4) sp3]] by simp
  have chC: "leaf_chain t fn lay s C" using ch by simp
  have "j \<noteq> k \<and> j < ?m" if "j \<in> fst ` set C" for j using that kC chain_in_file [OF chC] by (metis imageE)
  then have "leaf_chain t fn lay s3 C" by (intro chain_kept [OF sp chC]) fastforce
  then have "leaf_chain t fn lay s3 ((k, A') # (?m, B') # C)" using st3 b(2) by auto
  moreover have "run_local l (closing (lf_insert (Some key) rid) lf_close) s1 = (Inr (Some (Some (bt_key e), ?m)), s3)"
    using s2(1) s3(1) by (simp add: run_local_def closing_def handle_def bnd_def go_unfold)
  ultimately show thesis using that l(1) s3(2,3) q(2) sp A'_def B'_def by simp
qed

text \<open>The directory's part: the separator goes in, and the root may move down.\<close>

lemma dir_grow_run:
  assumes tr: "dir_tree t fn lay s (Suc h) k lm es N" "distinct N" and so: "sep_sorted sk es" "sep_sorted sk (sep_put sk nk es)"
    and tk: "dir_takes (leaf_at t fn lay 0) sk nk" and inv: "pool_inv s" and pi: "pins_are s t (NewBlockId fn k # bs)"
    and room: "Suc (length bs + h) < card (own_buffers s t)" and grow: "may_grow t fn s (Suc (Suc h))" and lr: "int32_range (int (Suc h))"
    and cap: "0 < bt_cap (leaf_at t fn lay 0) (blockSize s)" "bt_cap (leaf_at t fn lay 0) (blockSize s) < n" and n: "h < n"
  obtains r s1 s' h' N' where "dr_insert n (dir_at t fn lay k) (Some sk) nk s = (Inr r, s1)"
    and "(case r of None \<Rightarrow> ret () | Some e \<Rightarrow> dr_makeNewRoot n (dir_at t fn lay k) e) s1 = (Inr (), s')"
    and "pool_inv s'" and "pins_are s' t (NewBlockId fn k # bs)" and "spares t (range (NewBlockId fn)) s s'"
    and "dir_tree t fn lay s' (Suc h') k lm (sep_put sk nk es) N'" and "distinct N'" and "h' = h \<or> h' = Suc h"
proof -
  have fn: "fn \<noteq> logFile s" and m0: "0 \<le> nblocks s fn" using tr(1) by (auto simp: bt_stored_def bt_home_def in_file_def)
  have gr: "may_grow t fn s (Suc h)" using grow m0 by (auto simp: may_grow_def int32_range_def)
  obtain r s1 where s1: "dr_insert n (dir_at t fn lay k) (Some sk) nk s = (Inr r, s1)" "pool_inv s1" "pins_are s1 t (NewBlockId fn k # bs)"
    "spares t (dir_scope fn (nblocks s fn) N (Suc h)) s s1"
    "dir_result t fn lay s1 (Suc h) k lm (sep_put sk nk es) (set N \<union> {nblocks s fn..<nblocks s fn + int (Suc h)}) r"
    using dr_insert_tree [OF tr so tk inv pi room gr cap(1) n] by blast
  have sp1: "spares t (range (NewBlockId fn)) s s1" by (rule spares_mono [OF s1(4)]) auto
  show thesis
  proof (cases r)
    case None
    obtain N' where "dir_tree t fn lay s1 (Suc h) k lm (sep_put sk nk es) N'" "distinct N'"
      using s1(5) unfolding dir_result_def None option.case by blast
    then show thesis using that [OF s1(1) _ s1(2,3) sp1] None by (simp add: go_unfold)
  next
    case (Some q)
    then obtain sv nk' where q: "r = Some (sv, nk')" by (cases q) auto
    obtain v es1 lm2 es2 N1 N2 where w: "sv = Some v" "sep_put sk nk es = es1 @ (v, lm2) # es2" "dir_tree t fn lay s1 (Suc h) k lm es1 N1"
      "dir_tree t fn lay s1 (Suc h) nk' lm2 es2 N2" "distinct (N1 @ N2)" "dir_takes (leaf_at t fn lay k) v nk'"
      using s1(5) unfolding dir_result_def q option.case prod.case by blast
    have fn_le: "nblocks s1 fn \<le> nblocks s fn + int (Suc h)" "nblocks s fn \<le> nblocks s1 fn"
      using scope_grown [OF s1(4) dir_tree_in_file [OF tr(1)] fn m0] .
    have same: "blockSize s1 = blockSize s" "own_buffers s1 t = own_buffers s t" using sp1 by (simp_all add: spares_def)
    have gr1: "may_grow t fn s1 1" by (rule may_grow_later [of t fn s "Suc h" 1, OF _ s1(4) fn_le(1)]) (use grow m0 fn_le(2) in simp_all)
    have room1: "Suc (length bs) < card (own_buffers s1 t)" using room same(2) by simp
    obtain s' N' where s': "dr_makeNewRoot n (dir_at t fn lay k) (Some v, nk') s1 = (Inr (), s')" "pool_inv s'" "pins_are s' t (NewBlockId fn k # bs)"
      "spares t {NewBlockId fn k, NewBlockId fn (nblocks s1 fn)} s1 s'"
      "dir_tree t fn lay s' (Suc (Suc h)) k lm (es1 @ (v, lm2) # es2) N'" "distinct N'"
      by (rule dr_makeNewRoot_tree [OF w(3-6) s1(2,3) room1 gr1 lr cap [folded same(1)]])
    have "spares t (range (NewBlockId fn)) s1 s'" by (rule spares_mono [OF s'(4)]) auto
    then have "spares t (range (NewBlockId fn)) s s'" using spares_trans [OF sp1] by fastforce
    then show thesis using that [OF s1(1) _ s'(2,3) _ _ s'(6), of "Suc h"] s'(1,5) q w(1,2) by simp
  qed
qed

lemma bi_Insert_split:
  assumes ix: "index_leads ix h s key ((k, L) # C)" and kC: "k \<notin> fst ` set C" and tk: "leaf_takes (ix_leaf ix k) key rid"
    and full: "bt_cap (ix_leaf ix k) (blockSize s) = length L" "2 \<le> length L" and D: "drop (length L div 2) L = e # B"
    and nk: "nk = nblocks s (leafFile (bi_name ix))" and tr: "ix_dir ix s (Suc h) 0 lm es N" "distinct N"
    and so: "sep_sorted (bt_key e) es" "sep_sorted (bt_key e) (sep_put (bt_key e) nk es)"
    and dk: "dir_takes (leaf_at (bi_tx ix) (dirFile (bi_name ix)) (bi_dirLayout ix) 0) (bt_key e) nk"
    and inv: "pool_inv s" and pi: "pins_are s (bi_tx ix) bs" and room: "length bs + h + 2 < card (own_buffers s (bi_tx ix))"
    and grow: "may_grow (bi_tx ix) (leafFile (bi_name ix)) s 1" "may_grow (bi_tx ix) (dirFile (bi_name ix)) s (Suc (Suc h))"
    and lr: "int32_range (int (Suc h))" and n: "h < n"
    and cap: "0 < bt_cap (leaf_at (bi_tx ix) (dirFile (bi_name ix)) (bi_dirLayout ix) 0) (blockSize s)"
      "bt_cap (leaf_at (bi_tx ix) (dirFile (bi_name ix)) (bi_dirLayout ix) 0) (blockSize s) < n"
  obtains s' h' N' A' B' where "bi_Insert n (Some key) rid (ix, s) = (Inr (), (ix, s'))" and "pool_inv s'" and "pins_are s' (bi_tx ix) bs"
    and "spares (bi_tx ix) ({bp_block (ix_leaf ix k), bp_block (ix_leaf ix nk)} \<union> range (NewBlockId (dirFile (bi_name ix)))) s s'"
    and "ix_chain ix s' ((k, A') # (nk, B') # C)" and "ix_dir ix s' (Suc h') 0 lm (sep_put (bt_key e) nk es) N'" and "distinct N'"
    and "h' = h \<or> h' = Suc h"
    and "A' = (if vcmp key (bt_key e) < 0 then leaf_put key rid (take (length L div 2) L) else take (length L div 2) L)"
    and "B' = (if vcmp key (bt_key e) < 0 then e # B else leaf_put key rid (e # B))"
proof -
  let ?t = "bi_tx ix" and ?fn = "leafFile (bi_name ix)" and ?lay = "bi_leafLayout ix" and ?p = "ix_leaf ix k"
  let ?dn = "dirFile (bi_name ix)" and ?dl = "bi_dirLayout ix"
  have room': "length bs + h < card (own_buffers s ?t)" using room by simp
  obtain d s1 s2 s3 where d: "newBTreeDir ?t (bi_root ix) ?dl s = (Inr d, s1)" "dr_search n d (Some key) s1 = (Inr k, s2)"
    "pool_inv s2" "pins_are s2 ?t (bi_root ix # bs)" "own_buffers s2 ?t = own_buffers s ?t" "spares ?t {} s s2"
    "d = dir_at ?t ?dn ?dl 0"
    by (rule descend [OF ix inv pi room' n])
  have lay: "leaf_layout ?lay key" and ch: "leaf_chain ?t ?fn ?lay s ((k, L) # C)" and root: "bi_root ix = NewBlockId ?dn 0"
    and ky: "keyed key (chain_entries ((k, L) # C))" using ix by (simp_all add: index_leads_def)
  have so': "bt_sorted L" using ky by (simp add: keyed_def bt_sorted_append)
  have fn: "?fn \<noteq> logFile s" "0 \<le> nblocks s ?fn" "?dn \<noteq> logFile s" "0 \<le> nblocks s ?dn"
    using ch tr(1) by (auto simp: bt_stored_def bt_home_def in_file_def)
  have m2: "nblocks s2 ?fn = nk" "nblocks s2 ?dn = nblocks s ?dn" using spares_nblocks [OF d(6)] fn nk by simp_all
  have full2: "bt_cap ?p (blockSize s2) = length L" and bs2: "blockSize s2 = blockSize s" using full(1) d(6) by (simp_all add: spares_def)
  have grow2: "may_grow ?t ?fn s2 1" by (rule may_grow_later [of _ _ s 0 1, OF _ d(6)]) (use grow m2 nk fn in simp_all)
  have room2: "Suc (length (bi_root ix # bs)) < card (own_buffers s2 ?t)" using room d(5) by simp
  obtain l s4 s5 A' B' where l: "newBTreeLeaf ?t (NewBlockId ?fn k) ?lay (Some key) s2 = (Inr l, s4)"
    "run_local l (closing (lf_insert (Some key) rid) lf_close) s4 = (Inr (Some (Some (bt_key e), nblocks s2 ?fn)), s5)"
    "pool_inv s5" "pins_are s5 ?t (bi_root ix # bs)" "spares ?t {NewBlockId ?fn k, NewBlockId ?fn (nblocks s2 ?fn)} s2 s5"
    "leaf_chain ?t ?fn ?lay s5 ((k, A') # (nblocks s2 ?fn, B') # C)"
    "A' = (if vcmp key (bt_key e) < 0 then leaf_put key rid (take (length L div 2) L) else take (length L div 2) L)"
    "B' = (if vcmp key (bt_key e) < 0 then e # B else leaf_put key rid (e # B))"
    by (rule leaf_split_run [OF chain_spares [OF d(6) ch] kC lay tk so' full2 full(2) d(3,4) room2 grow2 D])
  have sp5: "spares ?t {NewBlockId ?fn k, NewBlockId ?fn nk} s s5" using spares_trans [OF d(6) l(5)] m2(1) by simp
  have tr5: "ix_dir ix s5 (Suc h) 0 lm es N" by (rule dir_tree_spares [OF sp5 tr(1)]) (use files_apart in auto)
  have "nblocks s5 ?dn \<le> nblocks s ?dn" by (rule spares_grown [OF sp5 fn(3)]) (use files_apart fn in auto)
  moreover have "nblocks s ?dn \<le> nblocks s5 ?dn" using sp5 fn(3) by (simp add: spares_def)
  ultimately have "nblocks s5 ?dn = nblocks s ?dn" by simp
  then have grow5: "may_grow ?t ?dn s5 (Suc (Suc h))" by (intro may_grow_later [of _ _ s 0 "Suc (Suc h)", OF _ sp5]) (use grow(2) fn in simp_all)
  have same5: "blockSize s5 = blockSize s" "own_buffers s5 ?t = own_buffers s ?t" using sp5 by (simp_all add: spares_def)
  have room5: "Suc (length bs + h) < card (own_buffers s5 ?t)" using room same5(2) by simp
  obtain r s6 s7 h' N' where r: "dr_insert n (dir_at ?t ?dn ?dl 0) (Some (bt_key e)) nk s5 = (Inr r, s6)"
    "(case r of None \<Rightarrow> ret () | Some e \<Rightarrow> dr_makeNewRoot n (dir_at ?t ?dn ?dl 0) e) s6 = (Inr (), s7)" "pool_inv s7"
    "pins_are s7 ?t (NewBlockId ?dn 0 # bs)" "spares ?t (range (NewBlockId ?dn)) s5 s7"
    "ix_dir ix s7 (Suc h') 0 lm (sep_put (bt_key e) nk es) N'" "distinct N'" "h' = h \<or> h' = Suc h"
    by (rule dir_grow_run [OF tr5 tr(2) so dk l(3) l(4) [unfolded root] room5 grow5 lr cap [folded same5(1)] n])
  obtain s8 where s8: "dr_close (dir_at ?t ?dn ?dl 0) s7 = (Inr (), s8)" "pool_inv s8" "pins_are s8 ?t bs" "spares ?t {} s7 s8"
    by (rule dir_close [OF r(3,4), of ?dl])
  have run: "bi_Insert n (Some key) rid (ix, s) = (Inr (), (ix, s8))"
    using d(1,2) l(1,2) r(1,2) s8(1)
    by (simp add: bi_Insert_def obj_gets_def on_state_def bnd_def go_unfold closing_def handle_def d(7) m2(1))
  have sp58: "spares ?t (range (NewBlockId ?dn)) s5 s8" using spares_trans [OF r(5) s8(4)] by simp
  have "ix_chain ix s8 ((k, A') # (nk, B') # C)"
    by (rule chain_kept [OF sp58]) (use l(6) m2(1) files_apart in auto)
  moreover have "ix_dir ix s8 (Suc h') 0 lm (sep_put (bt_key e) nk es) N'" by (rule dir_tree_spares [OF s8(4) r(6)]) simp
  ultimately show thesis
    using that [OF run s8(2,3) _ _ _ r(7,8) l(7,8)] spares_trans [OF sp5 sp58] by simp
qed

section \<open>The entries and separators after an insertion\<close>

lemma key_rest:
  assumes "keyed key L" and "e \<in> set (dropWhile (key_below key) L)"
  shows "\<not> key_below key e"
proof
  assume low: "key_below key e"
  obtain x xs where d: "dropWhile (key_below key) L = x # xs" using assms(2) by (cases "dropWhile (key_below key) L") auto
  have x: "\<not> key_below key x" using d hd_rest [of "key_below key" L] by simp
  have "keyed key (takeWhile (key_below key) L @ x # xs)" using assms(1) unfolding d [symmetric] by simp
  from keyed_tail [OF this] have k: "keyed key (x # xs)" .
  have e: "e = x \<or> e \<in> set xs" using assms(2) d by auto
  then have "vcmp (bt_key x) (bt_key e) \<le> 0" "val_type (bt_key x) = val_type (bt_key e)" "val_type (bt_key e) = val_type key"
    using k by (auto simp: keyed_def bt_sorted_def)
  from vcmp_le_less_trans [OF this(2,3,1)] low have "key_below key x" by (simp add: key_below_def)
  then show False using x by simp
qed

lemma leaf_put_Cons: "leaf_put key rid (e # L) = (if key_below key e then e # leaf_put key rid L else leaf_entry key rid # e # L)"
  by (simp add: leaf_put_def)

lemma leaf_put_after: "\<forall>x \<in> set X. key_below key x \<Longrightarrow> leaf_put key rid (X @ L) = X @ leaf_put key rid L"
  by (induction X) (simp_all add: leaf_put_Cons)

lemma leaf_put_before: "\<forall>y \<in> set Y. \<not> key_below key y \<Longrightarrow> leaf_put key rid (L @ Y) = leaf_put key rid L @ Y"
proof (induction L)
  case Nil
  then show ?case by (cases Y) (simp_all add: leaf_put_def)
qed (simp add: leaf_put_Cons)

definition sep_marks :: "val option \<Rightarrow> (val \<times> bool) list" where
  "sep_marks v = (case v of None \<Rightarrow> [] | Some u \<Rightarrow> [(u, False)])"

definition ent_marks :: "entry list \<Rightarrow> (val \<times> bool) list" where
  "ent_marks L = map (\<lambda>e. (bt_key e, True)) L"

lemma seg_marks_parts: "seg_marks (v, k, L) = sep_marks v @ ent_marks L"
  by (simp add: seg_marks_def sep_marks_def ent_marks_def)

lemma ent_marks_simps: "ent_marks (A @ B) = ent_marks A @ ent_marks B" "ent_marks (e # B) = (bt_key e, True) # ent_marks B"
  "set (ent_marks L) = (\<lambda>e. (bt_key e, True)) ` set L"
  by (simp_all add: ent_marks_def)

lemma mark_insert:
  "sorted_wrt mlt (A @ B) \<Longrightarrow> \<forall>a \<in> set A. mlt a m \<Longrightarrow> \<forall>b \<in> set B. mlt m b \<Longrightarrow> sorted_wrt mlt (A @ m # B)"
  by (auto simp: sorted_wrt_append)

lemma put_marks:
  assumes so: "msorted (T1 @ (v, k, L) # T2)" and "\<forall>m \<in> set (marks T1). mlt m (key, True)" and "\<forall>u. v = Some u \<longrightarrow> vcmp u key \<le> 0"
    and "\<forall>m \<in> set (marks T2). vcmp key (fst m) < 0" and ky: "keyed key L" and new: "\<forall>e \<in> set L. \<not> has_key key e"
  shows "msorted (T1 @ (v, k, leaf_put key rid L) # T2)"
proof -
  let ?A = "takeWhile (key_below key) L" and ?B = "dropWhile (key_below key) L"
  have "L = ?A @ ?B" by simp
  then have "ent_marks L = ent_marks ?A @ ent_marks ?B" using ent_marks_simps(1) [of ?A ?B] by simp
  then have so': "sorted_wrt mlt ((marks T1 @ sep_marks v @ ent_marks ?A) @ ent_marks ?B @ marks T2)"
    using so by (simp add: msorted_def seg_marks_parts)
  have "sorted_wrt mlt ((marks T1 @ sep_marks v @ ent_marks ?A) @ (key, True) # ent_marks ?B @ marks T2)"
  proof (rule mark_insert [OF so'])
    have "\<forall>e \<in> set ?A. vcmp (bt_key e) key < 0" by (auto dest: set_takeWhileD simp: key_below_def)
    then show "\<forall>a \<in> set (marks T1 @ sep_marks v @ ent_marks ?A). mlt a (key, True)"
      using assms(2,3) by (auto simp: sep_marks_def ent_marks_simps split: option.splits)
    have "vcmp key (bt_key e) < 0" if e: "e \<in> set ?B" for e
    proof -
      have "\<not> has_key key e" "val_type (bt_key e) = val_type key" using new ky e by (auto dest: set_dropWhileD simp: keyed_def)
      then show ?thesis using key_rest [OF ky e] vcmp_anti [of "bt_key e" key] by (simp add: key_below_def has_key_def)
    qed
    then show "\<forall>b \<in> set (ent_marks ?B @ marks T2). mlt (key, True) b" using assms(4) by (auto simp: ent_marks_simps)
  qed
  then show ?thesis
    unfolding msorted_def leaf_put_def by (simp add: seg_marks_parts ent_marks_simps(1,2))
qed

lemma split_marks:
  assumes so: "msorted (T1 @ (v, k, A @ B) # T2)" and ty: "mtyped sk (T1 @ (v, k, A @ B) # T2)" and ne: "A \<noteq> []" "B \<noteq> []"
    and low: "\<forall>a \<in> set A. vcmp (bt_key a) sk < 0" and high: "\<forall>b \<in> set B. vcmp sk (bt_key b) \<le> 0"
  shows "msorted (T1 @ (v, k, A) # (Some sk, nk, B) # T2)"
    and "seps (T1 @ (v, k, A) # (Some sk, nk, B) # T2) = sep_put sk nk (seps (T1 @ (v, k, A @ B) # T2))"
proof -
  have so': "sorted_wrt mlt ((marks T1 @ sep_marks v @ ent_marks A) @ ent_marks B @ marks T2)"
    using so by (simp add: msorted_def seg_marks_parts ent_marks_simps(1))
  have tyM: "val_type (fst m) = val_type sk" if "m \<in> set ((marks T1 @ sep_marks v @ ent_marks A) @ ent_marks B @ marks T2)" for m
    using ty that by (auto simp: mtyped_def seg_marks_parts ent_marks_simps(1))
  have before: "vcmp (fst m) sk < 0" if m: "m \<in> set (marks T1 @ sep_marks v @ ent_marks A)" for m
  proof (cases "m \<in> set (ent_marks A)")
    case True
    then show ?thesis using low by (auto simp: ent_marks_simps)
  next
    case False
    let ?a = "hd A"
    have a: "?a \<in> set A" using ne(1) by simp
    then have "mlt m (bt_key ?a, True)" using so' False m by (auto simp: sorted_wrt_append ent_marks_simps)
    then have "vcmp (fst m) (bt_key ?a) \<le> 0" using mlt_le by fastforce
    moreover have "val_type (bt_key ?a) = val_type sk" using tyM [of "(bt_key ?a, True)"] a by (auto simp: ent_marks_simps)
    moreover have "val_type (fst m) = val_type sk" using tyM [of m] m by auto
    ultimately show ?thesis using vcmp_le_less_trans [of "fst m" "bt_key ?a" sk] low a by simp
  qed
  have after: "vcmp sk (fst m) < 0" if m: "m \<in> set (marks T2)" for m
  proof -
    let ?b = "hd B"
    have b: "?b \<in> set B" using ne(2) by simp
    then have "mlt (bt_key ?b, True) m" using so' m by (auto simp: sorted_wrt_append ent_marks_simps)
    then have "vcmp (bt_key ?b) (fst m) < 0" by simp
    moreover have "val_type sk = val_type (bt_key ?b)" using tyM [of "(bt_key ?b, True)"] b by (auto simp: ent_marks_simps)
    moreover have "val_type (bt_key ?b) = val_type (fst m)" using tyM [of m] m calculation(2) by auto
    ultimately show ?thesis using vcmp_le_less_trans [of sk "bt_key ?b" "fst m"] high b by blast
  qed
  have "sorted_wrt mlt ((marks T1 @ sep_marks v @ ent_marks A) @ (sk, False) # ent_marks B @ marks T2)"
  proof (rule mark_insert [OF so'])
    show "\<forall>a \<in> set (marks T1 @ sep_marks v @ ent_marks A). mlt a (sk, False)" using before by simp
    show "\<forall>b \<in> set (ent_marks B @ marks T2). mlt (sk, False) b" using after high by (auto simp: ent_marks_simps mlt_def)
  qed
  then show "msorted (T1 @ (v, k, A) # (Some sk, nk, B) # T2)"
    by (simp add: msorted_def seg_marks_parts) (simp add: sep_marks_def)
  have sv: "seg_sep (v, k, L) = seg_sep (v, k, A)" for L by (simp add: seg_sep_def split: option.splits)
  have X: "\<forall>x \<in> set (seps T1 @ seg_sep (v, k, A)). le_key sk x"
  proof
    fix x
    assume "x \<in> set (seps T1 @ seg_sep (v, k, A))"
    then have "x \<in> set (seps T1) \<or> x \<in> set (seg_sep (v, k, A))" by simp
    then have "(fst x, False) \<in> set (marks T1 @ seg_marks (v, k, A))"
      using seps_marks [of x T1] seg_sep_marks [of x "(v, k, A)"] unfolding set_append by blast
    then show "le_key sk x" using before [of "(fst x, False)"] by (auto simp: seg_marks_parts)
  qed
  have Y: "\<forall>y \<in> set (seps T2). \<not> le_key sk y"
  proof
    fix y
    assume "y \<in> set (seps T2)"
    from seps_marks [OF this] have m: "(fst y, False) \<in> set (marks T2)" .
    then have "vcmp sk (fst y) < 0" "val_type sk = val_type (fst y)" using after tyM [of "(fst y, False)"] by auto
    then show "\<not> le_key sk y" using vcmp_swap by blast
  qed
  from sep_put_cut [OF X Y, of nk "[]"]
  show "seps (T1 @ (v, k, A) # (Some sk, nk, B) # T2) = sep_put sk nk (seps (T1 @ (v, k, A @ B) # T2))"
    by (simp add: sv [of "A @ B"]) (simp add: seg_sep_def sep_put_def)
qed

section \<open>Insertion into the tree\<close>

lemma stored_size:
  assumes st: "bt_stored (page_at t b lay) s L x1 x2" and inv: "pool_inv s" and pi: "pins_are s t bs" and room: "length bs < card (own_buffers s t)"
  shows "length L \<le> bt_cap (page_at t b lay) (blockSize s)"
proof -
  have nf: "in_file s b" "File b \<noteq> logFile s" using st by (simp_all add: bt_stored_def bt_home_def)
  obtain s' where s': "pool_inv s'" "pins_are s' t (b # bs)" "spares t {} s s'"
    by (rule newBTreePage_spec [OF inv pi room nf]) blast
  have "bt_stored (page_at t b lay) s' L x1 x2" by (rule spares_stored [OF s'(3) _ _ st]) simp_all
  then have "bt_page (page_at t b lay) s' L x1 x2" by (rule bt_stored_page [OF _ s'(1), of _ _ _ _ "b # bs"]) (use s'(2) in simp_all)
  from bt_page_size [OF this] s'(3) show ?thesis by (simp add: spares_def)
qed

lemma stored_val:
  assumes "bt_stored p s L x1 x2" and "e \<in> set L" and "f \<in> set (bt_fields p)"
  shows "val_in p f (e f)"
proof -
  obtain left pg where b: "bt_bytes p pg (L @ left) (int (length L)) x1 x2" using assms(1) by (auto simp: bt_stored_def)
  obtain j where j: "j < length L" "e = L ! j" using assms(2) by (auto simp: in_set_conv_nth)
  have "\<forall>k < length (L @ left). bt_entry p pg (int k) ((L @ left) ! k)" using b unfolding bt_bytes_def by blast
  from this [rule_format, of j] have "bt_entry p pg (int j) e" using j by (simp add: nth_append)
  then show ?thesis using assms(3) unfolding bt_entry_def by blast
qed

lemma chain_val: "leaf_chain t fn lay s C \<Longrightarrow> e \<in> set (chain_entries C) \<Longrightarrow> f \<in> set (sch_fields (lay_schema lay)) \<Longrightarrow>
    val_in (leaf_at t fn lay 0) f (e f)"
proof (induction C)
  case (Cons x C)
  obtain k L where x: "x = (k, L)" by (cases x)
  show ?case
  proof (cases "e \<in> set L")
    case True
    obtain n x2 where "bt_stored (leaf_at t fn lay k) s L n x2" using Cons.prems(1) x by auto
    from stored_val [OF this True, of f] show ?thesis using Cons.prems(3) by (simp add: val_in_def)
  qed (use Cons x in auto)
qed simp

text \<open>A key of a leaf is a key for the directory.\<close>

lemma tree_dir_takes:
  assumes "tree_layouts ix" and "val_in (ix_leaf ix 0) DataValueField sk" and "int32_range nk"
  shows "dir_takes (leaf_at (bi_tx ix) (dirFile (bi_name ix)) (bi_dirLayout ix) 0) sk nk"
  using assms by (auto simp: tree_layouts_def dir_takes_def val_in_def Let_def size_of_def lengthInBytes_def type_codes IntSize_def)

lemma leaf_takes_same: "leaf_takes (ix_leaf ix 0) key rid \<Longrightarrow> leaf_takes (ix_leaf ix k) key rid"
  by (simp add: leaf_takes_def val_in_def)

text \<open>What the transaction needs for an insertion: buffers for the path and the new pages, locks, and page numbers.\<close>

definition insert_ready :: "btree_index \<Rightarrow> 'z world_scheme \<Rightarrow> nat \<Rightarrow> block_id list \<Rightarrow> nat \<Rightarrow> bool" where
  "insert_ready ix s h bs n \<longleftrightarrow> pool_inv s \<and> pins_are s (bi_tx ix) bs \<and> length bs + h + 2 < card (own_buffers s (bi_tx ix)) \<and>
     may_grow (bi_tx ix) (leafFile (bi_name ix)) s 1 \<and> may_grow (bi_tx ix) (dirFile (bi_name ix)) s (Suc (Suc h)) \<and>
     int32_range (int (Suc h)) \<and> h < n \<and> 2 \<le> bt_cap (ix_leaf ix 0) (blockSize s) \<and>
     (let c = bt_cap (leaf_at (bi_tx ix) (dirFile (bi_name ix)) (bi_dirLayout ix) 0) (blockSize s) in 0 < c \<and> c < n)"

lemma bt_cap_block: "bt_cap (leaf_at t fn lay k) = bt_cap (leaf_at t fn lay 0)"
  by (rule ext) (simp add: bt_cap_def)

lemma leaf_keys_put:
  assumes "\<forall>m \<in> set (marks T1). mlt m (key, True)" and "\<forall>m \<in> set (marks T2). vcmp key (fst m) < 0" and ty: "mtyped key T2"
  shows "leaf_put key rid (all_entries T1 @ L @ all_entries T2) = all_entries T1 @ leaf_put key rid L @ all_entries T2"
proof -
  have "key_below key e" if "e \<in> set (all_entries T1)" for e using assms(1) entries_marks [OF that] by (fastforce simp: key_below_def)
  moreover have "\<not> key_below key e" if "e \<in> set (all_entries T2)" for e
  proof -
    have "vcmp key (bt_key e) < 0" "val_type key = val_type (bt_key e)" using assms(2) ty entries_marks [OF that] by (fastforce simp: mtyped_def)+
    then show ?thesis using vcmp_anti [of key "bt_key e"] by (simp add: key_below_def)
  qed
  ultimately show ?thesis by (simp add: leaf_put_after leaf_put_before)
qed

text \<open>The leaf with the new entry is where a split cuts it.\<close>

lemma put_halves:
  assumes ky: "keyed key (A @ e # B)" and st: "\<forall>a \<in> set A. vcmp (bt_key a) (bt_key e) < 0"
    and A': "A' = (if vcmp key (bt_key e) < 0 then leaf_put key rid A else A)"
    and B': "B' = (if vcmp key (bt_key e) < 0 then e # B else leaf_put key rid (e # B))"
  shows "leaf_put key rid (A @ e # B) = A' @ B'" and "\<forall>a \<in> set A'. vcmp (bt_key a) (bt_key e) < 0"
    and "\<forall>b \<in> set B'. vcmp (bt_key e) (bt_key b) \<le> 0" and "B' \<noteq> []" and "A \<noteq> [] \<Longrightarrow> A' \<noteq> []"
proof -
  have ty: "val_type (bt_key x) = val_type key" if "x \<in> set (A @ e # B)" for x using ky that unfolding keyed_def by blast
  have te: "val_type (bt_key e) = val_type key" by (rule ty) simp
  have le: "\<forall>b \<in> set (e # B). vcmp (bt_key e) (bt_key b) \<le> 0" using ky by (auto simp: keyed_def bt_sorted_def sorted_wrt_append)
  show "B' \<noteq> []" "A \<noteq> [] \<Longrightarrow> A' \<noteq> []" by (simp_all add: A' B' leaf_put_def)
  show "\<forall>a \<in> set A'. vcmp (bt_key a) (bt_key e) < 0" using st by (simp add: A' leaf_put_set)
  show "\<forall>b \<in> set B'. vcmp (bt_key e) (bt_key b) \<le> 0"
    using le vcmp_swap [OF te [symmetric]] by (auto simp: B' leaf_put_set)
  show "leaf_put key rid (A @ e # B) = A' @ B'"
  proof (cases "vcmp key (bt_key e) < 0")
    case True
    have "\<not> key_below key y" if "y \<in> set (e # B)" for y
    proof -
      have "vcmp key (bt_key y) < 0" by (rule vcmp_less_trans [OF te [symmetric] _ True]) (use le ty that te in auto)
      moreover have "val_type key = val_type (bt_key y)" using ty [of y] that by auto
      ultimately have "\<not> vcmp (bt_key y) key \<le> 0" using vcmp_swap by blast
      then show ?thesis by (simp add: key_below_def)
    qed
    then show ?thesis using True by (simp add: A' B' leaf_put_before)
  next
    case False
    then have "vcmp (bt_key e) key \<le> 0" using vcmp_swap [OF te [symmetric]] by blast
    then have "key_below key a" if "a \<in> set A" for a
      using vcmp_less_trans [of "bt_key a" "bt_key e" key] st that ty [of a] te by (simp add: key_below_def)
    then show ?thesis using False by (simp add: A' B' leaf_put_after)
  qed
qed

lemma btree_insert:
  assumes bt: "btree ix s h T" and tk: "leaf_takes (ix_leaf ix 0) key rid" and new: "\<forall>e \<in> set (all_entries T). \<not> has_key key e"
    and rd: "insert_ready ix s h bs n"
  obtains s' h' T' where "bi_Insert n (Some key) rid (ix, s) = (Inr (), (ix, s'))" and "btree ix s' h' T'"
    and "all_entries T' = leaf_put key rid (all_entries T)" and "h' = h \<or> h' = Suc h" and "pool_inv s'" and "pins_are s' (bi_tx ix) bs"
    and "spares (bi_tx ix) {c. File c = leafFile (bi_name ix) \<or> File c = dirFile (bi_name ix)} s s'" and "length T' \<le> Suc (length T)"
proof -
  let ?t = "bi_tx ix" and ?fn = "leafFile (bi_name ix)" and ?dn = "dirFile (bi_name ix)"
  let ?scope = "{c. File c = ?fn \<or> File c = ?dn}"
  have inv: "pool_inv s" and pi: "pins_are s ?t bs" and room: "length bs + h + 2 < card (own_buffers s ?t)" "h < n"
    and grow: "may_grow ?t ?fn s 1" "may_grow ?t ?dn s (Suc (Suc h))" "int32_range (int (Suc h))"
    and cap: "2 \<le> bt_cap (ix_leaf ix 0) (blockSize s)" "0 < bt_cap (leaf_at ?t ?dn (bi_dirLayout ix) 0) (blockSize s)"
      "bt_cap (leaf_at ?t ?dn (bi_dirLayout ix) 0) (blockSize s) < n"
    using rd by (simp_all add: insert_ready_def Let_def)
  have lay: "tree_layouts ix" "bi_root ix = NewBlockId ?dn 0" and wf: "segs_wf T" and so: "msorted T" and ch: "ix_chain ix s (leaves T)"
    and di: "distinct (map fst (leaves T))" and tyT: "\<forall>m \<in> set (marks T). val_type (fst m) = key_type ix"
    using bt unfolding btree_def by blast+
  obtain N where tr: "ix_dir ix s (Suc h) 0 (fst (snd (hd T))) (seps T) N" "distinct N" using bt unfolding btree_def by blast
  have kt: "val_type key = key_type ix" using tk by (simp add: leaf_takes_def val_in_def)
  obtain T1 v k L T2 where T: "T = T1 @ (v, k, L) # T2" and ix: "index_leads ix h s key ((k, L) # leaves T2)"
    and low: "\<forall>m \<in> set (marks T1). mlt m (key, True)" and vk: "\<forall>u. v = Some u \<longrightarrow> vcmp u key \<le> 0"
    and high: "\<forall>m \<in> set (marks T2). vcmp key (fst m) < 0"
    by (rule btree_leads [OF bt kt]) blast
  have tk': "leaf_takes (ix_leaf ix k) key rid" by (rule leaf_takes_same [OF tk])
  have kC: "k \<notin> fst ` set (leaves T2)" "k \<notin> fst ` set (leaves T1)" using di T by (auto simp: image_image)
  have kyC: "keyed key (chain_entries ((k, L) # leaves T2))" using ix by (simp add: index_leads_def)
  then have kyL: "keyed key L" by (simp add: keyed_def bt_sorted_append)
  have newL: "\<forall>e \<in> set L. \<not> has_key key e" using new T by simp
  have ty2: "mtyped key T2" using tyT kt T by (simp add: mtyped_def)
  have tyC: "\<forall>m \<in> set (marks (T1 @ (v, k, leaf_put key rid L) # T2)). val_type (fst m) = key_type ix"
    using tyT kt unfolding T by (auto simp: seg_marks_parts ent_marks_simps leaf_put_set)
  note so1 = put_marks [OF so [unfolded T] low vk high kyL newL, of rid]
  have ents: "leaf_put key rid (all_entries T) = all_entries T1 @ leaf_put key rid L @ all_entries T2"
    using leaf_keys_put [OF low high ty2] unfolding T by simp
  have capk: "bt_cap (ix_leaf ix k) = bt_cap (ix_leaf ix 0)" by (rule bt_cap_block)
  have chP: "ix_chain ix s (leaves T1 @ (k, L) # leaves T2)" using ch unfolding T by simp
  show thesis
  proof (cases "length L < bt_cap (ix_leaf ix k) (blockSize s)")
    case True
    have nx: "\<forall>e \<in> set (chain_entries (leaves T2)). vcmp key (bt_key e) \<le> 0" using high entries_marks by fastforce
    have rm: "length bs + max 1 h < card (own_buffers s ?t)" using room by simp
    obtain s' where s': "bi_Insert n (Some key) rid (ix, s) = (Inr (), (ix, s'))" "index_leads ix h s' key ((k, leaf_put key rid L) # leaves T2)"
      "pool_inv s'" "pins_are s' ?t bs" "spares ?t {bp_block (ix_leaf ix k)} s s'"
      by (rule bi_Insert_room [OF ix kC(1) tk' True nx inv pi rm room(2)])
    let ?T = "T1 @ (v, k, leaf_put key rid L) # T2"
    have "ix_chain ix s' ((k, leaf_put key rid L) # leaves T2)" using s'(2) by (simp add: index_leads_def)
    from chain_replace [OF s'(5) this chP] have "ix_chain ix s' (leaves ?T)" using kC(2) by auto
    moreover have "ix_dir ix s' (Suc h) 0 (fst (snd (hd T))) (seps T) N" by (rule dir_tree_spares [OF s'(5) tr(1)]) (use files_apart in auto)
    moreover have "seps ?T = seps T" "fst (snd (hd ?T)) = fst (snd (hd T))" "map fst (leaves ?T) = map fst (leaves T)" "segs_wf ?T"
      using wf unfolding T by (cases T1; simp add: seg_sep_def segs_wf_def split: option.splits)+
    ultimately have "btree ix s' h ?T" using lay di tr(2) so1 tyC unfolding btree_def by metis
    moreover have "spares ?t ?scope s s'" by (rule spares_mono [OF s'(5)]) simp
    moreover have "all_entries ?T = leaf_put key rid (all_entries T)" unfolding ents by simp
    moreover have "length ?T \<le> Suc (length T)" unfolding T by simp
    ultimately show thesis using that s'(1,3,4) by blast
  next
    case False
    obtain nx x2 where st: "bt_stored (ix_leaf ix k) s L nx x2" using ix by (auto simp: index_leads_def)
    have rm: "length bs < card (own_buffers s ?t)" using room by simp
    have full: "bt_cap (ix_leaf ix k) (blockSize s) = length L" "2 \<le> length L"
      using stored_size [OF st inv pi rm] False cap(1) capk by simp_all
    let ?A = "take (length L div 2) L"
    obtain e B where D: "drop (length L div 2) L = e # B" using full(2) by (cases "drop (length L div 2) L") auto
    have L: "L = ?A @ e # B" unfolding D [symmetric] by simp
    have A: "?A \<noteq> []" using full(2) by (cases L) auto
    let ?sk = "bt_key e" and ?nk = "nblocks s ?fn"
    define A' where "A' = (if vcmp key ?sk < 0 then leaf_put key rid ?A else ?A)"
    define B' where "B' = (if vcmp key ?sk < 0 then e # B else leaf_put key rid (e # B))"
    have "sorted_wrt mlt (ent_marks (?A @ e # B))"
      using so unfolding L [symmetric] T msorted_def by (simp add: seg_marks_parts sorted_wrt_append)
    then have lt: "\<forall>a \<in> set ?A. vcmp (bt_key a) ?sk < 0" by (simp add: ent_marks_simps sorted_wrt_append)
    note hv = put_halves [OF kyL [unfolded arg_cong [OF L, of "keyed key"]] lt A'_def B'_def]
    have put: "leaf_put key rid L = A' @ B'" using hv(1) unfolding L [symmetric] .
    have eL: "e \<in> set L" unfolding arg_cong [OF L, of set] by simp
    have "mtyped key (T1 @ (v, k, A' @ B') # T2)" using tyC kt unfolding put mtyped_def by simp
    moreover have "val_type ?sk = val_type key" using kyL eL unfolding keyed_def by blast
    ultimately have tyS: "mtyped ?sk (T1 @ (v, k, A' @ B') # T2)" by (simp add: mtyped_def)
    let ?T = "T1 @ (v, k, A') # (Some ?sk, ?nk, B') # T2"
    have T': "msorted ?T" "seps ?T = sep_put ?sk ?nk (seps (T1 @ (v, k, A' @ B') # T2))"
      by (rule split_marks [OF so1 [unfolded put] tyS hv(5) [OF A] hv(4,2,3)])+
    have sepsT: "seps (T1 @ (v, k, A' @ B') # T2) = seps T" unfolding T by (simp add: seg_sep_def split: option.splits)
    have "marks ?T = marks T1 @ sep_marks v @ ent_marks A' @ (?sk, False) # ent_marks B' @ marks T2"
      by (simp add: seg_marks_parts) (simp add: sep_marks_def)
    then have tyT': "\<forall>m \<in> set (marks ?T). val_type (fst m) = key_type ix"
      using tyC \<open>val_type ?sk = val_type key\<close> kt unfolding put by (auto simp: seg_marks_parts ent_marks_simps(1))
    have "mtyped ?sk T" using tyT \<open>val_type ?sk = val_type key\<close> kt by (simp add: mtyped_def)
    from sep_sorted_seps [OF so this] have ss: "sep_sorted ?sk (seps T)" .
    have "mtyped ?sk ?T" using tyT' \<open>val_type ?sk = val_type key\<close> kt by (simp add: mtyped_def)
    from sep_sorted_seps [OF T'(1) this] have ss': "sep_sorted ?sk (sep_put ?sk ?nk (seps T))" unfolding T'(2) sepsT .
    have "e \<in> set (chain_entries ((k, L) # leaves T2))" using eL by simp
    from chain_val [OF _ this, of ?t ?fn "bi_leafLayout ix" s DataValueField]
    have vi: "val_in (ix_leaf ix 0) DataValueField ?sk" using ix lay(1) by (simp add: index_leads_def tree_layouts_def Let_def)
    have m0: "0 \<le> ?nk" using st by (simp add: bt_stored_def bt_home_def in_file_def)
    have "int32_range ?nk" using grow(1) m0 by (simp add: may_grow_def int32_range_def)
    from tree_dir_takes [OF lay(1) vi this] have dk: "dir_takes (leaf_at ?t ?dn (bi_dirLayout ix) 0) ?sk ?nk" .
    obtain s' h' N' where s': "bi_Insert n (Some key) rid (ix, s) = (Inr (), (ix, s'))" "pool_inv s'" "pins_are s' ?t bs"
      "spares ?t ({bp_block (ix_leaf ix k), bp_block (ix_leaf ix ?nk)} \<union> range (NewBlockId ?dn)) s s'"
      "ix_chain ix s' ((k, A') # (?nk, B') # leaves T2)" "ix_dir ix s' (Suc h') 0 (fst (snd (hd T))) (sep_put ?sk ?nk (seps T)) N'"
      "distinct N'" "h' = h \<or> h' = Suc h"
      unfolding A'_def B'_def
      by (rule bi_Insert_split [OF ix kC(1) tk' full D refl tr ss ss' dk inv pi room(1) grow room(2) cap(2,3)]) blast
    have fresh: "fst y \<noteq> ?nk" if "y \<in> set (leaves T)" for y using chain_in_file [OF ch that] by simp
    have "ix_chain ix s' (leaves T1 @ (k, A') # (?nk, B') # leaves T2)"
      by (rule chain_replace [OF s'(4,5) chP]) (use kC(2) fresh files_apart in \<open>auto simp: T\<close>)
    then have "ix_chain ix s' (leaves ?T)" by simp
    moreover have "distinct (map fst (leaves ?T))"
    proof -
      have "?nk \<notin> set (map fst (leaves T))" using fresh unfolding set_map by (metis imageE)
      moreover have "distinct (xs @ i # j # ys)" if "distinct (xs @ i # ys)" "j \<notin> set (xs @ i # ys)" for xs ys and i j :: int using that by auto
      ultimately show ?thesis using di unfolding T by (simp only: map_append list.map snd_conv fst_conv)
    qed
    moreover have "segs_wf ?T" "fst (snd (hd ?T)) = fst (snd (hd T))" using wf unfolding T by (cases T1; auto simp: segs_wf_def)+
    ultimately have "btree ix s' h' ?T"
      using lay s'(6,7) T' sepsT tyT' unfolding btree_def by metis
    moreover have "spares ?t ?scope s s'" by (rule spares_mono [OF s'(4)]) auto
    moreover have "all_entries ?T = leaf_put key rid (all_entries T)" unfolding ents put by simp
    moreover have "length ?T \<le> Suc (length T)" unfolding T by simp
    ultimately show thesis using that s'(1-3,8) by blast
  qed
qed

section \<open>Searching the tree\<close>

lemma tree_finds:
  assumes leaf: "bi_leaf ix = None" and bt: "btree ix s h T" and ty: "val_type key = key_type ix" and inv: "pool_inv s"
    and pi: "pins_are s (bi_tx ix) bs" and room: "length bs + h < card (own_buffers s (bi_tx ix))" and n: "h < n"
    and m: "length (filter (has_key key) (all_entries T)) < m" and steps: "length (all_entries T) + length T < n"
  obtains l s' C' where "bnd (bi_BeforeFirst n (Some key)) (\<lambda>_. index_rids m n) (ix, s) =
      (Inr (map entry_rid (filter (has_key key) (all_entries T))), (ix\<lparr>bi_leaf := Some l\<rparr>, s'))"
    and "walking (bi_tx ix) (leafFile (bi_name ix)) (bi_leafLayout ix) key bs l s' C'" and "spares (bi_tx ix) {} s s'"
proof -
  obtain T1 v k L T2 where T: "T = T1 @ (v, k, L) # T2" and ix: "index_leads ix h s key ((k, L) # leaves T2)"
    and none: "\<forall>e \<in> set (all_entries T1). \<not> has_key key e"
    by (rule btree_leads [OF bt ty]) blast
  have "filter (has_key key) (all_entries T1) = []" using none by (simp add: filter_empty_conv)
  then have f: "filter (has_key key) (chain_entries ((k, L) # leaves T2)) = filter (has_key key) (all_entries T)" unfolding T by simp
  have "chain_steps ((k, L) # leaves T2) < n" using steps unfolding T by (simp add: chain_steps_def)
  from index_finds [OF leaf ix inv pi room n _ this, of m] m that show thesis unfolding f by blast
qed

end
