(* ===== verification/IndexDelete.thy ===== *)
theory IndexDelete
  imports IndexTree
begin

text \<open>
  \<^verbatim>\<open>index/btree/index.go\<close>: deletion.

  \<open>Delete\<close> walks over the entries with the key, as a search does, and cuts the first one that has the record
  identifier out of its leaf. Separators stay, and no page is given back.
\<close>

section \<open>The loop\<close>

definition the_entry :: "val \<Rightarrow> record_id \<Rightarrow> entry \<Rightarrow> bool" where
  "the_entry key rid e \<longleftrightarrow> has_key key e \<and> entry_rid e = rid"

text \<open>What \<open>Delete\<close> changes: the first such entry leaves its page.\<close>

definition cuts_entry :: "int \<Rightarrow> string \<Rightarrow> layout \<Rightarrow> val \<Rightarrow> record_id \<Rightarrow> nat \<Rightarrow> (int \<times> entry list) list \<Rightarrow>
    'z world_scheme \<Rightarrow> 'z world_scheme \<Rightarrow> bool" where
  "cuts_entry t fn lay key rid j0 C0 s s' \<longleftrightarrow> (\<exists>P k A e B C X. C0 = P @ (k, A @ e # B) # C \<and> the_entry key rid e \<and>
     chain_entries (rest_from j0 C0) = X @ e # B @ chain_entries C \<and> (\<forall>x \<in> set X. \<not> the_entry key rid x) \<and>
     spares t {NewBlockId fn k} s s' \<and> (\<exists>x1 x2. bt_stored (leaf_at t fn lay k) s' (A @ B) x1 x2 \<and>
       (case C of [] \<Rightarrow> x1 < 0 | (k', L') # C' \<Rightarrow> x1 = k')))"

lemma ID_Equals_eq: "ID_Equals a b \<longleftrightarrow> a = b"
  by (cases a; cases b) (simp add: ID_Equals_def)

lemma cuts_later:
  assumes c: "cuts_entry t fn lay key rid j1 C1 s1 s'" and sp: "spares t {} s s1" and C: "C0 = Q @ C1"
    and R: "chain_entries (rest_from j0 C0) = Y @ chain_entries (rest_from j1 C1)" and Y: "\<forall>y \<in> set Y. \<not> the_entry key rid y"
  shows "cuts_entry t fn lay key rid j0 C0 s s'"
proof -
  obtain P k A e B C2 X where "C1 = P @ (k, A @ e # B) # C2" "the_entry key rid e"
    "chain_entries (rest_from j1 C1) = X @ e # B @ chain_entries C2" "\<forall>x \<in> set X. \<not> the_entry key rid x"
    "spares t {NewBlockId fn k} s1 s'" "\<exists>x1 x2. bt_stored (leaf_at t fn lay k) s' (A @ B) x1 x2 \<and>
       (case C2 of [] \<Rightarrow> x1 < 0 | (k', L') # C' \<Rightarrow> x1 = k')"
    using c unfolding cuts_entry_def by blast
  moreover from this have "spares t {NewBlockId fn k} s s'" using spares_trans [OF sp] by fastforce
  ultimately show ?thesis
    unfolding cuts_entry_def C using R [unfolded C] Y
    by (intro exI [of _ "Q @ P"] exI [of _ k] exI [of _ A] exI [of _ e] exI [of _ B] exI [of _ C2] exI [of _ "Y @ X"]) auto
qed

text \<open>A leaf that may be closed.\<close>

definition closable :: "int \<Rightarrow> block_id list \<Rightarrow> btree_leaf \<Rightarrow> 'z world_scheme \<Rightarrow> bool" where
  "closable t bs l s \<longleftrightarrow> (\<exists>p. lf_page l = Some p \<and> bp_tx p = t \<and> pins_are s t (bp_block p # bs)) \<and> pool_inv s"

lemma walking_closable: "walking t fn lay key bs l s C \<Longrightarrow> closable t bs l s"
  unfolding closable_def walking_def by (metis btree_leaf.select_convs(4) btree_page.select_convs(1,2))

text \<open>The entry at the leaf's position is cut out of its page.\<close>

lemma deleteCurrent_cuts:
  assumes w: "walking t fn lay key bs l s ((k, A @ e # B) # C)" and slot: "lf_slot l = int (length A)"
  obtains s' where "lf_deleteCurrent (l, s) = (Inr (), (l, s'))" and "closable t bs l s'" and "spares t {NewBlockId fn k} s s'"
    and "\<exists>x1 x2. bt_stored (leaf_at t fn lay k) s' (A @ B) x1 x2 \<and> (case C of [] \<Rightarrow> x1 < 0 | (k', L') # C' \<Rightarrow> x1 = k')"
proof -
  let ?p = "leaf_at t fn lay k"
  note d = walkingD [OF w]
  obtain x1 x2 where b: "bt_page ?p s (A @ e # B) x1 x2" "case C of [] \<Rightarrow> x1 < 0 | (k', L') # C' \<Rightarrow> x1 = k'" using d(11) by blast
  obtain s' where s': "bp_delete ?p (int (length A)) s = (Inr (), s')" "touches ?p s s'" "bt_page ?p s' (A @ B) x1 x2"
    using bp_delete_entry [OF b(1)] by blast
  have "lf_deleteCurrent (l, s) = (Inr (), (l, s'))"
    using on_page_run [where m = "\<lambda>p. bp_delete p (int (length A))", OF d(1) s'(1)] slot
    by (simp add: lf_deleteCurrent_def obj_gets_def bnd_def go_unfold)
  moreover have "closable t bs l s'" using d(1,7,8) s'(2) by (auto simp: closable_def touches_def)
  moreover have "spares t {NewBlockId fn k} s s'" using spares_touches [OF s'(2)] by simp
  ultimately show thesis using that bt_page_stored [OF s'(3)] b(2) by blast
qed

lemma delete_loop_cuts:
  assumes "leaf_layout lay key" and "walking t fn lay key bs l s C" and "lf_slot l = int j - 1" and "j \<le> length (snd (hd C))"
    and "keyed key (chain_entries (rest_from j C))" and "chain_steps (rest_from j C) < n" and "bi_leaf ix = Some l"
  shows "\<exists>l' s'. bi_delete_loop n rid (ix, s) = (Inr (), (ix\<lparr>bi_leaf := Some l'\<rparr>, s')) \<and> closable t bs l' s' \<and>
    (if \<exists>e \<in> set (chain_entries (rest_from j C)). the_entry key rid e then cuts_entry t fn lay key rid j C s s' else spares t {} s s')"
  using assms(2-)
proof (induction n arbitrary: l s C j ix)
  case (Suc n)
  obtain k L C0 where C: "C = (k, L) # C0" using Suc.prems(1) unfolding walking_def by blast
  let ?R = "rest_from j C" and ?l = "l\<lparr>lf_slot := int j\<rparr>"
  have w: "walking t fn lay key bs ?l s ((k, L) # C0)" using walking_slot [OF Suc.prems(1)] C by simp
  have slot: "lf_slot ?l = int j" by simp
  have "stops_at t fn lay key bs j C (lf_next_loop (Suc n)) ?l s"
    using lf_next_loop_stops [OF assms(1) w slot, of "Suc n"] Suc.prems(3,5) C by (simp del: lf_next_loop.simps)
  then obtain ok l1 s1 P C1 j1 where r: "lf_next_loop (Suc n) (?l, s) = (Inr ok, (l1, s1))" "spares t {} s s1"
    "walking t fn lay key bs l1 s1 C1" "lf_slot l1 = int j1" "C = P @ C1"
    and E: "ok = (dropWhile (key_below key) (chain_entries ?R) \<noteq> [] \<and> has_key key (hd (dropWhile (key_below key) (chain_entries ?R))))"
      "ok \<longrightarrow> j1 < length (snd (hd C1)) \<and> chain_entries (rest_from j1 C1) = dropWhile (key_below key) (chain_entries ?R) \<and>
        chain_steps (rest_from j1 C1) \<le> chain_steps ?R"
    unfolding stops_at_def Let_def by blast
  note filt = keyed_filter [OF Suc.prems(4) refl]
  have "lf_next (Suc n) (l, s) = lf_next_loop (Suc n) (?l, s)"
    using Suc.prems(2) by (simp add: lf_next_def obj_upd_def bnd_def go_unfold del: lf_next_loop.simps)
  then have "lf_next (Suc n) (l, s) = (Inr ok, (l1, s1))" unfolding r(1) .
  from on_leaf_run [where m = "lf_next (Suc n)", OF Suc.prems(6) this]
  have nxt: "bi_Next (Suc n) (ix, s) = (Inr ok, (ix\<lparr>bi_leaf := Some l1\<rparr>, s1))" by (simp add: bi_Next_def)
  show ?case
  proof (cases ok)
    case False
    then have "filter (has_key key) (chain_entries ?R) = []" using filt E(1) by simp
    then have "\<not> (\<exists>e \<in> set (chain_entries ?R). the_entry key rid e)" by (auto simp: filter_empty_conv the_entry_def)
    moreover have "bi_delete_loop (Suc n) rid (ix, s) = (Inr (), (ix\<lparr>bi_leaf := Some l1\<rparr>, s1))" using nxt False by (simp add: bnd_def go_unfold)
    ultimately show ?thesis using r(2) walking_closable [OF r(3)] by auto
  next
    case True
    obtain k1 L1 C2 where C1: "C1 = (k1, L1) # C2" using r(3) unfolding walking_def by blast
    have j1: "j1 < length L1" using E(2) True C1 by simp
    note tail = rest_from_tail [OF C1 j1]
    let ?e = "L1 ! j1"
    have E': "dropWhile (key_below key) (chain_entries ?R) = ?e # chain_entries (rest_from (Suc j1) C1)"
      using E(2) True tail(1) by simp
    obtain X where R: "chain_entries ?R = X @ ?e # chain_entries (rest_from (Suc j1) C1)" and X: "\<forall>x \<in> set X. \<not> the_entry key rid x"
    proof
      show "chain_entries ?R = takeWhile (key_below key) (chain_entries ?R) @ ?e # chain_entries (rest_from (Suc j1) C1)"
        unfolding E' [symmetric] by simp
      show "\<forall>x \<in> set (takeWhile (key_below key) (chain_entries ?R)). \<not> the_entry key rid x"
        by (auto simp: the_entry_def has_key_def key_below_def dest: set_takeWhileD)
    qed
    have hk: "has_key key ?e" using E(1) E' True by simp
    obtain s2 where s2: "on_page (\<lambda>p. bp_getDataRID p (int j1)) (l1, s1) = (Inr (entry_rid ?e), (l1, s2))"
      "walking t fn lay key bs l1 s2 C1" "spares t {} s1 s2"
      using walk_rid [OF r(3) [unfolded C1] assms(1) j1] unfolding C1 by blast
    have "lf_getDataRID (l1, s1) = (Inr (entry_rid ?e), (l1, s2))"
      using s2(1) r(4) by (simp add: lf_getDataRID_def obj_gets_def bnd_def go_unfold)
    from on_leaf_run [where m = lf_getDataRID and ix = "ix\<lparr>bi_leaf := Some l1\<rparr>", OF _ this]
    have rid: "bi_GetDataRecordID (ix\<lparr>bi_leaf := Some l1\<rparr>, s1) = (Inr (entry_rid ?e), (ix\<lparr>bi_leaf := Some l1\<rparr>, s2))"
      by (simp add: bi_GetDataRecordID_def)
    have sp2: "spares t {} s s2" using spares_trans [OF r(2) s2(3)] by simp
    show ?thesis
    proof (cases "entry_rid ?e = rid")
      case same: True
      let ?A = "take j1 L1" and ?B = "drop (Suc j1) L1"
      have L1: "L1 = ?A @ ?e # ?B" by (rule id_take_nth_drop [OF j1])
      have "walking t fn lay key bs l1 s2 ((k1, ?A @ ?e # ?B) # C2)" using s2(2) C1 L1 by simp
      moreover have "lf_slot l1 = int (length ?A)" using r(4) j1 by simp
      ultimately obtain s3 where s3: "lf_deleteCurrent (l1, s2) = (Inr (), (l1, s3))" "closable t bs l1 s3" "spares t {NewBlockId fn k1} s2 s3"
        "\<exists>x1 x2. bt_stored (leaf_at t fn lay k1) s3 (?A @ ?B) x1 x2 \<and> (case C2 of [] \<Rightarrow> x1 < 0 | (k', L') # C' \<Rightarrow> x1 = k')"
        by (rule deleteCurrent_cuts)
      from on_leaf_run [where m = lf_deleteCurrent and ix = "ix\<lparr>bi_leaf := Some l1\<rparr>", OF _ s3(1)]
      have "on_leaf lf_deleteCurrent (ix\<lparr>bi_leaf := Some l1\<rparr>, s2) = (Inr (), (ix\<lparr>bi_leaf := Some l1\<rparr>, s3))" by simp
      then have "bi_delete_loop (Suc n) rid (ix, s) = (Inr (), (ix\<lparr>bi_leaf := Some l1\<rparr>, s3))"
        using nxt True rid same by (simp add: bnd_def ID_Equals_eq)
      moreover have "cuts_entry t fn lay key rid j C s s3"
      proof -
        have "C = P @ (k1, ?A @ ?e # ?B) # C2" using r(5) C1 L1 by simp
        moreover have "chain_entries ?R = X @ ?e # ?B @ chain_entries C2" using R C1 by simp
        moreover have "spares t {NewBlockId fn k1} s s3" using spares_trans [OF sp2 s3(3)] by simp
        moreover have "the_entry key rid ?e" using hk same by (simp add: the_entry_def)
        ultimately show ?thesis unfolding cuts_entry_def using X s3(4) by blast
      qed
      moreover have "\<exists>e \<in> set (chain_entries ?R). the_entry key rid e" unfolding R using hk same by (auto simp: the_entry_def)
      ultimately show ?thesis using s3(2) by auto
    next
      case other: False
      have k1: "keyed key (chain_entries (rest_from (Suc j1) C1))"
        using keyed_tail [of key "X @ [?e]" "chain_entries (rest_from (Suc j1) C1)"] Suc.prems(4) R by (metis append_assoc append_Cons append_Nil)
      have n1: "chain_steps (rest_from (Suc j1) C1) < n" using tail(2) E(2) True Suc.prems(5) by linarith
      have sl: "lf_slot l1 = int (Suc j1) - 1" "Suc j1 \<le> length (snd (hd C1))" using r(4) j1 C1 by simp_all
      obtain l' s' where ih: "bi_delete_loop n rid (ix\<lparr>bi_leaf := Some l1\<rparr>, s2) = (Inr (), (ix\<lparr>bi_leaf := Some l1, bi_leaf := Some l'\<rparr>, s'))"
        "closable t bs l' s'" "if \<exists>e \<in> set (chain_entries (rest_from (Suc j1) C1)). the_entry key rid e
          then cuts_entry t fn lay key rid (Suc j1) C1 s2 s' else spares t {} s2 s'"
        using Suc.IH [OF s2(2) sl k1 n1, of "ix\<lparr>bi_leaf := Some l1\<rparr>"] by auto
      have "bi_delete_loop (Suc n) rid (ix, s) = (Inr (), (ix\<lparr>bi_leaf := Some l'\<rparr>, s'))"
        using nxt True rid other ih(1) by (simp add: bnd_def ID_Equals_eq)
      moreover have Y: "\<forall>y \<in> set (X @ [?e]). \<not> the_entry key rid y" using X other by (auto simp: the_entry_def)
      have R': "chain_entries ?R = (X @ [?e]) @ chain_entries (rest_from (Suc j1) C1)" using R by simp
      have "if \<exists>e \<in> set (chain_entries ?R). the_entry key rid e then cuts_entry t fn lay key rid j C s s' else spares t {} s s'"
      proof (cases "\<exists>e \<in> set (chain_entries (rest_from (Suc j1) C1)). the_entry key rid e")
        case True
        then have "cuts_entry t fn lay key rid j C s s'" using cuts_later [OF _ sp2 r(5) R' Y] ih(3) by simp
        then show ?thesis using True unfolding R' by auto
      next
        case False
        then have "spares t {} s s'" using spares_trans [OF sp2] ih(3) by fastforce
        moreover have "\<not> (\<exists>e \<in> set (chain_entries ?R). the_entry key rid e)" using False Y unfolding R' set_append by blast
        ultimately show ?thesis by simp
      qed
      ultimately show ?thesis using ih(2) by blast
    qed
  qed
qed simp

section \<open>Deletion from the tree\<close>

primrec cut_first :: "('a \<Rightarrow> bool) \<Rightarrow> 'a list \<Rightarrow> 'a list" where
  "cut_first p [] = []"
| "cut_first p (x # xs) = (if p x then xs else x # cut_first p xs)"

lemma cut_found: "\<forall>x \<in> set X. \<not> p x \<Longrightarrow> p e \<Longrightarrow> cut_first p (X @ e # Y) = X @ Y"
  by (induction X) simp_all

lemma cut_none: "\<forall>x \<in> set X. \<not> p x \<Longrightarrow> cut_first p X = X"
  by (induction X) simp_all

lemma bi_Delete_run:
  assumes leaf: "bi_leaf ix = None" and ix: "index_leads ix h s key C" and inv: "pool_inv s" and pi: "pins_are s (bi_tx ix) bs"
    and room: "length bs + h < card (own_buffers s (bi_tx ix))" and n: "h < n" "chain_steps C < n"
  obtains s' where "bi_Delete n (Some key) rid (ix, s) = (Inr (), (ix, s'))" and "pool_inv s'" and "pins_are s' (bi_tx ix) bs"
    and "if \<exists>e \<in> set (chain_entries C). the_entry key rid e
      then cuts_entry (bi_tx ix) (leafFile (bi_name ix)) (bi_leafLayout ix) key rid 0 C s s' else spares (bi_tx ix) {} s s'"
proof -
  let ?t = "bi_tx ix" and ?fn = "leafFile (bi_name ix)" and ?lay = "bi_leafLayout ix"
  obtain k L C0 where C: "C = (k, L) # C0" using ix by (cases C) (auto simp: index_leads_def)
  obtain l s1 where l: "bi_BeforeFirst n (Some key) (ix, s) = (Inr (), (ix\<lparr>bi_leaf := Some l\<rparr>, s1))"
    "walking ?t ?fn ?lay key bs l s1 C" "lf_slot l = int (length (takeWhile (key_below key) L)) - 1" "spares ?t {} s s1"
    using bi_BeforeFirst_walks [OF leaf ix [unfolded C] inv pi room n(1)] C by metis
  have lay: "leaf_layout ?lay key" and ky: "keyed key (chain_entries C)" using ix by (simp_all add: index_leads_def)
  let ?j = "length (takeWhile (key_below key) L)"
  have d: "drop ?j L = dropWhile (key_below key) L" by (simp add: dropWhile_eq_drop)
  have R0: "chain_entries (rest_from 0 C) = takeWhile (key_below key) L @ chain_entries (rest_from ?j C)" by (simp add: d C)
  have R1: "chain_entries C = takeWhile (key_below key) L @ chain_entries (rest_from ?j C)" by (simp add: d C)
  have Y: "\<forall>y \<in> set (takeWhile (key_below key) L). \<not> the_entry key rid y"
    by (auto simp: the_entry_def has_key_def key_below_def dest: set_takeWhileD)
  have j: "?j \<le> length (snd (hd C))" using length_takeWhile_le C by simp
  have kyj: "keyed key (chain_entries (rest_from ?j C))" using keyed_tail ky unfolding R1 by blast
  have nj: "chain_steps (rest_from ?j C) < n" using n(2) C by (simp add: chain_steps_def)
  obtain l' s2 where s2: "bi_delete_loop n rid (ix\<lparr>bi_leaf := Some l\<rparr>, s1) = (Inr (), (ix\<lparr>bi_leaf := Some l'\<rparr>, s2))"
    "closable ?t bs l' s2" "if \<exists>e \<in> set (chain_entries (rest_from ?j C)). the_entry key rid e
       then cuts_entry ?t ?fn ?lay key rid ?j C s1 s2 else spares ?t {} s1 s2"
    using delete_loop_cuts [OF lay l(2,3) j kyj nj, of "ix\<lparr>bi_leaf := Some l\<rparr>" rid] by auto
  obtain p where p: "lf_page l' = Some p" "bp_tx p = ?t" "pins_are s2 ?t (bp_block p # bs)" "pool_inv s2"
    using s2(2) unfolding closable_def by blast
  obtain s3 where s3: "lf_close (l', s2) = (Inr (), (l'\<lparr>lf_page := None\<rparr>, s3))" "pool_inv s3" "pins_are s3 ?t bs" "spares ?t {} s2 s3"
    by (rule lf_close_page [OF p(1,4)]) (use p in simp_all)
  have "ix\<lparr>bi_leaf := None\<rparr> = ix" using leaf by (cases ix) simp
  then have "bi_Close (ix\<lparr>bi_leaf := Some l'\<rparr>, s2) = (Inr (), (ix, s3))"
    using s3(1) by (simp add: bi_Close_def on_leaf_def obj_gets_def obj_upd_def bnd_def go_unfold)
  then have run: "bi_Delete n (Some key) rid (ix, s) = (Inr (), (ix, s3))"
    using l(1) s2(1) by (simp add: bi_Delete_def bnd_def with_defer_def)
  have "if \<exists>e \<in> set (chain_entries C). the_entry key rid e then cuts_entry ?t ?fn ?lay key rid 0 C s s3 else spares ?t {} s s3"
  proof (cases "\<exists>e \<in> set (chain_entries (rest_from ?j C)). the_entry key rid e")
    case True
    have "cuts_entry ?t ?fn ?lay key rid 0 C s s2"
      by (rule cuts_later [OF _ l(4) append_Nil [symmetric] R0 Y]) (use s2(3) True in simp)
    then obtain P k A e B C2 X where c: "C = P @ (k, A @ e # B) # C2" "the_entry key rid e"
      "chain_entries (rest_from 0 C) = X @ e # B @ chain_entries C2" "\<forall>x \<in> set X. \<not> the_entry key rid x" "spares ?t {NewBlockId ?fn k} s s2"
      and st: "\<exists>x1 x2. bt_stored (leaf_at ?t ?fn ?lay k) s2 (A @ B) x1 x2 \<and> (case C2 of [] \<Rightarrow> x1 < 0 | (k', L') # C' \<Rightarrow> x1 = k')"
      unfolding cuts_entry_def by blast
    have "spares ?t {NewBlockId ?fn k} s s3" using spares_trans [OF c(5) s3(4)] by simp
    moreover have "\<exists>x1 x2. bt_stored (leaf_at ?t ?fn ?lay k) s3 (A @ B) x1 x2 \<and> (case C2 of [] \<Rightarrow> x1 < 0 | (k', L') # C' \<Rightarrow> x1 = k')"
    proof -
      obtain x1 x2 where "bt_stored (leaf_at ?t ?fn ?lay k) s2 (A @ B) x1 x2" "case C2 of [] \<Rightarrow> x1 < 0 | (k', L') # C' \<Rightarrow> x1 = k'" using st by blast
      then show ?thesis using spares_stored [OF s3(4), of "leaf_at ?t ?fn ?lay k"] by simp blast
    qed
    ultimately have "cuts_entry ?t ?fn ?lay key rid 0 C s s3" unfolding cuts_entry_def using c(1-4) by blast
    then show ?thesis using True unfolding R1 by auto
  next
    case False
    then have "spares ?t {} s s3" using spares_trans [OF l(4) spares_trans [OF _ s3(4)]] s2(3) by fastforce
    moreover have "\<not> (\<exists>e \<in> set (chain_entries C). the_entry key rid e)" using False Y unfolding R1 set_append by blast
    ultimately show ?thesis by simp
  qed
  then show thesis using that run s3(2,3) by blast
qed

lemma btree_spares:
  assumes bt: "btree ix s h T" and sp: "spares (bi_tx ix) {} s s'"
  shows "btree ix s' h T"
proof -
  have "ix_dir ix s' (Suc h) k lm es N" if "ix_dir ix s (Suc h) k lm es N" for k lm es N
    by (rule dir_tree_spares [OF sp that]) simp
  then show ?thesis using bt chain_spares [OF sp] unfolding btree_def by meson
qed

lemma leaves_apart:
  assumes "distinct (map fst (leaves (X @ (u, j, M) # Y)))"
  shows "j \<notin> fst ` set (leaves X)" and "j \<notin> fst ` set (leaves Y)"
  using assms unfolding set_map [symmetric] map_append list.map snd_conv fst_conv by auto

lemma btree_delete:
  assumes leaf: "bi_leaf ix = None" and bt: "btree ix s h T" and ty: "val_type key = key_type ix" and inv: "pool_inv s"
    and pi: "pins_are s (bi_tx ix) bs" and room: "length bs + h < card (own_buffers s (bi_tx ix))"
    and n: "h < n" "length (all_entries T) + length T < n"
  obtains s' T' where "bi_Delete n (Some key) rid (ix, s) = (Inr (), (ix, s'))" and "btree ix s' h T'"
    and "all_entries T' = cut_first (the_entry key rid) (all_entries T)" and "pool_inv s'" and "pins_are s' (bi_tx ix) bs"
    and "length T' = length T" and "spares (bi_tx ix) {c. File c = leafFile (bi_name ix)} s s'"
proof -
  let ?t = "bi_tx ix" and ?fn = "leafFile (bi_name ix)" and ?lay = "bi_leafLayout ix"
  obtain T1 v k L T2 where T: "T = T1 @ (v, k, L) # T2" and ix: "index_leads ix h s key ((k, L) # leaves T2)"
    and none: "\<forall>e \<in> set (all_entries T1). \<not> has_key key e"
    by (rule btree_leads [OF bt ty]) blast
  let ?C = "leaves ((v, k, L) # T2)"
  have steps: "chain_steps ((k, L) # leaves T2) < n" using n(2) unfolding T by (simp add: chain_steps_def)
  have none': "\<forall>x \<in> set (all_entries T1). \<not> the_entry key rid x" using none by (simp add: the_entry_def)
  obtain s' where s': "bi_Delete n (Some key) rid (ix, s) = (Inr (), (ix, s'))" "pool_inv s'" "pins_are s' ?t bs"
    "if \<exists>e \<in> set (chain_entries ?C). the_entry key rid e then cuts_entry ?t ?fn ?lay key rid 0 ?C s s' else spares ?t {} s s'"
    using bi_Delete_run [OF leaf ix inv pi room n(1) steps, of rid] unfolding list.map snd_conv by blast
  show thesis
  proof (cases "\<exists>e \<in> set (chain_entries ?C). the_entry key rid e")
    case False
    have "\<forall>x \<in> set (all_entries T). \<not> the_entry key rid x" using False none' unfolding T by auto
    then have "all_entries T = cut_first (the_entry key rid) (all_entries T)" by (simp add: cut_none)
    moreover have "btree ix s' h T" "spares ?t {c. File c = ?fn} s s'"
      using btree_spares [OF bt] spares_mono [of ?t "{}" s s'] s'(4) False by simp_all
    ultimately show thesis using that s'(1-3) by blast
  next
    case True
    then have "cuts_entry ?t ?fn ?lay key rid 0 ?C s s'" using s'(4) by simp
    then obtain P j A e B C2 X where c: "?C = P @ (j, A @ e # B) # C2" "the_entry key rid e"
      "chain_entries (rest_from 0 ?C) = X @ e # B @ chain_entries C2" "\<forall>x \<in> set X. \<not> the_entry key rid x" "spares ?t {NewBlockId ?fn j} s s'"
      and st: "\<exists>x1 x2. bt_stored (leaf_at ?t ?fn ?lay j) s' (A @ B) x1 x2 \<and> (case C2 of [] \<Rightarrow> x1 < 0 | (k', L') # C' \<Rightarrow> x1 = k')"
      unfolding cuts_entry_def by blast
    obtain U u V where U: "(v, k, L) # T2 = U @ (u, j, A @ e # B) # V" "leaves U = P" "leaves V = C2"
      using c(1) unfolding map_eq_append_conv map_eq_Cons_conv by fastforce
    have T': "T = (T1 @ U) @ (u, j, A @ e # B) # V" unfolding T using U(1) by simp
    let ?T = "(T1 @ U) @ (u, j, A @ B) # V"
    have lay: "tree_layouts ix" "bi_root ix = NewBlockId (dirFile (bi_name ix)) 0" and wf: "segs_wf T" and so: "msorted T"
      and ch: "ix_chain ix s (leaves T)" and di: "distinct (map fst (leaves T))" and tyT: "\<forall>m \<in> set (marks T). val_type (fst m) = key_type ix"
      using bt unfolding btree_def by blast+
    obtain N where tr: "ix_dir ix s (Suc h) 0 (fst (snd (hd T))) (seps T) N" "distinct N" using bt unfolding btree_def by blast
    note jn = leaves_apart [OF di [unfolded T']]
    have "ix_chain ix s (leaves V)" using chain_tail [of _ _ _ s "leaves (T1 @ U @ [(u, j, A @ e # B)])" "leaves V"] ch unfolding T' by simp
    then have "ix_chain ix s' (leaves V)" by (rule chain_kept [OF c(5)]) (use jn in auto)
    then have "ix_chain ix s' ((j, A @ B) # leaves V)" using st U(3) by auto
    from chain_replace [OF c(5) this, of "leaves (T1 @ U)" "A @ e # B" "leaves V"]
    have "ix_chain ix s' (leaves ?T)" using ch jn(1) unfolding T' by auto
    moreover have "ix_dir ix s' (Suc h) 0 (fst (snd (hd T))) (seps T) N" by (rule dir_tree_spares [OF c(5) tr(1)]) (use files_apart in auto)
    moreover have "seps ?T = seps T" "fst (snd (hd ?T)) = fst (snd (hd T))" "map fst (leaves ?T) = map fst (leaves T)" "segs_wf ?T"
      using wf unfolding T' by (cases "T1 @ U"; simp add: seg_sep_def segs_wf_def split: option.splits)+
    moreover have "msorted ?T" "\<forall>m \<in> set (marks ?T). val_type (fst m) = key_type ix"
      using so tyT unfolding T' msorted_def by (auto simp: seg_marks_parts ent_marks_simps sorted_wrt_append)
    ultimately have "btree ix s' h ?T" using lay di tr(2) unfolding btree_def by metis
    moreover have "all_entries ?T = cut_first (the_entry key rid) (all_entries T)"
    proof -
      have "all_entries U @ A @ e # B @ all_entries V = X @ e # B @ all_entries V"
        using c(3) arg_cong [OF U(1), of all_entries] U(3) by simp
      then have X: "X = all_entries U @ A" by simp
      have "all_entries T = (all_entries T1 @ X) @ e # B @ all_entries V" unfolding T' X by simp
      moreover have "\<forall>x \<in> set (all_entries T1 @ X). \<not> the_entry key rid x" using none' c(4) by auto
      ultimately show ?thesis using cut_found [of "all_entries T1 @ X" "the_entry key rid" e] c(2) X by simp
    qed
    moreover have "length ?T = length T" unfolding T' by simp
    moreover have "spares ?t {c. File c = ?fn} s s'" by (rule spares_mono [OF c(5)]) simp
    ultimately show thesis using that s'(1-3) by blast
  qed
qed

end
