(* ===== verification/IndexContract.thy ===== *)
theory IndexContract
  imports IndexDelete
begin

text \<open>
  \<^verbatim>\<open>index/index.go\<close>: what an index promises to its clients.

  The locale \<open>index_contract\<close> states the interface \<open>Index\<close> over an abstract state that holds a sorted list of entries:
  searching filters the list, inserting a new key puts an entry in its place, deleting cuts one out. What
  a search finds after an insertion or a deletion follows from that alone. The B+ tree is an instance.
\<close>

section \<open>Entries with one key\<close>

lemma same_key_apart:
  assumes "vcmp k key = 0" and "val_type k = val_type key" and "val_type (bt_key e) = val_type key" and "key_below k e"
  shows "\<not> has_key key e"
proof
  assume "has_key key e"
  then have "vcmp (bt_key e) key = 0" by (simp add: has_key_def)
  then have le: "vcmp k key \<le> 0" "vcmp key (bt_key e) \<le> 0"
    using assms(1) vcmp_anti [OF assms(3)] by linarith+
  have "vcmp k (bt_key e) \<le> 0" by (rule vcmp_trans [OF assms(2) assms(3) [symmetric] le])
  moreover have "vcmp (bt_key e) k = - vcmp k (bt_key e)" by (rule vcmp_anti) (simp add: assms(2,3))
  ultimately show False using assms(4) by (simp add: key_below_def)
qed

lemma filter_put:
  assumes "keyed key L" and "val_type k = val_type key"
  shows "filter (has_key key) (leaf_put k r L) =
    (if vcmp k key = 0 then [leaf_entry k r] else []) @ filter (has_key key) L"
proof -
  have L: "filter (has_key key) L = filter (has_key key) (takeWhile (key_below k) L) @ filter (has_key key) (dropWhile (key_below k) L)"
    unfolding filter_append [symmetric] by simp
  have "filter (has_key key) (takeWhile (key_below k) L) = []" if "vcmp k key = 0"
    using same_key_apart [OF that assms(2)] assms(1) by (auto simp: filter_empty_conv keyed_def dest: set_takeWhileD)
  then show ?thesis unfolding leaf_put_def L by (auto simp: has_key_def)
qed

text \<open>Keys that compare equal are interchangeable.\<close>

lemma vcmp_equal_trans:
  assumes "vcmp a b = 0" and "vcmp b c = 0" and "val_type a = val_type b" and "val_type b = val_type c"
  shows "vcmp a c = 0"
proof -
  have le: "vcmp a b \<le> 0" "vcmp b c \<le> 0" "vcmp b a \<le> 0" "vcmp c b \<le> 0"
    using assms(1,2) vcmp_anti [OF assms(3)] vcmp_anti [OF assms(4)] by linarith+
  have "vcmp a c \<le> 0" by (rule vcmp_trans [OF assms(3,4) le(1,2)])
  moreover have "vcmp c a \<le> 0" by (rule vcmp_trans [OF assms(4) [symmetric] assms(3) [symmetric] le(4,3)])
  moreover have "vcmp c a = - vcmp a c" by (rule vcmp_anti [OF trans [OF assms(3,4)]])
  ultimately show ?thesis by linarith
qed

lemma vcmp_equal_sym: "vcmp a b = 0 \<Longrightarrow> val_type a = val_type b \<Longrightarrow> vcmp b a = 0"
  using vcmp_anti [of a b] by linarith

lemma has_key_cong:
  assumes eq: "vcmp key k = 0" and ty: "val_type key = val_type k" and te: "val_type (bt_key e) = val_type k"
  shows "has_key key e = has_key k e"
proof
  assume "has_key key e"
  then have "vcmp (bt_key e) key = 0" by (simp add: has_key_def)
  from vcmp_equal_trans [OF this eq trans [OF te ty [symmetric]] ty] show "has_key k e" by (simp add: has_key_def)
next
  assume "has_key k e"
  then have "vcmp (bt_key e) k = 0" by (simp add: has_key_def)
  from vcmp_equal_trans [OF this vcmp_equal_sym [OF eq ty] te ty [symmetric]] show "has_key key e" by (simp add: has_key_def)
qed

definition found_rids :: "val \<Rightarrow> entry list \<Rightarrow> record_id list" where
  "found_rids key es = map entry_rid (filter (has_key key) es)"

lemma found_cut:
  assumes "keyed k es" and "val_type key = val_type k"
  shows "found_rids k (cut_first (the_entry key rid) es) = (if vcmp key k = 0 then remove1 rid (found_rids k es) else found_rids k es)"
proof -
  have ty: "\<forall>e \<in> set es. val_type (bt_key e) = val_type k" using assms(1) by (simp add: keyed_def)
  have apart: "\<not> has_key k e" if ne: "vcmp key k \<noteq> 0" and hk: "has_key key e" and te: "val_type (bt_key e) = val_type k" for e
  proof
    assume "has_key k e"
    then have ek: "vcmp (bt_key e) k = 0" and "vcmp (bt_key e) key = 0" using hk by (simp_all add: has_key_def)
    then have "vcmp key (bt_key e) = 0" using vcmp_equal_sym [of "bt_key e" key] te assms(2) by simp
    from vcmp_equal_trans [OF this ek trans [OF assms(2) te [symmetric]] te] show False using ne by simp
  qed
  show ?thesis
    using ty
  proof (induction es)
    case Nil
    then show ?case by (simp add: found_rids_def)
  next
    case (Cons e es)
    have te: "val_type (bt_key e) = val_type k" using Cons.prems by simp
    show ?case
    proof (cases "vcmp key k = 0")
      case True
      have "has_key key e = has_key k e" using has_key_cong True assms(2) te by blast
      then show ?thesis using Cons True by (auto simp: found_rids_def the_entry_def)
    next
      case False
      then show ?thesis using Cons apart [where e = e] te by (auto simp: found_rids_def the_entry_def)
    qed
  qed
qed

lemma found_put:
  assumes "keyed k es" and "val_type key = val_type k" and new: "\<forall>e \<in> set es. \<not> has_key key e"
  shows "found_rids k (leaf_put key rid es) = (if vcmp key k = 0 then [rid] else found_rids k es)"
proof -
  have "filter (has_key k) es = []" if "vcmp key k = 0"
    using has_key_cong [OF that assms(2)] assms(1) new by (auto simp: filter_empty_conv keyed_def)
  then show ?thesis unfolding found_rids_def filter_put [OF assms(1,2)] by simp
qed

section \<open>The contract\<close>

locale index_contract =
  fixes holds :: "'s \<Rightarrow> entry list \<Rightarrow> bool" and typed :: "'s \<Rightarrow> val \<Rightarrow> bool" and ready :: "'s \<Rightarrow> entry list \<Rightarrow> val \<Rightarrow> record_id \<Rightarrow> bool"
    and insert_op :: "val \<Rightarrow> record_id \<Rightarrow> ('s, unit) go" and delete_op :: "val \<Rightarrow> record_id \<Rightarrow> ('s, unit) go"
    and search_op :: "val \<Rightarrow> ('s, record_id list) go"
  assumes holds_keyed: "holds s es \<Longrightarrow> typed s key \<Longrightarrow> keyed key es"
    and typed_same: "typed s key \<Longrightarrow> typed s k \<longleftrightarrow> val_type k = val_type key"
    and ready_typed: "ready s es key rid \<Longrightarrow> typed s key"
    and search_law: "holds s es \<Longrightarrow> typed s key \<Longrightarrow>
      \<exists>s'. search_op key s = (Inr (found_rids key es), s') \<and> holds s' es \<and> typed s' = typed s"
    and insert_law: "holds s es \<Longrightarrow> ready s es key rid \<Longrightarrow> \<forall>e \<in> set es. \<not> has_key key e \<Longrightarrow>
      \<exists>s'. insert_op key rid s = (Inr (), s') \<and> holds s' (leaf_put key rid es) \<and> typed s' = typed s"
    and delete_law: "holds s es \<Longrightarrow> typed s key \<Longrightarrow>
      \<exists>s'. delete_op key rid s = (Inr (), s') \<and> holds s' (cut_first (the_entry key rid) es) \<and> typed s' = typed s"
begin

lemma insert_then_search:
  assumes h: "holds s es" and r: "ready s es key rid" and new: "\<forall>e \<in> set es. \<not> has_key key e" and ty: "val_type key = val_type k"
  shows "\<exists>s'. bnd (insert_op key rid) (\<lambda>_. search_op k) s = (Inr (if vcmp key k = 0 then [rid] else found_rids k es), s')"
proof -
  have k: "typed s k" using typed_same [OF ready_typed [OF r]] ty by simp
  obtain s1 where s1: "insert_op key rid s = (Inr (), s1)" "holds s1 (leaf_put key rid es)" "typed s1 = typed s"
    using insert_law [OF h r new] by blast
  obtain s2 where "search_op k s1 = (Inr (found_rids k (leaf_put key rid es)), s2)" using search_law [OF s1(2), of k] s1(3) k by auto
  then show ?thesis using s1(1) found_put [OF holds_keyed [OF h k] ty new] by (simp add: bnd_def)
qed

lemma delete_then_search:
  assumes h: "holds s es" and key: "typed s key" and ty: "val_type key = val_type k"
  shows "\<exists>s'. bnd (delete_op key rid) (\<lambda>_. search_op k) s =
    (Inr (if vcmp key k = 0 then remove1 rid (found_rids k es) else found_rids k es), s')"
proof -
  have k: "typed s k" using typed_same [OF key] ty by simp
  obtain s1 where s1: "delete_op key rid s = (Inr (), s1)" "holds s1 (cut_first (the_entry key rid) es)" "typed s1 = typed s"
    using delete_law [OF h key] by blast
  obtain s2 where "search_op k s1 = (Inr (found_rids k (cut_first (the_entry key rid) es)), s2)" using search_law [OF s1(2), of k] s1(3) k by auto
  then show ?thesis using s1(1) found_cut [OF holds_keyed [OF h k] ty] by (simp add: bnd_def)
qed

text \<open>Taking back an insertion.\<close>

lemma insert_delete_search:
  assumes h: "holds s es" and r: "ready s es key rid" and new: "\<forall>e \<in> set es. \<not> has_key key e" and ty: "val_type key = val_type k"
  shows "\<exists>s'. bnd (insert_op key rid) (\<lambda>_. bnd (delete_op key rid) (\<lambda>_. search_op k)) s = (Inr (found_rids k es), s')"
proof -
  have key: "typed s key" by (rule ready_typed [OF r])
  then have k: "typed s k" using typed_same [OF key] ty by simp
  obtain s1 where s1: "insert_op key rid s = (Inr (), s1)" "holds s1 (leaf_put key rid es)" "typed s1 = typed s"
    using insert_law [OF h r new] by blast
  have ky: "keyed k es" by (rule holds_keyed [OF h k])
  have none: "found_rids k es = []" if "vcmp key k = 0"
    using has_key_cong [OF that ty] ky new by (auto simp: found_rids_def filter_empty_conv keyed_def)
  obtain s2 where "bnd (delete_op key rid) (\<lambda>_. search_op k) s1 =
      (Inr (if vcmp key k = 0 then remove1 rid (found_rids k (leaf_put key rid es)) else found_rids k (leaf_put key rid es)), s2)"
    using delete_then_search [OF s1(2), of key k rid] s1(3) key ty by auto
  moreover have "(if vcmp key k = 0 then remove1 rid (found_rids k (leaf_put key rid es)) else found_rids k (leaf_put key rid es)) = found_rids k es"
    unfolding found_put [OF ky ty new] using none by simp
  ultimately show ?thesis using s1(1) by (simp add: bnd_def [of "insert_op key rid"])
qed

end

section \<open>The B+ tree keeps the contract\<close>

text \<open>The state of the contract is the index with its world, for a transaction that holds the pins \<open>bs\<close> and for given fuel.\<close>

definition tree_holds :: "block_id list \<Rightarrow> nat \<Rightarrow> nat \<Rightarrow> btree_index \<times> 'z world_scheme \<Rightarrow> entry list \<Rightarrow> bool" where
  "tree_holds bs m n is es \<longleftrightarrow> (case is of (ix, s) \<Rightarrow> bi_leaf ix = None \<and> pool_inv s \<and> pins_are s (bi_tx ix) bs \<and> length es < m \<and>
     (\<exists>h T. btree ix s h T \<and> es = all_entries T \<and> length bs + h < card (own_buffers s (bi_tx ix)) \<and> h < n \<and> length es + length T < n))"

definition tree_typed :: "btree_index \<times> 'z world_scheme \<Rightarrow> val \<Rightarrow> bool" where
  "tree_typed is key \<longleftrightarrow> val_type key = key_type (fst is)"

definition tree_ready :: "block_id list \<Rightarrow> nat \<Rightarrow> nat \<Rightarrow> btree_index \<times> 'z world_scheme \<Rightarrow> entry list \<Rightarrow> val \<Rightarrow> record_id \<Rightarrow> bool" where
  "tree_ready bs m n is es key rid \<longleftrightarrow> (case is of (ix, s) \<Rightarrow> leaf_takes (ix_leaf ix 0) key rid \<and> length es + 1 < m \<and>
     (\<exists>h T. btree ix s h T \<and> es = all_entries T \<and> insert_ready ix s h bs n \<and> Suc h < n \<and> length es + length T + 2 < n))"

abbreviation tree_search :: "nat \<Rightarrow> nat \<Rightarrow> val \<Rightarrow> ('z, record_id list) index_go" where
  "tree_search m n key \<equiv> bnd (bi_BeforeFirst n (Some key)) (\<lambda>_. bnd (index_rids m n) (\<lambda>rs. bnd bi_Close (\<lambda>_. ret rs)))"

lemma tree_holds_search:
  assumes h: "tree_holds bs m n is es" and ty: "tree_typed is key"
  shows "\<exists>s'. tree_search m n key is = (Inr (found_rids key es), s') \<and> tree_holds bs m n s' es \<and> tree_typed s' = tree_typed is"
proof -
  obtain ix s where x: "is = (ix, s)" by (cases "is")
  obtain ht T where bt: "bi_leaf ix = None" "pool_inv s" "pins_are s (bi_tx ix) bs" "length es < m" "btree ix s ht T" "es = all_entries T"
    "length bs + ht < card (own_buffers s (bi_tx ix))" "ht < n" "length es + length T < n" using h unfolding x tree_holds_def by auto
  have kt: "val_type key = key_type ix" using ty by (simp add: tree_typed_def x)
  have m: "length (filter (has_key key) (all_entries T)) < m"
    by (rule le_less_trans [OF length_filter_le]) (use bt(4,6) in simp)
  obtain l s1 C where s1: "bnd (bi_BeforeFirst n (Some key)) (\<lambda>_. index_rids m n) (ix, s) = (Inr (found_rids key es), (ix\<lparr>bi_leaf := Some l\<rparr>, s1))"
    and w: "walking (bi_tx ix) (leafFile (bi_name ix)) (bi_leafLayout ix) key bs l s1 C" and sp: "spares (bi_tx ix) {} s s1"
    using tree_finds [OF bt(1,5) kt bt(2,3,7,8) m] bt(6,9) unfolding found_rids_def by metis
  obtain s2 where s2: "lf_close (l, s1) = (Inr (), (l\<lparr>lf_page := None\<rparr>, s2))" "pool_inv s2" "pins_are s2 (bi_tx ix) bs" "spares (bi_tx ix) {} s1 s2"
    by (rule lf_close_walking [OF w]) blast
  have "ix\<lparr>bi_leaf := None\<rparr> = ix" using bt(1) by (cases ix) simp
  then have "bi_Close (ix\<lparr>bi_leaf := Some l\<rparr>, s1) = (Inr (), (ix, s2))"
    using s2(1) by (simp add: bi_Close_def on_leaf_def obj_gets_def obj_upd_def bnd_def go_unfold)
  then have "tree_search m n key is = (Inr (found_rids key es), (ix, s2))"
    using s1 unfolding x by (auto simp: bnd_def go_unfold split: sum.splits prod.splits)
  moreover have sp2: "spares (bi_tx ix) {} s s2" using spares_trans [OF sp s2(4)] by simp
  moreover have "own_buffers s2 (bi_tx ix) = own_buffers s (bi_tx ix)" using sp2 by (simp add: spares_def)
  then have "tree_holds bs m n (ix, s2) es"
    using bt s2(2,3) btree_spares [OF bt(5) sp2] unfolding tree_holds_def by auto
  ultimately show ?thesis by (intro exI [of _ "(ix, s2)"]) (simp add: tree_typed_def x fun_eq_iff)
qed

lemma tree_holds_insert:
  assumes h: "tree_holds bs m n is es" and r: "tree_ready bs m n is es key rid" and new: "\<forall>e \<in> set es. \<not> has_key key e"
  shows "\<exists>s'. bi_Insert n (Some key) rid is = (Inr (), s') \<and> tree_holds bs m n s' (leaf_put key rid es) \<and> tree_typed s' = tree_typed is"
proof -
  obtain ix s where x: "is = (ix, s)" by (cases "is")
  obtain ht T where bt: "bi_leaf ix = None" "btree ix s ht T" "es = all_entries T"
    and r': "leaf_takes (ix_leaf ix 0) key rid" "insert_ready ix s ht bs n" "Suc ht < n" "length (all_entries T) + length T + 2 < n"
      "length (all_entries T) + 1 < m"
    using h r unfolding x tree_holds_def tree_ready_def by auto
  obtain s' h' T' where s': "bi_Insert n (Some key) rid (ix, s) = (Inr (), (ix, s'))" "btree ix s' h' T'"
    "all_entries T' = leaf_put key rid (all_entries T)" "h' = ht \<or> h' = Suc ht" "pool_inv s'" "pins_are s' (bi_tx ix) bs"
    "spares (bi_tx ix) {c. File c = leafFile (bi_name ix) \<or> File c = dirFile (bi_name ix)} s s'" "length T' \<le> Suc (length T)"
    by (rule btree_insert [OF bt(2) r'(1) new [unfolded bt(3)] r'(2)])
  have len: "length (leaf_put key rid (all_entries T)) = Suc (length (all_entries T))"
    using arg_cong [OF leaf_put_mset [of key rid "all_entries T"], of size] by simp
  have own: "own_buffers s' (bi_tx ix) = own_buffers s (bi_tx ix)" using s'(7) by (simp add: spares_def)
  have "length bs + h' < card (own_buffers s' (bi_tx ix))" "h' < n" using r'(2,3) s'(4) own by (auto simp: insert_ready_def)
  moreover have "length (all_entries T') + length T' < n" using r'(4) len s'(3,8) by simp
  ultimately have "tree_holds bs m n (ix, s') (leaf_put key rid es)"
    using bt(1) s'(2,3,5,6) len r'(5) unfolding tree_holds_def bt(3) prod.case
    by (intro conjI exI [of _ h'] exI [of _ T']) simp_all
  then show ?thesis using s'(1) unfolding x by (intro exI [of _ "(ix, s')"]) (simp add: tree_typed_def fun_eq_iff)
qed

lemma cut_length: "length (cut_first p es) \<le> length es"
  by (induction es) simp_all

lemma tree_holds_delete:
  assumes h: "tree_holds bs m n is es" and ty: "tree_typed is key"
  shows "\<exists>s'. bi_Delete n (Some key) rid is = (Inr (), s') \<and> tree_holds bs m n s' (cut_first (the_entry key rid) es) \<and> tree_typed s' = tree_typed is"
proof -
  obtain ix s where x: "is = (ix, s)" by (cases "is")
  obtain ht T where bt: "bi_leaf ix = None" "pool_inv s" "pins_are s (bi_tx ix) bs" "length es < m" "btree ix s ht T" "es = all_entries T"
    "length bs + ht < card (own_buffers s (bi_tx ix))" "ht < n" "length es + length T < n" using h unfolding x tree_holds_def by auto
  have kt: "val_type key = key_type ix" using ty by (simp add: tree_typed_def x)
  obtain s' T' where s': "bi_Delete n (Some key) rid (ix, s) = (Inr (), (ix, s'))" "btree ix s' ht T'"
    "all_entries T' = cut_first (the_entry key rid) (all_entries T)" "pool_inv s'" "pins_are s' (bi_tx ix) bs" "length T' = length T"
    "spares (bi_tx ix) {c. File c = leafFile (bi_name ix)} s s'"
    by (rule btree_delete [OF bt(1,5) kt bt(2,3,7,8) bt(9) [unfolded bt(6)]])
  have "tree_holds bs m n (ix, s') (cut_first (the_entry key rid) es)"
    using bt s' cut_length [of "the_entry key rid" es]
    unfolding tree_holds_def prod.case by (intro conjI exI [of _ ht] exI [of _ T']) (simp_all add: spares_def)
  then show ?thesis using s'(1) unfolding x by (intro exI [of _ "(ix, s')"]) (simp add: tree_typed_def fun_eq_iff)
qed

interpretation tree: index_contract "tree_holds bs m n" tree_typed "tree_ready bs m n"
  "\<lambda>key. bi_Insert n (Some key)" "\<lambda>key. bi_Delete n (Some key)" "tree_search m n"
proof
  fix "is" :: "btree_index \<times> 'a world_scheme" and es key k rid
  show "keyed key es" if h: "tree_holds bs m n is es" and ty: "tree_typed is key"
  proof -
    obtain ix s where x: "is = (ix, s)" by (cases "is")
    obtain ht T where bt: "btree ix s ht T" "es = all_entries T" using h unfolding tree_holds_def x by auto
    have "msorted T" "mtyped key T" using bt(1) ty by (simp_all add: btree_def mtyped_def tree_typed_def x)
    from keyed_entries [OF this] show ?thesis unfolding bt(2) .
  qed
  show "tree_typed is k \<longleftrightarrow> val_type k = val_type key" if "tree_typed is key" using that by (simp add: tree_typed_def)
  show "tree_typed is key" if "tree_ready bs m n is es key rid"
    using that by (cases "is") (simp add: tree_ready_def tree_typed_def leaf_takes_def val_in_def)
qed (rule tree_holds_search tree_holds_insert tree_holds_delete; assumption)+

end
