(* ===== verification/TableScan.thy ===== *)
theory TableScan
  imports RecordPage
begin

text \<open>
  \<^verbatim>\<open>query/scan\<close> and \<^verbatim>\<open>query/table/table_scan.go\<close>: the scan interfaces and the scan of a table.

  A value of interface type is its table of methods over the state its object lives in: \<open>scan_ops\<close>
  for \<open>scan.Scan\<close>, \<open>update_ops\<close> for what \<open>scan.UpdateScan\<close> adds, and \<open>scan\<close> for a \<open>scan.Scan\<close> value
  together with the outcome of the assertion \<open>.(scan.UpdateScan)\<close> on it. Table scans are objects
  of the state (\<open>tscans\<close>); a pointer to one is its index.

  \<open>*TableScan\<close> embeds \<open>scan.UpdateScan\<close> but declares \<open>MoveToRecordID(rid record.ID)\<close> where the
  interface has a pointer parameter: the method of the outer type hides the embedded one, so the
  type does not implement the interface and the assertion fails on every table scan.
\<close>

section \<open>The interfaces\<close>

record 's scan_ops =
  m_BeforeFirst :: "('s, unit) go"
  m_Next :: "('s, bool) go"
  m_GetInt :: "string \<Rightarrow> ('s, int) go"
  m_GetLong :: "string \<Rightarrow> ('s, 64 word) go"
  m_GetShort :: "string \<Rightarrow> ('s, 16 word) go"
  m_GetString :: "string \<Rightarrow> ('s, string) go"
  m_GetBool :: "string \<Rightarrow> ('s, bool) go"
  m_GetDate :: "string \<Rightarrow> ('s, gotime) go"
  m_HasField :: "string \<Rightarrow> ('s, bool) go"
  m_GetVal :: "string \<Rightarrow> ('s, val option) go"
  m_Close :: "('s, unit) go"

record 's update_ops =
  m_SetVal :: "string \<Rightarrow> val option \<Rightarrow> ('s, unit) go"
  m_SetInt :: "string \<Rightarrow> int \<Rightarrow> ('s, unit) go"
  m_SetLong :: "string \<Rightarrow> 64 word \<Rightarrow> ('s, unit) go"
  m_SetShort :: "string \<Rightarrow> 16 word \<Rightarrow> ('s, unit) go"
  m_SetString :: "string \<Rightarrow> string \<Rightarrow> ('s, unit) go"
  m_SetBool :: "string \<Rightarrow> bool \<Rightarrow> ('s, unit) go"
  m_SetDate :: "string \<Rightarrow> gotime \<Rightarrow> ('s, unit) go"
  m_Insert :: "('s, unit) go"
  m_Delete :: "('s, unit) go"
  m_GetRecordID :: "('s, record_id) go"
  m_MoveToRecordID :: "record_id \<Rightarrow> ('s, unit) go"

record 's scan =
  sc_ops :: "'s scan_ops"
  sc_upd :: "'s update_ops option"

section \<open>Table scans\<close>

record table_scan =
  ts_tx :: int
  ts_layout :: layout
  ts_page :: "record_page option"
  ts_file :: string
  ts_slot :: int

record db = world +
  tscans :: "nat \<Rightarrow> table_scan"
  tscan_count :: nat

definition ts_upd :: "nat \<Rightarrow> (table_scan \<Rightarrow> table_scan) \<Rightarrow> ('z db_scheme, unit) go" where
  "ts_upd k f = modify (\<lambda>s. s\<lparr>tscans := (tscans s)(k := f (tscans s k))\<rparr>)"

definition ts_new :: "table_scan \<Rightarrow> ('z db_scheme, nat) go" where
  "ts_new o' = bnd (gets tscan_count) (\<lambda>k.
     bnd (modify (\<lambda>s. s\<lparr>tscans := (tscans s)(k := o'), tscan_count := Suc k\<rparr>)) (\<lambda>_. ret k))"

text \<open>A method that uses the record page; a nil page panics.\<close>

definition with_page :: "nat \<Rightarrow> (table_scan \<Rightarrow> record_page \<Rightarrow> ('z db_scheme, 'a) go) \<Rightarrow> ('z db_scheme, 'a) go" where
  "with_page k m = bnd (gets (\<lambda>s. tscans s k)) (\<lambda>ts. case ts_page ts of None \<Rightarrow> panic | Some p \<Rightarrow> m ts p)"

definition ts_Close :: "nat \<Rightarrow> ('z db_scheme, unit) go" where
  "ts_Close k = bnd (gets (\<lambda>s. tscans s k)) (\<lambda>ts. case ts_page ts of None \<Rightarrow> ret ()
     | Some p \<Rightarrow> tx_Unpin (ts_tx ts) (rp_block p))"

definition ts_moveTo :: "nat \<Rightarrow> block_id \<Rightarrow> int \<Rightarrow> ('z db_scheme, unit) go" where
  "ts_moveTo k blk slot =
     bnd (ts_Close k) (\<lambda>_.
     bnd (gets (\<lambda>s. tscans s k)) (\<lambda>ts.
     bnd (NewPage (ts_tx ts) blk (ts_layout ts)) (\<lambda>p.
     ts_upd k (\<lambda>o'. o'\<lparr>ts_page := Some p, ts_slot := slot\<rparr>))))"

definition ts_moveToBlock :: "nat \<Rightarrow> int \<Rightarrow> ('z db_scheme, unit) go" where
  "ts_moveToBlock k b =
     bnd (gets (\<lambda>s. tscans s k)) (\<lambda>ts. ts_moveTo k (NewBlockId (ts_file ts) b) (- 1))"

definition ts_MoveToRecordID :: "nat \<Rightarrow> record_id \<Rightarrow> ('z db_scheme, unit) go" where
  "ts_MoveToRecordID k rid =
     bnd (gets (\<lambda>s. tscans s k)) (\<lambda>ts.
     ts_moveTo k (NewBlockId (ts_file ts) (rid_block rid)) (rid_slot rid))"

definition ts_moveToNewBlock :: "nat \<Rightarrow> nat \<Rightarrow> ('z db_scheme, unit) go" where
  "ts_moveToNewBlock n k =
     bnd (ts_Close k) (\<lambda>_.
     bnd (gets (\<lambda>s. tscans s k)) (\<lambda>ts.
     bnd (tx_Append (ts_tx ts) (ts_file ts)) (\<lambda>blk.
     bnd (NewPage (ts_tx ts) blk (ts_layout ts)) (\<lambda>p.
     bnd (rp_Format n p) (\<lambda>_.
     ts_upd k (\<lambda>o'. o'\<lparr>ts_page := Some p, ts_slot := - 1\<rparr>))))))"

definition ts_atLastBlock :: "nat \<Rightarrow> ('z db_scheme, bool) go" where
  "ts_atLastBlock k = with_page k (\<lambda>ts p.
     bnd (tx_Size (ts_tx ts) (ts_file ts)) (\<lambda>fileSize.
     ret (BlockNumber (rp_block p) = fileSize - 1)))"

definition NewTableScan :: "nat \<Rightarrow> int \<Rightarrow> string \<Rightarrow> layout \<Rightarrow> ('z db_scheme, nat) go" where
  "NewTableScan n t tableName lay =
     bnd (gets tx_BlockSize) (\<lambda>bs.
     if slotSize lay > bs then fail ESlotTooLarge
     else
       bnd (ts_new \<lparr>ts_tx = t, ts_layout = lay, ts_page = None, ts_file = tableName @ ''.tbl'', ts_slot = - 1\<rparr>) (\<lambda>k.
       bnd (tx_Size t (tableName @ ''.tbl'')) (\<lambda>size.
       bnd (if size = 0 then ts_moveToNewBlock n k else ts_moveToBlock k 0) (\<lambda>_. ret k))))"

definition ts_BeforeFirst :: "nat \<Rightarrow> ('z db_scheme, unit) go" where
  "ts_BeforeFirst k = ts_moveToBlock k 0"

definition ts_NextAfter :: "nat \<Rightarrow> nat \<Rightarrow> ('z db_scheme, int) go" where
  "ts_NextAfter n k = with_page k (\<lambda>ts p. rp_NextAfter n p (ts_slot ts))"

definition ts_Next :: "nat \<Rightarrow> nat \<Rightarrow> ('z db_scheme, bool) go" where
  "ts_Next n k =
     handle (ts_NextAfter n k)
       (\<lambda>slot. bnd (ts_upd k (\<lambda>o'. o'\<lparr>ts_slot := slot\<rparr>)) (\<lambda>_. ret True))
       (\<lambda>_. bnd (ts_atLastBlock k) (\<lambda>atLast.
         if atLast then ret False
         else
           bnd (with_page k (\<lambda>_ p. ts_moveToBlock k (BlockNumber (rp_block p) + 1))) (\<lambda>_.
           bnd (ts_NextAfter n k) (\<lambda>slot.
           bnd (ts_upd k (\<lambda>o'. o'\<lparr>ts_slot := slot\<rparr>)) (\<lambda>_. ret True)))))"

definition ts_GetInt :: "nat \<Rightarrow> string \<Rightarrow> ('z db_scheme, int) go" where
  "ts_GetInt k f = with_page k (\<lambda>ts p. rp_GetInt p (ts_slot ts) f)"

definition ts_GetLong :: "nat \<Rightarrow> string \<Rightarrow> ('z db_scheme, 64 word) go" where
  "ts_GetLong k f = with_page k (\<lambda>ts p. rp_GetLong p (ts_slot ts) f)"

definition ts_GetShort :: "nat \<Rightarrow> string \<Rightarrow> ('z db_scheme, 16 word) go" where
  "ts_GetShort k f = with_page k (\<lambda>ts p. rp_GetShort p (ts_slot ts) f)"

definition ts_GetString :: "nat \<Rightarrow> string \<Rightarrow> ('z db_scheme, string) go" where
  "ts_GetString k f = with_page k (\<lambda>ts p. rp_GetString p (ts_slot ts) f)"

definition ts_GetBool :: "nat \<Rightarrow> string \<Rightarrow> ('z db_scheme, bool) go" where
  "ts_GetBool k f = with_page k (\<lambda>ts p. rp_GetBool p (ts_slot ts) f)"

definition ts_GetDate :: "nat \<Rightarrow> string \<Rightarrow> ('z db_scheme, gotime) go" where
  "ts_GetDate k f = with_page k (\<lambda>ts p. rp_GetDate p (ts_slot ts) f)"

definition map_go :: "('a \<Rightarrow> 'b) \<Rightarrow> ('s, 'a) go \<Rightarrow> ('s, 'b) go" where
  "map_go f m = bnd m (\<lambda>x. ret (f x))"

definition ts_GetVal :: "nat \<Rightarrow> string \<Rightarrow> ('z db_scheme, val option) go" where
  "ts_GetVal k f = bnd (gets (\<lambda>s. tscans s k)) (\<lambda>ts.
     let ty = schema_Type (lay_schema (ts_layout ts)) f in
     if ty = Integer then map_go (Some \<circ> VInt) (ts_GetInt k f)
     else if ty = Long then map_go (Some \<circ> VLong) (ts_GetLong k f)
     else if ty = Short then map_go (Some \<circ> VShort) (ts_GetShort k f)
     else if ty = Varchar then map_go (Some \<circ> VString) (ts_GetString k f)
     else if ty = Boolean then map_go (Some \<circ> VBool) (ts_GetBool k f)
     else if ty = Date then map_go (Some \<circ> VDate) (ts_GetDate k f)
     else fail EUnsupportedFieldType)"

definition ts_SetInt :: "nat \<Rightarrow> string \<Rightarrow> int \<Rightarrow> ('z db_scheme, unit) go" where
  "ts_SetInt k f v = with_page k (\<lambda>ts p. rp_SetInt p (ts_slot ts) f v)"

definition ts_SetLong :: "nat \<Rightarrow> string \<Rightarrow> 64 word \<Rightarrow> ('z db_scheme, unit) go" where
  "ts_SetLong k f v = with_page k (\<lambda>ts p. rp_SetLong p (ts_slot ts) f v)"

definition ts_SetShort :: "nat \<Rightarrow> string \<Rightarrow> 16 word \<Rightarrow> ('z db_scheme, unit) go" where
  "ts_SetShort k f v = with_page k (\<lambda>ts p. rp_SetShort p (ts_slot ts) f v)"

definition ts_SetString :: "nat \<Rightarrow> string \<Rightarrow> string \<Rightarrow> ('z db_scheme, unit) go" where
  "ts_SetString k f v = with_page k (\<lambda>ts p. rp_SetString p (ts_slot ts) f v)"

definition ts_SetBool :: "nat \<Rightarrow> string \<Rightarrow> bool \<Rightarrow> ('z db_scheme, unit) go" where
  "ts_SetBool k f v = with_page k (\<lambda>ts p. rp_SetBool p (ts_slot ts) f v)"

definition ts_SetDate :: "nat \<Rightarrow> string \<Rightarrow> gotime \<Rightarrow> ('z db_scheme, unit) go" where
  "ts_SetDate k f v = with_page k (\<lambda>ts p. rp_SetDate p (ts_slot ts) f v)"

text \<open>The switch is on the field's type; a value of another dynamic type is a mismatch.\<close>

definition ts_SetVal :: "nat \<Rightarrow> string \<Rightarrow> val option \<Rightarrow> ('z db_scheme, unit) go" where
  "ts_SetVal k f v = bnd (gets (\<lambda>s. tscans s k)) (\<lambda>ts.
     let ty = schema_Type (lay_schema (ts_layout ts)) f in
     case v of
       Some (VInt x) \<Rightarrow> if ty = Integer then ts_SetInt k f x else fail ETypeMismatch
     | Some (VLong x) \<Rightarrow> if ty = Long then ts_SetLong k f x else fail ETypeMismatch
     | Some (VShort x) \<Rightarrow> if ty = Short then ts_SetShort k f x else fail ETypeMismatch
     | Some (VString x) \<Rightarrow> if ty = Varchar then ts_SetString k f x else fail ETypeMismatch
     | Some (VBool x) \<Rightarrow> if ty = Boolean then ts_SetBool k f x else fail ETypeMismatch
     | Some (VDate x) \<Rightarrow> if ty = Date then ts_SetDate k f x else fail ETypeMismatch
     | None \<Rightarrow> fail ETypeMismatch)"

definition ts_HasField :: "nat \<Rightarrow> string \<Rightarrow> ('z db_scheme, bool) go" where
  "ts_HasField k f = gets (\<lambda>s. HasField (lay_schema (ts_layout (tscans s k))) f)"

text \<open>The loop over the blocks of the file, with fuel \<open>m\<close> for its rounds and \<open>n\<close> for the slots.\<close>

fun insert_loop :: "nat \<Rightarrow> nat \<Rightarrow> nat \<Rightarrow> ('z db_scheme, unit) go" where
  "insert_loop 0 n k = (\<lambda>s. (Inl OutOfFuel, s))"
| "insert_loop (Suc m) n k =
     handle (with_page k (\<lambda>ts p. rp_InsertAfter n p (ts_slot ts)))
       (\<lambda>slot. ts_upd k (\<lambda>o'. o'\<lparr>ts_slot := slot\<rparr>))
       (\<lambda>_. bnd (ts_atLastBlock k) (\<lambda>atLast.
         bnd (if atLast then ts_moveToNewBlock n k
              else with_page k (\<lambda>_ p. ts_moveToBlock k (BlockNumber (rp_block p) + 1))) (\<lambda>_.
         insert_loop m n k)))"

definition ts_Insert :: "nat \<Rightarrow> nat \<Rightarrow> nat \<Rightarrow> ('z db_scheme, unit) go" where
  "ts_Insert m n k =
     bnd (gets (\<lambda>s. (slotSize (ts_layout (tscans s k)), tx_BlockSize s))) (\<lambda>(sz, bs).
     if sz > bs then fail ESlotTooLarge else insert_loop m n k)"

definition ts_Delete :: "nat \<Rightarrow> ('z db_scheme, unit) go" where
  "ts_Delete k = with_page k (\<lambda>ts p. rp_Delete p (ts_slot ts))"

definition ts_GetRecordID :: "nat \<Rightarrow> ('z db_scheme, record_id) go" where
  "ts_GetRecordID k = with_page k (\<lambda>ts p. ret (NewID (BlockNumber (rp_block p)) (ts_slot ts)))"

text \<open>The table scan \<open>k\<close> as a value of type \<open>scan.Scan\<close>.\<close>

definition table_scan_ops :: "nat \<Rightarrow> nat \<Rightarrow> 'z db_scheme scan_ops" where
  "table_scan_ops n k = \<lparr>m_BeforeFirst = ts_BeforeFirst k, m_Next = ts_Next n k, m_GetInt = ts_GetInt k,
     m_GetLong = ts_GetLong k, m_GetShort = ts_GetShort k, m_GetString = ts_GetString k,
     m_GetBool = ts_GetBool k, m_GetDate = ts_GetDate k, m_HasField = ts_HasField k,
     m_GetVal = ts_GetVal k, m_Close = ts_Close k\<rparr>"

definition TableScan :: "nat \<Rightarrow> nat \<Rightarrow> 'z db_scheme scan" where
  "TableScan n k = \<lparr>sc_ops = table_scan_ops n k, sc_upd = None\<rparr>"

end
