(* ===== verification/Scans.thy ===== *)
theory Scans
  imports TableScan QueryPred
begin

text \<open>
  \<^verbatim>\<open>query/select_scan.go\<close>, \<^verbatim>\<open>query/project_scan.go\<close> and
  \<^verbatim>\<open>query/product_scan.go\<close>: the scans of the relational operators.

  Each is a function from the interface values of its inputs to an interface value over the same
  state. All three implement \<open>scan.UpdateScan\<close> themselves; whether an update reaches the input
  depends on the assertion on the input's dynamic type.
\<close>

text \<open>The assertion \<open>.(scan.UpdateScan)\<close> on an input, and the error when it fails.\<close>

definition with_update :: "'s scan \<Rightarrow> ('s update_ops \<Rightarrow> ('s, 'a) go) \<Rightarrow> ('s, 'a) go" where
  "with_update sc m = (case sc_upd sc of None \<Rightarrow> fail EUpdateNotSupported | Some u \<Rightarrow> m u)"

text \<open>\<open>GetRecordID\<close> has no error result and panics instead.\<close>

definition with_update_panic :: "'s scan \<Rightarrow> ('s update_ops \<Rightarrow> ('s, 'a) go) \<Rightarrow> ('s, 'a) go" where
  "with_update_panic sc m = (case sc_upd sc of None \<Rightarrow> panic | Some u \<Rightarrow> m u)"

section \<open>Selection\<close>

fun sel_loop :: "nat \<Rightarrow> 's scan_ops \<Rightarrow> predicate option \<Rightarrow> ('s, bool) go" where
  "sel_loop 0 sc p = (\<lambda>s. (Inl OutOfFuel, s))"
| "sel_loop (Suc n) sc p =
     bnd (m_Next sc) (\<lambda>ok.
     if \<not> ok then ret False
     else case p of None \<Rightarrow> ret True
       | Some q \<Rightarrow> bnd (pred_IsSatisfied (m_GetVal sc) q) (\<lambda>b. if b then ret True else sel_loop n sc p))"

definition sel_Next :: "nat \<Rightarrow> 's scan \<Rightarrow> predicate option \<Rightarrow> ('s, bool) go" where
  "sel_Next n sc p = sel_loop n (sc_ops sc) p"

definition sel_BeforeFirst :: "'s scan \<Rightarrow> ('s, unit) go" where
  "sel_BeforeFirst sc = m_BeforeFirst (sc_ops sc)"

definition sel_HasField :: "'s scan \<Rightarrow> string \<Rightarrow> ('s, bool) go" where
  "sel_HasField sc f = m_HasField (sc_ops sc) f"

definition sel_Close :: "'s scan \<Rightarrow> ('s, unit) go" where
  "sel_Close sc = m_Close (sc_ops sc)"

definition sel_GetInt :: "'s scan \<Rightarrow> string \<Rightarrow> ('s, int) go" where
  "sel_GetInt sc f = m_GetInt (sc_ops sc) f"

definition sel_GetLong :: "'s scan \<Rightarrow> string \<Rightarrow> ('s, 64 word) go" where
  "sel_GetLong sc f = m_GetLong (sc_ops sc) f"

definition sel_GetShort :: "'s scan \<Rightarrow> string \<Rightarrow> ('s, 16 word) go" where
  "sel_GetShort sc f = m_GetShort (sc_ops sc) f"

definition sel_GetString :: "'s scan \<Rightarrow> string \<Rightarrow> ('s, string) go" where
  "sel_GetString sc f = m_GetString (sc_ops sc) f"

definition sel_GetBool :: "'s scan \<Rightarrow> string \<Rightarrow> ('s, bool) go" where
  "sel_GetBool sc f = m_GetBool (sc_ops sc) f"

definition sel_GetDate :: "'s scan \<Rightarrow> string \<Rightarrow> ('s, gotime) go" where
  "sel_GetDate sc f = m_GetDate (sc_ops sc) f"

definition sel_GetVal :: "'s scan \<Rightarrow> string \<Rightarrow> ('s, val option) go" where
  "sel_GetVal sc f = m_GetVal (sc_ops sc) f"

definition sel_SetInt :: "'s scan \<Rightarrow> string \<Rightarrow> int \<Rightarrow> ('s, unit) go" where
  "sel_SetInt sc f v = with_update sc (\<lambda>u. m_SetInt u f v)"

definition sel_SetLong :: "'s scan \<Rightarrow> string \<Rightarrow> 64 word \<Rightarrow> ('s, unit) go" where
  "sel_SetLong sc f v = with_update sc (\<lambda>u. m_SetLong u f v)"

definition sel_SetShort :: "'s scan \<Rightarrow> string \<Rightarrow> 16 word \<Rightarrow> ('s, unit) go" where
  "sel_SetShort sc f v = with_update sc (\<lambda>u. m_SetShort u f v)"

definition sel_SetString :: "'s scan \<Rightarrow> string \<Rightarrow> string \<Rightarrow> ('s, unit) go" where
  "sel_SetString sc f v = with_update sc (\<lambda>u. m_SetString u f v)"

definition sel_SetBool :: "'s scan \<Rightarrow> string \<Rightarrow> bool \<Rightarrow> ('s, unit) go" where
  "sel_SetBool sc f v = with_update sc (\<lambda>u. m_SetBool u f v)"

definition sel_SetDate :: "'s scan \<Rightarrow> string \<Rightarrow> gotime \<Rightarrow> ('s, unit) go" where
  "sel_SetDate sc f v = with_update sc (\<lambda>u. m_SetDate u f v)"

definition sel_SetVal :: "'s scan \<Rightarrow> string \<Rightarrow> val option \<Rightarrow> ('s, unit) go" where
  "sel_SetVal sc f v = with_update sc (\<lambda>u. m_SetVal u f v)"

definition sel_Insert :: "'s scan \<Rightarrow> ('s, unit) go" where
  "sel_Insert sc = with_update sc m_Insert"

definition sel_Delete :: "'s scan \<Rightarrow> ('s, unit) go" where
  "sel_Delete sc = with_update sc m_Delete"

definition sel_GetRecordID :: "'s scan \<Rightarrow> ('s, record_id) go" where
  "sel_GetRecordID sc = with_update_panic sc m_GetRecordID"

definition sel_MoveToRecordID :: "'s scan \<Rightarrow> record_id \<Rightarrow> ('s, unit) go" where
  "sel_MoveToRecordID sc rid = with_update sc (\<lambda>u. m_MoveToRecordID u rid)"

definition SelectScan :: "nat \<Rightarrow> 's scan \<Rightarrow> predicate option \<Rightarrow> 's scan" where
  "SelectScan n sc p = \<lparr>sc_ops = \<lparr>m_BeforeFirst = sel_BeforeFirst sc, m_Next = sel_Next n sc p,
     m_GetInt = sel_GetInt sc, m_GetLong = sel_GetLong sc, m_GetShort = sel_GetShort sc,
     m_GetString = sel_GetString sc, m_GetBool = sel_GetBool sc, m_GetDate = sel_GetDate sc,
     m_HasField = sel_HasField sc, m_GetVal = sel_GetVal sc, m_Close = sel_Close sc\<rparr>,
   sc_upd = Some \<lparr>m_SetVal = sel_SetVal sc, m_SetInt = sel_SetInt sc, m_SetLong = sel_SetLong sc,
     m_SetShort = sel_SetShort sc, m_SetString = sel_SetString sc, m_SetBool = sel_SetBool sc,
     m_SetDate = sel_SetDate sc, m_Insert = sel_Insert sc, m_Delete = sel_Delete sc,
     m_GetRecordID = sel_GetRecordID sc, m_MoveToRecordID = sel_MoveToRecordID sc\<rparr>\<rparr>"

section \<open>Projection\<close>

definition prj_HasField :: "'s scan \<Rightarrow> string list \<Rightarrow> string \<Rightarrow> ('s, bool) go" where
  "prj_HasField sc fs f = ret (List.member fs f)"

text \<open>The guard of every accessor: the field must be in the list.\<close>

definition prj_guard :: "string list \<Rightarrow> string \<Rightarrow> ('s, 'a) go \<Rightarrow> ('s, 'a) go" where
  "prj_guard fs f m = (if \<not> List.member fs f then fail EFieldNotFound else m)"

definition prj_BeforeFirst :: "'s scan \<Rightarrow> string list \<Rightarrow> ('s, unit) go" where
  "prj_BeforeFirst sc fs = m_BeforeFirst (sc_ops sc)"

definition prj_Next :: "'s scan \<Rightarrow> string list \<Rightarrow> ('s, bool) go" where
  "prj_Next sc fs = m_Next (sc_ops sc)"

definition prj_Close :: "'s scan \<Rightarrow> string list \<Rightarrow> ('s, unit) go" where
  "prj_Close sc fs = m_Close (sc_ops sc)"

definition prj_GetInt :: "'s scan \<Rightarrow> string list \<Rightarrow> string \<Rightarrow> ('s, int) go" where
  "prj_GetInt sc fs f = prj_guard fs f (m_GetInt (sc_ops sc) f)"

definition prj_GetLong :: "'s scan \<Rightarrow> string list \<Rightarrow> string \<Rightarrow> ('s, 64 word) go" where
  "prj_GetLong sc fs f = prj_guard fs f (m_GetLong (sc_ops sc) f)"

definition prj_GetShort :: "'s scan \<Rightarrow> string list \<Rightarrow> string \<Rightarrow> ('s, 16 word) go" where
  "prj_GetShort sc fs f = prj_guard fs f (m_GetShort (sc_ops sc) f)"

definition prj_GetString :: "'s scan \<Rightarrow> string list \<Rightarrow> string \<Rightarrow> ('s, string) go" where
  "prj_GetString sc fs f = prj_guard fs f (m_GetString (sc_ops sc) f)"

definition prj_GetBool :: "'s scan \<Rightarrow> string list \<Rightarrow> string \<Rightarrow> ('s, bool) go" where
  "prj_GetBool sc fs f = prj_guard fs f (m_GetBool (sc_ops sc) f)"

definition prj_GetDate :: "'s scan \<Rightarrow> string list \<Rightarrow> string \<Rightarrow> ('s, gotime) go" where
  "prj_GetDate sc fs f = prj_guard fs f (m_GetDate (sc_ops sc) f)"

definition prj_GetVal :: "'s scan \<Rightarrow> string list \<Rightarrow> string \<Rightarrow> ('s, val option) go" where
  "prj_GetVal sc fs f = prj_guard fs f (m_GetVal (sc_ops sc) f)"

definition prj_SetInt :: "'s scan \<Rightarrow> string list \<Rightarrow> string \<Rightarrow> int \<Rightarrow> ('s, unit) go" where
  "prj_SetInt sc fs f v = prj_guard fs f (with_update sc (\<lambda>u. m_SetInt u f v))"

definition prj_SetLong :: "'s scan \<Rightarrow> string list \<Rightarrow> string \<Rightarrow> 64 word \<Rightarrow> ('s, unit) go" where
  "prj_SetLong sc fs f v = prj_guard fs f (with_update sc (\<lambda>u. m_SetLong u f v))"

definition prj_SetShort :: "'s scan \<Rightarrow> string list \<Rightarrow> string \<Rightarrow> 16 word \<Rightarrow> ('s, unit) go" where
  "prj_SetShort sc fs f v = prj_guard fs f (with_update sc (\<lambda>u. m_SetShort u f v))"

definition prj_SetString :: "'s scan \<Rightarrow> string list \<Rightarrow> string \<Rightarrow> string \<Rightarrow> ('s, unit) go" where
  "prj_SetString sc fs f v = prj_guard fs f (with_update sc (\<lambda>u. m_SetString u f v))"

definition prj_SetBool :: "'s scan \<Rightarrow> string list \<Rightarrow> string \<Rightarrow> bool \<Rightarrow> ('s, unit) go" where
  "prj_SetBool sc fs f v = prj_guard fs f (with_update sc (\<lambda>u. m_SetBool u f v))"

definition prj_SetDate :: "'s scan \<Rightarrow> string list \<Rightarrow> string \<Rightarrow> gotime \<Rightarrow> ('s, unit) go" where
  "prj_SetDate sc fs f v = prj_guard fs f (with_update sc (\<lambda>u. m_SetDate u f v))"

definition prj_SetVal :: "'s scan \<Rightarrow> string list \<Rightarrow> string \<Rightarrow> val option \<Rightarrow> ('s, unit) go" where
  "prj_SetVal sc fs f v = prj_guard fs f (with_update sc (\<lambda>u. m_SetVal u f v))"

definition prj_Insert :: "'s scan \<Rightarrow> ('s, unit) go" where
  "prj_Insert sc = with_update sc m_Insert"

definition prj_Delete :: "'s scan \<Rightarrow> ('s, unit) go" where
  "prj_Delete sc = with_update sc m_Delete"

definition prj_GetRecordID :: "'s scan \<Rightarrow> ('s, record_id) go" where
  "prj_GetRecordID sc = with_update_panic sc m_GetRecordID"

definition prj_MoveToRecordID :: "'s scan \<Rightarrow> record_id \<Rightarrow> ('s, unit) go" where
  "prj_MoveToRecordID sc rid = with_update sc (\<lambda>u. m_MoveToRecordID u rid)"

definition ProjectScan :: "'s scan \<Rightarrow> string list \<Rightarrow> 's scan" where
  "ProjectScan sc fs = \<lparr>sc_ops = \<lparr>m_BeforeFirst = prj_BeforeFirst sc fs, m_Next = prj_Next sc fs,
     m_GetInt = prj_GetInt sc fs, m_GetLong = prj_GetLong sc fs, m_GetShort = prj_GetShort sc fs,
     m_GetString = prj_GetString sc fs, m_GetBool = prj_GetBool sc fs, m_GetDate = prj_GetDate sc fs,
     m_HasField = prj_HasField sc fs, m_GetVal = prj_GetVal sc fs, m_Close = prj_Close sc fs\<rparr>,
   sc_upd = Some \<lparr>m_SetVal = prj_SetVal sc fs, m_SetInt = prj_SetInt sc fs, m_SetLong = prj_SetLong sc fs,
     m_SetShort = prj_SetShort sc fs, m_SetString = prj_SetString sc fs, m_SetBool = prj_SetBool sc fs,
     m_SetDate = prj_SetDate sc fs, m_Insert = prj_Insert sc, m_Delete = prj_Delete sc,
     m_GetRecordID = prj_GetRecordID sc, m_MoveToRecordID = prj_MoveToRecordID sc\<rparr>\<rparr>"

section \<open>Product\<close>

definition prd_BeforeFirst :: "'s scan \<Rightarrow> 's scan \<Rightarrow> ('s, unit) go" where
  "prd_BeforeFirst s1 s2 =
     bnd (m_BeforeFirst (sc_ops s1)) (\<lambda>_.
     bnd (m_Next (sc_ops s1)) (\<lambda>_.
     m_BeforeFirst (sc_ops s2)))"

definition prd_Next :: "'s scan \<Rightarrow> 's scan \<Rightarrow> ('s, bool) go" where
  "prd_Next s1 s2 =
     bnd (m_Next (sc_ops s2)) (\<lambda>hasNextS2.
     if hasNextS2 then ret True
     else
       bnd (m_BeforeFirst (sc_ops s2)) (\<lambda>_.
       bnd (m_Next (sc_ops s2)) (\<lambda>hasNextS2.
       if \<not> hasNextS2 then ret False
       else bnd (m_Next (sc_ops s1)) (\<lambda>hasNextS1. if \<not> hasNextS1 then ret False else ret True))))"

definition prd_Close :: "'s scan \<Rightarrow> 's scan \<Rightarrow> ('s, unit) go" where
  "prd_Close s1 s2 = bnd (m_Close (sc_ops s1)) (\<lambda>_. m_Close (sc_ops s2))"

definition prd_HasField :: "'s scan \<Rightarrow> 's scan \<Rightarrow> string \<Rightarrow> ('s, bool) go" where
  "prd_HasField s1 s2 f = bnd (m_HasField (sc_ops s1) f) (\<lambda>b.
     if b then ret True else m_HasField (sc_ops s2) f)"

text \<open>Every accessor goes to the first scan that has the field, and to the second otherwise.\<close>

definition prd_side :: "'s scan \<Rightarrow> 's scan \<Rightarrow> string \<Rightarrow> ('s scan \<Rightarrow> ('s, 'a) go) \<Rightarrow> ('s, 'a) go" where
  "prd_side s1 s2 f m = bnd (m_HasField (sc_ops s1) f) (\<lambda>b. if b then m s1 else m s2)"

definition prd_GetInt :: "'s scan \<Rightarrow> 's scan \<Rightarrow> string \<Rightarrow> ('s, int) go" where
  "prd_GetInt s1 s2 f = prd_side s1 s2 f (\<lambda>sc. m_GetInt (sc_ops sc) f)"

definition prd_GetLong :: "'s scan \<Rightarrow> 's scan \<Rightarrow> string \<Rightarrow> ('s, 64 word) go" where
  "prd_GetLong s1 s2 f = prd_side s1 s2 f (\<lambda>sc. m_GetLong (sc_ops sc) f)"

definition prd_GetShort :: "'s scan \<Rightarrow> 's scan \<Rightarrow> string \<Rightarrow> ('s, 16 word) go" where
  "prd_GetShort s1 s2 f = prd_side s1 s2 f (\<lambda>sc. m_GetShort (sc_ops sc) f)"

definition prd_GetString :: "'s scan \<Rightarrow> 's scan \<Rightarrow> string \<Rightarrow> ('s, string) go" where
  "prd_GetString s1 s2 f = prd_side s1 s2 f (\<lambda>sc. m_GetString (sc_ops sc) f)"

definition prd_GetBool :: "'s scan \<Rightarrow> 's scan \<Rightarrow> string \<Rightarrow> ('s, bool) go" where
  "prd_GetBool s1 s2 f = prd_side s1 s2 f (\<lambda>sc. m_GetBool (sc_ops sc) f)"

definition prd_GetDate :: "'s scan \<Rightarrow> 's scan \<Rightarrow> string \<Rightarrow> ('s, gotime) go" where
  "prd_GetDate s1 s2 f = prd_side s1 s2 f (\<lambda>sc. m_GetDate (sc_ops sc) f)"

definition prd_GetVal :: "'s scan \<Rightarrow> 's scan \<Rightarrow> string \<Rightarrow> ('s, val option) go" where
  "prd_GetVal s1 s2 f = prd_side s1 s2 f (\<lambda>sc. m_GetVal (sc_ops sc) f)"

definition prd_SetInt :: "'s scan \<Rightarrow> 's scan \<Rightarrow> string \<Rightarrow> int \<Rightarrow> ('s, unit) go" where
  "prd_SetInt s1 s2 f v = prd_side s1 s2 f (\<lambda>sc. with_update sc (\<lambda>u. m_SetInt u f v))"

definition prd_SetLong :: "'s scan \<Rightarrow> 's scan \<Rightarrow> string \<Rightarrow> 64 word \<Rightarrow> ('s, unit) go" where
  "prd_SetLong s1 s2 f v = prd_side s1 s2 f (\<lambda>sc. with_update sc (\<lambda>u. m_SetLong u f v))"

definition prd_SetShort :: "'s scan \<Rightarrow> 's scan \<Rightarrow> string \<Rightarrow> 16 word \<Rightarrow> ('s, unit) go" where
  "prd_SetShort s1 s2 f v = prd_side s1 s2 f (\<lambda>sc. with_update sc (\<lambda>u. m_SetShort u f v))"

definition prd_SetString :: "'s scan \<Rightarrow> 's scan \<Rightarrow> string \<Rightarrow> string \<Rightarrow> ('s, unit) go" where
  "prd_SetString s1 s2 f v = prd_side s1 s2 f (\<lambda>sc. with_update sc (\<lambda>u. m_SetString u f v))"

definition prd_SetBool :: "'s scan \<Rightarrow> 's scan \<Rightarrow> string \<Rightarrow> bool \<Rightarrow> ('s, unit) go" where
  "prd_SetBool s1 s2 f v = prd_side s1 s2 f (\<lambda>sc. with_update sc (\<lambda>u. m_SetBool u f v))"

definition prd_SetDate :: "'s scan \<Rightarrow> 's scan \<Rightarrow> string \<Rightarrow> gotime \<Rightarrow> ('s, unit) go" where
  "prd_SetDate s1 s2 f v = prd_side s1 s2 f (\<lambda>sc. with_update sc (\<lambda>u. m_SetDate u f v))"

definition prd_SetVal :: "'s scan \<Rightarrow> 's scan \<Rightarrow> string \<Rightarrow> val option \<Rightarrow> ('s, unit) go" where
  "prd_SetVal s1 s2 f v = prd_side s1 s2 f (\<lambda>sc. with_update sc (\<lambda>u. m_SetVal u f v))"

definition prd_Insert :: "('s, unit) go" where
  "prd_Insert = fail EInsertNotSupported"

definition prd_Delete :: "('s, unit) go" where
  "prd_Delete = fail EDeleteNotSupported"

definition prd_GetRecordID :: "('s, record_id) go" where
  "prd_GetRecordID = panic"

definition prd_MoveToRecordID :: "record_id \<Rightarrow> ('s, unit) go" where
  "prd_MoveToRecordID rid = fail EMoveNotSupported"

definition ProductScan :: "'s scan \<Rightarrow> 's scan \<Rightarrow> 's scan" where
  "ProductScan s1 s2 = \<lparr>sc_ops = \<lparr>m_BeforeFirst = prd_BeforeFirst s1 s2, m_Next = prd_Next s1 s2,
     m_GetInt = prd_GetInt s1 s2, m_GetLong = prd_GetLong s1 s2, m_GetShort = prd_GetShort s1 s2,
     m_GetString = prd_GetString s1 s2, m_GetBool = prd_GetBool s1 s2, m_GetDate = prd_GetDate s1 s2,
     m_HasField = prd_HasField s1 s2, m_GetVal = prd_GetVal s1 s2, m_Close = prd_Close s1 s2\<rparr>,
   sc_upd = Some \<lparr>m_SetVal = prd_SetVal s1 s2, m_SetInt = prd_SetInt s1 s2, m_SetLong = prd_SetLong s1 s2,
     m_SetShort = prd_SetShort s1 s2, m_SetString = prd_SetString s1 s2, m_SetBool = prd_SetBool s1 s2,
     m_SetDate = prd_SetDate s1 s2, m_Insert = prd_Insert, m_Delete = prd_Delete,
     m_GetRecordID = prd_GetRecordID, m_MoveToRecordID = prd_MoveToRecordID\<rparr>\<rparr>"

end
