(* ===== verification/RowScan.thy ===== *)
theory RowScan
  imports Scans
begin

text \<open>
  The contract of a scan, and the relational operators as clients of it.

  \<open>row_scan\<close>: a scan enumerates a list of rows. \<open>pos s k\<close> says that \<open>k\<close> rows have been passed (for
  \<open>0 < k\<close> the scan stands on row \<open>k - 1\<close>); \<open>ready\<close> is what \<open>BeforeFirst\<close> needs. A selection has
  the contract with the rows that satisfy its predicate, a projection with the rows restricted to
  its fields; for the product of two scans whose calls do not disturb each other (\<open>scan_pair\<close>) the
  rows are the combinations, provided that the left scan has a row.
\<close>

section \<open>The contract\<close>

locale row_scan =
  fixes sc :: "'s scan" and rows :: "row list" and has :: "string \<Rightarrow> bool"
    and pos :: "'s \<Rightarrow> nat \<Rightarrow> bool" and ready :: "'s \<Rightarrow> bool"
  assumes pos_ready: "pos s k \<Longrightarrow> ready s"
    and before_first: "ready s \<Longrightarrow> \<exists>s'. m_BeforeFirst (sc_ops sc) s = (Inr (), s') \<and> pos s' 0"
    and next_row: "pos s k \<Longrightarrow> k < length rows \<Longrightarrow> \<exists>s'. m_Next (sc_ops sc) s = (Inr True, s') \<and> pos s' (Suc k)"
    and next_end: "pos s (length rows) \<Longrightarrow> \<exists>s'. m_Next (sc_ops sc) s = (Inr False, s') \<and> ready s'"
    and get_val: "k < length rows \<Longrightarrow> reads_row (\<lambda>s. pos s (Suc k)) (m_GetVal (sc_ops sc)) (rows ! k)"
    and has_field: "ready s \<Longrightarrow> m_HasField (sc_ops sc) f s = (Inr (has f), s)"

text \<open>The client's loop: read the given fields of every row from here on. An error of \<open>GetVal\<close> leaves
  the field empty.\<close>

definition read_field :: "'s scan \<Rightarrow> string \<Rightarrow> ('s, val option) go" where
  "read_field sc f = handle (m_GetVal (sc_ops sc) f) ret (\<lambda>_. ret None)"

fun read_fields :: "'s scan \<Rightarrow> string list \<Rightarrow> ('s, val option list) go" where
  "read_fields sc [] = ret []"
| "read_fields sc (f # fs) = bnd (read_field sc f) (\<lambda>v. bnd (read_fields sc fs) (\<lambda>vs. ret (v # vs)))"

fun read_rows :: "nat \<Rightarrow> 's scan \<Rightarrow> string list \<Rightarrow> ('s, val option list list) go" where
  "read_rows 0 sc fs = (\<lambda>s. (Inl OutOfFuel, s))"
| "read_rows (Suc n) sc fs = bnd (m_Next (sc_ops sc)) (\<lambda>ok. if \<not> ok then ret [] else
     bnd (read_fields sc fs) (\<lambda>r. bnd (read_rows n sc fs) (\<lambda>rs. ret (r # rs))))"

definition read_all :: "nat \<Rightarrow> 's scan \<Rightarrow> string list \<Rightarrow> ('s, val option list list) go" where
  "read_all n sc fs = bnd (m_BeforeFirst (sc_ops sc)) (\<lambda>_. read_rows n sc fs)"

lemma read_field_row:
  assumes "reads_row I (m_GetVal (sc_ops sc)) r" and "I s"
  shows "\<exists>s'. read_field sc f s = (Inr (r f), s') \<and> I s'"
proof -
  obtain s' where "I s'" "case r f of Some v \<Rightarrow> m_GetVal (sc_ops sc) f s = (Inr (Some v), s')
      | None \<Rightarrow> \<exists>e. m_GetVal (sc_ops sc) f s = (Err e, s')"
    using assms unfolding reads_row_def by blast
  then show ?thesis
    by (cases "r f") (auto simp: read_field_def handle_Inr handle_Err go_unfold)
qed

lemma read_fields_row:
  assumes "reads_row I (m_GetVal (sc_ops sc)) r" and "I s"
  shows "\<exists>s'. read_fields sc fs s = (Inr (map r fs), s') \<and> I s'"
  using assms(2)
proof (induction fs arbitrary: s)
  case Nil
  then show ?case by (simp add: go_unfold)
next
  case (Cons f fs)
  obtain s1 where s1: "read_field sc f s = (Inr (r f), s1)" "I s1"
    using read_field_row [OF assms(1) Cons.prems] by blast
  obtain s2 where "read_fields sc fs s1 = (Inr (map r fs), s2)" "I s2"
    using Cons.IH [OF s1(2)] by blast
  then show ?case using s1(1) by (simp add: bnd_Inr go_unfold)
qed

context row_scan
begin

lemma read_rows_from:
  assumes "pos s k" and "k \<le> length rows" and "length rows - k < n"
  shows "\<exists>s'. read_rows n sc fs s = (Inr (map (\<lambda>r. map r fs) (drop k rows)), s') \<and> ready s'"
  using assms
proof (induction n arbitrary: s k)
  case 0
  then show ?case by simp
next
  case (Suc n)
  show ?case
  proof (cases "k = length rows")
    case True
    obtain s' where "m_Next (sc_ops sc) s = (Inr False, s')" "ready s'"
      using next_end [of s] Suc.prems(1) True by blast
    then show ?thesis using True by (simp add: bnd_def go_unfold)
  next
    case False
    then have k: "k < length rows" using Suc.prems(2) by simp
    obtain s1 where s1: "m_Next (sc_ops sc) s = (Inr True, s1)" "pos s1 (Suc k)"
      using next_row [OF Suc.prems(1) k] by blast
    obtain s2 where s2: "read_fields sc fs s1 = (Inr (map (rows ! k) fs), s2)" "pos s2 (Suc k)"
      using read_fields_row [OF get_val [OF k] s1(2)] by blast
    obtain s3 where "read_rows n sc fs s2 = (Inr (map (\<lambda>r. map r fs) (drop (Suc k) rows)), s3)" "ready s3"
      using Suc.IH [OF s2(2)] k Suc.prems(3) by fastforce
    then show ?thesis using s1(1) s2(1) k by (simp add: bnd_def go_unfold Cons_nth_drop_Suc [symmetric])
  qed
qed

lemma read_all_rows:
  assumes "ready s" and "length rows < n"
  shows "\<exists>s'. read_all n sc fs s = (Inr (map (\<lambda>r. map r fs) rows), s') \<and> ready s'"
proof -
  obtain s1 where s1: "m_BeforeFirst (sc_ops sc) s = (Inr (), s1)" "pos s1 0"
    using before_first [OF assms(1)] by blast
  then show ?thesis using read_rows_from [OF s1(2), of n fs] assms(2) by (simp add: read_all_def bnd_Inr)
qed

text \<open>Selection: the position counts the rows passed that satisfy the predicate.\<close>

definition sel_rows :: "predicate option \<Rightarrow> row list" where
  "sel_rows p = filter (\<lambda>r. pred_holds_opt r p) rows"

definition sel_pos :: "predicate option \<Rightarrow> 's \<Rightarrow> nat \<Rightarrow> bool" where
  "sel_pos p s j \<longleftrightarrow> (\<exists>i. pos s i \<and> i \<le> length rows \<and> j = length (filter (\<lambda>r. pred_holds_opt r p) (take i rows)) \<and>
     (0 < i \<longrightarrow> pred_holds_opt (rows ! (i - 1)) p))"

lemma sel_loop_spec:
  assumes "pos s i" and "i \<le> length rows" and "length rows - i < n"
  shows "(\<exists>s' j. sel_loop n (sc_ops sc) p s = (Inr True, s') \<and> pos s' (Suc j) \<and> i \<le> j \<and> j < length rows \<and>
      pred_holds_opt (rows ! j) p \<and> (\<forall>l. i \<le> l \<longrightarrow> l < j \<longrightarrow> \<not> pred_holds_opt (rows ! l) p)) \<or>
    (\<exists>s'. sel_loop n (sc_ops sc) p s = (Inr False, s') \<and> ready s' \<and>
      (\<forall>l. i \<le> l \<longrightarrow> l < length rows \<longrightarrow> \<not> pred_holds_opt (rows ! l) p))"
  using assms
proof (induction n arbitrary: s i)
  case 0
  then show ?case by simp
next
  case (Suc n)
  show ?case
  proof (cases "i = length rows")
    case True
    obtain s' where "m_Next (sc_ops sc) s = (Inr False, s')" "ready s'"
      using next_end [of s] Suc.prems(1) True by blast
    then show ?thesis using True by (simp add: bnd_def go_unfold)
  next
    case False
    then have i: "i < length rows" using Suc.prems(2) by simp
    obtain s1 where s1: "m_Next (sc_ops sc) s = (Inr True, s1)" "pos s1 (Suc i)"
      using next_row [OF Suc.prems(1) i] by blast
    show ?thesis
    proof (cases p)
      case None
      then show ?thesis using s1 i by (auto simp: bnd_def go_unfold pred_holds_opt_def intro!: exI [of _ i])
    next
      case (Some q)
      obtain s2 where s2: "pred_IsSatisfied (m_GetVal (sc_ops sc)) q s1 = (Inr (pred_holds (rows ! i) q), s2)"
        "pos s2 (Suc i)"
        using pred_IsSatisfied_row [OF get_val [OF i] s1(2)] by blast
      have run: "sel_loop (Suc n) (sc_ops sc) p s =
          (if pred_holds (rows ! i) q then (Inr True, s2) else sel_loop n (sc_ops sc) p s2)"
        using s1(1) s2(1) Some by (simp add: bnd_def go_unfold)
      show ?thesis
      proof (cases "pred_holds (rows ! i) q")
        case True
        then show ?thesis unfolding run using s2 i Some by (auto simp: pred_holds_opt_def intro!: exI [of _ i])
      next
        case False
        then have no: "\<not> pred_holds_opt (rows ! i) p" using Some by (simp add: pred_holds_opt_def)
        have "length rows - Suc i < n" using i Suc.prems(3) by simp
        with Suc.IH [OF s2(2)] i
        have "(\<exists>s' j. sel_loop n (sc_ops sc) p s2 = (Inr True, s') \<and> pos s' (Suc j) \<and> Suc i \<le> j \<and> j < length rows \<and>
            pred_holds_opt (rows ! j) p \<and> (\<forall>l. Suc i \<le> l \<longrightarrow> l < j \<longrightarrow> \<not> pred_holds_opt (rows ! l) p)) \<or>
          (\<exists>s'. sel_loop n (sc_ops sc) p s2 = (Inr False, s') \<and> ready s' \<and>
            (\<forall>l. Suc i \<le> l \<longrightarrow> l < length rows \<longrightarrow> \<not> pred_holds_opt (rows ! l) p))" by simp
        then show ?thesis
          unfolding run using False no by (auto simp: Suc_le_eq) (metis le_neq_implies_less less_imp_le)+
      qed
    qed
  qed
qed

lemma filter_take_same:
  assumes "i \<le> j" and "j \<le> length xs" and "\<And>l. i \<le> l \<Longrightarrow> l < j \<Longrightarrow> \<not> P (xs ! l)"
  shows "filter P (take j xs) = filter P (take i xs)"
proof -
  have split: "take j xs = take i xs @ take (j - i) (drop i xs)" using assms(1) by (simp add: take_add [symmetric])
  have "\<not> P x" if "x \<in> set (take (j - i) (drop i xs))" for x
  proof -
    obtain l where "l < j - i" "x = xs ! (i + l)" using \<open>x \<in> _\<close> assms(2) by (auto simp: in_set_conv_nth)
    then show ?thesis using assms(3) [of "i + l"] by simp
  qed
  then have "filter P (take (j - i) (drop i xs)) = []" by (simp add: filter_empty_conv)
  then show ?thesis by (subst split) (simp only: filter_append append_Nil2)
qed

lemma filter_take_Suc:
  "l < length xs \<Longrightarrow> P (xs ! l) \<Longrightarrow> filter P (take (Suc l) xs) = filter P (take l xs) @ [xs ! l]"
  by (simp add: take_Suc_conv_app_nth)

lemma filter_prefix: "length (filter P (take i xs)) \<le> length (filter P xs)"
  by (metis append_take_drop_id filter_append le_add1 length_append)

lemma select_next:
  assumes j: "sel_pos p s j" and n: "length rows < n"
  shows "if j < length (sel_rows p) then \<exists>s'. sel_Next n sc p s = (Inr True, s') \<and> sel_pos p s' (Suc j)
    else \<exists>s'. sel_Next n sc p s = (Inr False, s') \<and> ready s'"
proof -
  let ?P = "\<lambda>r. pred_holds_opt r p"
  obtain i where i: "pos s i" "i \<le> length rows" "j = length (filter ?P (take i rows))"
    using j by (auto simp: sel_pos_def)
  have fuel: "length rows - i < n" using n by linarith
  from sel_loop_spec [OF i(1,2) fuel, of p] show ?thesis
  proof (elim disjE exE conjE)
    fix s' l
    assume l: "sel_loop n (sc_ops sc) p s = (Inr True, s')" "pos s' (Suc l)" "i \<le> l" "l < length rows"
      "?P (rows ! l)" "\<forall>m. i \<le> m \<longrightarrow> m < l \<longrightarrow> \<not> ?P (rows ! m)"
    have "filter ?P (take l rows) = filter ?P (take i rows)"
      using l by (intro filter_take_same) simp_all
    then have new: "filter ?P (take (Suc l) rows) = filter ?P (take i rows) @ [rows ! l]"
      using filter_take_Suc [of l rows ?P] l(4,5) by simp
    then have "j < length (sel_rows p)"
      using filter_prefix [of ?P "Suc l" rows] i(3) by (simp add: sel_rows_def)
    moreover have "sel_pos p s' (Suc j)"
      unfolding sel_pos_def using l(2,4,5) new i(3) by (intro exI [of _ "Suc l"]) simp
    ultimately show ?thesis using l(1) by (simp add: sel_Next_def)
  next
    fix s'
    assume e: "sel_loop n (sc_ops sc) p s = (Inr False, s')" "ready s'"
      "\<forall>m. i \<le> m \<longrightarrow> m < length rows \<longrightarrow> \<not> ?P (rows ! m)"
    have "filter ?P (take (length rows) rows) = filter ?P (take i rows)"
      using e(3) i(2) by (intro filter_take_same) simp_all
    then have "\<not> j < length (sel_rows p)" using i(3) by (simp add: sel_rows_def)
    then show ?thesis using e by (simp add: sel_Next_def)
  qed
qed

lemma select_val:
  assumes k: "k < length (sel_rows p)"
  shows "reads_row (\<lambda>s. sel_pos p s (Suc k)) (m_GetVal (sc_ops sc)) (sel_rows p ! k)"
  unfolding reads_row_def
proof (intro allI impI)
  fix s f
  let ?P = "\<lambda>r. pred_holds_opt r p"
  assume "sel_pos p s (Suc k)"
  then obtain i where i: "pos s i" "i \<le> length rows" "Suc k = length (filter ?P (take i rows))"
    "0 < i \<Longrightarrow> ?P (rows ! (i - 1))" by (auto simp: sel_pos_def)
  then obtain l where l: "i = Suc l" by (cases i) simp_all
  have f: "filter ?P (take i rows) = filter ?P (take l rows) @ [rows ! l]"
    unfolding l using i(2,4) by (intro filter_take_Suc) (simp_all add: l)
  have "sel_rows p = filter ?P (take i rows) @ filter ?P (drop i rows)"
    unfolding sel_rows_def by (simp only: filter_append [symmetric] append_take_drop_id)
  then have row: "sel_rows p ! k = rows ! l" using f i(3) by (simp add: nth_append)
  have "reads_row (\<lambda>s. pos s (Suc l)) (m_GetVal (sc_ops sc)) (rows ! l)" using i(2) l by (intro get_val) simp
  then obtain s' where "pos s' (Suc l)" "case (rows ! l) f of Some v \<Rightarrow> m_GetVal (sc_ops sc) f s = (Inr (Some v), s')
      | None \<Rightarrow> \<exists>e. m_GetVal (sc_ops sc) f s = (Err e, s')"
    using i(1) l unfolding reads_row_def by blast
  then show "\<exists>s'. sel_pos p s' (Suc k) \<and> (case (sel_rows p ! k) f of
      Some v \<Rightarrow> m_GetVal (sc_ops sc) f s = (Inr (Some v), s') | None \<Rightarrow> \<exists>e. m_GetVal (sc_ops sc) f s = (Err e, s'))"
    unfolding row using i l by (intro exI [of _ s']) (auto simp: sel_pos_def)
qed

lemma select_contract:
  assumes "length rows < n"
  shows "row_scan (SelectScan n sc p) (sel_rows p) has (sel_pos p) ready"
proof (unfold_locales, unfold SelectScan_def scan.simps scan_ops.simps)
  show "ready s" if "sel_pos p s k" for s k using that pos_ready by (auto simp: sel_pos_def)
  show "\<exists>s'. sel_BeforeFirst sc s = (Inr (), s') \<and> sel_pos p s' 0" if "ready s" for s
    using before_first [OF that] by (auto simp: sel_BeforeFirst_def sel_pos_def intro!: exI [of _ 0])
  show "\<exists>s'. sel_Next n sc p s = (Inr True, s') \<and> sel_pos p s' (Suc k)"
    if "sel_pos p s k" "k < length (sel_rows p)" for s k
    using select_next [OF that(1) assms] that(2) by simp
  show "\<exists>s'. sel_Next n sc p s = (Inr False, s') \<and> ready s'" if "sel_pos p s (length (sel_rows p))" for s
    using select_next [OF that assms] by simp
  show "reads_row (\<lambda>s. sel_pos p s (Suc k)) (sel_GetVal sc) (sel_rows p ! k)" if "k < length (sel_rows p)" for k
    using select_val [OF that] by (simp add: sel_GetVal_def [abs_def])
  show "sel_HasField sc f s = (Inr (has f), s)" if "ready s" for s f
    using has_field [OF that] by (simp add: sel_HasField_def)
qed

text \<open>Projection: the same positions, rows restricted to the listed fields.\<close>

definition prj_rows :: "string list \<Rightarrow> row list" where
  "prj_rows fs = map (\<lambda>r. r |` set fs) rows"

lemma project_contract: "row_scan (ProjectScan sc fs) (prj_rows fs) (\<lambda>f. f \<in> set fs) pos ready"
proof (unfold_locales, unfold ProjectScan_def scan.simps scan_ops.simps)
  show "ready s" if "pos s k" for s k using that by (rule pos_ready)
  show "\<exists>s'. prj_BeforeFirst sc fs s = (Inr (), s') \<and> pos s' 0" if "ready s" for s
    using before_first [OF that] by (simp add: prj_BeforeFirst_def)
  show "\<exists>s'. prj_Next sc fs s = (Inr True, s') \<and> pos s' (Suc k)" if "pos s k" "k < length (prj_rows fs)" for s k
    using next_row [OF that(1)] that(2) by (simp add: prj_Next_def prj_rows_def)
  show "\<exists>s'. prj_Next sc fs s = (Inr False, s') \<and> ready s'" if "pos s (length (prj_rows fs))" for s
    using next_end [of s] that by (simp add: prj_Next_def prj_rows_def)
  show "reads_row (\<lambda>s. pos s (Suc k)) (prj_GetVal sc fs) (prj_rows fs ! k)" if k: "k < length (prj_rows fs)" for k
  proof -
    have "k < length rows" using k by (simp add: prj_rows_def)
    from get_val [OF this] show ?thesis
      using k unfolding reads_row_def prj_GetVal_def prj_guard_def prj_rows_def
      by (auto simp: restrict_map_def go_unfold)
  qed
  show "prj_HasField sc fs f s = (Inr (f \<in> set fs), s)" if "ready s" for s f
    by (simp add: prj_HasField_def go_unfold)
qed

end

section \<open>Products\<close>

text \<open>Two scans over one state, whose calls keep each other's positions.\<close>

definition keeps_at :: "('s \<Rightarrow> bool) \<Rightarrow> ('s \<Rightarrow> bool) \<Rightarrow> ('s, 'a) go \<Rightarrow> bool" where
  "keeps_at G I m \<longleftrightarrow> (\<forall>s. G s \<longrightarrow> I s \<longrightarrow> I (snd (m s)))"

lemma keeps_atD: "keeps_at G I m \<Longrightarrow> G s \<Longrightarrow> I s \<Longrightarrow> m s = (r, s') \<Longrightarrow> I s'"
  unfolding keeps_at_def by (metis snd_conv)

locale scan_pair = left: row_scan s1 rows1 has1 pos1 ready1 + right: row_scan s2 rows2 has2 pos2 ready2
  for s1 :: "'s scan" and rows1 has1 pos1 ready1 and s2 :: "'s scan" and rows2 has2 pos2 ready2 +
  assumes left_first: "keeps_at ready1 ready2 (m_BeforeFirst (sc_ops s1))"
    and left_next: "k \<le> length rows1 \<Longrightarrow> keeps_at (\<lambda>s. pos1 s k) ready2 (m_Next (sc_ops s1))"
    and left_next_at: "k \<le> length rows1 \<Longrightarrow> keeps_at (\<lambda>s. pos1 s k) (\<lambda>s. pos2 s j) (m_Next (sc_ops s1))"
    and left_val: "k < length rows1 \<Longrightarrow> keeps_at (\<lambda>s. pos1 s (Suc k)) (\<lambda>s. pos2 s j) (m_GetVal (sc_ops s1) f)"
    and right_first: "keeps_at ready2 (\<lambda>s. pos1 s k) (m_BeforeFirst (sc_ops s2))"
    and right_next: "j \<le> length rows2 \<Longrightarrow> keeps_at (\<lambda>s. pos2 s j) (\<lambda>s. pos1 s k) (m_Next (sc_ops s2))"
    and right_val: "j < length rows2 \<Longrightarrow> keeps_at (\<lambda>s. pos2 s (Suc j)) (\<lambda>s. pos1 s k) (m_GetVal (sc_ops s2) f)"
begin

definition prd_row :: "row \<Rightarrow> row \<Rightarrow> row" where
  "prd_row r1 r2 f = (if has1 f then r1 f else r2 f)"

definition prd_rows :: "row list" where
  "prd_rows = concat (map (\<lambda>r1. map (prd_row r1) rows2) rows1)"

definition prd_pos :: "'s \<Rightarrow> nat \<Rightarrow> bool" where
  "prd_pos s k \<longleftrightarrow> (\<exists>i j. i < length rows1 \<and> j \<le> length rows2 \<and> k = i * length rows2 + j \<and> (j = 0 \<longrightarrow> i = 0) \<and>
     pos1 s (Suc i) \<and> pos2 s j)"

definition prd_ready :: "'s \<Rightarrow> bool" where
  "prd_ready s \<longleftrightarrow> ready1 s \<and> ready2 s"


lemma length_prd_rows: "length prd_rows = length rows1 * length rows2"
  by (simp add: prd_rows_def length_concat comp_def sum_list_triv)

lemma prd_rows_nth:
  assumes "i < length rows1" and "j < length rows2"
  shows "prd_rows ! (i * length rows2 + j) = prd_row (rows1 ! i) (rows2 ! j)"
proof -
  have "concat (map (\<lambda>r1. map (prd_row r1) rows2) xs) ! (i * length rows2 + j) = prd_row (xs ! i) (rows2 ! j)"
    if "i < length xs" for xs i
    using that assms(2)
  proof (induction xs arbitrary: i)
    case (Cons x xs)
    then show ?case by (cases i) (simp_all add: nth_append)
  qed simp
  then show ?thesis using assms(1) unfolding prd_rows_def by blast
qed

lemma right_reset:
  assumes "pos1 s k" and "pos2 s (length rows2)"
  obtains s1' s2' where "m_Next (sc_ops s2) s = (Inr False, s1')" and "m_BeforeFirst (sc_ops s2) s1' = (Inr (), s2')"
    and "pos1 s2' k" and "pos2 s2' 0"
proof -
  obtain t where t: "m_Next (sc_ops s2) s = (Inr False, t)" "ready2 t" using right.next_end [OF assms(2)] by blast
  have p: "pos1 t k" by (rule keeps_atD [OF right_next [OF order_refl] assms(2,1) t(1)])
  obtain u where u: "m_BeforeFirst (sc_ops s2) t = (Inr (), u)" "pos2 u 0" using right.before_first [OF t(2)] by blast
  have "pos1 u k" by (rule keeps_atD [OF right_first t(2) p u(1)])
  then show thesis using t(1) u that by blast
qed

lemma product_next:
  assumes "prd_pos s k"
  shows "if k < length prd_rows then \<exists>s'. prd_Next s1 s2 s = (Inr True, s') \<and> prd_pos s' (Suc k)
    else \<exists>s'. prd_Next s1 s2 s = (Inr False, s') \<and> prd_ready s'"
proof -
  let ?n = "length rows2"
  obtain i j where ij: "i < length rows1" "j \<le> ?n" "k = i * ?n + j" "j = 0 \<longrightarrow> i = 0" "pos1 s (Suc i)" "pos2 s j"
    using assms by (auto simp: prd_pos_def)
  show ?thesis
  proof (cases "j < ?n")
    case True
    obtain t where t: "m_Next (sc_ops s2) s = (Inr True, t)" "pos2 t (Suc j)" using right.next_row [OF ij(6) True] by blast
    have "pos1 t (Suc i)" by (rule keeps_atD [OF right_next [OF ij(2)] ij(6,5) t(1)])
    then have "prd_pos t (Suc k)"
      unfolding prd_pos_def using ij t(2) True by (intro exI [of _ i] exI [of _ "Suc j"]) simp
    moreover have "k < length prd_rows"
    proof -
      have "Suc i * ?n \<le> length rows1 * ?n" using ij(1) by (intro mult_le_mono1) simp
      then show ?thesis using True ij(3) by (simp add: length_prd_rows)
    qed
    ultimately show ?thesis using t(1) by (simp add: prd_Next_def bnd_def go_unfold)
  next
    case False
    then have j: "j = ?n" using ij(2) by simp
    obtain t u where tu: "m_Next (sc_ops s2) s = (Inr False, t)" "m_BeforeFirst (sc_ops s2) t = (Inr (), u)"
      "pos1 u (Suc i)" "pos2 u 0"
      using right_reset [OF ij(5)] ij(6) unfolding j by blast
    show ?thesis
    proof (cases "?n = 0")
      case True
      obtain v where v: "m_Next (sc_ops s2) u = (Inr False, v)" "ready2 v" using right.next_end [of u] tu(4) True by auto
      have "pos1 v (Suc i)" by (rule keeps_atD [OF right_next [OF le0] tu(4,3) v(1)])
      then have "prd_ready v" using v(2) left.pos_ready by (auto simp: prd_ready_def)
      moreover have "\<not> k < length prd_rows" unfolding length_prd_rows True by simp
      ultimately show ?thesis using tu v(1) by (simp add: prd_Next_def bnd_def go_unfold)
    next
      case n: False
      obtain v where v: "m_Next (sc_ops s2) u = (Inr True, v)" "pos2 v 1" using right.next_row [OF tu(4)] n by auto
      have pv: "pos1 v (Suc i)" by (rule keeps_atD [OF right_next [OF le0] tu(4,3) v(1)])
      have le: "Suc i \<le> length rows1" using ij(1) by simp
      show ?thesis
      proof (cases "Suc i < length rows1")
        case True
        obtain w where w: "m_Next (sc_ops s1) v = (Inr True, w)" "pos1 w (Suc (Suc i))"
          using left.next_row [OF pv True] by blast
        have "pos2 w 1" by (rule keeps_atD [OF left_next_at [OF le] pv v(2) w(1)])
        then have "prd_pos w (Suc k)"
          unfolding prd_pos_def using w(2) True n ij(3) j
          by - (rule exI [of _ "Suc i"], rule exI [of _ 1], auto simp: Suc_le_eq)
        moreover have "k < length prd_rows"
        proof -
          have "Suc (Suc i) * ?n \<le> length rows1 * ?n" using True by (intro mult_le_mono1) simp
          moreover have "0 < ?n" using n by blast
          ultimately show ?thesis unfolding length_prd_rows ij(3) j mult_Suc by linarith
        qed
        ultimately show ?thesis using tu v(1) w(1) by (simp add: prd_Next_def bnd_def go_unfold)
      next
        case False
        then have len: "Suc i = length rows1" using ij(1) by simp
        then obtain w where w: "m_Next (sc_ops s1) v = (Inr False, w)" "ready1 w"
          using left.next_end [of v] pv by auto
        have "ready2 w" by (rule keeps_atD [OF left_next [OF le] pv right.pos_ready [OF v(2)] w(1)])
        moreover have "\<not> k < length prd_rows" by (simp add: length_prd_rows ij(3) j len [symmetric])
        ultimately show ?thesis using tu v(1) w by (simp add: prd_Next_def bnd_def go_unfold prd_ready_def)
      qed
    qed
  qed
qed

lemma product_first:
  assumes "rows1 \<noteq> []" and "prd_ready s"
  shows "\<exists>s'. prd_BeforeFirst s1 s2 s = (Inr (), s') \<and> prd_pos s' 0"
proof -
  have r: "ready1 s" "ready2 s" using assms(2) by (simp_all add: prd_ready_def)
  obtain t where t: "m_BeforeFirst (sc_ops s1) s = (Inr (), t)" "pos1 t 0" using left.before_first [OF r(1)] by blast
  have rt: "ready2 t" by (rule keeps_atD [OF left_first r t(1)])
  obtain u where u: "m_Next (sc_ops s1) t = (Inr True, u)" "pos1 u 1" using left.next_row [OF t(2)] assms(1) by auto
  have ru: "ready2 u" by (rule keeps_atD [OF left_next [OF le0] t(2) rt u(1)])
  obtain v where v: "m_BeforeFirst (sc_ops s2) u = (Inr (), v)" "pos2 v 0" using right.before_first [OF ru] by blast
  have "pos1 v 1" by (rule keeps_atD [OF right_first ru u(2) v(1)])
  then have "prd_pos v 0" unfolding prd_pos_def using v(2) assms(1) by (intro exI [of _ 0]) simp
  then show ?thesis using t(1) u(1) v(1) by (simp add: prd_BeforeFirst_def bnd_def)
qed

lemma product_val:
  assumes k: "k < length prd_rows"
  shows "reads_row (\<lambda>s. prd_pos s (Suc k)) (prd_GetVal s1 s2) (prd_rows ! k)"
  unfolding reads_row_def
proof (intro allI impI)
  fix s f
  let ?n = "length rows2"
  assume "prd_pos s (Suc k)"
  then obtain i j where ij: "i < length rows1" "j \<le> ?n" "Suc k = i * ?n + j" "j = 0 \<longrightarrow> i = 0" "pos1 s (Suc i)" "pos2 s j"
    by (auto simp: prd_pos_def)
  have "j \<noteq> 0" using ij(3,4) by auto
  then obtain m where m: "j = Suc m" by (cases j) simp_all
  have row: "prd_rows ! k = prd_row (rows1 ! i) (rows2 ! m)"
    using prd_rows_nth [OF ij(1), of m] ij(2,3) m by simp
  have at: "prd_pos s' (Suc k)" if "pos1 s' (Suc i)" "pos2 s' (Suc m)" for s'
    unfolding prd_pos_def using that ij m by (intro exI [of _ i] exI [of _ j]) simp
  have hf: "m_HasField (sc_ops s1) f s = (Inr (has1 f), s)" using left.has_field left.pos_ready ij(5) by blast
  show "\<exists>s'. prd_pos s' (Suc k) \<and> (case (prd_rows ! k) f of Some v \<Rightarrow> prd_GetVal s1 s2 f s = (Inr (Some v), s')
      | None \<Rightarrow> \<exists>e. prd_GetVal s1 s2 f s = (Err e, s'))"
  proof (cases "has1 f")
    case True
    obtain s' where s': "pos1 s' (Suc i)" "case (rows1 ! i) f of Some v \<Rightarrow> m_GetVal (sc_ops s1) f s = (Inr (Some v), s')
        | None \<Rightarrow> \<exists>e. m_GetVal (sc_ops s1) f s = (Err e, s')"
      using left.get_val [OF ij(1)] ij(5) unfolding reads_row_def by blast
    have "pos2 s' (Suc m)"
      using keeps_atD [OF left_val [OF ij(1)] ij(5), of j f] ij(6) s'(2) m by (auto split: option.splits)
    then have "prd_pos s' (Suc k)" using s'(1) by (intro at)
    then show ?thesis
      using s'(2) True hf unfolding row by (intro exI [of _ s']) (simp add: prd_row_def prd_GetVal_def prd_side_def bnd_def split: option.splits)
  next
    case False
    have ml: "m < length rows2" using ij(2) m by simp
    obtain s' where s': "pos2 s' (Suc m)" "case (rows2 ! m) f of Some v \<Rightarrow> m_GetVal (sc_ops s2) f s = (Inr (Some v), s')
        | None \<Rightarrow> \<exists>e. m_GetVal (sc_ops s2) f s = (Err e, s')"
      using right.get_val [OF ml] ij(6) m unfolding reads_row_def by blast
    have "pos1 s' (Suc i)"
      using keeps_atD [OF right_val [OF ml], of s "Suc i" f] ij(5,6) m s'(2) by (auto split: option.splits)
    then have "prd_pos s' (Suc k)" using s'(1) by (intro at)
    then show ?thesis
      using s'(2) False hf unfolding row by (intro exI [of _ s']) (simp add: prd_row_def prd_GetVal_def prd_side_def bnd_def split: option.splits)
  qed
qed

lemma product_contract:
  assumes "rows1 \<noteq> []"
  shows "row_scan (ProductScan s1 s2) prd_rows (\<lambda>f. has1 f \<or> has2 f) prd_pos prd_ready"
proof (unfold_locales, unfold ProductScan_def scan.simps scan_ops.simps)
  show "prd_ready s" if "prd_pos s k" for s k
    using that left.pos_ready right.pos_ready by (auto simp: prd_pos_def prd_ready_def)
  show "\<exists>s'. prd_BeforeFirst s1 s2 s = (Inr (), s') \<and> prd_pos s' 0" if "prd_ready s" for s
    using product_first [OF assms that] .
  show "\<exists>s'. prd_Next s1 s2 s = (Inr True, s') \<and> prd_pos s' (Suc k)" if "prd_pos s k" "k < length prd_rows" for s k
    using product_next [OF that(1)] that(2) by simp
  show "\<exists>s'. prd_Next s1 s2 s = (Inr False, s') \<and> prd_ready s'" if "prd_pos s (length prd_rows)" for s
    using product_next [OF that] by simp
  show "reads_row (\<lambda>s. prd_pos s (Suc k)) (prd_GetVal s1 s2) (prd_rows ! k)" if "k < length prd_rows" for k
    by (rule product_val [OF that])
  show "prd_HasField s1 s2 f s = (Inr (has1 f \<or> has2 f), s)" if "prd_ready s" for s f
    using that left.has_field [of s f] right.has_field [of s f]
    by (simp add: prd_HasField_def prd_ready_def bnd_def go_unfold)
qed

end

end
