(* ===== verification/TableRows.thy ===== *)
theory TableRows
  imports RowScan Pins
begin

text \<open>
  The rows a table scan enumerates (\<^verbatim>\<open>query/table/table_scan.go\<close>), and what follows for queries.

  A table is its file, its layout and its number of blocks; \<open>V\<close> gives the contents of the blocks. The
  records are the used slots, block by block. \<open>scanning\<close> is the state in which the scans \<open>ks\<close> of
  transaction \<open>t\<close> are open on their tables and nothing else is pinned by it. The lemmas give what
  \<open>BeforeFirst\<close>, \<open>Next\<close> and \<open>GetVal\<close> of one of them return, and that each keeps \<open>scanning\<close> and moves
  that scan only; \<open>passed\<close> counts the records at or before a position.
\<close>

section \<open>Records of a table\<close>

record table_at =
  tb_file :: string
  tb_lay :: layout
  tb_blocks :: int

definition cell_at :: "layout \<Rightarrow> page \<Rightarrow> int \<Rightarrow> string \<Rightarrow> val res" where
  "cell_at lay pg slot f =
     (let off = slot * slotSize lay + lay_Offset lay f; ty = schema_Type (lay_schema lay) f in
      if ty = Integer then rbind (page_GetInt pg off) (\<lambda>v. Inr (VInt v))
      else if ty = Long then rbind (page_GetLong pg off) (\<lambda>v. Inr (VLong v))
      else if ty = Short then rbind (page_GetShort pg off) (\<lambda>v. Inr (VShort v))
      else if ty = Varchar then rbind (page_GetString pg off) (\<lambda>v. Inr (VString v))
      else if ty = Boolean then rbind (page_GetBool pg off) (\<lambda>v. Inr (VBool v))
      else if ty = Date then rbind (page_GetDate pg off) (\<lambda>v. Inr (VDate v))
      else Err EUnsupportedFieldType)"

abbreviation tb_block :: "table_at \<Rightarrow> int \<Rightarrow> block_id" where
  "tb_block T b \<equiv> NewBlockId (tb_file T) b"

definition slots_of :: "int \<Rightarrow> table_at \<Rightarrow> int" where
  "slots_of bs T = bs div slotSize (tb_lay T)"

definition used :: "(block_id \<Rightarrow> page) \<Rightarrow> table_at \<Rightarrow> int \<Rightarrow> int \<Rightarrow> bool" where
  "used V T b j \<longleftrightarrow> page_GetInt (V (tb_block T b)) (j * slotSize (tb_lay T)) = Inr FlagUsed"

definition rids_in :: "(block_id \<Rightarrow> page) \<Rightarrow> table_at \<Rightarrow> int \<Rightarrow> int list \<Rightarrow> (int \<times> int) list" where
  "rids_in V T b js = map (Pair b) (filter (used V T b) js)"

definition rids_of :: "(block_id \<Rightarrow> page) \<Rightarrow> int \<Rightarrow> table_at \<Rightarrow> int list \<Rightarrow> (int \<times> int) list" where
  "rids_of V bs T blks = concat (map (\<lambda>b. rids_in V T b [0..slots_of bs T - 1]) blks)"

definition tb_rids :: "(block_id \<Rightarrow> page) \<Rightarrow> int \<Rightarrow> table_at \<Rightarrow> (int \<times> int) list" where
  "tb_rids V bs T = rids_of V bs T [0..tb_blocks T - 1]"

definition rid_row :: "(block_id \<Rightarrow> page) \<Rightarrow> table_at \<Rightarrow> int \<times> int \<Rightarrow> row" where
  "rid_row V T r f = (case cell_at (tb_lay T) (V (tb_block T (fst r))) (snd r) f of Inr v \<Rightarrow> Some v | Inl _ \<Rightarrow> None)"

definition tb_rows :: "(block_id \<Rightarrow> page) \<Rightarrow> int \<Rightarrow> table_at \<Rightarrow> row list" where
  "tb_rows V bs T = map (rid_row V T) (tb_rids V bs T)"

text \<open>How many records are at or before a position.\<close>

definition passed :: "(block_id \<Rightarrow> page) \<Rightarrow> int \<Rightarrow> table_at \<Rightarrow> int \<Rightarrow> int \<Rightarrow> nat" where
  "passed V bs T b slot = length (rids_of V bs T [0..b - 1]) + length (rids_in V T b [0..slot])"

lemma rids_in_append: "rids_in V T b (xs @ ys) = rids_in V T b xs @ rids_in V T b ys"
  by (simp add: rids_in_def)

lemma rids_of_append: "rids_of V bs T (xs @ ys) = rids_of V bs T xs @ rids_of V bs T ys"
  by (simp add: rids_of_def)

lemma upto_split_at: "- 1 \<le> (k :: int) \<Longrightarrow> k \<le> h \<Longrightarrow> [0..h] = [0..k] @ [k + 1..h]"
  by (cases "k = - 1") (simp_all add: upto_split2)

lemma tb_rids_split:
  assumes "0 \<le> b" and "b < tb_blocks T" and "- 1 \<le> slot" and "slot < slots_of bs T"
  shows "tb_rids V bs T = (rids_of V bs T [0..b - 1] @ rids_in V T b [0..slot]) @
     rids_in V T b [slot + 1..slots_of bs T - 1] @ rids_of V bs T [b + 1..tb_blocks T - 1]"
proof -
  have "[0..tb_blocks T - 1] = [0..b - 1] @ b # [b + 1..tb_blocks T - 1]"
    using upto_split_at [of "b - 1" "tb_blocks T - 1"] assms(1,2) upto_rec1 [of b "tb_blocks T - 1"] by simp
  moreover have "rids_in V T b [0..slots_of bs T - 1] = rids_in V T b [0..slot] @ rids_in V T b [slot + 1..slots_of bs T - 1]"
    using assms(3,4) by (subst upto_split_at [of slot]) (simp_all add: rids_in_append)
  ultimately show ?thesis by (simp add: tb_rids_def rids_of_def)
qed

lemma find_upto:
  "find P [lo..hi] = Some (j :: int) \<longleftrightarrow> lo \<le> j \<and> j \<le> hi \<and> P j \<and> (\<forall>i. lo \<le> i \<longrightarrow> i < j \<longrightarrow> \<not> P i)"
proof (induction lo hi rule: upto.induct)
  case (1 lo hi)
  show ?case
  proof (cases "lo \<le> hi")
    case True
    show ?thesis
    proof (cases "P lo")
      case t: True
      then show ?thesis using True by (auto simp: upto_rec1 [OF True])
    next
      case f: False
      then have "find P [lo..hi] = Some j \<longleftrightarrow> find P [lo + 1..hi] = Some j" by (simp add: upto_rec1 [OF True])
      also have "\<dots> \<longleftrightarrow> lo + 1 \<le> j \<and> j \<le> hi \<and> P j \<and> (\<forall>i. lo + 1 \<le> i \<longrightarrow> i < j \<longrightarrow> \<not> P i)" using 1 True by simp
      also have "\<dots> \<longleftrightarrow> lo \<le> j \<and> j \<le> hi \<and> P j \<and> (\<forall>i. lo \<le> i \<longrightarrow> i < j \<longrightarrow> \<not> P i)"
        using f by (smt (verit, ccfv_SIG))
      finally show ?thesis .
    qed
  qed auto
qed

lemma rids_in_find:
  assumes "find (used V T b) [lo..hi] = Some j"
  shows "rids_in V T b [lo..j] = [(b, j)]" and "rids_in V T b [lo..hi] = (b, j) # rids_in V T b [j + 1..hi]"
proof -
  have j: "lo \<le> j" "j \<le> hi" "used V T b j" and no: "\<And>i. lo \<le> i \<Longrightarrow> i < j \<Longrightarrow> \<not> used V T b i"
    using assms by (auto simp: find_upto)
  have "filter (used V T b) [lo..j - 1] = []" using no by (auto simp: filter_empty_conv)
  then show one: "rids_in V T b [lo..j] = [(b, j)]" using j by (simp add: rids_in_def upto_rec2)
  show "rids_in V T b [lo..hi] = (b, j) # rids_in V T b [j + 1..hi]"
    using upto_split2 [OF j(1,2)] one by (simp add: rids_in_append)
qed

lemma rids_in_none: "find (used V T b) js = None \<Longrightarrow> rids_in V T b js = []"
  by (auto simp: rids_in_def find_None_iff filter_empty_conv)

lemma passed_last:
  assumes "0 \<le> slot" and "used V T b slot"
  shows "rids_in V T b [0..slot] = rids_in V T b [0..slot - 1] @ [(b, slot)]"
  using assms by (simp add: rids_in_def upto_rec2)

section \<open>States with open scans\<close>

definition at_slot :: "int \<Rightarrow> table_at \<Rightarrow> int \<Rightarrow> int \<Rightarrow> table_scan" where
  "at_slot t T b slot = \<lparr>ts_tx = t, ts_layout = tb_lay T,
     ts_page = Some \<lparr>rp_tx = t, rp_block = tb_block T b, rp_layout = tb_lay T\<rparr>, ts_file = tb_file T, ts_slot = slot\<rparr>"

text \<open>The table: slots hold their flag, and no cell of a record makes its getter panic. In a dense table
  only the first block may be without records (\<open>Next\<close> skips one block at most).\<close>

definition tb_sound :: "(block_id \<Rightarrow> page) \<Rightarrow> int \<Rightarrow> table_at \<Rightarrow> bool" where
  "tb_sound V bs T \<longleftrightarrow> IntSize \<le> slotSize (tb_lay T) \<and>
     (\<forall>r \<in> set (tb_rids V bs T). \<forall>f. cell_at (tb_lay T) (V (tb_block T (fst r))) (snd r) f \<notin> {Inl Panic, Inl OutOfFuel})"

definition tb_dense :: "(block_id \<Rightarrow> page) \<Rightarrow> int \<Rightarrow> table_at \<Rightarrow> bool" where
  "tb_dense V bs T \<longleftrightarrow> (\<forall>b. 0 < b \<longrightarrow> b < tb_blocks T \<longrightarrow> (\<exists>j. 0 \<le> j \<and> j < slots_of bs T \<and> used V T b j))"

definition tb_there :: "(block_id \<Rightarrow> page) \<Rightarrow> int \<Rightarrow> table_at \<Rightarrow> 'z world_scheme \<Rightarrow> bool" where
  "tb_there V t T s \<longleftrightarrow> tb_file T \<noteq> logFile s \<and> 0 < tb_blocks T \<and> nblocks s (tb_file T) = tb_blocks T \<and>
     slockable s t (tb_block T EndOfFile) \<and>
     (\<forall>b. 0 \<le> b \<longrightarrow> b < tb_blocks T \<longrightarrow> blk_view s (tb_block T b) = V (tb_block T b) \<and> slockable s t (tb_block T b))"

text \<open>What a step does to the scans: nothing, or one is moved.\<close>

abbreviation scans_kept :: "'z db_scheme \<Rightarrow> 'z db_scheme \<Rightarrow> bool" where
  "scans_kept s s' \<equiv> tscans s' = tscans s \<and> tscan_count s' = tscan_count s"

abbreviation scan_moved :: "nat \<Rightarrow> table_scan \<Rightarrow> 'z db_scheme \<Rightarrow> 'z db_scheme \<Rightarrow> bool" where
  "scan_moved k x s s' \<equiv> tscans s' = (tscans s)(k := x) \<and> tscan_count s' = tscan_count s"

definition pinned_block :: "'z db_scheme \<Rightarrow> nat \<Rightarrow> block_id" where
  "pinned_block s k = rp_block (the (ts_page (tscans s k)))"

definition scanning :: "(block_id \<Rightarrow> page) \<Rightarrow> int \<Rightarrow> int \<Rightarrow> (nat \<Rightarrow> table_at) \<Rightarrow> nat list \<Rightarrow> 'z db_scheme \<Rightarrow> bool" where
  "scanning V bs t tb ks s \<longleftrightarrow> pool_inv s \<and> blockSize s = bs \<and> distinct ks \<and> length ks \<le> card (own_buffers s t) \<and>
     pins_are s t (map (pinned_block s) ks) \<and>
     (\<forall>k \<in> set ks. tb_sound V bs (tb k) \<and> tb_there V t (tb k) s \<and>
        (\<exists>b slot. 0 \<le> b \<and> b < tb_blocks (tb k) \<and> - 1 \<le> slot \<and> (slot < slots_of bs (tb k) \<or> slot = - 1) \<and>
           tscans s k = at_slot t (tb k) b slot))"

lemma scanningD:
  assumes "scanning V bs t tb ks s"
  shows "pool_inv s" and "blockSize s = bs" and "distinct ks" and "length ks \<le> card (own_buffers s t)"
    and "pins_are s t (map (pinned_block s) ks)"
    and "k \<in> set ks \<Longrightarrow> tb_sound V bs (tb k)" and "k \<in> set ks \<Longrightarrow> tb_there V t (tb k) s"
    and "k \<in> set ks \<Longrightarrow> \<exists>b slot. 0 \<le> b \<and> b < tb_blocks (tb k) \<and> - 1 \<le> slot \<and>
       (slot < slots_of bs (tb k) \<or> slot = - 1) \<and> tscans s k = at_slot t (tb k) b slot"
  using assms unfolding scanning_def by blast+

lemma calm_tscans: "calm t s s' \<Longrightarrow> scans_kept s s'"
proof -
  assume "calm t s s'"
  then have "world.more s' = world.more s" by (simp add: calm_def)
  then show ?thesis by (cases s; cases s') simp
qed

lemma tb_there_calm: "calm t s s' \<Longrightarrow> tb_there V t T s \<Longrightarrow> tb_there V t T s'"
  by (auto simp: tb_there_def calm_def in_file_def NewBlockId_def)

text \<open>Steps that leave the pins alone: locks, and opening files.\<close>

lemma scanning_calm:
  assumes s: "scanning V bs t tb ks s" and c: "calm t s s'" and inv: "pool_inv s'"
    and p: "pins_are s' t (map (pinned_block s) ks)" and o': "own_buffers s' t = own_buffers s t"
  shows "scanning V bs t tb ks s'"
proof -
  have "pinned_block s' = pinned_block s" by (rule ext) (simp add: pinned_block_def calm_tscans [OF c])
  moreover have "blockSize s' = blockSize s" using c by (simp add: calm_def)
  ultimately show ?thesis
    using s inv p o' tb_there_calm [OF c] unfolding scanning_def by (simp add: calm_tscans [OF c])
qed

lemma scanning_locks_only:
  assumes "scanning V bs t tb ks s" and "locks_only t s s'"
  shows "scanning V bs t tb ks s'" and "scans_kept s s'"
proof -
  note c = calm_locks_only [OF assms(2)] and same = locks_only_same [OF assms(2)]
  show "scans_kept s s'" by (rule calm_tscans [OF c])
  have "pins_are s' t = pins_are s t" "own_buffers s' t = own_buffers s t"
    using pins_are_cong [of s' t s] same(9,10) by (auto simp: fun_eq_iff)
  then show "scanning V bs t tb ks s'"
    using scanning_calm [OF assms(1) c] scanningD(1,5) [OF assms(1)] same(1) by simp
qed

lemma calm_quiet: "quiet s s' \<Longrightarrow> calm t s s'"
proof -
  assume q: "quiet s s'"
  note same = quiet_same [OF q]
  have m: "pool_state.more s' = pool_state.more s" by (rule same(13))
  have "world.more s' = world.more s" using m by (cases s; cases s'; simp)
  then show ?thesis using same more_world [OF m] by (simp add: calm_def slockable_def)
qed

lemma scanning_size:
  assumes s: "scanning V bs t tb ks s" and there: "tb_there V t T s"
  obtains s' where "tx_Size t (tb_file T) s = (Inr (tb_blocks T), s')"
    and "scanning V bs t tb ks s'" and "scans_kept s s'" and "calm t s s'" and "own_buffers s' t = own_buffers s t"
proof -
  have sl: "slockable s t (tb_block T EndOfFile)" using there by (simp add: tb_there_def)
  obtain s1 where s1: "tx_SLock t (tb_block T EndOfFile) s = (Inr (), s1)" "locks_only t s s1"
    by (rule tx_SLock_spec [OF sl])
  note sc1 = scanning_locks_only [OF s s1(2)] and c1 = calm_locks_only [OF s1(2)]
  have "fm_wf s1"
    using scanningD(1) [OF sc1(1)] by (auto simp: pool_inv_def log_holds_def lm_inv_def)
  then obtain s2 where s2: "fm_Length (tb_file T) s1 = (Inr (nblocks s1 (tb_file T)), s2)" "fm_frame s1 s2"
    and fb: "\<And>m. fileBytes s2 m = fileBytes s1 m"
    by (rule fm_Length_spec [of s1 "tb_file T"]) blast
  have q: "quiet s1 s2" using s2(2) fb by (simp add: quiet_def)
  have sc2: "scanning V bs t tb ks s2"
    using scanning_calm [OF sc1(1) calm_quiet [OF q]] scanningD(1,5) [OF sc1(1)] quiet_same(1) [OF q] quiet_pins [OF q]
    by simp
  have "nblocks s1 (tb_file T) = tb_blocks T"
    using tb_there_calm [OF c1 there] by (simp add: tb_there_def)
  then have "tx_Size t (tb_file T) s = (Inr (tb_blocks T), s2)"
    using s1(1) s2(1) by (simp add: tx_Size_def bnd_Inr)
  moreover have "calm t s s2" by (rule calm_trans [OF c1 calm_quiet [OF q]])
  moreover have "own_buffers s2 t = own_buffers s t"
    using pins_are_cong(2) [of s1 t s] locks_only_same(9,10) [OF s1(2)] quiet_pins(2) [OF q] by simp
  ultimately show thesis using sc2 calm_tscans that by blast
qed

text \<open>The scans beside the world do not matter to it.\<close>

lemma db_world2:
  fixes s :: "'z db_scheme"
  assumes u_def: "u = s\<lparr>tscans := x, tscan_count := c\<rparr>"
  shows "pool_inv u = pool_inv s" "blk_view u b = blk_view s b" "nblocks u n = nblocks s n"
    "slockable u t b = slockable s t b" "pins_are u t bl = pins_are s t bl" "own_buffers u t = own_buffers s t"
proof -
  have fb: "fileBytes u n = fileBytes s n" for n by (simp add: fileBytes_def u_def)
  have same: "blockSize u = blockSize s" "logFile u = logFile s" "locks u = locks s" "txns u = txns s"
    "bufferPool u = bufferPool s" "numAvailable u = numAvailable s" "logPage u = logPage s"
    "currentBlock u = currentBlock s" "latestLSN u = latestLSN s" "lastSavedLSN u = lastSavedLSN s"
    by (simp_all add: u_def)
  have nb: "nblocks u n = nblocks s n" for n by (simp add: nblocks_def fb same)
  have wf: "fm_wf u = fm_wf s" by (simp add: fm_wf_def fb same)
  have db: "disk_block u c = disk_block s c" for c by (simp add: disk_block_def fb same)
  have inf: "in_file u c = in_file s c" for c by (simp add: in_file_def nb)
  have lh: "log_holds u l = log_holds s l" for l
    by (simp add: log_holds_def lm_inv_def log_saved_def older_def wf nb db same)
  have ok: "buf_ok u b = buf_ok s b" for b by (simp add: buf_ok_def inf db same split: option.splits)
  show "pool_inv u = pool_inv s" by (simp add: pool_inv_def lh ok same)
  show "blk_view u b = blk_view s b" by (simp add: blk_view_def db same split: option.splits)
  show "nblocks u n = nblocks s n" by (rule nb)
  show "slockable u t b = slockable s t b" by (simp add: slockable_def same)
  show "pins_are u t bl = pins_are s t bl" by (simp add: pins_are_def same)
  show "own_buffers u t = own_buffers s t" by (simp add: own_buffers_def held_in_def same)
qed

lemma db_world [simp]:
  "pool_inv (s\<lparr>tscans := x\<rparr>) = pool_inv s" "blk_view (s\<lparr>tscans := x\<rparr>) b = blk_view s b"
  "nblocks (s\<lparr>tscans := x\<rparr>) n = nblocks s n" "slockable (s\<lparr>tscans := x\<rparr>) t b = slockable s t b"
  "pins_are (s\<lparr>tscans := x\<rparr>) t bl = pins_are s t bl" "own_buffers (s\<lparr>tscans := x\<rparr>) t = own_buffers s t"
proof -
  have "s\<lparr>tscans := x\<rparr> = s\<lparr>tscans := x, tscan_count := tscan_count s\<rparr>" by simp
  from db_world2 [OF this] show "pool_inv (s\<lparr>tscans := x\<rparr>) = pool_inv s" "blk_view (s\<lparr>tscans := x\<rparr>) b = blk_view s b"
    "nblocks (s\<lparr>tscans := x\<rparr>) n = nblocks s n" "slockable (s\<lparr>tscans := x\<rparr>) t b = slockable s t b"
    "pins_are (s\<lparr>tscans := x\<rparr>) t bl = pins_are s t bl" "own_buffers (s\<lparr>tscans := x\<rparr>) t = own_buffers s t"
    by blast+
qed

lemma pins_are_mset: "mset bs = mset bs' \<Longrightarrow> pins_are s t bs = pins_are s t bs'"
proof -
  assume m: "mset bs = mset bs'"
  have "set bs = set bs'" using m by (rule mset_eq_setD)
  moreover have "count_list bs b = count_list bs' b" for b using m by (metis count_mset)
  ultimately show ?thesis by (simp add: pins_are_def)
qed

lemma pins_are_apart:
  assumes "k \<in> set ks"
  shows "pins_are s t (map f ks) = pins_are s t (f k # map f (remove1 k ks))"
  using assms by (intro pins_are_mset) (simp add: image_mset_add_mset [symmetric] del: image_mset_add_mset)

lemma tb_there_scans: "tb_there V t T (s\<lparr>tscans := x\<rparr>) \<longleftrightarrow> tb_there V t T s"
  by (simp add: tb_there_def)

text \<open>Moving the scan \<open>k\<close>: it may be anywhere once its block is pinned and no other block is.\<close>

lemma scanning_put:
  assumes s: "scanning V bs t tb ks s" and k: "k \<in> set ks" and c: "calm t s s'" and inv: "pool_inv s'"
    and own: "own_buffers s' t = own_buffers s t"
    and p: "pins_are s' t (tb_block (tb k) b # map (pinned_block s) (remove1 k ks))"
    and b: "0 \<le> b" "b < tb_blocks (tb k)" and sl: "- 1 \<le> slot" "slot < slots_of bs (tb k) \<or> slot = - 1"
  shows "scanning V bs t tb ks (s'\<lparr>tscans := (tscans s)(k := at_slot t (tb k) b slot)\<rparr>)"
proof -
  let ?u = "s'\<lparr>tscans := (tscans s)(k := at_slot t (tb k) b slot)\<rparr>"
  have at: "pinned_block ?u k = tb_block (tb k) b" by (simp add: pinned_block_def at_slot_def)
  have "k \<notin> set (remove1 k ks)" using scanningD(3) [OF s] by simp
  then have rest: "map (pinned_block ?u) (remove1 k ks) = map (pinned_block s) (remove1 k ks)"
    by (intro map_cong refl) (auto simp: pinned_block_def)
  have "pins_are ?u t (map (pinned_block ?u) ks)" unfolding pins_are_apart [OF k] rest at using p by simp
  moreover have "\<forall>j \<in> set ks. tb_sound V bs (tb j) \<and> tb_there V t (tb j) ?u"
    using scanningD(6,7) [OF s] tb_there_calm [OF c] tb_there_scans by blast
  moreover have "\<exists>b slot. 0 \<le> b \<and> b < tb_blocks (tb j) \<and> - 1 \<le> slot \<and> (slot < slots_of bs (tb j) \<or> slot = - 1) \<and>
      tscans ?u j = at_slot t (tb j) b slot" if "j \<in> set ks" for j
    using scanningD(8) [OF s that] b sl by (cases "j = k") auto
  moreover have "blockSize ?u = bs" using c scanningD(2) [OF s] by (simp add: calm_def)
  ultimately show ?thesis
    using scanningD(3,4) [OF s] inv own unfolding scanning_def by simp
qed

lemma scanning_slot:
  assumes s: "scanning V bs t tb ks s" and k: "k \<in> set ks" and at: "tscans s k = at_slot t (tb k) b slot0"
    and r: "0 \<le> b" "b < tb_blocks (tb k)" "- 1 \<le> slot" "slot < slots_of bs (tb k) \<or> slot = - 1"
  shows "scanning V bs t tb ks (s\<lparr>tscans := (tscans s)(k := at_slot t (tb k) b slot)\<rparr>)"
proof -
  have "pinned_block s k = tb_block (tb k) b" using at by (simp add: pinned_block_def at_slot_def)
  then show ?thesis
    using scanning_put [OF s k calm_refl scanningD(1) [OF s] refl _ r] scanningD(5) [OF s] pins_are_apart [OF k, of s t "pinned_block s"]
    by simp
qed

lemma tb_there_block:
  assumes "tb_there V t T s" and "0 \<le> b" and "b < tb_blocks T"
  shows "in_file s (tb_block T b)" and "File (tb_block T b) \<noteq> logFile s" and "slockable s t (tb_block T b)"
    and "blk_view s (tb_block T b) = V (tb_block T b)"
  using assms by (simp_all add: tb_there_def in_file_def NewBlockId_def)

lemma scanning_move:
  assumes s: "scanning V bs t tb ks s" and k: "k \<in> set ks" and b: "0 \<le> b" "b < tb_blocks (tb k)"
  obtains s' where "ts_moveToBlock k b s = (Inr (), s')" and "scanning V bs t tb ks s'"
    and "scan_moved k (at_slot t (tb k) b (- 1)) s s'"
proof -
  obtain b0 slot0 where at: "tscans s k = at_slot t (tb k) b0 slot0" using scanningD(8) [OF s k] by blast
  have blk: "pinned_block s k = tb_block (tb k) b0" using at by (simp add: pinned_block_def at_slot_def)
  have p0: "pins_are s t (tb_block (tb k) b0 # map (pinned_block s) (remove1 k ks))"
    using scanningD(5) [OF s] pins_are_apart [OF k, of s t "pinned_block s"] blk by simp
  obtain s1 where s1: "tx_Unpin t (tb_block (tb k) b0) s = (Inr (), s1)" "pool_inv s1"
    "pins_are s1 t (map (pinned_block s) (remove1 k ks))" "own_buffers s1 t = own_buffers s t" "calm t s s1"
    by (rule tx_Unpin_spec [OF scanningD(1) [OF s] p0])
  note there = tb_there_block [OF tb_there_calm [OF s1(5) scanningD(7) [OF s k]] b]
  have "length (remove1 k ks) < length ks"
    using length_pos_if_in_set [OF k] k by (simp add: length_remove1)
  then have room: "length (map (pinned_block s) (remove1 k ks)) < card (own_buffers s1 t)"
    using scanningD(4) [OF s] s1(4) by simp
  obtain s2 where s2: "tx_Pin t (tb_block (tb k) b) s1 = (Inr (), s2)" "pool_inv s2"
    "pins_are s2 t (tb_block (tb k) b # map (pinned_block s) (remove1 k ks))"
    "own_buffers s2 t = own_buffers s1 t" "calm t s1 s2"
    by (rule tx_Pin_spec [OF s1(2,3) room there(1,2)])
  have c: "calm t s s2" by (rule calm_trans [OF s1(5) s2(5)])
  let ?u = "s2\<lparr>tscans := (tscans s)(k := at_slot t (tb k) b (- 1))\<rparr>"
  have "ts_moveToBlock k b s = (Inr (), ?u)"
    using s1(1) s2(1) at calm_tscans [OF s1(5)] calm_tscans [OF c]
    by (simp add: ts_moveToBlock_def ts_moveTo_def ts_Close_def NewPage_def ts_upd_def at_slot_def bnd_simps bnd_Inr go_unfold)
  moreover have "own_buffers s2 t = own_buffers s t" using s1(4) s2(4) by simp
  then have "scanning V bs t tb ks ?u"
    using scanning_put [OF s k c s2(2) _ s2(3) b, of "- 1"] by simp
  ultimately show thesis using calm_tscans [OF c] by (intro that [of ?u]) simp_all
qed

section \<open>Moving to the next record\<close>

lemma scanning_page:
  assumes s: "scanning V bs t tb ks s" and k: "k \<in> set ks" and at: "tscans s k = at_slot t (tb k) b slot"
    and b: "0 \<le> b" "b < tb_blocks (tb k)"
  shows "rp_ready s \<lparr>rp_tx = t, rp_block = tb_block (tb k) b, rp_layout = tb_lay (tb k)\<rparr>"
proof -
  have "pinned_block s k = tb_block (tb k) b" using at by (simp add: pinned_block_def at_slot_def)
  then have "tb_block (tb k) b \<in> set (map (pinned_block s) ks)" using k by force
  then obtain i where "tx_holds s t (tb_block (tb k) b) i" by (rule pins_are_holds [OF scanningD(5) [OF s]])
  then show ?thesis
    using scanningD(1) [OF s] tb_there_block(3) [OF scanningD(7) [OF s k] b] scanningD(6) [OF s k]
    by (auto simp: rp_ready_def tb_sound_def)
qed

lemma scanning_slots: "scanning V bs t tb ks s \<Longrightarrow> k \<in> set ks \<Longrightarrow> 0 \<le> slots_of bs (tb k)"
  using scanningD(2,1) [of V bs t tb ks s] scanningD(6) [of V bs t tb ks s k]
  by (auto simp: slots_of_def tb_sound_def IntSize_def pool_inv_def log_holds_def lm_inv_def fm_wf_def pos_imp_zdiv_nonneg_iff)

lemma scanning_search:
  assumes s: "scanning V bs t tb ks s" and k: "k \<in> set ks" and at: "tscans s k = at_slot t (tb k) b slot"
    and b: "0 \<le> b" "b < tb_blocks (tb k)" and sl: "- 1 \<le> slot" and n: "nat (slots_of bs (tb k)) < n"
  obtains s' where "ts_NextAfter n k s = ((case find (used V (tb k) b) [slot + 1..slots_of bs (tb k) - 1] of
      Some j \<Rightarrow> Inr j | None \<Rightarrow> Err ENoSlotFound), s')"
    and "scanning V bs t tb ks s'" and "scans_kept s s'"
proof -
  let ?p = "\<lparr>rp_tx = t, rp_block = tb_block (tb k) b, rp_layout = tb_lay (tb k)\<rparr>"
  have ns: "nslots ?p s = slots_of bs (tb k)" using scanningD(2) [OF s] by (simp add: nslots_def slots_of_def)
  have fl: "flag_is ?p s FlagUsed = used V (tb k) b"
    using tb_there_block(4) [OF scanningD(7) [OF s k] b] by (simp add: fun_eq_iff flag_is_def used_def rp_offset_def)
  have "0 \<le> slot + 1" "nat (nslots ?p s - (slot + 1)) < n" using sl n ns by simp_all
  from search_loop_find [OF scanning_page [OF s k at b] this, of FlagUsed]
  obtain s' where s': "search_loop n ?p FlagUsed (slot + 1) s =
      ((case find (used V (tb k) b) [slot + 1..slots_of bs (tb k) - 1] of Some j \<Rightarrow> Inr j | None \<Rightarrow> Err ENoSlotFound), s')"
    "locks_only t s s'" by (auto simp: ns fl)
  have "ts_NextAfter n k s = search_loop n ?p FlagUsed (slot + 1) s"
    using at by (simp add: ts_NextAfter_def with_page_def at_slot_def rp_NextAfter_def rp_searchAfter_def bnd_simps go_unfold)
  then show thesis using s'(1) scanning_locks_only [OF s s'(2)] that by simp
qed

text \<open>The position behind \<open>b\<close> and \<open>slot\<close> is one further on.\<close>

lemma passed_next:
  assumes b: "0 \<le> b" "b < tb_blocks T" and sl: "- 1 \<le> slot" and f: "find (used V T b) [slot + 1..slots_of bs T - 1] = Some j"
  shows "passed V bs T b j = Suc (passed V bs T b slot)" and "passed V bs T b slot < length (tb_rids V bs T)"
    and "0 \<le> j" and "j < slots_of bs T" and "used V T b j"
proof -
  have j: "slot + 1 \<le> j" "j \<le> slots_of bs T - 1" "used V T b j" using f by (simp_all add: find_upto)
  show "0 \<le> j" "j < slots_of bs T" "used V T b j" using j sl by simp_all
  have "[0..j] = [0..slot] @ [slot + 1..j]" using upto_split_at [of slot j] sl j(1) by simp
  then show p: "passed V bs T b j = Suc (passed V bs T b slot)"
    using rids_in_find(1) [OF f] by (simp add: passed_def rids_in_append)
  show "passed V bs T b slot < length (tb_rids V bs T)"
    using tb_rids_split [OF b, of j] j sl p by (simp add: passed_def)
qed

lemma passed_end:
  assumes b: "0 \<le> b" "b < tb_blocks T" and sl: "- 1 \<le> slot" "slot < slots_of bs T"
    and f: "find (used V T b) [slot + 1..slots_of bs T - 1] = None"
  shows "b = tb_blocks T - 1 \<Longrightarrow> passed V bs T b slot = length (tb_rids V bs T)"
    and "passed V bs T (b + 1) (- 1) = passed V bs T b slot"
proof -
  note none = rids_in_none [OF f]
  show "passed V bs T b slot = length (tb_rids V bs T)" if "b = tb_blocks T - 1"
    using tb_rids_split [OF b sl] none that by (simp add: passed_def rids_of_def)
  have "[0..b] = [0..b - 1] @ [b]" using b by (simp add: upto_rec2)
  moreover have "[0..slots_of bs T - 1] = [0..slot] @ [slot + 1..slots_of bs T - 1]"
    using upto_split_at [of slot "slots_of bs T - 1"] sl by simp
  ultimately show "passed V bs T (b + 1) (- 1) = passed V bs T b slot"
    using none by (simp add: passed_def rids_of_append rids_of_def rids_in_append) (simp add: rids_in_def)
qed

definition sits_at :: "int \<Rightarrow> int \<Rightarrow> table_at \<Rightarrow> nat \<Rightarrow> 'z db_scheme \<Rightarrow> int \<Rightarrow> int \<Rightarrow> bool" where
  "sits_at bs t T k s b slot \<longleftrightarrow> 0 \<le> b \<and> b < tb_blocks T \<and> - 1 \<le> slot \<and> slot < slots_of bs T \<and>
     tscans s k = at_slot t T b slot"

definition stands_on :: "(block_id \<Rightarrow> page) \<Rightarrow> int \<Rightarrow> int \<Rightarrow> table_at \<Rightarrow> nat \<Rightarrow> 'z db_scheme \<Rightarrow> int \<Rightarrow> int \<Rightarrow> bool" where
  "stands_on V bs t T k s b slot \<longleftrightarrow> sits_at bs t T k s b slot \<and> 0 \<le> slot \<and> used V T b slot"

lemma scanning_found:
  assumes s: "scanning V bs t tb ks s" and k: "k \<in> set ks" and at: "tscans s k = at_slot t (tb k) b slot"
    and b: "0 \<le> b" "b < tb_blocks (tb k)" and sl: "- 1 \<le> slot"
    and f: "find (used V (tb k) b) [slot + 1..slots_of bs (tb k) - 1] = Some j"
  obtains s' where "bnd (ts_upd k (\<lambda>o'. o'\<lparr>ts_slot := j\<rparr>)) (\<lambda>_. ret True) s = (Inr True, s')"
    and "scanning V bs t tb ks s'" and "scan_moved k (at_slot t (tb k) b j) s s'"
    and "stands_on V bs t (tb k) k s' b j" and "passed V bs (tb k) b j = Suc (passed V bs (tb k) b slot)"
    and "passed V bs (tb k) b slot < length (tb_rids V bs (tb k))"
proof -
  note nx = passed_next [OF b sl f]
  let ?u = "s\<lparr>tscans := (tscans s)(k := at_slot t (tb k) b j)\<rparr>"
  have "bnd (ts_upd k (\<lambda>o'. o'\<lparr>ts_slot := j\<rparr>)) (\<lambda>_. ret True) s = (Inr True, ?u)"
    using at by (simp add: ts_upd_def at_slot_def bnd_def go_unfold)
  moreover have "scanning V bs t tb ks ?u"
    by (rule scanning_slot [OF s k at b]) (use nx in simp_all)
  moreover have "stands_on V bs t (tb k) k ?u b j" using nx b by (simp add: stands_on_def sits_at_def)
  ultimately show thesis using nx(1,2) by (intro that [of ?u]) simp_all
qed

lemma scanning_atLast:
  assumes s: "scanning V bs t tb ks s" and k: "k \<in> set ks" and at: "tscans s k = at_slot t (tb k) b slot"
  obtains s' where "ts_atLastBlock k s = (Inr (b = tb_blocks (tb k) - 1), s')"
    and "scanning V bs t tb ks s'" and "scans_kept s s'"
proof -
  obtain s' where s': "tx_Size t (tb_file (tb k)) s = (Inr (tb_blocks (tb k)), s')" "scanning V bs t tb ks s'"
    "scans_kept s s'"
    by (rule scanning_size [OF s scanningD(7) [OF s k]])
  have "ts_atLastBlock k s = (Inr (b = tb_blocks (tb k) - 1), s')"
    using s'(1) at by (simp add: ts_atLastBlock_def with_page_def at_slot_def bnd_def go_unfold NewBlockId_def)
  then show thesis using s'(2,3) by (rule that)
qed

lemma scanning_next:
  assumes s: "scanning V bs t tb ks s" and k: "k \<in> set ks" and sits: "sits_at bs t (tb k) k s b slot"
    and n: "nat (slots_of bs (tb k)) < n" and dense: "tb_dense V bs (tb k)"
  shows "if passed V bs (tb k) b slot < length (tb_rids V bs (tb k)) then
      \<exists>s' b' slot'. ts_Next n k s = (Inr True, s') \<and> scanning V bs t tb ks s' \<and>
        scan_moved k (at_slot t (tb k) b' slot') s s' \<and> stands_on V bs t (tb k) k s' b' slot' \<and>
        passed V bs (tb k) b' slot' = Suc (passed V bs (tb k) b slot)
    else \<exists>s'. ts_Next n k s = (Inr False, s') \<and> scanning V bs t tb ks s' \<and> scans_kept s s'"
proof -
  have b: "0 \<le> b" "b < tb_blocks (tb k)" and sl: "- 1 \<le> slot" "slot < slots_of bs (tb k)"
    and at: "tscans s k = at_slot t (tb k) b slot"
    using sits by (simp_all add: sits_at_def)
  obtain s1 where s1: "ts_NextAfter n k s = ((case find (used V (tb k) b) [slot + 1..slots_of bs (tb k) - 1] of
      Some j \<Rightarrow> Inr j | None \<Rightarrow> Err ENoSlotFound), s1)" "scanning V bs t tb ks s1" "scans_kept s s1"
    by (rule scanning_search [OF s k at b sl(1) n])
  have at1: "tscans s1 k = at_slot t (tb k) b slot" using at s1(3) by simp
  show ?thesis
  proof (cases "find (used V (tb k) b) [slot + 1..slots_of bs (tb k) - 1]")
    case (Some j)
    obtain s2 where "bnd (ts_upd k (\<lambda>o'. o'\<lparr>ts_slot := j\<rparr>)) (\<lambda>_. ret True) s1 = (Inr True, s2)"
      "scanning V bs t tb ks s2" "scan_moved k (at_slot t (tb k) b j) s1 s2" "stands_on V bs t (tb k) k s2 b j"
      "passed V bs (tb k) b j = Suc (passed V bs (tb k) b slot)" "passed V bs (tb k) b slot < length (tb_rids V bs (tb k))"
      by (rule scanning_found [OF s1(2) k at1 b sl(1) Some])
    then show ?thesis using s1(1,3) Some by (auto simp: ts_Next_def handle_Inr)
  next
    case None
    obtain s2 where s2: "ts_atLastBlock k s1 = (Inr (b = tb_blocks (tb k) - 1), s2)" "scanning V bs t tb ks s2"
      "scans_kept s1 s2"
      by (rule scanning_atLast [OF s1(2) k at1])
    have run: "ts_Next n k s = (if b = tb_blocks (tb k) - 1 then (Inr False, s2) else
        bnd (ts_moveToBlock k (b + 1)) (\<lambda>_. bnd (ts_NextAfter n k)
          (\<lambda>slot. bnd (ts_upd k (\<lambda>o'. o'\<lparr>ts_slot := slot\<rparr>)) (\<lambda>_. ret True))) s2)"
      using s1(1,3) s2 None at
      by (simp add: ts_Next_def handle_Err bnd_def go_unfold with_page_def at_slot_def NewBlockId_def)
    note pe = passed_end [OF b sl None]
    show ?thesis
    proof (cases "b = tb_blocks (tb k) - 1")
      case True
      then show ?thesis using run s2 s1(3) pe(1) [OF True] by simp
    next
      case False
      then have b1: "0 \<le> b + 1" "b + 1 < tb_blocks (tb k)" using b by simp_all
      obtain s3 where s3: "ts_moveToBlock k (b + 1) s2 = (Inr (), s3)" "scanning V bs t tb ks s3"
        "scan_moved k (at_slot t (tb k) (b + 1) (- 1)) s2 s3"
        by (rule scanning_move [OF s2(2) k b1])
      have at3: "tscans s3 k = at_slot t (tb k) (b + 1) (- 1)" using s3(3) by simp
      obtain s4 where s4: "ts_NextAfter n k s3 = ((case find (used V (tb k) (b + 1)) [0..slots_of bs (tb k) - 1] of
          Some j \<Rightarrow> Inr j | None \<Rightarrow> Err ENoSlotFound), s4)" "scanning V bs t tb ks s4" "scans_kept s3 s4"
        using scanning_search [OF s3(2) k at3 b1 _ n] by auto
      obtain i where "0 \<le> i" "i < slots_of bs (tb k)" "used V (tb k) (b + 1) i"
        using dense b b1 unfolding tb_dense_def by (metis zle_add1_eq_le)
      then obtain j where j: "find (used V (tb k) (b + 1)) [- 1 + 1..slots_of bs (tb k) - 1] = Some j"
        by (cases "find (used V (tb k) (b + 1)) [- 1 + 1..slots_of bs (tb k) - 1]") (auto simp: find_None_iff)
      have at4: "tscans s4 k = at_slot t (tb k) (b + 1) (- 1)" using at3 s4(3) by simp
      obtain s5 where "bnd (ts_upd k (\<lambda>o'. o'\<lparr>ts_slot := j\<rparr>)) (\<lambda>_. ret True) s4 = (Inr True, s5)"
        "scanning V bs t tb ks s5" "scan_moved k (at_slot t (tb k) (b + 1) j) s4 s5" "stands_on V bs t (tb k) k s5 (b + 1) j"
        "passed V bs (tb k) (b + 1) j = Suc (passed V bs (tb k) (b + 1) (- 1))"
        "passed V bs (tb k) (b + 1) (- 1) < length (tb_rids V bs (tb k))"
        by (rule scanning_found [OF s4(2) k at4 b1 _ j]) simp_all
      moreover from this have "ts_Next n k s = (Inr True, s5)"
        using run False s3(1) s4(1) j by (simp add: bnd_Inr)
      moreover have "(tscans s)(k := at_slot t (tb k) (b + 1) j) = (tscans s4)(k := at_slot t (tb k) (b + 1) j)"
        using s4(3) s3(3) s2(3) s1(3) by simp
      moreover have "tscan_count s4 = tscan_count s" using s4(3) s3(3) s2(3) s1(3) by simp
      ultimately show ?thesis using pe(2) by simp (intro exI [of _ "b + 1"] exI [of _ j], simp)
    qed
  qed
qed

section \<open>Reading a field\<close>

definition some_val :: "val res \<Rightarrow> val option res" where
  "some_val r = rbind r (\<lambda>v. Inr (Some v))"

lemma some_val_Err: "some_val (Inl e) = Inl e"
  by (simp add: some_val_def)

lemma scanning_get:
  fixes g :: "page \<Rightarrow> int \<Rightarrow> 'x res"
  assumes s: "scanning V bs t tb ks s" and k: "k \<in> set ks" and on: "sits_at bs t (tb k) k s b slot"
  shows "\<exists>s'. map_go (Some \<circ> c) (tx_Get g t (tb_block (tb k) b) off) s =
      (some_val (rbind (g (V (tb_block (tb k) b)) off) (\<lambda>x. Inr (c x))), s') \<and>
    scanning V bs t tb ks s' \<and> scans_kept s s'"
proof -
  have b: "0 \<le> b" "b < tb_blocks (tb k)" and at: "tscans s k = at_slot t (tb k) b slot"
    using on by (simp_all add: sits_at_def)
  obtain i where h: "pool_inv s" "tx_holds s t (tb_block (tb k) b) i" "slockable s t (tb_block (tb k) b)"
    using scanning_page [OF s k at b] by (auto simp: rp_ready_def)
  have v: "blk_view s (tb_block (tb k) b) = V (tb_block (tb k) b)"
    by (rule tb_there_block(4) [OF scanningD(7) [OF s k] b])
  obtain s' where s': "tx_Get g t (tb_block (tb k) b) off s = (g (V (tb_block (tb k) b)) off, s')" "locks_only t s s'"
    using tx_Get_spec [OF h, of g off] v by metis
  have "map_go (Some \<circ> c) (tx_Get g t (tb_block (tb k) b) off) s =
      (some_val (rbind (g (V (tb_block (tb k) b)) off) (\<lambda>x. Inr (c x))), s')"
    using s'(1) by (cases "g (V (tb_block (tb k) b)) off") (simp_all add: map_go_def some_val_def bnd_def go_unfold)
  then show ?thesis using scanning_locks_only [OF s s'(2)] by blast
qed

lemma scanning_cell:
  assumes s: "scanning V bs t tb ks s" and k: "k \<in> set ks" and on: "sits_at bs t (tb k) k s b slot"
  shows "\<exists>s'. ts_GetVal k f s = (some_val (cell_at (tb_lay (tb k)) (V (tb_block (tb k) b)) slot f), s') \<and>
    scanning V bs t tb ks s' \<and> scans_kept s s'"
proof -
  have at: "tscans s k = at_slot t (tb k) b slot" using on by (simp add: sits_at_def)
  let ?off = "slot * slotSize (tb_lay (tb k)) + lay_Offset (tb_lay (tb k)) f"
  let ?ty = "schema_Type (lay_schema (tb_lay (tb k))) f"
  have get: "map_go c (with_page k m) s =
      map_go c (m (at_slot t (tb k) b slot) \<lparr>rp_tx = t, rp_block = tb_block (tb k) b, rp_layout = tb_lay (tb k)\<rparr>) s" for c m
    using at by (simp add: map_go_def with_page_def at_slot_def bnd_def go_unfold)
  have run: "ts_GetVal k f s =
     (if ?ty = Integer then map_go (Some \<circ> VInt) (tx_Get page_GetInt t (tb_block (tb k) b) ?off) s
      else if ?ty = Long then map_go (Some \<circ> VLong) (tx_Get page_GetLong t (tb_block (tb k) b) ?off) s
      else if ?ty = Short then map_go (Some \<circ> VShort) (tx_Get page_GetShort t (tb_block (tb k) b) ?off) s
      else if ?ty = Varchar then map_go (Some \<circ> VString) (tx_Get page_GetString t (tb_block (tb k) b) ?off) s
      else if ?ty = Boolean then map_go (Some \<circ> VBool) (tx_Get page_GetBool t (tb_block (tb k) b) ?off) s
      else if ?ty = Date then map_go (Some \<circ> VDate) (tx_Get page_GetDate t (tb_block (tb k) b) ?off) s
      else (Err EUnsupportedFieldType, s))"
    by (simp add: ts_GetVal_def ts_GetInt_def ts_GetLong_def ts_GetShort_def ts_GetString_def ts_GetBool_def ts_GetDate_def
      get rp_GetInt_def rp_GetLong_def rp_GetShort_def rp_GetString_def rp_GetBool_def rp_GetDate_def rp_pos_def rp_offset_def
      tx_GetInt_def tx_GetLong_def tx_GetShort_def tx_GetString_def tx_GetBool_def tx_GetDate_def
      bnd_def at at_slot_def go_unfold Let_def)
  show ?thesis
    unfolding run cell_at_def Let_def using s by (simp add: scanning_get [OF s k on] some_val_Err)
qed

end
