(* ===== verification/OpenScans.thy ===== *)
theory OpenScans
  imports TableRows
begin

text \<open>
  Open table scans, and scans built on them (\<^verbatim>\<open>query/table/table_scan.go\<close> under
  \<^verbatim>\<open>query/select_scan.go\<close> and the others).

  \<open>querying\<close> are the states of a transaction that has opened the table scans from number \<open>c0\<close> on and
  pinned nothing else; \<open>scan_steps\<close> says which of them a call may move. An \<open>owned_scan\<close> has the contract
  of a scan, moves the scans of a set \<open>K\<close> only, and keeps its position whatever happens to others:
  the contract that selection and projection pass on, and that two scans with disjoint sets pass to
  their product. Table scans meet it (\<open>tbl\<close>), and opening a table keeps the others where they are.
\<close>

section \<open>Open scans\<close>

definition table_of :: "'z db_scheme \<Rightarrow> nat \<Rightarrow> table_at" where
  "table_of s k = \<lparr>tb_file = ts_file (tscans s k), tb_lay = ts_layout (tscans s k),
     tb_blocks = nblocks s (ts_file (tscans s k))\<rparr>"

definition querying :: "(block_id \<Rightarrow> page) \<Rightarrow> int \<Rightarrow> int \<Rightarrow> nat \<Rightarrow> 'z db_scheme \<Rightarrow> bool" where
  "querying V bs t c0 s \<longleftrightarrow> c0 \<le> tscan_count s \<and> scanning V bs t (table_of s) [c0..<tscan_count s] s"

lemma scanning_tables:
  assumes "scanning V bs t tb ks s" and "k \<in> set ks"
  shows "table_of s k = tb k"
proof -
  obtain b slot where "tscans s k = at_slot t (tb k) b slot" using scanningD(8) [OF assms] by blast
  then show ?thesis using scanningD(7) [OF assms] by (simp add: table_of_def at_slot_def tb_there_def)
qed

lemma scanning_cong: "(\<And>k. k \<in> set ks \<Longrightarrow> tb' k = tb k) \<Longrightarrow> scanning V bs t tb' ks s = scanning V bs t tb ks s"
  unfolding scanning_def by auto

text \<open>A step that moves at most the scans in \<open>K\<close>, and may open others.\<close>

definition scan_steps :: "(block_id \<Rightarrow> page) \<Rightarrow> int \<Rightarrow> int \<Rightarrow> nat \<Rightarrow> nat set \<Rightarrow> 'z db_scheme \<Rightarrow> 'z db_scheme \<Rightarrow> bool" where
  "scan_steps V bs t c0 K s s' \<longleftrightarrow> querying V bs t c0 s' \<and> tscan_count s \<le> tscan_count s' \<and>
     (\<forall>j < tscan_count s. j \<notin> K \<longrightarrow> tscans s' j = tscans s j) \<and>
     (\<forall>j. c0 \<le> j \<longrightarrow> j < tscan_count s \<longrightarrow> table_of s' j = table_of s j)"

lemma stepsD:
  assumes "scan_steps V bs t c0 K s s'"
  shows "querying V bs t c0 s'" and "tscan_count s \<le> tscan_count s'"
    and "j < tscan_count s \<Longrightarrow> j \<notin> K \<Longrightarrow> tscans s' j = tscans s j"
    and "c0 \<le> j \<Longrightarrow> j < tscan_count s \<Longrightarrow> table_of s' j = table_of s j"
  using assms by (simp_all add: scan_steps_def)

lemma steps_refl: "querying V bs t c0 s \<Longrightarrow> scan_steps V bs t c0 K s s"
  by (simp add: scan_steps_def)

lemma steps_trans: "scan_steps V bs t c0 K s s' \<Longrightarrow> scan_steps V bs t c0 K s' s'' \<Longrightarrow> scan_steps V bs t c0 K s s''"
  unfolding scan_steps_def by auto

lemma steps_mono: "scan_steps V bs t c0 K s s' \<Longrightarrow> K \<subseteq> L \<Longrightarrow> scan_steps V bs t c0 L s s'"
  unfolding scan_steps_def by blast

lemma steps_scanning:
  assumes q: "querying V bs t c0 s" and sc: "scanning V bs t (table_of s) [c0..<tscan_count s] s'"
    and c: "tscan_count s' = tscan_count s" and keep: "\<And>j. j \<notin> K \<Longrightarrow> tscans s' j = tscans s j"
  shows "scan_steps V bs t c0 K s s'"
proof -
  have tab: "table_of s' j = table_of s j" if "c0 \<le> j" "j < tscan_count s" for j
    using scanning_tables [OF sc, of j] that by simp
  have "scanning V bs t (table_of s') [c0..<tscan_count s] s' = scanning V bs t (table_of s) [c0..<tscan_count s] s'"
    by (rule scanning_cong) (simp add: tab)
  then have "querying V bs t c0 s'" using q sc c by (simp add: querying_def)
  then show ?thesis using c keep tab by (simp add: scan_steps_def)
qed

section \<open>Scans that own table scans\<close>

locale owned_scan =
  fixes sc :: "'z db_scheme scan" and rows :: "row list" and has :: "string \<Rightarrow> bool"
    and pos :: "'z db_scheme \<Rightarrow> nat \<Rightarrow> bool" and ready :: "'z db_scheme \<Rightarrow> bool"
    and V :: "block_id \<Rightarrow> page" and bs :: int and t :: int and c0 :: nat and K :: "nat set"
  assumes tracked: "row_scan sc rows has (\<lambda>s m. pos s m \<and> scan_steps V bs t c0 K s0 s) (\<lambda>s. ready s \<and> scan_steps V bs t c0 K s0 s)"
    and ready_querying: "ready s \<Longrightarrow> querying V bs t c0 s" and pos_querying: "pos s m \<Longrightarrow> querying V bs t c0 s"
    and ready_steps: "ready s \<Longrightarrow> scan_steps V bs t c0 J s s' \<Longrightarrow> ready s'"
    and pos_steps: "pos s m \<Longrightarrow> scan_steps V bs t c0 J s s' \<Longrightarrow> J \<inter> K = {} \<Longrightarrow> pos s' m"
begin

lemma pos_ready': "pos s m \<Longrightarrow> ready s"
  using row_scan.pos_ready [OF tracked [of s]] steps_refl [OF pos_querying] by blast

lemma first_steps: "ready s \<Longrightarrow> \<exists>s'. m_BeforeFirst (sc_ops sc) s = (Inr (), s') \<and> pos s' 0 \<and> scan_steps V bs t c0 K s s'"
  using row_scan.before_first [OF tracked [of s]] steps_refl [OF ready_querying] by blast

lemma next_steps:
  assumes "pos s m"
  shows "m < length rows \<Longrightarrow> \<exists>s'. m_Next (sc_ops sc) s = (Inr True, s') \<and> pos s' (Suc m) \<and> scan_steps V bs t c0 K s s'"
    and "m = length rows \<Longrightarrow> \<exists>s'. m_Next (sc_ops sc) s = (Inr False, s') \<and> ready s' \<and> scan_steps V bs t c0 K s s'"
  using row_scan.next_row [OF tracked [of s]] row_scan.next_end [OF tracked [of s]] assms
    steps_refl [OF pos_querying [OF assms]] by blast+

lemma val_steps:
  assumes "m < length rows" and "pos s (Suc m)"
  shows "\<exists>s'. pos s' (Suc m) \<and> scan_steps V bs t c0 K s s' \<and> (case (rows ! m) f of
      Some v \<Rightarrow> m_GetVal (sc_ops sc) f s = (Inr (Some v), s') | None \<Rightarrow> \<exists>e. m_GetVal (sc_ops sc) f s = (Err e, s'))"
  using row_scan.get_val [OF tracked [of s] assms(1)] assms(2) steps_refl [OF pos_querying [OF assms(2)]]
  unfolding reads_row_def by blast

lemma field_same: "ready s \<Longrightarrow> m_HasField (sc_ops sc) f s = (Inr (has f), s)"
  using row_scan.has_field [OF tracked [of s]] steps_refl [OF ready_querying] by blast

text \<open>Every step is one of the set \<open>L\<close>, if the scan's own are.\<close>

lemma tracked_in:
  assumes L: "K \<subseteq> L"
  shows "row_scan sc rows has (\<lambda>s m. pos s m \<and> scan_steps V bs t c0 L s0 s) (\<lambda>s. ready s \<and> scan_steps V bs t c0 L s0 s)"
proof
  note on = steps_trans [OF _ steps_mono [OF _ L]]
  show "ready s \<and> scan_steps V bs t c0 L s0 s" if "pos s m \<and> scan_steps V bs t c0 L s0 s" for s m
    using that pos_ready' by blast
  show "\<exists>s'. m_BeforeFirst (sc_ops sc) s = (Inr (), s') \<and> pos s' 0 \<and> scan_steps V bs t c0 L s0 s'"
    if "ready s \<and> scan_steps V bs t c0 L s0 s" for s
    using first_steps [of s] that on by blast
  show "\<exists>s'. m_Next (sc_ops sc) s = (Inr True, s') \<and> pos s' (Suc m) \<and> scan_steps V bs t c0 L s0 s'"
    if "pos s m \<and> scan_steps V bs t c0 L s0 s" "m < length rows" for s m
    using next_steps(1) [of s m] that on by blast
  show "\<exists>s'. m_Next (sc_ops sc) s = (Inr False, s') \<and> ready s' \<and> scan_steps V bs t c0 L s0 s'"
    if "pos s (length rows) \<and> scan_steps V bs t c0 L s0 s" for s
    using next_steps(2) [of s] that on by blast
  show "reads_row (\<lambda>s. pos s (Suc m) \<and> scan_steps V bs t c0 L s0 s) (m_GetVal (sc_ops sc)) (rows ! m)" if m: "m < length rows" for m
    unfolding reads_row_def
  proof (intro allI impI)
    fix s f
    assume p: "pos s (Suc m) \<and> scan_steps V bs t c0 L s0 s"
    obtain s' where s': "pos s' (Suc m)" "scan_steps V bs t c0 K s s'" "case (rows ! m) f of
        Some v \<Rightarrow> m_GetVal (sc_ops sc) f s = (Inr (Some v), s') | None \<Rightarrow> \<exists>e. m_GetVal (sc_ops sc) f s = (Err e, s')"
      using val_steps [OF m] p by blast
    show "\<exists>s'. (pos s' (Suc m) \<and> scan_steps V bs t c0 L s0 s') \<and> (case (rows ! m) f of
        Some v \<Rightarrow> m_GetVal (sc_ops sc) f s = (Inr (Some v), s') | None \<Rightarrow> \<exists>e. m_GetVal (sc_ops sc) f s = (Err e, s'))"
      using s' p on by blast
  qed
  show "m_HasField (sc_ops sc) f s = (Inr (has f), s)" if "ready s \<and> scan_steps V bs t c0 L s0 s" for s f
    using field_same that by blast
qed

end

sublocale owned_scan \<subseteq> row_scan sc rows has pos ready
proof
  show "ready s" if "pos s m" for s m using that by (rule pos_ready')
  show "\<exists>s'. m_BeforeFirst (sc_ops sc) s = (Inr (), s') \<and> pos s' 0" if "ready s" for s using first_steps [OF that] by blast
  show "\<exists>s'. m_Next (sc_ops sc) s = (Inr True, s') \<and> pos s' (Suc m)" if "pos s m" "m < length rows" for s m
    using next_steps(1) [OF that] by blast
  show "\<exists>s'. m_Next (sc_ops sc) s = (Inr False, s') \<and> ready s'" if "pos s (length rows)" for s
    using next_steps(2) [OF that refl] by blast
  show "reads_row (\<lambda>s. pos s (Suc m)) (m_GetVal (sc_ops sc)) (rows ! m)" if "m < length rows" for m
    unfolding reads_row_def using val_steps [OF that] by blast
  show "m_HasField (sc_ops sc) f s = (Inr (has f), s)" if "ready s" for s f using that by (rule field_same)
qed

context owned_scan
begin

lemma read_all_owned:
  "ready s \<Longrightarrow> length rows < n \<Longrightarrow> \<exists>s'. read_all n sc fs s = (Inr (map (\<lambda>r. map r fs) rows), s') \<and> ready s'"
  by (rule read_all_rows)

lemma first_to: "ready s \<Longrightarrow> scan_steps V bs t c0 K s (snd (m_BeforeFirst (sc_ops sc) s))"
  using first_steps by fastforce

lemma next_to: "pos s m \<Longrightarrow> m \<le> length rows \<Longrightarrow> scan_steps V bs t c0 K s (snd (m_Next (sc_ops sc) s))"
  using next_steps [of s m] by (cases "m < length rows") fastforce+

lemma val_to: "m < length rows \<Longrightarrow> pos s (Suc m) \<Longrightarrow> scan_steps V bs t c0 K s (snd (m_GetVal (sc_ops sc) f s))"
  using val_steps [of m s f] by (fastforce split: option.splits)

lemma select_owned:
  assumes "length rows < n"
  shows "owned_scan (SelectScan n sc p) (sel_rows p) has (sel_pos p) ready V bs t c0 K"
proof (rule owned_scan.intro)
  fix s0
  have "row_scan.sel_pos rows (\<lambda>s m. pos s m \<and> scan_steps V bs t c0 K s0 s) p =
      (\<lambda>s m. sel_pos p s m \<and> scan_steps V bs t c0 K s0 s)"
    by (auto simp: fun_eq_iff row_scan.sel_pos_def [OF tracked] sel_pos_def)
  with row_scan.select_contract [OF tracked [of s0] assms, of p]
  show "row_scan (SelectScan n sc p) (sel_rows p) has (\<lambda>s m. sel_pos p s m \<and> scan_steps V bs t c0 K s0 s)
      (\<lambda>s. ready s \<and> scan_steps V bs t c0 K s0 s)" by simp
next
  show "querying V bs t c0 s" if "ready s" for s using that by (rule ready_querying)
  show "querying V bs t c0 s" if "sel_pos p s m" for s m using that pos_querying by (auto simp: sel_pos_def)
  show "ready s'" if "ready s" "scan_steps V bs t c0 J s s'" for J s s' using that by (rule ready_steps)
  show "sel_pos p s' m" if "sel_pos p s m" "scan_steps V bs t c0 J s s'" "J \<inter> K = {}" for J s s' m
    using that(1) pos_steps [OF _ that(2,3)] unfolding sel_pos_def by blast
qed

lemma project_owned: "owned_scan (ProjectScan sc fs) (prj_rows fs) (\<lambda>f. f \<in> set fs) pos ready V bs t c0 K"
proof (rule owned_scan.intro)
  show "row_scan (ProjectScan sc fs) (prj_rows fs) (\<lambda>f. f \<in> set fs) (\<lambda>s m. pos s m \<and> scan_steps V bs t c0 K s0 s)
      (\<lambda>s. ready s \<and> scan_steps V bs t c0 K s0 s)" for s0
    by (rule row_scan.project_contract [OF tracked])
qed (fact ready_querying pos_querying ready_steps pos_steps)+

lemmas filter_owned = select_owned [where p = "Some q" for q, unfolded sel_rows_def pred_holds_opt_def option.simps]
lemmas restrict_owned = project_owned [unfolded prj_rows_def]

end

definition join_rows :: "(string \<Rightarrow> bool) \<Rightarrow> row list \<Rightarrow> row list \<Rightarrow> row list" where
  "join_rows has1 rows1 rows2 = concat (map (\<lambda>r1. map (\<lambda>r2 f. if has1 f then r1 f else r2 f) rows2) rows1)"

locale owned_pair = left: owned_scan s1 rows1 has1 pos1 ready1 V bs t c0 K1 +
    right: owned_scan s2 rows2 has2 pos2 ready2 V bs t c0 K2
  for s1 :: "'z db_scheme scan" and rows1 has1 pos1 ready1 V bs t c0 K1 and s2 :: "'z db_scheme scan" and rows2 has2 pos2 ready2 K2 +
  assumes disjoint: "K1 \<inter> K2 = {}"

sublocale owned_pair \<subseteq> scan_pair s1 rows1 has1 pos1 ready1 s2 rows2 has2 pos2 ready2
proof (unfold_locales, unfold keeps_at_def, safe)
  have d: "K2 \<inter> K1 = {}" using disjoint by blast
  show "ready2 (snd (m_BeforeFirst (sc_ops s1) s))" if "ready1 s" "ready2 s" for s
    using right.ready_steps [OF that(2) left.first_to [OF that(1)]] .
  show "ready2 (snd (m_Next (sc_ops s1) s))" if "k \<le> length rows1" "pos1 s k" "ready2 s" for k s
    using right.ready_steps [OF that(3) left.next_to [OF that(2,1)]] .
  show "pos2 (snd (m_Next (sc_ops s1) s)) j" if "k \<le> length rows1" "pos1 s k" "pos2 s j" for k s j
    using right.pos_steps [OF that(3) left.next_to [OF that(2,1)] disjoint] .
  show "pos2 (snd (m_GetVal (sc_ops s1) f s)) j" if "k < length rows1" "pos1 s (Suc k)" "pos2 s j" for k s j f
    using right.pos_steps [OF that(3) left.val_to [OF that(1,2)] disjoint] .
  show "pos1 (snd (m_BeforeFirst (sc_ops s2) s)) k" if "ready2 s" "pos1 s k" for k s
    using left.pos_steps [OF that(2) right.first_to [OF that(1)] d] .
  show "pos1 (snd (m_Next (sc_ops s2) s)) k" if "j \<le> length rows2" "pos2 s j" "pos1 s k" for k s j
    using left.pos_steps [OF that(3) right.next_to [OF that(2,1)] d] .
  show "pos1 (snd (m_GetVal (sc_ops s2) f s)) k" if "j < length rows2" "pos2 s (Suc j)" "pos1 s k" for k s j f
    using left.pos_steps [OF that(3) right.val_to [OF that(1,2)] d] .
qed

lemma keeps_at_tracked:
  assumes "keeps_at G I m" and "\<And>s. G s \<Longrightarrow> X s \<Longrightarrow> X (snd (m s))"
  shows "keeps_at (\<lambda>s. G s \<and> X s) (\<lambda>s. I s \<and> X s) m"
  using assms unfolding keeps_at_def by blast

context owned_pair
begin

lemma pair_tracked:
  fixes s0
  defines "X \<equiv> scan_steps V bs t c0 (K1 \<union> K2) s0"
  shows "scan_pair s1 rows1 has1 (\<lambda>s m. pos1 s m \<and> X s) (\<lambda>s. ready1 s \<and> X s)
    s2 rows2 has2 (\<lambda>s m. pos2 s m \<and> X s) (\<lambda>s. ready2 s \<and> X s)"
proof (intro scan_pair.intro scan_pair_axioms.intro)
  have on1: "X s'" if "X s" "scan_steps V bs t c0 K1 s s'" for s s'
    using that steps_trans [OF _ steps_mono [of _ _ _ _ K1 _ _ "K1 \<union> K2"]] unfolding X_def by blast
  have on2: "X s'" if "X s" "scan_steps V bs t c0 K2 s s'" for s s'
    using that steps_trans [OF _ steps_mono [of _ _ _ _ K2 _ _ "K1 \<union> K2"]] unfolding X_def by blast
  show "row_scan s1 rows1 has1 (\<lambda>s m. pos1 s m \<and> X s) (\<lambda>s. ready1 s \<and> X s)"
    unfolding X_def by (rule left.tracked_in) simp
  show "row_scan s2 rows2 has2 (\<lambda>s m. pos2 s m \<and> X s) (\<lambda>s. ready2 s \<and> X s)"
    unfolding X_def by (rule right.tracked_in) simp
  show "keeps_at (\<lambda>s. ready1 s \<and> X s) (\<lambda>s. ready2 s \<and> X s) (m_BeforeFirst (sc_ops s1))"
    by (rule keeps_at_tracked [OF left_first]) (rule on1, assumption, rule left.first_to)
  show "keeps_at (\<lambda>s. pos1 s k \<and> X s) (\<lambda>s. ready2 s \<and> X s) (m_Next (sc_ops s1))" if "k \<le> length rows1" for k
    by (rule keeps_at_tracked [OF left_next [OF that]]) (rule on1, assumption, rule left.next_to [OF _ that])
  show "keeps_at (\<lambda>s. pos1 s k \<and> X s) (\<lambda>s. pos2 s j \<and> X s) (m_Next (sc_ops s1))" if "k \<le> length rows1" for k j
    by (rule keeps_at_tracked [OF left_next_at [OF that]]) (rule on1, assumption, rule left.next_to [OF _ that])
  show "keeps_at (\<lambda>s. pos1 s (Suc k) \<and> X s) (\<lambda>s. pos2 s j \<and> X s) (m_GetVal (sc_ops s1) f)" if "k < length rows1" for k j f
    by (rule keeps_at_tracked [OF left_val [OF that]]) (rule on1, assumption, rule left.val_to [OF that])
  show "keeps_at (\<lambda>s. ready2 s \<and> X s) (\<lambda>s. pos1 s k \<and> X s) (m_BeforeFirst (sc_ops s2))" for k
    by (rule keeps_at_tracked [OF right_first]) (rule on2, assumption, rule right.first_to)
  show "keeps_at (\<lambda>s. pos2 s j \<and> X s) (\<lambda>s. pos1 s k \<and> X s) (m_Next (sc_ops s2))" if "j \<le> length rows2" for j k
    by (rule keeps_at_tracked [OF right_next [OF that]]) (rule on2, assumption, rule right.next_to [OF _ that])
  show "keeps_at (\<lambda>s. pos2 s (Suc j) \<and> X s) (\<lambda>s. pos1 s k \<and> X s) (m_GetVal (sc_ops s2) f)" if "j < length rows2" for j k f
    by (rule keeps_at_tracked [OF right_val [OF that]]) (rule on2, assumption, rule right.val_to [OF that])
qed

lemma product_owned:
  assumes "rows1 \<noteq> []"
  shows "owned_scan (ProductScan s1 s2) prd_rows (\<lambda>f. has1 f \<or> has2 f) prd_pos prd_ready V bs t c0 (K1 \<union> K2)"
proof (rule owned_scan.intro)
  fix s0
  note pt = pair_tracked [of s0]
  have pos: "scan_pair.prd_pos rows1 (\<lambda>s m. pos1 s m \<and> scan_steps V bs t c0 (K1 \<union> K2) s0 s) rows2
      (\<lambda>s m. pos2 s m \<and> scan_steps V bs t c0 (K1 \<union> K2) s0 s) = (\<lambda>s m. prd_pos s m \<and> scan_steps V bs t c0 (K1 \<union> K2) s0 s)"
    by (auto simp: fun_eq_iff scan_pair.prd_pos_def [OF pt] prd_pos_def)
  have ready: "scan_pair.prd_ready (\<lambda>s. ready1 s \<and> scan_steps V bs t c0 (K1 \<union> K2) s0 s)
      (\<lambda>s. ready2 s \<and> scan_steps V bs t c0 (K1 \<union> K2) s0 s) = (\<lambda>s. prd_ready s \<and> scan_steps V bs t c0 (K1 \<union> K2) s0 s)"
    by (auto simp: fun_eq_iff scan_pair.prd_ready_def [OF pt] prd_ready_def)
  show "row_scan (ProductScan s1 s2) prd_rows (\<lambda>f. has1 f \<or> has2 f)
      (\<lambda>s m. prd_pos s m \<and> scan_steps V bs t c0 (K1 \<union> K2) s0 s) (\<lambda>s. prd_ready s \<and> scan_steps V bs t c0 (K1 \<union> K2) s0 s)"
    using scan_pair.product_contract [OF pt assms] pos ready by simp
next
  show "querying V bs t c0 s" if "prd_ready s" for s using that left.ready_querying by (simp add: prd_ready_def)
  show "querying V bs t c0 s" if "prd_pos s m" for s m using that left.pos_querying by (auto simp: prd_pos_def)
  show "prd_ready s'" if "prd_ready s" "scan_steps V bs t c0 J s s'" for J s s'
    using that left.ready_steps right.ready_steps unfolding prd_ready_def by blast
  show "prd_pos s' m" if p: "prd_pos s m" "scan_steps V bs t c0 J s s'" "J \<inter> (K1 \<union> K2) = {}" for J s s' m
  proof -
    have "J \<inter> K1 = {}" "J \<inter> K2 = {}" using p(3) by blast+
    then show ?thesis
      using p(1) left.pos_steps [OF _ p(2)] right.pos_steps [OF _ p(2)] unfolding prd_pos_def by blast
  qed
qed

lemma join_owned:
  assumes "rows1 \<noteq> []"
  shows "owned_scan (ProductScan s1 s2) (join_rows has1 rows1 rows2) (\<lambda>f. has1 f \<or> has2 f) prd_pos
    (\<lambda>s. ready1 s \<and> ready2 s) V bs t c0 (K1 \<union> K2)"
proof -
  have "prd_rows = join_rows has1 rows1 rows2" by (simp add: prd_rows_def join_rows_def prd_row_def [abs_def])
  moreover have "prd_ready = (\<lambda>s. ready1 s \<and> ready2 s)" by (simp add: fun_eq_iff prd_ready_def)
  ultimately show ?thesis using product_owned [OF assms] by simp
qed

end

section \<open>A table scan owns itself\<close>

definition tb_ready :: "(block_id \<Rightarrow> page) \<Rightarrow> int \<Rightarrow> int \<Rightarrow> nat \<Rightarrow> table_at \<Rightarrow> nat \<Rightarrow> nat \<Rightarrow> 'z db_scheme \<Rightarrow> bool" where
  "tb_ready V bs t c0 T n k s \<longleftrightarrow> querying V bs t c0 s \<and> c0 \<le> k \<and> k < tscan_count s \<and> table_of s k = T \<and>
     nat (slots_of bs T) < n \<and> tb_dense V bs T"

definition tb_pos :: "(block_id \<Rightarrow> page) \<Rightarrow> int \<Rightarrow> int \<Rightarrow> nat \<Rightarrow> table_at \<Rightarrow> nat \<Rightarrow> nat \<Rightarrow> 'z db_scheme \<Rightarrow> nat \<Rightarrow> bool" where
  "tb_pos V bs t c0 T n k s m \<longleftrightarrow> tb_ready V bs t c0 T n k s \<and>
     (\<exists>b slot. sits_at bs t T k s b slot \<and> m = passed V bs T b slot \<and> (0 < m \<longrightarrow> stands_on V bs t T k s b slot))"

definition tb_has :: "table_at \<Rightarrow> string \<Rightarrow> bool" where
  "tb_has T f = HasField (lay_schema (tb_lay T)) f"

lemma tb_readyD:
  assumes "tb_ready V bs t c0 T n k s"
  shows "querying V bs t c0 s" and "scanning V bs t (table_of s) [c0..<tscan_count s] s"
    and "k \<in> set [c0..<tscan_count s]" and "table_of s k = T" and "nat (slots_of bs T) < n"
    and "tb_sound V bs T" and "tb_there V t T s" and "tb_dense V bs T"
  using assms scanningD(6,7) [of V bs t "table_of s" "[c0..<tscan_count s]" s k] unfolding tb_ready_def querying_def by auto

lemma tb_ready_steps: "tb_ready V bs t c0 T n k s \<Longrightarrow> scan_steps V bs t c0 J s s' \<Longrightarrow> tb_ready V bs t c0 T n k s'"
  using stepsD(1,2,4) [of V bs t c0 J s s'] unfolding tb_ready_def by auto

lemma tb_pos_steps:
  assumes p: "tb_pos V bs t c0 T n k s m" and st: "scan_steps V bs t c0 J s s'" and k: "k \<notin> J"
  shows "tb_pos V bs t c0 T n k s' m"
proof -
  have "k < tscan_count s" using p by (simp add: tb_pos_def tb_ready_def)
  then have "tscans s' k = tscans s k" using stepsD(3) [OF st _ k] by blast
  then show ?thesis using p tb_ready_steps [OF _ st] unfolding tb_pos_def stands_on_def sits_at_def by simp
qed

text \<open>A step of scan \<open>k\<close> on the level of \<open>scanning\<close> is a step of \<open>{k}\<close>.\<close>

lemma tb_step:
  assumes r: "tb_ready V bs t c0 T n k s" and sc: "scanning V bs t (table_of s) [c0..<tscan_count s] s'"
    and m: "scans_kept s s' \<or> scan_moved k x s s'"
  shows "scan_steps V bs t c0 {k} s s'" and "tb_ready V bs t c0 T n k s'"
proof -
  show st: "scan_steps V bs t c0 {k} s s'"
    by (rule steps_scanning [OF tb_readyD(1) [OF r] sc]) (use m in auto)
  show "tb_ready V bs t c0 T n k s'" by (rule tb_ready_steps [OF r st])
qed

lemma tb_first:
  assumes r: "tb_ready V bs t c0 T n k s"
  shows "\<exists>s'. ts_BeforeFirst k s = (Inr (), s') \<and> tb_pos V bs t c0 T n k s' 0 \<and> scan_steps V bs t c0 {k} s s'"
proof -
  note d = tb_readyD [OF r]
  have b: "(0 :: int) \<le> 0" "0 < tb_blocks (table_of s k)" using d(4,7) by (simp_all add: tb_there_def)
  obtain s' where s': "ts_moveToBlock k 0 s = (Inr (), s')" "scanning V bs t (table_of s) [c0..<tscan_count s] s'"
    "scan_moved k (at_slot t (table_of s k) 0 (- 1)) s s'"
    by (rule scanning_move [OF d(2,3) b])
  note st = tb_step [OF r s'(2) disjI2 [OF s'(3)]]
  have "sits_at bs t T k s' 0 (- 1)"
    using s'(3) b(2) d(4) scanning_slots [OF d(2,3)] by (simp add: sits_at_def)
  moreover have "passed V bs T 0 (- 1) = 0" by (simp add: passed_def rids_of_def rids_in_def)
  ultimately have "tb_pos V bs t c0 T n k s' 0" using st(2) by (auto simp: tb_pos_def)
  then show ?thesis using s'(1) st(1) by (simp add: ts_BeforeFirst_def)
qed

lemma tb_next:
  assumes p: "tb_pos V bs t c0 T n k s m"
  shows "if m < length (tb_rows V bs T)
    then \<exists>s'. ts_Next n k s = (Inr True, s') \<and> tb_pos V bs t c0 T n k s' (Suc m) \<and> scan_steps V bs t c0 {k} s s'
    else \<exists>s'. ts_Next n k s = (Inr False, s') \<and> tb_ready V bs t c0 T n k s' \<and> scan_steps V bs t c0 {k} s s'"
proof -
  obtain b slot where at: "sits_at bs t T k s b slot" "m = passed V bs T b slot" and r: "tb_ready V bs t c0 T n k s"
    using p by (auto simp: tb_pos_def)
  note d = tb_readyD [OF r]
  have len: "length (tb_rows V bs T) = length (tb_rids V bs T)" by (simp add: tb_rows_def)
  note nx = scanning_next [OF d(2,3), unfolded d(4), OF at(1) d(5,8), folded at(2) len]
  show ?thesis
  proof (cases "m < length (tb_rows V bs T)")
    case True
    with nx obtain s' b' slot' where s': "ts_Next n k s = (Inr True, s')"
      "scanning V bs t (table_of s) [c0..<tscan_count s] s'" "scan_moved k (at_slot t T b' slot') s s'"
      "stands_on V bs t T k s' b' slot'" "passed V bs T b' slot' = Suc m" by auto
    note st = tb_step [OF r s'(2) disjI2 [OF s'(3)]]
    have "tb_pos V bs t c0 T n k s' (Suc m)"
      using st(2) s'(4,5) unfolding tb_pos_def by (intro conjI exI [of _ b'] exI [of _ slot']) (simp_all add: stands_on_def)
    then show ?thesis using s'(1) st(1) True by simp
  next
    case False
    with nx obtain s' where s': "ts_Next n k s = (Inr False, s')"
      "scanning V bs t (table_of s) [c0..<tscan_count s] s'" "scans_kept s s'" by auto
    then show ?thesis using tb_step [OF r s'(2) disjI1 [OF s'(3)]] False by simp
  qed
qed

lemma tb_row_at:
  assumes on: "stands_on V bs t T k s b slot" and p: "passed V bs T b slot = Suc m"
  shows "tb_rids V bs T ! m = (b, slot)" and "(b, slot) \<in> set (tb_rids V bs T)"
proof -
  have r: "0 \<le> b" "b < tb_blocks T" "- 1 \<le> slot" "slot < slots_of bs T" "0 \<le> slot" "used V T b slot"
    using on by (simp_all add: stands_on_def sits_at_def)
  have split: "tb_rids V bs T = (rids_of V bs T [0..b - 1] @ rids_in V T b [0..slot - 1]) @ (b, slot) #
     rids_in V T b [slot + 1..slots_of bs T - 1] @ rids_of V bs T [b + 1..tb_blocks T - 1]"
    using tb_rids_split [OF r(1-4)] passed_last [OF r(5,6)] by simp
  have "m = length (rids_of V bs T [0..b - 1] @ rids_in V T b [0..slot - 1])"
    using p passed_last [OF r(5,6)] by (simp add: passed_def)
  then show "tb_rids V bs T ! m = (b, slot)" using split by (simp add: nth_append)
  show "(b, slot) \<in> set (tb_rids V bs T)" unfolding split by simp
qed

lemma tb_get:
  assumes p: "tb_pos V bs t c0 T n k s (Suc m)" and m: "m < length (tb_rows V bs T)"
  shows "\<exists>s'. tb_pos V bs t c0 T n k s' (Suc m) \<and> scan_steps V bs t c0 {k} s s' \<and>
    (case (tb_rows V bs T ! m) f of Some v \<Rightarrow> ts_GetVal k f s = (Inr (Some v), s')
      | None \<Rightarrow> \<exists>e. ts_GetVal k f s = (Err e, s'))"
proof -
  obtain b slot where at: "sits_at bs t T k s b slot" "Suc m = passed V bs T b slot" "stands_on V bs t T k s b slot"
    and r: "tb_ready V bs t c0 T n k s"
    using p by (auto simp: tb_pos_def)
  note d = tb_readyD [OF r]
  let ?c = "cell_at (tb_lay T) (V (tb_block T b)) slot f"
  obtain s' where s': "ts_GetVal k f s = (some_val ?c, s')" "scanning V bs t (table_of s) [c0..<tscan_count s] s'"
    "scans_kept s s'"
    using scanning_cell [OF d(2,3), unfolded d(4), OF at(1), of f] by blast
  note st = tb_step [OF r s'(2) disjI1 [OF s'(3)]]
  note row = tb_row_at [OF at(3) at(2) [symmetric]]
  have val: "(tb_rows V bs T ! m) f = (case ?c of Inr v \<Rightarrow> Some v | Inl _ \<Rightarrow> None)"
    using m row(1) by (simp add: tb_rows_def rid_row_def)
  have "?c \<notin> {Inl Panic, Inl OutOfFuel}" using d(6) row(2) unfolding tb_sound_def by force
  then have "case (tb_rows V bs T ! m) f of Some v \<Rightarrow> ts_GetVal k f s = (Inr (Some v), s')
      | None \<Rightarrow> \<exists>e. ts_GetVal k f s = (Err e, s')"
    using s'(1) val by (cases ?c) (auto simp: some_val_def split: failure.splits, metis failure.exhaust)
  moreover have "tb_pos V bs t c0 T n k s' (Suc m)"
    using p st(2) s'(3) unfolding tb_pos_def stands_on_def sits_at_def by simp
  ultimately show ?thesis using st(1) by blast
qed

lemma tb_field: "tb_ready V bs t c0 T n k s \<Longrightarrow> ts_HasField k f s = (Inr (tb_has T f), s)"
  using tb_readyD(4) [of V bs t c0 T n k s] by (auto simp: table_of_def ts_HasField_def tb_has_def go_unfold)

lemmas table_scan_simps = TableScan_def table_scan_ops_def scan.simps scan_ops.simps

interpretation tbl: owned_scan "TableScan n k" "tb_rows V bs T" "tb_has T" "tb_pos V bs t c0 T n k" "tb_ready V bs t c0 T n k"
    V bs t c0 "{k}"
  for n k V bs t c0 T
proof (rule owned_scan.intro, goal_cases)
  case (1 s0)
  note on = steps_trans [of V bs t c0 "{k}" s0]
  show ?case
  proof (unfold_locales, unfold table_scan_simps)
    show "tb_ready V bs t c0 T n k s \<and> scan_steps V bs t c0 {k} s0 s" if "tb_pos V bs t c0 T n k s m \<and> scan_steps V bs t c0 {k} s0 s" for s m
      using that by (simp add: tb_pos_def)
    show "\<exists>s'. ts_BeforeFirst k s = (Inr (), s') \<and> tb_pos V bs t c0 T n k s' 0 \<and> scan_steps V bs t c0 {k} s0 s'"
      if "tb_ready V bs t c0 T n k s \<and> scan_steps V bs t c0 {k} s0 s" for s
      using tb_first [of V bs t c0 T n k s] that on by blast
    show "\<exists>s'. ts_Next n k s = (Inr True, s') \<and> tb_pos V bs t c0 T n k s' (Suc m) \<and> scan_steps V bs t c0 {k} s0 s'"
      if "tb_pos V bs t c0 T n k s m \<and> scan_steps V bs t c0 {k} s0 s" "m < length (tb_rows V bs T)" for s m
      using tb_next [of V bs t c0 T n k s m] that on by auto
    show "\<exists>s'. ts_Next n k s = (Inr False, s') \<and> tb_ready V bs t c0 T n k s' \<and> scan_steps V bs t c0 {k} s0 s'"
      if "tb_pos V bs t c0 T n k s (length (tb_rows V bs T)) \<and> scan_steps V bs t c0 {k} s0 s" for s
      using tb_next [of V bs t c0 T n k s "length (tb_rows V bs T)"] that on by auto
    show "reads_row (\<lambda>s. tb_pos V bs t c0 T n k s (Suc m) \<and> scan_steps V bs t c0 {k} s0 s) (ts_GetVal k) (tb_rows V bs T ! m)"
      if "m < length (tb_rows V bs T)" for m
      unfolding reads_row_def
    proof (intro allI impI)
      fix s f
      assume s: "tb_pos V bs t c0 T n k s (Suc m) \<and> scan_steps V bs t c0 {k} s0 s"
      from tb_get [OF conjunct1 [OF s] that, of f] s on
      show "\<exists>s'. (tb_pos V bs t c0 T n k s' (Suc m) \<and> scan_steps V bs t c0 {k} s0 s') \<and>
          (case (tb_rows V bs T ! m) f of Some v \<Rightarrow> ts_GetVal k f s = (Inr (Some v), s')
            | None \<Rightarrow> \<exists>e. ts_GetVal k f s = (Err e, s'))" by blast
    qed
    show "ts_HasField k f s = (Inr (tb_has T f), s)" if "tb_ready V bs t c0 T n k s \<and> scan_steps V bs t c0 {k} s0 s" for s f
      using that tb_field by blast
  qed
next
  case (2 s)
  then show ?case by (rule tb_readyD(1))
next
  case (3 s m)
  then show ?case by (auto simp: tb_pos_def dest: tb_readyD(1))
next
  case (4 s J s')
  then show ?case by (rule tb_ready_steps)
next
  case (5 s m J s')
  then show ?case by (intro tb_pos_steps [OF 5(1,2)]) blast
qed

interpretation two: owned_pair "TableScan n k" "tb_rows V bs T" "tb_has T" "tb_pos V bs t c0 T n k" "tb_ready V bs t c0 T n k"
    V bs t c0 "{k}" "TableScan n (Suc (k + d))" "tb_rows V bs T'" "tb_has T'" "tb_pos V bs t c0 T' n (Suc (k + d))"
    "tb_ready V bs t c0 T' n (Suc (k + d))" "{Suc (k + d)}"
  for n k V bs t c0 T d T'
  by unfold_locales simp

section \<open>Opening a table\<close>

lemma scanning_new:
  assumes s: "scanning V bs t tb ks s" and k: "k \<notin> set ks"
    and u_def: "u = s\<lparr>tscans := (tscans s)(k := x), tscan_count := c\<rparr>"
  shows "scanning V bs t tb ks u" and "own_buffers u t = own_buffers s t" and "tb_there V t T u = tb_there V t T s"
proof -
  note same = db_world2 [OF u_def]
  have b: "blockSize u = blockSize s" "logFile u = logFile s" by (simp_all add: u_def)
  have keep: "tscans u j = tscans s j" if "j \<in> set ks" for j using that k by (auto simp: u_def)
  have "map (pinned_block u) ks = map (pinned_block s) ks" using keep by (intro map_cong) (simp_all add: pinned_block_def)
  then have "pins_are s t (map (pinned_block u) ks)" using scanningD(5) [OF s] by (simp only:)
  then show "scanning V bs t tb ks u"
    using s keep unfolding scanning_def tb_there_def same b by simp
  show "own_buffers u t = own_buffers s t" by (rule same)
  show "tb_there V t T u = tb_there V t T s" by (simp add: tb_there_def same b)
qed

lemma scanning_add:
  assumes s: "scanning V bs t tb ks s" and k: "k \<notin> set ks" and sound: "tb_sound V bs T" and there: "tb_there V t T s"
    and room: "length ks < card (own_buffers s t)"
  obtains s' where "tx_Pin t (tb_block T 0) s = (Inr (), s')" and "calm t s s'" and "own_buffers s' t = own_buffers s t"
    and "scanning V bs t (tb(k := T)) (k # ks) (s'\<lparr>tscans := (tscans s')(k := at_slot t T 0 (- 1))\<rparr>)"
proof -
  have b: "(0 :: int) \<le> 0" "0 < tb_blocks T" using there by (simp_all add: tb_there_def)
  note blk = tb_there_block [OF there b]
  have "length (map (pinned_block s) ks) < card (own_buffers s t)" using room by simp
  then obtain s' where s': "tx_Pin t (tb_block T 0) s = (Inr (), s')" "pool_inv s'"
    "pins_are s' t (tb_block T 0 # map (pinned_block s) ks)" "own_buffers s' t = own_buffers s t" "calm t s s'"
    by (rule tx_Pin_spec [OF scanningD(1,5) [OF s] _ blk(1,2)])
  let ?u = "s'\<lparr>tscans := (tscans s')(k := at_slot t T 0 (- 1))\<rparr>"
  have ts: "tscans s' = tscans s" using calm_tscans [OF s'(5)] by simp
  have old: "pinned_block ?u j = pinned_block s j" if "j \<in> set ks" for j
    using that k ts by (auto simp: pinned_block_def)
  have "map (pinned_block ?u) (k # ks) = tb_block T 0 # map (pinned_block s) ks"
    using old by (simp add: pinned_block_def at_slot_def)
  then have "pins_are ?u t (map (pinned_block ?u) (k # ks))" using s'(3) by (simp only: db_world)
  moreover have "blockSize ?u = bs" using s'(5) scanningD(2) [OF s] by (simp add: calm_def)
  moreover have "\<forall>j \<in> set (k # ks). tb_sound V bs ((tb(k := T)) j) \<and> tb_there V t ((tb(k := T)) j) ?u"
    using scanningD(6,7) [OF s] sound there by (auto simp: tb_there_scans intro: tb_there_calm [OF s'(5)])
  moreover have "\<exists>b slot. 0 \<le> b \<and> b < tb_blocks ((tb(k := T)) j) \<and> - 1 \<le> slot \<and>
      (slot < slots_of bs ((tb(k := T)) j) \<or> slot = - 1) \<and> tscans ?u j = at_slot t ((tb(k := T)) j) b slot"
    if "j \<in> set (k # ks)" for j
  proof (cases "j = k")
    case True
    then show ?thesis using b by auto
  next
    case False
    then show ?thesis using scanningD(8) [OF s, of j] that ts by simp
  qed
  ultimately have "scanning V bs t (tb(k := T)) (k # ks) ?u"
    using scanningD(3) [OF s] k s'(2,4) room unfolding scanning_def by simp
  then show thesis using s'(1,4,5) that by blast
qed

lemma querying_open:
  assumes q: "querying V bs t c0 s" and sound: "tb_sound V bs T" and there: "tb_there V t T s"
    and fl: "tb_file T = nm @ ''.tbl''" and sz: "slotSize (tb_lay T) \<le> bs"
    and room: "tscan_count s - c0 < card (own_buffers s t)"
  obtains s' where "NewTableScan n t nm (tb_lay T) s = (Inr (tscan_count s), s')"
    and "scan_steps V bs t c0 {} s s'" and "tscan_count s' = Suc (tscan_count s)" and "table_of s' (tscan_count s) = T"
    and "own_buffers s' t = own_buffers s t" and "\<And>T'. tb_there V t T' s \<Longrightarrow> tb_there V t T' s'"
    and "sits_at bs t T (tscan_count s) s' 0 (- 1)"
proof -
  let ?k = "tscan_count s" and ?ks = "[c0..<tscan_count s]"
  have sc: "scanning V bs t (table_of s) ?ks s" and c0: "c0 \<le> ?k" using q by (simp_all add: querying_def)
  let ?o = "\<lparr>ts_tx = t, ts_layout = tb_lay T, ts_page = None, ts_file = nm @ ''.tbl'', ts_slot = - 1\<rparr>"
  let ?s0 = "s\<lparr>tscans := (tscans s)(?k := ?o), tscan_count := Suc ?k\<rparr>"
  have kf: "?k \<notin> set ?ks" by simp
  note new = scanning_new [OF sc kf, where u = ?s0 and x = ?o and c = "Suc ?k", OF refl]
  have there0: "tb_there V t T ?s0" using new(3) there by blast
  obtain s1 where s1: "tx_Size t (tb_file T) ?s0 = (Inr (tb_blocks T), s1)" "scanning V bs t (table_of s) ?ks s1"
    "scans_kept ?s0 s1" "calm t ?s0 s1" "own_buffers s1 t = own_buffers ?s0 t"
    by (rule scanning_size [OF new(1) there0])
  have there1: "tb_there V t T s1" by (rule tb_there_calm [OF s1(4) there0])
  have room1: "length ?ks < card (own_buffers s1 t)" using room s1(5) new(2) by simp
  obtain s2 where s2: "tx_Pin t (tb_block T 0) s1 = (Inr (), s2)" "calm t s1 s2" "own_buffers s2 t = own_buffers s1 t"
    "scanning V bs t ((table_of s)(?k := T)) (?k # ?ks) (s2\<lparr>tscans := (tscans s2)(?k := at_slot t T 0 (- 1))\<rparr>)"
    by (rule scanning_add [OF s1(2) kf sound there1 room1])
  let ?u = "s2\<lparr>tscans := (tscans s2)(?k := at_slot t T 0 (- 1))\<rparr>"
  note kept = s1(3) calm_tscans [OF s2(2)]
  have "tb_blocks T \<noteq> 0" using there by (simp add: tb_there_def)
  then have run: "NewTableScan n t nm (tb_lay T) s = (Inr ?k, ?u)"
    using scanningD(2) [OF sc] sz s1(1) s2(1) kept
    by (simp add: NewTableScan_def ts_new_def tx_BlockSize_def fl ts_moveToBlock_def ts_moveTo_def ts_Close_def NewPage_def
      ts_upd_def at_slot_def bnd_def go_unfold)
  have cnt: "tscan_count ?u = Suc ?k" using kept by simp
  have tab: "table_of ?u j = (if j = ?k then T else table_of s j)" if "c0 \<le> j" "j \<le> ?k" for j
    using scanning_tables [OF s2(4), of j] that by auto
  have "scanning V bs t (table_of ?u) (?k # ?ks) ?u"
    using s2(4) by (subst scanning_cong [where tb = "(table_of s)(?k := T)"]) (auto simp: tab c0)
  then have "scanning V bs t (table_of ?u) [c0..<Suc ?k] ?u"
    using c0 unfolding scanning_def by (subst pins_are_mset [where bs' = "map (pinned_block ?u) (?k # ?ks)"]) auto
  then have "querying V bs t c0 ?u" using c0 cnt unfolding querying_def by simp
  moreover have "tscans ?u j = tscans s j" if "j < ?k" for j using that kept by simp
  ultimately have "scan_steps V bs t c0 {} s ?u" using cnt tab by (simp add: scan_steps_def)
  moreover have "tb_there V t T' ?u" if "tb_there V t T' s" for T'
    using that new(3) tb_there_calm [OF s1(4)] tb_there_calm [OF s2(2)] tb_there_scans by blast
  moreover have "table_of ?u ?k = T" using tab c0 by simp
  moreover have "own_buffers ?u t = own_buffers s t" using s2(3) s1(5) new(2) by simp
  moreover have "0 \<le> slots_of bs T" using scanning_slots [OF s2(4), of ?k] by simp
  then have "sits_at bs t T ?k ?u 0 (- 1)" using there by (simp add: sits_at_def tb_there_def)
  ultimately show thesis using run cnt that by blast
qed

end
