(* ===== verification/HashIndex.thy ===== *)
theory HashIndex
  imports TableScan
begin

text \<open>
  \<^verbatim>\<open>utils/hash_value.go\<close> and \<^verbatim>\<open>index/hash/index.go\<close>: the hash index.

  The index is an object whose methods act on it and on the state; its bucket is a table scan of the
  file \<open><index>-<bucket>.tbl\<close>. The hash is FNV-1a over the printed value. How a time prints depends on
  the time zone database and is the parameter \<open>st\<close>.
\<close>

unbundle bit_operations_syntax

section \<open>Hashing\<close>

definition fnv1a :: "string \<Rightarrow> 32 word" where
  "fnv1a s = foldl (\<lambda>h b. (h XOR ucast b) * 16777619) 2166136261 (bytes_of s)"

text \<open>\<open>None\<close> is \<open>nil\<close>, which is not hashed.\<close>

definition HashValue :: "(gotime \<Rightarrow> string) \<Rightarrow> val option \<Rightarrow> 32 word res" where
  "HashValue st v = (case v of
       Some (VShort h) \<Rightarrow> Inr (fnv1a (show_int (sint h)))
     | Some (VInt n) \<Rightarrow> Inr (fnv1a (show_int n))
     | Some (VLong l) \<Rightarrow> Inr (fnv1a (show_int (sint l)))
     | Some (VString x) \<Rightarrow> Inr (fnv1a x)
     | Some (VBool b) \<Rightarrow> Inr (fnv1a (if b then ''true'' else ''false''))
     | Some (VDate d) \<Rightarrow> Inr (fnv1a (st d))
     | None \<Rightarrow> Err EHashUnsupported)"

definition numBuckets :: "32 word" where
  "numBuckets = 100"

section \<open>The index\<close>

record hash_index =
  hx_tx :: int
  hx_name :: string
  hx_layout :: layout
  hx_key :: "val option"
  hx_scan :: "nat option"

type_synonym ('z, 'a) hash_go = "(hash_index \<times> 'z db_scheme, 'a) go"

definition hash_NewIndex :: "int \<Rightarrow> string \<Rightarrow> layout \<Rightarrow> hash_index" where
  "hash_NewIndex t name lay = \<lparr>hx_tx = t, hx_name = name, hx_layout = lay, hx_key = None, hx_scan = None\<rparr>"

text \<open>A method of the open table scan; the nil scan panics.\<close>

definition on_scan :: "(nat \<Rightarrow> ('z db_scheme, 'a) go) \<Rightarrow> ('z, 'a) hash_go" where
  "on_scan m = bnd (obj_gets hx_scan) (\<lambda>k. case k of None \<Rightarrow> panic | Some k \<Rightarrow> on_state (m k))"

definition hx_Close :: "('z, unit) hash_go" where
  "hx_Close = bnd (obj_gets hx_scan) (\<lambda>k. case k of None \<Rightarrow> ret ()
     | Some k \<Rightarrow> bnd (on_state (ts_Close k)) (\<lambda>_. obj_upd (\<lambda>x. x\<lparr>hx_scan := None\<rparr>)))"

definition bucket_of :: "32 word \<Rightarrow> 32 word" where
  "bucket_of h = h mod numBuckets"

definition bucket_table :: "string \<Rightarrow> 32 word \<Rightarrow> string" where
  "bucket_table name h = name @ ''-'' @ show_int (uint (bucket_of h))"

definition hx_BeforeFirst :: "(gotime \<Rightarrow> string) \<Rightarrow> nat \<Rightarrow> val option \<Rightarrow> ('z, unit) hash_go" where
  "hx_BeforeFirst st n searchKey =
     bnd hx_Close (\<lambda>_.
     bnd (obj_upd (\<lambda>x. x\<lparr>hx_key := searchKey\<rparr>)) (\<lambda>_.
     bnd (lift_res (HashValue st searchKey)) (\<lambda>h.
     bnd (obj_gets id) (\<lambda>x.
     handle (on_state (NewTableScan n (hx_tx x) (bucket_table (hx_name x) h) (hx_layout x)))
       (\<lambda>k. obj_upd (\<lambda>x. x\<lparr>hx_scan := Some k\<rparr>))
       (\<lambda>e. bnd (obj_upd (\<lambda>x. x\<lparr>hx_scan := None\<rparr>)) (\<lambda>_. fail e))))))"

fun hx_Next :: "nat \<Rightarrow> ('z, bool) hash_go" where
  "hx_Next 0 = (\<lambda>s. (Inl OutOfFuel, s))"
| "hx_Next (Suc n) =
     bnd (on_scan (ts_Next (Suc n))) (\<lambda>hasNext.
     if \<not> hasNext then ret False
     else
       bnd (on_scan (\<lambda>k. ts_GetVal k ''data_value'')) (\<lambda>currentValue.
       bnd (obj_gets hx_key) (\<lambda>key. if currentValue = key then ret True else hx_Next n)))"

definition hx_GetDataRecordID :: "('z, record_id) hash_go" where
  "hx_GetDataRecordID =
     bnd (on_scan (\<lambda>k. ts_GetInt k ''block'')) (\<lambda>b.
     bnd (on_scan (\<lambda>k. ts_GetInt k ''id'')) (\<lambda>i.
     ret (NewID b i)))"

definition hx_Insert :: "(gotime \<Rightarrow> string) \<Rightarrow> nat \<Rightarrow> val option \<Rightarrow> record_id \<Rightarrow> ('z, unit) hash_go" where
  "hx_Insert st n dataValue rid =
     bnd (hx_BeforeFirst st n dataValue) (\<lambda>_.
     bnd (on_scan (ts_Insert n n)) (\<lambda>_.
     bnd (on_scan (\<lambda>k. ts_SetInt k ''block'' (rid_block rid))) (\<lambda>_.
     bnd (on_scan (\<lambda>k. ts_SetInt k ''id'' (rid_slot rid))) (\<lambda>_.
     on_scan (\<lambda>k. ts_SetVal k ''data_value'' dataValue)))))"

fun hx_delete_loop :: "nat \<Rightarrow> record_id \<Rightarrow> ('z, unit) hash_go" where
  "hx_delete_loop 0 rid = (\<lambda>s. (Inl OutOfFuel, s))"
| "hx_delete_loop (Suc n) rid =
     bnd (on_scan (ts_Next (Suc n))) (\<lambda>hasNext.
     if \<not> hasNext then ret ()
     else
       bnd hx_GetDataRecordID (\<lambda>r.
       if ID_Equals r rid then on_scan ts_Delete else hx_delete_loop n rid))"

definition hx_Delete :: "(gotime \<Rightarrow> string) \<Rightarrow> nat \<Rightarrow> val option \<Rightarrow> record_id \<Rightarrow> ('z, unit) hash_go" where
  "hx_Delete st n dataValue rid =
     bnd (hx_BeforeFirst st n dataValue) (\<lambda>_. hx_delete_loop n rid)"

definition hash_SearchCost :: "int \<Rightarrow> int \<Rightarrow> int" where
  "hash_SearchCost numBlocks recordsPerBucket = go_div numBlocks (uint numBuckets)"

lemma bucket_range: "uint (bucket_of h) < 100"
proof -
  have "uint (bucket_of h) = uint h mod 100"
    by (simp add: bucket_of_def numBuckets_def uint_mod)
  then show ?thesis by simp
qed

text \<open>An index with no bucket open has no current record.\<close>

lemma hash_unpositioned: "hx_Next (Suc n) (hash_NewIndex t name lay, s) = (Inl Panic, (hash_NewIndex t name lay, s))"
  by (simp add: on_scan_def obj_gets_def hash_NewIndex_def bnd_def go_unfold)

end
