(* ===== verification/Catalog.thy ===== *)
theory Catalog
  imports BTree HashIndex
begin

text \<open>
  \<^verbatim>\<open>metadata\<close>: the catalogs, the statistics and the index descriptions.

  A manager is the record of its immutable parts (catalog layouts); what the statistics manager
  changes is part of the state (\<open>mdb\<close>). The mutex around the statistics is not modelled: the calls
  are sequential here. Loops over catalog rows take fuel, which also bounds the scans they use.
\<close>

definition maxNameLength :: int where "maxNameLength = 16"
definition tableCatalogTable :: string where "tableCatalogTable = ''table_catalog''"
definition fieldCatalogTable :: string where "fieldCatalogTable = ''field_catalog''"
definition viewCatalogTable :: string where "viewCatalogTable = ''view_catalog''"
definition indexCatalogTable :: string where "indexCatalogTable = ''index_catalog''"
definition maxViewDefinitionLength :: int where "maxViewDefinitionLength = 100"

section \<open>Tables\<close>

record table_manager =
  tm_tableLayout :: layout
  tm_fieldLayout :: layout

definition tableCatalogSchema :: schema where
  "tableCatalogSchema = AddIntField ''slot_size'' (AddStringField ''table_name'' maxNameLength NewSchema)"

definition fieldCatalogSchema :: schema where
  "fieldCatalogSchema =
     AddIntField ''offset'' (AddIntField ''length'' (AddIntField ''type''
       (AddStringField ''field_name'' maxNameLength (AddStringField ''table_name'' maxNameLength NewSchema))))"

definition insertIntoTableCatalog :: "nat \<Rightarrow> table_manager \<Rightarrow> int \<Rightarrow> string \<Rightarrow> layout \<Rightarrow> ('z db_scheme, unit) go" where
  "insertIntoTableCatalog n tm t tableName lay =
     bnd (NewTableScan n t tableCatalogTable (tm_tableLayout tm)) (\<lambda>k.
     bnd (ts_Insert n n k) (\<lambda>_.
     bnd (ts_SetString k ''table_name'' tableName) (\<lambda>_.
     ts_SetInt k ''slot_size'' (slotSize lay))))"

definition insert_field_row :: "nat \<Rightarrow> nat \<Rightarrow> string \<Rightarrow> layout \<Rightarrow> string \<Rightarrow> ('z db_scheme, unit) go" where
  "insert_field_row n k tableName lay f =
     bnd (ts_Insert n n k) (\<lambda>_.
     bnd (ts_SetString k ''table_name'' tableName) (\<lambda>_.
     bnd (ts_SetString k ''field_name'' f) (\<lambda>_.
     bnd (ts_SetInt k ''type'' (schema_Type (lay_schema lay) f)) (\<lambda>_.
     bnd (ts_SetInt k ''length'' (schema_Length (lay_schema lay) f)) (\<lambda>_.
     ts_SetInt k ''offset'' (lay_Offset lay f))))))"

text \<open>\<open>NewLayout\<close> sorts the fields of the schema it is given, so that the schema passed beside the
  layout is the layout's own.\<close>

definition insertIntoFieldCatalog :: "nat \<Rightarrow> table_manager \<Rightarrow> int \<Rightarrow> string \<Rightarrow> layout \<Rightarrow> ('z db_scheme, unit) go" where
  "insertIntoFieldCatalog n tm t tableName lay =
     bnd (NewTableScan n t fieldCatalogTable (tm_fieldLayout tm)) (\<lambda>k.
     for_each (sch_fields (lay_schema lay)) (insert_field_row n k tableName lay))"

definition tm_CreateTable :: "nat \<Rightarrow> table_manager \<Rightarrow> string \<Rightarrow> schema \<Rightarrow> int \<Rightarrow> ('z db_scheme, unit) go" where
  "tm_CreateTable n tm tableName sch t =
     bnd (lift_res (NewLayout sch)) (\<lambda>lay.
     bnd (insertIntoTableCatalog n tm t tableName lay) (\<lambda>_.
     insertIntoFieldCatalog n tm t tableName lay))"

definition NewTableManager :: "nat \<Rightarrow> bool \<Rightarrow> int \<Rightarrow> ('z db_scheme, table_manager) go" where
  "NewTableManager n is_new t =
     bnd (lift_res (NewLayout tableCatalogSchema)) (\<lambda>tl.
     bnd (lift_res (NewLayout fieldCatalogSchema)) (\<lambda>fl.
     let tm = \<lparr>tm_tableLayout = tl, tm_fieldLayout = fl\<rparr> in
     bnd (if is_new then
            bnd (tm_CreateTable n tm tableCatalogTable (lay_schema tl) t) (\<lambda>_.
            tm_CreateTable n tm fieldCatalogTable (lay_schema fl) t)
          else ret ()) (\<lambda>_.
     ret tm)))"

text \<open>The slot size of the first row of that name, and \<open>-1\<close> when there is none.\<close>

fun slot_size_loop :: "nat \<Rightarrow> nat \<Rightarrow> string \<Rightarrow> ('z db_scheme, int) go" where
  "slot_size_loop 0 k tableName = (\<lambda>s. (Inl OutOfFuel, s))"
| "slot_size_loop (Suc n) k tableName =
     bnd (ts_Next (Suc n) k) (\<lambda>hasNext.
     if \<not> hasNext then ret (- 1)
     else
       bnd (ts_GetString k ''table_name'') (\<lambda>name.
       if name = tableName then ts_GetInt k ''slot_size'' else slot_size_loop n k tableName))"

fun fields_loop :: "nat \<Rightarrow> nat \<Rightarrow> string \<Rightarrow> schema \<Rightarrow> (string \<rightharpoonup> int) \<Rightarrow>
    ('z db_scheme, schema \<times> (string \<rightharpoonup> int)) go" where
  "fields_loop 0 k tableName sch offs = (\<lambda>s. (Inl OutOfFuel, s))"
| "fields_loop (Suc n) k tableName sch offs =
     bnd (ts_Next (Suc n) k) (\<lambda>hasNext.
     if \<not> hasNext then ret (sch, offs)
     else
       bnd (ts_GetString k ''table_name'') (\<lambda>name.
       if name \<noteq> tableName then fields_loop n k tableName sch offs
       else
         bnd (ts_GetString k ''field_name'') (\<lambda>f.
         bnd (ts_GetInt k ''type'') (\<lambda>ty.
         bnd (ts_GetInt k ''length'') (\<lambda>len.
         bnd (ts_GetInt k ''offset'') (\<lambda>off.
         fields_loop n k tableName (AddField f ty len sch) (offs(f \<mapsto> off))))))))"

definition tm_GetLayout :: "nat \<Rightarrow> table_manager \<Rightarrow> string \<Rightarrow> int \<Rightarrow> ('z db_scheme, layout) go" where
  "tm_GetLayout n tm tableName t =
     bnd (NewTableScan n t tableCatalogTable (tm_tableLayout tm)) (\<lambda>k.
     bnd (slot_size_loop n k tableName) (\<lambda>size.
     bnd (NewTableScan n t fieldCatalogTable (tm_fieldLayout tm)) (\<lambda>j.
     with_defer
       (bnd (fields_loop n j tableName NewSchema Map.empty) (\<lambda>(sch, offs).
        ret (NewLayoutFromMetadata sch offs size)))
       (ts_Close j))))"

section \<open>Views\<close>

definition viewCatalogSchema :: schema where
  "viewCatalogSchema =
     AddStringField ''view_definition'' maxViewDefinitionLength (AddStringField ''view_name'' maxNameLength NewSchema)"

definition NewViewManager :: "nat \<Rightarrow> bool \<Rightarrow> table_manager \<Rightarrow> int \<Rightarrow> ('z db_scheme, unit) go" where
  "NewViewManager n is_new tm t = (if is_new then tm_CreateTable n tm viewCatalogTable viewCatalogSchema t else ret ())"

definition vm_CreateView :: "nat \<Rightarrow> table_manager \<Rightarrow> string \<Rightarrow> string \<Rightarrow> int \<Rightarrow> ('z db_scheme, unit) go" where
  "vm_CreateView n tm viewName viewDefinition t =
     bnd (tm_GetLayout n tm viewCatalogTable t) (\<lambda>lay.
     bnd (NewTableScan n t viewCatalogTable lay) (\<lambda>k.
     bnd (ts_Insert n n k) (\<lambda>_.
     bnd (ts_SetString k ''view_name'' viewName) (\<lambda>_.
     bnd (ts_SetString k ''view_definition'' viewDefinition) (\<lambda>_.
     ts_SetString k ''view_definition'' viewDefinition)))))"

fun view_loop :: "nat \<Rightarrow> nat \<Rightarrow> string \<Rightarrow> ('z db_scheme, string) go" where
  "view_loop 0 k viewName = (\<lambda>s. (Inl OutOfFuel, s))"
| "view_loop (Suc n) k viewName =
     bnd (ts_Next (Suc n) k) (\<lambda>hasNext.
     if \<not> hasNext then fail EViewNotFound
     else
       bnd (ts_GetString k ''view_name'') (\<lambda>name.
       if name = viewName then ts_GetString k ''view_definition'' else view_loop n k viewName))"

definition vm_GetViewDefinition :: "nat \<Rightarrow> table_manager \<Rightarrow> string \<Rightarrow> int \<Rightarrow> ('z db_scheme, string) go" where
  "vm_GetViewDefinition n tm viewName t =
     bnd (tm_GetLayout n tm viewCatalogTable t) (\<lambda>lay.
     bnd (NewTableScan n t viewCatalogTable lay) (\<lambda>k.
     with_defer (view_loop n k viewName) (ts_Close k)))"

section \<open>Statistics\<close>

record stat_info =
  numBlocks :: int
  numRecords :: int
  distinctValues :: "string \<rightharpoonup> int"

definition NewStatInfo :: "int \<Rightarrow> int \<Rightarrow> (string \<rightharpoonup> int) \<Rightarrow> stat_info" where
  "NewStatInfo b r d = \<lparr>numBlocks = b, numRecords = r, distinctValues = d\<rparr>"

definition si_BlocksAccessed :: "stat_info \<Rightarrow> int" where "si_BlocksAccessed si = numBlocks si"
definition si_RecordsOutput :: "stat_info \<Rightarrow> int" where "si_RecordsOutput si = numRecords si"

definition si_DistinctValues :: "stat_info \<Rightarrow> string \<Rightarrow> int" where
  "si_DistinctValues si f = (case distinctValues si f of Some v \<Rightarrow> v | None \<Rightarrow> - 1)"

record mdb = db +
  tableStats :: "string \<rightharpoonup> stat_info"
  numCalls :: int

text \<open>The values seen of each field, each once.\<close>

fun record_values :: "nat \<Rightarrow> string list \<Rightarrow> (string \<Rightarrow> val option list) \<Rightarrow>
    ('z db_scheme, string \<Rightarrow> val option list) go" where
  "record_values k [] d = ret d"
| "record_values k (f # fs) d =
     bnd (ts_GetVal k f) (\<lambda>v. record_values k fs (d(f := List.insert v (d f))))"

fun stats_loop :: "nat \<Rightarrow> nat \<Rightarrow> string list \<Rightarrow> int \<Rightarrow> int \<Rightarrow> (string \<Rightarrow> val option list) \<Rightarrow>
    ('z db_scheme, int \<times> int \<times> (string \<Rightarrow> val option list)) go" where
  "stats_loop 0 k fs blocks recs d = (\<lambda>s. (Inl OutOfFuel, s))"
| "stats_loop (Suc n) k fs blocks recs d =
     bnd (ts_Next (Suc n) k) (\<lambda>hasNext.
     if \<not> hasNext then ret (blocks, recs, d)
     else
       bnd (ts_GetRecordID k) (\<lambda>rid.
       let blocks' = (if rid_block rid \<ge> blocks then rid_block rid + 1 else blocks) in
       bnd (record_values k fs d) (\<lambda>d'. stats_loop n k fs blocks' (recs + 1) d')))"

definition calcTableStats :: "nat \<Rightarrow> string \<Rightarrow> layout \<Rightarrow> int \<Rightarrow> ('z db_scheme, stat_info) go" where
  "calcTableStats n tableName lay t =
     (let fs = sch_fields (lay_schema lay) in
      bnd (NewTableScan n t tableName lay) (\<lambda>k.
      with_defer
        (bnd (stats_loop n k fs 0 0 (\<lambda>_. [])) (\<lambda>(blocks, recs, d).
         ret (NewStatInfo blocks recs (\<lambda>f. if f \<in> set fs then Some (int (length (d f))) else None))))
        (ts_Close k)))"

fun refresh_loop :: "nat \<Rightarrow> nat \<Rightarrow> table_manager \<Rightarrow> int \<Rightarrow> ('z mdb_scheme, unit) go" where
  "refresh_loop 0 k tm t = (\<lambda>s. (Inl OutOfFuel, s))"
| "refresh_loop (Suc n) k tm t =
     bnd (ts_Next (Suc n) k) (\<lambda>hasNext.
     if \<not> hasNext then ret ()
     else
       bnd (ts_GetString k ''table_name'') (\<lambda>tblName.
       bnd (tm_GetLayout (Suc n) tm tblName t) (\<lambda>lay.
       bnd (calcTableStats (Suc n) tblName lay t) (\<lambda>si.
       bnd (modify (\<lambda>s. s\<lparr>tableStats := (tableStats s)(tblName \<mapsto> si)\<rparr>)) (\<lambda>_.
       refresh_loop n k tm t)))))"

definition sm_refreshStatistics :: "nat \<Rightarrow> table_manager \<Rightarrow> int \<Rightarrow> ('z mdb_scheme, unit) go" where
  "sm_refreshStatistics n tm t =
     bnd (modify (\<lambda>s. s\<lparr>tableStats := Map.empty, numCalls := 0\<rparr>)) (\<lambda>_.
     bnd (tm_GetLayout n tm tableCatalogTable t) (\<lambda>lay.
     bnd (NewTableScan n t tableCatalogTable lay) (\<lambda>k.
     with_defer (refresh_loop n k tm t) (ts_Close k))))"

definition NewStatManager :: "nat \<Rightarrow> table_manager \<Rightarrow> int \<Rightarrow> ('z mdb_scheme, unit) go" where
  "NewStatManager n tm t = sm_refreshStatistics n tm t"

definition refreshLimit :: int where
  "refreshLimit = 100"

definition sm_GetStatInfo :: "nat \<Rightarrow> table_manager \<Rightarrow> string \<Rightarrow> layout \<Rightarrow> int \<Rightarrow> ('z mdb_scheme, stat_info) go" where
  "sm_GetStatInfo n tm tableName lay t =
     bnd (modify (\<lambda>s. s\<lparr>numCalls := numCalls s + 1\<rparr>)) (\<lambda>_.
     bnd (gets numCalls) (\<lambda>calls.
     bnd (if calls > refreshLimit then sm_refreshStatistics n tm t else ret ()) (\<lambda>_.
     bnd (gets (\<lambda>s. tableStats s tableName)) (\<lambda>e.
     case e of Some si \<Rightarrow> ret si
     | None \<Rightarrow>
         bnd (calcTableStats n tableName lay t) (\<lambda>si.
         bnd (modify (\<lambda>s. s\<lparr>tableStats := (tableStats s)(tableName \<mapsto> si)\<rparr>)) (\<lambda>_.
         ret si))))))"

section \<open>Indexes\<close>

text \<open>Integer division panics on zero.\<close>

definition int_div :: "int \<Rightarrow> int \<Rightarrow> int res" where
  "int_div a b = (if b = 0 then Inl Panic else Inr (go_div a b))"

record index_info =
  ii_indexName :: string
  ii_fieldName :: string
  ii_tx :: int
  ii_schema :: schema
  ii_layout :: layout
  ii_stat :: stat_info

definition CreateIndexLayout :: "schema \<Rightarrow> string \<Rightarrow> layout res" where
  "CreateIndexLayout tableSchema f =
     (let s = AddIntField IDField (AddIntField BlockField NewSchema); ty = schema_Type tableSchema f in
      NewLayout
        (if ty = Integer then AddIntField DataValueField s
         else if ty = Varchar then AddStringField DataValueField (schema_Length tableSchema f) s
         else if ty = Boolean then AddBoolField DataValueField s
         else if ty = Long then AddLongField DataValueField s
         else if ty = Short then AddShortField DataValueField s
         else if ty = Date then AddDateField DataValueField s
         else s))"

definition NewIndexInfo :: "string \<Rightarrow> string \<Rightarrow> schema \<Rightarrow> int \<Rightarrow> stat_info \<Rightarrow> index_info res" where
  "NewIndexInfo indexName f tableSchema t si =
     rbind (CreateIndexLayout tableSchema f) (\<lambda>lay.
     Inr \<lparr>ii_indexName = indexName, ii_fieldName = f, ii_tx = t, ii_schema = tableSchema, ii_layout = lay, ii_stat = si\<rparr>)"

text \<open>What \<open>Open\<close> returns: a B+ tree, or a hash index when the tree cannot be opened.\<close>

datatype index_object = BTreeIndex btree_index | HashIndex hash_index

definition ii_Open :: "index_info \<Rightarrow> ('z world_scheme, index_object) go" where
  "ii_Open ii =
     handle (btree_NewIndex (ii_tx ii) (ii_indexName ii) (ii_layout ii)) (\<lambda>b. ret (BTreeIndex b))
       (\<lambda>_. ret (HashIndex (hash_NewIndex (ii_tx ii) (ii_indexName ii) (ii_layout ii))))"

definition ii_BlocksAccessed :: "index_info \<Rightarrow> ('z world_scheme, int) go" where
  "ii_BlocksAccessed ii =
     bnd (gets tx_BlockSize) (\<lambda>bs.
     bnd (lift_res (int_div bs (slotSize (ii_layout ii)))) (\<lambda>recordsPerBlock.
     bnd (lift_res (int_div (si_RecordsOutput (ii_stat ii)) recordsPerBlock)) (\<lambda>blocks.
     ret (btree_SearchCost blocks recordsPerBlock))))"

definition ii_RecordsOutput :: "index_info \<Rightarrow> int res" where
  "ii_RecordsOutput ii = int_div (si_RecordsOutput (ii_stat ii)) (si_DistinctValues (ii_stat ii) (ii_fieldName ii))"

definition ii_DistinctValues :: "index_info \<Rightarrow> string \<Rightarrow> int" where
  "ii_DistinctValues ii f = (if ii_fieldName ii = f then 1 else si_DistinctValues (ii_stat ii) f)"

definition indexCatalogSchema :: schema where
  "indexCatalogSchema =
     AddStringField ''field_name'' maxNameLength
       (AddStringField ''table_name'' maxNameLength (AddStringField ''index_name'' maxNameLength NewSchema))"

text \<open>The index manager is its catalog's layout.\<close>

definition NewIndexManager :: "nat \<Rightarrow> bool \<Rightarrow> table_manager \<Rightarrow> int \<Rightarrow> ('z mdb_scheme, layout) go" where
  "NewIndexManager n is_new tm t =
     bnd (if is_new then tm_CreateTable n tm indexCatalogTable indexCatalogSchema t else ret ()) (\<lambda>_.
     tm_GetLayout n tm indexCatalogTable t)"

definition im_CreateIndex :: "nat \<Rightarrow> layout \<Rightarrow> string \<Rightarrow> string \<Rightarrow> string \<Rightarrow> int \<Rightarrow> ('z db_scheme, unit) go" where
  "im_CreateIndex n lay indexName tableName f t =
     bnd (NewTableScan n t indexCatalogTable lay) (\<lambda>k.
     with_defer
       (bnd (ts_Insert n n k) (\<lambda>_.
        bnd (ts_SetString k ''index_name'' indexName) (\<lambda>_.
        bnd (ts_SetString k ''table_name'' tableName) (\<lambda>_.
        ts_SetString k ''field_name'' f))))
       (ts_Close k))"

fun index_loop :: "nat \<Rightarrow> nat \<Rightarrow> table_manager \<Rightarrow> string \<Rightarrow> int \<Rightarrow> (string \<rightharpoonup> index_info) \<Rightarrow>
    ('z mdb_scheme, string \<rightharpoonup> index_info) go" where
  "index_loop 0 k tm tableName t r = (\<lambda>s. (Inl OutOfFuel, s))"
| "index_loop (Suc n) k tm tableName t r =
     bnd (ts_Next (Suc n) k) (\<lambda>hasNext.
     if \<not> hasNext then ret r
     else
       bnd (ts_GetString k ''table_name'') (\<lambda>name.
       if name \<noteq> tableName then index_loop n k tm tableName t r
       else
         bnd (ts_GetString k ''index_name'') (\<lambda>indexName.
         bnd (ts_GetString k ''field_name'') (\<lambda>f.
         bnd (tm_GetLayout (Suc n) tm tableName t) (\<lambda>lay.
         bnd (sm_GetStatInfo (Suc n) tm tableName lay t) (\<lambda>si.
         bnd (lift_res (NewIndexInfo indexName f (lay_schema lay) t si)) (\<lambda>ii.
         index_loop n k tm tableName t (r(f \<mapsto> ii)))))))))"

definition im_GetIndexInfo :: "nat \<Rightarrow> table_manager \<Rightarrow> layout \<Rightarrow> string \<Rightarrow> int \<Rightarrow>
    ('z mdb_scheme, string \<rightharpoonup> index_info) go" where
  "im_GetIndexInfo n tm lay tableName t =
     bnd (NewTableScan n t indexCatalogTable lay) (\<lambda>k.
     with_defer (index_loop n k tm tableName t Map.empty) (ts_Close k))"

section \<open>The metadata manager\<close>

record metadata_manager =
  md_table :: table_manager
  md_index :: layout

definition md_NewManager :: "nat \<Rightarrow> bool \<Rightarrow> int \<Rightarrow> ('z mdb_scheme, metadata_manager) go" where
  "md_NewManager n is_new t =
     bnd (NewTableManager n is_new t) (\<lambda>tm.
     bnd (NewViewManager n is_new tm t) (\<lambda>_.
     bnd (NewStatManager n tm t) (\<lambda>_.
     bnd (NewIndexManager n is_new tm t) (\<lambda>ilay.
     ret \<lparr>md_table = tm, md_index = ilay\<rparr>))))"

definition md_CreateTable :: "nat \<Rightarrow> metadata_manager \<Rightarrow> string \<Rightarrow> schema \<Rightarrow> int \<Rightarrow> ('z mdb_scheme, unit) go" where
  "md_CreateTable n m = tm_CreateTable n (md_table m)"

definition md_GetLayout :: "nat \<Rightarrow> metadata_manager \<Rightarrow> string \<Rightarrow> int \<Rightarrow> ('z mdb_scheme, layout) go" where
  "md_GetLayout n m = tm_GetLayout n (md_table m)"

definition md_CreateView :: "nat \<Rightarrow> metadata_manager \<Rightarrow> string \<Rightarrow> string \<Rightarrow> int \<Rightarrow> ('z mdb_scheme, unit) go" where
  "md_CreateView n m = vm_CreateView n (md_table m)"

definition md_GetViewDefinition :: "nat \<Rightarrow> metadata_manager \<Rightarrow> string \<Rightarrow> int \<Rightarrow> ('z mdb_scheme, string) go" where
  "md_GetViewDefinition n m = vm_GetViewDefinition n (md_table m)"

definition md_CreateIndex :: "nat \<Rightarrow> metadata_manager \<Rightarrow> string \<Rightarrow> string \<Rightarrow> string \<Rightarrow> int \<Rightarrow> ('z mdb_scheme, unit) go" where
  "md_CreateIndex n m = im_CreateIndex n (md_index m)"

definition md_GetIndexInfo :: "nat \<Rightarrow> metadata_manager \<Rightarrow> string \<Rightarrow> int \<Rightarrow>
    ('z mdb_scheme, string \<rightharpoonup> index_info) go" where
  "md_GetIndexInfo n m = im_GetIndexInfo n (md_table m) (md_index m)"

definition md_GetStatInfo :: "nat \<Rightarrow> metadata_manager \<Rightarrow> string \<Rightarrow> layout \<Rightarrow> int \<Rightarrow> ('z mdb_scheme, stat_info) go" where
  "md_GetStatInfo n m = sm_GetStatInfo n (md_table m)"

text \<open>An index on a field the table does not have counts as having \<open>-1\<close> distinct values; an index of an
  empty table divides by zero.\<close>

lemma index_records_empty_table:
  assumes "numRecords si = 0" and "distinctValues si f = Some 0" and "NewIndexInfo i f sch t si = Inr ii"
  shows "ii_RecordsOutput ii = Inl Panic"
proof -
  have "ii_stat ii = si" "ii_fieldName ii = f" using assms(3) by (auto simp: NewIndexInfo_def rbind_eq_Inr)
  then show ?thesis using assms(2) by (simp add: ii_RecordsOutput_def int_div_def si_DistinctValues_def)
qed

end
