(* ===== verification/Plans.thy ===== *)
theory Plans
  imports Catalog Scans Parser
begin

text \<open>
  \<^verbatim>\<open>plan\<close> and \<^verbatim>\<open>server/godb.go\<close>: query plans, their cost estimates, the planners and start-up.

  The four types behind the \<open>Plan\<close> interface are the constructors of \<open>plan\<close>, and an interface method
  is a recursion over it. A view is expanded by parsing its definition, which may mention views
  again: that recursion takes fuel. \<open>U\<close> are the Unicode tables of the lexer, \<open>st\<close> prints a time.
\<close>

section \<open>Plans\<close>

datatype plan =
    TablePlan int string layout stat_info
  | ProductPlan plan plan schema
  | SelectPlan plan predicate
  | ProjectPlan plan schema

fun plan_Schema :: "plan \<Rightarrow> schema" where
  "plan_Schema (TablePlan t nm lay si) = lay_schema lay"
| "plan_Schema (ProductPlan p1 p2 sch) = sch"
| "plan_Schema (SelectPlan p q) = plan_Schema p"
| "plan_Schema (ProjectPlan p sch) = sch"

definition NewTablePlan :: "nat \<Rightarrow> int \<Rightarrow> string \<Rightarrow> metadata_manager \<Rightarrow> ('z mdb_scheme, plan) go" where
  "NewTablePlan n t tableName m =
     bnd (md_GetLayout n m tableName t) (\<lambda>lay.
     bnd (md_GetStatInfo n m tableName lay t) (\<lambda>si.
     ret (TablePlan t tableName lay si)))"

definition NewProductPlan :: "plan \<Rightarrow> plan \<Rightarrow> plan" where
  "NewProductPlan p1 p2 = ProductPlan p1 p2 (AddAll (plan_Schema p2) (AddAll (plan_Schema p1) NewSchema))"

definition NewSelectPlan :: "plan \<Rightarrow> predicate \<Rightarrow> plan" where
  "NewSelectPlan p q = SelectPlan p q"

definition NewProjectPlan :: "plan \<Rightarrow> string list \<Rightarrow> plan" where
  "NewProjectPlan p fieldList = ProjectPlan p (fold (\<lambda>f. Add f (plan_Schema p)) fieldList NewSchema)"

text \<open>An error while a scan is made panics. The fuel bounds the loops of the scans.\<close>

definition or_panic :: "('s, 'a) go \<Rightarrow> ('s, 'a) go" where
  "or_panic m = handle m ret (\<lambda>_. panic)"

fun plan_Open :: "nat \<Rightarrow> plan \<Rightarrow> ('z db_scheme, 'z db_scheme scan) go" where
  "plan_Open n (TablePlan t nm lay si) = bnd (or_panic (NewTableScan n t nm lay)) (\<lambda>k. ret (TableScan n k))"
| "plan_Open n (ProductPlan p1 p2 sch) =
     bnd (plan_Open n p1) (\<lambda>s1. bnd (plan_Open n p2) (\<lambda>s2. ret (ProductScan s1 s2)))"
| "plan_Open n (SelectPlan p q) = bnd (plan_Open n p) (\<lambda>s. ret (SelectScan n s (Some q)))"
| "plan_Open n (ProjectPlan p sch) = bnd (plan_Open n p) (\<lambda>s. ret (ProjectScan s (sch_fields sch)))"

section \<open>Estimates\<close>

fun plan_DistinctValues :: "plan \<Rightarrow> string \<Rightarrow> int" where
  "plan_DistinctValues (TablePlan t nm lay si) f = si_DistinctValues si f"
| "plan_DistinctValues (ProductPlan p1 p2 sch) f =
     (if HasField (plan_Schema p1) f then plan_DistinctValues p1 f else plan_DistinctValues p2 f)"
| "plan_DistinctValues (SelectPlan p q) f =
     (if pred_EquatesWithConstant f q \<noteq> None then 1
      else
        let g = pred_EquatesWithField f q in
        if g \<noteq> [] then min (plan_DistinctValues p f) (plan_DistinctValues p g) else plan_DistinctValues p f)"
| "plan_DistinctValues (ProjectPlan p sch) f = plan_DistinctValues p f"

fun plan_RecordsOutput :: "plan \<Rightarrow> int res" where
  "plan_RecordsOutput (TablePlan t nm lay si) = Inr (si_RecordsOutput si)"
| "plan_RecordsOutput (ProductPlan p1 p2 sch) =
     rbind (plan_RecordsOutput p1) (\<lambda>a. rbind (plan_RecordsOutput p2) (\<lambda>b. Inr (wrap64 (a * b))))"
| "plan_RecordsOutput (SelectPlan p q) =
     rbind (pred_ReductionFactor (\<lambda>f. Inr (plan_DistinctValues p f)) q) (\<lambda>rf.
     rbind (plan_RecordsOutput p) (\<lambda>r. if rf = 0 then Inr r else Inr (wrap64 (go_div r rf))))"
| "plan_RecordsOutput (ProjectPlan p sch) = plan_RecordsOutput p"

fun plan_BlocksAccessed :: "plan \<Rightarrow> int res" where
  "plan_BlocksAccessed (TablePlan t nm lay si) = Inr (si_BlocksAccessed si)"
| "plan_BlocksAccessed (ProductPlan p1 p2 sch) =
     rbind (plan_BlocksAccessed p1) (\<lambda>a. rbind (plan_RecordsOutput p1) (\<lambda>r. rbind (plan_BlocksAccessed p2) (\<lambda>b.
     Inr (wrap64 (a + wrap64 (r * b))))))"
| "plan_BlocksAccessed (SelectPlan p q) = plan_BlocksAccessed p"
| "plan_BlocksAccessed (ProjectPlan p sch) = plan_BlocksAccessed p"

section \<open>The query planner\<close>

text \<open>Any error of the look-up of a view, and an empty definition, make the name a table.\<close>

fun CreatePlan :: "nat \<Rightarrow> unicode \<Rightarrow> nat \<Rightarrow> metadata_manager \<Rightarrow> query_data \<Rightarrow> int \<Rightarrow> ('z mdb_scheme, plan) go"
  and table_plans :: "nat \<Rightarrow> unicode \<Rightarrow> nat \<Rightarrow> metadata_manager \<Rightarrow> string list \<Rightarrow> int \<Rightarrow> ('z mdb_scheme, plan list) go"
where
  "CreatePlan 0 U n m qd t = (\<lambda>s. (Inl OutOfFuel, s))"
| "CreatePlan (Suc k) U n m qd t =
     bnd (table_plans k U n m (qd_tables qd) t) (\<lambda>plans. case plans of [] \<Rightarrow> panic
       | p # ps \<Rightarrow>
           let q = NewSelectPlan (foldl NewProductPlan p ps) (qd_pred qd) in
           ret (NewProjectPlan q (case qd_fields qd of None \<Rightarrow> sch_fields (plan_Schema q) | Some fs \<Rightarrow> fs)))"
| "table_plans 0 U n m ts t = (\<lambda>s. (Inl OutOfFuel, s))"
| "table_plans (Suc k) U n m [] t = ret []"
| "table_plans (Suc k) U n m (tableName # ts) t =
     bnd (handle (md_GetViewDefinition n m tableName t) ret (\<lambda>_. ret [])) (\<lambda>viewDef.
     bnd (if viewDef \<noteq> [] then
            bnd (lift_res (fst (p_Query (length viewDef + 2) (NewParser U viewDef)))) (\<lambda>viewData.
            CreatePlan k U n m viewData t)
          else NewTablePlan n t tableName m) (\<lambda>p.
     bnd (table_plans k U n m ts t) (\<lambda>ps. ret (p # ps))))"

definition CreateQueryPlan :: "nat \<Rightarrow> unicode \<Rightarrow> nat \<Rightarrow> metadata_manager \<Rightarrow> string \<Rightarrow> int \<Rightarrow> ('z mdb_scheme, plan) go" where
  "CreateQueryPlan k U n m sql t =
     bnd (lift_res (fst (p_Query (length sql + 2) (NewParser U sql)))) (\<lambda>qd. CreatePlan k U n m qd t)"

section \<open>The update planner\<close>

text \<open>The loop over the fields reads the value of the same index, which may be missing.\<close>

fun set_values :: "nat \<Rightarrow> string list \<Rightarrow> val option list \<Rightarrow> ('z db_scheme, unit) go" where
  "set_values k [] vs = ret ()"
| "set_values k (f # fs) [] = panic"
| "set_values k (f # fs) (v # vs) = bnd (ts_SetVal k f v) (\<lambda>_. set_values k fs vs)"

definition ExecuteInsert :: "nat \<Rightarrow> metadata_manager \<Rightarrow> insert_data \<Rightarrow> int \<Rightarrow> ('z mdb_scheme, int) go" where
  "ExecuteInsert n m d t =
     bnd (md_GetLayout n m (id_table d) t) (\<lambda>lay.
     bnd (NewTableScan n t (id_table d) lay) (\<lambda>k.
     with_defer
       (bnd (ts_Insert n n k) (\<lambda>_.
        bnd (set_values k (id_fields d) (id_values d)) (\<lambda>_. ret 1)))
       (ts_Close k)))"

fun delete_loop :: "nat \<Rightarrow> 's scan \<Rightarrow> int \<Rightarrow> ('s, int) go" where
  "delete_loop 0 sc c = (\<lambda>s. (Inl OutOfFuel, s))"
| "delete_loop (Suc n) sc c =
     bnd (m_Next (sc_ops sc)) (\<lambda>ok.
     if \<not> ok then ret c
     else bnd (with_update_panic sc m_Delete) (\<lambda>_. delete_loop n sc (c + 1)))"

definition ExecuteDelete :: "nat \<Rightarrow> metadata_manager \<Rightarrow> delete_data \<Rightarrow> int \<Rightarrow> ('z mdb_scheme, int) go" where
  "ExecuteDelete n m d t =
     bnd (NewTablePlan n t (dd_table d) m) (\<lambda>tp.
     bnd (plan_Open n (NewSelectPlan tp (dd_pred d))) (\<lambda>s.
     closing (delete_loop n s 0) (m_Close (sc_ops s))))"

fun modify_loop :: "nat \<Rightarrow> 's scan \<Rightarrow> modify_data \<Rightarrow> int \<Rightarrow> ('s, int) go" where
  "modify_loop 0 sc d c = (\<lambda>s. (Inl OutOfFuel, s))"
| "modify_loop (Suc n) sc d c =
     bnd (m_Next (sc_ops sc)) (\<lambda>ok.
     if \<not> ok then ret c
     else
       bnd (expr_Evaluate (m_GetVal (sc_ops sc)) (md_value d)) (\<lambda>v.
       bnd (with_update_panic sc (\<lambda>u. m_SetVal u (md_field d) v)) (\<lambda>_. modify_loop n sc d (c + 1))))"

definition ExecuteModify :: "nat \<Rightarrow> metadata_manager \<Rightarrow> modify_data \<Rightarrow> int \<Rightarrow> ('z mdb_scheme, int) go" where
  "ExecuteModify n m d t =
     bnd (NewTablePlan n t (md_table d) m) (\<lambda>tp.
     bnd (plan_Open n (NewSelectPlan tp (md_pred d))) (\<lambda>s.
     closing (modify_loop n s d 0) (m_Close (sc_ops s))))"

definition ExecuteCreateTable :: "nat \<Rightarrow> metadata_manager \<Rightarrow> create_table_data \<Rightarrow> int \<Rightarrow> ('z mdb_scheme, int) go" where
  "ExecuteCreateTable n m d t = bnd (md_CreateTable n m (ct_table d) (ct_schema d) t) (\<lambda>_. ret 0)"

definition ExecuteCreateView :: "(gotime \<Rightarrow> string) \<Rightarrow> nat \<Rightarrow> metadata_manager \<Rightarrow> create_view_data \<Rightarrow> int \<Rightarrow>
    ('z mdb_scheme, int) go" where
  "ExecuteCreateView st n m d t = bnd (md_CreateView n m (cv_name d) (ViewDefinition st d) t) (\<lambda>_. ret 0)"

definition ExecuteCreateIndex :: "nat \<Rightarrow> metadata_manager \<Rightarrow> create_index_data \<Rightarrow> int \<Rightarrow> ('z mdb_scheme, int) go" where
  "ExecuteCreateIndex n m d t = bnd (md_CreateIndex n m (ci_name d) (ci_table d) (ci_field d) t) (\<lambda>_. ret 0)"

definition ExecuteUpdate :: "(gotime \<Rightarrow> string) \<Rightarrow> unicode \<Rightarrow> nat \<Rightarrow> metadata_manager \<Rightarrow> string \<Rightarrow> int \<Rightarrow>
    ('z mdb_scheme, int) go" where
  "ExecuteUpdate st U n m sql t =
     bnd (lift_res (fst (p_UpdateCmd (length sql + 2) (NewParser U sql)))) (\<lambda>cmd. case cmd of
         CInsert d \<Rightarrow> ExecuteInsert n m d t
       | CDelete d \<Rightarrow> ExecuteDelete n m d t
       | CModify d \<Rightarrow> ExecuteModify n m d t
       | CCreateTable d \<Rightarrow> ExecuteCreateTable n m d t
       | CCreateView d \<Rightarrow> ExecuteCreateView st n m d t
       | CCreateIndex d \<Rightarrow> ExecuteCreateIndex n m d t)"

section \<open>Start-up\<close>

text \<open>A database: an empty lock table, no transaction yet, no scan, no statistics. What the tables
  of transactions and scans hold beyond their counts is never read.\<close>

definition no_scan :: table_scan where
  "no_scan = \<lparr>ts_tx = 0, ts_layout = \<lparr>lay_schema = NewSchema, lay_offsets = Map.empty, slotSize = 0\<rparr>,
     ts_page = None, ts_file = [], ts_slot = 0\<rparr>"

definition NewGoDBWithOptions :: "(string \<rightharpoonup> byte list) option \<Rightarrow> int \<Rightarrow> nat \<Rightarrow> mdb res" where
  "NewGoDBWithOptions dir bs numBuffers =
     rbind (lm_NewLogManager ''godb.log'' (fm_NewManager dir bs)) (\<lambda>l.
     rbind (bm_NewManager l numBuffers) (\<lambda>p.
     Inr (db.extend (world.extend (pool_state.extend p
         (world.fields NewLockTable (\<lambda>_. \<lparr>tx_own = [], tx_bufs = []\<rparr>) 0))
       (db.fields (\<lambda>_. no_scan) 0)) (mdb.fields Map.empty 0))))"

text \<open>A failure of the metadata manager rolls the transaction back, whatever the rollback returns.\<close>

definition init_db :: "nat \<Rightarrow> ('z mdb_scheme, metadata_manager) go" where
  "init_db n =
     bnd tx_NewTransaction (\<lambda>t.
     bnd (gets isNew) (\<lambda>new.
     bnd (if new then ret () else tx_Recover n t) (\<lambda>_.
     bnd (handle (md_NewManager n new t) ret (\<lambda>e.
            bnd (handle (tx_Rollback n t) ret (\<lambda>_. ret ())) (\<lambda>_. fail e))) (\<lambda>m.
     bnd (tx_Commit t) (\<lambda>_. ret m)))))"

definition NewGoDB :: "(string \<rightharpoonup> byte list) option \<Rightarrow> nat \<Rightarrow> (metadata_manager \<times> mdb) res" where
  "NewGoDB dir n =
     rbind (NewGoDBWithOptions dir 4096 8) (\<lambda>s. case init_db n s of (r, s') \<Rightarrow> rbind r (\<lambda>m. Inr (m, s')))"

end
