(* ===== verification/Queries.thy ===== *)
theory Queries
  imports OpenScans Plans
begin

text \<open>
  What a query returns: every plan evaluates the relational expression it stands for.

  \<open>plan_rows\<close> is the meaning of a plan over the contents of the tables. By induction, opening a plan gives
  a scan with the contract of \<open>owned_scan\<close> for these rows (\<open>plan_Open_owned\<close>), so that reading it to the
  end returns them. The last properties show what the scans cannot do, on databases that
  \<open>NewGoDBWithOptions\<close> starts.
\<close>

section \<open>The rows of a plan\<close>

text \<open>\<open>N\<close> gives the number of blocks of each file.\<close>

definition named_table :: "(string \<Rightarrow> int) \<Rightarrow> string \<Rightarrow> layout \<Rightarrow> table_at" where
  "named_table N nm lay = \<lparr>tb_file = nm @ ''.tbl'', tb_lay = lay, tb_blocks = N (nm @ ''.tbl'')\<rparr>"

fun plan_has :: "plan \<Rightarrow> string \<Rightarrow> bool" where
  "plan_has (TablePlan t nm lay si) = (\<lambda>f. HasField (lay_schema lay) f)"
| "plan_has (ProductPlan p1 p2 sch) = (\<lambda>f. plan_has p1 f \<or> plan_has p2 f)"
| "plan_has (SelectPlan p q) = plan_has p"
| "plan_has (ProjectPlan p sch) = (\<lambda>f. f \<in> set (sch_fields sch))"

fun plan_rows :: "(block_id \<Rightarrow> page) \<Rightarrow> int \<Rightarrow> (string \<Rightarrow> int) \<Rightarrow> plan \<Rightarrow> row list" where
  "plan_rows V bs N (TablePlan t nm lay si) = tb_rows V bs (named_table N nm lay)"
| "plan_rows V bs N (ProductPlan p1 p2 sch) = join_rows (plan_has p1) (plan_rows V bs N p1) (plan_rows V bs N p2)"
| "plan_rows V bs N (SelectPlan p q) = filter (\<lambda>r. pred_holds r q) (plan_rows V bs N p)"
| "plan_rows V bs N (ProjectPlan p sch) = map (\<lambda>r. r |` set (sch_fields sch)) (plan_rows V bs N p)"

fun plan_tables :: "plan \<Rightarrow> nat" where
  "plan_tables (TablePlan t nm lay si) = 1"
| "plan_tables (ProductPlan p1 p2 sch) = plan_tables p1 + plan_tables p2"
| "plan_tables (SelectPlan p q) = plan_tables p"
| "plan_tables (ProjectPlan p sch) = plan_tables p"

text \<open>The tables are there and sound, the left side of a product has a row, and the fuel \<open>n\<close> is above
  the number of slots of a block and of rows below a selection.\<close>

fun plan_ok :: "(block_id \<Rightarrow> page) \<Rightarrow> int \<Rightarrow> (string \<Rightarrow> int) \<Rightarrow> int \<Rightarrow> nat \<Rightarrow> plan \<Rightarrow> 'z world_scheme \<Rightarrow> bool" where
  "plan_ok V bs N t n (TablePlan u nm lay si) s \<longleftrightarrow> u = t \<and> tb_sound V bs (named_table N nm lay) \<and>
     tb_dense V bs (named_table N nm lay) \<and> tb_there V t (named_table N nm lay) s \<and> slotSize lay \<le> bs \<and> nat (bs div slotSize lay) < n"
| "plan_ok V bs N t n (ProductPlan p1 p2 sch) s \<longleftrightarrow> plan_ok V bs N t n p1 s \<and> plan_ok V bs N t n p2 s \<and>
     plan_rows V bs N p1 \<noteq> []"
| "plan_ok V bs N t n (SelectPlan p q) s \<longleftrightarrow> plan_ok V bs N t n p s \<and> length (plan_rows V bs N p) < n"
| "plan_ok V bs N t n (ProjectPlan p sch) s \<longleftrightarrow> plan_ok V bs N t n p s"

lemma plan_ok_there:
  assumes "\<And>T. tb_there V t T s \<Longrightarrow> tb_there V t T s'"
  shows "plan_ok V bs N t n p s \<Longrightarrow> plan_ok V bs N t n p s'"
  by (induction p) (simp_all add: assms)

text \<open>Opening the plan gives a scan for its rows, which owns the table scans it has opened.\<close>

definition plan_opens :: "(block_id \<Rightarrow> page) \<Rightarrow> int \<Rightarrow> int \<Rightarrow> nat \<Rightarrow> (string \<Rightarrow> int) \<Rightarrow> nat \<Rightarrow> plan \<Rightarrow> 'z db_scheme \<Rightarrow> bool" where
  "plan_opens V bs t c0 N n p s \<longleftrightarrow> (\<exists>sc s' pos ready. plan_Open n p s = (Inr sc, s') \<and>
     owned_scan sc (plan_rows V bs N p) (plan_has p) pos ready V bs t c0 {tscan_count s..<tscan_count s'} \<and> ready s' \<and>
     scan_steps V bs t c0 {} s s' \<and> tscan_count s' = tscan_count s + plan_tables p \<and>
     own_buffers s' t = own_buffers s t \<and> (\<forall>T. tb_there V t T s \<longrightarrow> tb_there V t T s'))"

lemma plan_opensI:
  assumes "plan_Open n p s = (Inr sc, s')"
    and "owned_scan sc (plan_rows V bs N p) (plan_has p) pos ready V bs t c0 {tscan_count s..<tscan_count s'}" and "ready s'"
    and "scan_steps V bs t c0 {} s s'" and "tscan_count s' = tscan_count s + plan_tables p"
    and "own_buffers s' t = own_buffers s t" and "\<And>T. tb_there V t T s \<Longrightarrow> tb_there V t T s'"
  shows "plan_opens V bs t c0 N n p s"
  using assms unfolding plan_opens_def by blast

lemma plan_opensE:
  assumes "plan_opens V bs t c0 N n p s"
  obtains sc s' pos ready where "plan_Open n p s = (Inr sc, s')"
    and "owned_scan sc (plan_rows V bs N p) (plan_has p) pos ready V bs t c0 {tscan_count s..<tscan_count s'}" and "ready s'"
    and "scan_steps V bs t c0 {} s s'" and "tscan_count s' = tscan_count s + plan_tables p"
    and "own_buffers s' t = own_buffers s t" and "\<And>T. tb_there V t T s \<Longrightarrow> tb_there V t T s'"
  using assms unfolding plan_opens_def by blast

lemma table_opens:
  assumes q: "querying V bs t c0 s" and p: "plan_ok V bs N t n (TablePlan u nm lay si) s"
    and room: "tscan_count s - c0 < card (own_buffers s t)"
  shows "plan_opens V bs t c0 N n (TablePlan u nm lay si) s"
proof -
  let ?T = "named_table N nm lay"
  have ok: "u = t" "tb_sound V bs ?T" "tb_there V t ?T s" "tb_dense V bs ?T" "nat (slots_of bs ?T) < n" "slotSize (tb_lay ?T) \<le> bs"
    "tb_file ?T = nm @ ''.tbl''" and lay: "tb_lay ?T = lay"
    using p by (simp_all add: slots_of_def named_table_def)
  obtain s' where s': "NewTableScan n t nm (tb_lay ?T) s = (Inr (tscan_count s), s')" "scan_steps V bs t c0 {} s s'"
    "tscan_count s' = Suc (tscan_count s)" "table_of s' (tscan_count s) = ?T" "own_buffers s' t = own_buffers s t"
    and there: "\<And>T'. tb_there V t T' s \<Longrightarrow> tb_there V t T' s'"
    by (rule querying_open [OF q ok(2,3,7,6) room]) blast
  have K: "{tscan_count s..<tscan_count s'} = {tscan_count s}" using s'(3) by auto
  have has: "tb_has ?T = plan_has (TablePlan u nm lay si)" by (simp add: tb_has_def fun_eq_iff lay)
  show ?thesis
  proof (rule plan_opensI [OF _ _ _ s'(2) _ s'(5) there])
    show "plan_Open n (TablePlan u nm lay si) s = (Inr (TableScan n (tscan_count s)), s')"
      using s'(1) ok(1) lay by (simp add: bnd_Inr or_panic_def handle_Inr go_unfold)
    show "owned_scan (TableScan n (tscan_count s)) (plan_rows V bs N (TablePlan u nm lay si)) (plan_has (TablePlan u nm lay si))
        (tb_pos V bs t c0 ?T n (tscan_count s)) (tb_ready V bs t c0 ?T n (tscan_count s)) V bs t c0 {tscan_count s..<tscan_count s'}"
      unfolding K plan_rows.simps has [symmetric] by (rule tbl.owned_scan_axioms)
    show "tb_ready V bs t c0 ?T n (tscan_count s) s'"
      using s'(3,4) ok(4,5) stepsD(1) [OF s'(2)] q by (simp add: tb_ready_def querying_def)
  qed (simp_all add: s'(3))
qed

lemma product_opens:
  assumes one: "plan_opens V bs t c0 N n p1 s" and two: "\<And>s'. scan_steps V bs t c0 {} s s' \<Longrightarrow>
      own_buffers s' t = own_buffers s t \<Longrightarrow> tscan_count s' = tscan_count s + plan_tables p1 \<Longrightarrow>
      (\<And>T. tb_there V t T s \<Longrightarrow> tb_there V t T s') \<Longrightarrow> plan_opens V bs t c0 N n p2 s'"
    and rows: "plan_rows V bs N p1 \<noteq> []"
  shows "plan_opens V bs t c0 N n (ProductPlan p1 p2 sch) s"
proof -
  obtain sc1 s1 pos1 ready1 where a: "plan_Open n p1 s = (Inr sc1, s1)"
    "owned_scan sc1 (plan_rows V bs N p1) (plan_has p1) pos1 ready1 V bs t c0 {tscan_count s..<tscan_count s1}" "ready1 s1"
    "scan_steps V bs t c0 {} s s1" "tscan_count s1 = tscan_count s + plan_tables p1" "own_buffers s1 t = own_buffers s t"
    and a': "\<And>T. tb_there V t T s \<Longrightarrow> tb_there V t T s1"
    by (rule plan_opensE [OF one]) blast
  obtain sc2 s2 pos2 ready2 where b: "plan_Open n p2 s1 = (Inr sc2, s2)"
    "owned_scan sc2 (plan_rows V bs N p2) (plan_has p2) pos2 ready2 V bs t c0 {tscan_count s1..<tscan_count s2}" "ready2 s2"
    "scan_steps V bs t c0 {} s1 s2" "tscan_count s2 = tscan_count s1 + plan_tables p2" "own_buffers s2 t = own_buffers s1 t"
    and b': "\<And>T. tb_there V t T s1 \<Longrightarrow> tb_there V t T s2"
    by (rule plan_opensE [OF two [OF a(4,6,5) a']]) blast+
  have pair: "owned_pair sc1 (plan_rows V bs N p1) (plan_has p1) pos1 ready1 V bs t c0 {tscan_count s..<tscan_count s1}
      sc2 (plan_rows V bs N p2) (plan_has p2) pos2 ready2 {tscan_count s1..<tscan_count s2}"
    using a(2) b(2) by (intro owned_pair.intro owned_pair_axioms.intro) auto
  have K: "{tscan_count s..<tscan_count s1} \<union> {tscan_count s1..<tscan_count s2} = {tscan_count s..<tscan_count s2}"
    using a(5) b(5) by auto
  show ?thesis
  proof (rule plan_opensI [where ready = "\<lambda>s. ready1 s \<and> ready2 s"])
    show "owned_scan (ProductScan sc1 sc2) (plan_rows V bs N (ProductPlan p1 p2 sch)) (plan_has (ProductPlan p1 p2 sch))
        (scan_pair.prd_pos (plan_rows V bs N p1) pos1 (plan_rows V bs N p2) pos2) (\<lambda>s. ready1 s \<and> ready2 s)
        V bs t c0 {tscan_count s..<tscan_count s2}"
      unfolding plan_rows.simps plan_has.simps K [symmetric] by (rule owned_pair.join_owned [OF pair rows])
    show "plan_Open n (ProductPlan p1 p2 sch) s = (Inr (ProductScan sc1 sc2), s2)"
      using a(1) b(1) by (simp add: bnd_Inr go_unfold)
    show "ready1 s2 \<and> ready2 s2" using owned_scan.ready_steps [OF a(2,3) b(4)] b(3) by blast
    show "scan_steps V bs t c0 {} s s2" by (rule steps_trans [OF a(4) b(4)])
  qed (use a(5,6) b(5,6) a' b' in simp_all)
qed

lemma select_opens:
  assumes "plan_opens V bs t c0 N n p s" and rows: "length (plan_rows V bs N p) < n"
  shows "plan_opens V bs t c0 N n (SelectPlan p q) s"
proof (rule plan_opensE [OF assms(1)])
  fix sc s' pos ready
  assume a: "plan_Open n p s = (Inr sc, s')"
    "owned_scan sc (plan_rows V bs N p) (plan_has p) pos ready V bs t c0 {tscan_count s..<tscan_count s'}" "ready s'"
    "scan_steps V bs t c0 {} s s'" "tscan_count s' = tscan_count s + plan_tables p" "own_buffers s' t = own_buffers s t"
    "\<And>T. tb_there V t T s \<Longrightarrow> tb_there V t T s'"
  show ?thesis
  proof (rule plan_opensI [where ready = ready, OF _ _ a(3,4) _ a(6,7)])
    show "plan_Open n (SelectPlan p q) s = (Inr (SelectScan n sc (Some q)), s')" using a(1) by (simp add: bnd_Inr go_unfold)
    show "owned_scan (SelectScan n sc (Some q)) (plan_rows V bs N (SelectPlan p q)) (plan_has (SelectPlan p q))
        (row_scan.sel_pos (plan_rows V bs N p) pos (Some q)) ready V bs t c0 {tscan_count s..<tscan_count s'}"
      unfolding plan_rows.simps plan_has.simps by (rule owned_scan.filter_owned [OF a(2) rows])
  qed (simp add: a(5))
qed

lemma project_opens:
  assumes "plan_opens V bs t c0 N n p s"
  shows "plan_opens V bs t c0 N n (ProjectPlan p sch) s"
proof (rule plan_opensE [OF assms])
  fix sc s' pos ready
  assume a: "plan_Open n p s = (Inr sc, s')"
    "owned_scan sc (plan_rows V bs N p) (plan_has p) pos ready V bs t c0 {tscan_count s..<tscan_count s'}" "ready s'"
    "scan_steps V bs t c0 {} s s'" "tscan_count s' = tscan_count s + plan_tables p" "own_buffers s' t = own_buffers s t"
    "\<And>T. tb_there V t T s \<Longrightarrow> tb_there V t T s'"
  show ?thesis
  proof (rule plan_opensI [where ready = ready, OF _ _ a(3,4) _ a(6,7)])
    show "plan_Open n (ProjectPlan p sch) s = (Inr (ProjectScan sc (sch_fields sch)), s')"
      using a(1) by (simp add: bnd_Inr go_unfold)
    show "owned_scan (ProjectScan sc (sch_fields sch)) (plan_rows V bs N (ProjectPlan p sch)) (plan_has (ProjectPlan p sch))
        pos ready V bs t c0 {tscan_count s..<tscan_count s'}"
      unfolding plan_rows.simps plan_has.simps by (rule owned_scan.restrict_owned [OF a(2)])
  qed (simp add: a(5))
qed

lemma plan_Open_owned:
  assumes "querying V bs t c0 s" and "plan_ok V bs N t n p s"
    and "tscan_count s - c0 + plan_tables p \<le> card (own_buffers s t)"
  shows "plan_opens V bs t c0 N n p s"
  using assms
proof (induction p arbitrary: s)
  case (TablePlan u nm lay si)
  then show ?case by (intro table_opens) simp_all
next
  case (ProductPlan p1 p2 sch)
  have c0: "c0 \<le> tscan_count s" using ProductPlan.prems(1) by (simp add: querying_def)
  show ?case
  proof (rule product_opens)
    show "plan_opens V bs t c0 N n p1 s" using ProductPlan.IH(1) ProductPlan.prems by simp
    show "plan_rows V bs N p1 \<noteq> []" using ProductPlan.prems(2) by simp
    fix s'
    assume "scan_steps V bs t c0 {} s s'" "own_buffers s' t = own_buffers s t"
      "tscan_count s' = tscan_count s + plan_tables p1" "\<And>T. tb_there V t T s \<Longrightarrow> tb_there V t T s'"
    then show "plan_opens V bs t c0 N n p2 s'"
      using ProductPlan.IH(2) [OF stepsD(1)] ProductPlan.prems(2,3) plan_ok_there [of V t s s' bs N n p2] c0 by simp
  qed
next
  case (SelectPlan p q)
  then show ?case by (intro select_opens) simp_all
next
  case (ProjectPlan p sch)
  then show ?case by (intro project_opens) simp
qed

section \<open>Queries return their relational meaning\<close>

lemma querying_start:
  "pool_inv s \<Longrightarrow> blockSize s = bs \<Longrightarrow> pins_are s t [] \<Longrightarrow> querying V bs t (tscan_count s) s"
  by (simp add: querying_def scanning_def)


section \<open>A database after start-up\<close>

lemma NewGoDBWithOptions_fresh:
  assumes f: "fm_wf (fm_NewManager dir bs)" "nblocks (fm_NewManager dir bs) ''godb.log'' = 0" "4 \<le> bs" "bs < 2 ^ 31"
  obtains s where "NewGoDBWithOptions dir bs k = Inr s" and "pool_inv s" and "blockSize s = bs" and "logFile s = ''godb.log''"
    and "pins_are s t []" and "own_buffers s t = {..<k}" and "\<And>b. slockable s t b"
    and "\<And>b. can_xlock s t b" and "\<And>n. n \<noteq> ''godb.log'' \<Longrightarrow> nblocks s n = nblocks (fm_NewManager dir bs) n"
    and "\<And>c. in_file (fm_NewManager dir bs) c \<Longrightarrow> blk_view s c = disk_block (fm_NewManager dir bs) c"
proof -
  let ?f = "fm_NewManager dir bs"
  have bs: "blockSize ?f = bs" by (simp add: fm_NewManager_def split: option.splits)
  have f': "4 \<le> blockSize ?f" "blockSize ?f < 2 ^ 31" using f(3,4) bs by simp_all
  obtain l where l: "lm_NewLogManager ''godb.log'' ?f = Inr l" "lm_inv l [] []" "logFile l = ''godb.log''"
    "blockSize l = blockSize ?f" "\<And>n. n \<noteq> ''godb.log'' \<Longrightarrow> nblocks l n = nblocks ?f n"
    "\<And>c. in_file ?f c \<Longrightarrow> disk_block l c = disk_block ?f c"
    by (rule lm_NewLogManager_new [OF f(1,2) f']) blast
  have "log_holds l []" using l(2) by (auto simp: log_holds_def log_of_def)
  then obtain p where p: "bm_NewManager l k = Inr p" "pool_inv p" "blockSize p = blockSize l" "logFile p = logFile l"
    "\<And>m. nblocks p m = nblocks l m" "\<And>c. disk_block p c = disk_block l c"
    "bufferPool p = replicate k \<lparr>contents = replicate (nat (blockSize l)) 0, buf_block = None, pins = 0, txnNum = - 1, lsn = - 1\<rparr>"
    by (rule bm_NewManager_spec [of l "[]" k]) blast
  define s :: mdb where "s = db.extend (world.extend (pool_state.extend p
      (world.fields NewLockTable (\<lambda>_. \<lparr>tx_own = [], tx_bufs = []\<rparr>) 0)) (db.fields (\<lambda>_. no_scan) 0)) (mdb.fields Map.empty 0)"
  have run: "NewGoDBWithOptions dir bs k = Inr s" by (simp add: NewGoDBWithOptions_def l(1) p(1) s_def)
  have g: "blockSize s = blockSize p" "logFile s = logFile p" "logPage s = logPage p"
    "currentBlock s = currentBlock p" "latestLSN s = latestLSN p" "lastSavedLSN s = lastSavedLSN p"
    "bufferPool s = bufferPool p" "numAvailable s = numAvailable p" "\<And>m. fileBytes s m = fileBytes p m"
    "locks s = NewLockTable" "txns s = (\<lambda>_. \<lparr>tx_own = [], tx_bufs = []\<rparr>)"
    by (simp_all add: s_def pool_state.defs world.defs db.defs mdb.defs fileBytes_def)
  have g2: "fm_wf s = fm_wf p" "\<And>m. nblocks s m = nblocks p m" "\<And>c. disk_block s c = disk_block p c"
    "\<And>c. in_file s c = in_file p c"
    by (simp_all add: fm_wf_def nblocks_def disk_block_def in_file_def g)
  have h: "log_holds s l = log_holds p l" for l
    by (simp add: log_holds_def lm_inv_def log_saved_def older_def g g2)
  have "pool_inv s"
    using p(2) by (simp add: pool_inv_def h g buf_ok_def g2 split: option.splits cong: option.case_cong)
  moreover have "pins_are s t []" by (simp add: pins_are_def g)
  moreover have "own_buffers s t = {..<k}" by (auto simp: own_buffers_def held_in_def g p(7))
  moreover have "slockable s t b" for b
    by (simp add: slockable_def g NewLockTable_def hasXLock_def getLockVal_def)
  moreover have "can_xlock s t b" for b
    by (simp add: can_xlock_def x_locked_def g NewLockTable_def getLockVal_def)
  moreover have "blk_view s c = disk_block ?f c" if "in_file ?f c" for c
  proof -
    have "blk_view s c = disk_block s c"
      using findExistingBuffer_Some [of "bufferPool s" c] by (fastforce simp: blk_view_def g p(7) split: option.splits)
    then show ?thesis using l(6) [OF that] p(6) g2(3) by simp
  qed
  ultimately show thesis using run g g2 p(3-5) l(3-5) bs that by simp
qed

section \<open>What the scans cannot do\<close>

context row_scan
begin

lemma sel_start: "pos s 0 \<Longrightarrow> sel_pos p s 0"
  unfolding sel_pos_def by (intro exI [of _ 0]) simp

lemma no_update:
  assumes s: "pos s 0" and u: "sc_upd sc = Some u"
    and no: "m_Delete u = fail EUpdateNotSupported" "m_SetVal u (md_field d) (ex_value (md_value d)) = fail EUpdateNotSupported"
    and v: "ex_value (md_value d) \<noteq> None"
  defines "res \<equiv> if rows = [] then Inr 0 else Err EUpdateNotSupported"
  shows "\<exists>s'. delete_loop (Suc m) sc 0 s = (res, s')" and "\<exists>s'. modify_loop (Suc m) sc d 0 s = (res, s')"
proof -
  consider s' where "rows = []" "m_Next (sc_ops sc) s = (Inr False, s')" | s' where "rows \<noteq> []" "m_Next (sc_ops sc) s = (Inr True, s')"
    using next_end [of s] next_row [OF s] s by (cases "rows = []") auto
  then have "(\<exists>s'. delete_loop (Suc m) sc 0 s = (res, s')) \<and> (\<exists>s'. modify_loop (Suc m) sc d 0 s = (res, s'))"
  proof cases
    case 1
    then show ?thesis by (simp add: bnd_def go_unfold res_def)
  next
    case 2
    then show ?thesis using u no v
      by (simp add: bnd_def go_unfold res_def with_update_panic_def expr_Evaluate_def)
  qed
  then show "\<exists>s'. delete_loop (Suc m) sc 0 s = (res, s')" and "\<exists>s'. modify_loop (Suc m) sc d 0 s = (res, s')" by blast+
qed

end

text \<open>A table opened as the first scan of a transaction.\<close>

lemma table_opened:
  assumes s: "pool_inv s" "blockSize s = bs" "pins_are s t []"
    and p: "plan_ok V bs N t n (TablePlan t nm lay si) s" and room: "0 < card (own_buffers s t)"
  obtains s' where "NewTableScan n t nm lay s = (Inr (tscan_count s), s')"
    and "tb_pos V bs t (tscan_count s) (named_table N nm lay) n (tscan_count s) s' 0"
    and "sits_at bs t (named_table N nm lay) (tscan_count s) s' 0 (- 1)" and "scan_steps V bs t (tscan_count s) {} s s'"
    and "tscan_count s' = Suc (tscan_count s)" and "own_buffers s' t = own_buffers s t"
    and "\<And>T'. tb_there V t T' s \<Longrightarrow> tb_there V t T' s'"
proof -
  let ?T = "named_table N nm lay"
  have ok: "tb_sound V bs ?T" "tb_there V t ?T s" "tb_dense V bs ?T" "nat (slots_of bs ?T) < n" "slotSize (tb_lay ?T) \<le> bs"
    "tb_file ?T = nm @ ''.tbl''" and lay: "tb_lay ?T = lay"
    using p by (simp_all add: slots_of_def named_table_def)
  note q = querying_start [OF s]
  have room': "tscan_count s - tscan_count s < card (own_buffers s t)" using room by simp
  obtain s' where s': "NewTableScan n t nm (tb_lay ?T) s = (Inr (tscan_count s), s')"
    "scan_steps V bs t (tscan_count s) {} s s'" "tscan_count s' = Suc (tscan_count s)" "table_of s' (tscan_count s) = ?T"
    "own_buffers s' t = own_buffers s t" "sits_at bs t ?T (tscan_count s) s' 0 (- 1)"
    and there: "\<And>T'. tb_there V t T' s \<Longrightarrow> tb_there V t T' s'"
    by (rule querying_open [OF q ok(1,2,6,5) room']) blast
  have "passed V bs ?T 0 (- 1) = 0" by (simp add: passed_def rids_of_def rids_in_def)
  then have "tb_pos V bs t (tscan_count s) ?T n (tscan_count s) s' 0"
    using s'(3,4,6) ok(3,4) stepsD(1) [OF s'(2)] by (auto simp: tb_pos_def tb_ready_def querying_def)
  then show thesis using s' there that lay by simp
qed

text \<open>C40. A table scan is stuck in front of two blocks without records: when neither the first nor the
  second block has one, the first \<open>Next\<close> returns \<open>ErrNoSlotFound\<close> instead of the next record or false,
  however many records the blocks behind them have.\<close>

theorem table_next_two_empty_blocks:
  assumes "pool_inv s" and "blockSize s = bs" and "pins_are s t []" and "0 < card (own_buffers s t)"
    and "tb_sound V bs (named_table N nm lay)" and "tb_there V t (named_table N nm lay) s" and "slotSize lay \<le> bs"
    and "1 < N (nm @ ''.tbl'')" and "nat (bs div slotSize lay) < n"
    and "\<And>b j. b \<in> {0, 1} \<Longrightarrow> 0 \<le> j \<Longrightarrow> j < bs div slotSize lay \<Longrightarrow> \<not> used V (named_table N nm lay) b j"
  shows "\<exists>k s1 s2. NewTableScan n t nm lay s = (Inr k, s1) \<and> ts_Next n k s1 = (Err ENoSlotFound, s2)"
proof -
  let ?T = "named_table N nm lay" and ?k = "tscan_count s"
  have T: "tb_lay ?T = lay" "tb_file ?T = nm @ ''.tbl''" "slots_of bs ?T = bs div slotSize lay" "1 < tb_blocks ?T"
    using assms(8) by (simp_all add: named_table_def slots_of_def)
  have room: "?k - ?k < card (own_buffers s t)" "slotSize (tb_lay ?T) \<le> bs" using assms(4,7) T by simp_all
  obtain s1 where s1: "NewTableScan n t nm (tb_lay ?T) s = (Inr ?k, s1)" "scan_steps V bs t ?k {} s s1"
    "tscan_count s1 = Suc ?k" "table_of s1 ?k = ?T" "sits_at bs t ?T ?k s1 0 (- 1)"
    by (rule querying_open [OF querying_start [OF assms(1-3)] assms(5,6) T(2) room(2,1)]) blast
  have k: "?k \<in> set [?k..<tscan_count s1]" using s1(3) by simp
  have n: "nat (slots_of bs (table_of s1 ?k)) < n" using assms(9) T(3) s1(4) by simp
  have none: "find (used V (table_of s1 ?k) b) [0..slots_of bs (table_of s1 ?k) - 1] = None" if "b \<in> {0, 1}" for b
    using assms(10) [OF that] T(3) s1(4) by (auto simp: find_None_iff)
  note sc1 = stepsD(1) [OF s1(2), unfolded querying_def, THEN conjunct2]
  have at1: "tscans s1 ?k = at_slot t (table_of s1 ?k) 0 (- 1)" and b: "(0 :: int) \<le> 0" "0 < tb_blocks (table_of s1 ?k)"
    "(0 :: int) \<le> 1" "1 < tb_blocks (table_of s1 ?k)"
    using s1(4,5) T(4) by (simp_all add: sits_at_def)
  obtain s2 where s2: "ts_NextAfter n ?k s1 = (Err ENoSlotFound, s2)" "scanning V bs t (table_of s1) [?k..<tscan_count s1] s2"
    "scans_kept s1 s2"
    using scanning_search [OF sc1 k at1 b(1,2) _ n] none [of 0] by auto
  have at2: "tscans s2 ?k = at_slot t (table_of s1 ?k) 0 (- 1)" using at1 s2(3) by simp
  obtain s3 where s3: "ts_atLastBlock ?k s2 = (Inr (0 = tb_blocks (table_of s1 ?k) - 1), s3)"
    "scanning V bs t (table_of s1) [?k..<tscan_count s1] s3" "scans_kept s2 s3"
    by (rule scanning_atLast [OF s2(2) k at2])
  obtain s4 where s4: "ts_moveToBlock ?k 1 s3 = (Inr (), s4)" "scanning V bs t (table_of s1) [?k..<tscan_count s1] s4"
    "scan_moved ?k (at_slot t (table_of s1 ?k) 1 (- 1)) s3 s4"
    by (rule scanning_move [OF s3(2) k b(3,4)])
  have at4: "tscans s4 ?k = at_slot t (table_of s1 ?k) 1 (- 1)" using s4(3) by simp
  obtain s5 where s5: "ts_NextAfter n ?k s4 = (Err ENoSlotFound, s5)"
    using scanning_search [OF s4(2) k at4 b(3,4) _ n] none [of 1] by auto
  have "ts_Next n ?k s1 = (Err ENoSlotFound, s5)"
    using s2(1,3) s3(1,3) s4(1) s5 at1 b(4)
    by (simp add: ts_Next_def handle_Err bnd_def go_unfold with_page_def at_slot_def NewBlockId_def)
  then show ?thesis using s1(1) T(1) by auto
qed

text \<open>C39. No update reaches a table: the scan that an update or delete statement opens (a selection over
  the table) reports that updates are not supported as soon as a row satisfies the predicate, so that
  the loop of \<open>ExecuteDelete\<close> fails, and that of \<open>ExecuteModify\<close> does when it sets a constant; both
  return 0 when no row satisfies it.\<close>

theorem table_updates_rejected:
  assumes "pool_inv s" and "blockSize s = bs" and "pins_are s t []" and "0 < card (own_buffers s t)"
    and "plan_ok V bs N t n (SelectPlan (TablePlan t nm lay si) q) s" and "ex_value (md_value d) = Some v"
  shows "\<exists>sc s1 s2 s3. plan_Open n (SelectPlan (TablePlan t nm lay si) q) s = (Inr sc, s1) \<and>
    (let none = (filter (\<lambda>r. pred_holds r q) (tb_rows V bs (named_table N nm lay)) = []);
         res = (if none then Inr 0 else Err EUpdateNotSupported) in
     delete_loop (Suc m) sc 0 s1 = (res, s2) \<and> modify_loop (Suc m) sc d 0 s1 = (res, s3))"
proof -
  let ?T = "named_table N nm lay" and ?k = "tscan_count s"
  have p: "plan_ok V bs N t n (TablePlan t nm lay si) s" and rows: "length (tb_rows V bs ?T) < n"
    using assms(5) by simp_all
  obtain s1 where s1: "NewTableScan n t nm lay s = (Inr ?k, s1)" "tb_pos V bs t ?k ?T n ?k s1 0"
    by (rule table_opened [OF assms(1-3) p assms(4)]) blast
  let ?sc = "SelectScan n (TableScan n ?k) (Some q) :: 'a db_scheme scan"
  have run: "plan_Open n (SelectPlan (TablePlan t nm lay si) q) s = (Inr ?sc, s1)"
    using s1(1) by (simp add: bnd_Inr or_panic_def handle_Inr go_unfold)
  have own: "row_scan ?sc (filter (\<lambda>r. pred_holds r q) (tb_rows V bs ?T)) (tb_has ?T)
      (row_scan.sel_pos (tb_rows V bs ?T) (tb_pos V bs t ?k ?T n ?k) (Some q)) (tb_ready V bs t ?k ?T n ?k)"
    using tbl.select_contract [OF rows, where p = "Some q"] unfolding tbl.sel_rows_def pred_holds_opt_def option.simps .
  have pos: "row_scan.sel_pos (tb_rows V bs ?T) (tb_pos V bs t ?k ?T n ?k) (Some q) s1 0"
    using tbl.sel_start [OF s1(2)] .
  have upd: "sc_upd ?sc = Some u \<Longrightarrow> m_Delete u = fail EUpdateNotSupported \<and> m_SetVal u f x = fail EUpdateNotSupported" for u f x
    by (auto simp: SelectScan_def sel_Delete_def sel_SetVal_def with_update_def TableScan_def)
  obtain u where u: "sc_upd ?sc = Some u" by (auto simp: SelectScan_def)
  show ?thesis
    using run row_scan.no_update [OF own pos u, of d m] upd [OF u] assms(6) unfolding Let_def by auto
qed

text \<open>A product that is opened and not sent to \<open>BeforeFirst\<close> answers with garbage: \<open>Next\<close> reports a
  row when the second table has one, but the first scan still stands before its first slot, and
  reading an integer field of it reads before the block's first byte and panics.\<close>

theorem product_without_before_first:
  assumes "pool_inv s" and "blockSize s = bs" and "pins_are s t []" and "2 \<le> card (own_buffers s t)"
    and "plan_ok V bs N t n (TablePlan t nm1 lay1 si1) s" and "plan_ok V bs N t n (TablePlan t nm2 lay2 si2) s"
    and "tb_rows V bs (named_table N nm2 lay2) \<noteq> []"
    and "HasField (lay_schema lay1) f" and "schema_Type (lay_schema lay1) f = Integer" and "lay_Offset lay1 f < slotSize lay1"
  shows "\<exists>sc s1 s2 s3. plan_Open n (ProductPlan (TablePlan t nm1 lay1 si1) (TablePlan t nm2 lay2 si2) sch) s = (Inr sc, s1) \<and>
    m_Next (sc_ops sc) s1 = (Inr True, s2) \<and> m_GetVal (sc_ops sc) f s2 = (Inl Panic, s3)"
proof -
  let ?T1 = "named_table N nm1 lay1" and ?T2 = "named_table N nm2 lay2" and ?k = "tscan_count s"
  have room: "0 < card (own_buffers s t)" using assms(4) by simp
  obtain s1 where s1: "NewTableScan n t nm1 lay1 s = (Inr ?k, s1)" "tb_pos V bs t ?k ?T1 n ?k s1 0"
    "sits_at bs t ?T1 ?k s1 0 (- 1)" "scan_steps V bs t ?k {} s s1" "tscan_count s1 = Suc ?k"
    "own_buffers s1 t = own_buffers s t" and there: "\<And>T'. tb_there V t T' s \<Longrightarrow> tb_there V t T' s1"
    by (rule table_opened [OF assms(1-3,5) room]) blast
  have q1: "querying V bs t ?k s1" by (rule stepsD(1) [OF s1(4)])
  have p2: "tb_sound V bs ?T2" "tb_there V t ?T2 s1" "tb_file ?T2 = nm2 @ ''.tbl''" "slotSize (tb_lay ?T2) \<le> bs"
    "tscan_count s1 - ?k < card (own_buffers s1 t)" "tb_dense V bs ?T2" "nat (slots_of bs ?T2) < n" "tb_lay ?T2 = lay2"
    using assms(4,6) there s1(5,6) by (simp_all add: named_table_def slots_of_def)
  obtain s2 where s2: "NewTableScan n t nm2 (tb_lay ?T2) s1 = (Inr (Suc ?k), s2)" "scan_steps V bs t ?k {} s1 s2"
    "tscan_count s2 = Suc (Suc ?k)" "table_of s2 (Suc ?k) = ?T2" "sits_at bs t ?T2 (Suc ?k) s2 0 (- 1)"
    using querying_open [OF q1 p2(1-5)] s1(5) by metis
  have "tb_pos V bs t ?k ?T2 n (Suc ?k) s2 0"
    using s2(3-5) p2(6,7) stepsD(1) [OF s2(2)] unfolding tb_pos_def tb_ready_def
    by (intro conjI exI [of _ 0] exI [of _ "- 1"]) (simp_all add: passed_def rids_of_def rids_in_def)
  then obtain s3 where s3: "ts_Next n (Suc ?k) s2 = (Inr True, s3)" "scan_steps V bs t ?k {Suc ?k} s2 s3"
    using tb_next [of V bs t ?k ?T2 n "Suc ?k" s2 0] assms(7) by auto
  have "tb_pos V bs t ?k ?T1 n ?k s2 0" by (rule tb_pos_steps [OF s1(2) s2(2)]) simp
  then have "tb_pos V bs t ?k ?T1 n ?k s3 0" by (rule tb_pos_steps [OF _ s3(2)]) simp
  then have r: "tb_ready V bs t ?k ?T1 n ?k s3" by (simp add: tb_pos_def)
  note d = tb_readyD [OF r]
  have "tscans s3 ?k = tscans s1 ?k" using stepsD(3) [OF s2(2), of ?k] stepsD(3) [OF s3(2), of ?k] s1(5) s2(3) by simp
  then have "sits_at bs t (table_of s3 ?k) ?k s3 0 (- 1)" using s1(3) d(4) by (simp add: sits_at_def)
  from scanning_cell [OF d(2,3) this, of f] obtain s4 where
    s4: "ts_GetVal ?k f s3 = (some_val (cell_at lay1 (V (tb_block ?T1 0)) (- 1) f), s4)"
    using d(4) by (auto simp: named_table_def)
  have "cell_at lay1 (V (tb_block ?T1 0)) (- 1) f = Inl Panic"
    using assms(9,10) by (simp add: cell_at_def page_GetInt_def be_read_def Let_def)
  then have get: "ts_GetVal ?k f s3 = (Inl Panic, s4)" using s4 by (simp add: some_val_Err)
  let ?sc = "ProductScan (TableScan n ?k) (TableScan n (Suc ?k)) :: 'a db_scheme scan"
  have "plan_Open n (ProductPlan (TablePlan t nm1 lay1 si1) (TablePlan t nm2 lay2 si2) sch) s = (Inr ?sc, s2)"
    using s1(1) s2(1) p2(8) by (simp add: bnd_Inr or_panic_def handle_Inr go_unfold)
  moreover have "m_Next (sc_ops ?sc) s2 = (Inr True, s3)"
    using s3(1) by (simp add: ProductScan_def prd_Next_def table_scan_simps bnd_def go_unfold)
  moreover have "m_GetVal (sc_ops ?sc) f s3 = (Inl Panic, s4)"
    using get tb_field [OF r, of f] assms(8)
    by (simp add: ProductScan_def prd_GetVal_def prd_side_def table_scan_simps bnd_def tb_has_def named_table_def)
  ultimately show ?thesis by blast
qed

section \<open>Two tables\<close>

text \<open>Tables \<open>a\<close> with the rows 7 and 9 of \<open>id\<close>, and \<open>b\<close> with the row 9 of \<open>n\<close> in its second slot.\<close>

definition demo_layout2 :: layout where
  "demo_layout2 = \<lparr>lay_schema = AddIntField ''n'' NewSchema, lay_offsets = [''n'' \<mapsto> 4], slotSize = 8\<rparr>"

definition demo_block1 :: page where
  "demo_block1 = [0, 0, 0, 1, 0, 0, 0, 7, 0, 0, 0, 1, 0, 0, 0, 9] @ replicate 48 0"

definition demo_block2 :: page where
  "demo_block2 = replicate 8 0 @ [0, 0, 0, 1, 0, 0, 0, 9] @ replicate 48 0"

definition demo_files :: "string \<rightharpoonup> byte list" where
  "demo_files = [''a.tbl'' \<mapsto> demo_block1, ''b.tbl'' \<mapsto> demo_block2, ''c.tbl'' \<mapsto> replicate 128 0 @ demo_block1]"

definition demo_view :: "block_id \<Rightarrow> page" where
  "demo_view b = (if File b = ''a.tbl'' then demo_block1 else if File b = ''b.tbl'' then demo_block2
     else if BlockNumber b = 2 then demo_block1 else replicate 64 0)"

lemma demo_db:
  obtains s :: mdb where "pool_inv s" and "blockSize s = 64" and "pins_are s 1 []" and "card (own_buffers s 1) = 2"
    and "tb_there demo_view 1 (named_table (\<lambda>_. 1) ''a'' demo_layout) s"
    and "tb_there demo_view 1 (named_table (\<lambda>_. 1) ''b'' demo_layout2) s"
    and "tb_there demo_view 1 (named_table (\<lambda>_. 3) ''c'' demo_layout) s"
proof -
  let ?f = "fm_NewManager (Some demo_files) 64"
  have f: "fm_wf ?f" "nblocks ?f ''godb.log'' = 0"
    and bs: "blockSize ?f = 64" and nb: "nblocks ?f ''a.tbl'' = 1" "nblocks ?f ''b.tbl'' = 1" "nblocks ?f ''c.tbl'' = 3"
    by (simp_all add: fm_wf_def nblocks_def fm_NewManager_def fileBytes_def demo_files_def demo_block1_def demo_block2_def)
  have d: "disk_block ?f (NewBlockId ''a.tbl'' 0) = demo_block1" "disk_block ?f (NewBlockId ''b.tbl'' 0) = demo_block2"
    "disk_block ?f (NewBlockId ''c.tbl'' 0) = replicate 64 0" "disk_block ?f (NewBlockId ''c.tbl'' 1) = replicate 64 0"
    "disk_block ?f (NewBlockId ''c.tbl'' 2) = demo_block1"
    by (simp_all add: disk_block_def NewBlockId_def bs)
      (simp_all add: fm_NewManager_def fileBytes_def bslice_def demo_files_def demo_block1_def demo_block2_def)
  obtain s where s: "NewGoDBWithOptions (Some demo_files) 64 2 = Inr s" "pool_inv s" "blockSize s = 64"
    "logFile s = ''godb.log''" "pins_are s 1 []" "own_buffers s 1 = {..<2}" and sl: "\<And>b. slockable s 1 b"
    and n: "\<And>n. n \<noteq> ''godb.log'' \<Longrightarrow> nblocks s n = nblocks ?f n"
    and v: "\<And>c. in_file ?f c \<Longrightarrow> blk_view s c = disk_block ?f c"
    by (rule NewGoDBWithOptions_fresh [OF f, of 2 1]) simp_all
  have there: "tb_there demo_view 1 (named_table (\<lambda>_. k) nm lay) s"
    if k: "nm @ ''.tbl'' \<noteq> ''godb.log''" "0 < k" "nblocks ?f (nm @ ''.tbl'') = k"
      "\<And>b. 0 \<le> b \<Longrightarrow> b < k \<Longrightarrow> disk_block ?f (NewBlockId (nm @ ''.tbl'') b) = demo_view (NewBlockId (nm @ ''.tbl'') b)"
    for k nm lay
    using k s(4) n sl v by (simp add: tb_there_def named_table_def in_file_def NewBlockId_def)
  have "tb_there demo_view 1 (named_table (\<lambda>_. 1) ''a'' demo_layout) s"
  proof (rule there)
    show "disk_block ?f (NewBlockId (''a'' @ ''.tbl'') b) = demo_view (NewBlockId (''a'' @ ''.tbl'') b)" if "0 \<le> b" "b < 1" for b
    proof -
      have "b = 0" using that by linarith
      then show ?thesis using d(1) by (simp add: demo_view_def NewBlockId_def)
    qed
  qed (simp_all add: nb)
  moreover have "tb_there demo_view 1 (named_table (\<lambda>_. 1) ''b'' demo_layout2) s"
  proof (rule there)
    show "disk_block ?f (NewBlockId (''b'' @ ''.tbl'') b) = demo_view (NewBlockId (''b'' @ ''.tbl'') b)" if "0 \<le> b" "b < 1" for b
    proof -
      have "b = 0" using that by linarith
      then show ?thesis using d(2) by (simp add: demo_view_def NewBlockId_def)
    qed
  qed (simp_all add: nb)
  moreover have "tb_there demo_view 1 (named_table (\<lambda>_. 3) ''c'' demo_layout) s"
  proof (rule there)
    show "disk_block ?f (NewBlockId (''c'' @ ''.tbl'') b) = demo_view (NewBlockId (''c'' @ ''.tbl'') b)" if "0 \<le> b" "b < 3" for b
    proof -
      have "b = 0 \<or> b = 1 \<or> b = 2" using that by linarith
      then show ?thesis using d(3-5) by (auto simp: demo_view_def NewBlockId_def)
    qed
  qed (simp_all add: nb)
  ultimately show thesis using s(2,3,5,6) that [of s] by simp
qed

definition demo_stat :: stat_info where
  "demo_stat = \<lparr>numBlocks = 1, numRecords = 1, distinctValues = Map.empty\<rparr>"

definition demo_plan :: plan where
  "demo_plan =
     NewProjectPlan (NewSelectPlan (NewProductPlan (TablePlan 1 ''a'' demo_layout demo_stat) (TablePlan 1 ''b'' demo_layout2 demo_stat))
       [NewTerm (NewFieldExpression ''id'') (NewFieldExpression ''n'') EQ]) [''id'']"

lemma demo_ints:
  "be_val [0, 0, 0, 1] = 1" "be_val [0, 0, 0, 7] = 7" "be_val [0, 0, 0, 9] = 9" "be_val (replicate 4 0) = 0"
  by (simp_all add: be_val_def) (simp add: eval_nat_numeral)

lemmas demo_table_simps = named_table_def demo_layout_def demo_layout2_def demo_view_def NewBlockId_def demo_block1_def
  demo_block2_def page_GetInt_def be_read_def bslice_def demo_ints

lemma demo_rids:
  "tb_rids demo_view 64 (named_table (\<lambda>_. 1) ''a'' demo_layout) = [(0, 0), (0, 1)]"
  "tb_rids demo_view 64 (named_table (\<lambda>_. 1) ''b'' demo_layout2) = [(0, 1)]"
  by (simp_all add: tb_rids_def rids_of_def rids_in_def slots_of_def upto_rec1 used_def FlagUsed_def demo_table_simps)

lemma demo_cells:
  "rid_row demo_view (named_table (\<lambda>_. 1) ''a'' demo_layout) (0, 0) = [''id'' \<mapsto> VInt 7]"
  "rid_row demo_view (named_table (\<lambda>_. 1) ''a'' demo_layout) (0, 1) = [''id'' \<mapsto> VInt 9]"
  "rid_row demo_view (named_table (\<lambda>_. 1) ''b'' demo_layout2) (0, 1) = [''n'' \<mapsto> VInt 9]"
  by (auto simp: fun_eq_iff rid_row_def cell_at_def demo_table_simps lay_Offset_def schema_Type_def sch_lookup_def
    AddIntField_def AddField_def NewSchema_def type_codes)

lemma demo_tables_sound:
  "tb_sound demo_view 64 (named_table (\<lambda>_. 1) ''a'' demo_layout)"
  "tb_sound demo_view 64 (named_table (\<lambda>_. 1) ''b'' demo_layout2)"
  unfolding tb_sound_def demo_rids
  by (auto simp: cell_at_def demo_table_simps lay_Offset_def schema_Type_def sch_lookup_def Let_def
    AddIntField_def AddField_def NewSchema_def type_codes IntSize_def)

lemma demo_tables_dense:
  "tb_dense demo_view 64 (named_table (\<lambda>_. 1) ''a'' demo_layout)"
  "tb_dense demo_view 64 (named_table (\<lambda>_. 1) ''b'' demo_layout2)"
  by (simp_all add: tb_dense_def named_table_def)

lemma demo_plan_ok:
  assumes "tb_there demo_view 1 (named_table (\<lambda>_. 1) ''a'' demo_layout) s"
    and "tb_there demo_view 1 (named_table (\<lambda>_. 1) ''b'' demo_layout2) s"
  shows "plan_ok demo_view 64 (\<lambda>_. 1) 1 9 demo_plan s" and "plan_tables demo_plan = 2"
    and "map (\<lambda>r. map r [''id'', ''n'']) (plan_rows demo_view 64 (\<lambda>_. 1) demo_plan) = [[Some (VInt 9), None]]"
proof -
  have rows: "tb_rows demo_view 64 (named_table (\<lambda>_. 1) ''a'' demo_layout) = [[''id'' \<mapsto> VInt 7], [''id'' \<mapsto> VInt 9]]"
    "tb_rows demo_view 64 (named_table (\<lambda>_. 1) ''b'' demo_layout2) = [[''n'' \<mapsto> VInt 9]]"
    by (simp_all add: tb_rows_def demo_rids demo_cells)
  have sz: "slotSize demo_layout = 8" "slotSize demo_layout2 = 8" by (simp_all add: demo_layout_def demo_layout2_def)
  have has: "HasField (lay_schema demo_layout) f \<longleftrightarrow> f = ''id''" "HasField (lay_schema demo_layout2) f \<longleftrightarrow> f = ''n''" for f
    by (simp_all add: HasField_def demo_layout_def demo_layout2_def AddIntField_def AddField_def NewSchema_def)
  note plan = demo_plan_def Let_def NewProjectPlan_def NewSelectPlan_def NewProductPlan_def
  show "plan_ok demo_view 64 (\<lambda>_. 1) 1 9 demo_plan s"
    using assms demo_tables_sound demo_tables_dense sz rows by (simp add: plan join_rows_def)
  show "plan_tables demo_plan = 2" by (simp add: plan)
  show "map (\<lambda>r. map r [''id'', ''n'']) (plan_rows demo_view 64 (\<lambda>_. 1) demo_plan) = [[Some (VInt 9), None]]"
    by (simp add: plan join_rows_def rows has pred_holds_def term_holds_def NewTerm_def NewFieldExpression_def expr_val_def
      compare_vals_def Add_def AddField_def NewSchema_def)
qed


lemma table_next_two_empty_blocks_witness:
  "\<exists>(s :: mdb) k s1 s2. tb_rids demo_view 64 (named_table (\<lambda>_. 3) ''c'' demo_layout) = [(2, 0), (2, 1)] \<and>
     NewTableScan 9 1 ''c'' demo_layout s = (Inr k, s1) \<and> ts_Next 9 k s1 = (Err ENoSlotFound, s2)"
proof -
  obtain s :: mdb where s: "pool_inv s" "blockSize s = 64" "pins_are s 1 []" "card (own_buffers s 1) = 2"
    "tb_there demo_view 1 (named_table (\<lambda>_. 3) ''c'' demo_layout) s"
    by (rule demo_db) blast
  have rids: "tb_rids demo_view 64 (named_table (\<lambda>_. 3) ''c'' demo_layout) = [(2, 0), (2, 1)]"
    by (simp add: tb_rids_def rids_of_def rids_in_def slots_of_def upto_rec1 used_def FlagUsed_def demo_table_simps)
  have sound: "tb_sound demo_view 64 (named_table (\<lambda>_. 3) ''c'' demo_layout)"
    unfolding tb_sound_def rids
    by (auto simp: cell_at_def demo_table_simps lay_Offset_def schema_Type_def sch_lookup_def Let_def
      AddIntField_def AddField_def NewSchema_def type_codes IntSize_def)
  have empty: "\<not> used demo_view (named_table (\<lambda>_. 3) ''c'' demo_layout) b j"
    if "b \<in> {0, 1}" "0 \<le> j" "j < 64 div slotSize demo_layout" for b j
  proof
    assume "used demo_view (named_table (\<lambda>_. 3) ''c'' demo_layout) b j"
    then have "(b, j) \<in> set (tb_rids demo_view 64 (named_table (\<lambda>_. 3) ''c'' demo_layout))"
      using that by (auto simp: tb_rids_def rids_of_def rids_in_def slots_of_def named_table_def)
    then show False using that(1) unfolding rids by auto
  qed
  have sz: "slotSize demo_layout \<le> 64" "nat (64 div slotSize demo_layout) < 9" by (simp_all add: demo_layout_def)
  have "0 < card (own_buffers s 1)" "(1 :: int) < (\<lambda>_. 3) (''c'' @ ''.tbl'')" using s(4) by simp_all
  from table_next_two_empty_blocks [OF s(1-3) this(1) sound s(5) sz(1) this(2) sz(2) empty] rids show ?thesis by blast
qed

lemma demo_plan_a:
  assumes "tb_there demo_view 1 (named_table (\<lambda>_. 1) ''a'' demo_layout) s"
  shows "plan_ok demo_view 64 (\<lambda>_. 1) 1 9 (SelectPlan (TablePlan 1 ''a'' demo_layout si) []) s"
  using assms demo_tables_sound demo_tables_dense by (simp add: tb_rows_def demo_rids) (simp add: demo_layout_def)

lemma table_updates_rejected_witness:
  "\<exists>(s :: mdb) sc s1 s2. plan_Open 9 (SelectPlan (TablePlan 1 ''a'' demo_layout demo_stat) []) s = (Inr sc, s1) \<and>
     delete_loop 1 sc 0 s1 = (Err EUpdateNotSupported, s2)"
proof -
  obtain s :: mdb where s: "pool_inv s" "blockSize s = 64" "pins_are s 1 []" "card (own_buffers s 1) = 2"
    "tb_there demo_view 1 (named_table (\<lambda>_. 1) ''a'' demo_layout) s"
    by (rule demo_db) blast
  have room: "0 < card (own_buffers s 1)" using s(4) by simp
  let ?d = "\<lparr>md_table = ''a'', md_field = ''id'', md_value = NewConstantExpression (Some (VInt 1)), md_pred = []\<rparr>"
  have d: "ex_value (md_value ?d) = Some (VInt 1)" by (simp add: NewConstantExpression_def)
  have rows: "filter (\<lambda>r. pred_holds r []) (tb_rows demo_view 64 (named_table (\<lambda>_. 1) ''a'' demo_layout)) \<noteq> []"
    by (simp add: tb_rows_def demo_rids pred_holds_def)
  from table_updates_rejected [OF s(1-3) room demo_plan_a [OF s(5)] d, of demo_stat 0]
  show ?thesis unfolding Let_def if_not_P [OF rows] One_nat_def by blast
qed

lemma product_without_before_first_witness:
  "\<exists>(s :: mdb) sc s1 s2 s3. plan_Open 9 (ProductPlan (TablePlan 1 ''a'' demo_layout demo_stat) (TablePlan 1 ''b'' demo_layout2 demo_stat) NewSchema) s = (Inr sc, s1) \<and>
     m_Next (sc_ops sc) s1 = (Inr True, s2) \<and> m_GetVal (sc_ops sc) ''id'' s2 = (Inl Panic, s3)"
proof -
  obtain s :: mdb where s: "pool_inv s" "blockSize s = 64" "pins_are s 1 []" "card (own_buffers s 1) = 2"
    "tb_there demo_view 1 (named_table (\<lambda>_. 1) ''a'' demo_layout) s"
    "tb_there demo_view 1 (named_table (\<lambda>_. 1) ''b'' demo_layout2) s"
    by (rule demo_db) blast
  have room: "2 \<le> card (own_buffers s 1)" using s(4) by simp
  have ok: "plan_ok demo_view 64 (\<lambda>_. 1) 1 9 (TablePlan 1 ''a'' demo_layout si) s"
    "plan_ok demo_view 64 (\<lambda>_. 1) 1 9 (TablePlan 1 ''b'' demo_layout2 si) s" for si
    using s(5,6) demo_tables_sound demo_tables_dense by (simp, simp add: demo_layout_def demo_layout2_def)+
  have f: "HasField (lay_schema demo_layout) ''id''" "schema_Type (lay_schema demo_layout) ''id'' = Integer"
    "lay_Offset demo_layout ''id'' < slotSize demo_layout"
    by (simp_all add: HasField_def schema_Type_def sch_lookup_def lay_Offset_def demo_layout_def AddIntField_def AddField_def NewSchema_def)
  have rows: "tb_rows demo_view 64 (named_table (\<lambda>_. 1) ''b'' demo_layout2) \<noteq> []" by (simp add: tb_rows_def demo_rids)
  show ?thesis
    using product_without_before_first [OF s(1-3) room ok(1) ok(2) rows f] by blast
qed

end
