(* ===== verification/Indexes.thy ===== *)
theory Indexes
  imports IndexContract Queries
begin

text \<open>
  \<^verbatim>\<open>index/btree/index.go\<close>: what an index does for its clients, from \<open>NewIndex\<close> on.
\<close>

section \<open>A new index\<close>

text \<open>A file that has no block yet, in which transaction \<open>t\<close> may make its first page.\<close>

definition new_file :: "int \<Rightarrow> string \<Rightarrow> layout \<Rightarrow> 'z world_scheme \<Rightarrow> bool" where
  "new_file t fn lay s \<longleftrightarrow> nblocks s fn = 0 \<and> fn \<noteq> logFile s \<and> can_xlock s t (NewBlockId fn EndOfFile) \<and>
     can_xlock s t (NewBlockId fn 0) \<and> 0 \<le> t \<and> int32_range t \<and> storable_string fn \<and> blockSize s < 2 ^ 31 \<and>
     bt_wf (leaf_at t fn lay 0) (blockSize s)"

lemma new_file_later:
  assumes "new_file t fn lay s" and "spares t C s s'" and "nblocks s' fn = nblocks s fn"
  shows "new_file t fn lay s'"
  using assms by (simp add: new_file_def spares_def)

lemma first_page:
  assumes new: "new_file t fn lay s" and inv: "pool_inv s" and pi: "pins_are s t bs" and room: "length bs < card (own_buffers s t)"
  obtains s1 s2 where "tx_Append t fn s = (Inr (NewBlockId fn 0), s1)"
    and "newBTreePage t (NewBlockId fn 0) lay s1 = (Inr (leaf_at t fn lay 0), s2)" and "pool_inv s2"
    and "pins_are s2 t (NewBlockId fn 0 # bs)" and "own_buffers s2 t = own_buffers s t" and "spares t {NewBlockId fn 0} s s2"
    and "bt_page (leaf_at t fn lay 0) s2 [] 0 0"
proof -
  let ?b = "NewBlockId fn 0"
  have can: "can_xlock s t (NewBlockId fn EndOfFile)" and fn: "fn \<noteq> logFile s" and nb: "nblocks s fn = 0"
    using new by (simp_all add: new_file_def)
  obtain s1 where s1: "tx_Append t fn s = (Inr ?b, s1)" "pool_inv s1" "blockSize s1 = blockSize s" "logFile s1 = logFile s"
    and nb1: "\<And>m. nblocks s1 m = (if m = fn then nblocks s fn + 1 else nblocks s m)"
    and v1: "\<And>c. in_file s c \<Longrightarrow> blk_view s1 c = blk_view s c" "blk_view s1 ?b = replicate (nat (blockSize s)) 0"
    and l1: "\<And>c. can_xlock s t c \<Longrightarrow> can_xlock s1 t c"
    and pi1: "\<And>bs. pins_are s1 t bs = pins_are s t bs" "own_buffers s1 t = own_buffers s t"
    using tx_Append_spec [OF inv can fn] unfolding nb by metis
  have sp1: "spares t {?b} s s1"
    unfolding spares_def in_file_def using s1(3,4) nb1 v1(1) l1 pi1(2) nb by (auto simp: NewBlockId_def in_file_def intro!: block_id.equality)
  have room1: "pins_are s1 t bs" "length bs < card (own_buffers s1 t)" using pi room pi1 by simp_all
  have blk: "in_file s1 ?b" "File ?b \<noteq> logFile s1" using nb1 nb fn s1(4) by (simp_all add: in_file_def NewBlockId_def)
  obtain s2 where s2: "tx_Pin t ?b s1 = (Inr (), s2)" "pool_inv s2" "pins_are s2 t (?b # bs)"
    "own_buffers s2 t = own_buffers s1 t" "calm t s1 s2" "same_locks s1 s2"
    by (rule tx_Pin_spec [OF s1(2) room1 blk])
  have sp2: "spares t {?b} s s2" using spares_trans [OF sp1 spares_calm [OF s2(5,6,4)]] by simp
  have home: "bt_home (leaf_at t fn lay 0) s2"
    using new sp2 calm_in_file [OF s2(5) blk(2)] blk s2(5)
    by (simp add: bt_home_def new_file_def spares_def calm_def NewBlockId_def int32_range_def)
  have z: "blk_view s2 ?b = replicate (nat (blockSize s2)) 0"
    using s2(5) blk v1(2) s1(3) by (simp add: calm_def)
  have "bt_page (leaf_at t fn lay 0) s2 [] 0 0"
    by (rule bt_slots_new [OF home s2(2), of "?b # bs"]) (use s2(3) z in simp_all)
  moreover have "newBTreePage t ?b lay s1 = (Inr (leaf_at t fn lay 0), s2)"
    using s2(1) by (simp add: newBTreePage_def bnd_Inr go_unfold)
  ultimately show thesis using s1(1) s2(2-4) pi1(2) sp2 by (intro that [of s1 s2]) simp_all
qed

lemma close_page:
  assumes b: "bt_page p s L x1 x2" and pi: "pins_are s (bp_tx p) (bp_block p # bs)"
  obtains s' where "bp_close p s = (Inr (), s')" and "pool_inv s'" and "pins_are s' (bp_tx p) bs"
    and "own_buffers s' (bp_tx p) = own_buffers s (bp_tx p)" and "spares (bp_tx p) {} s s'" and "bt_stored p s' L x1 x2"
proof -
  obtain s' where s': "bp_close p s = (Inr (), s')" "pool_inv s'" "pins_are s' (bp_tx p) bs"
    "own_buffers s' (bp_tx p) = own_buffers s (bp_tx p)" "spares (bp_tx p) {} s s'"
    by (rule bp_close_spec [OF bt_page_inv [OF b] pi])
  have "bt_stored p s' L x1 x2" by (rule spares_stored [OF s'(5) refl _ bt_page_stored [OF b]]) simp
  then show thesis using that [of s'] s' by simp
qed

lemma btree_init_empty:
  assumes leaf: "new_file t (leafFile n) lay s" and dir: "new_file t (dirFile n) dlay s" and inv: "pool_inv s"
    and pi: "pins_are s t bs" and room: "length bs < card (own_buffers s t)"
  obtains s' where "btree_init t n lay dlay s = (Inr (), s')" and "pool_inv s'" and "pins_are s' t bs"
    and "own_buffers s' t = own_buffers s t" and "spares t {NewBlockId (leafFile n) 0, NewBlockId (dirFile n) 0} s s'"
    and "bt_stored (leaf_at t (leafFile n) lay 0) s' [] (- 1) (- 1)" and "bt_stored (leaf_at t (dirFile n) dlay 0) s' [] 0 0"
proof -
  let ?p = "leaf_at t (leafFile n) lay 0" and ?q = "leaf_at t (dirFile n) dlay 0"
  let ?pb = "NewBlockId (leafFile n) 0" and ?qb = "NewBlockId (dirFile n) 0"
  obtain s1 s2 where s2: "tx_Append t (leafFile n) s = (Inr ?pb, s1)" "newBTreePage t ?pb lay s1 = (Inr ?p, s2)" "pool_inv s2"
    "pins_are s2 t (?pb # bs)" "own_buffers s2 t = own_buffers s t" "spares t {?pb} s s2" and p2: "bt_page ?p s2 [] 0 0"
    by (rule first_page [OF leaf inv pi room])
  obtain s3 where s3: "bp_format ?p s2 = (Inr (), s3)" "touches ?p s2 s3" "bt_page ?p s3 [] (- 1) (- 1)"
    using bp_format_empty [OF p2] by blast
  have pi3: "pins_are s3 (bp_tx ?p) (bp_block ?p # bs)" "own_buffers s3 t = own_buffers s2 t"
    using s3(2) s2(4) by (auto simp: touches_def)
  obtain s4 where s4: "bp_close ?p s3 = (Inr (), s4)" "pool_inv s4" "pins_are s4 t bs" "own_buffers s4 t = own_buffers s3 t"
    "spares t {} s3 s4" "bt_stored ?p s4 [] (- 1) (- 1)"
    by (rule close_page [OF s3(3) pi3(1)]) auto
  have sp4: "spares t {?pb} s s4"
    using spares_trans [OF s2(6) spares_trans [OF _ s4(5), of "{?pb}"]] spares_touches [OF s3(2)] by simp
  have log: "dirFile n \<noteq> logFile s" and z: "nblocks s (dirFile n) = 0" using dir by (simp_all add: new_file_def)
  then have "nblocks s4 (dirFile n) \<le> nblocks s (dirFile n)"
    by (intro spares_grown [OF sp4 log]) (use files_apart in \<open>auto simp: NewBlockId_def\<close>)
  moreover have "nblocks s (dirFile n) \<le> nblocks s4 (dirFile n)" using sp4 log by (simp add: spares_def)
  ultimately have "nblocks s4 (dirFile n) = nblocks s (dirFile n)" by simp
  from new_file_later [OF dir sp4 this] have dir4: "new_file t (dirFile n) dlay s4" .
  have room4: "length bs < card (own_buffers s4 t)" using room s4(4) pi3(2) s2(5) by simp
  obtain s5 s6 where s6: "tx_Append t (dirFile n) s4 = (Inr ?qb, s5)" "newBTreePage t ?qb dlay s5 = (Inr ?q, s6)" "pool_inv s6"
    "pins_are s6 t (?qb # bs)" "own_buffers s6 t = own_buffers s4 t" "spares t {?qb} s4 s6" and q6: "bt_page ?q s6 [] 0 0"
    by (rule first_page [OF dir4 s4(2,3) room4])
  obtain s7 where s7: "bp_format ?q s6 = (Inr (), s7)" "touches ?q s6 s7" "bt_page ?q s7 [] (- 1) (- 1)"
    using bp_format_empty [OF q6] by blast
  have r0: "int32_range 0" by (simp add: int32_range_def)
  obtain s8 where s8: "bp_setExtra1 ?q 0 s7 = (Inr (), s8)" "touches ?q s7 s8" "bt_page ?q s8 [] 0 (- 1)"
    using bt_page_extra(1) [OF s7(3) r0] by blast
  obtain s9 where s9: "bp_setExtra2 ?q 0 s8 = (Inr (), s9)" "touches ?q s8 s9" "bt_page ?q s9 [] 0 0"
    using bt_page_extra(2) [OF s8(3) r0] by blast
  have t9: "touches ?q s6 s9" by (rule touches_trans [OF s7(2) touches_trans [OF s8(2) s9(2)]])
  have pi9: "pins_are s9 (bp_tx ?q) (bp_block ?q # bs)" "own_buffers s9 t = own_buffers s6 t"
    using t9 s6(4) by (auto simp: touches_def)
  obtain s10 where s10: "bp_close ?q s9 = (Inr (), s10)" "pool_inv s10" "pins_are s10 t bs" "own_buffers s10 t = own_buffers s9 t"
    "spares t {} s9 s10" "bt_stored ?q s10 [] 0 0"
    by (rule close_page [OF s9(3) pi9(1)]) auto
  have sp49: "spares t {?qb} s4 s10"
    using spares_trans [OF s6(6) spares_trans [OF _ s10(5), of "{?qb}"]] spares_touches [OF t9] by simp
  have p10: "bt_stored ?p s10 [] (- 1) (- 1)"
    by (rule spares_stored [OF sp49 _ _ s4(6)]) (use files_apart in \<open>simp_all add: NewBlockId_def\<close>)
  have "spares t {?pb, ?qb} s s10" using spares_trans [OF sp4 sp49] by (simp add: insert_commute)
  moreover have "btree_init t n lay dlay s = (Inr (), s10)"
    using s2(1,2) s3(1) s4(1) s6(1,2) s7(1) s8(1) s9(1) s10(1)
    by (simp add: btree_init_def closing_def handle_def bnd_def go_unfold)
  ultimately show thesis using s10(2-4,6) p10 pi9(2) s6(5) s4(4) pi3(2) s2(5) by (intro that [of s10]) simp_all
qed

text \<open>What \<open>NewIndex\<close> makes of the layout of the leaves.\<close>

abbreviation dir_schema :: "layout \<Rightarrow> schema" where
  "dir_schema lay \<equiv> AddIntField BlockField (Add DataValueField (lay_schema lay) NewSchema)"

lemma NewLayout_schema: "NewLayout s = Inr l \<Longrightarrow> lay_schema l = sort_fields s"
  by (auto simp: NewLayout_def layout_in_order_def rbind_def split: sum.splits)

lemma tx_Size_spares:
  assumes inv: "pool_inv s" and can: "can_xlock s t (NewBlockId fn EndOfFile)"
  obtains s' where "tx_Size t fn s = (Inr (nblocks s fn), s')" and "pool_inv s'" and "spares t {} s s'"
    and "\<And>m. nblocks s' m = nblocks s m" and "\<And>bs. pins_are s' t bs = pins_are s t bs" and "own_buffers s' t = own_buffers s t"
proof -
  obtain s1 where s1: "tx_SLock t (NewBlockId fn EndOfFile) s = (Inr (), s1)" "locks_only t s s1"
    by (rule tx_SLock_spec [OF can_xlock_slockable [OF can]])
  note same = locks_only_same [OF s1(2)]
  have inv1: "pool_inv s1" using inv same(1) by simp
  then have "fm_wf s1" by (auto simp: pool_inv_def log_holds_def lm_inv_def)
  then obtain s2 where s2: "fm_Length fn s1 = (Inr (nblocks s1 fn), s2)" "fm_frame s1 s2" and fb: "\<And>m. fileBytes s2 m = fileBytes s1 m"
    by (rule fm_Length_spec [of s1 fn]) blast
  have q: "quiet s1 s2" using s2(2) fb by (simp add: quiet_def)
  note qs = quiet_same [OF q]
  have "spares t {} s s1" by (rule spares_locks [OF s1(2)])
  moreover have "spares t {} s1 s2" using qs quiet_pins(2) [OF q] by (simp add: spares_def)
  ultimately have "spares t {} s s2" using spares_trans by fastforce
  moreover have "tx_Size t fn s = (Inr (nblocks s fn), s2)" using s1(1) s2(1) same(4) by (simp add: tx_Size_def bnd_Inr)
  ultimately show thesis
    using that [of s2] inv1 qs(1) qs(5) same(4) pins_are_cong [of s1 t s] same(9,10) quiet_pins [OF q] by simp
qed

lemma dir_schema_fields:
  "set (sch_fields (dir_schema lay)) = {DataValueField, BlockField}" "schema_Type (dir_schema lay) BlockField = Integer"
  "schema_Type (dir_schema lay) DataValueField = schema_Type (lay_schema lay) DataValueField"
  "schema_Length (dir_schema lay) DataValueField = schema_Length (lay_schema lay) DataValueField"
  using fields_differ
  by (auto simp: schema_Type_def schema_Length_def sch_lookup_def AddIntField_def AddField_def Add_def NewSchema_def)

lemma dir_schema_layouts:
  assumes "NewLayout (dir_schema lay) = Inr dlay" and "leaf_layout lay key" and "bi_leafLayout ix = lay" and "bi_dirLayout ix = dlay"
  shows "tree_layouts ix"
proof -
  have t: "schema_Type (sort_fields S) f = schema_Type S f" "schema_Length (sort_fields S) f = schema_Length S f"
    "set (sch_fields (sort_fields S)) = set (sch_fields S)" for S f
    by (simp_all add: schema_Type_def schema_Length_def sch_lookup_def sort_fields_def)
  have "size_of (lay_schema dlay) DataValueField = size_of (lay_schema lay) DataValueField"
    unfolding NewLayout_schema [OF assms(1)] size_of_def lengthInBytes_def t dir_schema_fields(3,4) ..
  then show ?thesis
    using assms(2) unfolding tree_layouts_def assms(3,4) Let_def leaf_layout_def by (simp add: NewLayout_schema [OF assms(1)] t dir_schema_fields)
qed

lemma NewIndex_btree:
  assumes dlay: "NewLayout (dir_schema lay) = Inr dlay" and leaf: "new_file t (leafFile n) lay s" and dir: "new_file t (dirFile n) dlay s"
    and inv: "pool_inv s" and pi: "pins_are s t bs" and room: "length bs < card (own_buffers s t)" and key: "leaf_layout lay key"
  obtains ix s' where "btree_NewIndex t n lay s = (Inr ix, s')" and "pool_inv s'" and "pins_are s' t bs"
    and "spares t {NewBlockId (leafFile n) 0, NewBlockId (dirFile n) 0} s s'" and "btree ix s' 0 [(None, 0, [])]"
    and "bi_leaf ix = None" and "bi_tx ix = t" and "bi_name ix = n" and "bi_leafLayout ix = lay" and "bi_dirLayout ix = dlay"
proof -
  have can: "can_xlock s t (NewBlockId (leafFile n) EndOfFile)" using leaf by (simp add: new_file_def)
  obtain s1 where s1: "tx_Size t (leafFile n) s = (Inr (nblocks s (leafFile n)), s1)" "pool_inv s1" "spares t {} s s1"
    and nb1: "\<And>m. nblocks s1 m = nblocks s m" and pi1: "\<And>bs. pins_are s1 t bs = pins_are s t bs" "own_buffers s1 t = own_buffers s t"
    by (rule tx_Size_spares [OF inv can]) blast
  have new1: "new_file t (leafFile n) lay s1" "new_file t (dirFile n) dlay s1"
    using new_file_later [OF leaf s1(3) nb1] new_file_later [OF dir s1(3) nb1] .
  have room1: "pins_are s1 t bs" "length bs < card (own_buffers s1 t)" using pi room pi1 by simp_all
  obtain s2 where s2: "btree_init t n lay dlay s1 = (Inr (), s2)" "pool_inv s2" "pins_are s2 t bs"
    "spares t {NewBlockId (leafFile n) 0, NewBlockId (dirFile n) 0} s1 s2" "bt_stored (leaf_at t (leafFile n) lay 0) s2 [] (- 1) (- 1)" "bt_stored (leaf_at t (dirFile n) dlay 0) s2 [] 0 0"
    by (rule btree_init_empty [OF new1 s1(2) room1]) blast
  let ?ix = "\<lparr>bi_tx = t, bi_name = n, bi_leafLayout = lay, bi_dirLayout = dlay, bi_root = NewBlockId (dirFile n) 0, bi_leaf = None\<rparr>"
  have "nblocks s (leafFile n) = 0" using leaf by (simp add: new_file_def)
  then have run: "btree_NewIndex t n lay s = (Inr ?ix, s2)"
    using dlay s1(1) s2(1) by (simp add: btree_NewIndex_def bnd_def go_unfold)
  have "tree_layouts ?ix" by (rule dir_schema_layouts [OF dlay key]) simp_all
  moreover have "dir_tree t (dirFile n) dlay s2 (Suc 0) 0 0 [] [0]"
    using s2(6) by (auto simp: kids0_def intro!: exI [of _ "[]"])
  moreover have "leaf_chain t (leafFile n) lay s2 [(0, [])]" using s2(5) by auto
  ultimately have "btree ?ix s2 0 [(None, 0, [])]"
    by (auto simp: btree_def segs_wf_def msorted_def seg_marks_def seg_sep_def simp del: dir_tree.simps intro: exI [of _ "[0]"])
  then show thesis using that [OF run s2(2,3)] spares_trans [OF s1(3) s2(4)] by simp
qed

text \<open>A new index is ready for insertions when the transaction may lock what it likes and has three buffers to spare.\<close>

lemma new_index_ready:
  assumes new: "new_file t (leafFile n) lay s" "new_file t (dirFile n) dlay s" and lock: "\<And>b. can_xlock s t b"
    and sp: "spares t {NewBlockId (leafFile n) 0, NewBlockId (dirFile n) 0} s s'" and inv: "pool_inv s'" and pi: "pins_are s' t bs"
    and room: "length bs + 2 < card (own_buffers s t)" and cap: "2 \<le> bt_cap (leaf_at t (leafFile n) lay 0) (blockSize s)"
      "0 < bt_cap (leaf_at t (dirFile n) dlay 0) (blockSize s)" "bt_cap (leaf_at t (dirFile n) dlay 0) (blockSize s) < g"
    and ix: "bi_tx ix = t" "bi_name ix = n" "bi_leafLayout ix = lay" "bi_dirLayout ix = dlay"
  shows "insert_ready ix s' 0 bs g"
proof -
  have grown: "nblocks s' fn \<le> 1" "0 \<le> nblocks s' fn" if "fn = leafFile n \<or> fn = dirFile n" for fn
  proof -
    have z: "nblocks s fn = 0" "fn \<noteq> logFile s" using that new by (auto simp: new_file_def)
    show "nblocks s' fn \<le> 1" by (rule spares_grown [OF sp z(2)]) (use z(1) in auto)
    show "0 \<le> nblocks s' fn" using sp z unfolding spares_def by (metis (no_types, lifting))
  qed
  have same: "blockSize s' = blockSize s" "own_buffers s' t = own_buffers s t" and lock': "\<And>b. can_xlock s' t b"
    using sp lock by (simp_all add: spares_def)
  show ?thesis
    using same lock' inv pi room cap grown [of "leafFile n"] grown [of "dirFile n"]
    by (simp add: insert_ready_def ix may_grow_def Let_def int32_range_def)
qed

section \<open>Equal keys\<close>

lemma leaf_put_same: "\<forall>e \<in> set L. has_key key e \<Longrightarrow> leaf_put key r L = leaf_entry key r # L"
  by (cases L) (simp_all add: leaf_put_def has_key_def key_below_def)

lemma same_key_inserts:
  assumes "index_leads ix 0 s key [(k, L)]" and "\<forall>e \<in> set L. has_key key e" and "\<forall>r \<in> set rs. leaf_takes (ix_leaf ix 0) key r"
    and "length L + length rs \<le> bt_cap (ix_leaf ix 0) (blockSize s)" and "pool_inv s" and "pins_are s (bi_tx ix) bs"
    and "Suc (length bs) < card (own_buffers s (bi_tx ix))" and "0 < n"
  shows "\<exists>s'. for_each rs (\<lambda>r. bi_Insert n (Some key) r) (ix, s) = (Inr (), (ix, s')) \<and> pool_inv s' \<and> pins_are s' (bi_tx ix) bs \<and>
    spares (bi_tx ix) {bp_block (ix_leaf ix k)} s s' \<and> index_leads ix 0 s' key [(k, map (leaf_entry key) (rev rs) @ L)]"
  using assms(1-7)
proof (induction rs arbitrary: L s)
  case Nil
  then show ?case by (auto simp: go_unfold spares_refl)
next
  case (Cons r rs)
  have t: "leaf_takes (ix_leaf ix k) key r" using Cons.prems(3) leaf_takes_same [of ix key r k] by simp
  have cap: "length L < bt_cap (ix_leaf ix k) (blockSize s)" using Cons.prems(4) bt_cap_block [of "bi_tx ix" "leafFile (bi_name ix)" k "bi_leafLayout ix"] by simp
  have room: "length bs + max 1 0 < card (own_buffers s (bi_tx ix))" using Cons.prems(7) by simp
  obtain s1 where s1: "bi_Insert n (Some key) r (ix, s) = (Inr (), (ix, s1))" "index_leads ix 0 s1 key [(k, leaf_put key r L)]" "pool_inv s1"
    "pins_are s1 (bi_tx ix) bs" "spares (bi_tx ix) {bp_block (ix_leaf ix k)} s s1"
    by (rule bi_Insert_room [OF Cons.prems(1) _ t cap _ Cons.prems(5,6) room assms(8)]) auto
  note put = leaf_put_same [OF Cons.prems(2), of r]
  have all: "\<forall>e \<in> set (leaf_entry key r # L). has_key key e" using Cons.prems(2) by (simp add: has_key_def)
  have bs: "blockSize s1 = blockSize s" "own_buffers s1 (bi_tx ix) = own_buffers s (bi_tx ix)" using s1(5) by (simp_all add: spares_def)
  obtain s' where s': "for_each rs (\<lambda>r. bi_Insert n (Some key) r) (ix, s1) = (Inr (), (ix, s'))" "pool_inv s'" "pins_are s' (bi_tx ix) bs"
    "spares (bi_tx ix) {bp_block (ix_leaf ix k)} s1 s'" "index_leads ix 0 s' key [(k, map (leaf_entry key) (rev rs) @ leaf_entry key r # L)]"
    using Cons.IH [OF s1(2) [unfolded put] all _ _ s1(3,4)] Cons.prems(3,4,7) bs by auto
  then show ?case using s1(1) spares_trans [OF s1(5) s'(4)] by (auto simp: bnd_def)
qed

lemma leaf_takes_layout: "leaf_takes p key rid \<Longrightarrow> leaf_layout (bp_layout p) key"
  by (auto simp: leaf_takes_def leaf_layout_def val_in_def)

lemma same_key_split:
  assumes "bi_leaf ix = None" and "btree ix s 0 [(None, k, [])]" and "insert_ready ix s 0 bs n" and "\<forall>r \<in> set (r # rs). leaf_takes (ix_leaf ix 0) key r"
    and "length rs = bt_cap (ix_leaf ix 0) (blockSize s)" 
  obtains s1 s2 h' j where "for_each rs (\<lambda>r. bi_Insert n (Some key) r) (ix, s) = (Inr (), (ix, s1))"
    and "bi_Insert n (Some key) r (ix, s1) = (Inr (), (ix, s2))" and "pool_inv s2" and "pins_are s2 (bi_tx ix) bs"
    and "own_buffers s2 (bi_tx ix) = own_buffers s (bi_tx ix)" and "h' = 0 \<or> h' = Suc 0"
    and "index_leads ix h' s2 key [(j, leaf_entry key r # map (leaf_entry key) (drop (length rs div 2) (rev rs)))]"
proof -
  let ?t = "bi_tx ix" and ?fn = "leafFile (bi_name ix)" and ?dn = "dirFile (bi_name ix)" and ?E = "map (leaf_entry key) (rev rs)"
  have tk: "leaf_takes (ix_leaf ix j) key r" for j using assms(4) leaf_takes_same [of ix key r j] by simp
  then have kt: "val_type key = key_type ix" by (simp add: leaf_takes_def val_in_def)
  have rd: "pool_inv s" "pins_are s ?t bs" "length bs + 0 + 2 < card (own_buffers s ?t)" "may_grow ?t ?fn s 1" "may_grow ?t ?dn s (Suc (Suc 0))"
    "2 \<le> length rs" "0 < bt_cap (leaf_at ?t ?dn (bi_dirLayout ix) 0) (blockSize s)" "bt_cap (leaf_at ?t ?dn (bi_dirLayout ix) 0) (blockSize s) < n" "0 < n"
    using assms(3,5) by (simp_all add: insert_ready_def Let_def)
  obtain T1 v j L T2 where T: "[(None, k, [])] = T1 @ (v, j, L) # T2" "index_leads ix 0 s key ((j, L) # leaves T2)"
    by (rule btree_leads [OF assms(2) kt]) blast
  have "j = k" "L = []" "T2 = []" using T(1) by (cases T1; simp)+
  then have ix: "index_leads ix 0 s key [(k, [])]" using T(2) by simp
  obtain N where tr: "ix_dir ix s (Suc 0) 0 k [] N" "distinct N" and lay: "tree_layouts ix" "bi_root ix = NewBlockId ?dn 0"
    using assms(2) unfolding btree_def by (auto simp: seg_sep_def simp del: dir_tree.simps)
  have room: "Suc (length bs) < card (own_buffers s ?t)" using rd(3) by simp
  obtain s1 where s1: "for_each rs (\<lambda>r. bi_Insert n (Some key) r) (ix, s) = (Inr (), (ix, s1))" "pool_inv s1" "pins_are s1 ?t bs"
    "spares ?t {bp_block (ix_leaf ix k)} s s1" "index_leads ix 0 s1 key [(k, ?E)]"
    using same_key_inserts [OF ix _ _ _ rd(1,2) room rd(9), of rs] assms(4,5) by auto
  have same: "blockSize s1 = blockSize s" "own_buffers s1 ?t = own_buffers s ?t" using s1(4) by (simp_all add: spares_def)
  have st: "bt_stored (ix_leaf ix k) s [] x y \<Longrightarrow> 0 \<le> k \<and> k < nblocks s ?fn \<and> ?fn \<noteq> logFile s" for x y
    by (simp add: bt_stored_def bt_home_def in_file_def)
  then have k: "0 \<le> k" "k < nblocks s ?fn" "?fn \<noteq> logFile s" using ix by (auto simp: index_leads_def)
  have dn: "?dn \<noteq> logFile s" "0 \<le> nblocks s ?dn" using tr(1) by (auto simp: bt_stored_def bt_home_def in_file_def)
  have nb: "nblocks s1 ?fn = nblocks s ?fn" "nblocks s1 ?dn = nblocks s ?dn"
  proof -
    have "nblocks s1 ?fn \<le> nblocks s ?fn" by (rule spares_grown [OF s1(4) k(3)]) (use k in auto)
    moreover have "nblocks s1 ?dn \<le> nblocks s ?dn" by (rule spares_grown [OF s1(4) dn(1)]) (use dn files_apart in auto)
    moreover have "nblocks s ?fn \<le> nblocks s1 ?fn" "nblocks s ?dn \<le> nblocks s1 ?dn" using s1(4) k(3) dn(1) by (simp_all add: spares_def)
    ultimately show "nblocks s1 ?fn = nblocks s ?fn" "nblocks s1 ?dn = nblocks s ?dn" by simp_all
  qed
  have grow: "may_grow ?t ?fn s1 1" "may_grow ?t ?dn s1 (Suc (Suc 0))"
    by (rule may_grow_later [of _ _ s 0, OF _ s1(4)]; use rd(4,5) nb k dn in simp)+
  have tr1: "ix_dir ix s1 (Suc 0) 0 k [] N" by (rule dir_tree_spares [OF s1(4) tr(1)]) (use files_apart in auto)
  let ?nk = "nblocks s1 ?fn" and ?h = "length rs div 2"
  have len: "length ?E = length rs" by simp
  obtain e B where D: "drop (length ?E div 2) ?E = e # B" using rd(6) by (cases "drop (length ?E div 2) ?E") auto
  have "set (e # B) \<subseteq> set ?E" unfolding D [symmetric] by (rule set_drop_subset)
  then have key: "bt_key x = key" if "x \<in> set (e # B)" for x using that by auto
  have e: "bt_key e = key" by (rule key) simp
  have full: "bt_cap (ix_leaf ix k) (blockSize s1) = length ?E" "2 \<le> length ?E"
    using assms(5) rd(6) bt_cap_block [of ?t ?fn k "bi_leafLayout ix"] same by simp_all
  have so: "sep_sorted (bt_key e) []" "sep_sorted (bt_key e) (sep_put (bt_key e) ?nk [])"
    by (simp_all add: sep_sorted_def sep_put_def)
  have "int32_range ?nk" using grow(1) k nb by (simp add: may_grow_def int32_range_def)
  moreover have "val_in (ix_leaf ix 0) DataValueField (bt_key e)" using tk [of 0] unfolding e by (simp add: leaf_takes_def)
  ultimately have dk: "dir_takes (leaf_at ?t ?dn (bi_dirLayout ix) 0) (bt_key e) ?nk" using tree_dir_takes [OF lay(1)] by blast
  have room1: "length bs + 0 + 2 < card (own_buffers s1 ?t)" using rd(3) same by simp
  have lr: "int32_range (int (Suc 0))" by (simp add: int32_range_def)
  have kC: "k \<notin> fst ` set ([] :: (int \<times> entry list) list)" by simp
  obtain s2 h' N' A' B' where s2: "bi_Insert n (Some key) r (ix, s1) = (Inr (), (ix, s2))" "pool_inv s2" "pins_are s2 ?t bs"
    "spares ?t ({bp_block (ix_leaf ix k), bp_block (ix_leaf ix ?nk)} \<union> range (NewBlockId ?dn)) s1 s2"
    "ix_chain ix s2 [(k, A'), (?nk, B')]" "ix_dir ix s2 (Suc h') 0 k (sep_put (bt_key e) ?nk []) N'" "h' = 0 \<or> h' = Suc 0"
    "B' = (if vcmp key (bt_key e) < 0 then e # B else leaf_put key r (e # B))"
    by (rule bi_Insert_split [OF s1(5) kC tk full D refl tr1 tr(2) so dk s1(2,3) room1 grow lr rd(9) rd(7,8) [folded same(1)]]) blast
  have B': "B' = leaf_entry key r # drop ?h ?E"
    using s2(8) leaf_put_same [of "e # B" key r] key D unfolding e by (simp add: has_key_def)
  have all: "\<forall>x \<in> set B'. bt_key x = key" using key D unfolding B' by auto
  have "dir_leads h' ?t ?dn (bi_dirLayout ix) s2 key 0 ?nk"
    using dir_tree_leads [OF s2(6), of key] so(2) unfolding e by (simp add: sep_put_def vcmp_refl)
  moreover have "keyed key B'"
  proof -
    have "bt_sorted L" if "\<forall>x \<in> set L. bt_key x = key" for L using that by (induction L) (simp_all add: bt_sorted_def)
    then show ?thesis using all by (simp add: keyed_def)
  qed
  ultimately have ix2: "index_leads ix h' s2 key [(?nk, B')]"
    using s2(5) lay(2) tree_layouts_leaf [OF lay(1) kt] tree_layouts_dir [OF lay(1) kt] by (simp add: index_leads_def)
  have own2: "own_buffers s2 ?t = own_buffers s ?t" using s2(4) same by (simp add: spares_def)
  show thesis using that [OF s1(1) s2(1-3) own2 s2(7)] ix2 unfolding B' drop_map length_map length_rev by blast
qed

section \<open>A database for an index\<close>

text \<open>An index \<open>i\<close> on integers: the layout of its leaves and of its directory.\<close>

definition demo_leaf :: layout where
  "demo_leaf = \<lparr>lay_schema = AddIntField DataValueField (AddIntField IDField (AddIntField BlockField NewSchema)),
     lay_offsets = [BlockField \<mapsto> 4, IDField \<mapsto> 8, DataValueField \<mapsto> 12], slotSize = 16\<rparr>"

definition demo_dir :: layout where
  "demo_dir = \<lparr>lay_schema = dir_schema demo_leaf, lay_offsets = [DataValueField \<mapsto> 4, BlockField \<mapsto> 8], slotSize = 12\<rparr>"

lemmas demo_index_simps = demo_leaf_def demo_dir_def schema_Type_def sch_lookup_def AddIntField_def AddField_def Add_def NewSchema_def
  BlockField_def IDField_def DataValueField_def

lemma demo_dir_layout: "NewLayout (dir_schema demo_leaf) = Inr demo_dir"
  by (simp add: NewLayout_def layout_in_order_def sort_fields_def demo_index_simps lengthInBytes_def Let_def rbind_def
    alignmentRequirement_def type_codes IntSize_def align_up_def go_mod_def maxAlignment_def)

lemma demo_wf:
  "bt_wf (leaf_at 1 ''i.leaf'' demo_leaf 0) 128" "bt_wf (leaf_at 1 ''i.dir'' demo_dir 0) 128" "bt_cap (leaf_at 1 ''i.leaf'' demo_leaf 0) 128 = 7"
  by (simp_all add: bt_wf_def layout_wf_def field_ok_def demo_index_simps lay_Offset_def size_of_def lengthInBytes_def Let_def
    alignmentRequirement_def type_codes IntSize_def value_pos_def MaxLength_def NewBlockId_def headerSize_def bt_cap_def)

lemma demo_names: "storable_string ''i.leaf''" "storable_string ''i.dir''"
  by (simp add: storable_string_def, code_simp)+

lemma demo_takes: "int32_range k \<Longrightarrow> int32_range b \<Longrightarrow> int32_range n \<Longrightarrow> leaf_takes (leaf_at t ''i.leaf'' demo_leaf 0) (VInt k) (NewID b n)"
  by (auto simp: leaf_takes_def val_in_def demo_index_simps size_of_def lengthInBytes_def Let_def type_codes IntSize_def NewID_def)

lemma demo_new_db:
  assumes "n = 0 \<or> n = 1"
  obtains s :: mdb where "pool_inv s" and "pins_are s 1 []" and "card (own_buffers s 1) = 3" and "blockSize s = 128"
    and "\<And>b. can_xlock s 1 b" and "logFile s = ''godb.log''" and "nblocks s ''i.leaf'' = int n" and "nblocks s ''i.dir'' = 0"
    and "n = 1 \<Longrightarrow> blk_view s (NewBlockId ''i.leaf'' 0) = replicate 128 0"
proof -
  let ?d = "Some [''i.leaf'' \<mapsto> replicate (128 * n) 0]"
  let ?f = "fm_NewManager ?d 128"
  have bs: "blockSize ?f = 128" by (simp add: fm_NewManager_def)
  have f: "fm_wf ?f" "nblocks ?f ''godb.log'' = 0" and nb: "nblocks ?f ''i.leaf'' = int n" "nblocks ?f ''i.dir'' = 0"
    using assms by (auto simp: fm_wf_def nblocks_def fm_NewManager_def fileBytes_def)
  have d: "disk_block ?f (NewBlockId ''i.leaf'' 0) = replicate 128 0" if "n = 1"
    using that by (simp add: disk_block_def NewBlockId_def bs) (simp add: fm_NewManager_def fileBytes_def bslice_def)
  obtain s where s: "NewGoDBWithOptions ?d 128 3 = Inr s" "pool_inv s" "blockSize s = 128"
    "logFile s = ''godb.log''" "pins_are s 1 []" "own_buffers s 1 = {..<3}" and xl: "\<And>b. can_xlock s 1 b"
    and n: "\<And>n. n \<noteq> ''godb.log'' \<Longrightarrow> nblocks s n = nblocks ?f n"
    and v: "\<And>c. in_file ?f c \<Longrightarrow> blk_view s c = disk_block ?f c"
    by (rule NewGoDBWithOptions_fresh [OF f, of 3 1]) simp_all
  have "blk_view s (NewBlockId ''i.leaf'' 0) = replicate 128 0" if "n = 1"
    using v [of "NewBlockId ''i.leaf'' 0"] d [OF that] nb that by (simp add: in_file_def NewBlockId_def)
  then show thesis using that [of s] s xl n nb by simp
qed

lemma demo_index:
  obtains s :: mdb where "pool_inv s" and "pins_are s 1 []" and "card (own_buffers s 1) = 3" and "blockSize s = 128"
    and "new_file 1 (leafFile ''i'') demo_leaf s" and "new_file 1 (dirFile ''i'') demo_dir s" and "\<And>b. can_xlock s 1 b"
proof -
  obtain s :: mdb where s: "pool_inv s" "pins_are s 1 []" "card (own_buffers s 1) = 3" "blockSize s = 128"
    "\<And>b. can_xlock s 1 b" "logFile s = ''godb.log''" "nblocks s ''i.leaf'' = int 0" "nblocks s ''i.dir'' = 0"
    by (rule demo_new_db [of 0]) simp_all
  show thesis
    by (rule that [OF s(1-4)])
      (use s demo_wf demo_names in \<open>simp_all add: new_file_def leafFile_def dirFile_def int32_range_def\<close>)
qed

lemma demo_leaf_page:
  obtains s :: mdb where "pool_inv s" and "pins_are s 1 [NewBlockId ''i.leaf'' 0]" and "card (own_buffers s 1) = 3"
    and "bt_page (leaf_at 1 ''i.leaf'' demo_leaf 0) s [] 0 0" and "may_split (leaf_at 1 ''i.leaf'' demo_leaf 0) s" and "blockSize s = 128"
proof -
  let ?b = "NewBlockId ''i.leaf'' 0"
  obtain s :: mdb where s: "pool_inv s" "pins_are s 1 []" "card (own_buffers s 1) = 3" "blockSize s = 128"
    "\<And>b. can_xlock s 1 b" "logFile s = ''godb.log''" "nblocks s ''i.leaf'' = int 1" "nblocks s ''i.dir'' = 0"
    and v: "blk_view s ?b = replicate 128 0"
    by (rule demo_new_db [of 1]) simp_all
  have room: "length [] < card (own_buffers s 1)" using s(3) by simp
  have blk: "in_file s ?b" "File ?b \<noteq> logFile s" using s(6,7) by (simp_all add: in_file_def NewBlockId_def)
  obtain s2 where s2: "tx_Pin 1 ?b s = (Inr (), s2)" "pool_inv s2" "pins_are s2 1 [?b]" "own_buffers s2 1 = own_buffers s 1" "calm 1 s s2" "same_locks s s2"
    by (rule tx_Pin_spec [OF s(1,2) room blk])
  note sp = spares_calm [OF s2(5,6,4)]
  have lock: "can_xlock s2 1 b" for b using sp s(5) by (simp add: spares_def)
  have same: "blockSize s2 = 128" "logFile s2 = ''godb.log''" "nblocks s2 ''i.leaf'' = 1" "blk_view s2 ?b = replicate 128 0"
    using s2(5) s(4,6,7) v blk by (simp_all add: calm_def)
  have home: "bt_home (leaf_at 1 ''i.leaf'' demo_leaf 0) s2"
    using same lock demo_wf(1) demo_names(1) by (simp add: bt_home_def in_file_def NewBlockId_def int32_range_def)
  have "bt_page (leaf_at 1 ''i.leaf'' demo_leaf 0) s2 [] 0 0"
    by (rule bt_slots_new [OF home s2(2), of "[?b]"]) (use s2(3) same in simp_all)
  moreover have "may_split (leaf_at 1 ''i.leaf'' demo_leaf 0) s2"
    using lock same by (simp add: may_split_def int32_range_def NewBlockId_def)
  ultimately show thesis using that [of s2] s2(2,3) s2(4) s(3) same(1) by simp
qed

lemma demo_btree:
  obtains ix and s :: mdb where "btree ix s 0 [(None, 0, [])]" and "insert_ready ix s 0 [] 20" and "bi_leaf ix = None" and "key_type ix = Integer"
    and "bi_tx ix = 1" and "card (own_buffers s 1) = 3" and "bt_cap (ix_leaf ix 0) (blockSize s) = 7"
    and "\<And>k b n. int32_range k \<Longrightarrow> int32_range b \<Longrightarrow> int32_range n \<Longrightarrow> leaf_takes (ix_leaf ix 0) (VInt k) (NewID b n)"
proof -
  obtain s :: mdb where s: "pool_inv s" "pins_are s 1 []" "card (own_buffers s 1) = 3" "blockSize s = 128"
    "new_file 1 (leafFile ''i'') demo_leaf s" "new_file 1 (dirFile ''i'') demo_dir s" and lock: "\<And>b. can_xlock s 1 b"
    by (rule demo_index) blast
  have room: "length [] < card (own_buffers s 1)" using s(3) by simp
  have lay: "leaf_layout demo_leaf (VInt 5)" using leaf_takes_layout [OF demo_takes, of 5 1 1 1] by (simp add: int32_range_def)
  obtain ix s1 where ix: "pool_inv s1" "pins_are s1 1 []" "spares 1 {NewBlockId (leafFile ''i'') 0, NewBlockId (dirFile ''i'') 0} s s1"
    "btree ix s1 0 [(None, 0, [])]" "bi_leaf ix = None" and f: "bi_tx ix = 1" "bi_name ix = ''i''" "bi_leafLayout ix = demo_leaf" "bi_dirLayout ix = demo_dir"
    by (rule NewIndex_btree [OF demo_dir_layout s(5,6,1,2) room lay]) blast
  have same: "own_buffers s1 1 = own_buffers s 1" "blockSize s1 = 128" using ix(3) s(4) by (simp_all add: spares_def)
  have caps: "bt_cap (leaf_at 1 (leafFile ''i'') demo_leaf 0) 128 = 7" "bt_cap (leaf_at 1 (dirFile ''i'') demo_dir 0) 128 = 9"
    by (simp_all add: bt_cap_def demo_index_simps headerSize_def IntSize_def)
  have "insert_ready ix s1 0 [] 20"
    by (rule new_index_ready [OF s(5,6) lock ix(3,1,2) _ _ _ _ f]) (use s(3,4) caps in simp_all)
  moreover have "leaf_takes (ix_leaf ix 0) (VInt k) (NewID b n)" if "int32_range k" "int32_range b" "int32_range n" for k b n
    using demo_takes [OF that, of 1] by (simp add: f leafFile_def)
  moreover have "key_type ix = Integer" using lay by (simp add: f leaf_layout_def)
  ultimately show thesis using that [OF ix(4)] ix(5) f(1) same s(3) caps(1) by (simp add: f)
qed

text \<open>The same index with one entry.\<close>

lemma demo_btree_one:
  obtains ix and s :: mdb and h T where "btree ix s h T" and "all_entries T = [leaf_entry (VInt 5) (NewID 3 4)]" and "h \<le> 1" and "length T \<le> 2"
    and "bi_leaf ix = None" and "key_type ix = Integer" and "pool_inv s" and "pins_are s (bi_tx ix) []" and "card (own_buffers s (bi_tx ix)) = 3"
proof -
  obtain ix and s :: mdb where s: "btree ix s 0 [(None, 0, [])]" "insert_ready ix s 0 [] 20" "bi_leaf ix = None" "key_type ix = Integer" "bi_tx ix = 1"
      "card (own_buffers s 1) = 3"
    and t: "\<And>k b n. int32_range k \<Longrightarrow> int32_range b \<Longrightarrow> int32_range n \<Longrightarrow> leaf_takes (ix_leaf ix 0) (VInt k) (NewID b n)"
    by (rule demo_btree) blast
  have tk: "leaf_takes (ix_leaf ix 0) (VInt 5) (NewID 3 4)" by (rule t) (simp_all add: int32_range_def)
  obtain s1 h T where i: "btree ix s1 h T" "all_entries T = leaf_put (VInt 5) (NewID 3 4) (all_entries [(None, 0, [])])" "h = 0 \<or> h = Suc 0"
    "pool_inv s1" "pins_are s1 (bi_tx ix) []" "spares (bi_tx ix) {c. File c = leafFile (bi_name ix) \<or> File c = dirFile (bi_name ix)} s s1"
    "length T \<le> Suc (length [(None :: val option, 0 :: int, [] :: entry list)])"
    by (rule btree_insert [OF s(1) tk _ s(2)]) auto
  have "all_entries T = [leaf_entry (VInt 5) (NewID 3 4)]" unfolding i(2) by (simp add: leaf_put_def)
  moreover have "h \<le> 1" "length T \<le> 2" using i(3,7) by auto
  moreover have "card (own_buffers s1 (bi_tx ix)) = 3" using i(6) s(5,6) by (simp add: spares_def)
  ultimately show thesis using that i(1,4,5) s(3,4) by blast
qed

section \<open>Properties of the index\<close>

text \<open>Inserting into a leaf keeps the entries sorted by key and adds exactly the new entry, whether
  the leaf has room or is split. After a split the right half is on a new page, at the end of the
  file, that takes over the link to the next leaf, and the old page links to it; the key and block handed to
  the directory separate the halves. Nothing outside the leaf's block and the new one changes, and the pins are as
  before (on the page the leaf ends up with). A block must have room for two entries, and the transaction
  for one more pin and the locks of the split.\<close>

theorem leaf_insert_sorted:
  assumes "leaf_on l p" and "bt_page p s L x1 x2" and "leaf_takes p key rid" and "bt_sorted L"
    and "2 \<le> bt_cap p (blockSize s)" and "pins_are s (bp_tx p) (bp_block p # bs)"
    and "Suc (length bs) < card (own_buffers s (bp_tx p))" and "may_split p s"
  shows "\<exists>r l' s' A B. lf_insert (Some key) rid (l, s) = (Inr r, (l', s')) \<and> pool_inv s' \<and>
    pins_are s' (bp_tx p) (bp_block (the (lf_page l')) # bs) \<and> spares (bp_tx p) {bp_block p, bp_block (next_page p s)} s s' \<and>
    bt_sorted (A @ B) \<and> mset (A @ B) = add_mset (leaf_entry key rid) (mset L) \<and>
    (case r of None \<Rightarrow> B = [] \<and> bt_stored p s' A x1 x2
     | Some (sk, k) \<Rightarrow> bt_stored p s' A k x2 \<and>
         bt_stored (page_at (bp_tx p) (NewBlockId (File (bp_block p)) k) (bp_layout p)) s' B x1 (- 1) \<and>
         (\<exists>v. sk = Some v \<and> (\<forall>e \<in> set A. vcmp (bt_key e) v \<le> 0) \<and> (\<forall>e \<in> set B. 0 \<le> vcmp (bt_key e) v)))"
proof -
  have lp: "lf_page l = Some p" using assms(1) by (simp add: leaf_on_def)
  have inv: "pool_inv s" by (rule bt_page_inv [OF assms(2)])
  have ty: "\<forall>e \<in> set L. val_type (bt_key e) = val_type key"
    using bt_page_val [OF assms(2)] assms(3) by (auto simp: leaf_takes_def val_in_def)
  show ?thesis
  proof (cases "length L < bt_cap p (blockSize s)")
    case True
    obtain s' where s': "lf_insert (Some key) rid (l, s) = (Inr None, (l, s'))" "touches p s s'"
      "bt_page p s' (leaf_put key rid L) x1 x2"
      using lf_insert_room [OF lp assms(2,3) True] by blast
    have "pool_inv s'" "pins_are s' (bp_tx p) (bp_block (the (lf_page l)) # bs)"
      using s'(2) inv assms(6) lp by (auto simp: touches_def)
    then show ?thesis
      using s' spares_mono [OF spares_touches [OF s'(2)], of "{bp_block p, bp_block (next_page p s)}"] bt_page_stored [OF s'(3)] leaf_put_sorted [OF assms(4) ty] leaf_put_mset
      by (intro exI [of _ None] exI [of _ l] exI [of _ s'] exI [of _ "leaf_put key rid L"] exI [of _ "[]"]) simp
  next
    case False
    have full: "bt_cap p (blockSize s) = length L" "2 \<le> length L" using False bt_page_size [OF assms(2)] assms(5) by simp_all
    let ?A = "take (length L div 2) L" and ?D = "drop (length L div 2) L" and ?k = "nblocks s (File (bp_block p))"
    obtain e B where eB: "?D = e # B" using full(2) by (cases ?D) auto
    obtain s' where s': "lf_insert (Some key) rid (l, s) = (Inr (Some (Some (bt_key (hd ?D)), ?k)), (leaf_after l (next_page p s) key L, s'))"
      "pool_inv s'" "pins_are s' (bp_tx p) (bp_block (the (lf_page (leaf_after l (next_page p s) key L))) # bs)"
      "spares (bp_tx p) {bp_block p, bp_block (next_page p s)} s s'" "leaf_halves p (next_page p s) key rid L s' x1 x2"
      by (rule lf_insert_full [OF assms(1-4) full assms(6-8)])
    define A' where "A' = (if vcmp key (bt_key e) < 0 then leaf_put key rid ?A else ?A)"
    define B' where "B' = (if vcmp key (bt_key e) < 0 then e # B else leaf_put key rid (e # B))"
    have L: "L = ?A @ e # B" unfolding eB [symmetric] by simp
    have st: "bt_stored p s' A' ?k x2" "bt_stored (next_page p s) s' B' x1 (- 1)"
      using s'(5) unfolding leaf_halves_def Let_def eB A'_def B'_def by (simp_all add: NewBlockId_def)
    have ty': "\<forall>x \<in> set (?A @ e # B). val_type (bt_key x) = val_type key" and so: "bt_sorted (?A @ e # B)"
      using ty assms(4) unfolding L [symmetric] by simp_all
    note h = halves_sorted [OF so ty' A'_def B'_def]
    show ?thesis
      using s'(1-4) st h unfolding L [symmetric] eB
      by (intro exI [of _ "Some (Some (bt_key e), ?k)"] exI [of _ "leaf_after l (next_page p s) key L"] exI [of _ s'] exI [of _ A'] exI [of _ B']) simp
  qed
qed

lemma leaf_insert_sorted_witness:
  "\<exists>(s :: mdb) l r l' s' A B. lf_insert (Some (VInt 5)) (NewID 3 4) (l, s) = (Inr r, (l', s')) \<and> bt_sorted (A @ B) \<and>
     mset (A @ B) = {#leaf_entry (VInt 5) (NewID 3 4)#}"
proof -
  let ?p = "leaf_at 1 ''i.leaf'' demo_leaf 0"
  let ?l = "\<lparr>lf_tx = 1, lf_layout = demo_leaf, lf_key = None, lf_page = Some ?p, lf_slot = 0, lf_file = ''i.leaf''\<rparr>"
  obtain s :: mdb where s: "pool_inv s" "pins_are s 1 [NewBlockId ''i.leaf'' 0]" "card (own_buffers s 1) = 3"
    "bt_page ?p s [] 0 0" "may_split ?p s" "blockSize s = 128" by (rule demo_leaf_page)
  have l: "leaf_on ?l ?p" by (simp add: leaf_on_def NewBlockId_def)
  have t: "leaf_takes ?p (VInt 5) (NewID 3 4)" by (rule demo_takes) (simp_all add: int32_range_def)
  have r: "bt_sorted []" "2 \<le> bt_cap ?p (blockSize s)" "pins_are s (bp_tx ?p) [bp_block ?p]" "Suc (length []) < card (own_buffers s (bp_tx ?p))"
    using s(2,3,6) demo_wf(3) by (simp_all add: bt_sorted_def)
  from leaf_insert_sorted [OF l s(4) t r s(5)] show ?thesis unfolding mset.simps by blast
qed

text \<open>C9. A search finds exactly the entries with its key. When the directory, of whatever height, leads the key to the
  front of a chain of leaves whose keys are sorted, \<open>BeforeFirst\<close> followed by \<open>Next\<close> and \<open>GetDataRecordID\<close>
  until \<open>Next\<close> says false returns the record identifiers of those entries of the chain that have the key, in
  order and across the pages. No block changes, and \<open>Close\<close> gives back every pin. The transaction needs one
  buffer for each level.\<close>

theorem index_search_finds:
  assumes "bi_leaf ix = None" and "index_leads ix h s key C" and "pool_inv s" and "pins_are s (bi_tx ix) bs"
    and "length bs + h < card (own_buffers s (bi_tx ix))" and "h < n"
    and "length (filter (has_key key) (chain_entries C)) < m" and "chain_steps C < n"
  shows "\<exists>ix' s' s''. bnd (bi_BeforeFirst n (Some key)) (\<lambda>_. index_rids m n) (ix, s) =
      (Inr (map entry_rid (filter (has_key key) (chain_entries C))), (ix', s')) \<and>
    bi_Close (ix', s') = (Inr (), (ix, s'')) \<and> pins_are s'' (bi_tx ix) bs \<and> spares (bi_tx ix) {} s s''"
proof -
  obtain l s' C' where f: "bnd (bi_BeforeFirst n (Some key)) (\<lambda>_. index_rids m n) (ix, s) =
      (Inr (map entry_rid (filter (has_key key) (chain_entries C))), (ix\<lparr>bi_leaf := Some l\<rparr>, s'))"
    and w: "walking (bi_tx ix) (leafFile (bi_name ix)) (bi_leafLayout ix) key bs l s' C'" and sp: "spares (bi_tx ix) {} s s'"
    by (rule index_finds [OF assms])
  obtain s'' where c: "lf_close (l, s') = (Inr (), (l\<lparr>lf_page := None\<rparr>, s''))" "pins_are s'' (bi_tx ix) bs" "spares (bi_tx ix) {} s' s''"
    by (rule lf_close_walking [OF w]) blast
  have "ix\<lparr>bi_leaf := None\<rparr> = ix" using assms(1) by (cases ix) simp
  then have "bi_Close (ix\<lparr>bi_leaf := Some l\<rparr>, s') = (Inr (), (ix, s''))"
    using c(1) by (simp add: bi_Close_def on_leaf_def obj_gets_def obj_upd_def bnd_def go_unfold)
  then show ?thesis using f c(2) spares_trans [OF sp c(3)] by auto
qed

lemma index_search_finds_witness:
  "\<exists>ix (s :: mdb) ix' s'. bnd (bi_BeforeFirst 2 (Some (VInt 5))) (\<lambda>_. index_rids 2 2) (ix, s) = (Inr [], (ix', s'))"
proof -
  obtain ix and s :: mdb where s: "btree ix s 0 [(None, 0, [])]" "insert_ready ix s 0 [] 20" "bi_leaf ix = None" "key_type ix = Integer"
    by (rule demo_btree) blast
  have "val_type (VInt 5) = key_type ix" using s(4) by simp
  then obtain T1 v k L T2 where T: "[(None, 0, [])] = T1 @ (v, k, L) # T2" "index_leads ix 0 s (VInt 5) ((k, L) # leaves T2)"
    by (rule btree_leads [OF s(1)]) blast
  have e: "k = 0" "L = []" "T2 = []" using T(1) by (cases T1; simp)+
  have r: "pool_inv s" "pins_are s (bi_tx ix) []" "length [] + 0 < card (own_buffers s (bi_tx ix))" using s(2) by (auto simp: insert_ready_def)
  from index_search_finds [OF s(3) T(2) [unfolded e] r, of 2 2] show ?thesis by (auto simp: chain_steps_def)
qed

text \<open>C17. A new index is the empty tree. \<open>NewIndex\<close> on files without blocks makes one leaf and one directory page, which
  is the root; the index then stands for the empty list of entries. Only those two blocks are added, and
  every pin is given back.\<close>

theorem new_index_empty:
  assumes "NewLayout (dir_schema lay) = Inr dlay" and "leaf_layout lay key" and "new_file t (leafFile n) lay s" and "new_file t (dirFile n) dlay s"
    and "pool_inv s" and "pins_are s t bs" and "length bs < card (own_buffers s t)"
  shows "\<exists>ix s'. btree_NewIndex t n lay s = (Inr ix, s') \<and> btree ix s' 0 [(None, 0, [])] \<and> bi_leaf ix = None \<and> pool_inv s' \<and>
    pins_are s' t bs \<and> spares t {NewBlockId (leafFile n) 0, NewBlockId (dirFile n) 0} s s'"
  by (rule NewIndex_btree [OF assms(1,3-7,2)]) blast

lemma new_index_empty_witness:
  "\<exists>(s :: mdb) ix s'. btree_NewIndex 1 ''i'' demo_leaf s = (Inr ix, s') \<and> btree ix s' 0 [(None, 0, [])]"
proof -
  obtain s :: mdb where s: "pool_inv s" "pins_are s 1 []" "card (own_buffers s 1) = 3" "blockSize s = 128"
    "new_file 1 (leafFile ''i'') demo_leaf s" "new_file 1 (dirFile ''i'') demo_dir s"
    by (rule demo_index) blast
  have room: "length [] < card (own_buffers s 1)" using s(3) by simp
  have "leaf_layout demo_leaf (VInt 5)" using leaf_takes_layout [OF demo_takes, of 5 1 1 1] by (simp add: int32_range_def)
  from new_index_empty [OF demo_dir_layout this s(5,6,1,2) room] show ?thesis by blast
qed

text \<open>C5. Insertion refines insertion into a sorted list. An index that is a tree of height \<open>h\<close>, with the sorted entries
  \<open>all_entries T\<close> of distinct keys in its leaves, takes any new key: \<open>Insert\<close> returns, whichever leaf and directory
  pages it splits and whether or not the root moves down, and the index is a tree again, for the entries with the new one in its
  place. The height grows by at most one, every pin is given back, and no other file changes. The transaction needs
  the locks, page numbers and buffers of \<open>insert_ready\<close>.\<close>

theorem index_insert_refines:
  assumes "btree ix s h T" and "leaf_takes (ix_leaf ix 0) key rid" and "\<forall>e \<in> set (all_entries T). \<not> has_key key e" and "insert_ready ix s h bs n"
  shows "\<exists>s' h' T'. bi_Insert n (Some key) rid (ix, s) = (Inr (), (ix, s')) \<and> btree ix s' h' T' \<and>
    all_entries T' = leaf_put key rid (all_entries T) \<and> (h' = h \<or> h' = Suc h) \<and> pool_inv s' \<and> pins_are s' (bi_tx ix) bs \<and>
    spares (bi_tx ix) {c. File c = leafFile (bi_name ix) \<or> File c = dirFile (bi_name ix)} s s'"
  by (rule btree_insert [OF assms]) blast

lemma index_insert_refines_witness:
  "\<exists>ix (s :: mdb) s' h T. bi_Insert 20 (Some (VInt 5)) (NewID 3 4) (ix, s) = (Inr (), (ix, s')) \<and> btree ix s' h T \<and>
     all_entries T = [leaf_entry (VInt 5) (NewID 3 4)]"
proof -
  obtain ix and s :: mdb where s: "btree ix s 0 [(None, 0, [])]" "insert_ready ix s 0 [] 20"
    and t: "\<And>k b n. int32_range k \<Longrightarrow> int32_range b \<Longrightarrow> int32_range n \<Longrightarrow> leaf_takes (ix_leaf ix 0) (VInt k) (NewID b n)"
    by (rule demo_btree) blast
  have "leaf_takes (ix_leaf ix 0) (VInt 5) (NewID 3 4)" by (rule t) (simp_all add: int32_range_def)
  from index_insert_refines [OF s(1) this _ s(2)] obtain s' h T where i: "bi_Insert 20 (Some (VInt 5)) (NewID 3 4) (ix, s) = (Inr (), (ix, s'))"
    "btree ix s' h T" "all_entries T = leaf_put (VInt 5) (NewID 3 4) (all_entries [(None, 0, [])])" by auto
  have "all_entries T = [leaf_entry (VInt 5) (NewID 3 4)]" unfolding i(3) by (simp add: leaf_put_def)
  then show ?thesis using i(1,2) by blast
qed

text \<open>C8. What was inserted is found, and nothing else changes for a search. After \<open>Insert\<close> of a new key, with all the splits that
  takes, \<open>BeforeFirst\<close>, reading the index until \<open>Next\<close> says false, and \<open>Close\<close> give exactly the new record identifier for that
  key, and for every other key what its entries gave before. This is the contract of an index, on the B+ tree.\<close>

theorem index_insert_then_search:
  assumes "bi_leaf ix = None" and "btree ix s h T" and "leaf_takes (ix_leaf ix 0) key rid" and "\<forall>e \<in> set (all_entries T). \<not> has_key key e"
    and "insert_ready ix s h bs n" and "Suc h < n" and "length (all_entries T) + length T + 2 < n" and "val_type key = val_type k" and "length (all_entries T) + 1 < m"
  shows "\<exists>s'. bnd (bi_Insert n (Some key) rid) (\<lambda>_. bnd (bi_BeforeFirst n (Some k)) (\<lambda>_. bnd (index_rids m n) (\<lambda>rs. bnd bi_Close (\<lambda>_. ret rs)))) (ix, s) =
    (Inr (if vcmp key k = 0 then [rid] else found_rids k (all_entries T)), s')"
proof -
  have rd: "pool_inv s" "pins_are s (bi_tx ix) bs" "length bs + h < card (own_buffers s (bi_tx ix))" "h < n"
    using assms(5) by (simp_all add: insert_ready_def)
  have "tree_holds bs m n (ix, s) (all_entries T)" 
    unfolding tree_holds_def prod.case using assms(1,2,7,9) rd by (intro conjI exI [of _ h] exI [of _ T]) simp_all
  moreover have "tree_ready bs m n (ix, s) (all_entries T) key rid" unfolding tree_ready_def using assms(2,3,5-7,9) by auto
  ultimately show ?thesis by (rule tree.insert_then_search [OF _ _ assms(4,8)])
qed

lemma index_insert_then_search_witness:
  "\<exists>ix (s :: mdb) s'. bnd (bi_Insert 20 (Some (VInt 5)) (NewID 3 4)) (\<lambda>_. bnd (bi_BeforeFirst 20 (Some (VInt 5))) (\<lambda>_.
     bnd (index_rids 2 20) (\<lambda>rs. bnd bi_Close (\<lambda>_. ret rs)))) (ix, s) = (Inr [NewID 3 4], s')"
proof -
  obtain ix and s :: mdb where s: "btree ix s 0 [(None, 0, [])]" "insert_ready ix s 0 [] 20" "bi_leaf ix = None"
    and t: "\<And>k b n. int32_range k \<Longrightarrow> int32_range b \<Longrightarrow> int32_range n \<Longrightarrow> leaf_takes (ix_leaf ix 0) (VInt k) (NewID b n)"
    by (rule demo_btree) blast
  have "leaf_takes (ix_leaf ix 0) (VInt 5) (NewID 3 4)" by (rule t) (simp_all add: int32_range_def)
  from index_insert_then_search [OF s(3,1) this _ s(2), of "VInt 5" 2]
  have "\<exists>s'. bnd (bi_Insert 20 (Some (VInt 5)) (NewID 3 4)) (\<lambda>_. bnd (bi_BeforeFirst 20 (Some (VInt 5))) (\<lambda>_.
     bnd (index_rids 2 20) (\<lambda>rs. bnd bi_Close (\<lambda>_. ret rs)))) (ix, s) = (Inr [NewID 3 4], s')" by simp
  then show ?thesis by blast
qed

text \<open>C11. After \<open>Delete\<close> of a key and a record identifier, \<open>BeforeFirst\<close>, reading the index until \<open>Next\<close> says false, and
  \<open>Close\<close> give for that key the identifiers it had without the first occurrence of the deleted one, and for every
  other key what its entries gave before. This is the contract of an index, on the B+ tree.\<close>

theorem index_delete_then_search:
  assumes "bi_leaf ix = None" and "btree ix s h T" and "val_type key = key_type ix" and "val_type key = val_type k" and "pool_inv s" and "pins_are s (bi_tx ix) bs"
    and "length bs + h < card (own_buffers s (bi_tx ix))" and "h < n" and "length (all_entries T) + length T < n" and "length (all_entries T) < m"
  shows "\<exists>s'. bnd (bi_Delete n (Some key) rid) (\<lambda>_. bnd (bi_BeforeFirst n (Some k)) (\<lambda>_. bnd (index_rids m n) (\<lambda>rs. bnd bi_Close (\<lambda>_. ret rs)))) (ix, s) =
    (Inr (if vcmp key k = 0 then remove1 rid (found_rids k (all_entries T)) else found_rids k (all_entries T)), s')"
proof -
  have "tree_holds bs m n (ix, s) (all_entries T)" unfolding tree_holds_def using assms by auto
  moreover have "tree_typed (ix, s) key" using assms(3) by (simp add: tree_typed_def)
  ultimately show ?thesis by (rule tree.delete_then_search [OF _ _ assms(4)])
qed

lemma index_delete_then_search_witness:
  "\<exists>ix (s :: mdb) T h s'. found_rids (VInt 5) (all_entries T) = [NewID 3 4] \<and> btree ix s h T \<and>
     bnd (bi_Delete 20 (Some (VInt 5)) (NewID 3 4)) (\<lambda>_. bnd (bi_BeforeFirst 20 (Some (VInt 5))) (\<lambda>_.
     bnd (index_rids 2 20) (\<lambda>rs. bnd bi_Close (\<lambda>_. ret rs)))) (ix, s) = (Inr [], s')"
proof -
  obtain ix and s :: mdb and h T where s: "btree ix s h T" "all_entries T = [leaf_entry (VInt 5) (NewID 3 4)]" "h \<le> 1" "length T \<le> 2" "bi_leaf ix = None"
    "key_type ix = Integer" "pool_inv s" "pins_are s (bi_tx ix) []" "card (own_buffers s (bi_tx ix)) = 3"
    by (rule demo_btree_one)
  have f: "found_rids (VInt 5) (all_entries T) = [NewID 3 4]" unfolding s(2) by (simp add: found_rids_def has_key_def)
  have "val_type (VInt 5) = key_type ix" "length [] + h < card (own_buffers s (bi_tx ix))" "h < 20" "length (all_entries T) + length T < 20"
    "length (all_entries T) < 2" using s by simp_all
  from index_delete_then_search [OF s(5,1) this(1) refl s(7,8) this(2-5), of "NewID 3 4"]
  have "\<exists>s'. bnd (bi_Delete 20 (Some (VInt 5)) (NewID 3 4)) (\<lambda>_. bnd (bi_BeforeFirst 20 (Some (VInt 5))) (\<lambda>_.
     bnd (index_rids 2 20) (\<lambda>rs. bnd bi_Close (\<lambda>_. ret rs)))) (ix, s) = (Inr [], s')" unfolding f by simp
  then show ?thesis using f s(1) by blast
qed

text \<open>C10. Deletion refines cutting the entry out of the list. On an index that is a tree, \<open>Delete\<close> of a key and a record
  identifier returns and leaves a tree of the same height whose entries are those from before without the first one that
  has both; if there is none it changes nothing. Every pin is given back, and no block outside the file of the leaves changes.\<close>

theorem index_delete_refines:
  assumes "bi_leaf ix = None" and "btree ix s h T" and "val_type key = key_type ix" and "pool_inv s" and "pins_are s (bi_tx ix) bs"
    and "length bs + h < card (own_buffers s (bi_tx ix))" and "h < n" and "length (all_entries T) + length T < n"
  shows "\<exists>s' T'. bi_Delete n (Some key) rid (ix, s) = (Inr (), (ix, s')) \<and> btree ix s' h T' \<and>
    all_entries T' = cut_first (the_entry key rid) (all_entries T) \<and> pool_inv s' \<and> pins_are s' (bi_tx ix) bs \<and>
    spares (bi_tx ix) {c. File c = leafFile (bi_name ix)} s s'"
  by (rule btree_delete [OF assms]) blast

lemma index_delete_refines_witness:
  "\<exists>ix (s :: mdb) s' h T T'. all_entries T = [leaf_entry (VInt 5) (NewID 3 4)] \<and> btree ix s h T \<and>
     bi_Delete 20 (Some (VInt 5)) (NewID 3 4) (ix, s) = (Inr (), (ix, s')) \<and> btree ix s' h T' \<and> all_entries T' = []"
proof -
  obtain ix and s :: mdb and h T where s: "btree ix s h T" "all_entries T = [leaf_entry (VInt 5) (NewID 3 4)]" "h \<le> 1" "length T \<le> 2" "bi_leaf ix = None"
    "key_type ix = Integer" "pool_inv s" "pins_are s (bi_tx ix) []" "card (own_buffers s (bi_tx ix)) = 3"
    by (rule demo_btree_one)
  have "val_type (VInt 5) = key_type ix" "length [] + h < card (own_buffers s (bi_tx ix))" "h < 20" "length (all_entries T) + length T < 20"
    using s by simp_all
  from index_delete_refines [OF s(5,1) this(1) s(7,8) this(2-4), of "NewID 3 4"] obtain s' T' where d:
    "bi_Delete 20 (Some (VInt 5)) (NewID 3 4) (ix, s) = (Inr (), (ix, s'))" "btree ix s' h T'" "all_entries T' = cut_first (the_entry (VInt 5) (NewID 3 4)) (all_entries T)"
    by blast
  have "all_entries T' = []" unfolding d(3) s(2) by (simp add: the_entry_def has_key_def)
  then show ?thesis using s(1,2) d(1,2) by blast
qed

text \<open>C38. A split loses equal keys. When a full leaf holds only entries of one key and another entry with that key is inserted,
  the leaf is split between equal keys, the separator is the key itself, and a search then starts at the right half: it returns
  the new record identifier and the later half of the old ones, and the entries that stayed on the left are never found again
  by their key. For a new index this happens as soon as one key has one entry more than a block holds.\<close>

theorem index_misses_duplicates:
  assumes "bi_leaf ix = None" and "btree ix s 0 [(None, k, [])]" and "insert_ready ix s 0 bs n" and "\<forall>r \<in> set (r # rs). leaf_takes (ix_leaf ix 0) key r"
    and "length rs = bt_cap (ix_leaf ix 0) (blockSize s)" and "length rs + 1 < m" and "length rs + 2 < n"
  shows "\<exists>ix' s'. bnd (for_each rs (\<lambda>r. bi_Insert n (Some key) r)) (\<lambda>_. bnd (bi_Insert n (Some key) r) (\<lambda>_.
      bnd (bi_BeforeFirst n (Some key)) (\<lambda>_. index_rids m n))) (ix, s) = (Inr (r # drop (length rs div 2) (rev rs)), (ix', s'))"
proof -
  let ?B = "leaf_entry key r # map (leaf_entry key) (drop (length rs div 2) (rev rs))"
  obtain s1 s2 h' j where s: "for_each rs (\<lambda>r. bi_Insert n (Some key) r) (ix, s) = (Inr (), (ix, s1))"
    "bi_Insert n (Some key) r (ix, s1) = (Inr (), (ix, s2))" "pool_inv s2" "pins_are s2 (bi_tx ix) bs"
    "own_buffers s2 (bi_tx ix) = own_buffers s (bi_tx ix)" "h' = 0 \<or> h' = Suc 0" "index_leads ix h' s2 key [(j, ?B)]"
    by (rule same_key_split [OF assms(1-5)])
  have f: "filter (has_key key) (chain_entries [(j, ?B)]) = ?B" by (simp add: has_key_def filter_id_conv)
  have lB: "length ?B \<le> Suc (length rs)" by simp
  have room: "length bs + h' < card (own_buffers s2 (bi_tx ix))" "h' < n" using assms(3,7) s(5,6) by (auto simp: insert_ready_def)
  have len: "length (filter (has_key key) (chain_entries [(j, ?B)])) < m" unfolding f using lB assms(6) by linarith
  have steps: "chain_steps [(j, ?B)] < n" using lB assms(7) by (simp add: chain_steps_def)
  obtain l s3 where s3: "bnd (bi_BeforeFirst n (Some key)) (\<lambda>_. index_rids m n) (ix, s2) =
      (Inr (map entry_rid (filter (has_key key) (chain_entries [(j, ?B)]))), (ix\<lparr>bi_leaf := Some l\<rparr>, s3))"
    by (rule index_finds [OF assms(1) s(7,3,4) room len steps]) blast
  have "map entry_rid ?B = r # drop (length rs div 2) (rev rs)" by (simp add: comp_def)
  then show ?thesis
    using s(1,2) s3 unfolding f by (simp add: bnd_def [of "for_each rs (bi_Insert n (Some key))"] bnd_def [of "bi_Insert n (Some key) r"])
qed

lemma index_misses_duplicates_witness:
  "\<exists>ix (s :: mdb) ix' s'. bnd (for_each (map (NewID 3) [1..7]) (\<lambda>r. bi_Insert 20 (Some (VInt 5)) r)) (\<lambda>_. bnd (bi_Insert 20 (Some (VInt 5)) (NewID 3 8)) (\<lambda>_.
     bnd (bi_BeforeFirst 20 (Some (VInt 5))) (\<lambda>_. index_rids 20 20))) (ix, s) = (Inr (map (NewID 3) [8, 4, 3, 2, 1]), (ix', s'))"
proof -
  obtain ix and s :: mdb where s: "btree ix s 0 [(None, 0, [])]" "insert_ready ix s 0 [] 20" "bi_leaf ix = None" "bt_cap (ix_leaf ix 0) (blockSize s) = 7"
    and t: "\<And>k b n. int32_range k \<Longrightarrow> int32_range b \<Longrightarrow> int32_range n \<Longrightarrow> leaf_takes (ix_leaf ix 0) (VInt k) (NewID b n)"
    by (rule demo_btree) blast
  let ?rs = "map (NewID 3) [1..7]"
  have rs: "?rs = map (NewID 3) [1, 2, 3, 4, 5, 6, 7]" by (simp add: upto.simps)
  have tk: "\<forall>r \<in> set (NewID 3 8 # ?rs). leaf_takes (ix_leaf ix 0) (VInt 5) r" unfolding rs using t by (simp add: int32_range_def)
  have "length ?rs = bt_cap (ix_leaf ix 0) (blockSize s)" using s(4) by simp
  from index_misses_duplicates [OF s(3,1,2) tk this, of 20]
  have "\<exists>ix' s'. bnd (for_each ?rs (\<lambda>r. bi_Insert 20 (Some (VInt 5)) r)) (\<lambda>_. bnd (bi_Insert 20 (Some (VInt 5)) (NewID 3 8)) (\<lambda>_.
     bnd (bi_BeforeFirst 20 (Some (VInt 5))) (\<lambda>_. index_rids 20 20))) (ix, s) = (Inr (NewID 3 8 # drop (length ?rs div 2) (rev ?rs)), (ix', s'))"
    by simp
  moreover have "NewID 3 8 # drop (length ?rs div 2) (rev ?rs) = map (NewID 3) [8, 4, 3, 2, 1]" unfolding rs by simp
  ultimately show ?thesis by metis
qed

end
