(* ===== verification/Spec2Isabelle.thy ===== *)
theory Spec2Isabelle
  imports Roundtrip Recovery Indexes
begin

text \<open>
  godb is a small relational database in Go: a client hands SQL text to a planner, which parses it,
  builds a plan, opens the plan as a tree of scans and reads or changes rows through a transaction;
  the transaction pins blocks in a buffer pool, locks them, logs every change and reads and writes
  pages; the file manager moves blocks between pages and files. These theories model that program from
  the page to the planner, one theory per component, and prove what makes the components correct.
  Paths are relative to \<^verbatim>\<open>src/\<close>.

  \<^bold>\<open>How the code is translated.\<close> A call returns a \<open>res\<close>: \<open>Inr x\<close> is a normal return, \<open>Inl (Error e)\<close>
  a returned error, \<open>Inl Panic\<close> a panic (index out of range, nil dereference, division by zero),
  \<open>Inl OutOfFuel\<close> a loop that needed more rounds than it was given. A stateful call is a function
  from the state to a result and the new state (\<open>go\<close>), composed with \<open>bnd\<close>; the state after a failure is
  kept. Go integers are mathematical integers where a computation cannot leave 64 bits (the
  properties say so in their bounds) and wrap explicitly where they can: 32-bit storage of \<open>int\<close>, 64-bit products
  in reduction factors. Bytes are \<open>8 word\<close>, strings are lists of bytes. The state is one record that
  grows with the layers: files (\<open>disk\<close>), log, buffer pool, transaction, open scans. Go objects
  that are shared or mutated behind a pointer (buffers, table scans, B+ tree pages and leaves) are
  values in the state under a number, or travel beside the state.

  \<^bold>\<open>Theories and sources.\<close>
  \<^item> Prelude: results, the state-passing calls, loops over lists, words and byte splices.
  \<^item> Page (\<^verbatim>\<open>file/page.go\<close>): typed access to a byte page; the locale \<open>page_codec\<close> is the contract of one
    type of value, interpreted for the six types.
  \<^item> FileMgr (\<^verbatim>\<open>file/blockid.go\<close>, \<^verbatim>\<open>file/manager.go\<close>): blocks, reading, writing, appending.
  \<^item> LogMgr (\<^verbatim>\<open>log\<close>): the write-ahead log and its iterator. \<open>log_holds s l\<close> says that the log of \<open>s\<close> is
    the list \<open>l\<close>, newest record first; the locale \<open>append_log\<close> is the contract of a log.
  \<^item> BufferMgr (\<^verbatim>\<open>buffer\<close>): the buffer pool. \<open>pool_inv\<close> is its invariant, \<open>blk_view\<close> the contents of a block as
    clients see it; the locale \<open>replacement_strategy\<close> is what the pool needs of a strategy.
  \<^item> LogRecord (\<^verbatim>\<open>tx/log_record.go\<close>, \<^verbatim>\<open>tx/set_*.go\<close>, \<^verbatim>\<open>tx/start.go\<close>, \<^verbatim>\<open>tx/commit.go\<close>, \<^verbatim>\<open>tx/rollback.go\<close>,
    \<^verbatim>\<open>tx/checkpoint.go\<close>): the bytes of log records.
  \<^item> LockTable (\<^verbatim>\<open>tx/concurrency\<close>): locks; \<open>lock_step\<close> is the relation of interleaved transactions.
  \<^item> Tx (\<^verbatim>\<open>tx/transaction.go\<close>, \<^verbatim>\<open>tx/buffer_list.go\<close>, \<^verbatim>\<open>tx/recovery_manager.go\<close>, \<open>Undo\<close>): transactions;
    Pins: accounting for a transaction's pins; Recovery: recovery and the reach of a rollback.
  \<^item> Layout (\<^verbatim>\<open>record/schema.go\<close>, \<^verbatim>\<open>record/field_info.go\<close>, \<^verbatim>\<open>record/alignment.go\<close>, \<^verbatim>\<open>record/layout.go\<close>),
    RecordPage (\<^verbatim>\<open>record/page.go\<close>, \<^verbatim>\<open>record/id.go\<close>): slots of a block.
  \<^item> QueryPred (\<^verbatim>\<open>query/operators.go\<close>, \<^verbatim>\<open>query/expression.go\<close>, \<^verbatim>\<open>query/term.go\<close>, \<^verbatim>\<open>query/predicate.go\<close>).
  \<^item> TableScan (\<^verbatim>\<open>query/scan\<close>, \<^verbatim>\<open>query/table/table_scan.go\<close>), Scans (\<^verbatim>\<open>query/select_scan.go\<close>,
    \<^verbatim>\<open>query/project_scan.go\<close>, \<^verbatim>\<open>query/product_scan.go\<close>); RowScan, TableRows, OpenScans: the rows that they
    enumerate. The locale \<open>row_scan\<close> is the contract between a scan and its reader, \<open>scan_pair\<close> that of
    two scans which do not disturb each other; selection, projection and product are clients. \<open>owned_scan\<close> and
    \<open>owned_pair\<close> add which table scans and pins a scan owns; both are interpreted on table scans.
  \<^item> Lexer (\<^verbatim>\<open>parse/lexer.go\<close>), Parser (\<^verbatim>\<open>parse/parser.go\<close>, \<^verbatim>\<open>parse/predicate_parser.go\<close>, \<^verbatim>\<open>parse/*_data.go\<close>),
    Roundtrip: what is printed and parsed again.
  \<^item> BTree (\<^verbatim>\<open>index/btree\<close>), HashIndex (\<^verbatim>\<open>index/hash\<close>, \<^verbatim>\<open>utils/hash_value.go\<close>).
  \<^item> Catalog (\<^verbatim>\<open>metadata\<close>), Plans (\<^verbatim>\<open>plan\<close>, \<^verbatim>\<open>server/godb.go\<close>), Queries: what a plan returns.

  \<^bold>\<open>What is shown.\<close>
  \<^item> Storage: a value set in a page is read back and no other byte changes; a block read is the block last
    written; the log returns all appended records newest first, survives a restart up to the last
    flushed record; pinning gives a buffer with the block's contents or the abort error, also when
    other goroutines run while it waits; a modified buffer reaches the disk only after its log records.
  \<^item> Transactions: the lock table counts the holders and an exclusive holder is alone, in every reachable
    state of interleaved transactions; commit makes the changes durable; rollback restores every block; recovery
    restores every block whichever unfinished changes had reached the disk.
  \<^item> Records: layouts are aligned and disjoint; searching, inserting and formatting slots.
  \<^item> Queries: comparison agrees with a reference on every type; splitting a predicate keeps its
    meaning; evaluating a plan returns the rows of its relational expression.
  \<^item> SQL: parsing any text ends; a view's text parses back to its query.
  \<^item> Where the code does not do what it means to, a property states what it does instead:
    rollback records that lose their number, rollbacks that undo committed changes, a
    lost wake-up, updates that no table accepts, scans stuck at empty blocks, products read without
    \<open>BeforeFirst\<close>, views with string constants, predicates that no predicate parser accepts.

  \<^bold>\<open>Fuel.\<close> Loops over a list or a range recurse on it. Loops that Go leaves by a condition take fuel:
    the iteration over the log and the recovery loops (one more than the log's length is
    enough), searches in a page (more than the slots of a block), loops over a scan (more than its rows),
    recursion of the parser (one more than the text's length), the descent and the chains of a B+ tree and
    the expansion of views (no bound is stated). Fuel never changes a result that is reached.

  \<^bold>\<open>Parameters.\<close> Unicode tables for runes from 128 on (\<open>unicode\<close>), the text of a time (\<open>st\<close>), and the
    wake-ups of a condition variable (a list of state changes that keep the invariant).

  \<^bold>\<open>Not modelled.\<close> The command line (\<^verbatim>\<open>cmd/godb/main.go\<close>: terminal input and output), \<open>String\<close> methods that only
    print, counters that are only printed, the mutex of the statistics, failures of the operating system, and
    interleaving inside one operation except at the waits named above: inside an operation of a
    transaction no other goroutine runs.

  \<^bold>\<open>Plan.\<close> Still to come: the invariant of a B+ tree page and sorted insertion into it, leaf
  splits; the contents of the catalogs after \<open>CreateTable\<close>; the hash index as a map from values
  to record identifiers.
\<close>

end
